(* ===== verification/Prelude.thy ===== *)
theory Prelude imports Main "HOL-Library.AList" "HOL-Library.Code_Target_Nat" begin

text \<open>
  Shared ground of the development: the result type of code that can throw, the insertion-ordered
  map of JavaScript (\<open>Map\<close> and plain objects with string keys), sparse arrays written by index,
  list surgery in the manner of \<open>Array.prototype.splice\<close>, and the generic lemmas the component
  theories use.
\<close>

named_theorems jsmap \<open>lookup and update laws of insertion-ordered maps\<close>
named_theorems jslist \<open>laws of splice and of indexed writes\<close>

section \<open>Results of code that can throw\<close>

type_synonym ('e, 'a) result = "'e + 'a"

fun rbind :: "('e, 'a) result \<Rightarrow> ('a \<Rightarrow> ('e, 'b) result) \<Rightarrow> ('e, 'b) result" where
  "rbind (Inl e) k = Inl e"
| "rbind (Inr x) k = k x"

lemma rbind_Inr_iff: "rbind r k = Inr y \<longleftrightarrow> (\<exists>x. r = Inr x \<and> k x = Inr y)"
  by (cases r) auto

lemma rbind_Inl_iff: "rbind r k = Inl e \<longleftrightarrow> r = Inl e \<or> (\<exists>x. r = Inr x \<and> k x = Inl e)"
  by (cases r) auto

section \<open>Insertion-ordered maps\<close>

text \<open>
  A JavaScript \<open>Map\<close> iterates its entries in the order the keys were first inserted; \<open>set\<close> on a
  key it holds keeps the key's place, \<open>delete\<close> removes the entry. That is an association list with
  distinct keys, updated by \<open>AList.update\<close> and \<open>AList.delete\<close>.
\<close>

type_synonym ('k, 'v) jsmap = "('k \<times> 'v) list"

abbreviation map_set :: "('k, 'v) jsmap \<Rightarrow> 'k \<Rightarrow> 'v \<Rightarrow> ('k, 'v) jsmap" where
  "map_set m k v \<equiv> AList.update k v m"

abbreviation map_delete :: "('k, 'v) jsmap \<Rightarrow> 'k \<Rightarrow> ('k, 'v) jsmap" where
  "map_delete m k \<equiv> AList.delete k m"

abbreviation map_keys :: "('k, 'v) jsmap \<Rightarrow> 'k list" where
  "map_keys m \<equiv> map fst m"

definition wf_map :: "('k, 'v) jsmap \<Rightarrow> bool" where
  "wf_map m \<longleftrightarrow> distinct (map_keys m)"

lemma wf_map_Nil [simp, intro]: "wf_map []"
  by (simp add: wf_map_def)

lemma wf_map_set [simp, intro]: "wf_map m \<Longrightarrow> wf_map (map_set m k v)"
  by (simp add: wf_map_def distinct_update)

lemma wf_map_delete [simp, intro]: "wf_map m \<Longrightarrow> wf_map (map_delete m k)"
  by (simp add: wf_map_def distinct_delete)

lemma map_get_set [simp, jsmap]: "map_of (map_set m k v) k' = (if k' = k then Some v else map_of m k')"
  by (simp add: update_conv')

lemma map_get_delete [simp, jsmap]: "map_of (map_delete m k) k' = (if k' = k then None else map_of m k')"
  by (simp add: delete_conv')

lemma set_map_set:
  assumes "wf_map m"
  shows "set (map_set m k v) = {(k, v)} \<union> {e \<in> set m. fst e \<noteq> k}"
  using assms unfolding wf_map_def
proof (induction m)
  case Nil
  then show ?case by simp
next
  case (Cons e m)
  obtain k' v' where e: "e = (k', v')" by (cases e)
  show ?case
  proof (cases "k' = k")
    case True
    with Cons.prems e have "\<forall>e' \<in> set m. fst e' \<noteq> k" by force
    with True e show ?thesis by auto
  next
    case False
    with Cons e show ?thesis by auto
  qed
qed

lemma set_map_delete: "set (map_delete m k) = {e \<in> set m. fst e \<noteq> k}"
  by (auto simp: AList.delete_eq)

lemma wf_map_get_iff: "wf_map m \<Longrightarrow> map_of m k = Some v \<longleftrightarrow> (k, v) \<in> set m"
  by (simp add: wf_map_def)

lemma wf_map_filter [simp, intro]: "wf_map m \<Longrightarrow> wf_map (filter P m)"
  unfolding wf_map_def by (induction m) auto

lemma map_set_fresh: "k \<notin> set (map_keys m) \<Longrightarrow> map_set m k v = m @ [(k, v)]"
  by (induction m) auto

section \<open>Splicing and indexed writes\<close>

definition splice :: "'a list \<Rightarrow> nat \<Rightarrow> nat \<Rightarrow> 'a list \<Rightarrow> 'a list" where
  \<comment> \<open>\<open>xs.splice(start, remove, ...insert)\<close> for a \<open>start\<close> that is not negative.\<close>
  "splice xs start remove ins = take start xs @ ins @ drop (start + remove) xs"

lemma splice_0_0 [simp, jslist]: "splice xs 0 0 ys = ys @ xs"
  by (simp add: splice_def)

lemma length_splice [jslist]:
  "start + remove \<le> length xs \<Longrightarrow>
   length (splice xs start remove ys) = length xs - remove + length ys"
  by (simp add: splice_def)

lemma splice_append_right [jslist]:
  "start + remove \<le> length xs \<Longrightarrow> splice (xs @ zs) start remove ys = splice xs start remove ys @ zs"
  by (simp add: splice_def)

lemma splice_mid [jslist]:
  "splice (pre @ mid @ post) (length pre) (length mid) ys = pre @ ys @ post"
  by (simp add: splice_def)

fun set_at :: "'a \<Rightarrow> 'a list \<Rightarrow> nat \<Rightarrow> 'a \<Rightarrow> 'a list" where
  \<comment> \<open>\<open>xs[i] = v\<close>: a write past the end extends the array, the holes reading as \<open>hole\<close>.\<close>
  "set_at hole [] 0 v = [v]"
| "set_at hole [] (Suc i) v = hole # set_at hole [] i v"
| "set_at hole (x # xs) 0 v = v # xs"
| "set_at hole (x # xs) (Suc i) v = x # set_at hole xs i v"

definition get_at :: "'a \<Rightarrow> 'a list \<Rightarrow> nat \<Rightarrow> 'a" where
  \<comment> \<open>\<open>xs[i] ?? hole\<close>\<close>
  "get_at hole xs i = (if i < length xs then xs ! i else hole)"

lemma length_set_at [simp, jslist]: "length (set_at h xs i v) = max (length xs) (Suc i)"
  by (induction h xs i v rule: set_at.induct) auto

lemma nth_set_at [jslist]:
  "j < max (length xs) (Suc i) \<Longrightarrow>
   set_at h xs i v ! j = (if j = i then v else if j < length xs then xs ! j else h)"
proof (induction h xs i v arbitrary: j rule: set_at.induct)
  case (2 hole i v)
  then show ?case by (cases j) auto
next
  case (4 hole x xs i v)
  then show ?case by (cases j) auto
qed (auto simp: nth_Cons')

lemma get_set_at [simp, jslist]:
  "get_at h (set_at h xs i v) j = (if j = i then v else get_at h xs j)"
  by (auto simp: get_at_def nth_set_at)

section \<open>First index with a property\<close>

fun find_index :: "('a \<Rightarrow> bool) \<Rightarrow> 'a list \<Rightarrow> nat option" where
  "find_index P [] = None"
| "find_index P (x # xs) = (if P x then Some 0 else map_option Suc (find_index P xs))"

lemma find_index_SomeD:
  "find_index P xs = Some i \<Longrightarrow> i < length xs \<and> P (xs ! i) \<and> (\<forall>j < i. \<not> P (xs ! j))"
proof (induction xs arbitrary: i)
  case (Cons x xs)
  show ?case
  proof (cases "P x")
    case True
    with Cons.prems show ?thesis by simp
  next
    case False
    with Cons.prems obtain k where k: "find_index P xs = Some k" "i = Suc k" by auto
    with Cons.IH have "k < length xs \<and> P (xs ! k) \<and> (\<forall>j < k. \<not> P (xs ! j))" by blast
    with False k(2) show ?thesis by (auto simp: nth_Cons split: nat.splits)
  qed
qed simp

lemma find_index_None_iff: "find_index P xs = None \<longleftrightarrow> (\<forall>x \<in> set xs. \<not> P x)"
  by (induction xs) auto

lemma find_index_append:
  "find_index P (xs @ ys) =
    (case find_index P xs of Some i \<Rightarrow> Some i | None \<Rightarrow> map_option (\<lambda>i. length xs + i) (find_index P ys))"
proof (induction xs)
  case Nil
  show ?case by (cases "find_index P ys") auto
next
  case (Cons x xs)
  then show ?case by (cases "find_index P ys") (auto split: option.splits)
qed

section \<open>The last element with a property\<close>

fun find_last :: "('a \<Rightarrow> bool) \<Rightarrow> 'a list \<Rightarrow> 'a option" where
  "find_last P [] = None"
| "find_last P (x # xs) =
    (case find_last P xs of Some y \<Rightarrow> Some y | None \<Rightarrow> if P x then Some x else None)"

lemma find_last_append:
  "find_last P (xs @ ys) = (case find_last P ys of Some y \<Rightarrow> Some y | None \<Rightarrow> find_last P xs)"
  by (induction xs) (auto split: option.splits)

lemma find_last_None_iff: "find_last P xs = None \<longleftrightarrow> (\<forall>x \<in> set xs. \<not> P x)"
  by (induction xs) (auto split: option.splits)

lemma find_last_Some_iff:
  "find_last P xs = Some x \<longleftrightarrow>
    (\<exists>ys zs. xs = ys @ x # zs \<and> P x \<and> (\<forall>z \<in> set zs. \<not> P z))"
proof (induction xs)
  case (Cons y xs)
  show ?case
  proof (cases "find_last P xs")
    case None
    then have none: "\<forall>z \<in> set xs. \<not> P z" by (simp add: find_last_None_iff)
    show ?thesis
    proof
      assume "find_last P (y # xs) = Some x"
      with None have "y = x \<and> P x" by (auto split: if_splits)
      with none show "\<exists>ys zs. y # xs = ys @ x # zs \<and> P x \<and> (\<forall>z \<in> set zs. \<not> P z)"
        by (intro exI [of _ "[]"] exI [of _ xs]) simp
    next
      assume "\<exists>ys zs. y # xs = ys @ x # zs \<and> P x \<and> (\<forall>z \<in> set zs. \<not> P z)"
      then obtain ys zs where s: "y # xs = ys @ x # zs" "P x" by blast
      with none have "ys = []" by (cases ys) auto
      with s None show "find_last P (y # xs) = Some x" by simp
    qed
  next
    case (Some w)
    with Cons.IH [of ] have "find_last P (y # xs) = Some x \<longleftrightarrow> w = x" by simp
    also have "w = x \<longleftrightarrow> (\<exists>ys zs. y # xs = ys @ x # zs \<and> P x \<and> (\<forall>z \<in> set zs. \<not> P z))"
    proof
      assume "w = x"
      with Some Cons.IH obtain ys zs where "xs = ys @ x # zs" "P x" "\<forall>z \<in> set zs. \<not> P z"
        by auto
      then show "\<exists>ys zs. y # xs = ys @ x # zs \<and> P x \<and> (\<forall>z \<in> set zs. \<not> P z)"
        by (intro exI [of _ "y # ys"] exI [of _ zs]) simp
    next
      assume "\<exists>ys zs. y # xs = ys @ x # zs \<and> P x \<and> (\<forall>z \<in> set zs. \<not> P z)"
      then obtain ys zs where s: "y # xs = ys @ x # zs" "P x" "\<forall>z \<in> set zs. \<not> P z" by blast
      have "ys \<noteq> []"
      proof
        assume "ys = []"
        with s(1,3) have "\<forall>z \<in> set xs. \<not> P z" by simp
        then have "find_last P xs = None" by (simp add: find_last_None_iff)
        with Some show False by simp
      qed
      with s obtain ys' where "xs = ys' @ x # zs" by (cases ys) auto
      with s Cons.IH have "find_last P xs = Some x" by blast
      with Some show "w = x" by simp
    qed
    finally show ?thesis .
  qed
qed simp

end
