(* ===== verification/JsText.thy ===== *)
theory JsText imports Prelude begin

text \<open>
  JavaScript strings and the \<open>String.prototype\<close> operations the modelled code calls. A string is the
  list of its UTF-16 code units (\<open>nat\<close>), so that \<open>length\<close>, \<open>slice\<close> and indexing count what the
  language counts; a literal of the source is \<open>lit ''...''\<close>.
\<close>

named_theorems jstext \<open>laws of the string operations\<close>

type_synonym jstring = "nat list"

definition lit :: "string \<Rightarrow> jstring" where
  "lit s = map of_char s"

definition LF :: nat where "LF = 10"
definition CR :: nat where "CR = 13"
definition BOM :: nat where "BOM = 65279"

lemma length_lit [simp]: "length (lit s) = length s"
  by (simp add: lit_def)

lemma lit_append: "lit (s @ t) = lit s @ lit t"
  by (simp add: lit_def)

section \<open>White space and trimming\<close>

definition is_ws :: "nat \<Rightarrow> bool" where
  \<comment> \<open>ECMAScript WhiteSpace and LineTerminator: what \<open>trim\<close> removes and \<open>\s\<close> matches.\<close>
  "is_ws c \<longleftrightarrow> (9 \<le> c \<and> c \<le> 13) \<or> c = 32 \<or> c = 160 \<or> c = 5760 \<or> (8192 \<le> c \<and> c \<le> 8202) \<or>
     c = 8232 \<or> c = 8233 \<or> c = 8239 \<or> c = 8287 \<or> c = 12288 \<or> c = 65279"

definition is_word :: "nat \<Rightarrow> bool" where
  \<comment> \<open>\<open>\w\<close>\<close>
  "is_word c \<longleftrightarrow> (48 \<le> c \<and> c \<le> 57) \<or> (65 \<le> c \<and> c \<le> 90) \<or> c = 95 \<or> (97 \<le> c \<and> c \<le> 122)"

definition trim_start :: "jstring \<Rightarrow> jstring" where
  "trim_start s = dropWhile is_ws s"

definition trim_end :: "jstring \<Rightarrow> jstring" where
  "trim_end s = rev (dropWhile is_ws (rev s))"

definition trim :: "jstring \<Rightarrow> jstring" where
  "trim s = trim_end (trim_start s)"

lemma trim_Nil [simp]: "trim [] = []" "trim_end [] = []" "trim_start [] = []"
  by (simp_all add: trim_def trim_end_def trim_start_def)

lemma dropWhile_all_append: "\<forall>c \<in> set w. P c \<Longrightarrow> dropWhile P (w @ s) = dropWhile P s"
  by (induction w) auto

lemma trim_end_append_ws: "\<forall>c \<in> set w. is_ws c \<Longrightarrow> trim_end (s @ w) = trim_end s"
  by (simp add: trim_end_def dropWhile_all_append)

lemma trim_end_prefix: "\<exists>w. s = trim_end s @ w \<and> (\<forall>c \<in> set w. is_ws c)"
proof -
  have "rev (rev s) = rev (takeWhile is_ws (rev s) @ dropWhile is_ws (rev s))"
    by (simp only: takeWhile_dropWhile_id)
  then have "s = trim_end s @ rev (takeWhile is_ws (rev s))"
    by (simp only: trim_end_def rev_append rev_rev_ident)
  moreover have "\<forall>c \<in> set (rev (takeWhile is_ws (rev s))). is_ws c"
    by (auto dest: set_takeWhileD)
  ultimately show ?thesis by blast
qed

lemma trim_start_suffix: "\<exists>w. s = w @ trim_start s \<and> (\<forall>c \<in> set w. is_ws c)"
  unfolding trim_start_def by (intro exI [of _ "takeWhile is_ws s"]) (auto dest: set_takeWhileD)

lemma trim_end_idem [simp, jstext]: "trim_end (trim_end s) = trim_end s"
  by (simp add: trim_end_def)

lemma trim_end_last: "trim_end s \<noteq> [] \<Longrightarrow> \<not> is_ws (last (trim_end s))"
  unfolding trim_end_def by (metis hd_dropWhile last_rev rev_is_Nil_conv)

lemma trim_end_same: "s = [] \<or> \<not> is_ws (last s) \<Longrightarrow> trim_end s = s"
  by (cases s rule: rev_cases) (auto simp: trim_end_def)

lemma trim_start_same: "s = [] \<or> \<not> is_ws (hd s) \<Longrightarrow> trim_start s = s"
  by (cases s) (auto simp: trim_start_def)

lemma trim_same: "s = [] \<or> (\<not> is_ws (hd s) \<and> \<not> is_ws (last s)) \<Longrightarrow> trim s = s"
  by (auto simp: trim_def trim_start_same trim_end_same)

lemma trim_end_Cons: "\<not> is_ws c \<Longrightarrow> trim_end (c # s) = c # trim_end s"
  by (simp add: trim_end_def dropWhile_append)

lemma hd_trim: "trim s \<noteq> [] \<Longrightarrow> \<not> is_ws (hd (trim s))"
proof -
  assume ne: "trim s \<noteq> []"
  obtain c r where cr: "trim_start s = c # r"
    using ne by (cases "trim_start s") (auto simp: trim_def)
  then have "\<not> is_ws c" unfolding trim_start_def by (metis hd_dropWhile list.sel(1) list.distinct(1))
  then show ?thesis using cr by (simp add: trim_def trim_end_Cons)
qed

lemma last_trim: "trim s \<noteq> [] \<Longrightarrow> \<not> is_ws (last (trim s))"
  unfolding trim_def by (rule trim_end_last)

lemma trim_idem [simp, jstext]: "trim (trim s) = trim s"
  using hd_trim last_trim by (intro trim_same) blast

lemma trim_trim_end [simp, jstext]: "trim (trim_end s) = trim s"
proof -
  obtain w where w: "s = trim_end s @ w" "\<forall>c \<in> set w. is_ws c" using trim_end_prefix by blast
  show ?thesis
  proof (cases "\<forall>c \<in> set (trim_end s). is_ws c")
    case True
    with w have "\<forall>c \<in> set s. is_ws c" by (metis UnE set_append)
    with True have "dropWhile is_ws s = []" "dropWhile is_ws (trim_end s) = []" by simp_all
    then show ?thesis by (simp only: trim_def trim_start_def)
  next
    case False
    then have "trim_start s = trim_start (trim_end s) @ w"
      by (subst w(1)) (auto simp: trim_start_def dropWhile_append1)
    with w(2) show ?thesis by (simp add: trim_def trim_end_append_ws)
  qed
qed

lemma set_trim_subset: "set (trim s) \<subseteq> set s"
  unfolding trim_def trim_end_def trim_start_def by (auto dest!: set_dropWhileD)

section \<open>Prefixes, suffixes and search\<close>

fun starts_with :: "'a list \<Rightarrow> 'a list \<Rightarrow> bool" where
  \<comment> \<open>\<open>s.startsWith(p)\<close>, the string first as in the source\<close>
  "starts_with s [] = True"
| "starts_with [] (p # ps) = False"
| "starts_with (c # s) (p # ps) = (c = p \<and> starts_with s ps)"

lemma starts_with_iff: "starts_with s p \<longleftrightarrow> (\<exists>t. s = p @ t)"
  by (induction s p rule: starts_with.induct) auto

lemma starts_with_take: "starts_with s p \<longleftrightarrow> take (length p) s = p"
  by (induction s p rule: starts_with.induct) auto

lemma starts_with_append [simp, jstext]: "starts_with (p @ t) p"
  by (auto simp: starts_with_iff)

lemma starts_with_length: "starts_with s p \<Longrightarrow> length p \<le> length s"
  by (auto simp: starts_with_iff)

definition ends_with :: "'a list \<Rightarrow> 'a list \<Rightarrow> bool" where
  "ends_with s p = starts_with (rev s) (rev p)"

lemma ends_with_iff: "ends_with s p \<longleftrightarrow> (\<exists>t. s = t @ p)"
  unfolding ends_with_def starts_with_iff by (metis rev_append rev_rev_ident)

fun index_of :: "'a list \<Rightarrow> 'a list \<Rightarrow> nat option" where
  \<comment> \<open>\<open>s.indexOf(p)\<close>, \<open>None\<close> for -1\<close>
  "index_of [] p = (if p = [] then Some 0 else None)"
| "index_of (c # s) p = (if starts_with (c # s) p then Some 0 else map_option Suc (index_of s p))"

definition index_from :: "'a list \<Rightarrow> 'a list \<Rightarrow> nat \<Rightarrow> nat option" where
  \<comment> \<open>\<open>s.indexOf(p, start)\<close> for \<open>start \<le> s.length\<close>\<close>
  "index_from s p start = map_option (\<lambda>i. start + i) (index_of (drop start s) p)"

definition str_includes :: "'a list \<Rightarrow> 'a list \<Rightarrow> bool" where
  "str_includes s p = (index_of s p \<noteq> None)"

lemma index_of_SomeD:
  "index_of s p = Some i \<Longrightarrow>
    starts_with (drop i s) p \<and> i \<le> length s \<and> (\<forall>j < i. \<not> starts_with (drop j s) p)"
proof (induction s p arbitrary: i rule: index_of.induct)
  case (1 p)
  then show ?case by (auto split: if_splits)
next
  case (2 c s p)
  show ?case
  proof (cases "starts_with (c # s) p")
    case True
    with "2.prems" show ?thesis by simp
  next
    case False
    with "2.prems" obtain k where k: "index_of s p = Some k" "i = Suc k" by auto
    from "2.IH" [OF False k(1)] False k(2) show ?thesis
      by (auto simp: less_Suc_eq_0_disj)
  qed
qed

lemma index_of_Some_split:
  assumes "index_of s p = Some i"
  shows "s = take i s @ p @ drop (i + length p) s"
proof -
  from index_of_SomeD [OF assms] obtain t where t: "drop i s = p @ t"
    by (auto simp: starts_with_iff)
  then have "drop (i + length p) s = t"
    by (metis add.commute append_eq_conv_conj drop_drop)
  with t show ?thesis by (metis append_take_drop_id)
qed

lemma index_of_None_iff: "index_of s p = None \<longleftrightarrow> (\<forall>j \<le> length s. \<not> starts_with (drop j s) p)"
proof (induction s p rule: index_of.induct)
  case (1 p)
  then show ?case by (cases p) auto
next
  case (2 c s p)
  show ?case
  proof (cases "starts_with (c # s) p")
    case True
    then show ?thesis by (auto intro!: exI [of _ 0])
  next
    case False
    have "(\<forall>j \<le> length (c # s). \<not> starts_with (drop j (c # s)) p) \<longleftrightarrow>
        (\<forall>j \<le> length s. \<not> starts_with (drop j s) p)"
    proof (intro iffI allI impI)
      fix j assume "\<forall>j \<le> length (c # s). \<not> starts_with (drop j (c # s)) p" "j \<le> length s"
      then show "\<not> starts_with (drop j s) p" by (auto dest: spec [of _ "Suc j"])
    next
      fix j assume "\<forall>j \<le> length s. \<not> starts_with (drop j s) p" "j \<le> length (c # s)"
      with False show "\<not> starts_with (drop j (c # s)) p" by (cases j) auto
    qed
    with "2.IH" False show ?thesis by simp
  qed
qed

lemma str_includes_iff: "str_includes s p \<longleftrightarrow> (\<exists>u v. s = u @ p @ v)"
proof
  assume "str_includes s p"
  then obtain i where "index_of s p = Some i" by (auto simp: str_includes_def)
  then show "\<exists>u v. s = u @ p @ v" by (blast dest: index_of_Some_split)
next
  assume "\<exists>u v. s = u @ p @ v"
  then obtain u v where "s = u @ p @ v" by blast
  then have "starts_with (drop (length u) s) p" "length u \<le> length s" by simp_all
  then show "str_includes s p" unfolding str_includes_def using index_of_None_iff by blast
qed

fun last_index_of :: "'a list \<Rightarrow> 'a list \<Rightarrow> nat option" where
  \<comment> \<open>\<open>s.lastIndexOf(p)\<close>\<close>
  "last_index_of [] p = (if p = [] then Some 0 else None)"
| "last_index_of (c # s) p =
    (case last_index_of s p of Some i \<Rightarrow> Some (Suc i)
     | None \<Rightarrow> if starts_with (c # s) p then Some 0 else None)"

lemma last_index_of_SomeD:
  "last_index_of s p = Some i \<Longrightarrow>
    starts_with (drop i s) p \<and> i \<le> length s \<and> (\<forall>j. i < j \<and> j \<le> length s \<longrightarrow> \<not> starts_with (drop j s) p)"
  and last_index_of_NoneD: "last_index_of s p = None \<Longrightarrow> j \<le> length s \<Longrightarrow> \<not> starts_with (drop j s) p"
proof (induction s p arbitrary: i j rule: last_index_of.induct)
  case (1 p)
  { case 1 then show ?case by (auto split: if_splits) next
    case 2 then show ?case by (cases p) (auto split: if_splits) }
next
  case (2 c s p)
  { case 1
    show ?case
    proof (cases "last_index_of s p")
      case None
      have "\<not> starts_with (drop j s) p" if "j \<le> length s" for j
        using "2.IH"(2) [OF None that] .
      then have "\<not> starts_with (drop j (c # s)) p" if "0 < j" "j \<le> length (c # s)" for j
        using that by (cases j) auto
      with None 1 show ?thesis by (auto split: if_splits)
    next
      case (Some k)
      from "2.IH"(1) [OF Some] 1 Some show ?thesis
        by (auto simp: drop_Cons split: nat.splits)
    qed
  next
    case 2
    then have none: "last_index_of s p = None" and c: "\<not> starts_with (c # s) p"
      by (auto split: option.splits if_splits)
    show ?case
      using "2.IH"(2) [OF none] c 2 by (cases j) auto }
qed

lemma index_of_le_last:
  assumes "index_of s p = Some i"
  obtains j where "last_index_of s p = Some j" "i \<le> j"
proof (cases "last_index_of s p")
  case None
  with index_of_SomeD [OF assms] last_index_of_NoneD show ?thesis by blast
next
  case (Some j)
  have "i \<le> j"
    using index_of_SomeD [OF assms] last_index_of_SomeD [OF Some] by (meson not_le)
  with Some show ?thesis by (rule that)
qed

lemma index_eq_last_unique:
  assumes "index_of s p = Some i" "last_index_of s p = Some i" "s = u @ p @ v"
  shows "length u = i"
proof -
  have "starts_with (drop (length u) s) p" "length u \<le> length s" using assms(3) by simp_all
  then show ?thesis
    using index_of_SomeD [OF assms(1)] last_index_of_SomeD [OF assms(2)] by (meson nat_neq_iff)
qed

lemma unique_index_of:
  assumes "s = u @ p @ v" and uniq: "\<And>u' v'. s = u' @ p @ v' \<Longrightarrow> u' = u"
  shows "index_of s p = Some (length u)" "last_index_of s p = Some (length u)"
proof -
  have at: "starts_with (drop (length u) s) p" "length u \<le> length s" using assms(1) by simp_all
  have only: "j = length u" if "starts_with (drop j s) p" "j \<le> length s" for j
  proof -
    from that(1) obtain t where "drop j s = p @ t" by (auto simp: starts_with_iff)
    then have "s = take j s @ p @ t" by (metis append_take_drop_id)
    with uniq have "take j s = u" by blast
    with that(2) show ?thesis by auto
  qed
  from at obtain i where "index_of s p = Some i" using index_of_None_iff by blast
  then show "index_of s p = Some (length u)" using only index_of_SomeD by blast
  from at obtain k where "last_index_of s p = Some k" using last_index_of_NoneD by blast
  then show "last_index_of s p = Some (length u)" using only last_index_of_SomeD by blast
qed

section \<open>Split and join\<close>

fun split_on :: "'a \<Rightarrow> 'a list \<Rightarrow> 'a list list" where
  \<comment> \<open>\<open>s.split(c)\<close> for a one-unit separator\<close>
  "split_on c [] = [[]]"
| "split_on c (x # xs) =
    (if x = c then [] # split_on c xs
     else case split_on c xs of [] \<Rightarrow> [[x]] | l # ls \<Rightarrow> (x # l) # ls)"

fun join_with :: "'a list \<Rightarrow> 'a list list \<Rightarrow> 'a list" where
  "join_with sep [] = []"
| "join_with sep [x] = x"
| "join_with sep (x # y # ys) = x @ sep @ join_with sep (y # ys)"

lemma split_on_nonempty [simp, jstext]: "split_on c xs \<noteq> []"
  by (cases xs) (auto split: list.splits)

lemma join_with_Cons: "xs \<noteq> [] \<Longrightarrow> join_with sep (x # xs) = x @ sep @ join_with sep xs"
  by (cases xs) auto

lemma join_split [simp, jstext]: "join_with [c] (split_on c xs) = xs"
proof (induction c xs rule: split_on.induct)
  case (2 c x xs)
  then show ?case
    by (cases "split_on c xs"; cases "tl (split_on c xs)") (auto simp: join_with_Cons)
qed simp

lemma split_on_no_sep: "l \<in> set (split_on c xs) \<Longrightarrow> c \<notin> set l"
  by (induction c xs arbitrary: l rule: split_on.induct) (auto split: list.splits if_splits)

lemma split_on_plain: "c \<notin> set xs \<Longrightarrow> split_on c xs = [xs]"
  by (induction c xs rule: split_on.induct) auto

lemma split_on_append: "c \<notin> set xs \<Longrightarrow> split_on c (xs @ c # ys) = xs # split_on c ys"
  by (induction xs) auto

lemma split_join:
  assumes "ls \<noteq> []" "\<forall>l \<in> set ls. c \<notin> set l"
  shows "split_on c (join_with [c] ls) = ls"
  using assms
proof (induction ls)
  case (Cons l ls)
  then show ?case
    by (cases "ls = []") (auto simp: split_on_plain split_on_append join_with_Cons)
qed simp

lemma join_with_append:
  "xs \<noteq> [] \<Longrightarrow> ys \<noteq> [] \<Longrightarrow> join_with sep (xs @ ys) = join_with sep xs @ sep @ join_with sep ys"
proof (induction xs)
  case (Cons x xs)
  then show ?case by (cases "xs = []") (auto simp: join_with_Cons)
qed simp

lemma split_on_append_join:
  "split_on c (xs @ c # ys) = split_on c xs @ split_on c ys"
proof -
  let ?ls = "split_on c xs @ split_on c ys"
  have "join_with [c] ?ls = xs @ c # ys" by (simp add: join_with_append)
  moreover have "split_on c (join_with [c] ?ls) = ?ls"
    by (rule split_join) (auto dest: split_on_no_sep)
  ultimately show ?thesis by simp
qed

abbreviation lines_of :: "jstring \<Rightarrow> jstring list" where
  "lines_of s \<equiv> split_on LF s"

abbreviation unlines :: "jstring list \<Rightarrow> jstring" where
  "unlines ls \<equiv> join_with [LF] ls"

section \<open>Replacing every occurrence\<close>

function replace_all :: "'a list \<Rightarrow> 'a list \<Rightarrow> 'a list \<Rightarrow> 'a list" where
  \<comment> \<open>the occurrences \<open>s.replaceAll(p, r)\<close> finds, left to right, for a \<open>p\<close> that is not empty,
      each replaced by the literal \<open>r\<close>\<close>
  "replace_all p r [] = []"
| "replace_all p r (c # s) =
    (if p \<noteq> [] \<and> starts_with (c # s) p then r @ replace_all p r (drop (length p) (c # s))
     else c # replace_all p r s)"
  by pat_completeness auto
termination
  by (relation "measure (\<lambda>(p, r, s). length s)") auto

lemma replace_all_absent: "\<not> str_includes s p \<Longrightarrow> replace_all p r s = s"
proof (induction p r s rule: replace_all.induct)
  case (2 p r c s)
  have "\<not> starts_with (c # s) p"
    using "2.prems" unfolding str_includes_iff starts_with_iff by (metis append_Nil)
  moreover have "\<not> str_includes s p"
    using "2.prems" unfolding str_includes_iff by (metis append_Cons)
  ultimately show ?case using "2.IH"(2) by simp
qed simp

section \<open>The byte order mark\<close>

definition split_bom :: "jstring \<Rightarrow> bool \<times> jstring" where
  "split_bom t = (case t of [] \<Rightarrow> (False, []) | c # s \<Rightarrow> if c = BOM then (True, s) else (False, t))"

definition join_bom :: "jstring \<Rightarrow> bool \<Rightarrow> jstring" where
  "join_bom t b = (let stripped = snd (split_bom t) in if b then BOM # stripped else stripped)"

lemma split_bom_join:
  "\<not> starts_with t [BOM] \<Longrightarrow> split_bom (join_bom t b) = (b, t)"
  by (cases t) (auto simp: split_bom_def join_bom_def Let_def)

end
