(* ===== verification/LlmEvents.thy ===== *)
theory LlmEvents imports JsText begin

text \<open>
  The events of a language-model stream and the assembly of a response from them
  (packages/llm/src/schema/events.ts). A plain object keyed by block or call id is an
  insertion-ordered map; ids that are names of \<open>Object.prototype\<close> are outside the model. Token counts
  are integers.
\<close>

section \<open>Data\<close>

datatype json = JNull | JBool bool | JNum int | JStr jstring | JArr "json list" | JObj "(jstring \<times> json) list"

type_synonym metadata = "(jstring, json) jsmap"

record usage =
  input_tokens :: "int option"
  output_tokens :: "int option"
  non_cached_input_tokens :: "int option"
  cache_read_input_tokens :: "int option"
  cache_write_input_tokens :: "int option"
  reasoning_tokens :: "int option"
  total_tokens :: "int option"
  usage_metadata :: "metadata option"

definition visible_output_tokens :: "usage \<Rightarrow> int" where
  "visible_output_tokens u =
    max 0 ((case output_tokens u of Some n \<Rightarrow> n | None \<Rightarrow> 0) - (case reasoning_tokens u of Some n \<Rightarrow> n | None \<Rightarrow> 0))"

datatype finish_reason = Stop | Length | ToolCalls | ContentFilter | ErrorReason | Unknown

datatype tool_result_value = JsonResult json | TextResult json | ErrorResult json | ContentResult "json list"

type_synonym tool_output = "json \<times> json list" \<comment> \<open>structured, content\<close>

datatype llm_event =
    StepStart nat
  | TextStart jstring "metadata option"
  | TextDelta jstring jstring "metadata option"
  | TextEnd jstring "metadata option"
  | ReasoningStart jstring "metadata option"
  | ReasoningDelta jstring jstring "metadata option"
  | ReasoningEnd jstring "metadata option"
  | ToolInputStart jstring jstring "metadata option"
  | ToolInputDelta jstring jstring jstring
  | ToolInputEnd jstring jstring "metadata option"
  | ToolCall jstring jstring json "bool option" "metadata option"
  | ToolResult jstring jstring tool_result_value "tool_output option" "bool option" "metadata option"
  | ToolError jstring jstring jstring "json option" "metadata option"
  | StepFinish nat finish_reason "usage option" "metadata option"
  | Finish finish_reason "usage option" "metadata option"
  | ProviderError jstring "jstring option" "bool option" "metadata option"

datatype content_part =
    TextPart jstring "metadata option"
  | ReasoningPart jstring "metadata option"
  | ToolCallPart jstring jstring json "bool option" "metadata option"
  | ToolResultPart jstring jstring tool_result_value "bool option" "metadata option"

fun event_usage :: "llm_event \<Rightarrow> usage option" where
  \<comment> \<open>\<open>"usage" in event ? event.usage : undefined\<close>\<close>
  "event_usage (StepFinish i r u m) = u"
| "event_usage (Finish r u m) = u"
| "event_usage e = None"

definition response_text :: "llm_event list \<Rightarrow> jstring" where
  "response_text evs = concat (map (\<lambda>e. case e of TextDelta i t m \<Rightarrow> t | _ \<Rightarrow> []) evs)"

definition response_reasoning :: "llm_event list \<Rightarrow> jstring" where
  "response_reasoning evs = concat (map (\<lambda>e. case e of ReasoningDelta i t m \<Rightarrow> t | _ \<Rightarrow> []) evs)"

definition or_else :: "'a option \<Rightarrow> 'a option \<Rightarrow> 'a option" where
  \<comment> \<open>\<open>a ?? b\<close>\<close>
  "or_else a b = (case a of Some x \<Rightarrow> Some x | None \<Rightarrow> b)"

lemma or_else_simps [simp]: "or_else (Some x) b = Some x" "or_else None b = b"
  by (simp_all add: or_else_def)

definition response_usage :: "llm_event list \<Rightarrow> usage option" where
  "response_usage evs = fold (\<lambda>e u. or_else (event_usage e) u) evs None"

section \<open>Assembly state\<close>

record assembly =
  content_index :: nat
  part_text :: jstring
  part_metadata :: "metadata option"

record tool_assembly =
  tool_name :: jstring
  tool_text :: jstring
  tool_metadata :: "metadata option"

record response_state =
  events :: "llm_event list"
  message_content :: "content_part list"
  resp_usage :: "usage option"
  resp_reason :: "finish_reason option"
  text_parts :: "(jstring, assembly) jsmap"
  reasoning_parts :: "(jstring, assembly) jsmap"
  tool_inputs :: "(jstring, tool_assembly) jsmap"

definition empty_response_state :: response_state where
  "empty_response_state = \<lparr>events = [], message_content = [], resp_usage = None, resp_reason = None,
     text_parts = [], reasoning_parts = [], tool_inputs = []\<rparr>"

definition append_event :: "response_state \<Rightarrow> llm_event \<Rightarrow> response_state" where
  "append_event st e =
    (let st1 = st\<lparr>events := events st @ [e]\<rparr> in
     case e of
       Finish r u m \<Rightarrow> st1\<lparr>resp_usage := or_else u (resp_usage st), resp_reason := Some r\<rparr>
     | ProviderError msg c r m \<Rightarrow> st1\<lparr>resp_reason := or_else (resp_reason st) (Some ErrorReason)\<rparr>
     | _ \<Rightarrow> st1\<lparr>resp_usage := or_else (event_usage e) (resp_usage st)\<rparr>)"

definition append_content :: "response_state \<Rightarrow> content_part \<Rightarrow> response_state" where
  "append_content st p = st\<lparr>message_content := message_content st @ [p]\<rparr>"

definition replace_content :: "response_state \<Rightarrow> nat \<Rightarrow> content_part \<Rightarrow> response_state" where
  \<comment> \<open>\<open>content.map\<close> with a test on the index: nothing happens beyond the end\<close>
  "replace_content st i p = st\<lparr>message_content := (message_content st)[i := p]\<rparr>"

definition ensure_text :: "response_state \<Rightarrow> jstring \<Rightarrow> metadata option \<Rightarrow> response_state" where
  "ensure_text st i md =
    (if map_of (text_parts st) i \<noteq> None then st
     else (append_content st (TextPart [] md))\<lparr>text_parts :=
       map_set (text_parts st) i \<lparr>content_index = length (message_content st), part_text = [], part_metadata = md\<rparr>\<rparr>)"

definition reduce_text_delta :: "response_state \<Rightarrow> jstring \<Rightarrow> jstring \<Rightarrow> metadata option \<Rightarrow> response_state" where
  "reduce_text_delta st i t emd =
    (let started = ensure_text st i emd in
     case map_of (text_parts started) i of
       None \<Rightarrow> started
     | Some current \<Rightarrow>
         let text' = part_text current @ t; md = or_else emd (part_metadata current) in
         (replace_content started (content_index current) (TextPart text' md))\<lparr>text_parts :=
           map_set (text_parts started) i (current\<lparr>part_text := text', part_metadata := md\<rparr>)\<rparr>)"

definition reduce_text_end :: "response_state \<Rightarrow> jstring \<Rightarrow> metadata option \<Rightarrow> response_state" where
  "reduce_text_end st i emd =
    (case map_of (text_parts st) i of
       None \<Rightarrow> st
     | Some current \<Rightarrow>
         let md = or_else emd (part_metadata current) in
         (replace_content st (content_index current) (TextPart (part_text current) md))\<lparr>text_parts :=
           map_set (text_parts st) i (current\<lparr>part_metadata := md\<rparr>)\<rparr>)"

definition ensure_reasoning :: "response_state \<Rightarrow> jstring \<Rightarrow> metadata option \<Rightarrow> response_state" where
  "ensure_reasoning st i md =
    (if map_of (reasoning_parts st) i \<noteq> None then st
     else (append_content st (ReasoningPart [] md))\<lparr>reasoning_parts :=
       map_set (reasoning_parts st) i \<lparr>content_index = length (message_content st), part_text = [], part_metadata = md\<rparr>\<rparr>)"

definition reduce_reasoning_delta :: "response_state \<Rightarrow> jstring \<Rightarrow> jstring \<Rightarrow> metadata option \<Rightarrow> response_state" where
  "reduce_reasoning_delta st i t emd =
    (let started = ensure_reasoning st i emd in
     case map_of (reasoning_parts started) i of
       None \<Rightarrow> started
     | Some current \<Rightarrow>
         let text' = part_text current @ t; md = or_else emd (part_metadata current) in
         (replace_content started (content_index current) (ReasoningPart text' md))\<lparr>reasoning_parts :=
           map_set (reasoning_parts started) i (current\<lparr>part_text := text', part_metadata := md\<rparr>)\<rparr>)"

definition reduce_reasoning_end :: "response_state \<Rightarrow> jstring \<Rightarrow> metadata option \<Rightarrow> response_state" where
  "reduce_reasoning_end st i emd =
    (case map_of (reasoning_parts st) i of
       None \<Rightarrow> st
     | Some current \<Rightarrow>
         let md = or_else emd (part_metadata current) in
         (replace_content st (content_index current) (ReasoningPart (part_text current) md))\<lparr>reasoning_parts :=
           map_set (reasoning_parts st) i (current\<lparr>part_metadata := md\<rparr>)\<rparr>)"

definition tool_input_of :: "response_state \<Rightarrow> jstring \<Rightarrow> jstring \<Rightarrow> tool_assembly" where
  \<comment> \<open>\<open>state.toolInputs[event.id] ?? { name: event.name, text: "" }\<close>\<close>
  "tool_input_of st i name =
    (case map_of (tool_inputs st) i of
       Some t \<Rightarrow> t
     | None \<Rightarrow> \<lparr>tool_name = name, tool_text = [], tool_metadata = None\<rparr>)"

definition reduce_tool_input_start :: "response_state \<Rightarrow> jstring \<Rightarrow> jstring \<Rightarrow> metadata option \<Rightarrow> response_state" where
  "reduce_tool_input_start st i name md =
    st\<lparr>tool_inputs := map_set (tool_inputs st) i \<lparr>tool_name = name, tool_text = [], tool_metadata = md\<rparr>\<rparr>"

definition reduce_tool_input_delta :: "response_state \<Rightarrow> jstring \<Rightarrow> jstring \<Rightarrow> jstring \<Rightarrow> response_state" where
  "reduce_tool_input_delta st i name t =
    (let current = tool_input_of st i name
     in st\<lparr>tool_inputs := map_set (tool_inputs st) i (current\<lparr>tool_text := tool_text current @ t\<rparr>)\<rparr>)"

definition reduce_tool_input_end :: "response_state \<Rightarrow> jstring \<Rightarrow> jstring \<Rightarrow> metadata option \<Rightarrow> response_state" where
  "reduce_tool_input_end st i name md =
    (let current = tool_input_of st i name
     in st\<lparr>tool_inputs := map_set (tool_inputs st) i
          (current\<lparr>tool_name := name, tool_metadata := or_else md (tool_metadata current)\<rparr>)\<rparr>)"

definition reduce_tool_call :: "response_state \<Rightarrow> jstring \<Rightarrow> jstring \<Rightarrow> json \<Rightarrow> bool option \<Rightarrow> metadata option \<Rightarrow> response_state" where
  "reduce_tool_call st i name inp pe md =
    (append_content st (ToolCallPart i name inp pe md))\<lparr>tool_inputs := map_delete (tool_inputs st) i\<rparr>"

definition reduce :: "response_state \<Rightarrow> llm_event \<Rightarrow> response_state" where
  "reduce st e =
    (let nxt = append_event st e in
     case e of
       TextStart i md \<Rightarrow> ensure_text nxt i md
     | TextDelta i t md \<Rightarrow> reduce_text_delta nxt i t md
     | TextEnd i md \<Rightarrow> reduce_text_end nxt i md
     | ReasoningStart i md \<Rightarrow> ensure_reasoning nxt i md
     | ReasoningDelta i t md \<Rightarrow> reduce_reasoning_delta nxt i t md
     | ReasoningEnd i md \<Rightarrow> reduce_reasoning_end nxt i md
     | ToolInputStart i n md \<Rightarrow> reduce_tool_input_start nxt i n md
     | ToolInputDelta i n t \<Rightarrow> reduce_tool_input_delta nxt i n t
     | ToolInputEnd i n md \<Rightarrow> reduce_tool_input_end nxt i n md
     | ToolCall i n inp pe md \<Rightarrow> reduce_tool_call nxt i n inp pe md
     | ToolResult i n r out pe md \<Rightarrow> append_content nxt (ToolResultPart i n r pe md)
     | _ \<Rightarrow> nxt)"

record llm_response =
  res_content :: "content_part list"
  res_events :: "llm_event list"
  res_usage :: "usage option"
  res_reason :: finish_reason

definition complete :: "response_state \<Rightarrow> llm_response option" where
  "complete st =
    (case resp_reason st of
       None \<Rightarrow> None
     | Some r \<Rightarrow> Some \<lparr>res_content = message_content st, res_events = events st, res_usage = resp_usage st, res_reason = r\<rparr>)"

definition reduce_all :: "llm_event list \<Rightarrow> response_state" where
  \<comment> \<open>\<open>events.reduce(reduce, empty())\<close>\<close>
  "reduce_all evs = fold (\<lambda>e st. reduce st e) evs empty_response_state"

definition from_events :: "llm_event list \<Rightarrow> llm_response option" where
  "from_events evs = complete (reduce_all evs)"

end
