(* ===== verification/LlmAssembly.thy ===== *)
theory LlmAssembly imports LlmEvents begin

text \<open>
  What the assembly of a response guarantees: every text and reasoning block keeps its own place in
  the message and holds the concatenation of its deltas, whatever the order in which blocks are
  interleaved, and a response is complete exactly when a terminal event has been seen.
\<close>

section \<open>Assembled blocks\<close>

fun text_of_id :: "jstring \<Rightarrow> llm_event \<Rightarrow> jstring" where
  "text_of_id i (TextDelta j t m) = (if j = i then t else [])"
| "text_of_id i e = []"

fun reasoning_of_id :: "jstring \<Rightarrow> llm_event \<Rightarrow> jstring" where
  "reasoning_of_id i (ReasoningDelta j t m) = (if j = i then t else [])"
| "reasoning_of_id i e = []"

definition block_text :: "(jstring, assembly) jsmap \<Rightarrow> jstring \<Rightarrow> jstring" where
  "block_text parts i = (case map_of parts i of None \<Rightarrow> [] | Some a \<Rightarrow> part_text a)"

definition filed :: "(jstring \<Rightarrow> metadata option \<Rightarrow> content_part) \<Rightarrow> (jstring, assembly) jsmap \<Rightarrow> content_part list \<Rightarrow> bool" where
  \<comment> \<open>each block of the map stands at its index of the content\<close>
  "filed mk parts content \<longleftrightarrow>
    (\<forall>i a. map_of parts i = Some a \<longrightarrow>
      content_index a < length content \<and> content ! content_index a = mk (part_text a) (part_metadata a)) \<and>
    (\<forall>i j a b. map_of parts i = Some a \<longrightarrow> map_of parts j = Some b \<longrightarrow> content_index a = content_index b \<longrightarrow> i = j)"

definition assembled :: "response_state \<Rightarrow> bool" where
  "assembled st \<longleftrightarrow> filed TextPart (text_parts st) (message_content st) \<and>
     filed ReasoningPart (reasoning_parts st) (message_content st)"

text \<open>A way of storing blocks among the content parts: the constructor it stores them with is its own.\<close>

locale block_store =
  fixes mk other :: "jstring \<Rightarrow> metadata option \<Rightarrow> content_part"
  assumes disjoint: "mk t m \<noteq> other t' m'"
begin

lemma filed_empty: "filed mk [] c"
  by (simp add: filed_def)

lemma filed_append: "filed mk parts c \<Longrightarrow> filed mk parts (c @ [p])"
  by (fastforce simp: filed_def nth_append intro: less_SucI)

lemma filed_new:
  assumes "filed mk parts c" "map_of parts i = None"
  shows "filed mk (map_set parts i \<lparr>content_index = length c, part_text = t, part_metadata = m\<rparr>) (c @ [mk t m])"
proof -
  have lt: "content_index a < length c" "c ! content_index a = mk (part_text a) (part_metadata a)"
    if "map_of parts j = Some a" for j a using assms(1) that by (auto simp: filed_def)
  have inj: "i' = j" if "map_of parts i' = Some a" "map_of parts j = Some b" "content_index a = content_index b" for i' j a b
    using assms(1) that by (auto simp: filed_def)
  show ?thesis
    unfolding filed_def using lt inj by (auto simp: nth_append dest: lt(1) intro: less_SucI)
qed

lemma filed_update:
  assumes "filed mk parts c" "map_of parts i = Some a"
  shows "filed mk (map_set parts i (a\<lparr>part_text := t, part_metadata := m\<rparr>)) (c[content_index a := mk t m])"
  using assms unfolding filed_def by (auto simp: nth_list_update)

lemma filed_other:
  assumes "filed mk parts c" "j < length c" "c ! j = other t m"
  shows "filed mk parts (c[j := p])"
  using assms disjoint unfolding filed_def by (auto simp: nth_list_update)

end

interpretation text_store: block_store TextPart ReasoningPart
  by unfold_locales simp

interpretation reasoning_store: block_store ReasoningPart TextPart
  by unfold_locales simp

section \<open>One event\<close>

lemma block_text_set: "block_text (map_set parts i a) j = (if j = i then part_text a else block_text parts j)"
  by (simp add: block_text_def)

lemma block_text_get: "map_of parts i = Some a \<Longrightarrow> block_text parts i = part_text a"
  by (simp add: block_text_def)

lemma append_event_parts [simp]:
  "message_content (append_event st e) = message_content st" "text_parts (append_event st e) = text_parts st"
  "reasoning_parts (append_event st e) = reasoning_parts st" "tool_inputs (append_event st e) = tool_inputs st"
  "events (append_event st e) = events st @ [e]"
  by (cases e; simp add: append_event_def Let_def)+

lemma assembled_frame [simp]:
  "assembled (append_event st e) = assembled st" "assembled (st\<lparr>tool_inputs := x\<rparr>) = assembled st"
  by (simp_all add: assembled_def)

lemma append_content_frame [simp]:
  "text_parts (append_content st p) = text_parts st" "reasoning_parts (append_content st p) = reasoning_parts st"
  by (simp_all add: append_content_def)

lemma assembled_append_content: "assembled st \<Longrightarrow> assembled (append_content st p)"
  by (simp add: assembled_def append_content_def text_store.filed_append reasoning_store.filed_append)

lemma ensure_text_facts:
  assumes "assembled st"
  shows "assembled (ensure_text st i md) \<and> map_of (text_parts (ensure_text st i md)) i \<noteq> None \<and>
    block_text (text_parts (ensure_text st i md)) = block_text (text_parts st) \<and>
    reasoning_parts (ensure_text st i md) = reasoning_parts st"
proof (cases "map_of (text_parts st) i")
  case None
  with assms text_store.filed_new [of "text_parts st" "message_content st" i "[]" md]
    reasoning_store.filed_append [of "reasoning_parts st" "message_content st"]
  show ?thesis by (auto simp: ensure_text_def assembled_def append_content_def block_text_def fun_eq_iff)
next
  case (Some a)
  with assms show ?thesis by (simp add: ensure_text_def)
qed

lemma ensure_reasoning_facts:
  assumes "assembled st"
  shows "assembled (ensure_reasoning st i md) \<and> map_of (reasoning_parts (ensure_reasoning st i md)) i \<noteq> None \<and>
    block_text (reasoning_parts (ensure_reasoning st i md)) = block_text (reasoning_parts st) \<and>
    text_parts (ensure_reasoning st i md) = text_parts st"
proof (cases "map_of (reasoning_parts st) i")
  case None
  with assms reasoning_store.filed_new [of "reasoning_parts st" "message_content st" i "[]" md]
    text_store.filed_append [of "text_parts st" "message_content st"]
  show ?thesis by (auto simp: ensure_reasoning_def assembled_def append_content_def block_text_def fun_eq_iff)
next
  case (Some a)
  with assms show ?thesis by (simp add: ensure_reasoning_def)
qed

lemma update_text_facts:
  assumes "assembled st" "map_of (text_parts st) i = Some a"
  shows "assembled ((replace_content st (content_index a) (TextPart t md))\<lparr>text_parts :=
      map_set (text_parts st) i (a\<lparr>part_text := t, part_metadata := md\<rparr>)\<rparr>)"
proof -
  have "content_index a < length (message_content st)"
    "message_content st ! content_index a = TextPart (part_text a) (part_metadata a)"
    using assms by (auto simp: assembled_def filed_def)
  with assms text_store.filed_update [where parts = "text_parts st" and c = "message_content st" and i = i and a = a and t = t and m = md]
    reasoning_store.filed_other [of "reasoning_parts st" "message_content st" "content_index a"]
  show ?thesis by (simp add: assembled_def replace_content_def)
qed

lemma update_reasoning_facts:
  assumes "assembled st" "map_of (reasoning_parts st) i = Some a"
  shows "assembled ((replace_content st (content_index a) (ReasoningPart t md))\<lparr>reasoning_parts :=
      map_set (reasoning_parts st) i (a\<lparr>part_text := t, part_metadata := md\<rparr>)\<rparr>)"
proof -
  have "content_index a < length (message_content st)"
    "message_content st ! content_index a = ReasoningPart (part_text a) (part_metadata a)"
    using assms by (auto simp: assembled_def filed_def)
  with assms reasoning_store.filed_update [where parts = "reasoning_parts st" and c = "message_content st" and i = i and a = a and t = t and m = md]
    text_store.filed_other [of "text_parts st" "message_content st" "content_index a"]
  show ?thesis by (simp add: assembled_def replace_content_def)
qed

lemma reduce_text_delta_facts:
  assumes "assembled st"
  shows "assembled (reduce_text_delta st i t md) \<and>
    block_text (text_parts (reduce_text_delta st i t md)) j =
      block_text (text_parts st) j @ (if i = j then t else []) \<and>
    reasoning_parts (reduce_text_delta st i t md) = reasoning_parts st"
proof -
  note e = ensure_text_facts [OF assms, of i md]
  then obtain a where a: "map_of (text_parts (ensure_text st i md)) i = Some a" by blast
  from e update_text_facts [where st = "ensure_text st i md" and i = i and a = a and t = "part_text a @ t" and md = "or_else md (part_metadata a)"] a
  have as: "assembled (reduce_text_delta st i t md)" by (simp add: reduce_text_delta_def Let_def)
  have "part_text a = block_text (text_parts st) i" using e block_text_get [OF a] by simp
  then show ?thesis using as e a
    by (auto simp: reduce_text_delta_def Let_def block_text_set replace_content_def)
qed

lemma reduce_reasoning_delta_facts:
  assumes "assembled st"
  shows "assembled (reduce_reasoning_delta st i t md) \<and>
    block_text (reasoning_parts (reduce_reasoning_delta st i t md)) j =
      block_text (reasoning_parts st) j @ (if i = j then t else []) \<and>
    text_parts (reduce_reasoning_delta st i t md) = text_parts st"
proof -
  note e = ensure_reasoning_facts [OF assms, of i md]
  then obtain a where a: "map_of (reasoning_parts (ensure_reasoning st i md)) i = Some a" by blast
  from e update_reasoning_facts [where st = "ensure_reasoning st i md" and i = i and a = a and t = "part_text a @ t" and md = "or_else md (part_metadata a)"] a
  have as: "assembled (reduce_reasoning_delta st i t md)" by (simp add: reduce_reasoning_delta_def Let_def)
  have "part_text a = block_text (reasoning_parts st) i" using e block_text_get [OF a] by simp
  then show ?thesis using as e a
    by (auto simp: reduce_reasoning_delta_def Let_def block_text_set replace_content_def)
qed

lemma reduce_text_end_facts:
  assumes "assembled st"
  shows "assembled (reduce_text_end st i md) \<and>
    block_text (text_parts (reduce_text_end st i md)) = block_text (text_parts st) \<and>
    reasoning_parts (reduce_text_end st i md) = reasoning_parts st"
proof (cases "map_of (text_parts st) i")
  case None
  with assms show ?thesis by (simp add: reduce_text_end_def)
next
  case (Some a)
  from update_text_facts [OF assms Some, where t = "part_text a" and md = "or_else md (part_metadata a)"] Some show ?thesis
    by (auto simp: reduce_text_end_def Let_def block_text_def replace_content_def fun_eq_iff)
qed

lemma reduce_reasoning_end_facts:
  assumes "assembled st"
  shows "assembled (reduce_reasoning_end st i md) \<and>
    block_text (reasoning_parts (reduce_reasoning_end st i md)) = block_text (reasoning_parts st) \<and>
    text_parts (reduce_reasoning_end st i md) = text_parts st"
proof (cases "map_of (reasoning_parts st) i")
  case None
  with assms show ?thesis by (simp add: reduce_reasoning_end_def)
next
  case (Some a)
  from update_reasoning_facts [OF assms Some, where t = "part_text a" and md = "or_else md (part_metadata a)"] Some show ?thesis
    by (auto simp: reduce_reasoning_end_def Let_def block_text_def replace_content_def fun_eq_iff)
qed

lemma reduce_facts:
  assumes "assembled st"
  shows "assembled (reduce st e) \<and>
    block_text (text_parts (reduce st e)) j = block_text (text_parts st) j @ text_of_id j e \<and>
    block_text (reasoning_parts (reduce st e)) j = block_text (reasoning_parts st) j @ reasoning_of_id j e"
proof -
  have as: "assembled (append_event st e)" using assms by simp
  show ?thesis
    using as ensure_text_facts [OF as] reduce_text_delta_facts [OF as] reduce_text_end_facts [OF as]
      ensure_reasoning_facts [OF as] reduce_reasoning_delta_facts [OF as] reduce_reasoning_end_facts [OF as]
      assembled_append_content [OF as]
    by (cases e)
      (simp_all add: reduce_def Let_def reduce_tool_input_start_def reduce_tool_input_delta_def
        reduce_tool_input_end_def reduce_tool_call_def)
qed

lemma reduce_all_facts:
  "assembled (reduce_all evs) \<and>
   block_text (text_parts (reduce_all evs)) j = concat (map (text_of_id j) evs) \<and>
   block_text (reasoning_parts (reduce_all evs)) j = concat (map (reasoning_of_id j) evs)"
proof (induction evs rule: rev_induct)
  case Nil
  show ?case
    by (simp add: reduce_all_def empty_response_state_def assembled_def text_store.filed_empty
        reasoning_store.filed_empty block_text_def)
next
  case (snoc e evs)
  have "reduce_all (evs @ [e]) = reduce (reduce_all evs) e" by (simp add: reduce_all_def)
  with snoc reduce_facts [of "reduce_all evs" e j] show ?case by simp
qed

section \<open>The places of a message\<close>

text \<open>
  What the message is to look like, written down without indices: a block has one place, taken when its first start
  or delta comes; calls and results take a new place each.
\<close>

datatype place = Text_At jstring | Reasoning_At jstring | Given content_part

definition take_place :: "place \<Rightarrow> place list \<Rightarrow> place list" where
  "take_place q ps = (if q \<in> set ps then ps else ps @ [q])"

fun add_place :: "llm_event \<Rightarrow> place list \<Rightarrow> place list" where
  "add_place (TextStart i md) ps = take_place (Text_At i) ps"
| "add_place (TextDelta i t md) ps = take_place (Text_At i) ps"
| "add_place (ReasoningStart i md) ps = take_place (Reasoning_At i) ps"
| "add_place (ReasoningDelta i t md) ps = take_place (Reasoning_At i) ps"
| "add_place (ToolCall i n inp pe md) ps = ps @ [Given (ToolCallPart i n inp pe md)]"
| "add_place (ToolResult i n r out pe md) ps = ps @ [Given (ToolResultPart i n r pe md)]"
| "add_place e ps = ps"

definition places :: "llm_event list \<Rightarrow> place list" where
  "places evs = fold add_place evs []"

fun filled :: "llm_event list \<Rightarrow> place \<Rightarrow> content_part" where
  "filled evs (Text_At i) = TextPart (concat (map (text_of_id i) evs)) None"
| "filled evs (Reasoning_At i) = ReasoningPart (concat (map (reasoning_of_id i) evs)) None"
| "filled evs (Given p) = p"

fun plain :: "content_part \<Rightarrow> content_part" where
  \<comment> \<open>the provider metadata of a block left out\<close>
  "plain (TextPart t md) = TextPart t None"
| "plain (ReasoningPart t md) = ReasoningPart t None"
| "plain p = p"

definition stands :: "(jstring, assembly) jsmap \<Rightarrow> (jstring \<Rightarrow> place) \<Rightarrow> place list \<Rightarrow> bool" where
  "stands parts at ps \<longleftrightarrow>
    (\<forall>i a. map_of parts i = Some a \<longrightarrow> content_index a < length ps \<and> ps ! content_index a = at i) \<and>
    (\<forall>k i. k < length ps \<longrightarrow> ps ! k = at i \<longrightarrow> (\<exists>a. map_of parts i = Some a \<and> content_index a = k))"

definition givens :: "content_part list \<Rightarrow> place list \<Rightarrow> bool" where
  "givens c ps \<longleftrightarrow> length c = length ps \<and> (\<forall>k p. k < length ps \<longrightarrow> ps ! k = Given p \<longrightarrow> c ! k = p \<and> plain p = p)"

definition laid :: "response_state \<Rightarrow> place list \<Rightarrow> bool" where
  "laid st ps \<longleftrightarrow> stands (text_parts st) Text_At ps \<and> stands (reasoning_parts st) Reasoning_At ps \<and> givens (message_content st) ps"

lemma stands_append:
  assumes "stands parts at ps" "\<And>i. q \<noteq> at i"
  shows "stands parts at (ps @ [q])"
  using assms unfolding stands_def by (auto simp: nth_append less_Suc_eq)

lemma stands_new:
  assumes "stands parts at ps" "map_of parts i = None" "inj at"
  shows "stands (map_set parts i \<lparr>content_index = length ps, part_text = t, part_metadata = m\<rparr>) at (ps @ [at i])"
proof -
  have old: "k < length ps \<Longrightarrow> ps ! k \<noteq> at i" for k using assms(1,2) unfolding stands_def by fastforce
  show ?thesis
    using assms old unfolding stands_def by (auto simp: nth_append less_Suc_eq dest: injD)
qed

lemma stands_update:
  "stands parts at ps \<Longrightarrow> map_of parts i = Some a \<Longrightarrow> stands (map_set parts i (a\<lparr>part_text := t, part_metadata := m\<rparr>)) at ps"
  unfolding stands_def by (auto; metis option.inject)

lemma stands_known: "stands parts at ps \<Longrightarrow> at i \<in> set ps \<longleftrightarrow> map_of parts i \<noteq> None"
  unfolding stands_def in_set_conv_nth by (metis not_None_eq)

lemma givens_append:
  "givens c ps \<Longrightarrow> givens (c @ [p]) (ps @ [Text_At i])" "givens c ps \<Longrightarrow> givens (c @ [p]) (ps @ [Reasoning_At i])"
  "givens c ps \<Longrightarrow> plain p = p \<Longrightarrow> givens (c @ [p]) (ps @ [Given p])"
  unfolding givens_def by (auto simp: nth_append less_Suc_eq)

lemma givens_replace: "givens c ps \<Longrightarrow> (\<And>r. ps ! k \<noteq> Given r) \<Longrightarrow> givens (c[k := p]) ps"
  unfolding givens_def by (metis length_list_update nth_list_update_neq)

lemma inj_at [simp]: "inj Text_At" "inj Reasoning_At"
  by (simp_all add: inj_def)

lemma laid_length: "laid st ps \<Longrightarrow> length (message_content st) = length ps"
  by (simp add: laid_def givens_def)

lemma laid_ensure_text:
  assumes "laid st ps"
  shows "laid (ensure_text st i md) (take_place (Text_At i) ps)"
proof (cases "map_of (text_parts st) i")
  case None
  then have "Text_At i \<notin> set ps" using stands_known [of "text_parts st" Text_At] assms by (simp add: laid_def)
  then show ?thesis
    using assms None stands_new [OF _ None inj_at(1), of ps] laid_length [OF assms]
    by (simp add: laid_def ensure_text_def take_place_def append_content_def stands_append givens_append)
next
  case (Some a)
  then have "Text_At i \<in> set ps" using stands_known [of "text_parts st" Text_At] assms by (simp add: laid_def)
  then show ?thesis using assms Some by (simp add: ensure_text_def take_place_def)
qed

lemma laid_ensure_reasoning:
  assumes "laid st ps"
  shows "laid (ensure_reasoning st i md) (take_place (Reasoning_At i) ps)"
proof (cases "map_of (reasoning_parts st) i")
  case None
  then have "Reasoning_At i \<notin> set ps" using stands_known [of "reasoning_parts st" Reasoning_At] assms by (simp add: laid_def)
  then show ?thesis
    using assms None stands_new [OF _ None inj_at(2), of ps] laid_length [OF assms]
    by (simp add: laid_def ensure_reasoning_def take_place_def append_content_def stands_append givens_append)
next
  case (Some a)
  then have "Reasoning_At i \<in> set ps" using stands_known [of "reasoning_parts st" Reasoning_At] assms by (simp add: laid_def)
  then show ?thesis using assms Some by (simp add: ensure_reasoning_def take_place_def)
qed

lemma laid_update_text:
  assumes "laid st ps" "map_of (text_parts st) i = Some a"
  shows "laid ((replace_content st (content_index a) p)\<lparr>text_parts :=
      map_set (text_parts st) i (a\<lparr>part_text := t, part_metadata := m\<rparr>)\<rparr>) ps"
proof -
  have "ps ! content_index a = Text_At i" using assms by (auto simp: laid_def stands_def)
  then show ?thesis using assms by (simp add: laid_def replace_content_def stands_update givens_replace)
qed

lemma laid_update_reasoning:
  assumes "laid st ps" "map_of (reasoning_parts st) i = Some a"
  shows "laid ((replace_content st (content_index a) p)\<lparr>reasoning_parts :=
      map_set (reasoning_parts st) i (a\<lparr>part_text := t, part_metadata := m\<rparr>)\<rparr>) ps"
proof -
  have "ps ! content_index a = Reasoning_At i" using assms by (auto simp: laid_def stands_def)
  then show ?thesis using assms by (simp add: laid_def replace_content_def stands_update givens_replace)
qed

lemma laid_frame [simp]: "laid (append_event st e) ps = laid st ps" "laid (st\<lparr>tool_inputs := x\<rparr>) ps = laid st ps"
  by (simp_all add: laid_def)

lemma laid_given: "laid st ps \<Longrightarrow> plain p = p \<Longrightarrow> laid (append_content st p) (ps @ [Given p])"
  by (simp add: laid_def append_content_def stands_append givens_append)

lemma laid_text_delta: "laid st ps \<Longrightarrow> laid (reduce_text_delta st i t md) (take_place (Text_At i) ps)"
  using laid_ensure_text [of st ps i md] laid_update_text
  by (auto simp: reduce_text_delta_def Let_def split: option.split)

lemma laid_reasoning_delta: "laid st ps \<Longrightarrow> laid (reduce_reasoning_delta st i t md) (take_place (Reasoning_At i) ps)"
  using laid_ensure_reasoning [of st ps i md] laid_update_reasoning
  by (auto simp: reduce_reasoning_delta_def Let_def split: option.split)

lemma laid_ends:
  "laid st ps \<Longrightarrow> laid (reduce_text_end st i md) ps" "laid st ps \<Longrightarrow> laid (reduce_reasoning_end st i md) ps"
  using laid_update_text [of st ps i] laid_update_reasoning [of st ps i]
  by (auto simp: reduce_text_end_def reduce_reasoning_end_def Let_def split: option.split)
    (metis assembly.surjective assembly.update_convs)+

lemma laid_reduce: "laid st ps \<Longrightarrow> laid (reduce st e) (add_place e ps)"
  by (cases e)
    (simp_all add: reduce_def Let_def laid_ensure_text laid_ensure_reasoning laid_text_delta laid_reasoning_delta laid_ends laid_given
      reduce_tool_input_start_def reduce_tool_input_delta_def reduce_tool_input_end_def reduce_tool_call_def)

lemma laid_all: "laid (reduce_all evs) (places evs)"
proof (induction evs rule: rev_induct)
  case Nil
  show ?case by (simp add: reduce_all_def places_def empty_response_state_def laid_def stands_def givens_def)
next
  case (snoc e evs)
  have "reduce_all (evs @ [e]) = reduce (reduce_all evs) e" "places (evs @ [e]) = add_place e (places evs)"
    by (simp_all add: reduce_all_def places_def)
  with snoc show ?case by (simp add: laid_reduce)
qed

text \<open>C26. The message assembled from any sequence of events, the metadata of its blocks left out, is the list of its
  places filled in: each text or reasoning block stands once, where its first start or delta came between the calls
  and results, and holds exactly the deltas of its id in order, however the blocks are interleaved.\<close>

theorem blocks_hold_their_deltas:
  "map plain (message_content (reduce_all evs)) = map (filled evs) (places evs)"
proof (rule nth_equalityI)
  have laid: "laid (reduce_all evs) (places evs)" by (rule laid_all)
  show "length (map plain (message_content (reduce_all evs))) = length (map (filled evs) (places evs))"
    using laid_length [OF laid] by simp
  fix k assume "k < length (map plain (message_content (reduce_all evs)))"
  then have k: "k < length (places evs)" "k < length (message_content (reduce_all evs))" using laid_length [OF laid] by simp_all
  have "plain (message_content (reduce_all evs) ! k) = filled evs (places evs ! k)"
  proof (cases "places evs ! k")
    case (Text_At i)
    then obtain a where "map_of (text_parts (reduce_all evs)) i = Some a" "content_index a = k"
      using laid k(1) unfolding laid_def stands_def by blast
    then show ?thesis using reduce_all_facts [of evs i] Text_At by (auto simp: assembled_def filed_def block_text_def)
  next
    case (Reasoning_At i)
    then obtain a where "map_of (reasoning_parts (reduce_all evs)) i = Some a" "content_index a = k"
      using laid k(1) unfolding laid_def stands_def by blast
    then show ?thesis using reduce_all_facts [of evs i] Reasoning_At by (auto simp: assembled_def filed_def block_text_def)
  next
    case (Given p)
    then show ?thesis using laid k(1) by (simp add: laid_def givens_def)
  qed
  then show "map plain (message_content (reduce_all evs)) ! k = map (filled evs) (places evs) ! k" using k by simp
qed

section \<open>Completion\<close>

fun terminal :: "llm_event \<Rightarrow> bool" where
  "terminal (Finish r u m) = True"
| "terminal (ProviderError msg c r m) = True"
| "terminal e = False"

fun reason_after :: "llm_event \<Rightarrow> finish_reason option \<Rightarrow> finish_reason option" where
  "reason_after (Finish r u m) old = Some r"
| "reason_after (ProviderError msg c r m) old = or_else old (Some ErrorReason)"
| "reason_after e old = old"

lemma parts_keep_meta [simp]:
  "resp_reason (ensure_text st i md) = resp_reason st" "resp_usage (ensure_text st i md) = resp_usage st"
  "events (ensure_text st i md) = events st"
  "resp_reason (ensure_reasoning st i md) = resp_reason st" "resp_usage (ensure_reasoning st i md) = resp_usage st"
  "events (ensure_reasoning st i md) = events st"
  by (simp_all add: ensure_text_def ensure_reasoning_def append_content_def)

lemma reduce_meta:
  "resp_reason (reduce st e) = reason_after e (resp_reason st) \<and>
   resp_usage (reduce st e) = or_else (event_usage e) (resp_usage st) \<and> events (reduce st e) = events st @ [e]"
  by (cases e)
    (auto simp: reduce_def Let_def append_event_def reduce_text_delta_def reduce_text_end_def
      reduce_reasoning_delta_def reduce_reasoning_end_def reduce_tool_input_start_def reduce_tool_input_delta_def
      reduce_tool_input_end_def reduce_tool_call_def append_content_def replace_content_def split: option.split)

lemma reduce_all_meta:
  "resp_reason (reduce_all evs) = fold reason_after evs None \<and> resp_usage (reduce_all evs) = response_usage evs \<and>
   events (reduce_all evs) = evs"
proof (induction evs rule: rev_induct)
  case Nil
  show ?case by (simp add: reduce_all_def empty_response_state_def response_usage_def)
next
  case (snoc e evs)
  have "reduce_all (evs @ [e]) = reduce (reduce_all evs) e" by (simp add: reduce_all_def)
  with snoc reduce_meta [of "reduce_all evs" e] show ?case by (simp add: response_usage_def)
qed

lemma fold_reason_None: "fold reason_after evs old = None \<longleftrightarrow> old = None \<and> \<not> list_ex terminal evs"
proof (induction evs arbitrary: old)
  case (Cons e evs)
  then show ?case by (cases e; cases old) auto
qed simp

text \<open>A response is returned exactly when a finish or a provider error has been seen; it carries all the
  events, the usage of the last event that reports one, and the reason of the last finish, an error
  counting only as long as no finish has given a reason.\<close>

theorem response_completion:
  "(from_events evs = None \<longleftrightarrow> \<not> list_ex terminal evs) \<and>
   (case from_events evs of
      None \<Rightarrow> True
    | Some r \<Rightarrow> res_events r = evs \<and> res_usage r = response_usage evs \<and>
        Some (res_reason r) = fold reason_after evs None \<and> response_text (res_events r) = response_text evs)"
  using reduce_all_meta [of evs] fold_reason_None [of evs None]
  by (auto simp: from_events_def complete_def split: option.splits)

end
