(* ===== verification/Lifecycle.thy ===== *)
theory Lifecycle imports LlmAssembly begin

text \<open>
  The lifecycle of the blocks of a streamed step (packages/llm/src/protocols/utils/lifecycle.ts). An
  operation pushes events on an array the caller passes; here it returns them. The sets of open block
  ids are lists in insertion order. The contract every operation keeps is stated against an
  independent automaton of well-bracketed event traces.
\<close>

section \<open>The operations\<close>

record lifecycle =
  step_started :: bool
  open_text :: "jstring list"
  open_reasoning :: "jstring list"

definition initial :: lifecycle where
  "initial = \<lparr>step_started = False, open_text = [], open_reasoning = []\<rparr>"

definition add_id :: "jstring list \<Rightarrow> jstring \<Rightarrow> jstring list" where
  "add_id ids i = (if i \<in> set ids then ids else ids @ [i])"

definition step_start :: "lifecycle \<Rightarrow> lifecycle \<times> llm_event list" where
  "step_start st = (if step_started st then (st, []) else (st\<lparr>step_started := True\<rparr>, [StepStart 0]))"

definition text_delta :: "jstring \<Rightarrow> jstring \<Rightarrow> lifecycle \<Rightarrow> lifecycle \<times> llm_event list" where
  "text_delta i t st =
    (let (stepped, evs) = step_start st in
     if i \<in> set (open_text stepped) then (stepped, evs @ [TextDelta i t None])
     else (stepped\<lparr>open_text := add_id (open_text stepped) i\<rparr>, evs @ [TextStart i None, TextDelta i t None]))"

definition reasoning_start :: "jstring \<Rightarrow> metadata option \<Rightarrow> lifecycle \<Rightarrow> lifecycle \<times> llm_event list" where
  "reasoning_start i md st =
    (if i \<in> set (open_reasoning st) then (st, [])
     else let (stepped, evs) = step_start st in
       (stepped\<lparr>open_reasoning := add_id (open_reasoning stepped) i\<rparr>, evs @ [ReasoningStart i md]))"

definition reasoning_delta :: "jstring \<Rightarrow> jstring \<Rightarrow> metadata option \<Rightarrow> lifecycle \<Rightarrow> lifecycle \<times> llm_event list" where
  "reasoning_delta i t md st =
    (let (started, evs) = reasoning_start i md st in (started, evs @ [ReasoningDelta i t None]))"

definition reasoning_end :: "jstring \<Rightarrow> metadata option \<Rightarrow> lifecycle \<Rightarrow> lifecycle \<times> llm_event list" where
  "reasoning_end i md st =
    (if i \<notin> set (open_reasoning st) then (st, [])
     else let (stepped, evs) = step_start st in
       (stepped\<lparr>open_reasoning := removeAll i (open_reasoning stepped)\<rparr>, evs @ [ReasoningEnd i md]))"

definition text_end :: "jstring \<Rightarrow> metadata option \<Rightarrow> lifecycle \<Rightarrow> lifecycle \<times> llm_event list" where
  "text_end i md st =
    (if i \<notin> set (open_text st) then (st, [])
     else let (stepped, evs) = step_start st in
       (stepped\<lparr>open_text := removeAll i (open_text stepped)\<rparr>, evs @ [TextEnd i md]))"

definition close_open_blocks :: "lifecycle \<Rightarrow> lifecycle \<times> llm_event list" where
  "close_open_blocks st =
    (st\<lparr>open_text := [], open_reasoning := []\<rparr>,
     map (\<lambda>i. ReasoningEnd i None) (open_reasoning st) @ map (\<lambda>i. TextEnd i None) (open_text st))"

definition finish :: "finish_reason \<Rightarrow> usage option \<Rightarrow> metadata option \<Rightarrow> lifecycle \<Rightarrow> lifecycle \<times> llm_event list" where
  "finish reason u md st =
    (let (stepped, e1) = step_start st; (closed, e2) = close_open_blocks stepped
     in (closed\<lparr>step_started := False\<rparr>, e1 @ e2 @ [StepFinish 0 reason u md, Finish reason u md]))"

section \<open>Well-bracketed traces\<close>

record trace_state =
  in_step :: bool
  texts :: "jstring set"
  reasonings :: "jstring set"
  ending :: bool

definition guard :: "bool \<Rightarrow> trace_state \<Rightarrow> trace_state option" where
  "guard b t = (if b then Some t else None)"

fun accept :: "trace_state \<Rightarrow> llm_event \<Rightarrow> trace_state option" where
  "accept t (StepStart n) = guard (\<not> in_step t \<and> \<not> ending t) (t\<lparr>in_step := True\<rparr>)"
| "accept t (TextStart i md) = guard (in_step t \<and> i \<notin> texts t) (t\<lparr>texts := insert i (texts t)\<rparr>)"
| "accept t (TextDelta i x md) = guard (in_step t \<and> i \<in> texts t) t"
| "accept t (TextEnd i md) = guard (in_step t \<and> i \<in> texts t) (t\<lparr>texts := texts t - {i}\<rparr>)"
| "accept t (ReasoningStart i md) = guard (in_step t \<and> i \<notin> reasonings t) (t\<lparr>reasonings := insert i (reasonings t)\<rparr>)"
| "accept t (ReasoningDelta i x md) = guard (in_step t \<and> i \<in> reasonings t) t"
| "accept t (ReasoningEnd i md) = guard (in_step t \<and> i \<in> reasonings t) (t\<lparr>reasonings := reasonings t - {i}\<rparr>)"
| "accept t (StepFinish n r u md) =
    guard (in_step t \<and> texts t = {} \<and> reasonings t = {}) (t\<lparr>in_step := False, ending := True\<rparr>)"
| "accept t (Finish r u md) = guard (ending t) (t\<lparr>ending := False\<rparr>)"
| "accept t (ProviderError msg c r md) = guard (\<not> ending t) t"
| "accept t (ToolInputStart i n md) = guard (in_step t) t"
| "accept t (ToolInputDelta i n x) = guard (in_step t) t"
| "accept t (ToolInputEnd i n md) = guard (in_step t) t"
| "accept t (ToolCall i n inp pe md) = guard (in_step t) t"
| "accept t (ToolResult i n r out pe md) = guard (in_step t) t"
| "accept t (ToolError i n msg e md) = guard (in_step t) t"

fun run :: "trace_state \<Rightarrow> llm_event list \<Rightarrow> trace_state option" where
  "run t [] = Some t"
| "run t (e # es) = Option.bind (accept t e) (\<lambda>t'. run t' es)"

lemma run_append: "run t (xs @ ys) = Option.bind (run t xs) (\<lambda>t'. run t' ys)"
proof (induction xs arbitrary: t)
  case (Cons e xs)
  then show ?case by (cases "accept t e") auto
qed simp

lemma run_appendI: "run t xs = Some u \<Longrightarrow> run u ys = Some v \<Longrightarrow> run t (xs @ ys) = Some v"
  by (simp add: run_append)

definition idle_trace :: trace_state where
  "idle_trace = \<lparr>in_step = False, texts = {}, reasonings = {}, ending = False\<rparr>"

section \<open>The contract of an operation\<close>

definition trace_of :: "lifecycle \<Rightarrow> trace_state" where
  "trace_of st = \<lparr>in_step = step_started st, texts = set (open_text st), reasonings = set (open_reasoning st), ending = False\<rparr>"

definition wf_lifecycle :: "lifecycle \<Rightarrow> bool" where
  \<comment> \<open>and a block is open during a step only\<close>
  "wf_lifecycle st \<longleftrightarrow> distinct (open_text st) \<and> distinct (open_reasoning st) \<and>
     (open_text st \<noteq> [] \<or> open_reasoning st \<noteq> [] \<longrightarrow> step_started st)"

locale lifecycle_op =
  fixes f :: "lifecycle \<Rightarrow> lifecycle \<times> llm_event list"
  assumes keeps_wf: "wf_lifecycle st \<Longrightarrow> wf_lifecycle (fst (f st))"
    and traces: "wf_lifecycle st \<Longrightarrow> run (trace_of st) (snd (f st)) = Some (trace_of (fst (f st)))"
begin

lemma extends:
  "run t0 pre = Some (trace_of st) \<Longrightarrow> wf_lifecycle st \<Longrightarrow>
   run t0 (pre @ snd (f st)) = Some (trace_of (fst (f st)))"
  by (rule run_appendI) (assumption, rule traces)

end

interpretation step_start: lifecycle_op step_start
  by unfold_locales (auto simp: step_start_def wf_lifecycle_def trace_of_def guard_def)

interpretation text_delta: lifecycle_op "text_delta i t" for i t
  by unfold_locales
    (auto simp: text_delta_def step_start_def add_id_def wf_lifecycle_def trace_of_def guard_def split: if_splits)

interpretation reasoning_start: lifecycle_op "reasoning_start i md" for i md
  by unfold_locales
    (auto simp: reasoning_start_def step_start_def add_id_def wf_lifecycle_def trace_of_def guard_def split: if_splits)

interpretation text_end: lifecycle_op "text_end i md" for i md
  by unfold_locales
    (auto simp: text_end_def step_start_def distinct_removeAll wf_lifecycle_def trace_of_def guard_def split: if_splits)

interpretation reasoning_end: lifecycle_op "reasoning_end i md" for i md
  by unfold_locales
    (auto simp: reasoning_end_def step_start_def distinct_removeAll wf_lifecycle_def trace_of_def guard_def split: if_splits)

lemma run_reasoning_ends:
  "in_step t \<Longrightarrow> distinct ids \<Longrightarrow> set ids \<subseteq> reasonings t \<Longrightarrow>
   run t (map (\<lambda>i. ReasoningEnd i None) ids) = Some (t\<lparr>reasonings := reasonings t - set ids\<rparr>)"
proof (induction ids arbitrary: t)
  case (Cons i ids)
  have "run (t\<lparr>reasonings := reasonings t - {i}\<rparr>) (map (\<lambda>i. ReasoningEnd i None) ids) =
      Some (t\<lparr>reasonings := reasonings t - {i}, reasonings := reasonings t - {i} - set ids\<rparr>)"
    using Cons.IH [of "t\<lparr>reasonings := reasonings t - {i}\<rparr>"] Cons.prems by auto
  moreover have "reasonings t - {i} - set ids = reasonings t - set (i # ids)" by auto
  ultimately show ?case using Cons.prems by (simp add: guard_def)
qed simp

lemma run_text_ends:
  "in_step t \<Longrightarrow> distinct ids \<Longrightarrow> set ids \<subseteq> texts t \<Longrightarrow>
   run t (map (\<lambda>i. TextEnd i None) ids) = Some (t\<lparr>texts := texts t - set ids\<rparr>)"
proof (induction ids arbitrary: t)
  case (Cons i ids)
  have "run (t\<lparr>texts := texts t - {i}\<rparr>) (map (\<lambda>i. TextEnd i None) ids) =
      Some (t\<lparr>texts := texts t - {i}, texts := texts t - {i} - set ids\<rparr>)"
    using Cons.IH [of "t\<lparr>texts := texts t - {i}\<rparr>"] Cons.prems by auto
  moreover have "texts t - {i} - set ids = texts t - set (i # ids)" by auto
  ultimately show ?case using Cons.prems by (simp add: guard_def)
qed simp

lemma reasoning_delta_traces:
  "wf_lifecycle st \<Longrightarrow> run (trace_of st) (snd (reasoning_delta i t md st)) = Some (trace_of (fst (reasoning_delta i t md st)))"
  by (auto simp: reasoning_delta_def reasoning_start_def step_start_def add_id_def trace_of_def wf_lifecycle_def guard_def split: if_splits)

interpretation reasoning_delta: lifecycle_op "reasoning_delta i t md" for i t md
proof
  fix st assume wf: "wf_lifecycle st"
  show "wf_lifecycle (fst (reasoning_delta i t md st))"
    using reasoning_start.keeps_wf [OF wf, of i md] by (simp add: reasoning_delta_def case_prod_beta Let_def)
qed (rule reasoning_delta_traces)

lemma finish_traces:
  assumes "wf_lifecycle st"
  shows "run (trace_of st) (snd (finish r u md st)) = Some idle_trace \<and> fst (finish r u md st) = initial"
proof -
  let ?t = "\<lparr>in_step = True, texts = set (open_text st), reasonings = set (open_reasoning st), ending = False\<rparr>"
  have start: "run (trace_of st) (snd (step_start st)) = Some ?t"
    by (simp add: step_start_def trace_of_def guard_def)
  have "run ?t (map (\<lambda>i. ReasoningEnd i None) (open_reasoning st)) = Some (?t\<lparr>reasonings := {}\<rparr>)"
    using assms run_reasoning_ends [of ?t "open_reasoning st"] by (simp add: wf_lifecycle_def)
  moreover have "run (?t\<lparr>reasonings := {}\<rparr>) (map (\<lambda>i. TextEnd i None) (open_text st)) = Some (?t\<lparr>reasonings := {}, texts := {}\<rparr>)"
    using assms run_text_ends [of "?t\<lparr>reasonings := {}\<rparr>" "open_text st"] by (simp add: wf_lifecycle_def)
  ultimately have close: "run ?t (snd (close_open_blocks (fst (step_start st)))) = Some (?t\<lparr>reasonings := {}, texts := {}\<rparr>)"
    by (auto simp: close_open_blocks_def step_start_def intro: run_appendI)
  have fin: "run (?t\<lparr>reasonings := {}, texts := {}\<rparr>) [StepFinish 0 r u md, Finish r u md] = Some idle_trace"
    by (simp add: guard_def idle_trace_def)
  have "snd (finish r u md st) = snd (step_start st) @ snd (close_open_blocks (fst (step_start st))) @
      [StepFinish 0 r u md, Finish r u md]"
    by (simp add: finish_def case_prod_beta Let_def)
  then show ?thesis
    using run_appendI [OF start run_appendI [OF close fin]]
    by (simp add: finish_def case_prod_beta Let_def close_open_blocks_def step_start_def initial_def)
qed

lemma trace_of_initial: "trace_of initial = idle_trace" "wf_lifecycle initial"
  by (simp_all add: trace_of_def initial_def idle_trace_def wf_lifecycle_def)

interpretation finish: lifecycle_op "finish r u md" for r u md
  by unfold_locales (simp_all add: finish_traces trace_of_initial)

lemmas lifecycle_ops_wf = step_start.keeps_wf text_delta.keeps_wf text_end.keeps_wf reasoning_start.keeps_wf
  reasoning_delta.keeps_wf reasoning_end.keeps_wf finish.keeps_wf

lemmas lifecycle_ops_extend = step_start.extends text_delta.extends text_end.extends reasoning_start.extends
  reasoning_delta.extends reasoning_end.extends finish.extends

end
