(* ===== verification/ToolStream.thy ===== *)
theory ToolStream imports Lifecycle begin

text \<open>
  The accumulation of streamed tool calls (packages/llm/src/protocols/utils/tool-stream.ts, with
  \<open>parseToolInput\<close> and \<open>eventError\<close> of packages/llm/src/protocols/shared.ts). The state maps the
  provider's stream key to a pending call; \<open>Object.values\<close> visits numeric keys in ascending order and
  other keys as they were inserted, so the operation that visits all of them takes the order as an
  argument. The JSON decoder is an argument.
\<close>

section \<open>State\<close>

record pending_tool =
  pt_id :: jstring
  pt_name :: jstring
  pt_input :: jstring
  pt_executed :: "bool option"
  pt_metadata :: "metadata option"

type_synonym 'k tools = "('k, pending_tool) jsmap"

datatype llm_error = InvalidProviderOutput jstring jstring "jstring option" \<comment> \<open>route, message, raw\<close>

record 'k append_outcome =
  ao_tools :: "'k tools"
  ao_tool :: pending_tool
  ao_events :: "llm_event list"

definition event_error :: "jstring \<Rightarrow> jstring \<Rightarrow> llm_error" where
  "event_error route msg = InvalidProviderOutput route msg None"

definition parse_tool_input :: "(jstring \<Rightarrow> json option) \<Rightarrow> jstring \<Rightarrow> jstring \<Rightarrow> jstring \<Rightarrow> (llm_error, json) result" where
  "parse_tool_input decode route name raw =
    (let inp = (if raw = [] then lit ''{}'' else raw) in
     case decode inp of
       Some j \<Rightarrow> Inr j
     | None \<Rightarrow> Inl (InvalidProviderOutput route
         (lit ''Invalid JSON input for '' @ route @ lit '' tool call '' @ name) (Some inp)))"

section \<open>Operations\<close>

definition input_start :: "pending_tool \<Rightarrow> llm_event" where
  "input_start tool = ToolInputStart (pt_id tool) (pt_name tool) (pt_metadata tool)"

definition input_delta :: "pending_tool \<Rightarrow> jstring \<Rightarrow> llm_event" where
  "input_delta tool t = ToolInputDelta (pt_id tool) (pt_name tool) t"

definition input_end :: "pending_tool \<Rightarrow> llm_event" where
  "input_end tool = ToolInputEnd (pt_id tool) (pt_name tool) (pt_metadata tool)"

definition tool_call :: "(jstring \<Rightarrow> json option) \<Rightarrow> jstring \<Rightarrow> pending_tool \<Rightarrow> jstring option \<Rightarrow> (llm_error, llm_event) result" where
  "tool_call decode route tool override =
    rbind (parse_tool_input decode route (pt_name tool) (case override of Some s \<Rightarrow> s | None \<Rightarrow> pt_input tool))
      (\<lambda>j. Inr (ToolCall (pt_id tool) (pt_name tool) j (if pt_executed tool = Some True then Some True else None) (pt_metadata tool)))"

definition append_tool :: "'k tools \<Rightarrow> 'k \<Rightarrow> pending_tool \<Rightarrow> jstring \<Rightarrow> 'k append_outcome" where
  "append_tool tools key tool t =
    \<lparr>ao_tools = map_set tools key tool, ao_tool = tool,
     ao_events = (if map_of tools key = None then [input_start tool] else []) @
       (if t \<noteq> [] then [input_delta tool t] else [])\<rparr>"

definition start :: "'k tools \<Rightarrow> 'k \<Rightarrow> jstring \<Rightarrow> jstring \<Rightarrow> jstring option \<Rightarrow> bool option \<Rightarrow> metadata option \<Rightarrow> 'k tools" where
  "start tools key i name inp executed md =
    map_set tools key \<lparr>pt_id = i, pt_name = name, pt_input = (case inp of Some s \<Rightarrow> s | None \<Rightarrow> []),
      pt_executed = executed, pt_metadata = md\<rparr>"

record tool_delta =
  td_id :: "jstring option"
  td_name :: "jstring option"
  td_text :: jstring

definition append_or_start :: "jstring \<Rightarrow> 'k tools \<Rightarrow> 'k \<Rightarrow> tool_delta \<Rightarrow> jstring \<Rightarrow> (llm_error, 'k append_outcome) result" where
  "append_or_start route tools key delta missing =
    (let current = map_of tools key;
         i = or_else (td_id delta) (map_option pt_id current);
         name = or_else (td_name delta) (map_option pt_name current)
     in case (i, name) of
          (Some i', Some n') \<Rightarrow>
            if i' = [] \<or> n' = [] then Inl (event_error route missing)
            else
              let tool = \<lparr>pt_id = i', pt_name = n',
                    pt_input = (case current of Some c \<Rightarrow> pt_input c | None \<Rightarrow> []) @ td_text delta,
                    pt_executed = (case current of Some c \<Rightarrow> pt_executed c | None \<Rightarrow> None),
                    pt_metadata = (case current of Some c \<Rightarrow> pt_metadata c | None \<Rightarrow> None)\<rparr>
              in (case current of
                    Some c \<Rightarrow>
                      if td_text delta = [] \<and> pt_id c = i' \<and> pt_name c = n'
                      then Inr \<lparr>ao_tools = tools, ao_tool = c, ao_events = []\<rparr>
                      else Inr (append_tool tools key tool (td_text delta))
                  | None \<Rightarrow> Inr (append_tool tools key tool (td_text delta)))
        | _ \<Rightarrow> Inl (event_error route missing))"

definition append_existing :: "jstring \<Rightarrow> 'k tools \<Rightarrow> 'k \<Rightarrow> jstring \<Rightarrow> jstring \<Rightarrow> (llm_error, 'k append_outcome) result" where
  "append_existing route tools key t missing =
    (case map_of tools key of
       None \<Rightarrow> Inl (event_error route missing)
     | Some current \<Rightarrow>
         if t = [] then Inr \<lparr>ao_tools = tools, ao_tool = current, ao_events = []\<rparr>
         else Inr (append_tool tools key (current\<lparr>pt_input := pt_input current @ t\<rparr>) t))"

definition finish_call :: "(jstring \<Rightarrow> json option) \<Rightarrow> jstring \<Rightarrow> 'k tools \<Rightarrow> 'k \<Rightarrow> jstring option
    \<Rightarrow> (llm_error, 'k tools \<times> llm_event list option) result" where
  \<comment> \<open>the common body of \<open>finish\<close> and \<open>finishWithInput\<close>\<close>
  "finish_call decode route tools key override =
    (case map_of tools key of
       None \<Rightarrow> Inr (tools, None)
     | Some tool \<Rightarrow>
         rbind (tool_call decode route tool override)
           (\<lambda>call. Inr (map_delete tools key, Some [input_end tool, call])))"

definition finish_tool :: "(jstring \<Rightarrow> json option) \<Rightarrow> jstring \<Rightarrow> 'k tools \<Rightarrow> 'k \<Rightarrow> (llm_error, 'k tools \<times> llm_event list option) result" where
  "finish_tool decode route tools key = finish_call decode route tools key None"

definition finish_with_input :: "(jstring \<Rightarrow> json option) \<Rightarrow> jstring \<Rightarrow> 'k tools \<Rightarrow> 'k \<Rightarrow> jstring \<Rightarrow> (llm_error, 'k tools \<times> llm_event list option) result" where
  "finish_with_input decode route tools key inp = finish_call decode route tools key (Some inp)"

fun call_each :: "(jstring \<Rightarrow> json option) \<Rightarrow> jstring \<Rightarrow> pending_tool list \<Rightarrow> (llm_error, llm_event list) result" where
  "call_each decode route [] = Inr []"
| "call_each decode route (tool # ts) =
    rbind (tool_call decode route tool None) (\<lambda>call.
      rbind (call_each decode route ts) (\<lambda>evs. Inr (input_end tool # call # evs)))"

definition finish_all :: "('k tools \<Rightarrow> 'k tools) \<Rightarrow> (jstring \<Rightarrow> json option) \<Rightarrow> jstring \<Rightarrow> 'k tools
    \<Rightarrow> (llm_error, 'k tools \<times> llm_event list) result" where
  "finish_all order decode route tools =
    rbind (call_each decode route (map snd (order tools))) (\<lambda>evs. Inr ([], evs))"

definition numeric_order :: "nat tools \<Rightarrow> nat tools" where
  "numeric_order tools = sort_key fst tools"

section \<open>Events of tools\<close>

fun is_tool_event :: "llm_event \<Rightarrow> bool" where
  "is_tool_event (ToolInputStart i n m) = True"
| "is_tool_event (ToolInputDelta i n t) = True"
| "is_tool_event (ToolInputEnd i n m) = True"
| "is_tool_event (ToolCall i n inp pe m) = True"
| "is_tool_event e = False"

lemma accept_tool_event: "is_tool_event e \<Longrightarrow> in_step t \<Longrightarrow> accept t e = Some t"
  by (cases e) (simp_all add: guard_def)

lemma run_tool_events: "list_all is_tool_event evs \<Longrightarrow> in_step t \<Longrightarrow> run t evs = Some t"
  by (induction evs) (simp_all add: accept_tool_event)

lemma tool_call_event: "tool_call decode route tool ov = Inr e \<Longrightarrow> is_tool_event e"
  by (auto simp: tool_call_def rbind_Inr_iff)

lemma append_tool_events: "list_all is_tool_event (ao_events (append_tool tools key tool t))"
  by (simp add: append_tool_def input_start_def input_delta_def)

lemma append_or_start_events: "append_or_start route tools key d msg = Inr r \<Longrightarrow> list_all is_tool_event (ao_events r)"
  by (auto simp: append_or_start_def Let_def append_tool_events split: option.splits if_splits)

lemma append_existing_events: "append_existing route tools key t msg = Inr r \<Longrightarrow> list_all is_tool_event (ao_events r)"
  by (auto simp: append_existing_def append_tool_events split: option.splits if_splits)

lemma finish_call_events:
  "finish_call decode route tools key ov = Inr (tools', Some evs) \<Longrightarrow> list_all is_tool_event evs"
  by (auto simp: finish_call_def rbind_Inr_iff input_end_def dest: tool_call_event split: option.splits)

lemma call_each_events: "call_each decode route ts = Inr evs \<Longrightarrow> list_all is_tool_event evs"
  by (induction ts arbitrary: evs) (auto simp: rbind_Inr_iff input_end_def dest: tool_call_event)

lemma finish_all_events: "finish_all order decode route tools = Inr (tools', evs) \<Longrightarrow> list_all is_tool_event evs \<and> tools' = []"
  by (auto simp: finish_all_def rbind_Inr_iff dest: call_each_events)

section \<open>Arguments in fragments\<close>

fun append_all :: "jstring \<Rightarrow> 'k tools \<Rightarrow> ('k \<times> tool_delta) list \<Rightarrow> jstring \<Rightarrow> (llm_error, 'k tools \<times> llm_event list) result" where
  \<comment> \<open>the loop of a protocol step over the deltas of a chunk\<close>
  "append_all route tools [] missing = Inr (tools, [])"
| "append_all route tools ((key, d) # ds) missing =
    rbind (append_or_start route tools key d missing) (\<lambda>r.
      rbind (append_all route (ao_tools r) ds missing) (\<lambda>(tools', evs). Inr (tools', ao_events r @ evs)))"

definition input_of :: "'k tools \<Rightarrow> 'k \<Rightarrow> jstring" where
  "input_of tools k = (case map_of tools k of None \<Rightarrow> [] | Some t \<Rightarrow> pt_input t)"

definition fragments :: "'k \<Rightarrow> ('k \<times> tool_delta) list \<Rightarrow> jstring" where
  "fragments k ds = concat (map (\<lambda>(k', d). if k' = k then td_text d else []) ds)"

lemma append_or_start_input:
  assumes "append_or_start route tools key d msg = Inr r"
  shows "input_of (ao_tools r) k = input_of tools k @ (if key = k then td_text d else [])"
    "map_of (ao_tools r) k \<noteq> None \<longleftrightarrow> map_of tools k \<noteq> None \<or> key = k"
    "wf_map tools \<Longrightarrow> wf_map (ao_tools r)"
  using assms
  by (auto simp: append_or_start_def append_tool_def input_of_def Let_def split: option.splits if_splits)

lemma append_all_input:
  "append_all route tools ds msg = Inr (tools', evs) \<Longrightarrow>
   input_of tools' k = input_of tools k @ fragments k ds \<and>
   (map_of tools' k \<noteq> None \<longleftrightarrow> map_of tools k \<noteq> None \<or> k \<in> fst ` set ds) \<and> (wf_map tools \<longrightarrow> wf_map tools')"
proof (induction ds arbitrary: tools evs)
  case Nil
  then show ?case by (simp add: fragments_def)
next
  case (Cons x ds)
  obtain key d where x: "x = (key, d)" by (cases x)
  from Cons.prems x obtain r evs' where r: "append_or_start route tools key d msg = Inr r"
    and rest: "append_all route (ao_tools r) ds msg = Inr (tools', evs')" by (auto simp: rbind_Inr_iff)
  show ?case
    using Cons.IH [OF rest] append_or_start_input(1,2) [OF r, of k] append_or_start_input(3) [OF r]
    by (auto simp: x fragments_def)
qed

lemma call_each_calls:
  "call_each decode route ts = Inr evs \<Longrightarrow>
   map (\<lambda>t. (pt_id t, pt_name t, decode (if pt_input t = [] then lit ''{}'' else pt_input t))) ts =
   concat (map (\<lambda>e. case e of ToolCall i n j pe m \<Rightarrow> [(i, n, Some j)] | _ \<Rightarrow> []) evs)"
  by (induction ts arbitrary: evs)
    (auto simp: rbind_Inr_iff tool_call_def parse_tool_input_def input_end_def Let_def split: option.splits if_splits)

text \<open>C24. However the arguments of tool calls are cut into fragments and interleaved over the stream keys,
  finishing yields one call per key, in ascending key order, whose input is the decoding of the
  concatenated fragments of that key (of an empty object where there are none).\<close>

theorem fragmented_calls:
  assumes "append_all route [] ds missing = Inr (tools, evs)"
    and "finish_all numeric_order decode route tools = Inr (tools', calls)"
  shows "\<exists>keys. sorted keys \<and> distinct keys \<and> set keys = fst ` set ds \<and> tools' = [] \<and>
    map (\<lambda>k. decode (if fragments k ds = [] then lit ''{}'' else fragments k ds)) keys =
    concat (map (\<lambda>e. case e of ToolCall i n j pe m \<Rightarrow> [Some j] | _ \<Rightarrow> []) calls)"
proof -
  let ?s = "numeric_order tools"
  have wf: "wf_map tools" using append_all_input [OF assms(1)] by auto
  have perm: "set ?s = set tools" "distinct (map fst ?s)" "sorted (map fst ?s)"
    using wf unfolding numeric_order_def wf_map_def
    by (auto simp: sorted_sort_key) (metis distinct_map distinct_sort set_sort)
  have frag: "pt_input t = fragments k ds" if "(k, t) \<in> set ?s" for k t
  proof -
    from that perm(1) wf have "map_of tools k = Some t" by (simp add: wf_map_get_iff)
    with append_all_input [OF assms(1), of k] show ?thesis by (simp add: input_of_def)
  qed
  have keys: "set (map fst ?s) = fst ` set ds"
    using append_all_input [OF assms(1)] perm(1) by (auto simp: map_of_eq_None_iff image_iff)
  from assms(2) obtain ce: "call_each decode route (map snd ?s) = Inr calls" and t: "tools' = []"
    by (auto simp: finish_all_def rbind_Inr_iff)
  have "map (\<lambda>k. decode (if fragments k ds = [] then lit ''{}'' else fragments k ds)) (map fst ?s) =
      map (\<lambda>t. decode (if pt_input t = [] then lit ''{}'' else pt_input t)) (map snd ?s)"
    using frag by auto
  also have "\<dots> = map (snd \<circ> snd) (map (\<lambda>t. (pt_id t, pt_name t, decode (if pt_input t = [] then lit ''{}'' else pt_input t))) (map snd ?s))"
    by simp
  also have "\<dots> = concat (map (\<lambda>e. case e of ToolCall i n j pe m \<Rightarrow> [Some j] | _ \<Rightarrow> []) calls)"
    unfolding call_each_calls [OF ce] map_concat by (auto intro!: arg_cong [where f = concat] split: llm_event.splits)
  finally show ?thesis using perm keys t by blast
qed

lemma fragmented_calls_witness:
  "\<exists>calls j. finish_all numeric_order (\<lambda>s. Some (JStr s)) (lit ''r'')
      [(1, \<lparr>pt_id = lit ''c1'', pt_name = lit ''n'', pt_input = lit ''{}'', pt_executed = None, pt_metadata = None\<rparr>),
       (0, \<lparr>pt_id = lit ''c0'', pt_name = lit ''n'', pt_input = lit ''ab'', pt_executed = None, pt_metadata = None\<rparr>)] = Inr ([], calls) \<and>
    concat (map (\<lambda>e. case e of ToolCall i n j pe m \<Rightarrow> [Some j] | _ \<Rightarrow> []) calls) = [Some (JStr (lit ''ab'')), Some (JStr (lit ''{}''))]"
proof -
  let ?d = "\<lambda>i t. \<lparr>td_id = i, td_name = Some (lit ''n''), td_text = t\<rparr>"
  let ?ds = "[(1, ?d (Some (lit ''c1'')) []), (0, ?d (Some (lit ''c0'')) (lit ''a'')), (1, ?d None (lit ''{}'')), (0 :: nat, ?d None (lit ''b''))]"
  let ?tools = "[(1, \<lparr>pt_id = lit ''c1'', pt_name = lit ''n'', pt_input = lit ''{}'', pt_executed = None, pt_metadata = None\<rparr>),
       (0 :: nat, \<lparr>pt_id = lit ''c0'', pt_name = lit ''n'', pt_input = lit ''ab'', pt_executed = None, pt_metadata = None\<rparr>)]"
  have "case append_all (lit ''r'') [] ?ds [] of Inr (tools, evs) \<Rightarrow> tools = ?tools | Inl e \<Rightarrow> False" by code_simp
  then obtain evs where a: "append_all (lit ''r'') [] ?ds [] = Inr (?tools, evs)" by (auto split: sum.splits prod.splits)
  have "case finish_all numeric_order (\<lambda>s. Some (JStr s)) (lit ''r'') ?tools of Inr (tools', calls) \<Rightarrow> tools' = [] | Inl e \<Rightarrow> False" by code_simp
  then obtain calls where f: "finish_all numeric_order (\<lambda>s. Some (JStr s)) (lit ''r'') ?tools = Inr ([], calls)"
    by (auto split: sum.splits prod.splits)
  obtain keys where k: "sorted keys" "distinct keys" "set keys = fst ` set ?ds"
    "map (\<lambda>k. Some (JStr (if fragments k ?ds = [] then lit ''{}'' else fragments k ?ds))) keys =
      concat (map (\<lambda>e. case e of ToolCall i n j pe m \<Rightarrow> [Some j] | _ \<Rightarrow> []) calls)"
    using fragmented_calls [OF a f] by blast
  have "set keys = set [0, 1]" using k(3) by auto
  then have "keys = [0, 1]" using k(1,2) sorted_distinct_set_unique [of keys "[0, 1]"] by simp
  moreover have "fragments 0 ?ds = lit ''ab''" "fragments 1 ?ds = lit ''{}''" by code_simp+
  ultimately show ?thesis using f k(4) by (auto simp: lit_def)
qed

end
