(* ===== verification/LlmStream.thy ===== *)
theory LlmStream imports ToolStream begin

text \<open>
  How a route runs a protocol's parser over the decoded events of a response
  (packages/llm/src/route/client.ts, packages/llm/src/route/protocol.ts), and the contract of a
  parser: what it emits is a well-bracketed trace that continues the one it has emitted so far.
\<close>

section \<open>Token arithmetic\<close>

definition total_of :: "int option \<Rightarrow> int option \<Rightarrow> int option \<Rightarrow> int option" where
  "total_of inputTokens outputTokens given =
    (case given of
       Some n \<Rightarrow> Some n
     | None \<Rightarrow>
         if inputTokens = None \<and> outputTokens = None then None
         else Some ((case inputTokens of Some n \<Rightarrow> n | None \<Rightarrow> 0) + (case outputTokens of Some n \<Rightarrow> n | None \<Rightarrow> 0)))"

definition subtract_tokens :: "int option \<Rightarrow> int option \<Rightarrow> int option" where
  "subtract_tokens given subtrahend =
    (case given of
       None \<Rightarrow> None
     | Some n \<Rightarrow> (case subtrahend of None \<Rightarrow> Some n | Some k \<Rightarrow> Some (max 0 (n - k))))"

definition sum_tokens :: "int option list \<Rightarrow> int option" where
  "sum_tokens vs =
    (if list_all (\<lambda>v. v = None) vs then None
     else Some (sum_list (map (\<lambda>v. case v of Some n \<Rightarrow> n | None \<Rightarrow> 0) vs)))"

section \<open>Running a parser\<close>

fun drive :: "('st \<Rightarrow> 'ev \<Rightarrow> (llm_error, 'st \<times> llm_event list) result) \<Rightarrow> ('st \<Rightarrow> llm_event list) \<Rightarrow> 'st \<Rightarrow> 'ev list
    \<Rightarrow> llm_event list \<times> llm_error option" where
  \<comment> \<open>\<open>Stream.mapAccumEffect\<close>: the events emitted, and the failure that ended the stream early\<close>
  "drive step halt st [] = (halt st, None)"
| "drive step halt st (e # es) =
    (case step st e of
       Inl err \<Rightarrow> ([], Some err)
     | Inr (st', evs) \<Rightarrow> (case drive step halt st' es of (rest, r) \<Rightarrow> (evs @ rest, r)))"

text \<open>The state a parser is in after all events, when no step fails.\<close>

fun settle :: "('st \<Rightarrow> 'ev \<Rightarrow> (llm_error, 'st \<times> llm_event list) result) \<Rightarrow> 'st \<Rightarrow> 'ev list \<Rightarrow> 'st option" where
  "settle step st [] = Some st"
| "settle step st (e # es) = (case step st e of Inl err \<Rightarrow> None | Inr (st', evs) \<Rightarrow> settle step st' es)"

locale stream_parser =
  fixes step :: "'st \<Rightarrow> 'ev \<Rightarrow> (llm_error, 'st \<times> llm_event list) result"
    and halt :: "'st \<Rightarrow> llm_event list"
    and ok :: "'st \<Rightarrow> bool"
    and tr :: "'st \<Rightarrow> trace_state"
  assumes step_ok: "ok st \<Longrightarrow> step st e = Inr (st', evs) \<Longrightarrow> ok st'"
    and step_trace: "ok st \<Longrightarrow> step st e = Inr (st', evs) \<Longrightarrow> run (tr st) evs = Some (tr st')"
    and halt_trace: "ok st \<Longrightarrow> run (tr st) (halt st) \<noteq> None"
begin

lemma drive_trace: "ok st \<Longrightarrow> run (tr st) (fst (drive step halt st es)) \<noteq> None"
proof (induction es arbitrary: st)
  case Nil
  then show ?case by (simp add: halt_trace del: not_None_eq)
next
  case (Cons e es)
  show ?case
  proof (cases "step st e")
    case (Inl err)
    then show ?thesis by simp
  next
    case (Inr r)
    obtain st' evs where r: "r = (st', evs)" by (cases r)
    note s = Inr [unfolded r]
    obtain rest q where d: "drive step halt st' es = (rest, q)" by (cases "drive step halt st' es")
    have "run (tr st') rest \<noteq> None" using Cons.IH [OF step_ok [OF Cons.prems s]] d by simp
    then obtain t where t: "run (tr st') rest = Some t" by blast
    from run_appendI [OF step_trace [OF Cons.prems s] t] s d show ?thesis by simp
  qed
qed

lemma settle_ok: "ok st \<Longrightarrow> settle step st es = Some st' \<Longrightarrow> ok st'"
  by (induction es arbitrary: st) (auto split: sum.splits prod.splits dest: step_ok)

end

lemma drive_complete:
  "snd (drive step halt st es) = None \<longleftrightarrow> settle step st es \<noteq> None"
proof (induction es arbitrary: st)
  case (Cons e es)
  show ?case
  proof (cases "step st e")
    case (Inr r)
    with Cons.IH [of "fst r"] show ?thesis by (simp add: case_prod_beta)
  qed simp
qed simp

text \<open>What a whole stream amounts to, for a measure of events that adds up.\<close>

lemma drive_measure:
  assumes add: "\<And>xs ys. \<mu> (xs @ ys) = \<mu> xs @ \<mu> ys"
    and stp: "\<And>st e st' evs. step st e = Inr (st', evs) \<Longrightarrow> \<mu> evs = \<nu> e"
    and hlt: "\<And>st. \<mu> (halt st) = []"
    and run: "drive step halt st es = (evs, None)"
  shows "\<mu> evs = concat (map \<nu> es)"
  using run
proof (induction es arbitrary: st evs)
  case Nil
  then show ?case using hlt [of st] by simp
next
  case (Cons e es)
  then obtain st' evs' rest where s: "step st e = Inr (st', evs')" "drive step halt st' es = (rest, None)"
    and "evs = evs' @ rest" by (auto split: sum.splits prod.splits)
  with Cons.IH [OF s(2)] show ?case by (simp add: add stp [OF s(1)])
qed

lemma drive_halt:
  "drive step halt st es = (evs, None) \<Longrightarrow> \<exists>st' pre. settle step st es = Some st' \<and> evs = pre @ halt st'"
proof (induction es arbitrary: st evs)
  case (Cons e es)
  then obtain st' evs' rest where s: "step st e = Inr (st', evs')" "drive step halt st' es = (rest, None)"
    and e: "evs = evs' @ rest" by (auto split: sum.splits prod.splits)
  from Cons.IH [OF s(2)] obtain st2 pre where "settle step st' es = Some st2" "rest = pre @ halt st2" by blast
  with s e show ?case by (intro exI [of _ st2] exI [of _ "evs' @ pre"]) simp
qed simp

section \<open>Text of emitted events\<close>

lemma response_text_append [simp]: "response_text (xs @ ys) = response_text xs @ response_text ys"
  by (simp add: response_text_def)

lemma response_reasoning_append [simp]: "response_reasoning (xs @ ys) = response_reasoning xs @ response_reasoning ys"
  by (simp add: response_reasoning_def)

lemma response_text_simps [simp]:
  "response_text [] = []" "response_reasoning [] = []"
  "response_text (e # es) = (case e of TextDelta i t m \<Rightarrow> t | _ \<Rightarrow> []) @ response_text es"
  "response_reasoning (e # es) = (case e of ReasoningDelta i t m \<Rightarrow> t | _ \<Rightarrow> []) @ response_reasoning es"
  by (simp_all add: response_text_def response_reasoning_def)

lemma tool_events_silent: "list_all is_tool_event evs \<Longrightarrow> response_text evs = [] \<and> response_reasoning evs = []"
proof (induction evs)
  case (Cons e evs)
  then show ?case by (cases e) simp_all
qed simp

lemma ends_silent [simp]:
  "response_text (map (\<lambda>i. ReasoningEnd i None) ids) = []" "response_text (map (\<lambda>i. TextEnd i None) ids) = []"
  "response_reasoning (map (\<lambda>i. ReasoningEnd i None) ids) = []" "response_reasoning (map (\<lambda>i. TextEnd i None) ids) = []"
  by (induction ids) simp_all

lemma lifecycle_text [simp]:
  "response_text (snd (step_start st)) = []" "response_text (snd (text_delta i t st)) = t"
  "response_text (snd (reasoning_delta i t md st)) = []" "response_text (snd (reasoning_end i md st)) = []"
  "response_text (snd (text_end i md st)) = []" "response_text (snd (finish r u md st)) = []"
  "response_reasoning (snd (step_start st)) = []" "response_reasoning (snd (text_delta i t st)) = []"
  "response_reasoning (snd (reasoning_delta i t md st)) = t" "response_reasoning (snd (reasoning_end i md st)) = []"
  "response_reasoning (snd (text_end i md st)) = []" "response_reasoning (snd (finish r u md st)) = []"
  by (auto simp: step_start_def text_delta_def reasoning_delta_def reasoning_start_def reasoning_end_def text_end_def
      finish_def close_open_blocks_def Let_def case_prod_beta)

end
