(* ===== verification/JsJson.thy ===== *)
theory JsJson imports LlmEvents begin

text \<open>
  The strings JavaScript makes of a JSON value: decimal numbers, \<open>String(value)\<close> and
  \<open>JSON.stringify\<close>. Numbers are integers and the keys of an object are not integer-like, so they
  keep their order.
\<close>

section \<open>\<open>String(value)\<close>\<close>

fun digits :: "nat \<Rightarrow> jstring" where
  "digits n = (if n < 10 then [48 + n] else digits (n div 10) @ [48 + n mod 10])"

declare digits.simps [simp del]

definition number_text :: "int \<Rightarrow> jstring" where
  "number_text n = (if n < 0 then 45 # digits (nat (- n)) else digits (nat n))"

fun js_string :: "json \<Rightarrow> jstring" where
  "js_string JNull = lit ''null''"
| "js_string (JBool b) = (if b then lit ''true'' else lit ''false'')"
| "js_string (JNum n) = number_text n"
| "js_string (JStr s) = s"
| "js_string (JArr vs) = join_with [44] (map (\<lambda>v. if v = JNull then [] else js_string v) vs)"
| "js_string (JObj fs) = lit ''[object Object]''"

section \<open>\<open>JSON.stringify\<close>\<close>

definition hex_digit :: "nat \<Rightarrow> nat" where
  "hex_digit n = (if n < 10 then 48 + n else 87 + n)"

definition unicode_escape :: "nat \<Rightarrow> jstring" where
  "unicode_escape c = [92, 117, hex_digit (c div 4096 mod 16), hex_digit (c div 256 mod 16), hex_digit (c div 16 mod 16), hex_digit (c mod 16)]"

definition high_surrogate :: "nat \<Rightarrow> bool" where
  "high_surrogate c \<longleftrightarrow> 55296 \<le> c \<and> c \<le> 56319"

definition low_surrogate :: "nat \<Rightarrow> bool" where
  "low_surrogate c \<longleftrightarrow> 56320 \<le> c \<and> c \<le> 57343"

definition quote_unit :: "nat \<Rightarrow> jstring" where
  "quote_unit c =
    (if c = 34 then [92, 34] else if c = 92 then [92, 92]
     else if c = 8 then [92, 98] else if c = 12 then [92, 102]
     else if c = 10 then [92, 110] else if c = 13 then [92, 114] else if c = 9 then [92, 116]
     else if c < 32 \<or> high_surrogate c \<or> low_surrogate c then unicode_escape c
     else [c])"

fun quote_units :: "jstring \<Rightarrow> jstring" where
  \<comment> \<open>a surrogate pair stays, a lone surrogate is escaped\<close>
  "quote_units [] = []"
| "quote_units (c # d # s) =
    (if high_surrogate c \<and> low_surrogate d then c # d # quote_units s else quote_unit c @ quote_units (d # s))"
| "quote_units [c] = quote_unit c"

definition quoted :: "jstring \<Rightarrow> jstring" where
  "quoted s = 34 # quote_units s @ [34]"

fun stringify :: "json \<Rightarrow> jstring" where
  "stringify JNull = lit ''null''"
| "stringify (JBool b) = (if b then lit ''true'' else lit ''false'')"
| "stringify (JNum n) = number_text n"
| "stringify (JStr s) = quoted s"
| "stringify (JArr vs) = 91 # join_with [44] (map stringify vs) @ [93]"
| "stringify (JObj fs) = 123 # join_with [44] (map (\<lambda>(k, v). quoted k @ 58 # stringify v) fs) @ [125]"

definition text_of_value :: "json \<Rightarrow> jstring" where
  \<comment> \<open>a string as it is, any other value as JSON\<close>
  "text_of_value v = (case v of JStr s \<Rightarrow> s | _ \<Rightarrow> stringify v)"

end
