(* ===== verification/Anthropic.thy ===== *)
theory Anthropic imports LlmStream JsJson begin

text \<open>
  The stream parser of the Anthropic Messages protocol (packages/llm/src/protocols/anthropic-messages.ts).
  Absent and null fields of a decoded event are both \<open>None\<close>; a block index is a natural number. The
  classification of an error message, a list of regular expressions in packages/llm/src/provider-error.ts,
  is an argument.
\<close>

section \<open>Decoded events\<close>

record an_usage =
  an_input :: "int option"
  an_output :: "int option"
  an_cache_creation :: "int option"
  an_cache_read :: "int option"
  an_raw :: json

record an_block =
  bl_type :: jstring
  bl_id :: "jstring option"
  bl_name :: "jstring option"
  bl_text :: "jstring option"
  bl_thinking :: "jstring option"
  bl_tool_use_id :: "jstring option"
  bl_content :: json \<comment> \<open>\<open>JNull\<close> when absent\<close>

record an_delta =
  dl_type :: "jstring option"
  dl_text :: "jstring option"
  dl_thinking :: "jstring option"
  dl_partial_json :: "jstring option"
  dl_signature :: "jstring option"
  dl_stop_reason :: "jstring option"
  dl_stop_sequence :: "jstring option"

record an_event =
  ev_type :: jstring
  ev_index :: "nat option"
  ev_message_usage :: "an_usage option" \<comment> \<open>\<open>event.message?.usage\<close>\<close>
  ev_block :: "an_block option"
  ev_delta :: "an_delta option"
  ev_usage :: "an_usage option"
  ev_error_type :: "jstring option"
  ev_error_message :: "jstring option"

record an_state =
  as_tools :: "nat tools"
  as_usage :: "usage option"
  as_lifecycle :: lifecycle

type_synonym step_result = "an_state \<times> llm_event list"

section \<open>Usage and finish reason\<close>

definition AN_ADAPTER :: jstring where "AN_ADAPTER = lit ''anthropic-messages''"

definition an_metadata :: "json \<Rightarrow> metadata" where
  "an_metadata j = [(lit ''anthropic'', j)]"

definition present_text :: "jstring option \<Rightarrow> jstring" where
  \<comment> \<open>a text that is absent or empty is falsy\<close>
  "present_text t = (case t of Some s \<Rightarrow> s | None \<Rightarrow> [])"

definition an_finish_reason :: "jstring option \<Rightarrow> finish_reason" where
  "an_finish_reason r =
    (case r of
       None \<Rightarrow> Unknown
     | Some s \<Rightarrow>
         if s = lit ''end_turn'' \<or> s = lit ''stop_sequence'' \<or> s = lit ''pause_turn'' then Stop
         else if s = lit ''max_tokens'' then Length
         else if s = lit ''tool_use'' then ToolCalls
         else if s = lit ''refusal'' then ContentFilter
         else Unknown)"

definition an_map_usage :: "an_usage option \<Rightarrow> usage option" where
  "an_map_usage u =
    (case u of
       None \<Rightarrow> None
     | Some w \<Rightarrow>
         let inp = sum_tokens [an_input w, an_cache_read w, an_cache_creation w] in
         Some \<lparr>input_tokens = inp, output_tokens = an_output w, non_cached_input_tokens = an_input w,
           cache_read_input_tokens = an_cache_read w, cache_write_input_tokens = an_cache_creation w,
           reasoning_tokens = None, total_tokens = total_of inp (an_output w) None,
           usage_metadata = Some (an_metadata (an_raw w))\<rparr>)"

definition fields_of :: "metadata option \<Rightarrow> (jstring \<times> json) list" where
  \<comment> \<open>what \<open>...providerMetadata?.["anthropic"]\<close> spreads\<close>
  "fields_of md =
    (case Option.bind md (\<lambda>m. map_of m (lit ''anthropic'')) of Some (JObj fs) \<Rightarrow> fs | _ \<Rightarrow> [])"

definition merge_usage :: "usage option \<Rightarrow> usage option \<Rightarrow> usage option" where
  "merge_usage left right =
    (case (left, right) of
       (None, _) \<Rightarrow> right
     | (Some l, None) \<Rightarrow> left
     | (Some l, Some r) \<Rightarrow>
         let fresh = or_else (non_cached_input_tokens r) (non_cached_input_tokens l);
             rd = or_else (cache_read_input_tokens r) (cache_read_input_tokens l);
             wr = or_else (cache_write_input_tokens r) (cache_write_input_tokens l);
             inp = sum_tokens [fresh, rd, wr];
             out = or_else (output_tokens r) (output_tokens l)
         in Some \<lparr>input_tokens = inp, output_tokens = out, non_cached_input_tokens = fresh,
              cache_read_input_tokens = rd, cache_write_input_tokens = wr, reasoning_tokens = None,
              total_tokens = total_of inp out None,
              usage_metadata = Some (an_metadata (JObj
                (fold (\<lambda>(k, v) m. map_set m k v) (fields_of (usage_metadata r)) (fields_of (usage_metadata l)))))\<rparr>)"

section \<open>The handlers\<close>

definition block_id :: "string \<Rightarrow> nat option \<Rightarrow> jstring" where
  \<comment> \<open>\<open>`text-${event.index ?? 0}`\<close> and \<open>`reasoning-${event.index ?? 0}`\<close>\<close>
  "block_id kind index = lit kind @ digits (case index of Some i \<Rightarrow> i | None \<Rightarrow> 0)"

definition server_tool_name :: "jstring \<Rightarrow> jstring option" where
  "server_tool_name t =
    (if t = lit ''web_search_tool_result'' then Some (lit ''web_search'')
     else if t = lit ''code_execution_tool_result'' then Some (lit ''code_execution'')
     else if t = lit ''web_fetch_tool_result'' then Some (lit ''web_fetch'')
     else None)"

definition server_tool_result :: "an_block \<Rightarrow> llm_event option" where
  "server_tool_result b =
    (case server_tool_name (bl_type b) of
       None \<Rightarrow> None
     | Some name \<Rightarrow>
         let payload = (case bl_content b of
               JObj fs \<Rightarrow> (case map_of fs (lit ''type'') of Some v \<Rightarrow> js_string v | None \<Rightarrow> [])
             | _ \<Rightarrow> []);
             is_error = ends_with payload (lit ''_tool_result_error'')
         in Some (ToolResult (present_text (bl_tool_use_id b)) name
              (if is_error then ErrorResult (bl_content b) else JsonResult (bl_content b)) None (Some True)
              (Some (an_metadata (JObj [(lit ''blockType'', JStr (bl_type b))])))))"

definition on_message_start :: "an_state \<Rightarrow> an_event \<Rightarrow> step_result" where
  "on_message_start st e =
    (case an_map_usage (ev_message_usage e) of
       None \<Rightarrow> (st, [])
     | Some u \<Rightarrow> (st\<lparr>as_usage := merge_usage (as_usage st) (Some u)\<rparr>, []))"

definition with_lifecycle :: "an_state \<Rightarrow> lifecycle \<times> llm_event list \<Rightarrow> step_result" where
  "with_lifecycle st r = (st\<lparr>as_lifecycle := fst r\<rparr>, snd r)"

definition on_block_start :: "an_state \<Rightarrow> an_event \<Rightarrow> step_result" where
  "on_block_start st e =
    (case ev_block e of
       None \<Rightarrow> (st, [])
     | Some b \<Rightarrow>
         if (bl_type b = lit ''tool_use'' \<or> bl_type b = lit ''server_tool_use'') \<and> ev_index e \<noteq> None then
           let (lc, evs) = step_start (as_lifecycle st); index = the (ev_index e);
               i = (case bl_id b of Some s \<Rightarrow> s | None \<Rightarrow> digits index)
           in (st\<lparr>as_lifecycle := lc,
                  as_tools := ToolStream.start (as_tools st) index i (present_text (bl_name b)) None
                    (Some (bl_type b = lit ''server_tool_use'')) None\<rparr>,
               evs @ [ToolInputStart i (present_text (bl_name b)) None])
         else if bl_type b = lit ''text'' \<and> present_text (bl_text b) \<noteq> [] then
           with_lifecycle st (text_delta (block_id ''text-'' (ev_index e)) (present_text (bl_text b)) (as_lifecycle st))
         else if bl_type b = lit ''thinking'' \<and> present_text (bl_thinking b) \<noteq> [] then
           with_lifecycle st
             (reasoning_delta (block_id ''reasoning-'' (ev_index e)) (present_text (bl_thinking b)) None (as_lifecycle st))
         else
           (case server_tool_result b of
              None \<Rightarrow> (st, [])
            | Some r \<Rightarrow> (case with_lifecycle st (step_start (as_lifecycle st)) of (st', evs) \<Rightarrow> (st', evs @ [r]))))"

definition on_block_delta :: "an_state \<Rightarrow> an_event \<Rightarrow> (llm_error, step_result) result" where
  "on_block_delta st e =
    (case ev_delta e of
       None \<Rightarrow> Inr (st, [])
     | Some d \<Rightarrow>
         if dl_type d = Some (lit ''text_delta'') \<and> present_text (dl_text d) \<noteq> [] then
           Inr (with_lifecycle st
             (text_delta (block_id ''text-'' (ev_index e)) (present_text (dl_text d)) (as_lifecycle st)))
         else if dl_type d = Some (lit ''thinking_delta'') \<and> present_text (dl_thinking d) \<noteq> [] then
           Inr (with_lifecycle st
             (reasoning_delta (block_id ''reasoning-'' (ev_index e)) (present_text (dl_thinking d)) None (as_lifecycle st)))
         else if dl_type d = Some (lit ''signature_delta'') \<and> present_text (dl_signature d) \<noteq> [] then
           Inr (with_lifecycle st
             (reasoning_end (block_id ''reasoning-'' (ev_index e))
               (Some (an_metadata (JObj [(lit ''signature'', JStr (present_text (dl_signature d)))]))) (as_lifecycle st)))
         else if dl_type d = Some (lit ''input_json_delta'') \<and> ev_index e \<noteq> None then
           (if present_text (dl_partial_json d) = [] then Inr (st, [])
            else
              rbind (append_existing AN_ADAPTER (as_tools st) (the (ev_index e)) (present_text (dl_partial_json d))
                  (lit ''Anthropic Messages tool argument delta is missing its tool call'')) (\<lambda>r.
                let (lc, evs) = (if ao_events r \<noteq> [] then step_start (as_lifecycle st) else (as_lifecycle st, []))
                in Inr (st\<lparr>as_lifecycle := lc, as_tools := ao_tools r\<rparr>, evs @ ao_events r)))
         else Inr (st, []))"

definition on_block_stop :: "(jstring \<Rightarrow> json option) \<Rightarrow> an_state \<Rightarrow> an_event \<Rightarrow> (llm_error, step_result) result" where
  "on_block_stop decode st e =
    (case ev_index e of
       None \<Rightarrow> Inr (st, [])
     | Some index \<Rightarrow>
         rbind (finish_tool decode AN_ADAPTER (as_tools st) index) (\<lambda>(tools, finished).
           let calls = (case finished of Some evs \<Rightarrow> evs | None \<Rightarrow> []);
               (lc, evs) =
                 (if calls \<noteq> [] then step_start (as_lifecycle st)
                  else let (l1, e1) = text_end (block_id ''text-'' (Some index)) None (as_lifecycle st);
                           (l2, e2) = reasoning_end (block_id ''reasoning-'' (Some index)) None l1
                       in (l2, e1 @ e2))
           in Inr (st\<lparr>as_lifecycle := lc, as_tools := tools\<rparr>, evs @ calls)))"

definition on_message_delta :: "an_state \<Rightarrow> an_event \<Rightarrow> step_result" where
  "on_message_delta st e =
    (let u = merge_usage (as_usage st) (an_map_usage (ev_usage e));
         stop = present_text (Option.bind (ev_delta e) dl_stop_sequence);
         md = (if stop \<noteq> [] then Some (an_metadata (JObj [(lit ''stopSequence'', JStr stop)])) else None)
     in with_lifecycle (st\<lparr>as_usage := u\<rparr>)
          (finish (an_finish_reason (Option.bind (ev_delta e) dl_stop_reason)) u md (as_lifecycle st)))"

definition provider_error_message :: "an_event \<Rightarrow> jstring" where
  "provider_error_message e =
    (let t = present_text (ev_error_type e); msg = present_text (ev_error_message e) in
     if t \<noteq> [] \<and> msg \<noteq> [] then t @ lit '': '' @ msg
     else if msg \<noteq> [] then msg
     else if t \<noteq> [] then t
     else lit ''Anthropic Messages stream error'')"

definition on_error :: "(jstring \<Rightarrow> bool) \<Rightarrow> an_state \<Rightarrow> an_event \<Rightarrow> step_result" where
  "on_error overflow st e =
    (st, [ProviderError (provider_error_message e)
      (if overflow (present_text (ev_error_message e)) then Some (lit ''context-overflow'') else None) None None])"

definition an_step :: "(jstring \<Rightarrow> json option) \<Rightarrow> (jstring \<Rightarrow> bool) \<Rightarrow> an_state \<Rightarrow> an_event \<Rightarrow> (llm_error, step_result) result" where
  "an_step decode overflow st e =
    (if ev_type e = lit ''message_start'' then Inr (on_message_start st e)
     else if ev_type e = lit ''content_block_start'' then Inr (on_block_start st e)
     else if ev_type e = lit ''content_block_delta'' then on_block_delta st e
     else if ev_type e = lit ''content_block_stop'' then on_block_stop decode st e
     else if ev_type e = lit ''message_delta'' then Inr (on_message_delta st e)
     else if ev_type e = lit ''error'' then Inr (on_error overflow st e)
     else Inr (st, []))"

definition an_initial :: an_state where
  "an_initial = \<lparr>as_tools = [], as_usage = None, as_lifecycle = initial\<rparr>"

end
