(* ===== verification/AnthropicProps.thy ===== *)
theory AnthropicProps imports Anthropic begin

text \<open>
  What a whole Anthropic Messages stream amounts to: a well-bracketed trace, the text and reasoning of
  its blocks, and usage totals that stay consistent with their breakdown.
\<close>

section \<open>The parser keeps the contract\<close>

definition an_ok :: "an_state \<Rightarrow> bool" where
  "an_ok st \<longleftrightarrow> wf_lifecycle (as_lifecycle st)"

definition an_trace :: "an_state \<Rightarrow> trace_state" where
  "an_trace st = trace_of (as_lifecycle st)"

definition keeps :: "an_state \<Rightarrow> step_result \<Rightarrow> bool" where
  "keeps st r \<longleftrightarrow> an_ok (fst r) \<and> run (an_trace st) (snd r) = Some (an_trace (fst r))"

lemma keeps_same: "an_ok st \<Longrightarrow> as_lifecycle st' = as_lifecycle st \<Longrightarrow> keeps st (st', [])"
  by (simp add: keeps_def an_ok_def an_trace_def)

lemma keeps_op:
  "lifecycle_op f \<Longrightarrow> an_ok st \<Longrightarrow> as_lifecycle st0 = as_lifecycle st \<Longrightarrow> keeps st (with_lifecycle st0 (f (as_lifecycle st)))"
  using lifecycle_op.keeps_wf lifecycle_op.traces
  by (fastforce simp: keeps_def with_lifecycle_def an_ok_def an_trace_def)

lemma keeps_step_start_then:
  assumes "an_ok st" "\<And>t. in_step t \<Longrightarrow> run t evs = Some t" "as_lifecycle st' = fst (step_start (as_lifecycle st))"
  shows "keeps st (st', snd (step_start (as_lifecycle st)) @ evs)"
proof -
  have wf: "wf_lifecycle (as_lifecycle st)" using assms(1) by (simp add: an_ok_def)
  have "in_step (trace_of (fst (step_start (as_lifecycle st))))" by (simp add: step_start_def trace_of_def)
  from run_appendI [OF step_start.traces [OF wf] assms(2) [OF this]] step_start.keeps_wf [OF wf] assms(3)
  show ?thesis by (simp add: keeps_def an_ok_def an_trace_def)
qed

lemma message_start_keeps: "an_ok st \<Longrightarrow> keeps st (on_message_start st e)"
  by (auto simp: on_message_start_def intro: keeps_same split: option.split)

lemma server_tool_result_run: "server_tool_result b = Some r \<Longrightarrow> in_step t \<Longrightarrow> run t [r] = Some t"
  by (auto simp: server_tool_result_def Let_def guard_def split: option.splits)

lemma block_start_keeps:
  assumes "an_ok st"
  shows "keeps st (on_block_start st e)"
proof (cases "ev_block e")
  case None
  with assms show ?thesis by (simp add: on_block_start_def keeps_same)
next
  case (Some b)
  consider (tool) "(bl_type b = lit ''tool_use'' \<or> bl_type b = lit ''server_tool_use'') \<and> ev_index e \<noteq> None"
    | (textual) "\<not> ((bl_type b = lit ''tool_use'' \<or> bl_type b = lit ''server_tool_use'') \<and> ev_index e \<noteq> None)"
        "bl_type b = lit ''text'' \<and> present_text (bl_text b) \<noteq> []"
    | (think) "\<not> ((bl_type b = lit ''tool_use'' \<or> bl_type b = lit ''server_tool_use'') \<and> ev_index e \<noteq> None)"
        "\<not> (bl_type b = lit ''text'' \<and> present_text (bl_text b) \<noteq> [])"
        "bl_type b = lit ''thinking'' \<and> present_text (bl_thinking b) \<noteq> []"
    | (server) "\<not> ((bl_type b = lit ''tool_use'' \<or> bl_type b = lit ''server_tool_use'') \<and> ev_index e \<noteq> None)"
        "\<not> (bl_type b = lit ''text'' \<and> present_text (bl_text b) \<noteq> [])"
        "\<not> (bl_type b = lit ''thinking'' \<and> present_text (bl_thinking b) \<noteq> [])"
    by blast
  then show ?thesis
  proof cases
    case tool
    then show ?thesis
      unfolding on_block_start_def Some option.case Let_def case_prod_beta if_P [OF tool]
      by (intro keeps_step_start_then [OF assms]) (simp_all add: guard_def)
  next
    case textual
    show ?thesis
      unfolding on_block_start_def Some option.case if_not_P [OF textual(1)] if_P [OF textual(2)]
      by (rule keeps_op [OF text_delta.lifecycle_op_axioms assms refl])
  next
    case think
    show ?thesis
      unfolding on_block_start_def Some option.case if_not_P [OF think(1)] if_not_P [OF think(2)] if_P [OF think(3)]
      by (rule keeps_op [OF reasoning_delta.lifecycle_op_axioms assms refl])
  next
    case server
    show ?thesis
    proof (cases "server_tool_result b")
      case None
      then show ?thesis
        unfolding on_block_start_def Some option.case if_not_P [OF server(1)] if_not_P [OF server(2)] if_not_P [OF server(3)]
        using assms by (simp add: keeps_same)
    next
      case r: (Some r)
      show ?thesis
        unfolding on_block_start_def Some option.case if_not_P [OF server(1)] if_not_P [OF server(2)] if_not_P [OF server(3)]
          r with_lifecycle_def prod.case
        by (rule keeps_step_start_then [OF assms server_tool_result_run [OF r]]) simp_all
    qed
  qed
qed

lemma block_delta_keeps:
  assumes "an_ok st" "on_block_delta st e = Inr r"
  shows "keeps st r"
proof (cases "ev_delta e")
  case None
  with assms show ?thesis by (auto simp: on_block_delta_def keeps_same)
next
  case (Some d)
  note ops = keeps_op [OF text_delta.lifecycle_op_axioms assms(1) refl]
    keeps_op [OF reasoning_delta.lifecycle_op_axioms assms(1) refl]
    keeps_op [OF reasoning_end.lifecycle_op_axioms assms(1) refl]
  let ?P = "\<lambda>n f. dl_type d = Some (lit n) \<and> present_text (f d) \<noteq> []"
  let ?json = "dl_type d = Some (lit ''input_json_delta'') \<and> ev_index e \<noteq> None"
  consider (t) "?P ''text_delta'' dl_text"
    | (k) "\<not> ?P ''text_delta'' dl_text" "?P ''thinking_delta'' dl_thinking"
    | (g) "\<not> ?P ''text_delta'' dl_text" "\<not> ?P ''thinking_delta'' dl_thinking" "?P ''signature_delta'' dl_signature"
    | (j) "\<not> ?P ''text_delta'' dl_text" "\<not> ?P ''thinking_delta'' dl_thinking" "\<not> ?P ''signature_delta'' dl_signature" ?json
    | (n) "\<not> ?P ''text_delta'' dl_text" "\<not> ?P ''thinking_delta'' dl_thinking" "\<not> ?P ''signature_delta'' dl_signature" "\<not> ?json"
    by blast
  then show ?thesis
  proof cases
    case t
    then show ?thesis using assms(2) ops(1) unfolding on_block_delta_def Some option.case if_P [OF t] by auto
  next
    case k
    then show ?thesis
      using assms(2) ops(2) unfolding on_block_delta_def Some option.case if_not_P [OF k(1)] if_P [OF k(2)] by auto
  next
    case g
    then show ?thesis
      using assms(2) ops(3)
      unfolding on_block_delta_def Some option.case if_not_P [OF g(1)] if_not_P [OF g(2)] if_P [OF g(3)] by auto
  next
    case j
    note r = assms(2) [unfolded on_block_delta_def Some option.case if_not_P [OF j(1)] if_not_P [OF j(2)] if_not_P [OF j(3)] if_P [OF j(4)]]
    show ?thesis
    proof (cases "present_text (dl_partial_json d) = []")
      case True
      with r assms(1) show ?thesis by (auto simp: keeps_same)
    next
      case False
      with r obtain out where a: "append_existing AN_ADAPTER (as_tools st) (the (ev_index e)) (present_text (dl_partial_json d))
          (lit ''Anthropic Messages tool argument delta is missing its tool call'') = Inr out"
        by (auto simp: rbind_Inr_iff)
      show ?thesis
      proof (cases "ao_events out = []")
        case True
        with r False a assms(1) show ?thesis by (auto simp: keeps_same)
      next
        case ne: False
        with r False a have "r = (st\<lparr>as_lifecycle := fst (step_start (as_lifecycle st)), as_tools := ao_tools out\<rparr>,
            snd (step_start (as_lifecycle st)) @ ao_events out)" by (auto simp: case_prod_beta)
        with keeps_step_start_then [OF assms(1) run_tool_events [OF append_existing_events [OF a]]] show ?thesis by simp
      qed
    qed
  next
    case n
    then show ?thesis
      using assms unfolding on_block_delta_def Some option.case if_not_P [OF n(1)] if_not_P [OF n(2)] if_not_P [OF n(3)] if_not_P [OF n(4)]
      by (auto simp: keeps_same)
  qed
qed

lemma block_stop_shape:
  assumes "on_block_stop decode st e = Inr r"
  shows "r = (st, []) \<or>
    (\<exists>tools calls. list_all is_tool_event calls \<and>
      r = (st\<lparr>as_lifecycle := fst (step_start (as_lifecycle st)), as_tools := tools\<rparr>, snd (step_start (as_lifecycle st)) @ calls)) \<or>
    (\<exists>tools i j. let l1 = text_end i None (as_lifecycle st); l2 = reasoning_end j None (fst l1) in
      r = (st\<lparr>as_lifecycle := fst l2, as_tools := tools\<rparr>, snd l1 @ snd l2))"
proof (cases "ev_index e")
  case None
  with assms show ?thesis by (simp add: on_block_stop_def)
next
  case (Some index)
  from assms Some obtain tools finished where
    f: "finish_call decode AN_ADAPTER (as_tools st) index None = Inr (tools, finished)"
    by (auto simp: on_block_stop_def finish_tool_def rbind_Inr_iff)
  show ?thesis
  proof (cases "(case finished of Some evs \<Rightarrow> evs | None \<Rightarrow> []) = []")
    case True
    with assms Some f show ?thesis
      by (auto simp: on_block_stop_def finish_tool_def rbind_Inr_iff Let_def case_prod_beta)
  next
    case False
    then obtain evs where evs: "finished = Some evs" "evs \<noteq> []" by (cases finished) auto
    with assms Some f finish_call_events [OF f [unfolded evs(1)]] show ?thesis
      by (auto simp: on_block_stop_def finish_tool_def rbind_Inr_iff Let_def case_prod_beta)
  qed
qed

lemma block_stop_keeps:
  assumes ok: "an_ok st" and stop: "on_block_stop decode st e = Inr r"
  shows "keeps st r"
proof -
  have wf: "wf_lifecycle (as_lifecycle st)" using ok by (simp add: an_ok_def)
  have calls: "keeps st (st\<lparr>as_lifecycle := fst (step_start (as_lifecycle st)), as_tools := tools\<rparr>, snd (step_start (as_lifecycle st)) @ calls)"
    if "list_all is_tool_event calls" for tools calls
    by (intro keeps_step_start_then [OF ok] run_tool_events [OF that]) simp_all
  have ends: "keeps st (st\<lparr>as_lifecycle := fst (reasoning_end j None (fst (text_end i None (as_lifecycle st)))), as_tools := tools\<rparr>,
      snd (text_end i None (as_lifecycle st)) @ snd (reasoning_end j None (fst (text_end i None (as_lifecycle st)))))" for tools i j
    using reasoning_end.keeps_wf [OF text_end.keeps_wf [OF wf]]
      run_appendI [OF text_end.traces [OF wf] reasoning_end.traces [OF text_end.keeps_wf [OF wf]]]
    by (simp add: keeps_def an_ok_def an_trace_def)
  from block_stop_shape [OF stop] show ?thesis
    unfolding Let_def using calls ends keeps_same [OF ok refl] by blast
qed

lemma message_delta_keeps: "an_ok st \<Longrightarrow> keeps st (on_message_delta st e)"
  unfolding on_message_delta_def Let_def by (rule keeps_op [OF finish.lifecycle_op_axioms]) simp_all

lemma error_keeps: "an_ok st \<Longrightarrow> keeps st (on_error overflow st e)"
  by (simp add: on_error_def keeps_def an_trace_def trace_of_def guard_def)

lemma an_step_keeps: "an_ok st \<Longrightarrow> an_step decode overflow st e = Inr r \<Longrightarrow> keeps st r"
  using message_start_keeps [of st e] block_start_keeps [of st e] block_delta_keeps [of st e r]
    block_stop_keeps [of st decode e r] message_delta_keeps [of st e] error_keeps [of st overflow e]
    keeps_same [of st st]
  by (auto simp: an_step_def split: if_splits)

interpretation anthropic: stream_parser "an_step decode overflow" "\<lambda>st. []" an_ok an_trace for decode overflow
  by unfold_locales (use an_step_keeps in \<open>force simp: keeps_def\<close>)+

text \<open>Whatever the provider sends, what an Anthropic Messages stream emits is a well-bracketed trace,
  also when the stream fails half way.\<close>

theorem an_stream_well_bracketed:
  "run idle_trace (fst (drive (an_step decode overflow) (\<lambda>st. []) an_initial es)) \<noteq> None"
proof -
  have ok: "an_ok an_initial" by (simp add: an_ok_def an_initial_def trace_of_initial)
  have "an_trace an_initial = idle_trace" by (simp add: an_trace_def an_initial_def trace_of_initial)
  with anthropic.drive_trace [OF ok] show ?thesis by metis
qed

section \<open>Text\<close>

definition an_text :: "an_event \<Rightarrow> jstring" where
  \<comment> \<open>specification: the text an event carries\<close>
  "an_text e =
    (if ev_type e = lit ''content_block_start'' then
       (case ev_block e of Some b \<Rightarrow> if bl_type b = lit ''text'' then present_text (bl_text b) else [] | None \<Rightarrow> [])
     else if ev_type e = lit ''content_block_delta'' then
       (case ev_delta e of Some d \<Rightarrow> if dl_type d = Some (lit ''text_delta'') then present_text (dl_text d) else [] | None \<Rightarrow> [])
     else [])"

lemma type_names:
  "lit ''tool_use'' \<noteq> lit ''text''" "lit ''server_tool_use'' \<noteq> lit ''text''" "lit ''thinking'' \<noteq> lit ''text''"
  "lit ''content_block_delta'' \<noteq> lit ''content_block_start''" "lit ''message_start'' \<noteq> lit ''content_block_start''"
  "lit ''message_start'' \<noteq> lit ''content_block_delta''" "lit ''thinking_delta'' \<noteq> lit ''text_delta''"
  "lit ''signature_delta'' \<noteq> lit ''text_delta''" "lit ''input_json_delta'' \<noteq> lit ''text_delta''"
  by (simp_all add: lit_def)

lemma server_tool_result_text: "server_tool_result b = Some r \<Longrightarrow> response_text [r] = [] \<and> bl_type b \<noteq> lit ''text''"
  by (auto simp: server_tool_result_def server_tool_name_def Let_def lit_def split: option.splits if_splits)

lemma block_start_text:
  "response_text (snd (on_block_start st e)) =
    (case ev_block e of Some b \<Rightarrow> if bl_type b = lit ''text'' then present_text (bl_text b) else [] | None \<Rightarrow> [])"
proof (cases "ev_block e")
  case (Some b)
  show ?thesis
  proof (cases "server_tool_result b")
    case None
    then show ?thesis
      by (auto simp: on_block_start_def Some Let_def case_prod_beta with_lifecycle_def type_names [THEN not_sym] type_names)
  next
    case r: (Some r)
    from server_tool_result_text [OF r] show ?thesis
      by (auto simp: on_block_start_def Some r Let_def case_prod_beta with_lifecycle_def)
  qed
qed (simp add: on_block_start_def)

lemma block_delta_text:
  assumes "on_block_delta st e = Inr r"
  shows "response_text (snd r) =
    (case ev_delta e of Some d \<Rightarrow> if dl_type d = Some (lit ''text_delta'') then present_text (dl_text d) else [] | None \<Rightarrow> [])"
proof (cases "ev_delta e")
  case None
  with assms show ?thesis by (auto simp: on_block_delta_def)
next
  case (Some d)
  have tools: "response_text (ao_events o') = []" if "append_existing AN_ADAPTER (as_tools st) k t msg = Inr o'" for k t msg o'
    using tool_events_silent [OF append_existing_events [OF that]] by simp
  show ?thesis
    using assms tools
    by (auto simp: on_block_delta_def Some rbind_Inr_iff Let_def case_prod_beta with_lifecycle_def type_names type_names [THEN not_sym]
        split: if_splits)
qed

lemma block_stop_text:
  assumes "on_block_stop decode st e = Inr r"
  shows "response_text (snd r) = []"
  using block_stop_shape [OF assms] tool_events_silent by (auto simp: Let_def)

lemma an_step_text: "an_step decode overflow st e = Inr (st', evs) \<Longrightarrow> response_text evs = an_text e"
  using block_start_text [of st e] block_delta_text [of st e "(st', evs)"] block_stop_text [of decode st e "(st', evs)"]
  by (auto simp: an_step_def an_text_def type_names type_names [THEN not_sym] on_message_start_def on_message_delta_def on_error_def
      with_lifecycle_def Let_def split: if_splits option.splits)

text \<open>The text of a stream that does not fail is the concatenation of the texts its block starts and text
  deltas carry, in order, over all blocks.\<close>

theorem an_stream_text:
  assumes "drive (an_step decode overflow) (\<lambda>st. []) an_initial es = (evs, None)"
  shows "response_text evs = concat (map an_text es)"
  by (rule drive_measure [OF _ an_step_text _ assms]) simp_all

lemma an_stream_text_witness:
  "\<exists>evs. drive (an_step (\<lambda>s. None) (\<lambda>s. False)) (\<lambda>st. []) an_initial
     [\<lparr>ev_type = lit ''content_block_delta'', ev_index = Some 0, ev_message_usage = None, ev_block = None,
        ev_delta = Some \<lparr>dl_type = Some (lit ''text_delta''), dl_text = Some (lit ''hi''), dl_thinking = None,
          dl_partial_json = None, dl_signature = None, dl_stop_reason = None, dl_stop_sequence = None\<rparr>,
        ev_usage = None, ev_error_type = None, ev_error_message = None\<rparr>] = (evs, None) \<and> response_text evs = lit ''hi''"
proof -
  let ?es = "[\<lparr>ev_type = lit ''content_block_delta'', ev_index = Some 0, ev_message_usage = None, ev_block = None,
        ev_delta = Some \<lparr>dl_type = Some (lit ''text_delta''), dl_text = Some (lit ''hi''), dl_thinking = None,
          dl_partial_json = None, dl_signature = None, dl_stop_reason = None, dl_stop_sequence = None\<rparr>,
        ev_usage = None, ev_error_type = None, ev_error_message = None\<rparr>]"
  have d: "drive (an_step (\<lambda>s. None) (\<lambda>s. False)) (\<lambda>st. []) an_initial ?es =
      ([StepStart 0, TextStart (lit ''text-0'') None, TextDelta (lit ''text-0'') (lit ''hi'') None], None)" by code_simp
  have t: "concat (map an_text ?es) = lit ''hi''" by code_simp
  from an_stream_text [OF d] d t show ?thesis by metis
qed

section \<open>Usage\<close>

definition consistent :: "usage \<Rightarrow> bool" where
  "consistent u \<longleftrightarrow>
    input_tokens u = sum_tokens [non_cached_input_tokens u, cache_read_input_tokens u, cache_write_input_tokens u] \<and>
    total_tokens u = total_of (input_tokens u) (output_tokens u) None"

lemma merge_consistent:
  "pred_option consistent l \<Longrightarrow> pred_option consistent r \<Longrightarrow> pred_option consistent (merge_usage l r)"
  by (cases l; cases r) (simp_all add: merge_usage_def consistent_def Let_def)

lemma map_usage_consistent: "pred_option consistent (an_map_usage u)"
  by (cases u) (simp_all add: an_map_usage_def consistent_def Let_def)

definition from_ops :: "lifecycle \<Rightarrow> llm_event list \<Rightarrow> bool" where
  \<comment> \<open>what a block delta emits\<close>
  "from_ops l evs \<longleftrightarrow> (\<exists>i t. evs = snd (text_delta i t l)) \<or> (\<exists>i t. evs = snd (reasoning_delta i t None l)) \<or>
     (\<exists>i md. evs = snd (reasoning_end i md l)) \<or>
     (\<exists>xs. list_all is_tool_event xs \<and> (evs = xs \<or> evs = snd (step_start l) @ xs))"

lemma from_ops_intros:
  "from_ops l (snd (text_delta i t l))" "from_ops l (snd (reasoning_delta i t None l))" "from_ops l (snd (reasoning_end i md l))"
  "from_ops l []" "list_all is_tool_event xs \<Longrightarrow> from_ops l xs" "list_all is_tool_event xs \<Longrightarrow> from_ops l (snd (step_start l) @ xs)"
  unfolding from_ops_def by (blast, blast, blast, force, blast, blast)

lemma block_delta_shape:
  assumes "on_block_delta st e = Inr (st', evs)"
  shows "as_usage st' = as_usage st \<and> from_ops (as_lifecycle st) evs"
proof (cases "ev_delta e")
  case None
  with assms show ?thesis by (auto simp: on_block_delta_def from_ops_intros)
next
  case (Some d)
  let ?P = "\<lambda>n f. dl_type d = Some (lit n) \<and> present_text (f d) \<noteq> []"
  let ?json = "dl_type d = Some (lit ''input_json_delta'') \<and> ev_index e \<noteq> None"
  note r = assms [unfolded on_block_delta_def Some option.case with_lifecycle_def]
  show ?thesis
  proof (cases "?P ''text_delta'' dl_text")
    case True
    from r [unfolded if_P [OF True]] show ?thesis by (auto intro: from_ops_intros)
  next
    case no1: False
    note r1 = r [unfolded if_not_P [OF no1]]
    show ?thesis
    proof (cases "?P ''thinking_delta'' dl_thinking")
      case True
      from r1 [unfolded if_P [OF True]] show ?thesis by (auto intro: from_ops_intros)
    next
      case no2: False
      note r2 = r1 [unfolded if_not_P [OF no2]]
      show ?thesis
      proof (cases "?P ''signature_delta'' dl_signature")
        case True
        from r2 [unfolded if_P [OF True]] show ?thesis by (auto intro: from_ops_intros)
      next
        case no3: False
        note r3 = r2 [unfolded if_not_P [OF no3]]
        show ?thesis
        proof (cases "?json \<and> present_text (dl_partial_json d) \<noteq> []")
          case True
          with r3 obtain out where
            a: "append_existing AN_ADAPTER (as_tools st) (the (ev_index e)) (present_text (dl_partial_json d))
              (lit ''Anthropic Messages tool argument delta is missing its tool call'') = Inr out"
            and q: "evs = snd (if ao_events out \<noteq> [] then step_start (as_lifecycle st) else (as_lifecycle st, [])) @ ao_events out"
            and u: "as_usage st' = as_usage st"
            by (auto simp: rbind_Inr_iff Let_def case_prod_beta)
          from append_existing_events [OF a] q u show ?thesis
            by (cases "ao_events out = []") (auto intro: from_ops_intros)
        next
          case False
          with r3 show ?thesis by (auto intro: from_ops_intros split: if_splits)
        qed
      qed
    qed
  qed
qed

lemma an_step_cases:
  "an_step decode overflow st e = Inr r \<Longrightarrow>
   r = on_message_start st e \<or> r = on_block_start st e \<or> on_block_delta st e = Inr r \<or>
   on_block_stop decode st e = Inr r \<or> r = on_message_delta st e \<or> r = on_error overflow st e \<or> r = (st, [])"
  unfolding an_step_def by (simp split: if_splits)

lemma keeps_usage:
  "an_step decode overflow st e = Inr (st', evs) \<Longrightarrow> pred_option consistent (as_usage st) \<Longrightarrow>
   pred_option consistent (as_usage st') \<and> list_all (\<lambda>e. pred_option consistent (event_usage e)) evs"
proof -
  assume s: "an_step decode overflow st e = Inr (st', evs)" and c: "pred_option consistent (as_usage st)"
  have silent: "list_all (\<lambda>e. pred_option consistent (event_usage e)) (snd (step_start l))"
    "list_all (\<lambda>e. pred_option consistent (event_usage e)) (snd (text_delta i t l))"
    "list_all (\<lambda>e. pred_option consistent (event_usage e)) (snd (reasoning_delta i t md l))"
    "list_all (\<lambda>e. pred_option consistent (event_usage e)) (snd (reasoning_end i md l))"
    "list_all (\<lambda>e. pred_option consistent (event_usage e)) (snd (text_end i md l))" for i t md l
    by (auto simp: step_start_def text_delta_def reasoning_delta_def reasoning_start_def reasoning_end_def text_end_def
        Let_def case_prod_beta)
  have tool: "list_all (\<lambda>e. pred_option consistent (event_usage e)) xs" if "list_all is_tool_event xs" for xs
    using that by (induction xs) (auto elim!: is_tool_event.elims)
  have res: "pred_option consistent (event_usage r)" if "server_tool_result b = Some r" for b r
    using that by (auto simp: server_tool_result_def Let_def split: option.splits)
  have fin: "list_all (\<lambda>e. pred_option consistent (event_usage e)) (snd (finish rs u md l))" if "pred_option consistent u" for rs u md l
    using that by (auto simp: finish_def close_open_blocks_def step_start_def case_prod_beta Let_def list_all_iff)
  consider (start) "(st', evs) = on_message_start st e"
    | (bstart) "(st', evs) = on_block_start st e" | (bdelta) "on_block_delta st e = Inr (st', evs)"
    | (bstop) "on_block_stop decode st e = Inr (st', evs)" | (delta) "(st', evs) = on_message_delta st e"
    | (err) "(st', evs) = on_error overflow st e" | (other) "st' = st" "evs = []"
    using an_step_cases [OF s] by (metis prod.inject)
  then show ?thesis
  proof cases
    case start
    then show ?thesis
      using c merge_consistent [OF c map_usage_consistent, of "ev_message_usage e"]
      by (cases "an_map_usage (ev_message_usage e)") (auto simp: on_message_start_def)
  next
    case bstart
    then show ?thesis using c silent res
      by (auto simp: on_block_start_def with_lifecycle_def Let_def case_prod_beta split: option.splits if_splits)
  next
    case bdelta
    from block_delta_shape [OF this] show ?thesis using c silent tool by (auto simp: from_ops_def)
  next
    case bstop
    from block_stop_shape [OF this] show ?thesis using c silent tool by (auto simp: Let_def)
  next
    case delta
    then show ?thesis using merge_consistent [OF c map_usage_consistent] fin
      by (simp add: on_message_delta_def with_lifecycle_def Let_def)
  next
    case err
    then show ?thesis using c by (simp add: on_error_def)
  next
    case other
    then show ?thesis using c by simp
  qed
qed

lemma drive_usage:
  "pred_option consistent (as_usage st) \<Longrightarrow>
   list_all (\<lambda>e. pred_option consistent (event_usage e)) (fst (drive (an_step decode overflow) (\<lambda>st. []) st es))"
proof (induction es arbitrary: st)
  case (Cons e es)
  show ?case
  proof (cases "an_step decode overflow st e")
    case (Inr r)
    obtain st' evs where r: "r = (st', evs)" by (cases r)
    from keeps_usage [OF Inr [unfolded r] Cons.prems] Cons.IH [of st'] Inr r show ?thesis
      by (auto simp: case_prod_beta)
  qed simp
qed simp

text \<open>Every usage an Anthropic stream reports is consistent: its input total is the sum of the fresh,
  cache-read and cache-write tokens, and its overall total the sum of input and output, also after
  the partial reports of a message's start and of its deltas have been merged.\<close>

theorem an_usage_consistent:
  "list_all (\<lambda>e. pred_option consistent (event_usage e)) (fst (drive (an_step decode overflow) (\<lambda>st. []) an_initial es))"
  by (rule drive_usage) (simp add: an_initial_def)

end
