(* ===== verification/SessionMessages.thy ===== *)
theory SessionMessages imports LlmEvents begin

text \<open>
  The messages of a session (packages/schema/src/session-message.ts) and the events that make them
  (packages/schema/src/session-event.ts). Times are milliseconds; values the code only carries along
  (models, attachments, locations, revert states, costs) are JSON values.
\<close>

section \<open>Messages\<close>

datatype tool_state =
    Pending jstring
  | Running json json "json list" \<comment> \<open>input, structured, content\<close>
  | Completed json json "json list" "jstring list" "json option" \<comment> \<open>input, structured, content, output paths, result\<close>
  | Errored json json "json list" jstring "json option" \<comment> \<open>input, structured, content, error, result\<close>

record tool_provider =
  tp_executed :: bool
  tp_metadata :: "metadata option"
  tp_result_metadata :: "metadata option"

record tool_item =
  ti_id :: jstring
  ti_name :: jstring
  ti_provider :: "tool_provider option"
  ti_state :: tool_state
  ti_created :: int
  ti_ran :: "int option"
  ti_completed :: "int option"

record text_item =
  tx_id :: jstring
  tx_text :: jstring

record reasoning_item =
  rs_id :: jstring
  rs_text :: jstring
  rs_metadata :: "metadata option"
  rs_time :: "(int \<times> int option) option" \<comment> \<open>created, completed\<close>

datatype assistant_content = CText text_item | CReasoning reasoning_item | CTool tool_item

record snapshot_range =
  sn_start :: "jstring option"
  sn_end :: "jstring option"
  sn_files :: "jstring list option"

record token_counts =
  tk_input :: int
  tk_output :: int
  tk_reasoning :: int
  tk_read :: int
  tk_write :: int

record assistant_message =
  am_id :: jstring
  am_agent :: jstring
  am_model :: json
  am_content :: "assistant_content list"
  am_snapshot :: "snapshot_range option"
  am_finish :: "jstring option"
  am_cost :: "json option"
  am_tokens :: "token_counts option"
  am_error :: "jstring option"
  am_created :: int
  am_completed :: "int option"

record shell_message =
  sh_id :: jstring
  sh_metadata :: "metadata option"
  sh_call :: jstring
  sh_command :: jstring
  sh_output :: jstring
  sh_created :: int
  sh_completed :: "int option"

record prompt =
  pr_text :: jstring
  pr_files :: "json option"
  pr_agents :: "json option"

datatype compaction_reason = Auto | Manual

datatype session_message =
    AgentSwitchedMessage jstring "metadata option" int jstring
  | ModelSwitchedMessage jstring "metadata option" int json
  | UserMessage jstring "metadata option" int prompt
  | SyntheticMessage jstring int jstring jstring \<comment> \<open>id, created, session, text\<close>
  | SystemMessage jstring int jstring
  | ShellMessage shell_message
  | AssistantMessage assistant_message
  | CompactionMessage jstring "metadata option" int compaction_reason jstring jstring \<comment> \<open>reason, summary, recent\<close>

fun message_id :: "session_message \<Rightarrow> jstring" where
  "message_id (AgentSwitchedMessage i m t a) = i"
| "message_id (ModelSwitchedMessage i m t x) = i"
| "message_id (UserMessage i m t p) = i"
| "message_id (SyntheticMessage i t s x) = i"
| "message_id (SystemMessage i t x) = i"
| "message_id (ShellMessage s) = sh_id s"
| "message_id (AssistantMessage a) = am_id a"
| "message_id (CompactionMessage i m t r s x) = i"

fun is_assistant :: "session_message \<Rightarrow> bool" where
  "is_assistant (AssistantMessage a) = True"
| "is_assistant _ = False"

fun is_shell :: "jstring \<Rightarrow> session_message \<Rightarrow> bool" where
  "is_shell call (ShellMessage s) = (sh_call s = call)"
| "is_shell call _ = False"

fun shell_type :: "session_message \<Rightarrow> bool" where
  "shell_type (ShellMessage s) = True"
| "shell_type _ = False"

section \<open>Events\<close>

datatype delivery = Steer | Queue

datatype session_body =
    AgentSwitchedE jstring jstring
  | ModelSwitchedE jstring json
  | MovedE jstring "jstring option" "jstring option" \<comment> \<open>directory, workspace, subdirectory\<close>
  | PromptedE jstring prompt delivery
  | PromptAdmittedE jstring prompt delivery
  | ContextUpdatedE jstring jstring
  | SyntheticE jstring jstring
  | ShellStartedE jstring jstring jstring \<comment> \<open>message, call, command\<close>
  | ShellEndedE jstring jstring
  | StepStartedE jstring jstring json "jstring option" \<comment> \<open>message, agent, model, snapshot\<close>
  | StepEndedE jstring jstring json token_counts "jstring option" "jstring list option"
  | StepFailedE jstring jstring
  | TextStartedE jstring jstring
  | TextDeltaE jstring jstring jstring
  | TextEndedE jstring jstring jstring
  | ReasoningStartedE jstring jstring "metadata option"
  | ReasoningDeltaE jstring jstring jstring
  | ReasoningEndedE jstring jstring jstring "metadata option"
  | ToolInputStartedE jstring jstring jstring \<comment> \<open>message, call, name\<close>
  | ToolInputDeltaE jstring jstring jstring
  | ToolInputEndedE jstring jstring jstring
  | ToolCalledE jstring jstring jstring json bool "metadata option" \<comment> \<open>message, call, tool, input, executed, metadata\<close>
  | ToolProgressE jstring jstring json "json list"
  | ToolSuccessE jstring jstring json "json list" "jstring list option" "json option" bool "metadata option"
  | ToolFailedE jstring jstring jstring "json option" bool "metadata option"
  | RetriedE int json
  | CompactionStartedE jstring compaction_reason
  | CompactionDeltaE jstring jstring
  | CompactionEndedE jstring compaction_reason jstring jstring
  | RevertStagedE json
  | RevertClearedE
  | RevertCommittedE jstring

record session_event =
  se_metadata :: "metadata option"
  se_session :: jstring
  se_time :: int
  se_body :: session_body

text \<open>The type names and versions of the definitions, and which of them are durable.\<close>

fun body_type :: "session_body \<Rightarrow> string" where
  "body_type (AgentSwitchedE i a) = ''agent.switched''"
| "body_type (ModelSwitchedE i m) = ''model.switched''"
| "body_type (MovedE d w s) = ''moved''"
| "body_type (PromptedE i p d) = ''prompted''"
| "body_type (PromptAdmittedE i p d) = ''prompt.admitted''"
| "body_type (ContextUpdatedE i s) = ''context.updated''"
| "body_type (SyntheticE i s) = ''synthetic''"
| "body_type (ShellStartedE i c s) = ''shell.started''"
| "body_type (ShellEndedE c s) = ''shell.ended''"
| "body_type (StepStartedE m a mo s) = ''step.started''"
| "body_type (StepEndedE m f c t s fs) = ''step.ended''"
| "body_type (StepFailedE m e) = ''step.failed''"
| "body_type (TextStartedE m i) = ''text.started''"
| "body_type (TextDeltaE m i d) = ''text.delta''"
| "body_type (TextEndedE m i s) = ''text.ended''"
| "body_type (ReasoningStartedE m i md) = ''reasoning.started''"
| "body_type (ReasoningDeltaE m i d) = ''reasoning.delta''"
| "body_type (ReasoningEndedE m i s md) = ''reasoning.ended''"
| "body_type (ToolInputStartedE m c n) = ''tool.input.started''"
| "body_type (ToolInputDeltaE m c d) = ''tool.input.delta''"
| "body_type (ToolInputEndedE m c s) = ''tool.input.ended''"
| "body_type (ToolCalledE m c t i x md) = ''tool.called''"
| "body_type (ToolProgressE m c s co) = ''tool.progress''"
| "body_type (ToolSuccessE m c s co p r x md) = ''tool.success''"
| "body_type (ToolFailedE m c e r x md) = ''tool.failed''"
| "body_type (RetriedE n e) = ''retried''"
| "body_type (CompactionStartedE m r) = ''compaction.started''"
| "body_type (CompactionDeltaE m d) = ''compaction.delta''"
| "body_type (CompactionEndedE m r s x) = ''compaction.ended''"
| "body_type (RevertStagedE r) = ''revert.staged''"
| "body_type RevertClearedE = ''revert.cleared''"
| "body_type (RevertCommittedE m) = ''revert.committed''"

fun body_version :: "session_body \<Rightarrow> nat" where
  \<comment> \<open>\<open>options\<close> and \<open>stepSettlementOptions\<close>\<close>
  "body_version (StepEndedE m f c t s fs) = 2"
| "body_version (StepFailedE m e) = 2"
| "body_version b = 1"

fun durable_body :: "session_body \<Rightarrow> bool" where
  \<comment> \<open>stream fragments are live only\<close>
  "durable_body (TextDeltaE m i d) = False"
| "durable_body (ReasoningDeltaE m i d) = False"
| "durable_body (ToolInputDeltaE m i d) = False"
| "durable_body (CompactionDeltaE m d) = False"
| "durable_body b = True"

end
