(* ===== verification/TurnPublisher.thy ===== *)
theory TurnPublisher imports SessionMessages JsJson begin

text \<open>
  The publication of a provider turn (packages/core/src/session/runner/publish-llm-event.ts): the
  events of a language-model stream become events of the session, under one assistant message. The
  closure's variables and maps are the record \<open>turn\<close>; an effect that may die is a function from a
  turn to a result and the turn it leaves. Published events are appended to \<open>tn_events\<close>; publishing
  itself succeeds. The k-th event is published at \<open>clock k\<close>.
\<close>

section \<open>State and effects\<close>

record turn_input =
  tu_session :: jstring
  tu_agent :: jstring
  tu_model :: json
  tu_snapshot :: "jstring option"
  tu_message :: jstring \<comment> \<open>the id \<open>SessionMessage.ID.create\<close> gives\<close>
  tu_clock :: "nat \<Rightarrow> int"

record turn_tool =
  ut_message :: jstring
  ut_name :: jstring
  ut_ended :: bool
  ut_called :: bool
  ut_settled :: bool
  ut_executed :: bool
  ut_metadata :: "metadata option"

record turn =
  tn_tools :: "(jstring, turn_tool) jsmap"
  tn_text :: "(jstring, jstring list) jsmap"
  tn_reasoning :: "(jstring, jstring list) jsmap"
  tn_input :: "(jstring, jstring list) jsmap"
  tn_message :: "jstring option"
  tn_active :: bool
  tn_failed :: bool
  tn_provider_failed :: bool
  tn_settlement :: "(finish_reason \<times> token_counts) option"
  tn_events :: "session_event list"

datatype turn_defect = No_Assistant | Duplicate_Start jstring | Delta_Before_Start jstring | End_Before_Start jstring
  | Name_Changed jstring | Delta_After_End jstring | Duplicate_End jstring | Duplicate_Call jstring
  | Before_Call jstring | Duplicate_Result jstring | Duplicate_Error jstring | Duplicate_Finish | Unknown_Call jstring

type_synonym 'a effect = "turn \<Rightarrow> (turn_defect, 'a) result \<times> turn"

definition ret :: "'a \<Rightarrow> 'a effect" where
  "ret x s = (Inr x, s)"

definition die :: "turn_defect \<Rightarrow> 'a effect" where
  "die d s = (Inl d, s)"

definition bind :: "'a effect \<Rightarrow> ('a \<Rightarrow> 'b effect) \<Rightarrow> 'b effect" where
  "bind m k s = (case m s of (Inl d, s1) \<Rightarrow> (Inl d, s1) | (Inr x, s1) \<Rightarrow> k x s1)"

definition seq :: "'a effect \<Rightarrow> 'b effect \<Rightarrow> 'b effect" where
  "seq m k = bind m (\<lambda>_. k)"

definition change :: "(turn \<Rightarrow> turn) \<Rightarrow> unit effect" where
  "change f s = (Inr (), f s)"

definition new_turn :: turn where
  "new_turn = \<lparr>tn_tools = [], tn_text = [], tn_reasoning = [], tn_input = [], tn_message = None, tn_active = False,
     tn_failed = False, tn_provider_failed = False, tn_settlement = None, tn_events = []\<rparr>"

definition emit :: "turn_input \<Rightarrow> session_body \<Rightarrow> unit effect" where
  \<comment> \<open>\<open>events.publish\<close> with the session and the time\<close>
  "emit inp b = change (\<lambda>s. s\<lparr>tn_events := tn_events s @
     [\<lparr>se_metadata = None, se_session = tu_session inp, se_time = tu_clock inp (length (tn_events s)), se_body = b\<rparr>]\<rparr>)"

section \<open>Values\<close>

definition safe :: "int option \<Rightarrow> int" where
  "safe v = max 0 (case v of Some n \<Rightarrow> n | None \<Rightarrow> 0)"

definition tokens :: "usage option \<Rightarrow> token_counts" where
  "tokens u = \<lparr>tk_input = safe (Option.bind u non_cached_input_tokens), tk_output = safe (map_option visible_output_tokens u),
     tk_reasoning = safe (Option.bind u reasoning_tokens), tk_read = safe (Option.bind u cache_read_input_tokens),
     tk_write = safe (Option.bind u cache_write_input_tokens)\<rparr>"

definition record_of :: "json \<Rightarrow> json" where
  "record_of v = (case v of JObj fs \<Rightarrow> JObj fs | _ \<Rightarrow> JObj [(lit ''value'', v)])"

definition from_result_value :: "tool_result_value \<Rightarrow> tool_output option" where
  "from_result_value r = (case r of
     JsonResult v \<Rightarrow> Some (v, [])
   | TextResult v \<Rightarrow> Some (JObj [], [JObj [(lit ''type'', JStr (lit ''text'')), (lit ''text'', JStr (text_of_value v))]])
   | ContentResult vs \<Rightarrow> Some (JObj [], vs)
   | ErrorResult v \<Rightarrow> None)"

definition settled_output :: "tool_output option \<Rightarrow> tool_result_value \<Rightarrow> (jstring, tool_output) result option" where
  \<comment> \<open>an error message or an output; \<open>None\<close>: the throw on a result that is neither\<close>
  "settled_output v r = (case r of
     ErrorResult e \<Rightarrow> Some (Inl (text_of_value e))
   | _ \<Rightarrow> map_option (\<lambda>(s, c). Inr (record_of s, c)) (or_else v (from_result_value r)))"

definition result_json :: "tool_result_value \<Rightarrow> json" where
  "result_json r = (case r of
     JsonResult v \<Rightarrow> JObj [(lit ''type'', JStr (lit ''json'')), (lit ''value'', v)]
   | TextResult v \<Rightarrow> JObj [(lit ''type'', JStr (lit ''text'')), (lit ''value'', v)]
   | ErrorResult v \<Rightarrow> JObj [(lit ''type'', JStr (lit ''error'')), (lit ''value'', v)]
   | ContentResult vs \<Rightarrow> JObj [(lit ''type'', JStr (lit ''content'')), (lit ''value'', JArr vs)])"

section \<open>Parts\<close>

definition start_assistant :: "turn_input \<Rightarrow> jstring effect" where
  "start_assistant inp s = (case tn_message s of
     Some m \<Rightarrow> ret m s
   | None \<Rightarrow>
       seq (change (\<lambda>s. s\<lparr>tn_message := Some (tu_message inp), tn_active := True\<rparr>))
         (seq (emit inp (StepStartedE (tu_message inp) (tu_agent inp) (tu_model inp) (tu_snapshot inp)))
           (ret (tu_message inp))) s)"

definition current_assistant :: "jstring effect" where
  "current_assistant s = (case tn_message s of Some m \<Rightarrow> ret m s | None \<Rightarrow> die No_Assistant s)"

text \<open>The three instances of \<open>fragments\<close>: how each reads and writes its chunks, and what ends it.\<close>

record fragments =
  fr_get :: "turn \<Rightarrow> (jstring, jstring list) jsmap"
  fr_put :: "(jstring, jstring list) jsmap \<Rightarrow> turn \<Rightarrow> turn"
  fr_ended :: "turn_input \<Rightarrow> jstring \<Rightarrow> jstring \<Rightarrow> metadata option \<Rightarrow> unit effect"

definition fragment_start :: "fragments \<Rightarrow> jstring \<Rightarrow> unit effect" where
  "fragment_start fr i s =
    (if map_of (fr_get fr s) i \<noteq> None then die (Duplicate_Start i) s
     else change (\<lambda>s. fr_put fr (map_set (fr_get fr s) i []) s) s)"

definition fragment_append :: "fragments \<Rightarrow> jstring \<Rightarrow> jstring \<Rightarrow> unit effect" where
  "fragment_append fr i t s =
    (case map_of (fr_get fr s) i of
       None \<Rightarrow> die (Delta_Before_Start i) s
     | Some cur \<Rightarrow> change (\<lambda>s. fr_put fr (map_set (fr_get fr s) i (cur @ [t])) s) s)"

definition fragment_end :: "turn_input \<Rightarrow> fragments \<Rightarrow> jstring \<Rightarrow> metadata option \<Rightarrow> unit effect" where
  "fragment_end inp fr i md s =
    (case map_of (fr_get fr s) i of
       None \<Rightarrow> die (End_Before_Start i) s
     | Some cur \<Rightarrow> seq (fr_ended fr inp i (concat cur) md) (change (\<lambda>s. fr_put fr (map_delete (fr_get fr s) i) s)) s)"

fun each :: "('a \<Rightarrow> unit effect) \<Rightarrow> 'a list \<Rightarrow> unit effect" where
  "each f [] = ret ()"
| "each f (x # xs) = seq (f x) (each f xs)"

definition fragment_flush :: "turn_input \<Rightarrow> fragments \<Rightarrow> unit effect" where
  \<comment> \<open>\<open>end\<close> deletes the key the loop is at, which the iteration over a \<open>Map\<close> allows\<close>
  "fragment_flush inp fr s = each (\<lambda>i. fragment_end inp fr i None) (map_keys (fr_get fr s)) s"

definition text_fragments :: fragments where
  "text_fragments = \<lparr>fr_get = tn_text, fr_put = (\<lambda>m. tn_text_update (\<lambda>_. m)),
     fr_ended = (\<lambda>inp i v md. bind current_assistant (\<lambda>m. emit inp (TextEndedE m i v)))\<rparr>"

definition reasoning_fragments :: fragments where
  "reasoning_fragments = \<lparr>fr_get = tn_reasoning, fr_put = (\<lambda>m. tn_reasoning_update (\<lambda>_. m)),
     fr_ended = (\<lambda>inp i v md. bind current_assistant (\<lambda>m. emit inp (ReasoningEndedE m i v md)))\<rparr>"

definition set_tool :: "jstring \<Rightarrow> turn_tool \<Rightarrow> unit effect" where
  "set_tool i t = change (\<lambda>s. s\<lparr>tn_tools := map_set (tn_tools s) i t\<rparr>)"

definition with_tool :: "jstring \<Rightarrow> turn_defect \<Rightarrow> (turn_tool \<Rightarrow> 'a effect) \<Rightarrow> 'a effect" where
  "with_tool i d k s = (case map_of (tn_tools s) i of None \<Rightarrow> die d s | Some t \<Rightarrow> k t s)"

definition input_fragments :: fragments where
  "input_fragments = \<lparr>fr_get = tn_input, fr_put = (\<lambda>m. tn_input_update (\<lambda>_. m)),
     fr_ended = (\<lambda>inp i v md. with_tool i (End_Before_Start i)
       (\<lambda>t. seq (emit inp (ToolInputEndedE (ut_message t) i v)) (set_tool i (t\<lparr>ut_ended := True\<rparr>))))\<rparr>"

definition flush :: "turn_input \<Rightarrow> unit effect" where
  "flush inp = seq (fragment_flush inp text_fragments)
     (seq (fragment_flush inp reasoning_fragments) (fragment_flush inp input_fragments))"

definition start_tool_input :: "turn_input \<Rightarrow> jstring \<Rightarrow> jstring \<Rightarrow> unit effect" where
  "start_tool_input inp i name s =
    (if map_of (tn_tools s) i \<noteq> None then die (Duplicate_Start i) s
     else bind (start_assistant inp) (\<lambda>m.
       seq (set_tool i \<lparr>ut_message = m, ut_name = name, ut_ended = False, ut_called = False, ut_settled = False,
           ut_executed = False, ut_metadata = None\<rparr>)
         (seq (fragment_start input_fragments i) (emit inp (ToolInputStartedE m i name)))) s)"

definition end_tool_input :: "turn_input \<Rightarrow> jstring \<Rightarrow> jstring \<Rightarrow> unit effect" where
  "end_tool_input inp i name = with_tool i (End_Before_Start i)
     (\<lambda>t. if ut_name t \<noteq> name then die (Name_Changed i)
          else if ut_ended t then die (Duplicate_End i)
          else fragment_end inp input_fragments i None)"

definition fail_assistant :: "turn_input \<Rightarrow> jstring \<Rightarrow> unit effect" where
  "fail_assistant inp msg s =
    (if tn_failed s then ret () s
     else seq (flush inp) (bind (start_assistant inp) (\<lambda>m.
       seq (change (\<lambda>s. s\<lparr>tn_active := False, tn_failed := True\<rparr>)) (emit inp (StepFailedE m msg)))) s)"

definition fail_tool :: "turn_input \<Rightarrow> jstring \<Rightarrow> bool \<Rightarrow> jstring \<Rightarrow> unit effect" where
  \<comment> \<open>the body of the loop over the tools\<close>
  "fail_tool inp msg hosted i s =
    (case map_of (tn_tools s) i of
       None \<Rightarrow> ret () s
     | Some t \<Rightarrow>
         if ut_settled t \<or> hosted \<and> \<not> ut_executed t then ret () s
         else seq (set_tool i (t\<lparr>ut_settled := True\<rparr>))
           (emit inp (ToolFailedE (ut_message t) i msg None (ut_executed t) (ut_metadata t))) s)"

definition fail_unsettled_tools :: "turn_input \<Rightarrow> jstring \<Rightarrow> bool \<Rightarrow> unit effect" where
  "fail_unsettled_tools inp msg hosted s = each (fail_tool inp msg hosted) (map_keys (tn_tools s)) s"

definition message_for_tool :: "jstring \<Rightarrow> jstring effect" where
  \<comment> \<open>\<open>assistantMessageIDForTool\<close>\<close>
  "message_for_tool i = with_tool i (Unknown_Call i) (\<lambda>t. ret (ut_message t))"

section \<open>Publishing one event of the stream\<close>

definition publish_tool_delta :: "turn_input \<Rightarrow> jstring \<Rightarrow> jstring \<Rightarrow> jstring \<Rightarrow> unit effect" where
  "publish_tool_delta inp i name t = with_tool i (Delta_Before_Start i)
     (\<lambda>tl. if ut_name tl \<noteq> name then die (Name_Changed i)
           else if ut_ended tl then die (Delta_After_End i)
           else seq (fragment_append input_fragments i t) (emit inp (ToolInputDeltaE (ut_message tl) i t)))"

definition publish_tool_call :: "turn_input \<Rightarrow> jstring \<Rightarrow> jstring \<Rightarrow> json \<Rightarrow> bool option \<Rightarrow> metadata option \<Rightarrow> unit effect" where
  "publish_tool_call inp i name v pe md =
    seq (\<lambda>s. if map_of (tn_tools s) i = None then start_tool_input inp i name s else ret () s)
      (seq (with_tool i (Unknown_Call i) (\<lambda>t. if ut_ended t then ret () else end_tool_input inp i name))
        (with_tool i (Unknown_Call i)
          (\<lambda>t. if ut_name t \<noteq> name then die (Name_Changed i)
               else if ut_called t then die (Duplicate_Call i)
               else seq (set_tool i (t\<lparr>ut_called := True, ut_executed := (pe = Some True), ut_metadata := md\<rparr>))
                 (emit inp (ToolCalledE (ut_message t) i name (record_of v) (pe = Some True) md)))))"

definition publish_tool_result :: "turn_input \<Rightarrow> jstring list \<Rightarrow> jstring \<Rightarrow> jstring \<Rightarrow> tool_result_value \<Rightarrow> tool_output option \<Rightarrow>
    bool option \<Rightarrow> metadata option \<Rightarrow> unit effect" where
  "publish_tool_result inp paths i name r out pe md = with_tool i (Before_Call i)
     (\<lambda>t. if \<not> ut_called t then die (Before_Call i)
          else if ut_name t \<noteq> name then die (Name_Changed i)
          else if ut_settled t then (case r of ErrorResult e \<Rightarrow> ret () | _ \<Rightarrow> die (Duplicate_Result i))
          else seq (set_tool i (t\<lparr>ut_settled := True\<rparr>))
            (let executed = (pe = Some True \<or> ut_executed t) in
             case settled_output out r of
               None \<Rightarrow> die (Unknown_Call i)
             | Some (Inl err) \<Rightarrow> emit inp (ToolFailedE (ut_message t) i err (Some (result_json r)) executed md)
             | Some (Inr (structured, content)) \<Rightarrow>
                 emit inp (ToolSuccessE (ut_message t) i structured content (Some paths)
                   (if executed then Some (result_json r) else None) executed md)))"

definition publish_tool_error :: "turn_input \<Rightarrow> jstring \<Rightarrow> jstring \<Rightarrow> jstring \<Rightarrow> metadata option \<Rightarrow> unit effect" where
  "publish_tool_error inp i name msg md = with_tool i (Before_Call i)
     (\<lambda>t. if \<not> ut_called t then die (Before_Call i)
          else if ut_name t \<noteq> name then die (Name_Changed i)
          else if ut_settled t then die (Duplicate_Error i)
          else seq (set_tool i (t\<lparr>ut_settled := True\<rparr>))
            (emit inp (ToolFailedE (ut_message t) i msg None (ut_executed t) md)))"

definition publish_step_finish :: "turn_input \<Rightarrow> finish_reason \<Rightarrow> usage option \<Rightarrow> unit effect" where
  "publish_step_finish inp reason u =
    seq (flush inp) (seq (change (\<lambda>s. s\<lparr>tn_active := False\<rparr>))
      (\<lambda>s. if tn_settlement s \<noteq> None then die Duplicate_Finish s
           else change (\<lambda>s. s\<lparr>tn_settlement := Some (reason, tokens u)\<rparr>) s))"

fun publish_llm_event :: "turn_input \<Rightarrow> jstring list \<Rightarrow> llm_event \<Rightarrow> unit effect" where
  "publish_llm_event inp paths (StepStart n) = ret ()"
| "publish_llm_event inp paths (TextStart i md) =
    seq (fragment_start text_fragments i) (bind (start_assistant inp) (\<lambda>m. emit inp (TextStartedE m i)))"
| "publish_llm_event inp paths (TextDelta i t md) =
    seq (fragment_append text_fragments i t) (bind current_assistant (\<lambda>m. emit inp (TextDeltaE m i t)))"
| "publish_llm_event inp paths (TextEnd i md) = fragment_end inp text_fragments i None"
| "publish_llm_event inp paths (ReasoningStart i md) =
    seq (fragment_start reasoning_fragments i) (bind (start_assistant inp) (\<lambda>m. emit inp (ReasoningStartedE m i md)))"
| "publish_llm_event inp paths (ReasoningDelta i t md) =
    seq (fragment_append reasoning_fragments i t) (bind current_assistant (\<lambda>m. emit inp (ReasoningDeltaE m i t)))"
| "publish_llm_event inp paths (ReasoningEnd i md) = fragment_end inp reasoning_fragments i md"
| "publish_llm_event inp paths (ToolInputStart i name md) = start_tool_input inp i name"
| "publish_llm_event inp paths (ToolInputDelta i name t) = publish_tool_delta inp i name t"
| "publish_llm_event inp paths (ToolInputEnd i name md) = end_tool_input inp i name"
| "publish_llm_event inp paths (ToolCall i name v pe md) = publish_tool_call inp i name v pe md"
| "publish_llm_event inp paths (ToolResult i name r out pe md) = publish_tool_result inp paths i name r out pe md"
| "publish_llm_event inp paths (ToolError i name msg err md) = publish_tool_error inp i name msg md"
| "publish_llm_event inp paths (StepFinish n reason u md) = publish_step_finish inp reason u"
| "publish_llm_event inp paths (Finish reason u md) = ret ()"
| "publish_llm_event inp paths (ProviderError msg c r md) =
    seq (change (\<lambda>s. s\<lparr>tn_provider_failed := True\<rparr>)) (fail_assistant inp msg)"

definition end_step :: "turn_input \<Rightarrow> jstring \<Rightarrow> token_counts \<Rightarrow> jstring option \<Rightarrow> jstring list option \<Rightarrow> unit effect" where
  "end_step inp fin counts snap files =
    bind (start_assistant inp) (\<lambda>m. emit inp (StepEndedE m fin (JNum 0) counts snap files))"

datatype turn_call =
    Llm llm_event "jstring list"
  | Flush
  | Fail_Assistant jstring
  | Fail_Tools jstring bool
  | Start_Assistant
  | End_Step jstring token_counts "jstring option" "jstring list option" \<comment> \<open>finish, tokens, the last snapshot and its files\<close>

fun call_turn :: "turn_input \<Rightarrow> turn_call \<Rightarrow> unit effect" where
  \<comment> \<open>the operations of the publisher the runner calls, and the end of the step, which it publishes itself\<close>
  "call_turn inp (Llm e paths) = publish_llm_event inp paths e"
| "call_turn inp Flush = flush inp"
| "call_turn inp (Fail_Assistant msg) = fail_assistant inp msg"
| "call_turn inp (Fail_Tools msg hosted) = fail_unsettled_tools inp msg hosted"
| "call_turn inp Start_Assistant = bind (start_assistant inp) (\<lambda>_. ret ())"
| "call_turn inp (End_Step fin counts snap files) = end_step inp fin counts snap files"

definition run_calls :: "turn_input \<Rightarrow> turn_call list \<Rightarrow> turn" where
  \<comment> \<open>one call after the other, whether or not it dies\<close>
  "run_calls inp cs = fold (\<lambda>c s. snd (call_turn inp c s)) cs new_turn"

end
