(* ===== verification/TurnSteps.thy ===== *)
theory TurnSteps imports TurnPublisher begin

text \<open>
  The publisher as a state machine: every call is a sequence of small steps, each of which publishes
  one event with the change of state that belongs to it. Invariants are then proved step by step.
\<close>

definition published :: "turn_input \<Rightarrow> session_body \<Rightarrow> turn \<Rightarrow> turn" where
  "published inp b s = snd (emit inp b s)"

definition tool_fresh :: "jstring \<Rightarrow> jstring \<Rightarrow> turn_tool" where
  "tool_fresh m name = \<lparr>ut_message = m, ut_name = name, ut_ended = False, ut_called = False, ut_settled = False,
     ut_executed = False, ut_metadata = None\<rparr>"

fun settles :: "jstring \<Rightarrow> session_body \<Rightarrow> bool" where
  "settles i (ToolSuccessE m j s c p r x md) = (i = j)"
| "settles i (ToolFailedE m j e r x md) = (i = j)"
| "settles i b = False"

fun body_message :: "session_body \<Rightarrow> jstring option" where
  "body_message (ToolSuccessE m j s c p r x md) = Some m"
| "body_message (ToolFailedE m j e r x md) = Some m"
| "body_message b = None"

inductive turn_step :: "bool \<Rightarrow> turn_input \<Rightarrow> turn \<Rightarrow> turn \<Rightarrow> bool" for q inp where
  start: "tn_message s = None \<Longrightarrow> turn_step q inp s
     (published inp (StepStartedE (tu_message inp) (tu_agent inp) (tu_model inp) (tu_snapshot inp))
       (s\<lparr>tn_message := Some (tu_message inp), tn_active := True\<rparr>))"
| flags: "turn_step q inp s (s\<lparr>tn_active := a, tn_provider_failed := p, tn_settlement := z\<rparr>)"
| text_start: "tn_message s = Some m \<Longrightarrow> map_of (tn_text s) i = None \<Longrightarrow> turn_step q inp s
     (published inp (TextStartedE m i) (s\<lparr>tn_text := map_set (tn_text s) i []\<rparr>))"
| text_delta: "tn_message s = Some m \<Longrightarrow> map_of (tn_text s) i = Some cur \<Longrightarrow> turn_step q inp s
     (published inp (TextDeltaE m i t) (s\<lparr>tn_text := map_set (tn_text s) i (cur @ [t])\<rparr>))"
| text_end: "tn_message s = Some m \<Longrightarrow> map_of (tn_text s) i = Some cur \<Longrightarrow> turn_step q inp s
     (published inp (TextEndedE m i (concat cur)) (s\<lparr>tn_text := map_delete (tn_text s) i\<rparr>))"
| reasoning_start: "tn_message s = Some m \<Longrightarrow> map_of (tn_reasoning s) i = None \<Longrightarrow> turn_step q inp s
     (published inp (ReasoningStartedE m i md) (s\<lparr>tn_reasoning := map_set (tn_reasoning s) i []\<rparr>))"
| reasoning_delta: "tn_message s = Some m \<Longrightarrow> map_of (tn_reasoning s) i = Some cur \<Longrightarrow> turn_step q inp s
     (published inp (ReasoningDeltaE m i t) (s\<lparr>tn_reasoning := map_set (tn_reasoning s) i (cur @ [t])\<rparr>))"
| reasoning_end: "tn_message s = Some m \<Longrightarrow> map_of (tn_reasoning s) i = Some cur \<Longrightarrow> turn_step q inp s
     (published inp (ReasoningEndedE m i (concat cur) md) (s\<lparr>tn_reasoning := map_delete (tn_reasoning s) i\<rparr>))"
| input_start: "tn_message s = Some m \<Longrightarrow> map_of (tn_tools s) i = None \<Longrightarrow> map_of (tn_input s) i = None \<Longrightarrow> turn_step q inp s
     (published inp (ToolInputStartedE m i name)
       (s\<lparr>tn_tools := map_set (tn_tools s) i (tool_fresh m name), tn_input := map_set (tn_input s) i []\<rparr>))"
| input_delta: "map_of (tn_tools s) i = Some t \<Longrightarrow> map_of (tn_input s) i = Some cur \<Longrightarrow> turn_step q inp s
     (published inp (ToolInputDeltaE (ut_message t) i x) (s\<lparr>tn_input := map_set (tn_input s) i (cur @ [x])\<rparr>))"
| input_end: "map_of (tn_tools s) i = Some t \<Longrightarrow> map_of (tn_input s) i = Some cur \<Longrightarrow> turn_step q inp s
     (published inp (ToolInputEndedE (ut_message t) i (concat cur))
       (s\<lparr>tn_tools := map_set (tn_tools s) i (t\<lparr>ut_ended := True\<rparr>), tn_input := map_delete (tn_input s) i\<rparr>))"
| called: "map_of (tn_tools s) i = Some t \<Longrightarrow> ut_ended t \<Longrightarrow> \<not> ut_called t \<Longrightarrow> turn_step q inp s
     (published inp (ToolCalledE (ut_message t) i name v x md)
       (s\<lparr>tn_tools := map_set (tn_tools s) i (t\<lparr>ut_called := True, ut_executed := x, ut_metadata := md\<rparr>)\<rparr>))"
| settled: "map_of (tn_tools s) i = Some t \<Longrightarrow> \<not> ut_settled t \<Longrightarrow> settles i b \<Longrightarrow> body_message b = Some (ut_message t) \<Longrightarrow>
     (q \<longrightarrow> ut_called t) \<Longrightarrow> turn_step q inp s
     (published inp b (s\<lparr>tn_tools := map_set (tn_tools s) i (t\<lparr>ut_settled := True\<rparr>)\<rparr>))"
| failed: "tn_message s = Some m \<Longrightarrow> \<not> tn_failed s \<Longrightarrow> turn_step q inp s
     (published inp (StepFailedE m msg) (s\<lparr>tn_active := False, tn_failed := True\<rparr>))"
| ended: "tn_message s = Some m \<Longrightarrow> turn_step q inp s (published inp (StepEndedE m fin cost counts snap files) s)"

definition turn_ok :: "turn \<Rightarrow> bool" where
  \<comment> \<open>maps have distinct keys; a tool whose input is open has not ended it; open blocks and tools belong
     to an assistant message that was started\<close>
  "turn_ok s \<longleftrightarrow> wf_map (tn_tools s) \<and> wf_map (tn_text s) \<and> wf_map (tn_reasoning s) \<and> wf_map (tn_input s) \<and>
    (\<forall>i cur. map_of (tn_input s) i = Some cur \<longrightarrow> (\<exists>t. map_of (tn_tools s) i = Some t \<and> \<not> ut_ended t)) \<and>
    (\<forall>i t. map_of (tn_tools s) i = Some t \<longrightarrow> (\<not> ut_ended t \<longrightarrow> map_of (tn_input s) i \<noteq> None) \<and> (ut_called t \<longrightarrow> ut_ended t) \<and> (ut_executed t \<longrightarrow> ut_called t) \<and>
      tn_message s = Some (ut_message t)) \<and>
    (tn_message s = None \<longrightarrow> tn_text s = [] \<and> tn_reasoning s = [])"

lemma published_simps [simp]:
  "tn_tools (published inp b s) = tn_tools s" "tn_text (published inp b s) = tn_text s"
  "tn_reasoning (published inp b s) = tn_reasoning s" "tn_input (published inp b s) = tn_input s"
  "tn_message (published inp b s) = tn_message s" "tn_failed (published inp b s) = tn_failed s"
  "tn_active (published inp b s) = tn_active s" "tn_settlement (published inp b s) = tn_settlement s"
  "tn_events (published inp b s) = tn_events s @
     [\<lparr>se_metadata = None, se_session = tu_session inp, se_time = tu_clock inp (length (tn_events s)), se_body = b\<rparr>]"
  by (simp_all add: published_def emit_def change_def)

lemma turn_ok_new: "turn_ok new_turn"
  by (simp add: turn_ok_def new_turn_def)

lemma turn_okD:
  assumes "turn_ok s"
  shows "wf_map (tn_tools s)" "wf_map (tn_text s)" "wf_map (tn_reasoning s)" "wf_map (tn_input s)"
    "map_of (tn_input s) i = Some cur \<Longrightarrow> \<exists>t. map_of (tn_tools s) i = Some t \<and> \<not> ut_ended t"
    "map_of (tn_tools s) i = Some t \<Longrightarrow> \<not> ut_ended t \<Longrightarrow> map_of (tn_input s) i \<noteq> None"
    "map_of (tn_tools s) i = Some t \<Longrightarrow> ut_called t \<Longrightarrow> ut_ended t"
    "map_of (tn_tools s) i = Some t \<Longrightarrow> tn_message s = Some (ut_message t)"
    "map_of (tn_tools s) i = Some t \<Longrightarrow> ut_executed t \<Longrightarrow> ut_called t"
    "tn_message s = None \<Longrightarrow> tn_text s = [] \<and> tn_reasoning s = []"
  using assms unfolding turn_ok_def by blast+

lemma turn_ok_tool:
  assumes ok: "turn_ok s" and t: "map_of (tn_tools s) i = Some t"
    and t': "ut_message t' = ut_message t" "ut_called t' \<Longrightarrow> ut_ended t'" "ut_executed t' \<Longrightarrow> ut_called t'"
    and m: "wf_map m" "\<And>j. j \<noteq> i \<Longrightarrow> map_of m j = map_of (tn_input s) j" "map_of m i = None \<longleftrightarrow> ut_ended t'"
  shows "turn_ok (published inp b (s\<lparr>tn_tools := map_set (tn_tools s) i t', tn_input := m\<rparr>))" (is "turn_ok ?s")
  unfolding turn_ok_def
proof (intro conjI allI impI)
  note okd = turn_okD [OF ok]
  show "wf_map (tn_tools ?s)" "wf_map (tn_text ?s)" "wf_map (tn_reasoning ?s)" "wf_map (tn_input ?s)" using okd(1-3) m(1) by simp_all
  show "\<exists>t. map_of (tn_tools ?s) j = Some t \<and> \<not> ut_ended t" if "map_of (tn_input ?s) j = Some cur" for j cur
    using okd(5) [of j cur] that m by (cases "j = i") auto
  fix j x assume x: "map_of (tn_tools ?s) j = Some x"
  show "map_of (tn_input ?s) j \<noteq> None" if "\<not> ut_ended x" using okd(6) [of j] x that m by (cases "j = i") auto
  show "ut_ended x" if "ut_called x" using okd(7) [of j] x that t'(2) by (cases "j = i") auto
  show "ut_called x" if "ut_executed x" using okd(9) [of j] x that t'(3) by (cases "j = i") auto
  show "tn_message ?s = Some (ut_message x)" using okd(8) x t t'(1) by (cases "j = i") auto
next
  assume "tn_message ?s = None"
  then show "tn_text ?s = []" "tn_reasoning ?s = []" using turn_okD(10) [OF ok] by simp_all
qed

lemma turn_ok_tool_only:
  assumes ok: "turn_ok s" and t: "map_of (tn_tools s) i = Some t"
    and t': "ut_message t' = ut_message t" "ut_ended t' = ut_ended t" "ut_called t' \<Longrightarrow> ut_ended t'" "ut_executed t' \<Longrightarrow> ut_called t'"
  shows "turn_ok (published inp b (s\<lparr>tn_tools := map_set (tn_tools s) i t'\<rparr>))"
proof -
  have "map_of (tn_input s) i = None \<longleftrightarrow> ut_ended t'"
    using turn_okD(5,6) [OF ok, of i] t t'(2) by (cases "map_of (tn_input s) i") auto
  from turn_ok_tool [OF ok t t'(1,3,4) turn_okD(4) [OF ok] refl this] show ?thesis by simp
qed

lemma turn_ok_step: "turn_step q inp s s' \<Longrightarrow> turn_ok s \<Longrightarrow> turn_ok s'"
proof (induction rule: turn_step.induct)
  case (called s i t name v x md)
  then show ?case by (intro turn_ok_tool_only) simp_all
next
  case (settled s i t b)
  then show ?case by (intro turn_ok_tool_only) (auto dest: turn_okD(7,9))
next
  case (input_end s i t cur)
  then show ?case by (intro turn_ok_tool [of _ _ t]) (auto simp: turn_okD(4) dest: turn_okD(9))
next
  case (input_delta s i t cur x)
  then show ?case by (auto simp: turn_ok_def split: if_splits)
next
  case (input_start s m i name)
  then show ?case by (auto simp: turn_ok_def tool_fresh_def)
qed (auto simp: turn_ok_def split: if_splits)

lemma turn_ok_steps: "(turn_step q inp)\<^sup>*\<^sup>* s s' \<Longrightarrow> turn_ok s \<Longrightarrow> turn_ok s'"
  by (induction rule: rtranclp_induct) (auto intro: turn_ok_step)

section \<open>Calls are sequences of steps\<close>

lemmas effects = ret_def die_def bind_def seq_def change_def emit_def published_def

lemma turn_commute [simp]:
  "s\<lparr>tn_events := e, tn_text := x\<rparr> = s\<lparr>tn_text := x, tn_events := e\<rparr>"
  "s\<lparr>tn_events := e, tn_reasoning := x\<rparr> = s\<lparr>tn_reasoning := x, tn_events := e\<rparr>"
  "s\<lparr>tn_events := e, tn_input := y\<rparr> = s\<lparr>tn_input := y, tn_events := e\<rparr>"
  "s\<lparr>tn_events := e, tn_tools := z\<rparr> = s\<lparr>tn_tools := z, tn_events := e\<rparr>"
  for s :: turn
  by simp_all

definition simulated :: "bool \<Rightarrow> turn_input \<Rightarrow> 'a effect \<Rightarrow> bool" where
  \<comment> \<open>from a good turn, the effect only takes steps\<close>
  "simulated q inp m \<longleftrightarrow> (\<forall>s. turn_ok s \<longrightarrow> (turn_step q inp)\<^sup>*\<^sup>* s (snd (m s)))"

lemma simulatedD: "simulated q inp m \<Longrightarrow> turn_ok s \<Longrightarrow> m s = (r, s') \<Longrightarrow> (turn_step q inp)\<^sup>*\<^sup>* s s' \<and> turn_ok s'"
  unfolding simulated_def by (metis snd_conv turn_ok_steps)

lemma simulated_ret: "simulated q inp (ret x)" and simulated_die: "simulated q inp (die d)"
  by (simp_all add: simulated_def ret_def die_def)

lemma simulated_bind:
  assumes "simulated q inp m" "\<And>x. simulated q inp (k x)"
  shows "simulated q inp (bind m k)"
  unfolding simulated_def
proof (intro allI impI)
  fix s assume ok: "turn_ok s"
  obtain r s1 where m: "m s = (r, s1)" by fastforce
  note s1 = simulatedD [OF assms(1) ok m]
  show "(turn_step q inp)\<^sup>*\<^sup>* s (snd (bind m k s))"
  proof (cases r)
    case (Inl d)
    with m s1 show ?thesis by (simp add: bind_def)
  next
    case (Inr x)
    obtain r2 s2 where k: "k x s1 = (r2, s2)" by fastforce
    with simulatedD [OF assms(2) s1 [THEN conjunct2] k] s1 m Inr show ?thesis by (auto simp: bind_def intro: rtranclp_trans)
  qed
qed

lemma seq_cong: "(\<And>u s1. m s = (Inr u, s1) \<Longrightarrow> k s1 = k' s1) \<Longrightarrow> seq m k s = seq m k' s"
  by (cases "m s") (auto simp: seq_def bind_def split: sum.split)

lemma simulated_seq: "simulated q inp m \<Longrightarrow> simulated q inp k \<Longrightarrow> simulated q inp (seq m k)"
  unfolding seq_def by (rule simulated_bind)

lemma simulated_each: "(\<And>x. simulated q inp (f x)) \<Longrightarrow> simulated q inp (each f xs)"
  by (induction xs) (auto intro: simulated_ret simulated_seq)

lemma simulatedI:
  assumes "\<And>s. turn_ok s \<Longrightarrow> snd (m s) = s \<or> turn_step q inp s (snd (m s))"
  shows "simulated q inp m"
  using assms unfolding simulated_def by (metis r_into_rtranclp rtranclp.rtrancl_refl)

lemma simulated_start: "simulated q inp (start_assistant inp)"
proof (rule simulatedI)
  fix s assume "turn_ok s"
  show "snd (start_assistant inp s) = s \<or> turn_step q inp s (snd (start_assistant inp s))"
    using turn_step.start [of s q inp] by (cases "tn_message s") (simp_all add: start_assistant_def effects)
qed

text \<open>The openings start the assistant first; the chunks they add before are then added after.\<close>

lemma simulated_text_start:
  "simulated q inp (seq (fragment_start text_fragments i) (bind (start_assistant inp) (\<lambda>m. emit inp (TextStartedE m i))))" (is "simulated q inp ?m")
proof -
  let ?k = "\<lambda>m s. if map_of (tn_text s) i \<noteq> None \<or> tn_message s \<noteq> Some m then ret () s
    else (Inr (), published inp (TextStartedE m i) (s\<lparr>tn_text := map_set (tn_text s) i []\<rparr>))"
  have k: "simulated q inp (?k m)" for m
    by (rule simulatedI) (auto simp: ret_def intro: turn_step.text_start)
  have "snd (?m s) = snd ((if map_of (tn_text s) i \<noteq> None then ret () else bind (start_assistant inp) ?k) s)" for s
    by (cases "tn_message s") (auto simp: fragment_start_def text_fragments_def start_assistant_def effects)
  moreover have "simulated q inp (if b then ret () else bind (start_assistant inp) ?k)" for b
    by (cases b) (simp_all only: if_True if_False simulated_ret simulated_bind [OF simulated_start k])
  ultimately show ?thesis by (simp add: simulated_def)
qed

lemma simulated_reasoning_start:
  "simulated q inp (seq (fragment_start reasoning_fragments i) (bind (start_assistant inp) (\<lambda>m. emit inp (ReasoningStartedE m i md))))" (is "simulated q inp ?m")
proof -
  let ?k = "\<lambda>m s. if map_of (tn_reasoning s) i \<noteq> None \<or> tn_message s \<noteq> Some m then ret () s
    else (Inr (), published inp (ReasoningStartedE m i md) (s\<lparr>tn_reasoning := map_set (tn_reasoning s) i []\<rparr>))"
  have k: "simulated q inp (?k m)" for m
    by (rule simulatedI) (auto simp: ret_def intro: turn_step.reasoning_start)
  have "snd (?m s) = snd ((if map_of (tn_reasoning s) i \<noteq> None then ret () else bind (start_assistant inp) ?k) s)" for s
    by (cases "tn_message s") (auto simp: fragment_start_def reasoning_fragments_def start_assistant_def effects)
  moreover have "simulated q inp (if b then ret () else bind (start_assistant inp) ?k)" for b
    by (cases b) (simp_all only: if_True if_False simulated_ret simulated_bind [OF simulated_start k])
  ultimately show ?thesis by (simp add: simulated_def)
qed

lemma simulated_start_tool: "simulated q inp (start_tool_input inp i name)"
proof -
  let ?k = "\<lambda>m s. if map_of (tn_tools s) i \<noteq> None \<or> tn_message s \<noteq> Some m \<or> map_of (tn_input s) i \<noteq> None then ret () s
    else (Inr (), published inp (ToolInputStartedE m i name)
      (s\<lparr>tn_tools := map_set (tn_tools s) i (tool_fresh m name), tn_input := map_set (tn_input s) i []\<rparr>))"
  have k: "simulated q inp (?k m)" for m
    by (rule simulatedI) (auto simp: ret_def intro: turn_step.input_start)
  have "snd (start_tool_input inp i name s) = snd ((if map_of (tn_tools s) i \<noteq> None then ret () else bind (start_assistant inp) ?k) s)"
    if ok: "turn_ok s" for s
  proof -
    have "map_of (tn_tools s) i = None \<Longrightarrow> map_of (tn_input s) i = None" using turn_okD(5) [OF ok, of i] by fastforce
    then show ?thesis
      by (cases "tn_message s")
        (auto simp: start_tool_input_def fragment_start_def input_fragments_def start_assistant_def set_tool_def tool_fresh_def effects)
  qed
  moreover have "simulated q inp (if b then ret () else bind (start_assistant inp) ?k)" for b
    by (cases b) (simp_all only: if_True if_False simulated_ret simulated_bind [OF simulated_start k])
  ultimately show ?thesis by (simp add: simulated_def)
qed

lemma simulated_text_delta:
  "simulated q inp (seq (fragment_append text_fragments i t) (bind current_assistant (\<lambda>m. emit inp (TextDeltaE m i t))))"
proof (rule simulatedI)
  fix s assume ok: "turn_ok s"
  let ?m = "seq (fragment_append text_fragments i t) (bind current_assistant (\<lambda>m. emit inp (TextDeltaE m i t)))"
  show "snd (?m s) = s \<or> turn_step q inp s (snd (?m s))"
  proof (cases "map_of (tn_text s) i")
    case (Some cur)
    then obtain m where "tn_message s = Some m" using turn_okD(10) [OF ok] by (cases "tn_message s") auto
    with turn_step.text_delta [OF this Some, of q inp t] Some show ?thesis
      by (simp add: fragment_append_def text_fragments_def current_assistant_def effects)
  qed (simp add: fragment_append_def text_fragments_def effects)
qed

lemma simulated_reasoning_delta:
  "simulated q inp (seq (fragment_append reasoning_fragments i t) (bind current_assistant (\<lambda>m. emit inp (ReasoningDeltaE m i t))))"
proof (rule simulatedI)
  fix s assume ok: "turn_ok s"
  let ?m = "seq (fragment_append reasoning_fragments i t) (bind current_assistant (\<lambda>m. emit inp (ReasoningDeltaE m i t)))"
  show "snd (?m s) = s \<or> turn_step q inp s (snd (?m s))"
  proof (cases "map_of (tn_reasoning s) i")
    case (Some cur)
    then obtain m where "tn_message s = Some m" using turn_okD(10) [OF ok] by (cases "tn_message s") auto
    with turn_step.reasoning_delta [OF this Some, of q inp t] Some show ?thesis
      by (simp add: fragment_append_def reasoning_fragments_def current_assistant_def effects)
  qed (simp add: fragment_append_def reasoning_fragments_def effects)
qed

lemma simulated_text_end: "simulated q inp (fragment_end inp text_fragments i md)"
proof (rule simulatedI)
  fix s assume ok: "turn_ok s"
  let ?m = "fragment_end inp text_fragments i md"
  show "snd (?m s) = s \<or> turn_step q inp s (snd (?m s))"
  proof (cases "map_of (tn_text s) i")
    case (Some cur)
    then obtain m where "tn_message s = Some m" using turn_okD(10) [OF ok] by (cases "tn_message s") auto
    with turn_step.text_end [OF this Some, of q inp] Some show ?thesis
      by (simp add: fragment_end_def text_fragments_def current_assistant_def effects)
  qed (simp add: fragment_end_def text_fragments_def effects)
qed

lemma simulated_reasoning_end: "simulated q inp (fragment_end inp reasoning_fragments i md)"
proof (rule simulatedI)
  fix s assume ok: "turn_ok s"
  let ?m = "fragment_end inp reasoning_fragments i md"
  show "snd (?m s) = s \<or> turn_step q inp s (snd (?m s))"
  proof (cases "map_of (tn_reasoning s) i")
    case (Some cur)
    then obtain m where "tn_message s = Some m" using turn_okD(10) [OF ok] by (cases "tn_message s") auto
    with turn_step.reasoning_end [OF this Some, of q inp md] Some show ?thesis
      by (simp add: fragment_end_def reasoning_fragments_def current_assistant_def effects)
  qed (simp add: fragment_end_def reasoning_fragments_def effects)
qed

lemma simulated_input_end: "simulated q inp (fragment_end inp input_fragments i md)"
proof (rule simulatedI)
  fix s assume ok: "turn_ok s"
  let ?m = "fragment_end inp input_fragments i md"
  show "snd (?m s) = s \<or> turn_step q inp s (snd (?m s))"
  proof (cases "map_of (tn_input s) i")
    case (Some cur)
    then obtain t where t: "map_of (tn_tools s) i = Some t" using turn_okD(5) [OF ok] by blast
    from turn_step.input_end [OF t Some, of q inp] Some t show ?thesis
      by (simp add: fragment_end_def input_fragments_def with_tool_def set_tool_def effects)
  qed (simp add: fragment_end_def input_fragments_def effects)
qed

lemma simulated_flush: "simulated q inp (flush inp)"
proof -
  have loop: "simulated q inp (fragment_flush inp fr)" if "\<And>i. simulated q inp (fragment_end inp fr i None)" for fr
    using simulated_each [of q inp "\<lambda>i. fragment_end inp fr i None", OF that] by (simp add: simulated_def fragment_flush_def)
  show ?thesis unfolding flush_def
    by (intro simulated_seq loop simulated_text_end simulated_reasoning_end simulated_input_end)
qed

lemma simulated_with_tool:
  assumes "\<And>t s. turn_ok s \<Longrightarrow> map_of (tn_tools s) i = Some t \<Longrightarrow> snd (k t s) = s \<or> turn_step q inp s (snd (k t s))"
  shows "simulated q inp (with_tool i d k)"
  by (rule simulatedI) (auto simp: with_tool_def die_def assms split: option.split)

lemma simulated_tool_delta: "simulated q inp (publish_tool_delta inp i name t)"
  unfolding publish_tool_delta_def
proof (rule simulated_with_tool)
  fix tl s assume "turn_ok s" and tl: "map_of (tn_tools s) i = Some tl"
  show "snd ((if ut_name tl \<noteq> name then die (Name_Changed i) else if ut_ended tl then die (Delta_After_End i)
           else seq (fragment_append input_fragments i t) (emit inp (ToolInputDeltaE (ut_message tl) i t))) s) = s \<or>
        turn_step q inp s (snd ((if ut_name tl \<noteq> name then die (Name_Changed i) else if ut_ended tl then die (Delta_After_End i)
           else seq (fragment_append input_fragments i t) (emit inp (ToolInputDeltaE (ut_message tl) i t))) s))"
  proof (cases "map_of (tn_input s) i")
    case (Some cur)
    with turn_step.input_delta [OF tl Some, of q inp t] show ?thesis
      by (simp add: fragment_append_def input_fragments_def effects)
  qed (simp add: fragment_append_def input_fragments_def effects)
qed

lemma simulated_end_tool: "simulated q inp (end_tool_input inp i name)"
  unfolding simulated_def
proof (intro allI impI)
  fix s assume ok: "turn_ok s"
  show "(turn_step q inp)\<^sup>*\<^sup>* s (snd (end_tool_input inp i name s))"
    using simulated_input_end [of q inp i None] ok
    by (simp add: end_tool_input_def with_tool_def die_def simulated_def split: option.split)
qed

lemma simulated_call: "simulated q inp (publish_tool_call inp i name v pe md)"
proof -
  have 1: "simulated q inp (\<lambda>s. if map_of (tn_tools s) i = None then start_tool_input inp i name s else ret () s)"
    using simulated_start_tool [of q inp i name] by (simp add: simulated_def ret_def)
  have 2: "simulated q inp (with_tool i (Unknown_Call i) (\<lambda>t. if ut_ended t then ret () else end_tool_input inp i name))"
    using simulated_end_tool [of q inp i name] by (simp add: simulated_def with_tool_def ret_def die_def split: option.split)
  have 3: "simulated q inp (with_tool i (Unknown_Call i)
          (\<lambda>t. if ut_name t \<noteq> name then die (Name_Changed i) else if \<not> ut_ended t then ret ()
               else if ut_called t then die (Duplicate_Call i)
               else seq (set_tool i (t\<lparr>ut_called := True, ut_executed := (pe = Some True), ut_metadata := md\<rparr>))
                 (emit inp (ToolCalledE (ut_message t) i name (record_of v) (pe = Some True) md))))" (is "simulated q inp ?three")
  proof (rule simulated_with_tool)
    fix t s assume ok: "turn_ok s" and t: "map_of (tn_tools s) i = Some t"
    show "snd ((if ut_name t \<noteq> name then die (Name_Changed i) else if \<not> ut_ended t then ret () else if ut_called t then die (Duplicate_Call i)
               else seq (set_tool i (t\<lparr>ut_called := True, ut_executed := (pe = Some True), ut_metadata := md\<rparr>))
                 (emit inp (ToolCalledE (ut_message t) i name (record_of v) (pe = Some True) md))) s) = s \<or>
      turn_step q inp s (snd ((if ut_name t \<noteq> name then die (Name_Changed i) else if \<not> ut_ended t then ret () else if ut_called t then die (Duplicate_Call i)
               else seq (set_tool i (t\<lparr>ut_called := True, ut_executed := (pe = Some True), ut_metadata := md\<rparr>))
                 (emit inp (ToolCalledE (ut_message t) i name (record_of v) (pe = Some True) md))) s))"
      using turn_step.called [OF t, of q inp name "record_of v" "pe = Some True" md] by (auto simp: set_tool_def effects)
  qed
  have ended: "ut_ended t" if "with_tool i (Unknown_Call i) (\<lambda>t. if ut_ended t then ret () else end_tool_input inp i name) s = (Inr u, s2)"
    "map_of (tn_tools s2) i = Some t" for s s2 u t
    using that by (auto simp: with_tool_def end_tool_input_def fragment_end_def input_fragments_def set_tool_def effects
        split: option.split_asm if_split_asm)
  have "publish_tool_call inp i name v pe md s = seq (\<lambda>s. if map_of (tn_tools s) i = None then start_tool_input inp i name s else ret () s)
      (seq (with_tool i (Unknown_Call i) (\<lambda>t. if ut_ended t then ret () else end_tool_input inp i name)) ?three) s" for s
    unfolding publish_tool_call_def
  proof (rule seq_cong, rule seq_cong)
    fix u :: unit and s1 and u2 :: unit and s2
    assume "with_tool i (Unknown_Call i) (\<lambda>t. if ut_ended t then ret () else end_tool_input inp i name) s1 = (Inr u2, s2)"
    from ended [OF this]
    show "with_tool i (Unknown_Call i)
          (\<lambda>t. if ut_name t \<noteq> name then die (Name_Changed i) else if ut_called t then die (Duplicate_Call i)
               else seq (set_tool i (t\<lparr>ut_called := True, ut_executed := (pe = Some True), ut_metadata := md\<rparr>))
                 (emit inp (ToolCalledE (ut_message t) i name (record_of v) (pe = Some True) md))) s2 = ?three s2"
      by (simp add: with_tool_def split: option.split)
  qed
  then show ?thesis using simulated_seq [OF 1 simulated_seq [OF 2 3]] by (simp add: simulated_def)
qed

lemma settle_step:
  assumes t: "map_of (tn_tools s) i = Some t" "\<not> ut_settled t" and b: "settles i b" "body_message b = Some (ut_message t)"
    "q \<Longrightarrow> ut_called t"
  shows "turn_step q inp s (snd (seq (set_tool i (t\<lparr>ut_settled := True\<rparr>)) (emit inp b) s))"
  using turn_step.settled [OF t b(1,2), of q inp] b(3) by (simp add: set_tool_def effects)

lemma simulated_result: "simulated q inp (publish_tool_result inp paths i name r out pe md)"
  unfolding publish_tool_result_def
proof (rule simulated_with_tool)
  fix t s assume ok: "turn_ok s" and t: "map_of (tn_tools s) i = Some t"
  let ?x = "pe = Some True \<or> ut_executed t"
  let ?out = "case settled_output out r of
               None \<Rightarrow> die (Unknown_Call i)
             | Some (Inl err) \<Rightarrow> emit inp (ToolFailedE (ut_message t) i err (Some (result_json r)) ?x md)
             | Some (Inr (structured, content)) \<Rightarrow>
                 emit inp (ToolSuccessE (ut_message t) i structured content (Some paths)
                   (if ?x then Some (result_json r) else None) ?x md)"
  have some: "settled_output out r \<noteq> None"
    by (cases r) (auto simp: settled_output_def from_result_value_def or_else_def split: option.split)
  have "snd (seq (set_tool i (t\<lparr>ut_settled := True\<rparr>)) ?out s) = s \<or>
      turn_step q inp s (snd (seq (set_tool i (t\<lparr>ut_settled := True\<rparr>)) ?out s))" if c: "ut_called t" "\<not> ut_settled t"
  proof (cases "settled_output out r")
    case (Some v)
    show ?thesis
    proof (cases v)
      case (Inl err)
      have "turn_step q inp s (snd (seq (set_tool i (t\<lparr>ut_settled := True\<rparr>))
          (emit inp (ToolFailedE (ut_message t) i err (Some (result_json r)) ?x md)) s))"
        by (rule settle_step [OF t c(2)]) (use c in simp_all)
      with Some Inl show ?thesis by simp
    next
      case (Inr sc)
      obtain structured content where sc: "sc = (structured, content)" by (cases sc)
      have "turn_step q inp s (snd (seq (set_tool i (t\<lparr>ut_settled := True\<rparr>))
          (emit inp (ToolSuccessE (ut_message t) i structured content (Some paths) (if ?x then Some (result_json r) else None) ?x md)) s))"
        by (rule settle_step [OF t c(2)]) (use c in simp_all)
      with Some Inr sc show ?thesis by simp
    qed
  qed (use some in simp)
  then show "snd ((if \<not> ut_called t then die (Before_Call i)
          else if ut_name t \<noteq> name then die (Name_Changed i)
          else if ut_settled t then (case r of ErrorResult e \<Rightarrow> ret () | _ \<Rightarrow> die (Duplicate_Result i))
          else seq (set_tool i (t\<lparr>ut_settled := True\<rparr>)) (let executed = ?x in
             case settled_output out r of
               None \<Rightarrow> die (Unknown_Call i)
             | Some (Inl err) \<Rightarrow> emit inp (ToolFailedE (ut_message t) i err (Some (result_json r)) executed md)
             | Some (Inr (structured, content)) \<Rightarrow>
                 emit inp (ToolSuccessE (ut_message t) i structured content (Some paths)
                   (if executed then Some (result_json r) else None) executed md))) s) = s \<or>
    turn_step q inp s (snd ((if \<not> ut_called t then die (Before_Call i)
          else if ut_name t \<noteq> name then die (Name_Changed i)
          else if ut_settled t then (case r of ErrorResult e \<Rightarrow> ret () | _ \<Rightarrow> die (Duplicate_Result i))
          else seq (set_tool i (t\<lparr>ut_settled := True\<rparr>)) (let executed = ?x in
             case settled_output out r of
               None \<Rightarrow> die (Unknown_Call i)
             | Some (Inl err) \<Rightarrow> emit inp (ToolFailedE (ut_message t) i err (Some (result_json r)) executed md)
             | Some (Inr (structured, content)) \<Rightarrow>
                 emit inp (ToolSuccessE (ut_message t) i structured content (Some paths)
                   (if executed then Some (result_json r) else None) executed md))) s))"
    unfolding Let_def by (simp add: die_def ret_def split: tool_result_value.split)
qed

lemma simulated_error: "simulated q inp (publish_tool_error inp i name msg md)"
  unfolding publish_tool_error_def
  by (rule simulated_with_tool) (auto simp: die_def intro!: settle_step)

lemma simulated_fail_tool:
  assumes "q \<Longrightarrow> hosted"
  shows "simulated q inp (fail_tool inp msg hosted i)"
proof (rule simulatedI)
  fix s assume ok: "turn_ok s"
  show "snd (fail_tool inp msg hosted i s) = s \<or> turn_step q inp s (snd (fail_tool inp msg hosted i s))"
    using assms by (auto simp: fail_tool_def ret_def intro!: settle_step dest: turn_okD(9) [OF ok] split: option.split)
qed

lemma simulated_fail_tools: "(q \<Longrightarrow> hosted) \<Longrightarrow> simulated q inp (fail_unsettled_tools inp msg hosted)"
  using simulated_each [of q inp "fail_tool inp msg hosted", OF simulated_fail_tool]
  by (simp add: simulated_def fail_unsettled_tools_def)

lemma simulated_fail_assistant: "simulated q inp (fail_assistant inp msg)"
proof -
  let ?k = "\<lambda>m. seq (change (\<lambda>s. s\<lparr>tn_active := False, tn_failed := True\<rparr>)) (emit inp (StepFailedE m msg))"
  let ?k' = "\<lambda>m s. if tn_failed s \<or> tn_message s \<noteq> Some m then ret () s else ?k m s"
  have k: "simulated q inp (?k' m)" for m
  proof (rule simulatedI)
    fix s assume "turn_ok s"
    show "snd (?k' m s) = s \<or> turn_step q inp s (snd (?k' m s))"
      using turn_step.failed [of s m q inp msg] by (auto simp: effects)
  qed
  have flushed: "tn_failed s1 = tn_failed s" if "flush inp s = (r, s1)" for s r s1
  proof -
    have frag: "tn_failed (snd (fragment_flush inp fr s)) = tn_failed s"
      if "\<And>i s. tn_failed (snd (fragment_end inp fr i None s)) = tn_failed s" for fr s
    proof -
      have "tn_failed (snd (each (\<lambda>i. fragment_end inp fr i None) ks s)) = tn_failed s" for ks s
      proof (induction ks arbitrary: s)
        case (Cons i ks)
        then show ?case using that [of i s] by (cases "fragment_end inp fr i None s") (auto simp: seq_def bind_def split: sum.split)
      qed (simp add: ret_def)
      then show ?thesis by (simp add: fragment_flush_def)
    qed
    have "tn_failed (snd (fragment_end inp text_fragments i None s)) = tn_failed s"
      "tn_failed (snd (fragment_end inp reasoning_fragments i None s)) = tn_failed s"
      "tn_failed (snd (fragment_end inp input_fragments i None s)) = tn_failed s" for i s
      by (auto simp: fragment_end_def text_fragments_def reasoning_fragments_def input_fragments_def current_assistant_def
          with_tool_def set_tool_def effects split: option.split)
    then have "tn_failed (snd (flush inp s)) = tn_failed s"
      using frag by (auto simp: flush_def seq_def bind_def split: sum.split prod.split) (metis snd_conv)+
    with that show ?thesis by simp
  qed
  have start: "bind (start_assistant inp) ?k s = bind (start_assistant inp) ?k' s" if "\<not> tn_failed s" for s
    using that by (cases "tn_message s") (simp_all add: start_assistant_def effects)
  have eq: "fail_assistant inp msg s = seq (flush inp) (bind (start_assistant inp) ?k') s" if nf: "\<not> tn_failed s" for s
  proof -
    have "seq (flush inp) (bind (start_assistant inp) ?k) s = seq (flush inp) (bind (start_assistant inp) ?k') s"
      by (rule seq_cong, rule start) (use flushed nf in blast)
    with nf show ?thesis by (simp add: fail_assistant_def)
  qed
  show ?thesis
    unfolding simulated_def
  proof (intro allI impI)
    fix s assume ok: "turn_ok s"
    show "(turn_step q inp)\<^sup>*\<^sup>* s (snd (fail_assistant inp msg s))"
    proof (cases "tn_failed s")
      case True
      then show ?thesis by (simp add: fail_assistant_def ret_def)
    next
      case False
      have "simulated q inp (seq (flush inp) (bind (start_assistant inp) ?k'))"
        by (intro simulated_seq simulated_flush simulated_bind simulated_start k)
      with ok show ?thesis unfolding eq [OF False] simulated_def by blast
    qed
  qed
qed

lemma simulated_flags:
  assumes "\<And>s. snd (m s) = s\<lparr>tn_active := a s, tn_provider_failed := p s, tn_settlement := z s\<rparr>"
  shows "simulated q inp m"
  by (rule simulatedI) (use assms turn_step.flags in simp)

lemma simulated_step_finish: "simulated q inp (publish_step_finish inp reason u)"
  unfolding publish_step_finish_def
proof (intro simulated_seq simulated_flush)
  show "simulated q inp (change (\<lambda>s. s\<lparr>tn_active := False\<rparr>))"
    by (rule simulated_flags [where a = "\<lambda>s. False" and p = tn_provider_failed and z = tn_settlement]) (simp add: change_def)
  show "simulated q inp (\<lambda>s. if tn_settlement s \<noteq> None then die Duplicate_Finish s
           else change (\<lambda>s. s\<lparr>tn_settlement := Some (reason, tokens u)\<rparr>) s)"
    by (rule simulated_flags [where a = tn_active and p = tn_provider_failed
          and z = "\<lambda>s. if tn_settlement s \<noteq> None then tn_settlement s else Some (reason, tokens u)"])
      (simp add: change_def die_def)
qed

lemma simulated_publish: "simulated q inp (publish_llm_event inp paths e)"
proof (cases e)
  case (ProviderError msg c r md)
  have "simulated q inp (change (\<lambda>s. s\<lparr>tn_provider_failed := True\<rparr>))"
    by (rule simulated_flags [where a = tn_active and p = "\<lambda>s. True" and z = tn_settlement]) (simp add: change_def)
  with ProviderError show ?thesis by (auto intro: simulated_seq simulated_fail_assistant)
qed (simp_all add: simulated_ret simulated_text_start simulated_text_delta simulated_text_end simulated_reasoning_start
    simulated_reasoning_delta simulated_reasoning_end simulated_start_tool simulated_tool_delta simulated_end_tool simulated_call
    simulated_result simulated_error simulated_step_finish)

lemma simulated_end_step: "simulated q inp (end_step inp fin counts snap files)"
proof -
  let ?k = "\<lambda>m s. if tn_message s \<noteq> Some m then ret () s else (Inr (), published inp (StepEndedE m fin (JNum 0) counts snap files) s)"
  have "simulated q inp (?k m)" for m
    by (rule simulatedI) (auto simp: ret_def intro: turn_step.ended)
  then have "simulated q inp (bind (start_assistant inp) ?k)" by (intro simulated_bind simulated_start)
  moreover have "snd (end_step inp fin counts snap files s) = snd (bind (start_assistant inp) ?k s)" for s
    by (cases "tn_message s") (simp_all add: end_step_def start_assistant_def effects)
  ultimately show ?thesis by (simp add: simulated_def)
qed

fun permitted :: "bool \<Rightarrow> turn_call \<Rightarrow> bool" where
  \<comment> \<open>strictly: no call that fails tools which were not called yet\<close>
  "permitted q (Fail_Tools msg hosted) = (q \<longrightarrow> hosted)"
| "permitted q c = True"

lemma simulated_call_turn: "permitted q c \<Longrightarrow> simulated q inp (call_turn inp c)"
  by (cases c) (auto intro: simulated_publish simulated_flush simulated_fail_assistant simulated_fail_tools simulated_bind
      simulated_start simulated_ret simulated_end_step)

lemma run_calls_reachable:
  assumes "list_all (permitted q) cs"
  shows "(turn_step q inp)\<^sup>*\<^sup>* new_turn (run_calls inp cs) \<and> turn_ok (run_calls inp cs)"
proof -
  have "turn_ok s \<Longrightarrow> list_all (permitted q) cs \<Longrightarrow> (turn_step q inp)\<^sup>*\<^sup>* s (fold (\<lambda>c s. snd (call_turn inp c s)) cs s) \<and>
      turn_ok (fold (\<lambda>c s. snd (call_turn inp c s)) cs s)" for s
  proof (induction cs arbitrary: s)
    case (Cons c cs)
    obtain r s1 where c: "call_turn inp c s = (r, s1)" by fastforce
    have "permitted q c" using Cons.prems by simp
    note s1 = simulatedD [OF simulated_call_turn [OF this] Cons.prems(1) c]
    from Cons.IH [of s1] s1 c Cons.prems(2) show ?case by (auto intro: rtranclp_trans)
  qed simp
  from this [OF turn_ok_new assms] show ?thesis by (simp add: run_calls_def)
qed

lemma run_calls_ok: "turn_ok (run_calls inp cs)"
proof -
  have "list_all (permitted False) cs" by (induction cs) (auto, case_tac a, auto)
  from run_calls_reachable [OF this] show ?thesis by blast
qed

text \<open>An invariant of the small steps holds of every turn the calls produce.\<close>

lemma run_calls_strict_invariant:
  assumes "P new_turn" "\<And>s s'. turn_step q inp s s' \<Longrightarrow> turn_ok s \<Longrightarrow> P s \<Longrightarrow> P s'" "list_all (permitted q) cs"
  shows "P (run_calls inp cs)"
proof -
  have "(turn_step q inp)\<^sup>*\<^sup>* new_turn s \<Longrightarrow> P s \<and> turn_ok s" for s
    by (induction rule: rtranclp_induct) (auto intro: assms(1,2) turn_ok_new turn_ok_step)
  then show ?thesis using run_calls_reachable [OF assms(3)] by blast
qed

lemma run_calls_invariant:
  assumes "P new_turn" "\<And>s s'. turn_step False inp s s' \<Longrightarrow> turn_ok s \<Longrightarrow> P s \<Longrightarrow> P s'"
  shows "P (run_calls inp cs)"
proof -
  have "list_all (permitted False) cs" by (induction cs) (auto, case_tac a, auto)
  from run_calls_strict_invariant [of P False, OF assms this] show ?thesis .
qed

end
