(* ===== verification/TurnProps.thy ===== *)
theory TurnProps imports TurnSteps begin

text \<open>
  Every tool call of a turn is settled exactly once: the settlements published, counted, against the
  records the publisher keeps, and what \<open>failUnsettledTools\<close> leaves.
\<close>

fun starts :: "jstring \<Rightarrow> session_body \<Rightarrow> bool" where
  "starts i (ToolInputStartedE m j name) = (i = j)"
| "starts i b = False"

definition how_often :: "(session_body \<Rightarrow> bool) \<Rightarrow> session_event list \<Rightarrow> nat" where
  "how_often P evs = length (filter (\<lambda>e. P (se_body e)) evs)"

lemma times_simps [simp]: "how_often P [] = 0" "how_often P (xs @ ys) = how_often P xs + how_often P ys"
  "how_often P [e] = (if P (se_body e) then 1 else 0)"
  by (simp_all add: how_often_def)

definition counted :: "turn \<Rightarrow> bool" where
  \<comment> \<open>starts and settlements agree with the records\<close>
  "counted s \<longleftrightarrow> (\<forall>i. how_often (starts i) (tn_events s) = (if map_of (tn_tools s) i = None then 0 else 1) \<and>
    how_often (settles i) (tn_events s) = (case map_of (tn_tools s) i of Some t \<Rightarrow> if ut_settled t then 1 else 0 | None \<Rightarrow> 0))"

lemma settles_starts: "settles i b \<Longrightarrow> \<not> starts j b"
  by (cases b) auto

lemma settles_unique: "settles i b \<Longrightarrow> settles j b \<longleftrightarrow> j = i"
  by (cases b) auto

lemma counted_step: "turn_step q inp s s' \<Longrightarrow> counted s \<Longrightarrow> counted s'"
proof (induction rule: turn_step.induct)
  case (settled s i t b)
  then have "starts j b = False" "settles j b \<longleftrightarrow> j = i" for j using settles_starts settles_unique by blast+
  with settled show ?case by (auto simp: counted_def)
next
  case (input_start s m i name)
  then show ?case by (auto simp: counted_def tool_fresh_def)
qed (auto simp: counted_def)

lemma run_calls_counted: "counted (run_calls inp cs)"
proof (rule run_calls_invariant)
  show "counted new_turn" by (simp add: new_turn_def counted_def)
qed (rule counted_step)

section \<open>What is left after failing the unsettled tools\<close>

lemma fail_tool_settles:
  "fst (fail_tool inp msg False i s) = Inr () \<and> map_keys (tn_tools (snd (fail_tool inp msg False i s))) = map_keys (tn_tools s) \<and>
   (\<forall>j t. map_of (tn_tools (snd (fail_tool inp msg False i s))) j = Some t \<longrightarrow>
     ut_settled t \<or> j \<noteq> i \<and> map_of (tn_tools s) j = Some t)"
proof -
  have keys: "map_keys (map_set m i v) = map_keys m" if "map_of m i = Some u" for m :: "(jstring, turn_tool) jsmap" and u v
    using that by (induction m) auto
  show ?thesis by (auto simp: fail_tool_def set_tool_def effects keys split: option.split)
qed

lemma fail_each_settles:
  "fst (each (fail_tool inp msg False) ks s) = Inr () \<and> map_keys (tn_tools (snd (each (fail_tool inp msg False) ks s))) = map_keys (tn_tools s) \<and>
   (\<forall>j t. map_of (tn_tools (snd (each (fail_tool inp msg False) ks s))) j = Some t \<longrightarrow>
     ut_settled t \<or> j \<notin> set ks \<and> map_of (tn_tools s) j = Some t)"
proof (induction ks arbitrary: s)
  case Nil
  then show ?case by (simp add: ret_def)
next
  case (Cons i ks)
  obtain s1 where s1: "fail_tool inp msg False i s = (Inr (), s1)" using fail_tool_settles [of inp msg i s] by (metis prod.collapse)
  from fail_tool_settles [of inp msg i s] have f: "map_keys (tn_tools s1) = map_keys (tn_tools s)"
    "\<And>j t. map_of (tn_tools s1) j = Some t \<Longrightarrow> ut_settled t \<or> j \<noteq> i \<and> map_of (tn_tools s) j = Some t"
    by (auto simp: s1)
  have step: "each (fail_tool inp msg False) (i # ks) s = each (fail_tool inp msg False) ks s1" by (simp add: seq_def bind_def s1)
  show ?case unfolding step using Cons.IH [of s1] f by fastforce
qed

lemma fail_tools_settles:
  "map_of (tn_tools (snd (fail_unsettled_tools inp msg False s))) i = Some t \<Longrightarrow> ut_settled t"
proof -
  assume t: "map_of (tn_tools (snd (fail_unsettled_tools inp msg False s))) i = Some t"
  then have "ut_settled t \<or> i \<notin> set (map_keys (tn_tools s)) \<and> map_of (tn_tools s) i = Some t"
    using fail_each_settles [of inp msg "map_keys (tn_tools s)" s] by (simp add: fail_unsettled_tools_def)
  then show "ut_settled t" by (metis domI dom_map_of_conv_image_fst list.set_map)
qed

text \<open>C10. Whatever the calls to the publisher were, and whether or not some of them died: once the
  unsettled tools are failed, every tool call that was started has been started once and settled
  exactly once, and nothing else was settled.\<close>

theorem every_call_settles_once:
  "how_often (settles i) (tn_events (run_calls inp (cs @ [Fail_Tools msg False]))) =
     how_often (starts i) (tn_events (run_calls inp (cs @ [Fail_Tools msg False]))) \<and>
   how_often (starts i) (tn_events (run_calls inp (cs @ [Fail_Tools msg False]))) \<le> 1"
proof -
  let ?s = "run_calls inp (cs @ [Fail_Tools msg False])"
  have "ut_settled t" if "map_of (tn_tools ?s) i = Some t" for t
    using that fail_tools_settles by (simp add: run_calls_def)
  with run_calls_counted [of inp "cs @ [Fail_Tools msg False]"] show ?thesis
    by (auto simp: counted_def split: option.split)
qed

section \<open>The assistant fails at most once\<close>

fun fails :: "session_body \<Rightarrow> bool" where
  "fails (StepFailedE m msg) = True"
| "fails b = False"

lemma settles_fails: "settles i b \<Longrightarrow> \<not> fails b"
  by (cases b) auto

lemma failed_once: "how_often fails (tn_events (run_calls inp cs)) = (if tn_failed (run_calls inp cs) then 1 else 0)"
proof (rule run_calls_invariant)
  fix s s' assume "turn_step False inp s s'" "how_often fails (tn_events s) = (if tn_failed s then 1 else 0)"
  then show "how_often fails (tn_events s') = (if tn_failed s' then 1 else 0)"
    by (induction rule: turn_step.induct) (auto simp: settles_fails)
qed (simp add: new_turn_def)

end
