(* ===== verification/MessageUpdater.thy ===== *)
theory MessageUpdater imports SessionMessages begin

text \<open>
  The fold of session events into messages (packages/core/src/session/message-updater.ts): the
  \<open>Adapter\<close> interface is a record of operations over a store, \<open>update\<close> handles one event over any
  adapter, and \<open>memory\<close> is the adapter over a list of messages. Appending may fail (a row that exists
  already). The locale \<open>message_store\<close> states when an adapter behaves as the memory one.
\<close>

section \<open>Adapters\<close>

record 's adapter =
  get_current_assistant :: "'s \<Rightarrow> assistant_message option"
  get_assistant :: "jstring \<Rightarrow> 's \<Rightarrow> assistant_message option"
  get_current_shell :: "jstring \<Rightarrow> 's \<Rightarrow> shell_message option"
  update_assistant :: "assistant_message \<Rightarrow> 's \<Rightarrow> 's"
  update_shell :: "shell_message \<Rightarrow> 's \<Rightarrow> 's"
  append_message :: "session_message \<Rightarrow> 's \<Rightarrow> 's option"

fun update_last :: "('a \<Rightarrow> bool) \<Rightarrow> ('a \<Rightarrow> 'a) \<Rightarrow> 'a list \<Rightarrow> 'a list" where
  \<comment> \<open>\<open>findLast\<close> and a change of the element found\<close>
  "update_last P f [] = []"
| "update_last P f (x # xs) = (if \<exists>y \<in> set xs. P y then x # update_last P f xs else if P x then f x # xs else x # xs)"

definition memory_current_assistant :: "session_message list \<Rightarrow> assistant_message option" where
  "memory_current_assistant ms =
    (case find_last is_assistant ms of
       Some (AssistantMessage a) \<Rightarrow> if am_completed a = None then Some a else None
     | _ \<Rightarrow> None)"

definition memory_assistant :: "jstring \<Rightarrow> session_message list \<Rightarrow> assistant_message option" where
  "memory_assistant i ms = (case find_last (\<lambda>m. message_id m = i) ms of Some (AssistantMessage a) \<Rightarrow> Some a | _ \<Rightarrow> None)"

definition memory_shell :: "jstring \<Rightarrow> session_message list \<Rightarrow> shell_message option" where
  "memory_shell call ms = (case find_last (is_shell call) ms of Some (ShellMessage s) \<Rightarrow> Some s | _ \<Rightarrow> None)"

definition memory_update_assistant :: "assistant_message \<Rightarrow> session_message list \<Rightarrow> session_message list" where
  "memory_update_assistant a ms =
    update_last (\<lambda>m. message_id m = am_id a) (\<lambda>m. if is_assistant m then AssistantMessage a else m) ms"

definition memory_update_shell :: "shell_message \<Rightarrow> session_message list \<Rightarrow> session_message list" where
  "memory_update_shell s ms = update_last (is_shell (sh_call s)) (\<lambda>m. ShellMessage s) ms"

definition memory :: "session_message list adapter" where
  "memory = \<lparr>get_current_assistant = memory_current_assistant, get_assistant = memory_assistant,
     get_current_shell = memory_shell, update_assistant = memory_update_assistant,
     update_shell = memory_update_shell, append_message = (\<lambda>m ms. Some (ms @ [m]))\<rparr>"

section \<open>Changes of an assistant message\<close>

fun is_tool :: "jstring \<Rightarrow> assistant_content \<Rightarrow> bool" where
  "is_tool call (CTool t) = (ti_id t = call)"
| "is_tool call _ = False"

fun is_text :: "jstring \<Rightarrow> assistant_content \<Rightarrow> bool" where
  "is_text i (CText t) = (tx_id t = i)"
| "is_text i _ = False"

fun is_reasoning :: "jstring \<Rightarrow> assistant_content \<Rightarrow> bool" where
  "is_reasoning i (CReasoning r) = (rs_id r = i)"
| "is_reasoning i _ = False"

fun on_tool :: "(tool_item \<Rightarrow> tool_item) \<Rightarrow> assistant_content \<Rightarrow> assistant_content" where
  "on_tool f (CTool t) = CTool (f t)"
| "on_tool f c = c"

fun on_text :: "(text_item \<Rightarrow> text_item) \<Rightarrow> assistant_content \<Rightarrow> assistant_content" where
  "on_text f (CText t) = CText (f t)"
| "on_text f c = c"

fun on_reasoning :: "(reasoning_item \<Rightarrow> reasoning_item) \<Rightarrow> assistant_content \<Rightarrow> assistant_content" where
  "on_reasoning f (CReasoning r) = CReasoning (f r)"
| "on_reasoning f c = c"

definition edit_content :: "(assistant_content list \<Rightarrow> assistant_content list) \<Rightarrow> assistant_message \<Rightarrow> assistant_message" where
  "edit_content f a = a\<lparr>am_content := f (am_content a)\<rparr>"

definition latest_tool :: "jstring \<Rightarrow> (tool_item \<Rightarrow> tool_item) \<Rightarrow> assistant_message \<Rightarrow> assistant_message" where
  "latest_tool call f = edit_content (update_last (is_tool call) (on_tool f))"

definition latest_text :: "jstring \<Rightarrow> (text_item \<Rightarrow> text_item) \<Rightarrow> assistant_message \<Rightarrow> assistant_message" where
  "latest_text i f = edit_content (update_last (is_text i) (on_text f))"

definition latest_reasoning :: "jstring \<Rightarrow> (reasoning_item \<Rightarrow> reasoning_item) \<Rightarrow> assistant_message \<Rightarrow> assistant_message" where
  "latest_reasoning i f = edit_content (update_last (is_reasoning i) (on_reasoning f))"

definition push_content :: "assistant_content \<Rightarrow> assistant_message \<Rightarrow> assistant_message" where
  "push_content c = edit_content (\<lambda>cs. cs @ [c])"

definition settle_provider :: "bool \<Rightarrow> metadata option \<Rightarrow> tool_item \<Rightarrow> tool_provider" where
  "settle_provider executed md t =
    \<lparr>tp_executed = (executed \<or> (case ti_provider t of Some p \<Rightarrow> tp_executed p | None \<Rightarrow> False)),
      tp_metadata = Option.bind (ti_provider t) tp_metadata, tp_result_metadata = md\<rparr>"

definition tool_input_ended :: "jstring \<Rightarrow> tool_item \<Rightarrow> tool_item" where
  "tool_input_ended s t = (case ti_state t of Pending _ \<Rightarrow> t\<lparr>ti_state := Pending s\<rparr> | _ \<Rightarrow> t)"

definition tool_called :: "json \<Rightarrow> bool \<Rightarrow> metadata option \<Rightarrow> int \<Rightarrow> tool_item \<Rightarrow> tool_item" where
  "tool_called inp executed md now t =
    t\<lparr>ti_provider := Some \<lparr>tp_executed = executed, tp_metadata = md, tp_result_metadata = None\<rparr>, ti_ran := Some now,
      ti_state := Running inp (JObj []) []\<rparr>"

definition tool_progress :: "json \<Rightarrow> json list \<Rightarrow> tool_item \<Rightarrow> tool_item" where
  "tool_progress structured content t =
    (case ti_state t of Running inp _ _ \<Rightarrow> t\<lparr>ti_state := Running inp structured content\<rparr> | _ \<Rightarrow> t)"

definition tool_success :: "json \<Rightarrow> json list \<Rightarrow> jstring list option \<Rightarrow> json option \<Rightarrow> bool \<Rightarrow> metadata option \<Rightarrow> int \<Rightarrow> tool_item \<Rightarrow> tool_item" where
  "tool_success structured content paths result executed md now t =
    (case ti_state t of
       Running inp _ _ \<Rightarrow>
         t\<lparr>ti_provider := Some (settle_provider executed md t), ti_completed := Some now,
           ti_state := Completed inp structured content (case paths of Some ps \<Rightarrow> ps | None \<Rightarrow> []) result\<rparr>
     | _ \<Rightarrow> t)"

definition tool_failed :: "jstring \<Rightarrow> json option \<Rightarrow> bool \<Rightarrow> metadata option \<Rightarrow> int \<Rightarrow> tool_item \<Rightarrow> tool_item" where
  "tool_failed error result executed md now t =
    (case ti_state t of
       Pending _ \<Rightarrow>
         t\<lparr>ti_provider := Some (settle_provider executed md t), ti_completed := Some now,
           ti_state := Errored (JObj []) (JObj []) [] error result\<rparr>
     | Running inp structured content \<Rightarrow>
         t\<lparr>ti_provider := Some (settle_provider executed md t), ti_completed := Some now,
           ti_state := Errored inp structured content error result\<rparr>
     | _ \<Rightarrow> t)"

definition reasoning_ended :: "jstring \<Rightarrow> metadata option \<Rightarrow> int \<Rightarrow> reasoning_item \<Rightarrow> reasoning_item" where
  "reasoning_ended s md now r =
    r\<lparr>rs_text := s, rs_time := Some ((case rs_time r of Some (c, _) \<Rightarrow> c | None \<Rightarrow> now), Some now),
      rs_metadata := or_else md (rs_metadata r)\<rparr>"

definition present :: "jstring option \<Rightarrow> bool" where
  "present s \<longleftrightarrow> s \<noteq> None \<and> s \<noteq> Some []"

definition step_ended :: "int \<Rightarrow> jstring \<Rightarrow> json \<Rightarrow> token_counts \<Rightarrow> jstring option \<Rightarrow> jstring list option \<Rightarrow> assistant_message \<Rightarrow> assistant_message" where
  "step_ended now fin cost tokens snap files a =
    (let a1 = a\<lparr>am_completed := Some now, am_finish := Some fin, am_cost := Some cost, am_tokens := Some tokens\<rparr>
     in if present snap \<or> files \<noteq> None then
          a1\<lparr>am_snapshot := Some \<lparr>sn_start = Option.bind (am_snapshot a) sn_start, sn_end = snap, sn_files = files\<rparr>\<rparr>
        else a1)"

definition step_failed :: "int \<Rightarrow> jstring \<Rightarrow> assistant_message \<Rightarrow> assistant_message" where
  "step_failed now err a = a\<lparr>am_completed := Some now, am_finish := Some (lit ''error''), am_error := Some err\<rparr>"

definition new_assistant :: "jstring \<Rightarrow> jstring \<Rightarrow> json \<Rightarrow> jstring option \<Rightarrow> int \<Rightarrow> assistant_message" where
  "new_assistant i agent model snap now =
    \<lparr>am_id = i, am_agent = agent, am_model = model, am_content = [],
     am_snapshot = (if present snap then Some \<lparr>sn_start = snap, sn_end = None, sn_files = None\<rparr> else None),
     am_finish = None, am_cost = None, am_tokens = None, am_error = None, am_created = now, am_completed = None\<rparr>"

section \<open>One event\<close>

fun owned_recipe :: "int \<Rightarrow> session_body \<Rightarrow> (jstring \<times> (assistant_message \<Rightarrow> assistant_message)) option" where
  \<comment> \<open>the events that change one assistant message: its id and the recipe of the change\<close>
  "owned_recipe now (StepEndedE m fin cost tokens snap files) = Some (m, step_ended now fin cost tokens snap files)"
| "owned_recipe now (StepFailedE m err) = Some (m, step_failed now err)"
| "owned_recipe now (TextStartedE m i) = Some (m, push_content (CText \<lparr>tx_id = i, tx_text = []\<rparr>))"
| "owned_recipe now (TextDeltaE m i d) = Some (m, latest_text i (\<lambda>t. t\<lparr>tx_text := tx_text t @ d\<rparr>))"
| "owned_recipe now (TextEndedE m i s) = Some (m, latest_text i (\<lambda>t. t\<lparr>tx_text := s\<rparr>))"
| "owned_recipe now (ReasoningStartedE m i md) =
    Some (m, push_content (CReasoning \<lparr>rs_id = i, rs_text = [], rs_metadata = md, rs_time = Some (now, None)\<rparr>))"
| "owned_recipe now (ReasoningDeltaE m i d) = Some (m, latest_reasoning i (\<lambda>r. r\<lparr>rs_text := rs_text r @ d\<rparr>))"
| "owned_recipe now (ReasoningEndedE m i s md) = Some (m, latest_reasoning i (reasoning_ended s md now))"
| "owned_recipe now (ToolInputStartedE m call name) =
    Some (m, push_content (CTool \<lparr>ti_id = call, ti_name = name, ti_provider = None, ti_state = Pending [],
      ti_created = now, ti_ran = None, ti_completed = None\<rparr>))"
| "owned_recipe now (ToolInputEndedE m call s) = Some (m, latest_tool call (tool_input_ended s))"
| "owned_recipe now (ToolCalledE m call tool inp executed md) = Some (m, latest_tool call (tool_called inp executed md now))"
| "owned_recipe now (ToolProgressE m call structured content) = Some (m, latest_tool call (tool_progress structured content))"
| "owned_recipe now (ToolSuccessE m call structured content paths result executed md) =
    Some (m, latest_tool call (tool_success structured content paths result executed md now))"
| "owned_recipe now (ToolFailedE m call error result executed md) = Some (m, latest_tool call (tool_failed error result executed md now))"
| "owned_recipe now b = None"

fun appended :: "session_event \<Rightarrow> session_body \<Rightarrow> session_message option" where
  \<comment> \<open>the events that append a message and do nothing else\<close>
  "appended e (AgentSwitchedE i agent) = Some (AgentSwitchedMessage i (se_metadata e) (se_time e) agent)"
| "appended e (ModelSwitchedE i model) = Some (ModelSwitchedMessage i (se_metadata e) (se_time e) model)"
| "appended e (PromptedE i p d) = Some (UserMessage i (se_metadata e) (se_time e) p)"
| "appended e (ContextUpdatedE i s) = Some (SystemMessage i (se_time e) s)"
| "appended e (SyntheticE i s) = Some (SyntheticMessage i (se_time e) (se_session e) s)"
| "appended e (ShellStartedE i call cmd) = Some (ShellMessage \<lparr>sh_id = i, sh_metadata = se_metadata e, sh_call = call,
      sh_command = cmd, sh_output = [], sh_created = se_time e, sh_completed = None\<rparr>)"
| "appended e (CompactionEndedE i reason s recent) = Some (CompactionMessage i (se_metadata e) (se_time e) reason s recent)"
| "appended e b = None"

definition update_owned_assistant :: "'s adapter \<Rightarrow> jstring \<Rightarrow> (assistant_message \<Rightarrow> assistant_message) \<Rightarrow> 's \<Rightarrow> 's" where
  "update_owned_assistant ad m recipe st =
    (case get_assistant ad m st of None \<Rightarrow> st | Some a \<Rightarrow> update_assistant ad (recipe a) st)"

definition update :: "'s adapter \<Rightarrow> session_event \<Rightarrow> 's \<Rightarrow> 's option" where
  "update ad e st =
    (case se_body e of
       ShellEndedE call out \<Rightarrow>
         Some (case get_current_shell ad call st of
                 None \<Rightarrow> st
               | Some s \<Rightarrow> update_shell ad (s\<lparr>sh_output := out, sh_completed := Some (se_time e)\<rparr>) st)
     | StepStartedE m agent model snap \<Rightarrow>
         let st1 = (case get_current_assistant ad st of
                      None \<Rightarrow> st
                    | Some a \<Rightarrow> update_assistant ad (a\<lparr>am_completed := Some (se_time e)\<rparr>) st)
         in append_message ad (AssistantMessage (new_assistant m agent model snap (se_time e))) st1
     | b \<Rightarrow>
         (case appended e b of
            Some msg \<Rightarrow> append_message ad msg st
          | None \<Rightarrow>
              (case owned_recipe (se_time e) b of
                 Some (m, recipe) \<Rightarrow> Some (update_owned_assistant ad m recipe st)
               | None \<Rightarrow> Some st)))"

fun update_all :: "'s adapter \<Rightarrow> session_event list \<Rightarrow> 's \<Rightarrow> 's option" where
  "update_all ad [] st = Some st"
| "update_all ad (e # es) st = Option.bind (update ad e st) (update_all ad es)"

lemma update_all_append: "update_all ad (xs @ ys) st = Option.bind (update_all ad xs st) (update_all ad ys)"
proof (induction xs arbitrary: st)
  case (Cons e xs)
  then show ?case by (cases "update ad e st") auto
qed simp

section \<open>What the queries return\<close>

lemma find_last_SomeD: "find_last P xs = Some x \<Longrightarrow> x \<in> set xs \<and> P x"
  by (auto simp: find_last_Some_iff)

lemma memory_assistant_SomeD: "memory_assistant i ms = Some a \<Longrightarrow> AssistantMessage a \<in> set ms \<and> am_id a = i"
  by (auto simp: memory_assistant_def dest: find_last_SomeD split: option.splits session_message.splits)

lemma memory_current_SomeD: "memory_current_assistant ms = Some a \<Longrightarrow> AssistantMessage a \<in> set ms \<and> am_completed a = None"
  by (auto simp: memory_current_assistant_def dest: find_last_SomeD split: option.splits session_message.splits if_splits)

lemma memory_shell_SomeD: "memory_shell call ms = Some s \<Longrightarrow> ShellMessage s \<in> set ms \<and> sh_call s = call"
  by (auto simp: memory_shell_def dest: find_last_SomeD split: option.splits session_message.splits)

lemma owned_recipe_id: "owned_recipe now b = Some (m, recipe) \<Longrightarrow> am_id (recipe a) = am_id a"
  by (cases b) (auto simp: edit_content_def push_content_def latest_tool_def latest_text_def latest_reasoning_def
      step_ended_def step_failed_def Let_def)

section \<open>Stores that behave as the memory\<close>

text \<open>
  What \<open>update\<close> needs of a store to act on it as on the list of messages \<open>abs\<close> reads: the queries
  answer as the memory's, a change of a message a query returned acts as the memory's, and an append
  that succeeds appends.
\<close>

locale message_store =
  fixes ad :: "'s adapter" and abs :: "'s \<Rightarrow> session_message list" and inv :: "'s \<Rightarrow> bool"
  assumes current: "inv st \<Longrightarrow> get_current_assistant ad st = memory_current_assistant (abs st)"
    and assistant: "inv st \<Longrightarrow> get_assistant ad i st = memory_assistant i (abs st)"
    and shell: "inv st \<Longrightarrow> get_current_shell ad call st = memory_shell call (abs st)"
    and assistant_kept: "inv st \<Longrightarrow> AssistantMessage a0 \<in> set (abs st) \<Longrightarrow> am_id a = am_id a0 \<Longrightarrow>
      inv (update_assistant ad a st) \<and> abs (update_assistant ad a st) = memory_update_assistant a (abs st)"
    and shell_kept: "inv st \<Longrightarrow> memory_shell (sh_call s) (abs st) = Some s0 \<Longrightarrow> sh_id s = sh_id s0 \<Longrightarrow>
      inv (update_shell ad s st) \<and> abs (update_shell ad s st) = memory_update_shell s (abs st)"
    and message_appended: "inv st \<Longrightarrow> append_message ad m st = Some st' \<Longrightarrow> inv st' \<and> abs st' = abs st @ [m]"
begin

lemma owned_refines:
  assumes inv: "inv st" and keeps: "\<And>a. am_id (recipe a) = am_id a"
  shows "inv (update_owned_assistant ad i recipe st) \<and>
    abs (update_owned_assistant ad i recipe st) = update_owned_assistant memory i recipe (abs st)"
proof (cases "memory_assistant i (abs st)")
  case None
  with inv assistant [OF inv, of i] show ?thesis by (simp add: update_owned_assistant_def memory_def)
next
  case (Some a)
  have "AssistantMessage a \<in> set (abs st)" using memory_assistant_SomeD [OF Some] by blast
  from assistant_kept [OF inv this keeps] Some assistant [OF inv, of i]
  show ?thesis by (simp add: update_owned_assistant_def memory_def)
qed

lemma update_refines:
  assumes inv: "inv st" and run: "update ad e st = Some st'"
  shows "inv st' \<and> update memory e (abs st) = Some (abs st')"
proof -
  have app: "append_message ad m s = Some s' \<Longrightarrow> inv s \<Longrightarrow> inv s' \<and> append_message memory m (abs s) = Some (abs s')" for m s s'
    using message_appended by (simp add: memory_def)
  consider (shell_ended) call out where "se_body e = ShellEndedE call out"
    | (started) m agent model snap where "se_body e = StepStartedE m agent model snap"
    | (append) msg where "appended e (se_body e) = Some msg" "\<And>st. update ad e st = append_message ad msg st"
        "\<And>st. update memory e st = append_message memory msg st"
    | (owned) m recipe where "owned_recipe (se_time e) (se_body e) = Some (m, recipe)"
        "\<And>st. update ad e st = Some (update_owned_assistant ad m recipe st)"
        "\<And>st. update memory e st = Some (update_owned_assistant memory m recipe st)"
    | (none) "update ad e st = Some st" "update memory e (abs st) = Some (abs st)"
    by (cases "se_body e") (simp_all add: update_def)
  then show ?thesis
  proof cases
    case shell_ended
    show ?thesis
    proof (cases "memory_shell call (abs st)")
      case None
      with shell_ended run inv shell [OF inv, of call] show ?thesis by (simp add: update_def memory_def)
    next
      case (Some s)
      let ?s = "s\<lparr>sh_output := out, sh_completed := Some (se_time e)\<rparr>"
      have "memory_shell (sh_call ?s) (abs st) = Some s" using memory_shell_SomeD [OF Some] Some by simp
      from shell_kept [OF inv this] Some shell_ended run shell [OF inv, of call]
      show ?thesis by (simp add: update_def memory_def)
    qed
  next
    case started
    show ?thesis
    proof (cases "memory_current_assistant (abs st)")
      case None
      with started run current [OF inv] app [OF _ inv] show ?thesis by (simp add: update_def memory_def Let_def)
    next
      case (Some a)
      let ?a = "a\<lparr>am_completed := Some (se_time e)\<rparr>"
      have "AssistantMessage a \<in> set (abs st)" using memory_current_SomeD [OF Some] by blast
      from assistant_kept [OF inv this, of ?a] app [of _ "update_assistant ad ?a st" st'] started run Some current [OF inv]
      show ?thesis by (simp add: update_def memory_def Let_def)
    qed
  next
    case append
    with run app [OF _ inv] show ?thesis by simp
  next
    case owned
    have "am_id (recipe a) = am_id a" for a by (rule owned_recipe_id [OF owned(1)])
    from owned_refines [OF inv this, of m] owned run show ?thesis by simp
  next
    case none
    with run inv show ?thesis by simp
  qed
qed

lemma update_all_refines:
  "inv st \<Longrightarrow> update_all ad es st = Some st' \<Longrightarrow> inv st' \<and> update_all memory es (abs st) = Some (abs st')"
proof (induction es arbitrary: st)
  case (Cons e es)
  then obtain st1 where st1: "update ad e st = Some st1" "update_all ad es st1 = Some st'" by (cases "update ad e st") auto
  from update_refines [OF Cons.prems(1) st1(1)] Cons.IH [OF _ st1(2)] show ?case by simp
qed simp

end

interpretation memory_store: message_store memory "\<lambda>ms. ms" "\<lambda>ms. True"
  by unfold_locales (simp_all add: memory_def)

end
