(* ===== verification/TurnMessage.thy ===== *)
theory TurnMessage imports TurnProps MessageUpdater begin

text \<open>
  The assistant message the events of a turn make. Clients fold the live events, the database the
  durable ones alone: both give the same message as soon as no text or reasoning block is open. And
  the tools of the message stand where the publisher's records say.
\<close>

section \<open>Updates by key\<close>

datatype content_key = KText jstring | KReasoning jstring | KTool jstring

fun key :: "assistant_content \<Rightarrow> content_key" where
  "key (CText t) = KText (tx_id t)"
| "key (CReasoning r) = KReasoning (rs_id r)"
| "key (CTool t) = KTool (ti_id t)"

definition upd :: "content_key \<Rightarrow> (assistant_content \<Rightarrow> assistant_content) \<Rightarrow> assistant_content list \<Rightarrow> assistant_content list" where
  "upd k f = update_last (\<lambda>c. key c = k) f"

definition keeps_key :: "(assistant_content \<Rightarrow> assistant_content) \<Rightarrow> bool" where
  "keeps_key f \<longleftrightarrow> (\<forall>c. key (f c) = key c)"

lemma is_keys: "is_tool i = (\<lambda>c. key c = KTool i)" "is_text i = (\<lambda>c. key c = KText i)" "is_reasoning i = (\<lambda>c. key c = KReasoning i)"
  by (rule ext, case_tac c, auto)+

lemma latest_item_upd:
  "latest_tool i f = edit_content (upd (KTool i) (on_tool f))" "latest_text i g = edit_content (upd (KText i) (on_text g))"
  "latest_reasoning i h = edit_content (upd (KReasoning i) (on_reasoning h))"
  by (simp_all add: latest_tool_def latest_text_def latest_reasoning_def upd_def is_keys)

lemma update_last_keys: "keeps_key f \<Longrightarrow> map key (update_last P f cs) = map key cs"
  by (induction cs) (auto simp: keeps_key_def)

lemma upd_keys [simp]: "keeps_key f \<Longrightarrow> map key (upd k f cs) = map key cs"
  by (simp add: upd_def update_last_keys)

lemma upd_key_set: "keeps_key f \<Longrightarrow> (\<exists>c \<in> set (upd k f cs). key c = k') \<longleftrightarrow> (\<exists>c \<in> set cs. key c = k')"
  by (metis (mono_tags) imageE image_eqI list.set_map upd_keys)

lemma upd_Cons: "upd k f (c # cs) = (if \<exists>d \<in> set cs. key d = k then c # upd k f cs else if key c = k then f c # cs else c # cs)"
  by (simp add: upd_def)

lemma upd_Nil [simp]: "upd k f [] = []"
  by (simp add: upd_def)

lemma upd_commute:
  assumes "k \<noteq> l" "keeps_key f" "keeps_key g"
  shows "upd k f (upd l g cs) = upd l g (upd k f cs)"
proof (induction cs)
  case (Cons c cs)
  have k: "key (f x) = key x" "key (g x) = key x" for x using assms(2,3) by (simp_all add: keeps_key_def)
  show ?case using Cons assms(1) k by (auto simp: upd_Cons upd_key_set assms(2,3))
qed simp

lemma upd_upd:
  assumes "keeps_key f" "keeps_key g"
  shows "upd k f (upd k g cs) = upd k (f \<circ> g) cs"
proof (induction cs)
  case (Cons c cs)
  have k: "key (f x) = key x" "key (g x) = key x" for x using assms by (simp_all add: keeps_key_def)
  show ?case using Cons k by (auto simp: upd_Cons upd_key_set assms)
qed simp

lemma upd_append: "upd k f (cs @ [c]) = (if key c = k then cs @ [f c] else upd k f cs @ [c])"
  by (induction cs) (auto simp: upd_Cons)

section \<open>Filling in the open blocks\<close>

type_synonym fills = "(content_key \<times> (assistant_content \<Rightarrow> assistant_content)) list"

definition fill :: "fills \<Rightarrow> assistant_content list \<Rightarrow> assistant_content list" where
  "fill fs cs = fold (\<lambda>(k, f) cs. upd k f cs) fs cs"

definition fills_ok :: "fills \<Rightarrow> bool" where
  "fills_ok fs \<longleftrightarrow> distinct (map fst fs) \<and> (\<forall>f \<in> set (map snd fs). keeps_key f)"

lemma fill_simps [simp]: "fill [] cs = cs" "fill ((k, f) # fs) cs = fill fs (upd k f cs)" "fill (fs @ gs) cs = fill gs (fill fs cs)"
  by (simp_all add: fill_def)

lemma fill_upd:
  "fills_ok fs \<Longrightarrow> k \<notin> fst ` set fs \<Longrightarrow> keeps_key f \<Longrightarrow> fill fs (upd k f cs) = upd k f (fill fs cs)"
proof (induction fs arbitrary: cs)
  case (Cons lg fs)
  obtain l g where lg: "lg = (l, g)" by fastforce
  have ok: "keeps_key g" "fills_ok fs" "k \<noteq> l" "k \<notin> fst ` set fs" using Cons.prems lg by (auto simp: fills_ok_def)
  have "upd l g (upd k f cs) = upd k f (upd l g cs)" by (rule upd_commute) (use ok Cons.prems in auto)
  with Cons.IH [OF ok(2,4) Cons.prems(3)] lg show ?case by simp
qed simp

lemma fill_append: "fills_ok fs \<Longrightarrow> key c \<notin> fst ` set fs \<Longrightarrow> fill fs (cs @ [c]) = fill fs cs @ [c]"
proof (induction fs arbitrary: cs)
  case (Cons lg fs)
  then show ?case by (cases lg) (auto simp: upd_append fills_ok_def)
qed simp

lemma fill_extract:
  assumes ok: "fills_ok fs" and f: "(k, f) \<in> set fs"
  shows "fill fs cs = upd k f (fill (filter (\<lambda>p. fst p \<noteq> k) fs) cs)"
  using assms
proof (induction fs arbitrary: cs)
  case (Cons lg fs)
  obtain l g where lg: "lg = (l, g)" by fastforce
  have ok: "keeps_key g" "fills_ok fs" "l \<notin> fst ` set fs" using Cons.prems(1) lg by (auto simp: fills_ok_def)
  show ?case
  proof (cases "l = k")
    case True
    have f: "f = g" using Cons.prems True lg ok(3) by force
    have "\<forall>p \<in> set fs. fst p \<noteq> k" using ok(3) True by force
    then have "filter (\<lambda>p. fst p \<noteq> k) fs = fs" by (simp add: filter_id_conv)
    with True f lg ok fill_upd [OF ok(2), of k g cs] show ?thesis by simp
  next
    case False
    with Cons.prems lg have "(k, f) \<in> set fs" by auto
    from Cons.IH [OF ok(2) this, of "upd l g cs"] False lg show ?thesis by simp
  qed
qed simp

section \<open>The message of a turn\<close>

definition apply_owned :: "session_event \<Rightarrow> assistant_message \<Rightarrow> assistant_message" where
  "apply_owned e a = (case owned_recipe (se_time e) (se_body e) of Some (m, recipe) \<Rightarrow> recipe a | None \<Rightarrow> a)"

definition turn_body :: "jstring \<Rightarrow> session_body \<Rightarrow> bool" where
  \<comment> \<open>the events of a turn after its start: of its message, and those the updater ignores\<close>
  "turn_body m b \<longleftrightarrow> (\<forall>now. \<exists>recipe. owned_recipe now b = Some (m, recipe)) \<or> (\<exists>i d. b = ToolInputDeltaE m i d)"

definition durable :: "session_event \<Rightarrow> bool" where
  "durable e = durable_body (se_body e)"

definition set_text :: "jstring \<Rightarrow> assistant_content \<Rightarrow> assistant_content" where
  "set_text v = on_text (\<lambda>t. t\<lparr>tx_text := v\<rparr>)"

definition set_reasoning :: "jstring \<Rightarrow> assistant_content \<Rightarrow> assistant_content" where
  "set_reasoning v = on_reasoning (\<lambda>r. r\<lparr>rs_text := v\<rparr>)"

definition fills_of :: "turn \<Rightarrow> fills" where
  "fills_of s = map (\<lambda>(i, cur). (KText i, set_text (concat cur))) (tn_text s) @
     map (\<lambda>(i, cur). (KReasoning i, set_reasoning (concat cur))) (tn_reasoning s)"

lemma keeps_on [simp]:
  "(\<And>t. ti_id (f t) = ti_id t) \<Longrightarrow> keeps_key (on_tool f)" "(\<And>t. tx_id (g t) = tx_id t) \<Longrightarrow> keeps_key (on_text g)"
  "(\<And>r. rs_id (h r) = rs_id r) \<Longrightarrow> keeps_key (on_reasoning h)"
  unfolding keeps_key_def by (rule allI, case_tac c, simp_all)+

lemma keeps_set [simp]: "keeps_key (set_text v)" "keeps_key (set_reasoning v)"
  by (simp_all add: set_text_def set_reasoning_def)

lemma fst_fills: "map fst (fills_of s) = map KText (map fst (tn_text s)) @ map KReasoning (map fst (tn_reasoning s))"
  by (simp add: fills_of_def case_prod_beta comp_def)

lemma fills_of_ok: "turn_ok s \<Longrightarrow> fills_ok (fills_of s)"
proof -
  assume ok: "turn_ok s"
  have "distinct (map fst (tn_text s))" "distinct (map fst (tn_reasoning s))"
    using turn_okD(2,3) [OF ok] by (simp_all add: wf_map_def)
  then have "distinct (map KText (map fst (tn_text s)))" "distinct (map KReasoning (map fst (tn_reasoning s)))"
    by (simp_all only: distinct_map [of KText] distinct_map [of KReasoning]) (simp_all add: inj_on_def)
  then have "distinct (map fst (fills_of s))" unfolding fst_fills by auto
  then show ?thesis unfolding fills_ok_def by (auto simp: fills_of_def)
qed

lemma edit_edit [simp]: "edit_content f (edit_content g a) = edit_content (\<lambda>cs. f (g cs)) a"
  by (simp add: edit_content_def)

lemma edit_cong: "f (am_content a) = g (am_content a) \<Longrightarrow> edit_content f a = edit_content g a"
  by (simp add: edit_content_def)

lemma tool_keeps:
  "ti_id (tool_input_ended v t) = ti_id t" "ti_id (tool_called inp x md now t) = ti_id t" "ti_id (tool_failed e r x md now t) = ti_id t"
  "ti_id (tool_success st c p r x md now t) = ti_id t"
  by (auto simp: tool_input_ended_def tool_called_def tool_failed_def tool_success_def split: tool_state.split)

lemma not_filled: "KTool i \<notin> fst ` set (fills_of s)" "KText i \<in> fst ` set (fills_of s) \<longleftrightarrow> map_of (tn_text s) i \<noteq> None"
  "KReasoning i \<in> fst ` set (fills_of s) \<longleftrightarrow> map_of (tn_reasoning s) i \<noteq> None"
proof -
  have keys: "fst ` set (fills_of s) = KText ` fst ` set (tn_text s) \<union> KReasoning ` fst ` set (tn_reasoning s)"
    using arg_cong [OF fst_fills, of set s] by (simp add: image_comp [symmetric] del: map_map)
  show "KTool i \<notin> fst ` set (fills_of s)" "KText i \<in> fst ` set (fills_of s) \<longleftrightarrow> map_of (tn_text s) i \<noteq> None"
    "KReasoning i \<in> fst ` set (fills_of s) \<longleftrightarrow> map_of (tn_reasoning s) i \<noteq> None"
    unfolding keys map_of_eq_None_iff by auto
qed

lemma tool_commutes:
  assumes ok: "turn_ok s" and f: "\<And>t. ti_id (f t) = ti_id t"
  shows "latest_tool i f (edit_content (fill (fills_of s)) a) = edit_content (fill (fills_of s)) (latest_tool i f a)"
  using fill_upd [OF fills_of_ok [OF ok] not_filled(1), of "on_tool f" i "am_content a"] f
  by (simp add: latest_item_upd edit_content_def)

lemma push_commutes:
  assumes ok: "turn_ok s" and c: "key c \<notin> fst ` set (fills_of s)"
  shows "push_content c (edit_content (fill (fills_of s)) a) = edit_content (fill (fills_of s)) (push_content c a)"
  using fill_append [OF fills_of_ok [OF ok] c, of "am_content a"] by (simp add: push_content_def edit_content_def)

lemma failed_commutes: "step_failed now err (edit_content f a) = edit_content f (step_failed now err a)"
  by (simp add: step_failed_def edit_content_def)

section \<open>Live and durable agree up to the open blocks\<close>

lemma fills_cong: "tn_text s' = tn_text s \<Longrightarrow> tn_reasoning s' = tn_reasoning s \<Longrightarrow> fills_of s' = fills_of s"
  by (simp add: fills_of_def)

lemma fills_without_text: "filter (\<lambda>p. fst p \<noteq> KText i) (fills_of s) = fills_of (s\<lparr>tn_text := map_delete (tn_text s) i\<rparr>)"
  by (auto simp: fills_of_def AList.delete_eq filter_map comp_def case_prod_beta filter_id_conv intro!: arg_cong [where f = "map _"] filter_cong)

lemma fills_without_reasoning:
  "filter (\<lambda>p. fst p \<noteq> KReasoning i) (fills_of s) = fills_of (s\<lparr>tn_reasoning := map_delete (tn_reasoning s) i\<rparr>)"
  by (auto simp: fills_of_def AList.delete_eq filter_map comp_def case_prod_beta filter_id_conv intro!: arg_cong [where f = "map _"] filter_cong)

lemma fill_text_out:
  assumes ok: "turn_ok s" and cur: "map_of (tn_text s) i = Some cur"
  shows "fill (fills_of s) cs = upd (KText i) (set_text (concat cur)) (fill (fills_of (s\<lparr>tn_text := map_delete (tn_text s) i\<rparr>)) cs)"
proof -
  have "(KText i, set_text (concat cur)) \<in> set (fills_of s)"
    using map_of_SomeD [OF cur] by (auto simp: fills_of_def intro!: image_eqI [of _ _ "(i, cur)"])
  from fill_extract [OF fills_of_ok [OF ok] this] show ?thesis by (simp add: fills_without_text)
qed

lemma fill_reasoning_out:
  assumes ok: "turn_ok s" and cur: "map_of (tn_reasoning s) i = Some cur"
  shows "fill (fills_of s) cs =
    upd (KReasoning i) (set_reasoning (concat cur)) (fill (fills_of (s\<lparr>tn_reasoning := map_delete (tn_reasoning s) i\<rparr>)) cs)"
proof -
  have "(KReasoning i, set_reasoning (concat cur)) \<in> set (fills_of s)"
    using map_of_SomeD [OF cur] by (auto simp: fills_of_def intro!: image_eqI [of _ _ "(i, cur)"])
  from fill_extract [OF fills_of_ok [OF ok] this] show ?thesis by (simp add: fills_without_reasoning)
qed

lemma turn_ok_text:
  assumes ok: "turn_ok s" and m: "tn_message s \<noteq> None" "wf_map x"
  shows "turn_ok (s\<lparr>tn_text := x\<rparr>)"
  using ok m by (auto simp: turn_ok_def)

lemma turn_ok_reasoning:
  assumes ok: "turn_ok s" and m: "tn_message s \<noteq> None" "wf_map x"
  shows "turn_ok (s\<lparr>tn_reasoning := x\<rparr>)"
  using ok m by (auto simp: turn_ok_def)

lemma on_text_set [simp]: "on_text (\<lambda>t. t\<lparr>tx_text := tx_text t @ d\<rparr>) (set_text v c) = set_text (v @ d) c"
  "set_text w (set_text v c) = set_text w c"
  by (cases c; simp add: set_text_def)+

lemma on_reasoning_set [simp]: "on_reasoning (\<lambda>r. r\<lparr>rs_text := rs_text r @ d\<rparr>) (set_reasoning v c) = set_reasoning (v @ d) c"
  "on_reasoning (reasoning_ended w md now) (set_reasoning v c) = on_reasoning (reasoning_ended w md now) c"
  by (cases c; simp add: set_reasoning_def reasoning_ended_def)+

lemma comp_sets: "on_text (\<lambda>t. t\<lparr>tx_text := tx_text t @ d\<rparr>) \<circ> set_text v = set_text (v @ d)" "set_text w \<circ> set_text v = set_text w"
  "on_reasoning (\<lambda>r. r\<lparr>rs_text := rs_text r @ d\<rparr>) \<circ> set_reasoning v = set_reasoning (v @ d)"
  "on_reasoning (reasoning_ended w md now) \<circ> set_reasoning v = on_reasoning (reasoning_ended w md now)"
  by (rule ext, simp)+

lemma reasoning_ended_id [simp]: "rs_id (reasoning_ended w md now r) = rs_id r"
  by (simp add: reasoning_ended_def)

definition tracks :: "turn \<Rightarrow> turn \<Rightarrow> session_event \<Rightarrow> bool" where
  \<comment> \<open>after the event the live message is again the durable one with the open blocks filled in\<close>
  "tracks s s' e \<longleftrightarrow> (\<forall>dur. apply_owned e (edit_content (fill (fills_of s)) dur) =
     edit_content (fill (fills_of s')) (if durable e then apply_owned e dur else dur))"

lemma text_delta_tracks:
  assumes ok: "turn_ok s" and m: "tn_message s = Some m" and cur: "map_of (tn_text s) i = Some cur"
    and e: "se_body e = TextDeltaE m i t" and s': "tn_text s' = map_set (tn_text s) i (cur @ [t])" "tn_reasoning s' = tn_reasoning s"
  shows "tracks s s' e"
proof -
  let ?u = "s\<lparr>tn_text := map_set (tn_text s) i (cur @ [t])\<rparr>"
  have ok': "turn_ok ?u" by (rule turn_ok_text [OF ok]) (use m turn_okD(2) [OF ok] in auto)
  have "fill (fills_of ?u) cs = upd (KText i) (set_text (concat cur @ t)) (fill (fills_of (s\<lparr>tn_text := map_delete (tn_text s) i\<rparr>)) cs)" for cs
    using fill_text_out [OF ok', of i "cur @ [t]" cs] by (simp add: delete_update_same)
  moreover have "fills_of s' = fills_of ?u" by (rule fills_cong) (simp_all add: s')
  ultimately show ?thesis
    by (auto simp: tracks_def durable_def apply_owned_def e latest_item_upd fill_text_out [OF ok cur] upd_upd comp_sets intro!: edit_cong)
qed

lemma text_end_tracks:
  assumes ok: "turn_ok s" and cur: "map_of (tn_text s) i = Some cur"
    and e: "se_body e = TextEndedE m i (concat cur)" and s': "tn_text s' = map_delete (tn_text s) i" "tn_reasoning s' = tn_reasoning s"
    and ok': "turn_ok s'"
  shows "tracks s s' e"
proof -
  have f: "fills_of s' = fills_of (s\<lparr>tn_text := map_delete (tn_text s) i\<rparr>)" by (rule fills_cong) (simp_all add: s')
  have "KText i \<notin> fst ` set (fills_of s')" unfolding not_filled by (simp add: s')
  from fill_upd [OF fills_of_ok [OF ok'] this, of "set_text (concat cur)"]
  show ?thesis
    by (auto simp: tracks_def durable_def apply_owned_def e latest_item_upd fill_text_out [OF ok cur] f [symmetric] upd_upd comp_sets
        set_text_def [symmetric] intro!: edit_cong)
qed

lemma text_start_tracks:
  assumes ok: "turn_ok s" and cur: "map_of (tn_text s) i = None"
    and e: "se_body e = TextStartedE m i" and s': "tn_text s' = map_set (tn_text s) i []" "tn_reasoning s' = tn_reasoning s"
    and ok': "turn_ok s'"
  shows "tracks s s' e"
proof -
  let ?c = "CText \<lparr>tx_id = i, tx_text = []\<rparr>"
  have c': "map_of (tn_text s') i = Some []" by (simp add: s')
  have "fills_of (s'\<lparr>tn_text := map_delete (tn_text s') i\<rparr>) = fills_of s"
    using cur by (intro fills_cong) (simp_all add: s' delete_update_same map_of_eq_None_iff)
  then have "fill (fills_of s') (am_content dur @ [?c]) = fill (fills_of s) (am_content dur) @ [?c]" for dur :: assistant_message
    unfolding fill_text_out [OF ok' c'] using fill_append [OF fills_of_ok [OF ok], of ?c "am_content dur"] cur
    by (simp add: not_filled upd_append set_text_def)
  then show ?thesis
    by (auto simp: tracks_def durable_def apply_owned_def e push_content_def intro!: edit_cong)
qed

lemma reasoning_delta_tracks:
  assumes ok: "turn_ok s" and m: "tn_message s = Some m" and cur: "map_of (tn_reasoning s) i = Some cur"
    and e: "se_body e = ReasoningDeltaE m i t" and s': "tn_reasoning s' = map_set (tn_reasoning s) i (cur @ [t])" "tn_text s' = tn_text s"
  shows "tracks s s' e"
proof -
  let ?u = "s\<lparr>tn_reasoning := map_set (tn_reasoning s) i (cur @ [t])\<rparr>"
  have ok': "turn_ok ?u" by (rule turn_ok_reasoning [OF ok]) (use m turn_okD(3) [OF ok] in auto)
  have "fill (fills_of ?u) cs = upd (KReasoning i) (set_reasoning (concat cur @ t)) (fill (fills_of (s\<lparr>tn_reasoning := map_delete (tn_reasoning s) i\<rparr>)) cs)" for cs
    using fill_reasoning_out [OF ok', of i "cur @ [t]" cs] by (simp add: delete_update_same)
  moreover have "fills_of s' = fills_of ?u" by (rule fills_cong) (simp_all add: s')
  ultimately show ?thesis
    by (auto simp: tracks_def durable_def apply_owned_def e latest_item_upd fill_reasoning_out [OF ok cur] upd_upd comp_sets intro!: edit_cong)
qed

lemma reasoning_end_tracks:
  assumes ok: "turn_ok s" and cur: "map_of (tn_reasoning s) i = Some cur"
    and e: "se_body e = ReasoningEndedE m i (concat cur) md" and s': "tn_reasoning s' = map_delete (tn_reasoning s) i" "tn_text s' = tn_text s"
    and ok': "turn_ok s'"
  shows "tracks s s' e"
proof -
  let ?close = "on_reasoning (reasoning_ended (concat cur) md (se_time e))"
  have f: "fills_of s' = fills_of (s\<lparr>tn_reasoning := map_delete (tn_reasoning s) i\<rparr>)" by (rule fills_cong) (simp_all add: s')
  have "KReasoning i \<notin> fst ` set (fills_of s')" unfolding not_filled by (simp add: s')
  from fill_upd [OF fills_of_ok [OF ok'] this, of ?close]
  show ?thesis
    by (auto simp: tracks_def durable_def apply_owned_def e latest_item_upd fill_reasoning_out [OF ok cur] f [symmetric] upd_upd comp_sets
        intro!: edit_cong)
qed

lemma reasoning_start_tracks:
  assumes ok: "turn_ok s" and cur: "map_of (tn_reasoning s) i = None"
    and e: "se_body e = ReasoningStartedE m i md" and s': "tn_reasoning s' = map_set (tn_reasoning s) i []" "tn_text s' = tn_text s"
    and ok': "turn_ok s'"
  shows "tracks s s' e"
proof -
  let ?c = "CReasoning \<lparr>rs_id = i, rs_text = [], rs_metadata = md, rs_time = Some (se_time e, None)\<rparr>"
  have c': "map_of (tn_reasoning s') i = Some []" by (simp add: s')
  have "fills_of (s'\<lparr>tn_reasoning := map_delete (tn_reasoning s') i\<rparr>) = fills_of s"
    using cur by (intro fills_cong) (simp_all add: s' delete_update_same map_of_eq_None_iff)
  then have "fill (fills_of s') (am_content dur @ [?c]) = fill (fills_of s) (am_content dur) @ [?c]" for dur :: assistant_message
    unfolding fill_reasoning_out [OF ok' c'] using fill_append [OF fills_of_ok [OF ok], of ?c "am_content dur"] cur
    by (simp add: not_filled upd_append set_reasoning_def)
  then show ?thesis
    by (auto simp: tracks_def durable_def apply_owned_def e push_content_def intro!: edit_cong)
qed

lemma tool_tracks:
  assumes "turn_ok s" "fills_of s' = fills_of s" "owned_recipe (se_time e) (se_body e) = Some (m, latest_tool i f)" "\<And>t. ti_id (f t) = ti_id t"
    "durable e"
  shows "tracks s s' e"
  using tool_commutes [OF assms(1,4)] assms by (simp add: tracks_def apply_owned_def)

lemma push_tracks:
  assumes "turn_ok s" "fills_of s' = fills_of s" "owned_recipe (se_time e) (se_body e) = Some (m, push_content (CTool t))" "durable e"
  shows "tracks s s' e"
  using push_commutes [OF assms(1), of "CTool t"] assms by (simp add: tracks_def apply_owned_def not_filled)

lemma failed_tracks:
  assumes "fills_of s' = fills_of s" "owned_recipe (se_time e) (se_body e) = Some (m, step_failed (se_time e) msg)" "durable e"
  shows "tracks s s' e"
  using assms by (simp add: tracks_def apply_owned_def failed_commutes)

lemma step_ended_commutes: "step_ended now fin cost counts snap files (edit_content f a) = edit_content f (step_ended now fin cost counts snap files a)"
  by (simp add: step_ended_def edit_content_def Let_def)

lemma ended_tracks:
  assumes "fills_of s' = fills_of s" "owned_recipe (se_time e) (se_body e) = Some (m, step_ended (se_time e) fin cost counts snap files)" "durable e"
  shows "tracks s s' e"
  using assms by (simp add: tracks_def apply_owned_def step_ended_commutes)

lemma step_tracks:
  assumes "turn_step q inp s s'" "turn_ok s" "tn_message s = Some m"
  shows "tn_message s' = Some m \<and>
    (tn_events s' = tn_events s \<and> fills_of s' = fills_of s \<or>
     (\<exists>e. tn_events s' = tn_events s @ [e] \<and> turn_body m (se_body e) \<and> tracks s s' e))"
  using assms
proof (induction rule: turn_step.induct)
  case (start s)
  then show ?case by simp
next
  case (flags s a p z)
  then show ?case by (simp add: fills_of_def)
next
  case (text_start s m' i)
  then show ?case by (auto simp: turn_body_def intro!: text_start_tracks turn_step.text_start [where q = q, THEN turn_ok_step])
next
  case (text_delta s m' i cur t)
  then show ?case by (auto simp: turn_body_def intro!: text_delta_tracks)
next
  case (text_end s m' i cur)
  then show ?case by (auto simp: turn_body_def intro!: text_end_tracks turn_step.text_end [where q = q, THEN turn_ok_step])
next
  case (reasoning_start s m' i md)
  then show ?case by (auto simp: turn_body_def intro!: reasoning_start_tracks turn_step.reasoning_start [where q = q, THEN turn_ok_step])
next
  case (reasoning_delta s m' i cur t)
  then show ?case by (auto simp: turn_body_def intro!: reasoning_delta_tracks)
next
  case (reasoning_end s m' i cur md)
  then show ?case by (auto simp: turn_body_def intro!: reasoning_end_tracks turn_step.reasoning_end [where q = q, THEN turn_ok_step])
next
  case (input_start s m' i name)
  then show ?case by (auto simp: turn_body_def durable_def intro!: push_tracks fills_cong)
next
  case (input_delta s i t cur x)
  then have "ut_message t = m" using turn_okD(8) [of s i t] by simp
  moreover have "fills_of (published inp (ToolInputDeltaE m i x) (s\<lparr>tn_input := map_set (tn_input s) i (cur @ [x])\<rparr>)) = fills_of s"
    by (rule fills_cong) simp_all
  ultimately show ?case using input_delta by (auto simp: turn_body_def tracks_def apply_owned_def)
next
  case (input_end s i t cur)
  then have "ut_message t = m" using turn_okD(8) [of s i t] by simp
  with input_end show ?case
    by (auto simp: turn_body_def durable_def tool_keeps intro!: tool_tracks fills_cong)
next
  case (called s i t name v x md)
  then have "ut_message t = m" using turn_okD(8) [of s i t] by simp
  with called show ?case
    by (auto simp: turn_body_def durable_def tool_keeps intro!: tool_tracks fills_cong)
next
  case (settled s i t b)
  then have "ut_message t = m" using turn_okD(8) [of s i t] by simp
  with settled show ?case
    by (cases b) (auto simp: turn_body_def durable_def tool_keeps intro!: tool_tracks fills_cong)
next
  case (failed s m' msg)
  then show ?case by (auto simp: turn_body_def durable_def intro!: failed_tracks fills_cong)
next
  case (ended s m' fin cost counts snap files)
  then show ?case by (auto simp: turn_body_def durable_def intro!: ended_tracks fills_cong)
qed

section \<open>Folding the events of a turn\<close>

lemma update_last_snoc [simp]: "P x \<Longrightarrow> update_last P f (xs @ [x]) = xs @ [f x]"
  by (induction xs) auto

lemma apply_owned_id [simp]: "am_id (apply_owned e a) = am_id a"
  by (auto simp: apply_owned_def owned_recipe_id split: option.split)

lemma update_turn_body:
  assumes "turn_body (am_id a) (se_body e)"
  shows "update memory e (ms @ [AssistantMessage a]) = Some (ms @ [AssistantMessage (apply_owned e a)])"
proof (cases "\<exists>i d. se_body e = ToolInputDeltaE (am_id a) i d")
  case True
  then show ?thesis by (auto simp: update_def apply_owned_def)
next
  case False
  then obtain recipe where r: "owned_recipe (se_time e) (se_body e) = Some (am_id a, recipe)"
    using assms False unfolding turn_body_def by blast
  have "update memory e st = Some (update_owned_assistant memory (am_id a) recipe st)" for st
    using r by (cases "se_body e") (simp_all add: update_def)
  moreover have "memory_assistant (am_id a) (ms @ [AssistantMessage a]) = Some a"
    by (simp add: memory_assistant_def find_last_append)
  ultimately show ?thesis
    using owned_recipe_id [OF r, of a] r
    by (simp add: update_owned_assistant_def memory_def memory_update_assistant_def apply_owned_def)
qed

lemma update_all_turn:
  "(\<And>e. e \<in> set es \<Longrightarrow> turn_body (am_id a) (se_body e)) \<Longrightarrow>
    update_all memory es (ms @ [AssistantMessage a]) = Some (ms @ [AssistantMessage (fold apply_owned es a)])"
proof (induction es arbitrary: a)
  case (Cons e es)
  from Cons.IH [of "apply_owned e a"] Cons.prems update_turn_body [of a e ms] show ?case by simp
qed simp

definition turn_start :: "turn_input \<Rightarrow> session_event \<Rightarrow> bool" where
  "turn_start inp e \<longleftrightarrow> se_body e = StepStartedE (tu_message inp) (tu_agent inp) (tu_model inp) (tu_snapshot inp)"

definition fresh_message :: "turn_input \<Rightarrow> session_event \<Rightarrow> assistant_message" where
  "fresh_message inp e = new_assistant (tu_message inp) (tu_agent inp) (tu_model inp) (tu_snapshot inp) (se_time e)"

definition before_turn :: "int \<Rightarrow> session_message list \<Rightarrow> session_message list" where
  \<comment> \<open>the step that starts completes the assistant message before it\<close>
  "before_turn now ms = (case memory_current_assistant ms of
     None \<Rightarrow> ms
   | Some a \<Rightarrow> memory_update_assistant (a\<lparr>am_completed := Some now\<rparr>) ms)"

lemma update_turn_start:
  "turn_start inp e \<Longrightarrow> update memory e ms = Some (before_turn (se_time e) ms @ [AssistantMessage (fresh_message inp e)])"
  by (simp add: turn_start_def update_def before_turn_def fresh_message_def memory_def Let_def split: option.split)

definition turn_log :: "turn_input \<Rightarrow> turn \<Rightarrow> session_event \<Rightarrow> session_event list \<Rightarrow> bool" where
  \<comment> \<open>the published events of a turn that started, and the two messages they make\<close>
  "turn_log inp s e0 es \<longleftrightarrow> tn_message s = Some (tu_message inp) \<and> tn_events s = e0 # es \<and> turn_start inp e0 \<and>
     (\<forall>e \<in> set es. turn_body (tu_message inp) (se_body e)) \<and>
     fold apply_owned es (fresh_message inp e0) =
       edit_content (fill (fills_of s)) (fold apply_owned (filter durable es) (fresh_message inp e0))"

lemma step_log:
  assumes step: "turn_step q inp s s'" and ok: "turn_ok s" and log: "turn_log inp s e0 es"
  shows "turn_log inp s' e0 es \<or> (\<exists>e. turn_log inp s' e0 (es @ [e]))"
proof -
  have m: "tn_message s = Some (tu_message inp)" using log by (simp add: turn_log_def)
  from step_tracks [OF step ok m] show ?thesis
  proof (elim conjE disjE exE)
    assume "tn_message s' = Some (tu_message inp)" "tn_events s' = tn_events s" "fills_of s' = fills_of s"
    with log show ?thesis by (simp add: turn_log_def)
  next
    fix e assume e: "tn_message s' = Some (tu_message inp)" "tn_events s' = tn_events s @ [e]" "turn_body (tu_message inp) (se_body e)" "tracks s s' e"
    with log have "turn_log inp s' e0 (es @ [e])" by (auto simp: turn_log_def tracks_def)
    then show ?thesis by blast
  qed
qed

lemma run_calls_log:
  "tn_events (run_calls inp cs) = [] \<or> (\<exists>e0 es. turn_log inp (run_calls inp cs) e0 es)"
proof -
  let ?P = "\<lambda>s. tn_message s = None \<and> tn_events s = [] \<or> (\<exists>e0 es. turn_log inp s e0 es)"
  have "?P (run_calls inp cs)"
  proof (rule run_calls_invariant)
    show "?P new_turn" by (simp add: new_turn_def)
    fix s s' assume step: "turn_step False inp s s'" and ok: "turn_ok s" and P: "?P s"
    show "?P s'"
    proof (cases "\<exists>e0 es. turn_log inp s e0 es")
      case True
      then show ?thesis using step_log [OF step ok] by blast
    next
      case False
      with P have none: "tn_message s = None" "tn_events s = []" by auto
      with turn_okD(10) [OF ok] have fills: "fills_of s = []" by (simp add: fills_of_def)
      have tool: "map_of (tn_tools s) i = None" for i
        using turn_okD(8) [OF ok, of i] none(1) by (cases "map_of (tn_tools s) i") auto
      from step show ?thesis
      proof cases
        case start
        let ?e = "\<lparr>se_metadata = None, se_session = tu_session inp, se_time = tu_clock inp 0,
          se_body = StepStartedE (tu_message inp) (tu_agent inp) (tu_model inp) (tu_snapshot inp)\<rparr>"
        have "fills_of s' = fills_of s" by (rule fills_cong) (simp_all add: start)
        then have "turn_log inp s' ?e []" using start none fills
          by (simp add: turn_log_def turn_start_def edit_content_def)
        then show ?thesis by blast
      qed (use none tool in simp_all)
    qed
  qed
  then show ?thesis by blast
qed

lemma live_and_durable:
  assumes "tn_text (run_calls inp cs) = []" "tn_reasoning (run_calls inp cs) = []"
  shows "update_all memory (filter durable (tn_events (run_calls inp cs))) ms = update_all memory (tn_events (run_calls inp cs)) ms"
  using run_calls_log [of inp cs]
proof (elim disjE exE)
  fix e0 es assume log: "turn_log inp (run_calls inp cs) e0 es"
  then have evs: "tn_events (run_calls inp cs) = e0 # es" and e0: "turn_start inp e0" "durable e0"
    and body: "\<And>e. e \<in> set es \<Longrightarrow> turn_body (am_id (fresh_message inp e0)) (se_body e)"
    and same: "fold apply_owned es (fresh_message inp e0) = fold apply_owned (filter durable es) (fresh_message inp e0)"
    using assms by (auto simp: turn_log_def fills_of_def turn_start_def durable_def fresh_message_def new_assistant_def edit_content_def)
  have "update_all memory es (before_turn (se_time e0) ms @ [AssistantMessage (fresh_message inp e0)]) =
      update_all memory (filter durable es) (before_turn (se_time e0) ms @ [AssistantMessage (fresh_message inp e0)])"
    using update_all_turn [of es "fresh_message inp e0"] update_all_turn [of "filter durable es" "fresh_message inp e0"] body same by simp
  with evs e0 update_turn_start [OF e0(1), of ms] show ?thesis by simp
qed simp

end
