(* ===== verification/TurnOutcome.thy ===== *)
theory TurnOutcome imports TurnMessage begin

text \<open>
  What a turn leaves in the history: after a flush the durable events alone make the message the
  clients saw, and after failing the unsettled tools no tool of the message is left waiting.
\<close>

section \<open>Flushing closes the blocks\<close>

lemma each_keeps:
  assumes "\<And>x s. x \<in> set xs \<Longrightarrow> Q s \<Longrightarrow> Q (snd (f x s))" "Q s"
  shows "Q (snd (each f xs s))"
  using assms
proof (induction xs arbitrary: s)
  case (Cons x xs)
  have "Q (snd (f x s))" using Cons.prems by simp
  with Cons.IH [of "snd (f x s)"] Cons.prems(1) show ?case
    by (cases "f x s") (auto simp: seq_def bind_def split: sum.split)
qed (simp add: ret_def)

lemma end_reasoning_text: "tn_text (snd (fragment_end inp reasoning_fragments i md s)) = tn_text s"
  and end_input_text: "tn_text (snd (fragment_end inp input_fragments i md s)) = tn_text s"
  and end_input_reasoning: "tn_reasoning (snd (fragment_end inp input_fragments i md s)) = tn_reasoning s"
  by (auto simp: fragment_end_def reasoning_fragments_def input_fragments_def current_assistant_def with_tool_def set_tool_def effects
      split: option.split)

lemma delete_first: "distinct (i # ks) \<Longrightarrow> map_keys m = i # ks \<Longrightarrow> map_keys (map_delete m i) = ks"
proof -
  assume d: "distinct (i # ks)" and m: "map_keys m = i # ks"
  then obtain v m' where m': "m = (i, v) # m'" "map_keys m' = ks" by (cases m) auto
  with d have "map_delete m' i = m'" by (simp add: AList.delete_eq filter_id_conv) force
  with m' show ?thesis by simp
qed

lemma flush_text:
  "turn_ok s \<Longrightarrow> map_keys (tn_text s) = ks \<Longrightarrow> \<exists>s'. each (\<lambda>i. fragment_end inp text_fragments i None) ks s = (Inr (), s') \<and>
    turn_ok s' \<and> tn_text s' = [] \<and> map_keys (tn_reasoning s') = map_keys (tn_reasoning s) \<and> tn_message s' = tn_message s"
proof (induction ks arbitrary: s)
  case Nil
  then show ?case by (simp add: ret_def)
next
  case (Cons i ks)
  from Cons.prems obtain cur where cur: "map_of (tn_text s) i = Some cur" by (cases "tn_text s") auto
  obtain m where m: "tn_message s = Some m" using turn_okD(10) [OF Cons.prems(1)] Cons.prems(2) by (cases "tn_message s") auto
  let ?s1 = "published inp (TextEndedE m i (concat cur)) (s\<lparr>tn_text := map_delete (tn_text s) i\<rparr>)"
  have step: "fragment_end inp text_fragments i None s = (Inr (), ?s1)"
    using cur m by (simp add: fragment_end_def text_fragments_def current_assistant_def effects)
  have ok1: "turn_ok ?s1" by (rule turn_ok_step [OF turn_step.text_end [where q = False, OF m cur] Cons.prems(1)])
  have "map_keys (tn_text ?s1) = ks"
    using delete_first [of i ks "tn_text s"] turn_okD(2) [OF Cons.prems(1)] Cons.prems(2) by (simp add: wf_map_def)
  from Cons.IH [OF ok1 this] step show ?case by (auto simp: seq_def bind_def)
qed

lemma flush_reasoning:
  "turn_ok s \<Longrightarrow> map_keys (tn_reasoning s) = ks \<Longrightarrow> \<exists>s'. each (\<lambda>i. fragment_end inp reasoning_fragments i None) ks s = (Inr (), s') \<and>
    turn_ok s' \<and> tn_reasoning s' = [] \<and> tn_text s' = tn_text s"
proof (induction ks arbitrary: s)
  case Nil
  then show ?case by (simp add: ret_def)
next
  case (Cons i ks)
  from Cons.prems obtain cur where cur: "map_of (tn_reasoning s) i = Some cur" by (cases "tn_reasoning s") auto
  obtain m where m: "tn_message s = Some m" using turn_okD(10) [OF Cons.prems(1)] Cons.prems(2) by (cases "tn_message s") auto
  let ?s1 = "published inp (ReasoningEndedE m i (concat cur) None) (s\<lparr>tn_reasoning := map_delete (tn_reasoning s) i\<rparr>)"
  have step: "fragment_end inp reasoning_fragments i None s = (Inr (), ?s1)"
    using cur m by (simp add: fragment_end_def reasoning_fragments_def current_assistant_def effects)
  have ok1: "turn_ok ?s1" by (rule turn_ok_step [OF turn_step.reasoning_end [where q = False, OF m cur] Cons.prems(1)])
  have "map_keys (tn_reasoning ?s1) = ks"
    using delete_first [of i ks "tn_reasoning s"] turn_okD(3) [OF Cons.prems(1)] Cons.prems(2) by (simp add: wf_map_def)
  from Cons.IH [OF ok1 this] step show ?case by (auto simp: seq_def bind_def)
qed

lemma flush_closes:
  assumes "turn_ok s"
  shows "tn_text (snd (flush inp s)) = [] \<and> tn_reasoning (snd (flush inp s)) = []"
proof -
  obtain s1 where s1: "each (\<lambda>i. fragment_end inp text_fragments i None) (map_keys (tn_text s)) s = (Inr (), s1)" "turn_ok s1" "tn_text s1 = []"
    using flush_text [OF assms refl] by blast
  obtain s2 where s2: "each (\<lambda>i. fragment_end inp reasoning_fragments i None) (map_keys (tn_reasoning s1)) s1 = (Inr (), s2)"
      "tn_reasoning s2 = []" "tn_text s2 = tn_text s1"
    using flush_reasoning [OF s1(2) refl] by blast
  have "snd (flush inp s) = snd (each (\<lambda>i. fragment_end inp input_fragments i None) (map_keys (tn_input s2)) s2)"
    using s1 s2 by (simp add: flush_def fragment_flush_def seq_def bind_def text_fragments_def reasoning_fragments_def input_fragments_def)
  moreover have "tn_text (snd (each (\<lambda>i. fragment_end inp input_fragments i None) ks s2)) = [] \<and>
      tn_reasoning (snd (each (\<lambda>i. fragment_end inp input_fragments i None) ks s2)) = []" for ks
    by (rule each_keeps) (use s1 s2 in \<open>auto simp: end_input_text end_input_reasoning\<close>)
  ultimately show ?thesis by simp
qed

text \<open>C11. However the provider's stream went and wherever it stopped: once the publisher is flushed, the
  durable events of the turn, which leave out every streamed fragment, make the same messages as the live
  events the clients follow, over any history.\<close>

theorem durable_events_suffice:
  "update_all memory (filter durable (tn_events (run_calls inp (cs @ [Flush])))) ms =
   update_all memory (tn_events (run_calls inp (cs @ [Flush]))) ms"
proof -
  from flush_closes [OF run_calls_ok [of inp cs], of inp] show ?thesis by (intro live_and_durable) (simp_all add: run_calls_def)
qed

section \<open>The tools of the message\<close>

fun tools_in :: "assistant_content list \<Rightarrow> tool_item list" where
  "tools_in [] = []"
| "tools_in (CTool t # cs) = t # tools_in cs"
| "tools_in (c # cs) = tools_in cs"

fun waiting :: "tool_state \<Rightarrow> bool" where
  "waiting (Pending s) = True"
| "waiting (Running i s c) = True"
| "waiting s = False"

fun pending_state :: "tool_state \<Rightarrow> bool" where
  "pending_state (Pending s) = True"
| "pending_state s = False"

definition item_of :: "jstring \<times> turn_tool \<Rightarrow> tool_item \<Rightarrow> bool" where
  \<comment> \<open>the item of the message and the publisher's record of a call\<close>
  "item_of p t \<longleftrightarrow> ti_id t = fst p \<and> ti_name t = ut_name (snd p) \<and> (waiting (ti_state t) \<longleftrightarrow> \<not> ut_settled (snd p)) \<and>
    (waiting (ti_state t) \<longrightarrow> (pending_state (ti_state t) \<longleftrightarrow> \<not> ut_called (snd p)))"

lemma tools_in_append [simp]: "tools_in (xs @ ys) = tools_in xs @ tools_in ys"
  by (induction xs rule: tools_in.induct) auto

lemma tools_in_set: "t \<in> set (tools_in cs) \<longleftrightarrow> CTool t \<in> set cs"
  by (induction cs rule: tools_in.induct) auto

lemma tools_in_other: "(\<And>c. \<not> (\<exists>t. f c = CTool t \<and> (\<forall>t'. c \<noteq> CTool t'))) \<Longrightarrow> (\<And>t. f (CTool t) = CTool t) \<Longrightarrow>
    tools_in (update_last P f cs) = tools_in cs"
proof (induction cs)
  case (Cons c cs)
  then show ?case by (cases c; cases "f c") auto
qed simp

lemma upd_none: "\<forall>c \<in> set cs. key c \<noteq> k \<Longrightarrow> upd k f cs = cs"
  by (induction cs) (auto simp: upd_Cons)

lemma upd_other: "key c \<noteq> k \<Longrightarrow> upd k f (c # cs) = c # upd k f cs"
  using upd_none [of cs k f] by (auto simp: upd_Cons)

lemma tools_in_upd:
  assumes "distinct (map ti_id (tools_in cs))" "\<And>t. ti_id (f t) = ti_id t"
  shows "tools_in (upd (KTool i) (on_tool f) cs) = map (\<lambda>t. if ti_id t = i then f t else t) (tools_in cs)"
  using assms(1)
proof (induction cs rule: tools_in.induct)
  case (2 t cs)
  have ex: "(\<exists>c \<in> set cs. key c = KTool i) \<longleftrightarrow> i \<in> ti_id ` set (tools_in cs)"
  proof -
    have "key c = KTool i \<longleftrightarrow> (\<exists>t. c = CTool t \<and> ti_id t = i)" for c by (cases c) auto
    then show ?thesis by (auto simp: tools_in_set image_iff)
  qed
  show ?case
  proof (cases "ti_id t = i")
    case True
    with 2 have "i \<notin> ti_id ` set (tools_in cs)" by auto
    moreover from this have "map (\<lambda>t. if ti_id t = i then f t else t) (tools_in cs) = tools_in cs" by (intro map_idI) auto
    ultimately show ?thesis using True ex by (simp add: upd_Cons)
  next
    case False
    with 2 show ?thesis by (simp add: upd_other)
  qed
qed (auto simp: upd_other)

lemma items_ids: "list_all2 item_of m ts \<Longrightarrow> map ti_id ts = map_keys m"
  by (induction m ts rule: list_all2_induct) (auto simp: item_of_def)

lemma items_updated:
  assumes "list_all2 item_of m ts" "wf_map m" "map_of m i = Some t" "\<And>x. item_of (i, t) x \<Longrightarrow> item_of (i, t') (f x)"
  shows "list_all2 item_of (map_set m i t') (map (\<lambda>x. if ti_id x = i then f x else x) ts)"
  using assms(1-3)
proof (induction m ts rule: list_all2_induct)
  case (Cons p m x ts)
  obtain k v where p: "p = (k, v)" by fastforce
  have x: "ti_id x = k" using Cons.hyps(1) p by (simp add: item_of_def)
  show ?case
  proof (cases "k = i")
    case True
    have "map (\<lambda>x. if ti_id x = i then f x else x) ts = ts"
    proof (rule map_idI)
      fix y assume "y \<in> set ts"
      then have "ti_id y \<in> set (map_keys m)" unfolding items_ids [OF Cons.hyps(2), symmetric] by simp
      with Cons.prems(1) p True have "ti_id y \<noteq> i" by (auto simp: wf_map_def)
      then show "(if ti_id y = i then f y else y) = y" by simp
    qed
    moreover have "item_of (i, t') (f x)" using Cons.hyps(1) Cons.prems(2) p True assms(4) by simp
    ultimately show ?thesis using p True x Cons.hyps(2) by simp
  next
    case False
    have "wf_map m" "map_of m i = Some t" using Cons.prems p False by (simp_all add: wf_map_def)
    with Cons.IH p False x Cons.hyps(1) show ?thesis by simp
  qed
qed simp

definition tools_match :: "turn \<Rightarrow> assistant_message \<Rightarrow> bool" where
  "tools_match s a \<longleftrightarrow> list_all2 item_of (tn_tools s) (tools_in (am_content a))"

lemma items_distinct: "list_all2 item_of m ts \<Longrightarrow> wf_map m \<Longrightarrow> distinct (map ti_id ts)"
proof -
  assume m: "list_all2 item_of m ts" "wf_map m"
  from items_ids [OF m(1)] m(2) show ?thesis by (simp add: wf_map_def)
qed

lemma latest_tool_match:
  assumes ok: "turn_ok s" and m: "tools_match s a" and t: "map_of (tn_tools s) i = Some t"
    and f: "\<And>x. ti_id (f x) = ti_id x" "\<And>x. item_of (i, t) x \<Longrightarrow> item_of (i, t') (f x)"
    and s': "tn_tools s' = map_set (tn_tools s) i t'"
  shows "tools_match s' (latest_tool i f a)"
proof -
  have w: "wf_map (tn_tools s)" using turn_okD(1) [OF ok] .
  have l: "list_all2 item_of (tn_tools s) (tools_in (am_content a))" using m by (simp add: tools_match_def)
  have "tools_in (am_content (latest_tool i f a)) = map (\<lambda>x. if ti_id x = i then f x else x) (tools_in (am_content a))"
    using tools_in_upd [OF items_distinct [OF l w], of f i] f(1) by (simp add: latest_item_upd edit_content_def)
  with items_updated [OF l w t, of t' f, OF f(2)] show ?thesis by (simp add: tools_match_def s')
qed

fun tool_event :: "session_body \<Rightarrow> bool" where
  "tool_event (ToolInputStartedE m i n) = True"
| "tool_event (ToolInputEndedE m i v) = True"
| "tool_event (ToolCalledE m i n v x md) = True"
| "tool_event (ToolProgressE m i v c) = True"
| "tool_event (ToolSuccessE m i v c p r x md) = True"
| "tool_event (ToolFailedE m i e r x md) = True"
| "tool_event b = False"

lemma other_match:
  assumes "tools_match s a" "\<not> tool_event (se_body e)" "tn_tools s' = tn_tools s"
  shows "tools_match s' (apply_owned e a)"
proof -
  have o: "on_text f c = CTool t \<Longrightarrow> c = CTool t" "on_reasoning g c = CTool t \<Longrightarrow> c = CTool t" for f g c t by (cases c; simp)+
  have t: "tools_in (update_last P (on_text f) cs) = tools_in cs" for P f cs by (rule tools_in_other) (auto dest: o)
  have r: "tools_in (update_last P (on_reasoning g) cs) = tools_in cs" for P g cs by (rule tools_in_other) (auto dest: o)
  have "tools_in (am_content (apply_owned e a)) = tools_in (am_content a)"
    using assms(2) by (cases "se_body e") (simp_all add: apply_owned_def latest_text_def latest_reasoning_def push_content_def edit_content_def
        step_failed_def step_ended_def Let_def t r)
  with assms show ?thesis by (simp add: tools_match_def)
qed

lemma match_same: "tools_match s a \<Longrightarrow> tn_tools s' = tn_tools s \<Longrightarrow> tools_match s' a"
  by (simp add: tools_match_def)

lemma ended_item: "item_of (i, t) x \<Longrightarrow> item_of (i, t\<lparr>ut_ended := True\<rparr>) (tool_input_ended v x)"
  by (cases "ti_state x") (auto simp: item_of_def tool_input_ended_def)

lemma called_item:
  "item_of (i, t) x \<Longrightarrow> \<not> ut_settled t \<Longrightarrow>
    item_of (i, t\<lparr>ut_called := True, ut_executed := y, ut_metadata := md\<rparr>) (tool_called v y md' now x)"
  by (auto simp: item_of_def tool_called_def)

lemma failed_item: "item_of (i, t) x \<Longrightarrow> \<not> ut_settled t \<Longrightarrow> item_of (i, t\<lparr>ut_settled := True\<rparr>) (tool_failed e r y md now x)"
  by (cases "ti_state x") (auto simp: item_of_def tool_failed_def)

lemma success_item:
  "item_of (i, t) x \<Longrightarrow> \<not> ut_settled t \<Longrightarrow> ut_called t \<Longrightarrow> item_of (i, t\<lparr>ut_settled := True\<rparr>) (tool_success st c p r y md now x)"
  by (cases "ti_state x") (auto simp: item_of_def tool_success_def)

definition settled_called :: "turn \<Rightarrow> bool" where
  "settled_called s \<longleftrightarrow> (\<forall>i t. map_of (tn_tools s) i = Some t \<longrightarrow> ut_settled t \<longrightarrow> ut_called t)"

lemma settled_called_step: "turn_step True inp s s' \<Longrightarrow> settled_called s \<Longrightarrow> settled_called s'"
  by (induction rule: turn_step.induct) (auto simp: settled_called_def tool_fresh_def)

fun calls_tool :: "session_body \<Rightarrow> bool" where
  "calls_tool (ToolCalledE m i name v x md) = True"
| "calls_tool b = False"

definition no_late_call :: "turn \<Rightarrow> turn \<Rightarrow> bool" where
  \<comment> \<open>no tool is called that was settled before\<close>
  "no_late_call s s' \<longleftrightarrow> settled_called s \<or> tn_events s' = [] \<or> \<not> calls_tool (se_body (last (tn_events s')))"

lemma step_match:
  assumes "turn_step True inp s s'" "turn_ok s" "tn_message s \<noteq> None" "tools_match s a" "no_late_call s s'"
  shows "\<exists>evs. tn_events s' = tn_events s @ evs \<and> tools_match s' (fold apply_owned (filter durable evs) a)"
  using assms
proof (induction rule: turn_step.induct)
  case (flags s x p z)
  then show ?case by (intro exI [of _ "[]"]) (simp add: tools_match_def)
next
  case (input_start s m i name)
  let ?item = "\<lambda>now. \<lparr>ti_id = i, ti_name = name, ti_provider = None, ti_state = Pending [],
      ti_created = now, ti_ran = None, ti_completed = None\<rparr>"
  have "tn_tools (published inp b (s\<lparr>tn_tools := map_set (tn_tools s) i (tool_fresh m name), tn_input := x\<rparr>)) = tn_tools s @ [(i, tool_fresh m name)]" for b x
    using input_start(2) by (simp add: map_set_fresh map_of_eq_None_iff)
  moreover have "item_of (i, tool_fresh m name) (?item now)" for now by (simp add: item_of_def tool_fresh_def)
  ultimately show ?case using input_start
    by (auto simp: durable_def apply_owned_def tools_match_def push_content_def edit_content_def list_all2_appendI)
next
  case (input_end s i t cur)
  then show ?case
    by (auto simp: durable_def apply_owned_def intro!: latest_tool_match [where t = t] ended_item tool_keeps)
next
  case (called s i t name v y md)
  then have "\<not> ut_settled t" by (auto simp: settled_called_def no_late_call_def)
  with called show ?case
    by (auto simp: durable_def apply_owned_def intro!: latest_tool_match [where t = t] called_item tool_keeps)
next
  case (settled s i t b)
  then show ?case
    by (cases b) (auto simp: durable_def apply_owned_def intro!: latest_tool_match [where t = t] failed_item success_item tool_keeps)
qed (auto simp: durable_def intro: other_match match_same)

definition message_of :: "turn_input \<Rightarrow> turn \<Rightarrow> assistant_message" where
  \<comment> \<open>the message the durable events of a turn make\<close>
  "message_of inp s = fold apply_owned (filter durable (tl (tn_events s))) (fresh_message inp (hd (tn_events s)))"

definition turn_match :: "turn_input \<Rightarrow> turn \<Rightarrow> bool" where
  "turn_match inp s \<longleftrightarrow> (tn_events s = [] \<longrightarrow> tn_tools s = [] \<and> tn_message s = None) \<and>
     (tn_events s \<noteq> [] \<longrightarrow> tn_message s \<noteq> None \<and> tools_match s (message_of inp s))"

lemma turn_match_grow:
  assumes "turn_match inp s" "tn_events s \<noteq> []" "tn_events s' = tn_events s @ evs" "tn_message s' = tn_message s"
    "tools_match s' (fold apply_owned (filter durable evs) (message_of inp s))"
  shows "turn_match inp s'"
  using assms by (auto simp: turn_match_def message_of_def)

lemma step_turn_match:
  assumes step: "turn_step True inp s s'" and ok: "turn_ok s" and m: "turn_match inp s" "no_late_call s s'"
  shows "turn_match inp s'"
proof (cases "tn_events s = []")
  case True
  with m have none: "tn_message s = None" "tn_tools s = []" by (simp_all add: turn_match_def)
  with turn_okD(10) [OF ok] have "tn_text s = []" "tn_reasoning s = []" by auto
  from step show ?thesis
    by cases (use True none \<open>tn_text s = []\<close> \<open>tn_reasoning s = []\<close> in \<open>auto simp: turn_match_def message_of_def tools_match_def
        fresh_message_def new_assistant_def\<close>)
next
  case False
  with m(1) have "tn_message s \<noteq> None" "tools_match s (message_of inp s)" by (simp_all add: turn_match_def)
  from step_match [OF step ok this m(2)] obtain evs where evs: "tn_events s' = tn_events s @ evs"
    "tools_match s' (fold apply_owned (filter durable evs) (message_of inp s))" by blast
  have "tn_message s' = tn_message s" using step \<open>tn_message s \<noteq> None\<close> by (cases rule: turn_step.cases) simp_all
  from turn_match_grow [OF m(1) False evs(1) this evs(2)] show ?thesis .
qed

lemma strict_turn_match: "list_all (permitted True) cs \<Longrightarrow> turn_match inp (run_calls inp cs)"
proof -
  assume cs: "list_all (permitted True) cs"
  have "turn_match inp (run_calls inp cs) \<and> settled_called (run_calls inp cs)"
    by (rule run_calls_strict_invariant [OF _ _ cs])
      (auto intro: step_turn_match settled_called_step simp: no_late_call_def, auto simp: turn_match_def settled_called_def new_turn_def)
  then show ?thesis by blast
qed

lemma fail_tool_match:
  assumes ok: "turn_ok s" and m: "turn_match inp s"
  shows "turn_ok (snd (fail_tool inp msg hosted i s)) \<and> turn_match inp (snd (fail_tool inp msg hosted i s))"
proof (cases "\<exists>t. map_of (tn_tools s) i = Some t \<and> \<not> ut_settled t \<and> (hosted \<longrightarrow> ut_executed t)")
  case False
  then have "snd (fail_tool inp msg hosted i s) = s" by (auto simp: fail_tool_def ret_def split: option.split)
  with ok m show ?thesis by simp
next
  case True
  then obtain t where t: "map_of (tn_tools s) i = Some t" "\<not> ut_settled t" "hosted \<longrightarrow> ut_executed t" by blast
  let ?b = "ToolFailedE (ut_message t) i msg None (ut_executed t) (ut_metadata t)"
  let ?s = "published inp ?b (s\<lparr>tn_tools := map_set (tn_tools s) i (t\<lparr>ut_settled := True\<rparr>)\<rparr>)"
  have s': "snd (fail_tool inp msg hosted i s) = ?s" using t by (auto simp: fail_tool_def set_tool_def effects)
  have step: "turn_step False inp s ?s" by (rule turn_step.settled [OF t(1,2)]) simp_all
  have ne: "tn_events s \<noteq> []" using m t(1) by (auto simp: turn_match_def)
  have "tools_match ?s (apply_owned \<lparr>se_metadata = None, se_session = tu_session inp,
      se_time = tu_clock inp (length (tn_events s)), se_body = ?b\<rparr> (message_of inp s))"
    using m ne t by (auto simp: turn_match_def apply_owned_def intro!: latest_tool_match [OF ok, where t = t] failed_item tool_keeps)
  then have "turn_match inp ?s"
    by (intro turn_match_grow [OF m ne, where evs = "[\<lparr>se_metadata = None, se_session = tu_session inp,
        se_time = tu_clock inp (length (tn_events s)), se_body = ?b\<rparr>]"]) (simp_all add: durable_def)
  with turn_ok_step [OF step ok] show ?thesis by (simp add: s')
qed

lemma fail_tools_match:
  assumes "turn_ok s" "turn_match inp s"
  shows "turn_match inp (snd (fail_unsettled_tools inp msg hosted s))"
proof -
  have "(turn_ok s' \<and> turn_match inp s')" if "s' = snd (fail_unsettled_tools inp msg hosted s)" for s'
    unfolding that fail_unsettled_tools_def
    by (rule each_keeps [where Q = "\<lambda>s. turn_ok s \<and> turn_match inp s"]) (use fail_tool_match assms in blast)+
  then show ?thesis by blast
qed

text \<open>Whatever happened in the turn before, as long as the tools that are not the provider's own are failed
  at its end only: the history then holds at most one message of the turn, none of whose tools is pending
  or running, with one item for each call the publisher recorded.\<close>

theorem no_tool_is_left_waiting:
  assumes "list_all (permitted True) cs" "s = run_calls inp (cs @ [Fail_Tools msg False])"
  shows "update_all memory (filter durable (tn_events s)) [] =
      Some (if tn_events s = [] then [] else [AssistantMessage (message_of inp s)]) \<and>
    map ti_id (tools_in (if tn_events s = [] then [] else am_content (message_of inp s))) = map_keys (tn_tools s) \<and>
    (tn_events s \<noteq> [] \<longrightarrow> (\<forall>t. CTool t \<in> set (am_content (message_of inp s)) \<longrightarrow> \<not> waiting (ti_state t)))"
proof -
  have m: "turn_match inp s"
    using fail_tools_match [OF run_calls_ok strict_turn_match [OF assms(1)], of inp msg False] assms(2) by (simp add: run_calls_def)
  have settled: "ut_settled t" if "map_of (tn_tools s) i = Some t" for i t
    using that fail_tools_settles assms(2) by (simp add: run_calls_def)
  show ?thesis
  proof (cases "tn_events s = []")
    case True
    with m show ?thesis by (simp add: turn_match_def)
  next
    case False
    from m False have l: "list_all2 item_of (tn_tools s) (tools_in (am_content (message_of inp s)))"
      by (simp add: turn_match_def tools_match_def)
    have "\<not> waiting (ti_state x)" if "CTool x \<in> set (am_content (message_of inp s))" for x
    proof -
      have "x \<in> set (tools_in (am_content (message_of inp s)))" using that by (simp add: tools_in_set)
      then obtain k where k: "k < length (tn_tools s)" "item_of (tn_tools s ! k) x"
        using l by (auto simp: list_all2_conv_all_nth in_set_conv_nth)
      have "wf_map (tn_tools s)" unfolding assms(2) by (rule turn_okD(1) [OF run_calls_ok])
      then have "map_of (tn_tools s) (fst (tn_tools s ! k)) = Some (snd (tn_tools s ! k))"
        using k(1) by (simp add: wf_map_get_iff)
      from settled [OF this] k(2) show ?thesis by (simp add: item_of_def)
    qed
    moreover obtain e0 es where log: "turn_log inp s e0 es" using run_calls_log assms(2) False by blast
    then have "update_all memory (filter durable (e0 # es)) [] = Some [AssistantMessage (message_of inp s)]"
      using update_turn_start [of inp e0 "[]"] update_all_turn [of "filter durable es" "fresh_message inp e0" "before_turn (se_time e0) []"]
      by (auto simp: turn_log_def turn_start_def durable_def message_of_def fresh_message_def new_assistant_def before_turn_def
          memory_current_assistant_def)
    ultimately show ?thesis using False log items_ids [OF l] by (simp add: turn_log_def)
  qed
qed

definition demo_input :: turn_input where
  "demo_input = \<lparr>tu_session = lit ''s'', tu_agent = lit ''build'', tu_model = JNull, tu_snapshot = None, tu_message = lit ''m'',
     tu_clock = int\<rparr>"

definition demo_calls :: "turn_call list" where
  "demo_calls = [Llm (TextStart (lit ''t'') None) [], Llm (TextDelta (lit ''t'') (lit ''Hi'') None) [],
     Llm (ToolInputStart (lit ''a'') (lit ''read'') None) [], Llm (ToolCall (lit ''a'') (lit ''read'') (JObj []) None None) []]"

lemma no_tool_is_left_waiting_witness:
  "\<exists>a t. update_all memory (filter durable (tn_events (run_calls demo_input (demo_calls @ [Fail_Tools (lit ''stop'') False])))) [] =
      Some [AssistantMessage a] \<and> tools_in (am_content a) = [t] \<and> ti_id t = lit ''a'' \<and> \<not> waiting (ti_state t)"
proof -
  let ?s = "run_calls demo_input (demo_calls @ [Fail_Tools (lit ''stop'') False])"
  have ok: "list_all (permitted True) demo_calls" by code_simp
  have ne: "tn_events ?s \<noteq> []" by code_simp
  have keys: "map_keys (tn_tools ?s) = [lit ''a'']" by code_simp
  note facts = no_tool_is_left_waiting [OF ok refl, of demo_input "lit ''stop''"]
  have "map ti_id (tools_in (am_content (message_of demo_input ?s))) = [lit ''a'']"
    using facts [THEN conjunct2, THEN conjunct1] ne keys by simp
  then obtain t where t: "tools_in (am_content (message_of demo_input ?s)) = [t]" "ti_id t = lit ''a''" by auto
  then have "t \<in> set (tools_in (am_content (message_of demo_input ?s)))" by simp
  then have "CTool t \<in> set (am_content (message_of demo_input ?s))" unfolding tools_in_set .
  then have "\<not> waiting (ti_state t)" using facts [THEN conjunct2, THEN conjunct2] ne by blast
  with facts [THEN conjunct1] ne t show ?thesis by auto
qed

section \<open>A call that is failed before it comes\<close>

definition two_calls :: "turn_call list" where
  \<comment> \<open>two calls arrive one after the other in a turn whose tools are disabled: the runner fails the unsettled
     tools at each\<close>
  "two_calls = [Llm (ToolInputStart (lit ''a'') (lit ''read'') None) [], Llm (ToolInputStart (lit ''b'') (lit ''read'') None) [],
     Llm (ToolCall (lit ''a'') (lit ''read'') (JObj []) None None) [], Fail_Tools (lit ''disabled'') False,
     Llm (ToolCall (lit ''b'') (lit ''read'') (JObj []) None None) [], Fail_Tools (lit ''disabled'') False]"

text \<open>When the unsettled tools are failed while the input of a call is still streaming, the call that follows
  sets the failed tool running again, and no later failure settles it: the history keeps a running tool.\<close>

theorem early_failure_leaves_a_running_tool:
  "\<exists>a t. update_all memory (filter durable (tn_events (run_calls demo_input (two_calls @ [Flush, Fail_Tools (lit ''interrupted'') False])))) [] =
      Some [AssistantMessage a] \<and> CTool t \<in> set (am_content a) \<and> ti_id t = lit ''b'' \<and> waiting (ti_state t)"
proof -
  let ?evs = "filter durable (tn_events (run_calls demo_input (two_calls @ [Flush, Fail_Tools (lit ''interrupted'') False])))"
  let ?r = "case update_all memory ?evs [] of Some [AssistantMessage a] \<Rightarrow> Some (map (\<lambda>t. (ti_id t, waiting (ti_state t))) (tools_in (am_content a))) | _ \<Rightarrow> None"
  have "?r = Some [(lit ''a'', False), (lit ''b'', True)]" by code_simp
  then obtain a where a: "update_all memory ?evs [] = Some [AssistantMessage a]"
      "map (\<lambda>t. (ti_id t, waiting (ti_state t))) (tools_in (am_content a)) = [(lit ''a'', False), (lit ''b'', True)]"
    by (auto split: option.split_asm list.split_asm session_message.split_asm)
  from a(2) obtain y t where t: "tools_in (am_content a) = [y, t]" "ti_id t = lit ''b''" "waiting (ti_state t)" by auto
  then have "t \<in> set (tools_in (am_content a))" by simp
  then have "CTool t \<in> set (am_content a)" unfolding tools_in_set .
  with a(1) t show ?thesis by blast
qed

end
