(* ===== verification/ToolPairing.thy ===== *)
theory ToolPairing imports LlmMessages TurnOutcome begin

text \<open>
  What a provider asks of the messages of a request: each tool call is answered, by the provider itself in
  the same message or by the tool messages that follow, in the order of the calls. The translated history has
  this form exactly when no tool of it is pending or running, which is what settling a turn brings about.
\<close>

section \<open>Answered calls\<close>

fun local_calls :: "llm_content list \<Rightarrow> jstring list" where
  "local_calls [] = []"
| "local_calls (CallContent i n v e md # cs) = (if e = Some True then local_calls cs else i # local_calls cs)"
| "local_calls (c # cs) = local_calls cs"

fun hosted_answered :: "llm_content list \<Rightarrow> bool" where
  "hosted_answered [] = True"
| "hosted_answered (CallContent i n v e md # ResultContent j n' r e' md' # cs) =
    (e = Some True \<and> j = i \<and> hosted_answered cs)"
| "hosted_answered (CallContent i n v e md # cs) = (e \<noteq> Some True \<and> hosted_answered cs)"
| "hosted_answered (ResultContent i n r e md # cs) = False"
| "hosted_answered (c # cs) = hosted_answered cs"

fun result_id :: "llm_content \<Rightarrow> jstring option" where
  "result_id (ResultContent i n r e md) = Some i"
| "result_id c = None"

fun answered :: "jstring list \<Rightarrow> llm_message list \<Rightarrow> bool" where
  \<comment> \<open>the calls that wait for their result, and the messages to come\<close>
  "answered open [] = (open = [])"
| "answered open (m # ms) =
    (if lm_role m = Tool_Role then
       (case open of [] \<Rightarrow> False | i # rest \<Rightarrow> map result_id (lm_content m) = [Some i] \<and> answered rest ms)
     else open = [] \<and> hosted_answered (lm_content m) \<and> answered (local_calls (lm_content m)) ms)"

definition no_waiting :: "session_message list \<Rightarrow> bool" where
  "no_waiting ms \<longleftrightarrow> (\<forall>a t. AssistantMessage a \<in> set ms \<longrightarrow> CTool t \<in> set (am_content a) \<longrightarrow> \<not> waiting (ti_state t))"

section \<open>The parts of an assistant message\<close>

definition starts_result :: "llm_content list \<Rightarrow> bool" where
  "starts_result cs \<longleftrightarrow> (case cs of c # _ \<Rightarrow> result_id c \<noteq> None | [] \<Rightarrow> False)"

definition parts :: "(jstring \<Rightarrow> json option) \<Rightarrow> bool \<Rightarrow> bool \<Rightarrow> assistant_content list \<Rightarrow> llm_content list" where
  "parts parse same reuse cs = filter meaningful (concat (map (assistant_part parse same reuse) cs))"

lemma parts_simps [simp]:
  "parts parse same reuse [] = []"
  "parts parse same reuse (c # cs) = filter meaningful (assistant_part parse same reuse c) @ parts parse same reuse cs"
  by (simp_all add: parts_def)

lemma result_part_waiting: "waiting (ti_state t) \<Longrightarrow> tool_result_part t md = None"
  by (cases "ti_state t") (simp_all add: tool_result_part_def)

lemma result_part_ready:
  "\<not> waiting (ti_state t) \<Longrightarrow> \<exists>r. tool_result_part t md = Some (ResultContent (ti_id t) (ti_name t) r (executed_of t) md)"
  by (cases "ti_state t") (simp_all add: tool_result_part_def)

lemma parts_start: "\<not> starts_result (parts parse same reuse cs)"
proof (induction cs)
  case (Cons c cs)
  then show ?case
    by (cases c) (auto simp: starts_result_def tool_call_part_def Let_def split: option.split)
qed (simp add: starts_result_def)

lemma hosted_answered_call:
  "\<not> starts_result cs \<Longrightarrow> hosted_answered (CallContent i n v e md # cs) \<longleftrightarrow> e \<noteq> Some True \<and> hosted_answered cs"
proof (cases cs)
  case (Cons c cs')
  then show "\<not> starts_result cs \<Longrightarrow> ?thesis" by (cases c) (auto simp: starts_result_def)
qed simp

lemma hosted_answered_parts:
  "hosted_answered (parts parse same reuse cs) \<longleftrightarrow> (\<forall>t \<in> set (tools_in cs). hosted t \<longrightarrow> \<not> waiting (ti_state t))"
proof (induction cs)
  case (Cons c cs)
  note start = parts_start [of parse same reuse cs]
  show ?case
  proof (cases c)
    case (CTool t)
    show ?thesis
    proof (cases "hosted t \<and> \<not> waiting (ti_state t)")
      case True
      with result_part_ready [of t "if reuse then result_metadata t else None"] Cons CTool show ?thesis
        by (auto simp: tool_call_part_def hosted_def Let_def)
    next
      case False
      with CTool Cons start show ?thesis
        by (auto simp: tool_call_part_def hosted_answered_call hosted_def Let_def result_part_waiting)
    qed
  qed (use Cons in auto)
qed simp

lemma local_calls_append: "local_calls (xs @ ys) = local_calls xs @ local_calls ys"
  by (induction xs rule: local_calls.induct) auto

lemma local_calls_parts:
  "local_calls (parts parse same reuse cs) = map ti_id (filter (\<lambda>t. \<not> hosted t) (tools_in cs))"
proof (induction cs)
  case (Cons c cs)
  show ?case
  proof (cases c)
    case (CTool t)
    with Cons result_part_ready [of t "if reuse then result_metadata t else None"]
      result_part_waiting [of t "if reuse then result_metadata t else None"] show ?thesis
      by (cases "waiting (ti_state t)") (auto simp: local_calls_append tool_call_part_def hosted_def Let_def)
  qed (use Cons in \<open>auto simp: local_calls_append\<close>)
qed simp

lemma parts_Nil: "parts parse same reuse cs = [] \<Longrightarrow> tools_in cs = []"
proof (induction cs)
  case (Cons c cs)
  then show ?case by (cases c) (auto simp: tool_call_part_def Let_def split: if_split_asm option.split_asm)
qed simp

definition results_of :: "bool \<Rightarrow> assistant_content list \<Rightarrow> llm_content list" where
  "results_of reuse cs = concat (map (local_result reuse) cs)"

lemma results_ids:
  "map result_id (results_of reuse cs) =
    map (Some \<circ> ti_id) (filter (\<lambda>t. \<not> hosted t \<and> \<not> waiting (ti_state t)) (tools_in cs))"
proof (induction cs)
  case (Cons c cs)
  show ?case
  proof (cases c)
    case (CTool t)
    with Cons result_part_ready [of t "if reuse then result_metadata t else None"]
      result_part_waiting [of t "if reuse then result_metadata t else None"] show ?thesis
      by (cases "waiting (ti_state t)") (auto simp: results_of_def)
  qed (use Cons in \<open>auto simp: results_of_def\<close>)
qed (simp add: results_of_def)

section \<open>The messages of the history\<close>

definition starts_tool :: "llm_message list \<Rightarrow> bool" where
  "starts_tool ms \<longleftrightarrow> (case ms of m # _ \<Rightarrow> lm_role m = Tool_Role | [] \<Rightarrow> False)"

lemma answered_results:
  "\<not> starts_tool ms \<Longrightarrow> answered ids (map tool_message rs @ ms) \<longleftrightarrow> map result_id rs = map Some ids \<and> answered [] ms"
proof (induction rs arbitrary: ids)
  case Nil
  then show ?case by (cases ms; cases ids) (auto simp: starts_tool_def)
next
  case (Cons r rs)
  then show ?case by (cases ids) (auto simp: tool_message_def)
qed

lemma filter_short: "map f (filter P xs) = map f xs \<longleftrightarrow> (\<forall>x \<in> set xs. P x)"
proof
  assume "map f (filter P xs) = map f xs"
  then have "length (filter P xs) = length xs" by (metis length_map)
  then show "\<forall>x \<in> set xs. P x" by (metis filter_id_conv length_filter_less less_irrefl)
qed simp

lemma lower_assistant_eq:
  "lower_assistant parse model a =
    (let ps = parts parse (same_model a model) (same_model a model \<and> am_error a = None) (am_content a);
         rs = map tool_message (results_of (same_model a model \<and> am_error a = None) (am_content a))
     in if ps = [] then rs
        else \<lparr>lm_id = Some (am_id a), lm_role = Assistant_Role, lm_content = ps, lm_metadata = None\<rparr> # rs)"
  by (simp add: lower_assistant_def parts_def results_of_def Let_def)

lemma results_Nil: "parts parse same reuse cs = [] \<Longrightarrow> results_of reuse' cs = []"
  using results_ids [of reuse' cs] by (simp add: parts_Nil)

lemma answered_assistant:
  assumes "\<not> starts_tool ms"
  shows "answered [] (lower_assistant parse model a @ ms) \<longleftrightarrow>
    (\<forall>t \<in> set (tools_in (am_content a)). \<not> waiting (ti_state t)) \<and> answered [] ms"
proof -
  define reuse where "reuse = (same_model a model \<and> am_error a = None)"
  let ?cs = "am_content a"
  let ?parts = "parts parse (same_model a model) reuse ?cs"
  note low = lower_assistant_eq [of parse model a, folded reuse_def]
  show ?thesis
  proof (cases "?parts = []")
    case True
    with parts_Nil [OF this] results_Nil [OF this, of reuse] low show ?thesis by simp
  next
    case False
    have "answered [] (lower_assistant parse model a @ ms) \<longleftrightarrow>
        hosted_answered ?parts \<and> map result_id (results_of reuse ?cs) = map Some (local_calls ?parts) \<and> answered [] ms"
      using False by (simp add: low Let_def answered_results [OF assms])
    also have "map result_id (results_of reuse ?cs) = map Some (local_calls ?parts) \<longleftrightarrow>
        map (Some \<circ> ti_id) (filter (\<lambda>t. \<not> waiting (ti_state t)) (filter (\<lambda>t. \<not> hosted t) (tools_in ?cs))) =
        map (Some \<circ> ti_id) (filter (\<lambda>t. \<not> hosted t) (tools_in ?cs))"
      by (simp add: results_ids local_calls_parts conj_commute)
    also have "\<dots> \<longleftrightarrow> (\<forall>t \<in> set (tools_in ?cs). \<not> hosted t \<longrightarrow> \<not> waiting (ti_state t))"
      by (subst filter_short) auto
    finally show ?thesis by (auto simp: hosted_answered_parts)
  qed
qed

lemma history_start: "\<not> starts_tool (to_llm_messages parse model ms)"
proof (induction ms)
  case (Cons m ms)
  have "\<not> starts_tool (lower_assistant parse model a @ to_llm_messages parse model ms)" for a
    using Cons results_Nil by (simp add: lower_assistant_eq Let_def starts_tool_def)
  with Cons show ?case
    by (cases m) (auto simp: to_llm_messages_def starts_tool_def plain_user_def)
qed (simp add: to_llm_messages_def starts_tool_def)

lemma answered_history: "answered [] (to_llm_messages parse model ms) \<longleftrightarrow> no_waiting ms"
proof (induction ms)
  case Nil
  show ?case by (simp add: to_llm_messages_def no_waiting_def)
next
  case (Cons m ms)
  have split: "to_llm_messages parse model (m # ms) = to_llm_message parse model m @ to_llm_messages parse model ms" for m
    by (simp add: to_llm_messages_def)
  have media: "hosted_answered (map media fs)" "local_calls (map media fs) = []" for fs
    by (induction fs) (simp_all add: media_def)
  have user: "hosted_answered (user_content p)" "local_calls (user_content p) = []" for p
    by (auto simp: user_content_def media split: option.split json.split)
  show ?case
  proof (cases m)
    case (AssistantMessage a)
    with Cons answered_assistant [OF history_start, of parse model a parse model ms] show ?thesis
      by (auto simp: split no_waiting_def tools_in_set)
  qed (use Cons in \<open>simp_all add: split no_waiting_def plain_user_def user\<close>)
qed


section \<open>Turns\<close>

lemma update_last_content:
  "x \<in> set (update_last P f xs) \<Longrightarrow> x \<in> set xs \<or> (\<exists>y \<in> set xs. P y \<and> x = f y)"
  by (induction xs) (auto split: if_split_asm)

lemma before_turn_no_waiting: "no_waiting ms \<Longrightarrow> no_waiting (before_turn now ms)"
proof (cases "memory_current_assistant ms")
  case (Some a)
  assume ok: "no_waiting ms"
  have "AssistantMessage a \<in> set ms" using memory_current_SomeD [OF Some] ..
  with ok Some show ?thesis
    unfolding no_waiting_def before_turn_def memory_update_assistant_def
    by (auto dest!: update_last_content split: if_split_asm)
qed (simp add: before_turn_def)

lemma turn_history:
  assumes "tn_events (run_calls inp cs) \<noteq> []"
  shows "\<exists>now. update_all memory (filter durable (tn_events (run_calls inp cs))) ms =
    Some (before_turn now ms @ [AssistantMessage (message_of inp (run_calls inp cs))])"
proof -
  obtain e0 es where log: "turn_log inp (run_calls inp cs) e0 es" using run_calls_log assms by blast
  then have evs: "tn_events (run_calls inp cs) = e0 # es" and e0: "turn_start inp e0" "durable e0"
    and body: "\<And>e. e \<in> set (filter durable es) \<Longrightarrow> turn_body (am_id (fresh_message inp e0)) (se_body e)"
    by (auto simp: turn_log_def fresh_message_def new_assistant_def turn_start_def durable_def)
  show ?thesis
    using update_turn_start [OF e0(1), of ms] update_all_turn [where es = "filter durable es", OF body, where ms = "before_turn (se_time e0) ms"] e0(2)
    by (auto simp: evs message_of_def)
qed

text \<open>C14. The calls of a request are answered, hosted ones by the provider in the same message and local ones by
  the tool messages that follow in the order of the calls, exactly when no tool of the history is pending
  or running, whatever model the request is for and whatever else the history holds.\<close>

theorem calls_are_answered_iff:
  "answered [] (to_llm_messages parse model ms) \<longleftrightarrow> no_waiting ms"
  by (rule answered_history)

text \<open>A settled turn can be sent back: when the tools of the turn are failed at its end, whatever the
  stream and the tools did before, the history extended by the turn's durable events makes a request all
  of whose calls are answered, provided the history before did.\<close>

theorem settled_turn_is_answered:
  assumes "answered [] (to_llm_messages parse model ms)" "list_all (permitted True) cs"
  shows "\<exists>ms'. update_all memory (filter durable (tn_events (run_calls inp (cs @ [Fail_Tools msg False])))) ms = Some ms' \<and>
    answered [] (to_llm_messages parse model ms')"
proof (cases "tn_events (run_calls inp (cs @ [Fail_Tools msg False])) = []")
  case False
  from turn_history [OF this, of ms] obtain now where
    h: "update_all memory (filter durable (tn_events (run_calls inp (cs @ [Fail_Tools msg False])))) ms =
      Some (before_turn now ms @ [AssistantMessage (message_of inp (run_calls inp (cs @ [Fail_Tools msg False])))])" by blast
  have "\<not> waiting (ti_state t)" if "CTool t \<in> set (am_content (message_of inp (run_calls inp (cs @ [Fail_Tools msg False]))))" for t
    using no_tool_is_left_waiting [OF assms(2) refl, of inp msg] False that by blast
  with before_turn_no_waiting [of ms now] assms(1) h show ?thesis
    by (auto simp: answered_history no_waiting_def)
qed (use assms in simp)

lemma settled_turn_is_answered_witness:
  "\<exists>ms'. update_all memory (filter durable (tn_events (run_calls demo_input (demo_calls @ [Fail_Tools (lit ''stop'') False])))) [] =
      Some ms' \<and> answered [] (to_llm_messages (\<lambda>_. None) \<lparr>md_provider = lit ''p'', md_id = lit ''m''\<rparr> ms')"
proof -
  have "answered [] (to_llm_messages (\<lambda>_. None) \<lparr>md_provider = lit ''p'', md_id = lit ''m''\<rparr> [])" by code_simp
  moreover have "list_all (permitted True) demo_calls" by code_simp
  ultimately show ?thesis by (rule settled_turn_is_answered)
qed

text \<open>On one input: tools that are failed while the input of another call streams leave that call running in the
  message of the turn, and the request made of this message and a next prompt holds a call without a result.\<close>

theorem early_failure_sends_an_unanswered_call:
  "\<exists>ms. update_all memory (filter durable (tn_events (run_calls demo_input (two_calls @ [Flush, Fail_Tools (lit ''interrupted'') False])))) [] =
      Some ms \<and> \<not> answered [] (to_llm_messages parse model (ms @ [UserMessage (lit ''u'') None 0 \<lparr>pr_text = lit ''go'', pr_files = None, pr_agents = None\<rparr>]))"
proof -
  obtain a t where a: "update_all memory (filter durable (tn_events (run_calls demo_input (two_calls @ [Flush, Fail_Tools (lit ''interrupted'') False])))) [] =
      Some [AssistantMessage a]" "CTool t \<in> set (am_content a)" "waiting (ti_state t)"
    using early_failure_leaves_a_running_tool by blast
  then show ?thesis unfolding answered_history no_waiting_def by (intro exI [of _ "[AssistantMessage a]"]) auto
qed

end
