(* ===== verification/TurnAttempt.thy ===== *)
theory TurnAttempt imports ToolPairing begin

text \<open>
  One attempt of a provider turn (\<open>runTurnAttempt\<close> from the stream on, in
  packages/core/src/session/runner/llm.ts): what the runner does with each event of the stream, the tools that run
  beside it, and how the turn is settled once the stream and the tools have ended. A script says in which order
  events arrive and tools come to an end; each of them is handled without interruption, as under the permit of
  the publisher. The snapshots and the outcome of a recovery from an overflow are part of the script.
\<close>

section \<open>State\<close>

datatype tool_failure = Declined | Failed_With jstring | Publication_Died turn_defect

datatype tool_action =
    Tool_Settles jstring tool_result_value "tool_output option" "jstring list" \<comment> \<open>with its output paths\<close>
  | Tool_Fails jstring tool_failure

datatype stream_action = Receive llm_event | Work tool_action

datatype stream_end =
    Stream_Done
  | Stream_Failed jstring bool \<comment> \<open>the message of an \<open>LLMError\<close>, and whether it is a context overflow\<close>
  | Stream_Interrupted
  | Stream_Died

datatype tools_end = Tools_Done | Tools_Failed tool_failure | Tools_Interrupted

record attempt_state =
  as_turn :: turn
  as_overflow :: "llm_event option"
  as_needs :: bool
  as_running :: "(jstring, jstring) jsmap" \<comment> \<open>the calls whose fibers run, with the tool's name\<close>
  as_failure :: "tool_failure option" \<comment> \<open>of the first fiber that failed\<close>
  as_died :: bool \<comment> \<open>handling an event died, which ends the stream\<close>

definition new_attempt :: attempt_state where
  "new_attempt = \<lparr>as_turn = new_turn, as_overflow = None, as_needs = False, as_running = [], as_failure = None, as_died = False\<rparr>"

section \<open>Events of the stream\<close>

fun context_overflow :: "llm_event \<Rightarrow> bool" where
  "context_overflow (ProviderError msg c r md) = (c = Some (lit ''context-overflow''))"
| "context_overflow e = False"

fun local_call :: "llm_event \<Rightarrow> (jstring \<times> jstring) option" where
  "local_call (ToolCall i name v pe md) = (if pe = Some True then None else Some (i, name))"
| "local_call e = None"

definition receive :: "turn_input \<Rightarrow> bool \<Rightarrow> llm_event \<Rightarrow> attempt_state \<Rightarrow> attempt_state" where
  \<comment> \<open>tools are offered unless it is the last step\<close>
  "receive inp offered e st =
    (if as_died st \<or> as_overflow st \<noteq> None \<or> tn_provider_failed (as_turn st) then st
     else if context_overflow e \<and> tn_message (as_turn st) = None then st\<lparr>as_overflow := Some e\<rparr>
     else case publish_llm_event inp [] e (as_turn st) of
         (Inl d, s) \<Rightarrow> st\<lparr>as_turn := s, as_died := True\<rparr>
       | (Inr u, s) \<Rightarrow>
           (case local_call e of
              None \<Rightarrow> st\<lparr>as_turn := s\<rparr>
            | Some (i, name) \<Rightarrow>
                if \<not> offered
                then st\<lparr>as_turn := snd (fail_unsettled_tools inp (lit ''Tools are disabled after the maximum agent steps'') False s)\<rparr>
                else (case message_for_tool i s of
                    (Inl d, s1) \<Rightarrow> st\<lparr>as_turn := s1, as_needs := True, as_died := True\<rparr>
                  | (Inr m, s1) \<Rightarrow> st\<lparr>as_turn := s1, as_needs := True, as_running := map_set (as_running st) i name\<rparr>)))"

section \<open>Tools\<close>

definition leave :: "jstring \<Rightarrow> tool_failure option \<Rightarrow> attempt_state \<Rightarrow> attempt_state" where
  \<comment> \<open>a fiber of the \<open>FiberSet\<close> ends; the set keeps the first failure\<close>
  "leave i f st = st\<lparr>as_running := map_delete (as_running st) i, as_failure := or_else (as_failure st) f\<rparr>"

fun tool_step :: "turn_input \<Rightarrow> tool_action \<Rightarrow> attempt_state \<Rightarrow> attempt_state" where
  "tool_step inp (Tool_Settles i r out paths) st =
    (case map_of (as_running st) i of
       None \<Rightarrow> st
     | Some name \<Rightarrow>
         (case publish_llm_event inp paths (ToolResult i name r out None None) (as_turn st) of
            (Inl d, s) \<Rightarrow> leave i (Some (Publication_Died d)) (st\<lparr>as_turn := s\<rparr>)
          | (Inr u, s) \<Rightarrow> leave i None (st\<lparr>as_turn := s\<rparr>)))"
| "tool_step inp (Tool_Fails i f) st = (if map_of (as_running st) i = None then st else leave i (Some f) st)"

fun stream_step :: "turn_input \<Rightarrow> bool \<Rightarrow> stream_action \<Rightarrow> attempt_state \<Rightarrow> attempt_state" where
  "stream_step inp offered (Receive e) st = receive inp offered e st"
| "stream_step inp offered (Work a) st = tool_step inp a st"

definition awaited :: "attempt_state \<Rightarrow> bool \<Rightarrow> tools_end option" where
  \<comment> \<open>\<open>awaitToolFibers\<close>; \<open>None\<close>: it still waits\<close>
  "awaited st interrupted =
    (if interrupted then Some Tools_Interrupted
     else case as_failure st of
         Some f \<Rightarrow> Some (Tools_Failed f)
       | None \<Rightarrow> if as_running st = [] then Some Tools_Done else None)"

section \<open>Settling the turn\<close>

definition overflowed :: "llm_event option \<Rightarrow> stream_end \<Rightarrow> bool" where
  \<comment> \<open>an event is kept as the overflow only if it is one\<close>
  "overflowed ov e \<longleftrightarrow> ov \<noteq> None \<or> (case e of Stream_Failed msg b \<Rightarrow> b | _ \<Rightarrow> False)"

definition stream_ended :: "turn_input \<Rightarrow> llm_event option \<Rightarrow> stream_end \<Rightarrow> unit effect" where
  "stream_ended inp ov e =
    seq (case ov of Some ev \<Rightarrow> publish_llm_event inp [] ev | None \<Rightarrow> ret ())
      (\<lambda>s. case e of
         Stream_Failed msg b \<Rightarrow>
           if tn_provider_failed s then ret () s
           else seq (fail_unsettled_tools inp (lit ''Provider did not return a tool result'') True) (fail_assistant inp msg) s
       | _ \<Rightarrow> ret () s)"

record attempt_script =
  sc_stream :: "stream_action list"
  sc_end :: stream_end
  sc_recovered :: bool \<comment> \<open>there is a recovery from overflows and it compacted the session\<close>
  sc_tools :: "tool_action list" \<comment> \<open>while the runner waits for the tools\<close>
  sc_interrupted :: bool \<comment> \<open>the waiting is\<close>
  sc_snapshot :: "jstring option" \<comment> \<open>at the end\<close>
  sc_files :: "jstring \<Rightarrow> jstring \<Rightarrow> jstring list option"
  sc_text :: "turn_defect \<Rightarrow> jstring" \<comment> \<open>of a defect\<close>

fun failure_text :: "attempt_script \<Rightarrow> tool_failure \<Rightarrow> jstring" where
  "failure_text sc (Failed_With msg) = msg"
| "failure_text sc (Publication_Died d) = sc_text sc d"
| "failure_text sc Declined = []"

fun finish_name :: "finish_reason \<Rightarrow> jstring" where
  "finish_name Stop = lit ''stop''"
| "finish_name Length = lit ''length''"
| "finish_name ToolCalls = lit ''tool-calls''"
| "finish_name ContentFilter = lit ''content-filter''"
| "finish_name ErrorReason = lit ''error''"
| "finish_name Unknown = lit ''unknown''"

definition changed_files :: "turn_input \<Rightarrow> attempt_script \<Rightarrow> jstring list option" where
  "changed_files inp sc =
    (case (tu_snapshot inp, sc_snapshot sc) of
       (Some a, Some b) \<Rightarrow> if a = [] \<or> b = [] then None else sc_files sc a b
     | _ \<Rightarrow> None)"

definition settle_step :: "turn_input \<Rightarrow> attempt_script \<Rightarrow> unit effect" where
  "settle_step inp sc s =
    (case tn_settlement s of
       Some (reason, counts) \<Rightarrow>
         if tn_provider_failed s then ret () s
         else end_step inp (finish_name reason) counts (sc_snapshot sc) (changed_files inp sc) s
     | None \<Rightarrow> ret () s)"

definition settle_interrupted :: "turn_input \<Rightarrow> stream_end \<Rightarrow> tools_end \<Rightarrow> unit effect" where
  "settle_interrupted inp e t =
    (if e = Stream_Interrupted \<or> t = Tools_Interrupted
     then seq (fail_unsettled_tools inp (lit ''Tool execution interrupted'') False)
       (\<lambda>s. if tn_active s then fail_assistant inp (lit ''Provider turn interrupted'') s else ret () s)
     else ret ())"

definition settle_failed :: "turn_input \<Rightarrow> attempt_script \<Rightarrow> tools_end \<Rightarrow> unit effect" where
  "settle_failed inp sc t =
    (case t of
       Tools_Failed f \<Rightarrow> fail_unsettled_tools inp (lit ''Tool execution failed: '' @ failure_text sc f) False
     | _ \<Rightarrow> ret ())"

definition settle_provider_error :: "turn_input \<Rightarrow> unit effect" where
  "settle_provider_error inp s =
    (if tn_provider_failed s then fail_unsettled_tools inp (lit ''Tool execution interrupted'') False s else ret () s)"

definition settle_hosted :: "turn_input \<Rightarrow> stream_end \<Rightarrow> unit effect" where
  "settle_hosted inp e s =
    (if e = Stream_Done \<and> \<not> tn_provider_failed s
     then fail_unsettled_tools inp (lit ''Provider did not return a tool result'') True s else ret () s)"

definition tools_ended :: "turn_input \<Rightarrow> attempt_script \<Rightarrow> stream_end \<Rightarrow> tools_end \<Rightarrow> unit effect" where
  "tools_ended inp sc e t =
    (if t = Tools_Failed Declined then fail_unsettled_tools inp (lit ''Tool execution interrupted'') False
     else seq (settle_interrupted inp e t) (seq (settle_failed inp sc t)
       (seq (settle_step inp sc) (seq (settle_provider_error inp) (settle_hosted inp e)))))"

datatype attempt_result =
    Overflow_Compacted \<comment> \<open>the turn starts over\<close>
  | Ends bool \<comment> \<open>and whether another turn is needed\<close>
  | Fails \<comment> \<open>the stream failed, it was interrupted, or the user declined\<close>
  | Dies turn_defect

definition stream_result :: "attempt_state \<Rightarrow> (turn_defect, unit) result \<Rightarrow> stream_end \<Rightarrow> stream_end" where
  \<comment> \<open>with the result of the flush that ends every stream\<close>
  "stream_result st r e = (if as_died st \<or> r \<noteq> Inr () then Stream_Died else e)"

definition run_attempt :: "turn_input \<Rightarrow> bool \<Rightarrow> attempt_script \<Rightarrow> (attempt_result \<times> turn) option" where
  \<comment> \<open>\<open>None\<close>: tools still run\<close>
  "run_attempt inp offered sc =
    (let st0 = fold (stream_step inp offered) (sc_stream sc) new_attempt in
     case flush inp (as_turn st0) of
       (r, s1) \<Rightarrow>
         let e = stream_result st0 r (sc_end sc) in
         if sc_recovered sc \<and> tn_message s1 = None \<and> overflowed (as_overflow st0) e then Some (Overflow_Compacted, s1)
         else (case stream_ended inp (as_overflow st0) e s1 of
             (Inl d, s2) \<Rightarrow> Some (Dies d, s2)
           | (Inr u, s2) \<Rightarrow>
               let st3 = fold (tool_step inp) (sc_tools sc)
                     (st0\<lparr>as_turn := s2, as_running := if e = Stream_Interrupted then [] else as_running st0\<rparr>) in
               (case awaited st3 (sc_interrupted sc) of
                  None \<Rightarrow> None
                | Some t \<Rightarrow>
                    (case tools_ended inp sc e t (as_turn st3) of
                       (Inl d, s4) \<Rightarrow> Some (Dies d, s4)
                     | (Inr u, s4) \<Rightarrow>
                         Some (if t = Tools_Failed Declined \<or> e \<noteq> Stream_Done \<or> t = Tools_Interrupted then Fails
                           else Ends (\<not> tn_provider_failed s4 \<and> as_needs st3), s4)))))"

end
