(* ===== verification/AttemptProps.thy ===== *)
theory AttemptProps imports TurnAttempt begin

text \<open>
  What a provider attempt leaves behind: which calls stay open while the stream and the tools run, that none
  does once the turn is settled, and the request that the history makes afterwards.
\<close>

section \<open>What settling is made of\<close>

text \<open>The settlement is put together from four operations. A law of effects that they obey and that sequences and
  choices keep is a law of every stage of it.\<close>

locale settling_law =
  fixes inp :: turn_input and law :: "unit effect \<Rightarrow> bool"
  assumes law_ret: "law (ret ())"
    and law_seq: "law m \<Longrightarrow> law k \<Longrightarrow> law (seq m k)"
    and law_choice: "(\<And>s. law (f s)) \<Longrightarrow> law (\<lambda>s. f s s)"
    and law_fail_tools: "law (fail_unsettled_tools inp msg own)"
    and law_fail_assistant: "law (fail_assistant inp msg)"
    and law_end_step: "law (end_step inp fin counts snap files)"
begin

lemma law_if: "law m \<Longrightarrow> law k \<Longrightarrow> law (\<lambda>s. if P s then m s else k s)"
  using law_choice [of "\<lambda>s. if P s then m else k"] by (simp add: if_distribR)

lemma law_settle_interrupted: "law (settle_interrupted inp e t)"
  by (auto simp: settle_interrupted_def intro!: law_seq law_if law_ret law_fail_tools law_fail_assistant)

lemma law_settle_failed: "law (settle_failed inp sc t)"
  by (auto simp: settle_failed_def law_ret law_fail_tools split: tools_end.split)

lemma law_settle_step: "law (settle_step inp sc)"
proof -
  have "law (\<lambda>s. (case tn_settlement s of
       Some (reason, counts) \<Rightarrow>
         if tn_provider_failed s then ret ()
         else end_step inp (finish_name reason) counts (sc_snapshot sc) (changed_files inp sc)
     | None \<Rightarrow> ret ()) s)"
    by (rule law_choice) (simp add: law_ret law_end_step split: option.split prod.split)
  moreover have "(\<lambda>s. (case tn_settlement s of
       Some (reason, counts) \<Rightarrow>
         if tn_provider_failed s then ret ()
         else end_step inp (finish_name reason) counts (sc_snapshot sc) (changed_files inp sc)
     | None \<Rightarrow> ret ()) s) = settle_step inp sc"
    by (rule ext) (simp add: settle_step_def split: option.split prod.split)
  ultimately show ?thesis by simp
qed

lemma law_settle_provider_error: "law (settle_provider_error inp)"
proof -
  have "law (\<lambda>s. if tn_provider_failed s then fail_unsettled_tools inp (lit ''Tool execution interrupted'') False s else ret () s)"
    by (intro law_if law_ret law_fail_tools)
  then show ?thesis by (simp add: settle_provider_error_def [abs_def])
qed

lemma law_settle_hosted: "law (settle_hosted inp e)"
proof -
  have "law (\<lambda>s. if e = Stream_Done \<and> \<not> tn_provider_failed s
     then fail_unsettled_tools inp (lit ''Provider did not return a tool result'') True s else ret () s)"
    by (intro law_if law_ret law_fail_tools)
  then show ?thesis by (simp add: settle_hosted_def [abs_def])
qed

lemma law_tools_ended: "law (tools_ended inp sc e t)"
  unfolding tools_ended_def
  by (auto intro!: law_seq law_fail_tools law_settle_interrupted law_settle_failed law_settle_step law_settle_provider_error
      law_settle_hosted)

lemma law_stream_failed:
  "law (\<lambda>s. case e of
     Stream_Failed msg b \<Rightarrow>
       if tn_provider_failed s then ret () s
       else seq (fail_unsettled_tools inp (lit ''Provider did not return a tool result'') True) (fail_assistant inp msg) s
   | _ \<Rightarrow> ret () s)"
proof (cases e)
  case (Stream_Failed msg b)
  show ?thesis unfolding Stream_Failed stream_end.case
    by (intro law_if law_seq law_ret law_fail_tools law_fail_assistant)
qed (simp_all add: law_ret)

lemma law_stream_ended:
  assumes "law (case ov of Some ev \<Rightarrow> publish_llm_event inp [] ev | None \<Rightarrow> ret ())"
  shows "law (stream_ended inp ov e)"
  unfolding stream_ended_def by (intro law_seq assms law_stream_failed)

end

section \<open>Open calls\<close>

definition open_calls :: "turn \<Rightarrow> (jstring \<times> bool) set" where
  \<comment> \<open>called and not settled, and whether the provider executes the tool\<close>
  "open_calls s = {(i, x). \<exists>t. map_of (tn_tools s) i = Some t \<and> ut_called t \<and> \<not> ut_settled t \<and> ut_executed t = x}"

lemma open_calls_cong: "tn_tools s' = tn_tools s \<Longrightarrow> open_calls s' = open_calls s"
  by (simp add: open_calls_def)

definition opens :: "'a effect \<Rightarrow> (jstring \<times> bool) set \<Rightarrow> bool" where
  \<comment> \<open>the calls an effect may open\<close>
  "opens m A \<longleftrightarrow> (\<forall>s. open_calls (snd (m s)) \<subseteq> open_calls s \<union> A)"

lemma opensD: "opens m A \<Longrightarrow> m s = (r, s') \<Longrightarrow> open_calls s' \<subseteq> open_calls s \<union> A"
  unfolding opens_def by (metis snd_conv)

lemma opens_tools: "(\<And>s. tn_tools (snd (m s)) = tn_tools s) \<Longrightarrow> opens m A"
  by (auto simp: opens_def open_calls_def)

lemma opens_bind:
  assumes "opens m A" "\<And>x. opens (k x) A"
  shows "opens (bind m k) A"
  unfolding opens_def
proof
  fix s
  obtain r s1 where m: "m s = (r, s1)" by fastforce
  show "open_calls (snd (bind m k s)) \<subseteq> open_calls s \<union> A"
  proof (cases r)
    case (Inl d)
    with m opensD [OF assms(1) m] show ?thesis by (simp add: bind_def)
  next
    case (Inr x)
    obtain r2 s2 where k: "k x s1 = (r2, s2)" by fastforce
    with m Inr opensD [OF assms(1) m] opensD [OF assms(2) k] show ?thesis by (auto simp: bind_def)
  qed
qed

lemma opens_seq: "opens m A \<Longrightarrow> opens k A \<Longrightarrow> opens (seq m k) A"
  unfolding seq_def by (rule opens_bind)

lemma opens_each: "(\<And>x. opens (f x) A) \<Longrightarrow> opens (each f xs) A"
  by (induction xs) (auto intro: opens_seq opens_tools simp: ret_def)

lemma opens_choice: "(\<And>s. opens (f s) A) \<Longrightarrow> opens (\<lambda>s. f s s) A"
  by (simp add: opens_def)

lemma opens_if: "opens m A \<Longrightarrow> opens k A \<Longrightarrow> opens (\<lambda>s. if P s then m s else k s) A"
  by (auto simp: opens_def)

lemma opens_basic [simp]: "opens (ret x) A" "opens (die d) A" "opens (emit inp b) A" "opens (start_assistant inp) A" "opens current_assistant A"
  by (rule opens_tools; simp add: effects start_assistant_def current_assistant_def split: option.split)+

lemma opens_change: "(\<And>s. tn_tools (f s) = tn_tools s) \<Longrightarrow> opens (change f) A"
  by (rule opens_tools) (simp add: change_def)

lemma open_calls_set:
  assumes "map_of (tn_tools s) i = Some t" "tn_tools s' = map_set (tn_tools s) i t'"
    "ut_called t' \<and> \<not> ut_settled t' \<Longrightarrow> (i, ut_executed t') \<in> open_calls s \<union> A"
  shows "open_calls s' \<subseteq> open_calls s \<union> A"
  using assms by (auto simp: open_calls_def split: if_split_asm)

lemma opens_with_tool:
  assumes "\<And>t. map_of (tn_tools s) i = Some t \<Longrightarrow> open_calls (snd (k t s)) \<subseteq> open_calls s \<union> A"
  shows "open_calls (snd (with_tool i d k s)) \<subseteq> open_calls s \<union> A"
  using assms by (auto simp: with_tool_def die_def split: option.split)

lemma opens_end: "opens (fragment_end inp text_fragments i md) A" "opens (fragment_end inp reasoning_fragments i md) A"
  "opens (fragment_end inp input_fragments i md) A"
proof -
  show "opens (fragment_end inp text_fragments i md) A" "opens (fragment_end inp reasoning_fragments i md) A"
    by (rule opens_tools; simp add: fragment_end_def text_fragments_def reasoning_fragments_def current_assistant_def effects split: option.split)+
  show "opens (fragment_end inp input_fragments i md) A"
    unfolding opens_def
    by (auto simp: fragment_end_def input_fragments_def with_tool_def set_tool_def effects open_calls_def
        split: option.split if_split_asm)
qed

lemma opens_flush: "opens (flush inp) A"
proof -
  have "opens (fragment_flush inp fr) A" if "\<And>i. opens (fragment_end inp fr i None) A" for fr
    using opens_each [of "\<lambda>i. fragment_end inp fr i None", OF that] by (simp add: opens_def fragment_flush_def)
  then show ?thesis unfolding flush_def by (intro opens_seq) (simp_all add: opens_end)
qed

lemma opens_fail_assistant: "opens (fail_assistant inp msg) A"
proof -
  have "opens (\<lambda>s. if tn_failed s then ret () s else seq (flush inp) (bind (start_assistant inp) (\<lambda>m.
       seq (change (\<lambda>s. s\<lparr>tn_active := False, tn_failed := True\<rparr>)) (emit inp (StepFailedE m msg)))) s) A"
    by (intro opens_if opens_seq opens_bind opens_flush opens_change) simp_all
  then show ?thesis by (simp add: opens_def fail_assistant_def)
qed

lemma opens_fail_tool: "opens (fail_tool inp msg own i) A"
  unfolding opens_def by (auto simp: fail_tool_def set_tool_def effects open_calls_def split: option.split if_split_asm)

lemma opens_fail_tools: "opens (fail_unsettled_tools inp msg own) A"
  using opens_each [of "fail_tool inp msg own", OF opens_fail_tool] by (simp add: opens_def fail_unsettled_tools_def)

lemma opens_end_step: "opens (end_step inp fin counts snap files) A"
  unfolding end_step_def by (intro opens_bind) simp_all

lemma opens_start_tool: "opens (start_tool_input inp i name) A"
  unfolding opens_def
  by (auto simp: start_tool_input_def fragment_start_def input_fragments_def start_assistant_def set_tool_def effects open_calls_def
      split: option.split if_split_asm)

lemma opens_end_tool: "opens (end_tool_input inp i name) A"
  using opens_end(3) [of inp i None] by (auto simp: opens_def end_tool_input_def with_tool_def die_def split: option.split)

lemma opens_text: "opens (fragment_start text_fragments i) A" "opens (fragment_append text_fragments i t) A"
  "opens (fragment_start reasoning_fragments i) A" "opens (fragment_append reasoning_fragments i t) A"
  by (rule opens_tools; simp add: fragment_start_def fragment_append_def text_fragments_def reasoning_fragments_def effects
      split: option.split)+

lemma opens_delta: "opens (publish_tool_delta inp i name t) A"
  by (rule opens_tools)
    (auto simp: publish_tool_delta_def with_tool_def fragment_append_def input_fragments_def effects split: option.split)

lemma opens_result: "opens (publish_tool_result inp paths i name r out pe md) A"
  unfolding opens_def
  by (auto simp: publish_tool_result_def with_tool_def set_tool_def effects Let_def open_calls_def
      split: option.split tool_result_value.split sum.split prod.split if_split_asm)

lemma opens_error: "opens (publish_tool_error inp i name msg md) A"
  unfolding opens_def
  by (auto simp: publish_tool_error_def with_tool_def set_tool_def effects open_calls_def split: option.split if_split_asm)

lemma opens_finish: "opens (publish_step_finish inp reason u) A"
  unfolding publish_step_finish_def
  by (intro opens_seq opens_flush opens_change opens_tools) (simp_all add: die_def change_def)

definition opened_by :: "llm_event \<Rightarrow> (jstring \<times> bool) set" where
  "opened_by e = (case e of ToolCall i name v pe md \<Rightarrow> {(i, pe = Some True)} | _ \<Rightarrow> {})"

lemma opens_call: "opens (publish_tool_call inp i name v pe md) {(i, pe = Some True)}"
proof -
  have start: "opens (\<lambda>s. if map_of (tn_tools s) i = None then start_tool_input inp i name s else ret () s) A" for A
    by (intro opens_if opens_start_tool) simp
  have ended: "opens (with_tool i (Unknown_Call i) (\<lambda>t. if ut_ended t then ret () else end_tool_input inp i name)) A" for A
    using opens_end_tool [of inp i name A] by (auto simp: opens_def with_tool_def ret_def die_def split: option.split)
  have call: "opens (with_tool i (Unknown_Call i)
          (\<lambda>t. if ut_name t \<noteq> name then die (Name_Changed i)
               else if ut_called t then die (Duplicate_Call i)
               else seq (set_tool i (t\<lparr>ut_called := True, ut_executed := (pe = Some True), ut_metadata := md\<rparr>))
                 (emit inp (ToolCalledE (ut_message t) i name (record_of v) (pe = Some True) md)))) {(i, pe = Some True)}"
    unfolding opens_def by (auto simp: with_tool_def set_tool_def effects open_calls_def split: option.split if_split_asm)
  show ?thesis unfolding publish_tool_call_def by (intro opens_seq start ended call)
qed

lemma opens_publish: "opens (publish_llm_event inp paths e) (opened_by e)"
  by (cases e) (auto simp: opened_by_def opens_call opens_result opens_error opens_finish opens_delta opens_start_tool opens_end_tool
      opens_text opens_end opens_fail_assistant intro!: opens_seq opens_bind opens_change)

section \<open>Closing calls\<close>

lemma keys_replaced: "map_of m i = Some u \<Longrightarrow> map_keys (map_set m i v) = map_keys m"
  by (induction m) auto

lemma fail_one:
  "fst (fail_tool inp msg own i s) = Inr () \<and> map_keys (tn_tools (snd (fail_tool inp msg own i s))) = map_keys (tn_tools s) \<and>
   tn_provider_failed (snd (fail_tool inp msg own i s)) = tn_provider_failed s \<and>
   (\<forall>j t. map_of (tn_tools (snd (fail_tool inp msg own i s))) j = Some t \<longrightarrow>
     ut_settled t \<or> own \<and> \<not> ut_executed t \<or> j \<noteq> i \<and> map_of (tn_tools s) j = Some t)"
  by (auto simp: fail_tool_def set_tool_def effects keys_replaced split: option.split)

lemma fail_each:
  "fst (each (fail_tool inp msg own) ks s) = Inr () \<and>
   map_keys (tn_tools (snd (each (fail_tool inp msg own) ks s))) = map_keys (tn_tools s) \<and>
   tn_provider_failed (snd (each (fail_tool inp msg own) ks s)) = tn_provider_failed s \<and>
   (\<forall>j t. map_of (tn_tools (snd (each (fail_tool inp msg own) ks s))) j = Some t \<longrightarrow>
     ut_settled t \<or> own \<and> \<not> ut_executed t \<or> j \<notin> set ks \<and> map_of (tn_tools s) j = Some t)"
proof (induction ks arbitrary: s)
  case Nil
  then show ?case by (simp add: ret_def)
next
  case (Cons i ks)
  obtain s1 where s1: "fail_tool inp msg own i s = (Inr (), s1)" using fail_one [of inp msg own i s] by (metis prod.collapse)
  note f = fail_one [of inp msg own i s, unfolded s1, simplified]
  from s1 have step: "each (fail_tool inp msg own) (i # ks) s = each (fail_tool inp msg own) ks s1" by (simp add: seq_def bind_def)
  show ?case unfolding step using Cons.IH [of s1] f by fastforce
qed

lemma fail_tools:
  assumes "fail_unsettled_tools inp msg own s = (r, s')"
  shows "r = Inr ()" "map_keys (tn_tools s') = map_keys (tn_tools s)" "tn_provider_failed s' = tn_provider_failed s"
    "map_of (tn_tools s') i = Some t \<Longrightarrow> ut_settled t \<or> own \<and> \<not> ut_executed t"
proof -
  have all: "fst (fail_unsettled_tools inp msg own s) = r" "snd (fail_unsettled_tools inp msg own s) = s'" using assms by simp_all
  note f = fail_each [of inp msg own "map_keys (tn_tools s)" s, folded fail_unsettled_tools_def, unfolded all]
  from f show "r = Inr ()" "map_keys (tn_tools s') = map_keys (tn_tools s)" "tn_provider_failed s' = tn_provider_failed s" by blast+
  assume "map_of (tn_tools s') i = Some t"
  with f have "ut_settled t \<or> own \<and> \<not> ut_executed t \<or> i \<notin> set (map_keys (tn_tools s)) \<and> map_of (tn_tools s) i = Some t" by blast
  then show "ut_settled t \<or> own \<and> \<not> ut_executed t" by (metis domI dom_map_of_conv_image_fst list.set_map)
qed

lemma fail_tools_close: "open_calls (snd (fail_unsettled_tools inp msg False s)) = {}"
  using fail_tools(4) [of inp msg False s, OF prod.collapse [symmetric]] by (auto simp: open_calls_def)

lemma fail_own_tools_close: "(i, True) \<notin> open_calls (snd (fail_unsettled_tools inp msg True s))"
  using fail_tools(4) [of inp msg True s, OF prod.collapse [symmetric]] by (auto simp: open_calls_def)

lemma result_closes: "publish_tool_result inp paths i name r out pe md s = (Inr u, s') \<Longrightarrow> (i, x) \<notin> open_calls s'"
  by (auto simp: publish_tool_result_def with_tool_def set_tool_def effects Let_def open_calls_def
      split: option.split_asm tool_result_value.split_asm sum.split_asm prod.split_asm if_split_asm)

section \<open>While the stream and the tools run\<close>

definition attended :: "attempt_state \<Rightarrow> bool" where
  \<comment> \<open>every open call of a tool that runs here has its fiber, unless a fiber failed\<close>
  "attended st \<longleftrightarrow> (\<forall>i. (i, False) \<in> open_calls (as_turn st) \<longrightarrow> map_of (as_running st) i \<noteq> None \<or> as_failure st \<noteq> None)"

lemma seq_Inl: "seq m k s = (Inl d, s') \<longleftrightarrow> m s = (Inl d, s') \<or> (\<exists>u s1. m s = (Inr u, s1) \<and> k s1 = (Inl d, s'))"
  by (cases "m s") (auto simp: seq_def bind_def split: sum.split)

lemma call_dies: "publish_tool_call inp i name v pe md s = (Inl d, s') \<Longrightarrow> open_calls s' \<subseteq> open_calls s"
proof -
  assume run: "publish_tool_call inp i name v pe md s = (Inl d, s')"
  let ?a = "\<lambda>s. if map_of (tn_tools s) i = None then start_tool_input inp i name s else ret () s"
  let ?b = "with_tool i (Unknown_Call i) (\<lambda>t. if ut_ended t then ret () else end_tool_input inp i name)"
  let ?c = "with_tool i (Unknown_Call i)
          (\<lambda>t. if ut_name t \<noteq> name then die (Name_Changed i)
               else if ut_called t then die (Duplicate_Call i)
               else seq (set_tool i (t\<lparr>ut_called := True, ut_executed := (pe = Some True), ut_metadata := md\<rparr>))
                 (emit inp (ToolCalledE (ut_message t) i name (record_of v) (pe = Some True) md)))"
  have a: "opens ?a {}" by (intro opens_if opens_start_tool) simp
  have b: "opens ?b {}"
    using opens_end_tool [of inp i name "{}"] by (auto simp: opens_def with_tool_def ret_def die_def split: option.split)
  have c: "?c s = (Inl d, s') \<Longrightarrow> s' = s" for s
    by (simp add: with_tool_def set_tool_def effects split: option.split_asm if_split_asm)
  from run show ?thesis unfolding publish_tool_call_def seq_Inl
  proof (elim disjE exE conjE)
    assume "?a s = (Inl d, s')"
    with opensD [OF a] show ?thesis by blast
  next
    fix u s1 assume "?a s = (Inr u, s1)" "?b s1 = (Inl d, s')"
    with opensD [OF a] opensD [OF b] show ?thesis by blast
  next
    fix u s1 v s2 assume "?a s = (Inr u, s1)" "?b s1 = (Inr v, s2)" "?c s2 = (Inl d, s')"
    with opensD [OF a] opensD [OF b] c show ?thesis by blast
  qed
qed

lemma seq_Inr: "seq m k s = (Inr x, s') \<longleftrightarrow> (\<exists>u s1. m s = (Inr u, s1) \<and> k s1 = (Inr x, s'))"
  by (cases "m s") (auto simp: seq_def bind_def split: sum.split)

lemma call_known: "publish_tool_call inp i name v pe md s = (Inr u, s') \<Longrightarrow> map_of (tn_tools s') i \<noteq> None"
  unfolding publish_tool_call_def seq_Inr
  by (auto simp: with_tool_def set_tool_def effects split: option.split_asm if_split_asm)

lemma receive_attended: "attended st \<Longrightarrow> attended (receive inp offered e st)"
proof -
  assume st: "attended st"
  obtain r s where p: "publish_llm_event inp [] e (as_turn st) = (r, s)" by fastforce
  have more: "open_calls s \<subseteq> open_calls (as_turn st) \<union> opened_by e" by (rule opensD [OF opens_publish p])
  show ?thesis
  proof (cases "as_died st \<or> as_overflow st \<noteq> None \<or> tn_provider_failed (as_turn st) \<or> context_overflow e \<and> tn_message (as_turn st) = None")
    case True
    with st show ?thesis by (auto simp: receive_def attended_def)
  next
    case go: False
    show ?thesis
    proof (cases r)
      case (Inl d)
      have "open_calls s \<subseteq> open_calls (as_turn st)"
        using more p Inl by (cases e) (auto simp: opened_by_def dest: call_dies)
      with go p Inl st show ?thesis by (auto simp: receive_def attended_def)
    next
      case (Inr u)
      show ?thesis
      proof (cases "local_call e")
        case None
        then have "(i, False) \<notin> opened_by e" for i by (cases e) (auto simp: opened_by_def split: if_split_asm)
        with go p Inr None more st show ?thesis by (auto simp: receive_def attended_def)
      next
        case (Some c)
        obtain i name where c: "c = (i, name)" by fastforce
        then have opened: "opened_by e \<subseteq> {(i, False)}" using Some by (cases e) (auto simp: opened_by_def split: if_split_asm)
        have "map_of (tn_tools s) i \<noteq> None"
          using Some c p Inr by (cases e) (auto dest: call_known split: if_split_asm)
        then obtain m where t: "message_for_tool i s = (Inr m, s)"
          by (auto simp: message_for_tool_def with_tool_def ret_def)
        show ?thesis
        proof (cases offered)
          case True
          with go p Inr Some c more opened st t show ?thesis by (auto simp: receive_def attended_def)
        next
          case False
          with go p Inr Some c show ?thesis by (auto simp: receive_def attended_def fail_tools_close)
        qed
      qed
    qed
  qed
qed

lemma tool_attended: "attended st \<Longrightarrow> attended (tool_step inp a st)"
proof (cases a)
  case (Tool_Settles i r out paths)
  assume st: "attended st"
  show ?thesis
  proof (cases "map_of (as_running st) i")
    case None
    with Tool_Settles st show ?thesis by simp
  next
    case (Some name)
    obtain x s where p: "publish_tool_result inp paths i name r out None None (as_turn st) = (x, s)" by fastforce
    have more: "open_calls s \<subseteq> open_calls (as_turn st)" using opensD [OF opens_result p, of "{}"] by simp
    show ?thesis
    proof (cases x)
      case (Inl d)
      with Tool_Settles Some p show ?thesis
        by (auto simp: leave_def attended_def or_else_def split: option.split)
    next
      case (Inr u)
      with result_closes p have "(i, False) \<notin> open_calls s" by blast
      with Tool_Settles Some p Inr more st show ?thesis
        by (auto simp: leave_def attended_def or_else_def split: option.split)
    qed
  qed
next
  case (Tool_Fails i f)
  then show "attended st \<Longrightarrow> ?thesis" by (auto simp: leave_def attended_def or_else_def split: option.split)
qed

lemma stream_attended: "attended st \<Longrightarrow> attended (stream_step inp offered a st)"
  by (cases a) (simp_all add: receive_attended tool_attended)

section \<open>When the turn is settled\<close>

lemma new_attended: "attended new_attempt"
  by (simp add: attended_def new_attempt_def open_calls_def new_turn_def)

lemma fold_attended:
  "attended st \<Longrightarrow> attended (fold (stream_step inp offered) as st)"
  "attended st \<Longrightarrow> attended (fold (tool_step inp) ts st)"
proof -
  show "attended st \<Longrightarrow> attended (fold (stream_step inp offered) as st)"
    by (induction as arbitrary: st) (simp_all add: stream_attended)
  show "attended st \<Longrightarrow> attended (fold (tool_step inp) ts st)"
    by (induction ts arbitrary: st) (simp_all add: tool_attended)
qed

interpretation opened: settling_law inp "\<lambda>m. opens m A" for inp A
  by unfold_locales
    (auto intro: opens_seq opens_choice opens_fail_tools opens_fail_assistant opens_end_step)

lemma opens_stream_ended: "ov = None \<or> (\<exists>msg c r md. ov = Some (ProviderError msg c r md)) \<Longrightarrow> opens (stream_ended inp ov e) A"
  by (rule opened.law_stream_ended) (auto intro!: opens_seq opens_change opens_fail_assistant)

lemma tools_ended_closes:
  assumes run: "tools_ended inp sc e t s = (Inr u, s')" and t: "t \<noteq> Tools_Failed Declined"
    and l: "t = Tools_Done \<Longrightarrow> (\<And>i. (i, False) \<notin> open_calls s)" and e: "e = Stream_Done \<or> t = Tools_Interrupted"
  shows "open_calls s' = {}"
proof -
  from run t obtain s1 s2 s3 s4 where s1: "settle_interrupted inp e t s = (Inr (), s1)" and s2: "settle_failed inp sc t s1 = (Inr (), s2)"
    and s3: "settle_step inp sc s2 = (Inr (), s3)" and s4: "settle_provider_error inp s3 = (Inr (), s4)"
    and s': "settle_hosted inp e s4 = (Inr (), s')"
    unfolding tools_ended_def by (simp add: seq_Inr) blast
  have keep: "open_calls s1 \<subseteq> open_calls s" "open_calls s2 \<subseteq> open_calls s1" "open_calls s3 \<subseteq> open_calls s2"
      "open_calls s4 \<subseteq> open_calls s3" "open_calls s' \<subseteq> open_calls s4"
    using opensD [OF opened.law_settle_interrupted s1, of "{}"] opensD [OF opened.law_settle_failed s2, of "{}"] opensD [OF opened.law_settle_step s3, of "{}"]
      opensD [OF opened.law_settle_provider_error s4, of "{}"] opensD [OF opened.law_settle_hosted s', of "{}"] by simp_all
  show ?thesis
  proof (cases t)
    case Tools_Interrupted
    let ?f = "\<lambda>s. if tn_active s then fail_assistant inp (lit ''Provider turn interrupted'') s else ret () s"
    from Tools_Interrupted s1 obtain x where x: "fail_unsettled_tools inp (lit ''Tool execution interrupted'') False s = (Inr (), x)" "?f x = (Inr (), s1)"
      by (auto simp: settle_interrupted_def seq_Inr)
    have "opens ?f {}" by (intro opens_if opens_fail_assistant) simp
    from opensD [OF this x(2)] x(1) fail_tools_close [of inp "lit ''Tool execution interrupted''" s] keep show ?thesis by auto
  next
    case Tools_Done
    then have loc: "(i, False) \<notin> open_calls s4" for i using keep l by blast
    have e: "e = Stream_Done" using e Tools_Done by simp
    show ?thesis
    proof (cases "tn_provider_failed s4")
      case True
      have "tn_provider_failed s3"
        using True s4 fail_tools(3) by (fastforce simp: settle_provider_error_def ret_def split: if_split_asm)
      with s4 fail_tools_close [of inp "lit ''Tool execution interrupted''" s3] keep show ?thesis by (auto simp: settle_provider_error_def)
    next
      case False
      with s' e have "(i, True) \<notin> open_calls s'" for i
        using fail_own_tools_close [of i inp "lit ''Provider did not return a tool result''" s4] by (auto simp: settle_hosted_def)
      moreover have "(i, False) \<notin> open_calls s'" for i using loc keep by blast
      ultimately show ?thesis by (metis (full_types) equals0I surj_pair)
    qed
  next
    case (Tools_Failed f)
    with s2 fail_tools_close [of inp "lit ''Tool execution failed: '' @ failure_text sc f" s1] keep show ?thesis
      by (auto simp: settle_failed_def)
  qed
qed

section \<open>The message of a turn that is settled\<close>

definition call_count :: "turn \<Rightarrow> nat" where
  "call_count s = how_often calls_tool (tn_events s)"

lemma step_events: "turn_step q inp s s' \<Longrightarrow> tn_events s' = tn_events s \<or> (\<exists>e. tn_events s' = tn_events s @ [e])"
  by (induction rule: turn_step.induct) auto

lemma steps_call_count: "(turn_step q inp)\<^sup>*\<^sup>* s s' \<Longrightarrow> call_count s \<le> call_count s'"
proof (induction rule: rtranclp_induct)
  case (step s1 s2)
  have "call_count s1 \<le> call_count s2" using step_events [OF step(2)] by (auto simp: call_count_def)
  with step show ?case by simp
qed simp

lemma steps_match:
  assumes "(turn_step True inp)\<^sup>*\<^sup>* s s'" "turn_ok s" "turn_match inp s" "call_count s' = call_count s"
  shows "turn_match inp s'"
  using assms
proof (induction rule: rtranclp_induct)
  case (step s1 s2)
  have "(turn_step True inp)\<^sup>*\<^sup>* s1 s2" using step(2) by (rule r_into_rtranclp)
  then have same: "call_count s1 = call_count s" "call_count s2 = call_count s1"
    using steps_call_count [OF step(1)] steps_call_count [of True inp s1 s2] step.prems(3) by simp_all
  have ok: "turn_ok s1" using turn_ok_steps [OF step(1) step.prems(1)] .
  have "turn_match inp s1" using step.IH step.prems same by simp
  moreover have "no_late_call s1 s2 \<or> tn_events s2 = tn_events s1"
    using step_events [OF step(2)] same(2) by (auto simp: no_late_call_def call_count_def split: if_split_asm)
  moreover have "turn_match inp s2" if "tn_events s2 = tn_events s1"
    using step(2) that \<open>turn_match inp s1\<close> by (cases rule: turn_step.cases) (auto simp: turn_match_def message_of_def tools_match_def)
  ultimately show ?case using step_turn_match [OF step(2) ok] by blast
qed

definition silent :: "'a effect \<Rightarrow> bool" where
  \<comment> \<open>publishes no call\<close>
  "silent m \<longleftrightarrow> (\<forall>s. call_count (snd (m s)) = call_count s)"

lemma silentD: "silent m \<Longrightarrow> m s = (r, s') \<Longrightarrow> call_count s' = call_count s"
  unfolding silent_def by (metis snd_conv)

lemma silent_bind: "silent m \<Longrightarrow> (\<And>x. silent (k x)) \<Longrightarrow> silent (bind m k)"
  by (auto simp: silent_def bind_def split: prod.split sum.split) (metis snd_conv)+

lemma silent_seq: "silent m \<Longrightarrow> silent k \<Longrightarrow> silent (seq m k)"
  unfolding seq_def by (rule silent_bind)

lemma silent_each: "(\<And>x. silent (f x)) \<Longrightarrow> silent (each f xs)"
proof (induction xs)
  case (Cons x xs)
  then show ?case by (simp add: silent_seq)
qed (simp add: silent_def ret_def)

lemma silent_if: "silent m \<Longrightarrow> silent k \<Longrightarrow> silent (\<lambda>s. if P s then m s else k s)"
  by (auto simp: silent_def)

lemma silent_change: "(\<And>s. tn_events (f s) = tn_events s) \<Longrightarrow> silent (change f)"
  by (simp add: silent_def change_def call_count_def)

lemma silent_emit: "\<not> calls_tool b \<Longrightarrow> silent (emit inp b)"
  by (simp add: silent_def emit_def change_def call_count_def)

lemma silent_basic [simp]: "silent (ret x)" "silent (start_assistant inp)"
  by (auto simp: silent_def effects start_assistant_def call_count_def split: option.split)

lemma silent_flush: "silent (flush inp)"
proof -
  have "silent (fragment_end inp text_fragments i None)" "silent (fragment_end inp reasoning_fragments i None)"
    "silent (fragment_end inp input_fragments i None)" for i
    by (auto simp: silent_def fragment_end_def text_fragments_def reasoning_fragments_def input_fragments_def current_assistant_def
        with_tool_def set_tool_def effects call_count_def split: option.split)
  moreover have "silent (fragment_flush inp fr)" if "\<And>i. silent (fragment_end inp fr i None)" for fr
    using silent_each [of "\<lambda>i. fragment_end inp fr i None", OF that] by (simp add: silent_def fragment_flush_def)
  ultimately show ?thesis unfolding flush_def by (metis silent_seq)
qed

lemma silent_fail_assistant: "silent (fail_assistant inp msg)"
proof -
  have "silent (\<lambda>s. if tn_failed s then ret () s else seq (flush inp) (bind (start_assistant inp) (\<lambda>m.
       seq (change (\<lambda>s. s\<lparr>tn_active := False, tn_failed := True\<rparr>)) (emit inp (StepFailedE m msg)))) s)"
    by (intro silent_if silent_seq silent_bind silent_flush silent_change silent_emit) simp_all
  then show ?thesis by (simp add: silent_def fail_assistant_def)
qed

lemma silent_end_step: "silent (end_step inp fin counts snap files)"
  unfolding end_step_def by (intro silent_bind silent_emit) simp_all

definition matching :: "turn_input \<Rightarrow> 'a effect \<Rightarrow> bool" where
  \<comment> \<open>the message of the turn keeps its tools as the publisher records them\<close>
  "matching inp m \<longleftrightarrow> (\<forall>s. turn_ok s \<longrightarrow> turn_match inp s \<longrightarrow> turn_ok (snd (m s)) \<and> turn_match inp (snd (m s)))"

lemma matchingD: "matching inp m \<Longrightarrow> turn_ok s \<Longrightarrow> turn_match inp s \<Longrightarrow> m s = (r, s') \<Longrightarrow> turn_ok s' \<and> turn_match inp s'"
  unfolding matching_def by (metis snd_conv)

lemma matching_steps: "simulated True inp m \<Longrightarrow> silent m \<Longrightarrow> matching inp m"
  unfolding matching_def simulated_def silent_def by (metis steps_match turn_ok_steps)

lemma matching_bind: "matching inp m \<Longrightarrow> (\<And>x. matching inp (k x)) \<Longrightarrow> matching inp (bind m k)"
  by (fastforce simp: matching_def bind_def split: prod.split sum.split)

lemma matching_seq: "matching inp m \<Longrightarrow> matching inp k \<Longrightarrow> matching inp (seq m k)"
  unfolding seq_def by (rule matching_bind)

lemma matching_fail_tools: "matching inp (fail_unsettled_tools inp msg own)"
proof -
  have "simulated False inp (fail_unsettled_tools inp msg own)" by (rule simulated_fail_tools) simp
  then show ?thesis using fail_tools_match turn_ok_steps unfolding matching_def simulated_def by blast
qed

lemma matching_basic [simp]: "matching inp (ret x)" "matching inp (fail_assistant inp msg)" "matching inp (end_step inp fin counts snap files)"
proof -
  show "matching inp (ret x)" by (simp add: matching_def ret_def)
  show "matching inp (fail_assistant inp msg)" by (intro matching_steps simulated_fail_assistant silent_fail_assistant)
  show "matching inp (end_step inp fin counts snap files)" by (intro matching_steps simulated_end_step silent_end_step)
qed

interpretation matched: settling_law inp "matching inp" for inp
proof unfold_locales
  show "matching inp (\<lambda>s. f s s)" if "\<And>s. matching inp (f s)" for f :: "turn \<Rightarrow> unit effect" using that by (simp add: matching_def)
qed (auto intro: matching_seq matching_fail_tools)

section \<open>An attempt as a sequence of calls\<close>

definition made_of :: "turn_input \<Rightarrow> bool \<Rightarrow> turn \<Rightarrow> bool" where
  \<comment> \<open>strictly: no call failed tools before the turn was settled\<close>
  "made_of inp q s \<longleftrightarrow> (\<exists>cs. list_all (permitted q) cs \<and> s = run_calls inp cs)"

definition calling :: "turn_input \<Rightarrow> bool \<Rightarrow> 'a effect \<Rightarrow> bool" where
  "calling inp q m \<longleftrightarrow> (\<forall>s. made_of inp q s \<longrightarrow> made_of inp q (snd (m s)))"

lemma callingD: "calling inp q m \<Longrightarrow> made_of inp q s \<Longrightarrow> m s = (r, s') \<Longrightarrow> made_of inp q s'"
  unfolding calling_def by (metis snd_conv)

lemma calling_call: "permitted q c \<Longrightarrow> calling inp q (call_turn inp c)"
proof -
  assume c: "permitted q c"
  have "run_calls inp (cs @ [c]) = snd (call_turn inp c (run_calls inp cs))" for cs by (simp add: run_calls_def)
  moreover have "list_all (permitted q) cs \<Longrightarrow> list_all (permitted q) (cs @ [c])" for cs using c by simp
  ultimately show ?thesis unfolding calling_def made_of_def by metis
qed

lemmas calling_calls = calling_call [of _ "Llm e ps", unfolded call_turn.simps] calling_call [of _ Flush, unfolded call_turn.simps]
  calling_call [of _ "Fail_Assistant msg", unfolded call_turn.simps] calling_call [of _ "Fail_Tools msg own", unfolded call_turn.simps]
  calling_call [of _ "End_Step fin counts snap files", unfolded call_turn.simps] for e ps msg own fin counts snap files

lemma calling_seq: "calling inp q m \<Longrightarrow> calling inp q k \<Longrightarrow> calling inp q (seq m k)"
  by (fastforce simp: calling_def seq_def bind_def split: prod.split sum.split)

lemma calling_ret [simp]: "calling inp q (ret x)"
  by (simp add: calling_def ret_def)

lemma made_new: "made_of inp q new_turn"
  unfolding made_of_def by (rule exI [of _ "[]"]) (simp add: run_calls_def)

lemma made_ok: "made_of inp q s \<Longrightarrow> turn_ok s"
  by (auto simp: made_of_def run_calls_ok)

lemma made_match: "made_of inp True s \<Longrightarrow> turn_match inp s"
  by (auto simp: made_of_def strict_turn_match)

lemma receive_made:
  assumes "made_of inp q (as_turn st)" "q \<Longrightarrow> offered"
  shows "made_of inp q (as_turn (receive inp offered e st))"
proof -
  obtain r s where p: "publish_llm_event inp [] e (as_turn st) = (r, s)" by fastforce
  have s: "made_of inp q s" by (rule callingD [OF calling_calls(1) assms(1) p]) simp
  have f: "made_of inp q (snd (fail_unsettled_tools inp msg False s))" if "\<not> offered" for msg
    using s calling_calls(4) [of q msg False inp] that assms(2) by (cases q) (auto simp: calling_def)
  have m: "snd (message_for_tool i s) = s" for i by (simp add: message_for_tool_def with_tool_def effects split: option.split)
  then have m: "message_for_tool i s = (x, s1) \<Longrightarrow> s1 = s" for i x s1 by (metis snd_conv)
  show ?thesis using assms(1) p s f
    by (auto simp: receive_def split: sum.split option.split prod.split dest: m)
qed

lemma tool_made: "made_of inp q (as_turn st) \<Longrightarrow> made_of inp q (as_turn (tool_step inp a st))"
proof (cases a)
  case (Tool_Settles i r out paths)
  assume st: "made_of inp q (as_turn st)"
  show ?thesis
  proof (cases "map_of (as_running st) i")
    case (Some name)
    obtain x s where p: "publish_llm_event inp paths (ToolResult i name r out None None) (as_turn st) = (x, s)" by fastforce
    have "made_of inp q s" by (rule callingD [OF calling_calls(1) st p]) simp
    with Tool_Settles Some p show ?thesis by (simp add: leave_def split: sum.split)
  qed (use Tool_Settles st in simp)
qed (simp add: leave_def)

lemma fold_made:
  "made_of inp q (as_turn st) \<Longrightarrow> (q \<Longrightarrow> offered) \<Longrightarrow> made_of inp q (as_turn (fold (stream_step inp offered) as st))"
  "made_of inp q (as_turn st) \<Longrightarrow> made_of inp q (as_turn (fold (tool_step inp) ts st))"
proof -
  show "made_of inp q (as_turn st) \<Longrightarrow> made_of inp q (as_turn (fold (tool_step inp) ts st))"
    by (induction ts arbitrary: st) (simp_all add: tool_made)
  have "made_of inp q (as_turn (stream_step inp offered a st))" if "made_of inp q (as_turn st)" "q \<Longrightarrow> offered" for a st
    using that by (cases a) (simp_all add: tool_made receive_made)
  then show "made_of inp q (as_turn st) \<Longrightarrow> (q \<Longrightarrow> offered) \<Longrightarrow> made_of inp q (as_turn (fold (stream_step inp offered) as st))"
    by (induction as arbitrary: st) simp_all
qed

section \<open>Settling does not die\<close>

lemma flush_input:
  "turn_ok s \<Longrightarrow> map_keys (tn_input s) = ks \<Longrightarrow> \<exists>s'. each (\<lambda>i. fragment_end inp input_fragments i None) ks s = (Inr (), s') \<and> turn_ok s'"
proof (induction ks arbitrary: s)
  case Nil
  then show ?case by (simp add: ret_def)
next
  case (Cons i ks)
  from Cons.prems obtain cur where cur: "map_of (tn_input s) i = Some cur" by (cases "tn_input s") auto
  obtain t where t: "map_of (tn_tools s) i = Some t" using turn_okD(5) [OF Cons.prems(1) cur] by blast
  let ?s1 = "published inp (ToolInputEndedE (ut_message t) i (concat cur))
       (s\<lparr>tn_tools := map_set (tn_tools s) i (t\<lparr>ut_ended := True\<rparr>), tn_input := map_delete (tn_input s) i\<rparr>)"
  have step: "fragment_end inp input_fragments i None s = (Inr (), ?s1)"
    using cur t by (simp add: fragment_end_def input_fragments_def with_tool_def set_tool_def effects)
  have ok1: "turn_ok ?s1" by (rule turn_ok_step [OF turn_step.input_end [where q = False, OF t cur] Cons.prems(1)])
  have "map_keys (tn_input ?s1) = ks"
    using delete_first [of i ks "tn_input s"] turn_okD(4) [OF Cons.prems(1)] Cons.prems(2) by (simp add: wf_map_def)
  from Cons.IH [OF ok1 this] step show ?case by (auto simp: seq_def bind_def)
qed

definition returns :: "turn_input \<Rightarrow> 'a effect \<Rightarrow> bool" where
  \<comment> \<open>from a good turn\<close>
  "returns inp m \<longleftrightarrow> (\<forall>s. turn_ok s \<longrightarrow> (\<exists>x s'. m s = (Inr x, s') \<and> turn_ok s'))"

lemma returns_bind: "returns inp m \<Longrightarrow> (\<And>x. returns inp (k x)) \<Longrightarrow> returns inp (bind m k)"
  by (fastforce simp: returns_def bind_def)

lemma returns_seq: "returns inp m \<Longrightarrow> returns inp k \<Longrightarrow> returns inp (seq m k)"
  unfolding seq_def by (rule returns_bind)

lemma returns_if: "returns inp m \<Longrightarrow> returns inp k \<Longrightarrow> returns inp (\<lambda>s. if P s then m s else k s)"
  by (auto simp: returns_def)

lemma returns_basic [simp]: "returns inp (ret x)" "returns inp (emit inp b)" "returns inp (start_assistant inp)"
proof -
  show "returns inp (ret x)" by (simp add: returns_def ret_def)
  have "turn_ok (published inp b s)" if "turn_ok s" for s using that by (auto simp: turn_ok_def)
  then show "returns inp (emit inp b)" by (simp add: returns_def published_def emit_def change_def)
  have "turn_ok (snd (start_assistant inp s))" if "turn_ok s" for s
    using simulated_start [of False inp] that turn_ok_steps by (auto simp: simulated_def)
  then show "returns inp (start_assistant inp)"
    by (fastforce simp: returns_def start_assistant_def effects split: option.split)
qed

lemma returns_flags: "(\<And>s. turn_ok s \<Longrightarrow> turn_ok (f s)) \<Longrightarrow> returns inp (change f)"
  by (simp add: returns_def change_def)

lemma returns_flush: "returns inp (flush inp)"
proof -
  have "returns inp (fragment_flush inp text_fragments)" "returns inp (fragment_flush inp reasoning_fragments)"
    "returns inp (fragment_flush inp input_fragments)"
    using flush_text flush_reasoning flush_input
    by (force simp: returns_def fragment_flush_def text_fragments_def reasoning_fragments_def input_fragments_def)+
  then show ?thesis unfolding flush_def by (intro returns_seq)
qed

lemma returns_fail_assistant: "returns inp (fail_assistant inp msg)"
proof -
  have "returns inp (\<lambda>s. if tn_failed s then ret () s else seq (flush inp) (bind (start_assistant inp) (\<lambda>m.
       seq (change (\<lambda>s. s\<lparr>tn_active := False, tn_failed := True\<rparr>)) (emit inp (StepFailedE m msg)))) s)"
    by (intro returns_if returns_seq returns_bind returns_flush returns_flags returns_basic) (simp add: turn_ok_def)
  then show ?thesis by (simp add: returns_def fail_assistant_def)
qed

lemma returns_end_step: "returns inp (end_step inp fin counts snap files)"
  unfolding end_step_def by (intro returns_bind returns_basic)

lemma returns_fail_tools: "returns inp (fail_unsettled_tools inp msg own)"
  unfolding returns_def
proof (intro allI impI)
  fix s assume ok: "turn_ok s"
  obtain r s' where r: "fail_unsettled_tools inp msg own s = (r, s')" by fastforce
  have "simulated False inp (fail_unsettled_tools inp msg own)" by (rule simulated_fail_tools) simp
  from simulatedD [OF this ok r] r fail_tools(1) [OF r]
  show "\<exists>x s'. fail_unsettled_tools inp msg own s = (Inr x, s') \<and> turn_ok s'" by auto
qed

interpretation returning: settling_law inp "returns inp" for inp
proof unfold_locales
  show "returns inp (\<lambda>s. f s s)" if "\<And>s. returns inp (f s)" for f :: "turn \<Rightarrow> unit effect" using that by (simp add: returns_def)
qed (auto intro: returns_seq returns_fail_tools returns_fail_assistant returns_end_step)

lemma returns_stream_ended: "ov = None \<or> (\<exists>msg c r md. ov = Some (ProviderError msg c r md)) \<Longrightarrow> returns inp (stream_ended inp ov e)"
proof (rule returning.law_stream_ended)
  assume ov: "ov = None \<or> (\<exists>msg c r md. ov = Some (ProviderError msg c r md))"
  have "returns inp (change (\<lambda>s. s\<lparr>tn_provider_failed := True\<rparr>))" by (rule returns_flags) (simp add: turn_ok_def)
  then show "returns inp (case ov of Some ev \<Rightarrow> publish_llm_event inp [] ev | None \<Rightarrow> ret ())"
    using ov by (auto intro!: returns_seq returns_fail_assistant)
qed

section \<open>The course of an attempt\<close>

definition overflow_kept :: "attempt_state \<Rightarrow> bool" where
  "overflow_kept st \<longleftrightarrow> as_overflow st = None \<or> (\<exists>msg c r md. as_overflow st = Some (ProviderError msg c r md))"

lemma fold_overflow: "overflow_kept st \<Longrightarrow> overflow_kept (fold (stream_step inp offered) as st)"
proof (induction as arbitrary: st)
  case (Cons a as)
  have "as_overflow (tool_step inp t st) = as_overflow st" for t
    by (cases t) (auto simp: leave_def split: option.split prod.split sum.split)
  moreover have "overflow_kept (receive inp offered e st)" for e
    using Cons.prems by (cases e) (auto simp: receive_def overflow_kept_def split: prod.split sum.split option.split)
  ultimately have "overflow_kept (stream_step inp offered a st)" using Cons.prems by (cases a) (simp_all add: overflow_kept_def)
  then show ?case using Cons.IH by simp
qed simp

interpretation called: settling_law inp "calling inp False" for inp
proof unfold_locales
  show "calling inp False (\<lambda>s. f s s)" if "\<And>s. calling inp False (f s)" for f :: "turn \<Rightarrow> unit effect" using that by (simp add: calling_def)
qed (auto intro: calling_seq calling_calls)

lemma stream_ended_made:
  assumes "made_of inp q s" "stream_ended inp ov e s = (r, s')"
  shows "made_of inp q s'"
proof -
  have "calling inp q (case ov of Some ev \<Rightarrow> publish_llm_event inp [] ev | None \<Rightarrow> ret ())"
    by (cases ov) (simp_all add: calling_calls(1))
  moreover have "calling inp q (seq (fail_unsettled_tools inp msg True) (fail_assistant inp msg'))" for msg msg'
    by (intro calling_seq calling_calls) simp_all
  then have "calling inp q (\<lambda>s. case e of
         Stream_Failed msg b \<Rightarrow>
           if tn_provider_failed s then ret () s
           else seq (fail_unsettled_tools inp (lit ''Provider did not return a tool result'') True) (fail_assistant inp msg) s
       | _ \<Rightarrow> ret () s)"
    by (cases e) (auto simp: calling_def ret_def)
  ultimately have "calling inp q (stream_ended inp ov e)" unfolding stream_ended_def by (rule calling_seq)
  from callingD [OF this assms] show ?thesis .
qed

lemma attempt_cases:
  assumes run: "run_attempt inp offered sc = Some (res, s)"
  obtains (restarts) "res = Overflow_Compacted" "tn_message s = None" "made_of inp offered s"
  | (settles) e t st where "made_of inp offered (as_turn st)" "e \<noteq> Stream_Interrupted \<Longrightarrow> attended st"
      "awaited st (sc_interrupted sc) = Some t" "tools_ended inp sc e t (as_turn st) = (Inr (), s)"
      "res = (if t = Tools_Failed Declined \<or> e \<noteq> Stream_Done \<or> t = Tools_Interrupted then Fails
         else Ends (\<not> tn_provider_failed s \<and> as_needs st))"
proof -
  define st0 where "st0 = fold (stream_step inp offered) (sc_stream sc) new_attempt"
  obtain r s1 where s1: "flush inp (as_turn st0) = (r, s1)" by fastforce
  define e where "e = stream_result st0 r (sc_end sc)"
  have m0: "made_of inp offered (as_turn st0)" unfolding st0_def
    by (rule fold_made) (simp_all add: new_attempt_def made_new)
  have m1: "made_of inp offered s1" by (rule callingD [OF calling_calls(2) m0 s1]) simp
  have a0: "attended st0" unfolding st0_def by (rule fold_attended(1) [OF new_attended])
  have ov: "overflow_kept st0" unfolding st0_def by (rule fold_overflow) (simp add: overflow_kept_def new_attempt_def)
  note run' = run [unfolded run_attempt_def Let_def, folded st0_def, unfolded s1 prod.case, folded e_def]
  show thesis
  proof (cases "sc_recovered sc \<and> tn_message s1 = None \<and> overflowed (as_overflow st0) e")
    case True
    with run' m1 show thesis by (intro restarts) simp_all
  next
    case False
    obtain r2 s2 where s2: "stream_ended inp (as_overflow st0) e s1 = (r2, s2)" by fastforce
    have m2: "made_of inp offered s2" by (rule stream_ended_made [OF m1 s2])
    have o2: "open_calls s2 \<subseteq> open_calls (as_turn st0)"
      using opensD [OF opens_flush s1, of "{}"] opensD [OF opens_stream_ended s2, of "{}"] ov by (auto simp: overflow_kept_def)
    define st3 where "st3 = fold (tool_step inp) (sc_tools sc)
      (st0\<lparr>as_turn := s2, as_running := if e = Stream_Interrupted then [] else as_running st0\<rparr>)"
    have m3: "made_of inp offered (as_turn st3)" unfolding st3_def by (rule fold_made(2)) (simp add: m2)
    have a3: "attended st3" if "e \<noteq> Stream_Interrupted"
      unfolding st3_def by (rule fold_attended(2)) (use that a0 o2 in \<open>auto simp: attended_def\<close>)
    show thesis
    proof (cases r2)
      case (Inl d)
      have "\<exists>x s'. stream_ended inp (as_overflow st0) e s1 = (Inr x, s') \<and> turn_ok s'"
        using returns_stream_ended ov made_ok [OF m1] by (simp add: returns_def overflow_kept_def)
      with Inl s2 show thesis by simp
    next
      case (Inr u)
      obtain t where t: "awaited st3 (sc_interrupted sc) = Some t"
        using run' False s2 Inr by (cases "awaited st3 (sc_interrupted sc)") (simp_all add: st3_def)
      obtain r4 s4 where s4: "tools_ended inp sc e t (as_turn st3) = (r4, s4)" by fastforce
      note final = run' [unfolded if_not_P [OF False] s2 Inr prod.case sum.case, folded st3_def, unfolded t s4 option.case prod.case]
      show thesis
      proof (cases r4)
        case Inl: (Inl d)
        have "\<exists>x s'. tools_ended inp sc e t (as_turn st3) = (Inr x, s') \<and> turn_ok s'"
          using returning.law_tools_ended made_ok [OF m3] by (simp add: returns_def)
        with Inl s4 show thesis by simp
      next
        case Inr: (Inr v)
        with final s4 m3 a3 t show thesis by (intro settles [of st3 e t]) (auto split: if_split_asm)
      qed
    qed
  qed
qed

section \<open>What an attempt leaves behind\<close>

lemma attempt_closes:
  assumes "run_attempt inp offered sc = Some (res, s)" "res = Fails \<Longrightarrow> sc_interrupted sc"
  shows "open_calls s = {}"
  using assms(1)
proof (cases rule: attempt_cases)
  case restarts
  then have "map_of (tn_tools s) i = None" for i
    using turn_okD(8) [OF made_ok [OF restarts(3)], of i] restarts(2) by (cases "map_of (tn_tools s) i") auto
  then show ?thesis by (simp add: open_calls_def)
next
  case (settles e t st)
  have t: "t = Tools_Interrupted \<or> t \<noteq> Tools_Failed Declined \<and> e = Stream_Done"
    using settles(3,5) assms(2) by (cases "sc_interrupted sc") (auto simp: awaited_def split: if_split_asm)
  have "(i, False) \<notin> open_calls (as_turn st)" if "t = Tools_Done" for i
  proof -
    have "as_failure st = None" "as_running st = []"
      using settles(3) that by (auto simp: awaited_def split: option.split_asm if_split_asm)
    moreover have "attended st" using settles(2) t that by simp
    ultimately show ?thesis by (simp add: attended_def)
  qed
  then show ?thesis using t by (intro tools_ended_closes [OF settles(4)]) auto
qed

lemma attempt_survives: "run_attempt inp offered sc = Some (res, s) \<Longrightarrow> res \<noteq> Dies d"
  by (cases rule: attempt_cases) (auto split: if_split_asm)

text \<open>C8. Whatever order events arrive in and tools end in, and whatever fails: settling the turn does not die, and
  where the run goes on, or the runner was interrupted while it waited for the tools, every tool that was called
  is settled, be it run here or by the provider.\<close>

theorem no_call_stays_open:
  assumes "run_attempt inp offered sc = Some (res, s)"
  shows "(\<forall>d. res \<noteq> Dies d) \<and> (res = Fails \<and> \<not> sc_interrupted sc \<or> open_calls s = {})"
  using attempt_survives [OF assms] attempt_closes [OF assms] by blast

lemma made_weak: "made_of inp q s \<Longrightarrow> made_of inp False s"
proof -
  have "permitted False c" for c by (cases c) simp_all
  then show "made_of inp q s \<Longrightarrow> made_of inp False s" by (auto simp: made_of_def list_all_iff)
qed

lemma attempt_match:
  assumes "run_attempt inp True sc = Some (res, s)"
  shows "made_of inp False s \<and> turn_match inp s"
  using assms
proof (cases rule: attempt_cases)
  case restarts
  then show ?thesis using made_weak made_match by blast
next
  case (settles e t st)
  have "made_of inp False s" by (rule callingD [OF called.law_tools_ended made_weak [OF settles(1)] settles(4)])
  moreover have "turn_ok s \<and> turn_match inp s"
    by (rule matchingD [OF matched.law_tools_ended made_ok [OF settles(1)] made_match [OF settles(1)] settles(4)])
  ultimately show ?thesis by simp
qed

lemma match_settled:
  assumes m: "turn_match inp s" and ok: "turn_ok s" and ne: "tn_events s \<noteq> []"
  shows "(\<forall>t. CTool t \<in> set (am_content (message_of inp s)) \<longrightarrow> \<not> waiting (ti_state t)) \<longleftrightarrow>
    (\<forall>i t. map_of (tn_tools s) i = Some t \<longrightarrow> ut_settled t)"
proof -
  have l: "list_all2 item_of (tn_tools s) (tools_in (am_content (message_of inp s)))"
    using m ne by (simp add: turn_match_def tools_match_def)
  have "(\<forall>t \<in> set (tools_in (am_content (message_of inp s))). \<not> waiting (ti_state t)) \<longleftrightarrow> (\<forall>p \<in> set (tn_tools s). ut_settled (snd p))"
    using l by (induction rule: list_all2_induct) (auto simp: item_of_def)
  moreover have "(\<forall>p \<in> set (tn_tools s). ut_settled (snd p)) \<longleftrightarrow> (\<forall>i t. map_of (tn_tools s) i = Some t \<longrightarrow> ut_settled t)"
    using turn_okD(1) [OF ok] by (auto simp: wf_map_get_iff)
  ultimately show ?thesis unfolding tools_in_set [symmetric] by blast
qed

lemma attempt_answers:
  assumes "run_attempt inp True sc = Some (res, s)" "answered [] (to_llm_messages parse model ms)"
  shows "\<exists>ms'. update_all memory (filter durable (tn_events s)) ms = Some ms' \<and>
    (answered [] (to_llm_messages parse model ms') \<longleftrightarrow> (\<forall>i t. map_of (tn_tools s) i = Some t \<longrightarrow> ut_settled t))"
proof (cases "tn_events s = []")
  case True
  have "tn_tools s = []" using attempt_match [OF assms(1)] True by (simp add: turn_match_def)
  with True assms(2) show ?thesis by simp
next
  case False
  from attempt_match [OF assms(1)] obtain cs where s: "s = run_calls inp cs" "turn_match inp s" "turn_ok s"
    using run_calls_ok by (auto simp: made_of_def)
  obtain now where h: "update_all memory (filter durable (tn_events s)) ms = Some (before_turn now ms @ [AssistantMessage (message_of inp s)])"
    using turn_history [of inp cs ms] False s(1) by auto
  have "no_waiting (before_turn now ms)" using assms(2) by (intro before_turn_no_waiting) (simp add: answered_history)
  then have "no_waiting (before_turn now ms @ [AssistantMessage (message_of inp s)]) \<longleftrightarrow>
      (\<forall>t. CTool t \<in> set (am_content (message_of inp s)) \<longrightarrow> \<not> waiting (ti_state t))"
    by (auto simp: no_waiting_def)
  with h match_settled [OF s(2,3) False] show ?thesis by (simp add: answered_history)
qed

text \<open>C15. The request after an attempt in which tools were offered answers every call, if the request before did,
  exactly when every tool the turn recorded is settled: with the property before, that is when no tool's input
  was started that no call followed.\<close>

theorem attempt_is_answered_iff:
  assumes "run_attempt inp True sc = Some (res, s)" "answered [] (to_llm_messages parse model ms)"
  shows "\<exists>ms'. update_all memory (filter durable (tn_events s)) ms = Some ms' \<and>
    (answered [] (to_llm_messages parse model ms') \<longleftrightarrow> (\<forall>i t. map_of (tn_tools s) i = Some t \<longrightarrow> ut_settled t))"
  by (rule attempt_answers [OF assms])

section \<open>Examples\<close>

definition call_event :: "string \<Rightarrow> bool option \<Rightarrow> llm_event" where
  "call_event i pe = ToolCall (lit i) (lit ''read'') (JObj []) pe None"

definition fiber_script :: attempt_script where
  \<comment> \<open>two tools run, one of them fails while the other still runs; a third is the provider's\<close>
  "fiber_script = \<lparr>sc_stream = [Receive (TextStart (lit ''t'') None), Receive (call_event ''a'' None), Receive (call_event ''h'' (Some True)),
       Work (Tool_Settles (lit ''a'') (TextResult (JStr (lit ''ok''))) None []), Receive (call_event ''b'' None), Receive (call_event ''c'' None),
       Receive (StepFinish 0 ToolCalls None None)],
     sc_end = Stream_Done, sc_recovered = False, sc_tools = [Tool_Fails (lit ''b'') (Failed_With (lit ''disk full''))], sc_interrupted = False,
     sc_snapshot = None, sc_files = (\<lambda>_ _. None), sc_text = (\<lambda>_. [])\<rparr>"

definition settled_ids :: "turn \<Rightarrow> (jstring \<times> bool) list" where
  "settled_ids s = map (\<lambda>(i, t). (i, ut_settled t)) (tn_tools s)"

lemma no_call_stays_open_witness:
  "\<exists>s. run_attempt demo_input True fiber_script = Some (Ends True, s) \<and>
     settled_ids s = [(lit ''a'', True), (lit ''h'', True), (lit ''b'', True), (lit ''c'', True)] \<and> open_calls s = {}"
proof -
  have "map_option (\<lambda>(r, s). (r, settled_ids s)) (run_attempt demo_input True fiber_script) =
    Some (Ends True, [(lit ''a'', True), (lit ''h'', True), (lit ''b'', True), (lit ''c'', True)])" by code_simp
  then obtain s where s: "run_attempt demo_input True fiber_script = Some (Ends True, s)"
    "settled_ids s = [(lit ''a'', True), (lit ''h'', True), (lit ''b'', True), (lit ''c'', True)]" by auto
  from no_call_stays_open [OF s(1)] s show ?thesis by auto
qed

definition unfinished_script :: attempt_script where
  \<comment> \<open>the input of a second call is not followed by the call\<close>
  "unfinished_script = fiber_script\<lparr>sc_stream := [Receive (call_event ''a'' None), Receive (ToolInputStart (lit ''b'') (lit ''read'') None),
       Receive (StepFinish 0 ToolCalls None None)],
     sc_tools := [Tool_Settles (lit ''a'') (TextResult (JStr (lit ''ok''))) None []]\<rparr>"

lemma attempt_is_answered_iff_witness:
  \<comment> \<open>the run goes on with a request that leaves a call unanswered\<close>
  "\<exists>s ms. run_attempt demo_input True unfinished_script = Some (Ends True, s) \<and>
     update_all memory (filter durable (tn_events s)) [] = Some ms \<and>
     \<not> answered [] (to_llm_messages (\<lambda>_. None) \<lparr>md_provider = lit ''p'', md_id = lit ''m''\<rparr> ms)"
proof -
  have "map_option (\<lambda>(r, s). (r, settled_ids s)) (run_attempt demo_input True unfinished_script) =
    Some (Ends True, [(lit ''a'', True), (lit ''b'', False)])" by code_simp
  then obtain s where s: "run_attempt demo_input True unfinished_script = Some (Ends True, s)"
    "settled_ids s = [(lit ''a'', True), (lit ''b'', False)]" by auto
  have "\<exists>t. map_of (tn_tools s) (lit ''b'') = Some t \<and> \<not> ut_settled t"
    using s(2) by (auto simp: settled_ids_def map_eq_Cons_conv lit_def)
  moreover have "answered [] (to_llm_messages (\<lambda>_. None) \<lparr>md_provider = lit ''p'', md_id = lit ''m''\<rparr> [])" by code_simp
  ultimately show ?thesis using attempt_is_answered_iff [OF s(1)] s(1) by blast
qed

end
