(* ===== verification/MessageProjector.thy ===== *)
theory MessageProjector imports MessageUpdater begin

text \<open>
  The message rows of the database (\<open>run\<close> and \<open>insertMessage\<close> of
  packages/core/src/session/projector.ts): the second implementation of the updater's adapter. A row
  holds its session, the sequence number of the event that inserted it, and the message; encoding a
  message into the columns and back is the schema's. An update in place keeps session and sequence.
\<close>

section \<open>Rows\<close>

record message_row =
  mr_session :: jstring
  mr_seq :: int
  mr_message :: session_message

definition session_rows :: "jstring \<Rightarrow> message_row list \<Rightarrow> message_row list" where
  \<comment> \<open>\<open>where session_id = sid order by seq\<close>\<close>
  "session_rows sid rows = sort_key mr_seq (filter (\<lambda>r. mr_session r = sid) rows)"

definition db_current_assistant :: "jstring \<Rightarrow> message_row list \<Rightarrow> assistant_message option" where
  "db_current_assistant sid rows =
    (case rev (filter (\<lambda>r. is_assistant (mr_message r)) (session_rows sid rows)) of
       [] \<Rightarrow> None
     | r # _ \<Rightarrow> (case mr_message r of AssistantMessage a \<Rightarrow> if am_completed a = None then Some a else None | _ \<Rightarrow> None))"

definition db_assistant :: "jstring \<Rightarrow> jstring \<Rightarrow> message_row list \<Rightarrow> assistant_message option" where
  "db_assistant sid i rows =
    (case find (\<lambda>r. message_id (mr_message r) = i \<and> mr_session r = sid \<and> is_assistant (mr_message r)) rows of
       None \<Rightarrow> None
     | Some r \<Rightarrow> (case mr_message r of AssistantMessage a \<Rightarrow> Some a | _ \<Rightarrow> None))"

definition db_shell :: "jstring \<Rightarrow> jstring \<Rightarrow> message_row list \<Rightarrow> shell_message option" where
  "db_shell sid call rows =
    (case find (is_shell call) (map mr_message (rev (filter (\<lambda>r. shell_type (mr_message r)) (session_rows sid rows)))) of
       Some (ShellMessage s) \<Rightarrow> Some s
     | _ \<Rightarrow> None)"

definition db_update :: "jstring \<Rightarrow> session_message \<Rightarrow> message_row list \<Rightarrow> message_row list" where
  "db_update sid m rows =
    map (\<lambda>r. if message_id (mr_message r) = message_id m \<and> mr_session r = sid then r\<lparr>mr_message := m\<rparr> else r) rows"

definition db_insert :: "jstring \<Rightarrow> int \<Rightarrow> session_message \<Rightarrow> message_row list \<Rightarrow> message_row list option" where
  \<comment> \<open>fails on the primary key and on the unique index of session and sequence\<close>
  "db_insert sid n m rows =
    (if message_id m \<in> set (map (\<lambda>r. message_id (mr_message r)) rows) \<or> (\<exists>r \<in> set rows. mr_session r = sid \<and> mr_seq r = n)
     then None else Some (rows @ [\<lparr>mr_session = sid, mr_seq = n, mr_message = m\<rparr>]))"

definition db_adapter :: "bool \<Rightarrow> jstring \<Rightarrow> int \<Rightarrow> message_row list adapter" where
  \<comment> \<open>the adapter \<open>run\<close> makes for an event of a session with its sequence number; \<open>known\<close>: the session has
     its own row, which the foreign key of an inserted message asks for\<close>
  "db_adapter known sid n = \<lparr>get_current_assistant = db_current_assistant sid, get_assistant = db_assistant sid,
     get_current_shell = db_shell sid, update_assistant = (\<lambda>a. db_update sid (AssistantMessage a)),
     update_shell = (\<lambda>s. db_update sid (ShellMessage s)), append_message = (\<lambda>m rows. if known then db_insert sid n m rows else None)\<rparr>"

definition run_event :: "bool \<Rightarrow> session_event \<Rightarrow> int \<Rightarrow> message_row list \<Rightarrow> message_row list option" where
  \<comment> \<open>\<open>run(db, event)\<close>\<close>
  "run_event known e n = update (db_adapter known (se_session e) n) e"

section \<open>The rows of a session as a list of messages\<close>

definition messages_of :: "jstring \<Rightarrow> message_row list \<Rightarrow> session_message list" where
  "messages_of sid rows = map mr_message (session_rows sid rows)"

definition rows_ok :: "message_row list \<Rightarrow> bool" where
  "rows_ok rows \<longleftrightarrow> distinct (map (\<lambda>r. message_id (mr_message r)) rows)"

definition rows_upto :: "jstring \<Rightarrow> int \<Rightarrow> message_row list \<Rightarrow> bool" where
  \<comment> \<open>and no row of the session is younger than the event\<close>
  "rows_upto sid n rows \<longleftrightarrow> rows_ok rows \<and> (\<forall>r \<in> set rows. mr_session r = sid \<longrightarrow> mr_seq r \<le> n)"

lemma sort_key_map_id: "(\<And>x. k (f x) = k x) \<Longrightarrow> sort_key k (map f xs) = map f (sort_key k xs)"
proof -
  assume k: "\<And>x. k (f x) = k x"
  have ins: "insort_key k (f x) (map f ys) = map f (insort_key k x ys)" for x ys
    by (induction ys) (simp_all add: k)
  show ?thesis by (induction xs) (simp_all add: ins)
qed

lemma update_last_map:
  assumes "distinct (map k xs)" "\<And>x y. P x \<Longrightarrow> P y \<Longrightarrow> k x = k y"
  shows "update_last P f xs = map (\<lambda>x. if P x then f x else x) xs"
  using assms(1)
proof (induction xs)
  case (Cons x xs)
  show ?case
  proof (cases "P x")
    case True
    have none: "\<forall>y \<in> set xs. \<not> P y"
    proof
      fix y assume y: "y \<in> set xs"
      with Cons.prems have "k y \<noteq> k x" by (metis distinct.simps(2) image_eqI list.set_map list.simps(9))
      then show "\<not> P y" using assms(2) [OF True, of y] by auto
    qed
    then have "map (\<lambda>x. if P x then f x else x) xs = xs" by (intro map_idI) simp
    with True none show ?thesis by simp
  next
    case False
    have "update_last P f xs = xs" if "\<forall>y \<in> set xs. \<not> P y" using that by (induction xs) auto
    with False Cons show ?thesis by auto
  qed
qed simp

lemma update_last_found:
  assumes "find_last P xs = Some y" "distinct (map g xs)" "g y = c"
  shows "update_last P (\<lambda>_. z) xs = map (\<lambda>x. if g x = c then z else x) xs"
  using assms(1,2)
proof (induction xs)
  case (Cons x xs)
  show ?case
  proof (cases "find_last P xs")
    case None
    with Cons.prems(1) have "P x" "y = x" by (auto split: if_splits)
    moreover have "map (\<lambda>x. if g x = c then z else x) xs = xs"
    proof (rule map_idI)
      fix w assume "w \<in> set xs"
      then have "g w \<noteq> g x" using Cons.prems(2) by (metis distinct.simps(2) image_eqI list.set_map list.simps(9))
      then show "(if g w = c then z else w) = w" using \<open>y = x\<close> assms(3) by simp
    qed
    ultimately show ?thesis using None assms(3) by (auto simp: find_last_None_iff)
  next
    case (Some w)
    with Cons.prems(1) have "w = y" by simp
    with Some have y: "y \<in> set xs" "P y" by (auto simp: find_last_Some_iff)
    then have "g x \<noteq> c" using Cons.prems(2) assms(3) by (metis distinct.simps(2) image_eqI list.set_map list.simps(9))
    with Cons.IH Some \<open>w = y\<close> Cons.prems(2) y show ?thesis by auto
  qed
qed simp

lemma sort_key_snoc: "\<forall>y \<in> set xs. k y < k x \<Longrightarrow> sort_key k (xs @ [x]) = sort_key k xs @ [x]"
proof -
  have ins: "k y < k x \<Longrightarrow> insort_key k y (ys @ [x]) = insort_key k y ys @ [x]" for y ys
    by (induction ys) auto
  show "\<forall>y \<in> set xs. k y < k x \<Longrightarrow> ?thesis" by (induction xs) (simp_all add: ins)
qed

lemma find_last_rev: "find_last P xs = find P (rev xs)"
proof (induction xs)
  case (Cons x xs)
  have "find P (ys @ [x]) = (case find P ys of Some y \<Rightarrow> Some y | None \<Rightarrow> if P x then Some x else None)" for ys
    by (induction ys) auto
  with Cons show ?case by simp
qed simp

lemma find_eq_hd_filter: "find P xs = (case filter P xs of [] \<Rightarrow> None | x # _ \<Rightarrow> Some x)"
  by (induction xs) auto

lemma find_distinct_rev:
  assumes "distinct (map k xs)" "\<And>x y. P x \<Longrightarrow> P y \<Longrightarrow> k x = k y"
  shows "x \<in> set xs \<Longrightarrow> P x \<Longrightarrow> find P xs = Some x"
proof -
  assume x: "x \<in> set xs" "P x"
  then obtain y where y: "find P xs = Some y" by (cases "find P xs") (auto simp: find_None_iff)
  then have "y \<in> set xs" "P y" by (auto simp: find_Some_iff)
  with x assms have "y = x" by (metis distinct_map inj_onD)
  with y show ?thesis by simp
qed

lemma set_session_rows [simp]: "set (session_rows sid rows) = {r \<in> set rows. mr_session r = sid}"
  by (auto simp: session_rows_def)

lemma in_messages: "m \<in> set (messages_of sid rows) \<longleftrightarrow> (\<exists>r \<in> set rows. mr_session r = sid \<and> mr_message r = m)"
  by (auto simp: messages_of_def)

lemma message_types: "is_assistant m \<longleftrightarrow> (\<exists>a. m = AssistantMessage a)" "shell_type m \<longleftrightarrow> (\<exists>s. m = ShellMessage s)"
  "is_shell call m \<longleftrightarrow> (\<exists>s. m = ShellMessage s \<and> sh_call s = call)"
  by (cases m; simp)+

lemma db_current_eq: "db_current_assistant sid rows = memory_current_assistant (messages_of sid rows)"
proof -
  let ?xs = "session_rows sid rows"
  have "find_last is_assistant (messages_of sid rows) = find is_assistant (map mr_message (rev ?xs))"
    by (simp add: find_last_rev messages_of_def rev_map)
  also have "\<dots> = (case filter (\<lambda>r. is_assistant (mr_message r)) (rev ?xs) of [] \<Rightarrow> None | r # _ \<Rightarrow> Some (mr_message r))"
    by (simp add: find_eq_hd_filter filter_map o_def split: list.split)
  finally show ?thesis
    by (simp add: db_current_assistant_def memory_current_assistant_def rev_filter split: list.split session_message.split)
qed

lemma db_shell_eq: "db_shell sid call rows = memory_shell call (messages_of sid rows)"
proof -
  have "find (is_shell call) (map mr_message (filter (\<lambda>r. shell_type (mr_message r)) ys)) = find (is_shell call) (map mr_message ys)" for ys
    by (induction ys) (auto simp: message_types)
  note this [of "rev (session_rows sid rows)"]
  moreover have "map mr_message (rev (filter (\<lambda>r. shell_type (mr_message r)) (session_rows sid rows))) =
      map mr_message (filter (\<lambda>r. shell_type (mr_message r)) (rev (session_rows sid rows)))" by (simp add: rev_filter)
  moreover have "rev (messages_of sid rows) = map mr_message (rev (session_rows sid rows))" by (simp add: messages_of_def rev_map)
  ultimately show ?thesis by (simp only: db_shell_def memory_shell_def find_last_rev)
qed

lemma distinct_message_ids: "rows_ok rows \<Longrightarrow> distinct (map message_id (messages_of sid rows))"
proof -
  assume "rows_ok rows"
  then have "distinct (map (\<lambda>r. message_id (mr_message r)) (filter (\<lambda>r. mr_session r = sid) rows))"
    by (simp add: rows_ok_def distinct_map_filter)
  then have "distinct (map (\<lambda>r. message_id (mr_message r)) (session_rows sid rows))"
    by (simp add: session_rows_def distinct_map)
  then show ?thesis by (simp add: messages_of_def o_def)
qed

lemma db_assistant_eq:
  assumes ok: "rows_ok rows"
  shows "db_assistant sid i rows = memory_assistant i (messages_of sid rows)"
proof (cases "\<exists>a. AssistantMessage a \<in> set (messages_of sid rows) \<and> am_id a = i")
  case True
  then obtain r a where r: "r \<in> set rows" "mr_session r = sid" "mr_message r = AssistantMessage a" "am_id a = i"
    by (auto simp: in_messages)
  have f: "find (\<lambda>r. message_id (mr_message r) = i \<and> mr_session r = sid \<and> is_assistant (mr_message r)) rows = Some r"
  proof (rule find_distinct_rev [OF ok [unfolded rows_ok_def] _ r(1)])
    show "message_id (mr_message r) = i \<and> mr_session r = sid \<and> is_assistant (mr_message r)" using r(2-4) by simp
  qed simp
  have db: "db_assistant sid i rows = Some a" unfolding db_assistant_def f by (simp add: r(3))
  have mem: "AssistantMessage a \<in> set (rev (messages_of sid rows))" using r(1-3) by (auto simp: in_messages)
  have "find (\<lambda>m. message_id m = i) (rev (messages_of sid rows)) = Some (AssistantMessage a)"
    by (rule find_distinct_rev [of message_id, OF _ _ mem])
      (use distinct_message_ids [OF ok, of sid] r(4) in \<open>simp_all add: rev_map [symmetric]\<close>)
  then show ?thesis by (simp add: db memory_assistant_def find_last_rev)
next
  case False
  then have "find (\<lambda>r. message_id (mr_message r) = i \<and> mr_session r = sid \<and> is_assistant (mr_message r)) rows = None"
    by (auto simp: find_None_iff in_messages message_types)
  moreover have "memory_assistant i (messages_of sid rows) = None"
    using False memory_assistant_SomeD [of i "messages_of sid rows"] by (cases "memory_assistant i (messages_of sid rows)") auto
  ultimately show ?thesis by (simp add: db_assistant_def)
qed

section \<open>Changes\<close>

lemma session_rows_update:
  "session_rows sid (db_update sid m rows) =
    map (\<lambda>r. if message_id (mr_message r) = message_id m then r\<lparr>mr_message := m\<rparr> else r) (session_rows sid rows)"
proof -
  let ?f = "\<lambda>r. if message_id (mr_message r) = message_id m then r\<lparr>mr_message := m\<rparr> else r"
  have "filter (\<lambda>r. mr_session r = sid) (db_update sid m rows) = map ?f (filter (\<lambda>r. mr_session r = sid) rows)"
    by (induction rows) (auto simp: db_update_def)
  then show ?thesis by (simp add: session_rows_def sort_key_map_id)
qed

lemma messages_update:
  "messages_of sid (db_update sid m rows) = map (\<lambda>x. if message_id x = message_id m then m else x) (messages_of sid rows)"
  unfolding messages_of_def session_rows_update by simp

lemma rows_upto_update: "rows_upto sid n rows \<Longrightarrow> rows_upto sid n (db_update sid m rows)"
proof -
  assume ok: "rows_upto sid n rows"
  have "map (\<lambda>r. message_id (mr_message r)) (db_update sid m rows) = map (\<lambda>r. message_id (mr_message r)) rows"
  proof -
    have "message_id (mr_message (if message_id (mr_message r) = message_id m \<and> mr_session r = sid then r\<lparr>mr_message := m\<rparr> else r)) =
        message_id (mr_message r)" for r
      by (cases "message_id (mr_message r) = message_id m \<and> mr_session r = sid") auto
    then show ?thesis unfolding db_update_def map_map comp_def by (rule arg_cong [where f = "\<lambda>f. map f rows", OF ext])
  qed
  then have "rows_ok (db_update sid m rows)" using ok by (simp only: rows_upto_def rows_ok_def)
  moreover have "\<forall>r \<in> set (db_update sid m rows). mr_session r = sid \<longrightarrow> mr_seq r \<le> n"
  proof (intro ballI impI)
    fix r assume r: "r \<in> set (db_update sid m rows)" "mr_session r = sid"
    from r(1) obtain r0 where r0: "r0 \<in> set rows"
      "r = (if message_id (mr_message r0) = message_id m \<and> mr_session r0 = sid then r0\<lparr>mr_message := m\<rparr> else r0)"
      unfolding db_update_def set_map by (elim imageE)
    have "mr_session r = mr_session r0" "mr_seq r = mr_seq r0" unfolding r0(2) by simp_all
    with ok r(2) r0(1) show "mr_seq r \<le> n" by (simp add: rows_upto_def)
  qed
  ultimately show ?thesis by (simp add: rows_upto_def)
qed

lemma db_insert_appends:
  assumes ok: "rows_upto sid n rows" and ins: "db_insert sid n m rows = Some rows'"
  shows "rows_upto sid n rows' \<and> messages_of sid rows' = messages_of sid rows @ [m]"
proof -
  let ?r = "\<lparr>mr_session = sid, mr_seq = n, mr_message = m\<rparr>"
  have new: "message_id m \<notin> set (map (\<lambda>r. message_id (mr_message r)) rows)" "\<forall>r \<in> set rows. mr_session r = sid \<longrightarrow> mr_seq r < n"
    and rows': "rows' = rows @ [?r]"
    using ok ins by (fastforce simp: db_insert_def rows_upto_def split: if_splits)+
  let ?xs = "filter (\<lambda>r. mr_session r = sid) rows"
  have "sort_key mr_seq (?xs @ [?r]) = sort_key mr_seq ?xs @ [?r]"
    by (rule sort_key_snoc) (use new(2) in auto)
  then have "messages_of sid rows' = messages_of sid rows @ [m]" by (simp add: rows' messages_of_def session_rows_def)
  moreover have "rows_upto sid n rows'" using ok new(1) by (auto simp: rows' rows_upto_def rows_ok_def)
  ultimately show ?thesis by blast
qed

interpretation db_store: message_store "db_adapter known sid n" "messages_of sid" "rows_upto sid n" for known sid n
proof unfold_locales
  fix rows assume ok: "rows_upto sid n rows"
  then have ids: "distinct (map message_id (messages_of sid rows))" "rows_ok rows"
    using distinct_message_ids by (auto simp: rows_upto_def)
  show "get_current_assistant (db_adapter known sid n) rows = memory_current_assistant (messages_of sid rows)"
    by (simp add: db_adapter_def db_current_eq)
  show "get_assistant (db_adapter known sid n) i rows = memory_assistant i (messages_of sid rows)" for i
    by (simp add: db_adapter_def db_assistant_eq ids)
  show "get_current_shell (db_adapter known sid n) call rows = memory_shell call (messages_of sid rows)" for call
    by (simp add: db_adapter_def db_shell_eq)
  show "rows_upto sid n (update_assistant (db_adapter known sid n) a rows) \<and>
      messages_of sid (update_assistant (db_adapter known sid n) a rows) = memory_update_assistant a (messages_of sid rows)"
    if a0: "AssistantMessage a0 \<in> set (messages_of sid rows)" "am_id a = am_id a0" for a a0
  proof -
    have "memory_update_assistant a (messages_of sid rows) =
        map (\<lambda>m. if message_id m = am_id a then if is_assistant m then AssistantMessage a else m else m) (messages_of sid rows)"
      unfolding memory_update_assistant_def by (rule update_last_map [OF ids(1)]) simp
    also have "\<dots> = map (\<lambda>m. if message_id m = am_id a then AssistantMessage a else m) (messages_of sid rows)"
    proof (rule map_cong [OF refl])
      fix m assume m: "m \<in> set (messages_of sid rows)"
      have "m = AssistantMessage a0" if "message_id m = am_id a"
        using that a0 m ids(1) by (metis distinct_map inj_onD message_id.simps(7))
      then show "(if message_id m = am_id a then if is_assistant m then AssistantMessage a else m else m) =
          (if message_id m = am_id a then AssistantMessage a else m)" by auto
    qed
    finally show ?thesis
      using rows_upto_update [OF ok] by (simp add: db_adapter_def messages_update)
  qed
  show "rows_upto sid n (update_shell (db_adapter known sid n) s rows) \<and>
      messages_of sid (update_shell (db_adapter known sid n) s rows) = memory_update_shell s (messages_of sid rows)"
    if s0: "memory_shell (sh_call s) (messages_of sid rows) = Some s0" "sh_id s = sh_id s0" for s s0
  proof -
    have last: "find_last (is_shell (sh_call s)) (messages_of sid rows) = Some (ShellMessage s0)"
      using s0(1) memory_shell_SomeD [OF s0(1)]
      by (auto simp: memory_shell_def split: option.splits session_message.splits)
    have "memory_update_shell s (messages_of sid rows) =
        map (\<lambda>m. if message_id m = sh_id s then ShellMessage s else m) (messages_of sid rows)"
      unfolding memory_update_shell_def by (rule update_last_found [OF last ids(1)]) (simp_all add: s0(2))
    with rows_upto_update [OF ok] show ?thesis by (simp add: db_adapter_def messages_update)
  qed
  show "rows_upto sid n rows' \<and> messages_of sid rows' = messages_of sid rows @ [m]"
    if "append_message (db_adapter known sid n) m rows = Some rows'" for m rows'
    using db_insert_appends [OF ok] that by (simp add: db_adapter_def split: if_splits)
qed

section \<open>One event\<close>

lemma db_insert_other: "db_insert s n m rows = Some rows' \<Longrightarrow> s \<noteq> sid \<Longrightarrow>
    session_rows sid rows' = session_rows sid rows"
  by (auto simp: db_insert_def session_rows_def split: if_splits)

lemma filter_update_other: "s \<noteq> sid \<Longrightarrow> filter (\<lambda>r. mr_session r = sid) (db_update s m rows) = filter (\<lambda>r. mr_session r = sid) rows"
  by (induction rows) (auto simp: db_update_def)

lemma db_update_other: "s \<noteq> sid \<Longrightarrow> session_rows sid (db_update s m rows) = session_rows sid rows"
  by (simp add: session_rows_def filter_update_other)

lemma run_event_other:
  assumes run: "run_event known e n rows = Some rows'" and other: "se_session e \<noteq> sid"
  shows "session_rows sid rows' = session_rows sid rows"
proof -
  note ops = db_update_other [OF other] db_insert_other [OF _ other]
  show ?thesis using run
    by (cases "se_body e")
      (auto simp: run_event_def update_def db_adapter_def update_owned_assistant_def Let_def ops split: option.splits if_split_asm)
qed

lemma run_event_messages:
  assumes run: "run_event known e n rows = Some rows'" and ok: "rows_upto (se_session e) n rows"
  shows "rows_upto (se_session e) n rows' \<and> update memory e (messages_of (se_session e) rows) = Some (messages_of (se_session e) rows')"
  using db_store.update_refines [of "se_session e" n rows known e rows'] run ok by (simp add: run_event_def)

lemma set_session_rows_cong: "session_rows sid rows' = session_rows sid rows \<Longrightarrow>
   {r \<in> set rows'. mr_session r = sid} = {r \<in> set rows. mr_session r = sid}"
  by (metis set_session_rows)

end
