(* ===== verification/EventLog.thy ===== *)
theory EventLog imports JsJson begin

text \<open>
  The durable event log (packages/core/src/event.ts). Events of an aggregate are numbered from 0
  without gaps; committing one runs its projectors in the same transaction; a replica replays the
  serialized events of another. The state holds the two tables of the log, the rest of the database
  as one value the projectors rewrite, and the traces of what was announced: \<open>bus\<close>, the events
  given to listeners and queues, and \<open>wakes\<close>, the aggregates whose durable streams were woken.
  Schemas (encoding and decoding of an event's data) are library code and fields of the event's
  definition; the ids of new events and the metadata and location of a payload are left out or given.
\<close>

section \<open>Data\<close>

record 'd durable_spec =
  aggregate_of :: "'d \<Rightarrow> jstring option" \<comment> \<open>the aggregate field, when it is a string\<close>
  version :: nat

record ('d, 'j) event_def =
  def_type :: jstring
  def_durable :: "'d durable_spec option"
  encode :: "'d \<Rightarrow> 'j option" \<comment> \<open>\<open>None\<close>: the schema throws\<close>
  decode :: "'j \<Rightarrow> 'd option"

record 'd payload =
  ev_id :: jstring
  ev_type :: jstring
  ev_data :: 'd
  ev_durable :: "(jstring \<times> int \<times> nat) option" \<comment> \<open>aggregate, sequence, version\<close>

record 'j event_row =
  row_id :: jstring
  row_aggregate :: jstring
  row_seq :: int
  row_type :: jstring
  row_data :: 'j

record seq_row =
  seq :: int
  owner :: "jstring option"

record ('d, 'j, 'p) event_log =
  sequences :: "jstring \<rightharpoonup> seq_row"
  log :: "'j event_row list"
  tables :: 'p
  bus :: "'d payload list"
  wakes :: "jstring list"

datatype invalid = Unknown_Type | No_Aggregate | Aggregate_Mismatch | Owner_Mismatch | Replay_Diverged
  | Sequence_Mismatch | Event_Exists | Mixed_Aggregates | Replay_Gap | Hook_Not_Durable | Bad_Data

datatype 'x log_error = Invalid invalid | Defect 'x

record replay_input =
  in_seq :: int
  in_aggregate :: jstring
  in_owner :: "jstring option"
  strict_owner :: bool

record replay_options =
  opt_publish :: bool
  opt_owner :: "jstring option"
  opt_strict :: bool

type_synonym ('d, 'p, 'x) projector = "'d payload \<Rightarrow> 'p \<Rightarrow> ('x, 'p) result"
type_synonym ('p, 'x) hook = "int \<Rightarrow> 'p \<Rightarrow> ('x, 'p) result"

definition empty_log :: "'p \<Rightarrow> ('d, 'j, 'p) event_log" where
  "empty_log p = \<lparr>sequences = Map.empty, log = [], tables = p, bus = [], wakes = []\<rparr>"

definition named :: "jstring option \<Rightarrow> bool" where
  \<comment> \<open>an owner id that is truthy\<close>
  "named ow \<longleftrightarrow> ow \<noteq> None \<and> ow \<noteq> Some []"

definition versioned_type :: "jstring \<Rightarrow> nat \<Rightarrow> jstring" where
  "versioned_type t v = t @ lit ''.'' @ digits v"

section \<open>Committing\<close>

definition latest_sequence :: "('d, 'j, 'p) event_log \<Rightarrow> jstring \<Rightarrow> int" where
  "latest_sequence st agg = (case sequences st agg of None \<Rightarrow> -1 | Some r \<Rightarrow> seq r)"

definition owner_of :: "('d, 'j, 'p) event_log \<Rightarrow> jstring \<Rightarrow> jstring option" where
  "owner_of st agg = Option.bind (sequences st agg) owner"

fun project_all :: "('d, 'p, 'x) projector list \<Rightarrow> 'd payload \<Rightarrow> 'p \<Rightarrow> ('x, 'p) result" where
  "project_all [] ev p = Inr p"
| "project_all (f # fs) ev p = rbind (f ev p) (project_all fs ev)"

definition run_hook :: "('p, 'x) hook option \<Rightarrow> int \<Rightarrow> 'p \<Rightarrow> ('x, 'p) result" where
  "run_hook h s p = (case h of None \<Rightarrow> Inr p | Some f \<Rightarrow> f s p)"

definition transaction :: "('s \<Rightarrow> ('e, 'a \<times> 's) result) \<Rightarrow> 's \<Rightarrow> ('e, 'a) result \<times> 's" where
  \<comment> \<open>a transaction that fails is rolled back\<close>
  "transaction f st = (case f st of Inl e \<Rightarrow> (Inl e, st) | Inr (a, st') \<Rightarrow> (Inr a, st'))"

definition adopt_owner :: "jstring \<Rightarrow> jstring option \<Rightarrow> ('d, 'j, 'p) event_log \<Rightarrow> ('d, 'j, 'p) event_log" where
  "adopt_owner agg ow st =
    (if named ow \<and> owner_of st agg = None
     then st\<lparr>sequences := (sequences st)(agg := map_option (\<lambda>r. r\<lparr>owner := ow\<rparr>) (sequences st agg))\<rparr> else st)"

definition new_row :: "('d, 'j) event_def \<Rightarrow> 'd durable_spec \<Rightarrow> 'd payload \<Rightarrow> jstring \<Rightarrow> int \<Rightarrow> 'j \<Rightarrow> 'j event_row" where
  "new_row def spec ev agg s encoded = \<lparr>row_id = ev_id ev, row_aggregate = agg, row_seq = s,
     row_type = versioned_type (def_type def) (version spec), row_data = encoded\<rparr>"

definition append_row :: "'j event_row \<Rightarrow> jstring option \<Rightarrow> 'p \<Rightarrow> ('d, 'j, 'p) event_log \<Rightarrow> ('d, 'j, 'p) event_log" where
  "append_row r ow p st =
    (let agg = row_aggregate r;
         own = (case sequences st agg of None \<Rightarrow> ow | Some q \<Rightarrow> if named ow \<and> owner q = None then ow else owner q)
     in st\<lparr>sequences := (sequences st)(agg \<mapsto> \<lparr>seq = row_seq r, owner = own\<rparr>), log := log st @ [r], tables := p\<rparr>)"

definition commit_tx ::
  "(jstring \<Rightarrow> ('d, 'p, 'x) projector list) \<Rightarrow> ('d, 'j) event_def \<Rightarrow> 'd durable_spec \<Rightarrow> 'd payload \<Rightarrow> jstring \<Rightarrow>
   replay_input option \<Rightarrow> ('p, 'x) hook option \<Rightarrow> ('d, 'j, 'p) event_log \<Rightarrow>
   ('x log_error, (jstring \<times> int) option \<times> ('d, 'j, 'p) event_log) result" where
  "commit_tx proj def spec ev agg input hook st =
    (case encode def (ev_data ev) of
       None \<Rightarrow> Inl (Invalid Bad_Data)
     | Some encoded \<Rightarrow>
         let latest = latest_sequence st agg; row_owner = owner_of st agg;
             in_owner = Option.bind input in_owner;
             s = (case input of Some i \<Rightarrow> in_seq i | None \<Rightarrow> latest + 1);
             foreign = (input \<noteq> None \<and> named row_owner \<and> row_owner \<noteq> in_owner)
         in if (case input of Some i \<Rightarrow> strict_owner i | None \<Rightarrow> False) \<and> foreign then Inl (Invalid Owner_Mismatch)
            else if input \<noteq> None \<and> s \<le> latest then
              (case find (\<lambda>r. row_aggregate r = agg \<and> row_seq r = s) (log st) of
                 Some stored \<Rightarrow>
                   if row_id stored = ev_id ev \<and> row_type stored = versioned_type (def_type def) (version spec) \<and>
                      row_data stored = encoded
                   then Inr (None, adopt_owner agg in_owner st) else Inl (Invalid Replay_Diverged)
               | None \<Rightarrow> Inl (Invalid Replay_Diverged))
            else if foreign then Inr (None, st)
            else if input \<noteq> None \<and> s \<noteq> latest + 1 then Inl (Invalid Sequence_Mismatch)
            else if ev_id ev \<in> set (map row_id (log st)) then Inl (Invalid Event_Exists)
            else
              (case rbind (project_all (proj (ev_type ev)) (ev\<lparr>ev_durable := Some (agg, s, version spec)\<rparr>) (tables st))
                      (run_hook hook s) of
                 Inl x \<Rightarrow> Inl (Defect x)
               | Inr p \<Rightarrow> Inr (Some (agg, s), append_row (new_row def spec ev agg s encoded) in_owner p st)))"

definition commit_durable_event ::
  "(jstring \<Rightarrow> ('d, 'p, 'x) projector list) \<Rightarrow> ('d, 'j) event_def \<Rightarrow> 'd payload \<Rightarrow> replay_input option \<Rightarrow> ('p, 'x) hook option \<Rightarrow>
   ('d, 'j, 'p) event_log \<Rightarrow> ('x log_error, (jstring \<times> int) option) result \<times> ('d, 'j, 'p) event_log" where
  "commit_durable_event proj def ev input hook st =
    (case def_durable def of
       None \<Rightarrow> (Inr None, st)
     | Some spec \<Rightarrow>
         (case aggregate_of spec (ev_data ev) of
            None \<Rightarrow> (Inl (Invalid No_Aggregate), st)
          | Some agg \<Rightarrow>
              if input \<noteq> None \<and> map_option in_aggregate input \<noteq> Some agg then (Inl (Invalid Aggregate_Mismatch), st)
              else (case transaction (commit_tx proj def spec ev agg input hook) st of
                      (Inr (Some c), st1) \<Rightarrow> (Inr (Some c), st1\<lparr>wakes := wakes st1 @ [fst c]\<rparr>)
                    | r \<Rightarrow> r)))"

definition notify :: "'d payload \<Rightarrow> ('d, 'j, 'p) event_log \<Rightarrow> ('d, 'j, 'p) event_log" where
  "notify ev st = st\<lparr>bus := bus st @ [ev]\<rparr>"

definition stamp :: "('d, 'j) event_def \<Rightarrow> jstring \<times> int \<Rightarrow> 'd payload \<Rightarrow> 'd payload" where
  "stamp def c ev = ev\<lparr>ev_durable := map_option (\<lambda>spec. (fst c, snd c, version spec)) (def_durable def)\<rparr>"

definition publish_event ::
  "(jstring \<Rightarrow> ('d, 'p, 'x) projector list) \<Rightarrow> ('d, 'j) event_def \<Rightarrow> 'd payload \<Rightarrow> ('p, 'x) hook option \<Rightarrow>
   ('d, 'j, 'p) event_log \<Rightarrow> ('x log_error, 'd payload) result \<times> ('d, 'j, 'p) event_log" where
  "publish_event proj def ev hook st =
    (if def_durable def = None \<and> hook \<noteq> None then (Inl (Invalid Hook_Not_Durable), st)
     else if def_durable def \<noteq> None then
       (case commit_durable_event proj def ev None hook st of
          (Inl e, st1) \<Rightarrow> (Inl e, st1)
        | (Inr (Some c), st1) \<Rightarrow> (Inr (stamp def c ev), notify (stamp def c ev) st1)
        | (Inr None, st1) \<Rightarrow> (Inr ev, notify ev st1))
     else (Inr ev, notify ev st))"

definition publish ::
  "(jstring \<Rightarrow> ('d, 'p, 'x) projector list) \<Rightarrow> ('d, 'j) event_def \<Rightarrow> 'd \<Rightarrow> jstring \<Rightarrow> ('p, 'x) hook option \<Rightarrow>
   ('d, 'j, 'p) event_log \<Rightarrow> ('x log_error, 'd payload) result \<times> ('d, 'j, 'p) event_log" where
  \<comment> \<open>under the id of the options or a fresh one\<close>
  "publish proj def d eid hook = publish_event proj def \<lparr>ev_id = eid, ev_type = def_type def, ev_data = d, ev_durable = None\<rparr> hook"

section \<open>Replaying\<close>

definition replay ::
  "(jstring \<Rightarrow> ('d, 'p, 'x) projector list) \<Rightarrow> (jstring \<Rightarrow> ('d, 'j) event_def option) \<Rightarrow> replay_options \<Rightarrow> 'j event_row \<Rightarrow>
   ('d, 'j, 'p) event_log \<Rightarrow> ('x log_error, unit) result \<times> ('d, 'j, 'p) event_log" where
  "replay proj manifest opts r st =
    (case manifest (row_type r) of
       None \<Rightarrow> (Inl (Invalid Unknown_Type), st)
     | Some def \<Rightarrow>
         if def_durable def = None then (Inl (Invalid Unknown_Type), st)
         else
           (case decode def (row_data r) of
              None \<Rightarrow> (Inl (Invalid Bad_Data), st)
            | Some d \<Rightarrow>
                let ev = \<lparr>ev_id = row_id r, ev_type = def_type def, ev_data = d, ev_durable = None\<rparr>;
                    input = \<lparr>in_seq = row_seq r, in_aggregate = row_aggregate r, in_owner = opt_owner opts, strict_owner = opt_strict opts\<rparr>
                in (case commit_durable_event proj def ev (Some input) None st of
                      (Inl e, st1) \<Rightarrow> (Inl e, st1)
                    | (Inr None, st1) \<Rightarrow> (Inr (), st1)
                    | (Inr (Some c), st1) \<Rightarrow> (Inr (), if opt_publish opts then notify (stamp def c ev) st1 else st1))))"

fun replay_each ::
  "(jstring \<Rightarrow> ('d, 'p, 'x) projector list) \<Rightarrow> (jstring \<Rightarrow> ('d, 'j) event_def option) \<Rightarrow> replay_options \<Rightarrow> 'j event_row list \<Rightarrow>
   ('d, 'j, 'p) event_log \<Rightarrow> ('x log_error, unit) result \<times> ('d, 'j, 'p) event_log" where
  "replay_each proj manifest opts [] st = (Inr (), st)"
| "replay_each proj manifest opts (r # rs) st =
    (case replay proj manifest opts r st of
       (Inl e, st1) \<Rightarrow> (Inl e, st1)
     | (Inr _, st1) \<Rightarrow> replay_each proj manifest opts rs st1)"

definition replay_all ::
  "(jstring \<Rightarrow> ('d, 'p, 'x) projector list) \<Rightarrow> (jstring \<Rightarrow> ('d, 'j) event_def option) \<Rightarrow> replay_options \<Rightarrow> 'j event_row list \<Rightarrow>
   ('d, 'j, 'p) event_log \<Rightarrow> ('x log_error, jstring option) result \<times> ('d, 'j, 'p) event_log" where
  "replay_all proj manifest opts rs st =
    (case rs of
       [] \<Rightarrow> (Inr None, st)
     | r # _ \<Rightarrow>
         if row_aggregate r = [] then (Inr None, st)
         else if \<exists>e \<in> set rs. row_aggregate e \<noteq> row_aggregate r then (Inl (Invalid Mixed_Aggregates), st)
         else if map row_seq rs \<noteq> map (\<lambda>i. row_seq r + int i) [0..<length rs] then (Inl (Invalid Replay_Gap), st)
         else (case replay_each proj manifest opts rs st of
                 (Inl e, st1) \<Rightarrow> (Inl e, st1)
               | (Inr _, st1) \<Rightarrow> (Inr (Some (row_aggregate r)), st1)))"

section \<open>The other operations\<close>

definition remove :: "jstring \<Rightarrow> ('d, 'j, 'p) event_log \<Rightarrow> ('d, 'j, 'p) event_log" where
  "remove agg st = st\<lparr>sequences := (sequences st)(agg := None), log := filter (\<lambda>r. row_aggregate r \<noteq> agg) (log st)\<rparr>"

definition claim :: "jstring \<Rightarrow> jstring \<Rightarrow> ('d, 'j, 'p) event_log \<Rightarrow> ('d, 'j, 'p) event_log" where
  "claim agg ow st = st\<lparr>sequences := (sequences st)(agg := map_option (\<lambda>r. r\<lparr>owner := Some ow\<rparr>) (sequences st agg))\<rparr>"

definition rows_after :: "('d, 'j, 'p) event_log \<Rightarrow> jstring \<Rightarrow> int \<Rightarrow> 'j event_row list" where
  \<comment> \<open>the query of \<open>readAfter\<close>; decoding its rows is the schema's\<close>
  "rows_after st agg after = sort_key row_seq (filter (\<lambda>r. row_aggregate r = agg \<and> after < row_seq r) (log st))"

definition read_aggregate ::
  "('d, 'j, 'p) event_log \<Rightarrow> jstring \<Rightarrow> int option \<Rightarrow> nat \<Rightarrow> jstring set \<Rightarrow> 'j event_row list \<times> bool" where
  \<comment> \<open>a page of at most \<open>limit\<close> rows of the given types, and whether there are more\<close>
  "read_aggregate st agg after limit types =
    (let rows = take (limit + 1) (sort_key row_seq (filter (\<lambda>r. row_aggregate r = agg \<and>
                  (case after of Some a \<Rightarrow> a | None \<Rightarrow> -1) < row_seq r \<and> row_type r \<in> types) (log st)))
     in (take limit rows, limit < length rows))"

section \<open>The log is gapless\<close>

definition rows_of :: "('d, 'j, 'p) event_log \<Rightarrow> jstring \<Rightarrow> 'j event_row list" where
  "rows_of st agg = filter (\<lambda>r. row_aggregate r = agg) (log st)"

definition log_ok :: "('d, 'j, 'p) event_log \<Rightarrow> bool" where
  \<comment> \<open>the rows of each aggregate are numbered 0, 1, ... up to its sequence, in the order they were
     committed, and no event id is used twice\<close>
  "log_ok st \<longleftrightarrow>
    (\<forall>agg. map row_seq (rows_of st agg) = [0 .. latest_sequence st agg] \<and> -1 \<le> latest_sequence st agg) \<and>
    distinct (map row_id (log st))"

datatype ('d, 'j, 'p, 'x) log_op =
    Publish "('d, 'j) event_def" 'd jstring "('p, 'x) hook option"
  | Replay "'j event_row list" replay_options
  | Remove jstring
  | Claim jstring jstring

fun run_op :: "(jstring \<Rightarrow> ('d, 'p, 'x) projector list) \<Rightarrow> (jstring \<Rightarrow> ('d, 'j) event_def option) \<Rightarrow> ('d, 'j, 'p, 'x) log_op \<Rightarrow>
    ('d, 'j, 'p) event_log \<Rightarrow> ('d, 'j, 'p) event_log" where
  "run_op proj manifest (Publish def d eid hook) st = snd (publish proj def d eid hook st)"
| "run_op proj manifest (Replay rs opts) st = snd (replay_all proj manifest opts rs st)"
| "run_op proj manifest (Remove agg) st = remove agg st"
| "run_op proj manifest (Claim agg ow) st = claim agg ow st"

lemma log_ok_empty: "log_ok (empty_log p)"
  by (simp add: log_ok_def empty_log_def rows_of_def latest_sequence_def)

lemma log_ok_seqs: "log_ok st \<Longrightarrow> map row_seq (rows_of st agg) = [0 .. latest_sequence st agg]"
  by (simp add: log_ok_def)

lemma log_ok_cong:
  "log_ok st \<Longrightarrow> log st' = log st \<Longrightarrow> latest_sequence st' = latest_sequence st \<Longrightarrow> log_ok st'"
  by (simp add: log_ok_def rows_of_def)

lemma latest_upd [simp]:
  "latest_sequence (st\<lparr>wakes := w\<rparr>) = latest_sequence st" "latest_sequence (st\<lparr>bus := b\<rparr>) = latest_sequence st"
  "latest_sequence (notify ev st) = latest_sequence st" "latest_sequence (adopt_owner agg ow st) = latest_sequence st"
  "latest_sequence (claim agg o1 st) = latest_sequence st"
  by (auto simp: latest_sequence_def fun_eq_iff notify_def adopt_owner_def claim_def split: option.split)

lemma log_upd [simp]:
  "log (notify ev st) = log st" "log (adopt_owner agg ow st) = log st" "log (claim agg o1 st) = log st"
  by (simp_all add: notify_def adopt_owner_def claim_def)

lemma latest_append [simp]:
  "latest_sequence (append_row r ow p st) agg = (if agg = row_aggregate r then row_seq r else latest_sequence st agg)"
  by (simp add: append_row_def Let_def latest_sequence_def)

lemma log_append [simp]: "log (append_row r ow p st) = log st @ [r]"
  by (simp add: append_row_def Let_def)

lemma append_row_ok:
  assumes ok: "log_ok st" and s: "row_seq r = latest_sequence st (row_aggregate r) + 1" and new: "row_id r \<notin> set (map row_id (log st))"
  shows "log_ok (append_row r ow p st)"
  unfolding log_ok_def
proof (intro conjI allI)
  fix agg
  have ge: "-1 \<le> latest_sequence st agg" using ok by (simp add: log_ok_def)
  then show "-1 \<le> latest_sequence (append_row r ow p st) agg" using s by auto
  show "map row_seq (rows_of (append_row r ow p st) agg) = [0 .. latest_sequence (append_row r ow p st) agg]"
  proof (cases "agg = row_aggregate r")
    case True
    have "[0 .. latest_sequence st agg + 1] = [0 .. latest_sequence st agg] @ [latest_sequence st agg + 1]"
      using ge upto_rec2 [of 0 "latest_sequence st agg + 1"] by simp
    with True s log_ok_seqs [OF ok, of agg] show ?thesis by (simp add: rows_of_def)
  next
    case False
    with log_ok_seqs [OF ok, of agg] show ?thesis by (simp add: rows_of_def)
  qed
  show "distinct (map row_id (log (append_row r ow p st)))" using ok new by (simp add: log_ok_def)
qed

definition foreign_replay :: "replay_input option \<Rightarrow> jstring \<Rightarrow> ('d, 'j, 'p) event_log \<Rightarrow> bool" where
  "foreign_replay input agg st \<longleftrightarrow> input \<noteq> None \<and> named (owner_of st agg) \<and> owner_of st agg \<noteq> Option.bind input in_owner"

definition commit_seq :: "replay_input option \<Rightarrow> jstring \<Rightarrow> ('d, 'j, 'p) event_log \<Rightarrow> int" where
  "commit_seq input agg st = (case input of Some i \<Rightarrow> in_seq i | None \<Rightarrow> latest_sequence st agg + 1)"

text \<open>The transaction as a chain of guards over these two readings.\<close>

lemma commit_tx_chain:
  assumes "encode def (ev_data ev) = Some encoded"
  shows "commit_tx proj def spec ev agg input hook st =
    (if (case input of Some i \<Rightarrow> strict_owner i | None \<Rightarrow> False) \<and> foreign_replay input agg st then Inl (Invalid Owner_Mismatch)
     else if input \<noteq> None \<and> commit_seq input agg st \<le> latest_sequence st agg then
       (case find (\<lambda>r. row_aggregate r = agg \<and> row_seq r = commit_seq input agg st) (log st) of
          Some stored \<Rightarrow>
            if row_id stored = ev_id ev \<and> row_type stored = versioned_type (def_type def) (version spec) \<and> row_data stored = encoded
            then Inr (None, adopt_owner agg (Option.bind input in_owner) st) else Inl (Invalid Replay_Diverged)
        | None \<Rightarrow> Inl (Invalid Replay_Diverged))
     else if foreign_replay input agg st then Inr (None, st)
     else if input \<noteq> None \<and> commit_seq input agg st \<noteq> latest_sequence st agg + 1 then Inl (Invalid Sequence_Mismatch)
     else if ev_id ev \<in> set (map row_id (log st)) then Inl (Invalid Event_Exists)
     else
       (case rbind (project_all (proj (ev_type ev)) (ev\<lparr>ev_durable := Some (agg, commit_seq input agg st, version spec)\<rparr>) (tables st))
               (run_hook hook (commit_seq input agg st)) of
          Inl x \<Rightarrow> Inl (Defect x)
        | Inr p \<Rightarrow> Inr (Some (agg, commit_seq input agg st),
            append_row (new_row def spec ev agg (commit_seq input agg st) encoded) (Option.bind input in_owner) p st)))"
  by (simp only: commit_tx_def assms option.case Let_def foreign_replay_def commit_seq_def)

lemma commit_tx_cases:
  assumes run: "commit_tx proj def spec ev agg input hook st = Inr (c, st')"
  obtains (seen) "c = None" "st' = adopt_owner agg (Option.bind input in_owner) st"
    | (skipped) "c = None" "st' = st"
    | (committed) p encoded where "encode def (ev_data ev) = Some encoded"
      "c = Some (agg, commit_seq input agg st)" "commit_seq input agg st = latest_sequence st agg + 1"
      "ev_id ev \<notin> set (map row_id (log st))" "\<not> foreign_replay input agg st"
      "rbind (project_all (proj (ev_type ev)) (ev\<lparr>ev_durable := Some (agg, commit_seq input agg st, version spec)\<rparr>) (tables st))
               (run_hook hook (commit_seq input agg st)) = Inr p"
      "st' = append_row (new_row def spec ev agg (commit_seq input agg st) encoded) (Option.bind input in_owner) p st"
proof -
  obtain encoded where enc: "encode def (ev_data ev) = Some encoded"
    using run by (cases "encode def (ev_data ev)") (auto simp: commit_tx_def)
  note run' = run [unfolded commit_tx_chain [OF enc]]
  let ?S = "(case input of Some i \<Rightarrow> strict_owner i | None \<Rightarrow> False) \<and> foreign_replay input agg st"
  let ?B = "input \<noteq> None \<and> commit_seq input agg st \<le> latest_sequence st agg"
  let ?Q = "input \<noteq> None \<and> commit_seq input agg st \<noteq> latest_sequence st agg + 1"
  let ?E = "ev_id ev \<in> set (map row_id (log st))"
  have S: "\<not> ?S" using run' by (metis Inl_Inr_False)
  note run1 = run' [unfolded if_not_P [OF S]]
  show ?thesis
  proof (cases ?B)
    case True
    from run1 [unfolded if_P [OF True]] show ?thesis
      by (auto intro: seen split: option.split_asm if_split_asm)
  next
    case B: False
    note run2 = run1 [unfolded if_not_P [OF B]]
    show ?thesis
    proof (cases "foreign_replay input agg st")
      case True
      from run2 [unfolded if_P [OF True]] show ?thesis by (auto intro: skipped)
    next
      case F: False
      note run3 = run2 [unfolded if_not_P [OF F]]
      have Q: "\<not> ?Q" using run3 by (metis Inl_Inr_False)
      note run4 = run3 [unfolded if_not_P [OF Q]]
      have E: "\<not> ?E" using run4 by (metis Inl_Inr_False)
      have s: "commit_seq input agg st = latest_sequence st agg + 1" using Q by (auto simp: commit_seq_def split: option.split)
      from run4 [unfolded if_not_P [OF E]] show ?thesis
        using committed [OF enc _ s E F] by (auto split: sum.split_asm)
    qed
  qed
qed

lemma commit_tx_ok:
  assumes ok: "log_ok st" and run: "commit_tx proj def spec ev agg input hook st = Inr (c, st')"
  shows "log_ok st'"
  using run
proof (cases rule: commit_tx_cases)
  case seen
  show ?thesis unfolding seen(2) by (rule log_ok_cong [OF ok]) simp_all
next
  case (committed p encoded)
  then show ?thesis
    using append_row_ok [OF ok, of "new_row def spec ev agg (commit_seq input agg st) encoded"] by (simp add: new_row_def)
qed (simp add: ok)

lemma transaction_ok: "transaction (commit_tx proj def spec ev agg input hook) st = (a, st1) \<Longrightarrow> log_ok st \<Longrightarrow> log_ok st1"
  using commit_tx_ok [of st proj def spec ev agg input hook] by (auto simp: transaction_def split: sum.splits)

lemma log_ok_wakes [simp]: "log_ok (st\<lparr>wakes := w\<rparr>) = log_ok st"
  by (simp add: log_ok_def rows_of_def)

lemma notify_ok [simp]: "log_ok (notify ev st) = log_ok st"
  by (simp add: log_ok_def rows_of_def)

lemma commit_durable_ok:
  "commit_durable_event proj def ev input hook st = (a, st1) \<Longrightarrow> log_ok st \<Longrightarrow> log_ok st1"
  unfolding commit_durable_event_def
  by (auto dest: transaction_ok split: option.split_asm prod.split_asm sum.split_asm if_split_asm)

lemma publish_ok: "publish proj def d eid hook st = (a, st1) \<Longrightarrow> log_ok st \<Longrightarrow> log_ok st1"
  unfolding publish_def publish_event_def
  by (auto dest: commit_durable_ok split: option.split_asm prod.split_asm sum.split_asm if_split_asm)

lemma replay_ok: "replay proj manifest opts r st = (a, st1) \<Longrightarrow> log_ok st \<Longrightarrow> log_ok st1"
  unfolding replay_def Let_def
  by (auto dest: commit_durable_ok split: option.split_asm prod.split_asm sum.split_asm if_split_asm)

lemma replay_each_ok: "replay_each proj manifest opts rs st = (a, st1) \<Longrightarrow> log_ok st \<Longrightarrow> log_ok st1"
  by (induction rs arbitrary: st) (auto dest: replay_ok split: prod.split_asm sum.split_asm)

lemma replay_all_ok: "replay_all proj manifest opts rs st = (a, st1) \<Longrightarrow> log_ok st \<Longrightarrow> log_ok st1"
  unfolding replay_all_def
  by (auto simp del: replay_each.simps dest: replay_each_ok split: list.split_asm prod.split_asm sum.split_asm if_split_asm)

lemma remove_ok:
  assumes ok: "log_ok st"
  shows "log_ok (remove agg st)"
  unfolding log_ok_def
proof (intro conjI allI)
  fix a
  have rows: "rows_of (remove agg st) a = (if a = agg then [] else rows_of st a)"
    by (auto simp: rows_of_def remove_def filter_empty_conv intro!: filter_cong)
  have latest: "latest_sequence (remove agg st) a = (if a = agg then -1 else latest_sequence st a)"
    by (simp add: remove_def latest_sequence_def)
  show "map row_seq (rows_of (remove agg st) a) = [0..latest_sequence (remove agg st) a]"
    using log_ok_seqs [OF ok, of a] by (simp add: rows latest)
  show "- 1 \<le> latest_sequence (remove agg st) a" using ok by (simp add: latest log_ok_def)
  show "distinct (map row_id (log (remove agg st)))" using ok by (simp add: log_ok_def remove_def distinct_map_filter)
qed

lemma run_op_ok: "log_ok st \<Longrightarrow> log_ok (run_op proj manifest op1 st)"
  by (cases op1) (auto simp: remove_ok intro: log_ok_cong publish_ok [OF surjective_pairing] replay_all_ok [OF surjective_pairing])

lemma run_ops_ok: "log_ok st \<Longrightarrow> log_ok (fold (run_op proj manifest) ops st)"
  by (induction ops arbitrary: st) (simp_all add: run_op_ok del: run_op.simps)

text \<open>C36. Whatever is published, replayed, removed and claimed, with whatever projectors and hooks, and
  whichever of them fail: the events of each aggregate are numbered 0, 1, ... without a gap or a
  repetition up to the aggregate's sequence, in the order of their commits, and no event id occurs twice.\<close>

theorem log_is_gapless: "log_ok (fold (run_op proj manifest) ops (empty_log p))"
  by (rule run_ops_ok [OF log_ok_empty])

end
