(* ===== verification/SessionDatabase.thy ===== *)
theory SessionDatabase imports MessageProjector JsJson EventLog begin

text \<open>
  The tables of a session in the database (packages/core/src/session/sql.ts), the projectors of its
  events (packages/core/src/session/projector.ts) with those of the inbox
  (packages/core/src/session/input.ts), and the definitions under which the events are published
  (packages/schema/src/session-event.ts). The session row keeps the columns the projectors write;
  schemas (encoding an event's data) are functions of \<open>codec\<close>. Foreign keys and unique indexes are
  checked as SQLite does, and a statement that violates one dies.
\<close>

section \<open>Tables\<close>

record input_row =
  in_id :: jstring
  in_session :: jstring
  in_prompt :: prompt
  in_delivery :: delivery
  in_admitted :: int
  in_promoted :: "int option"
  in_time :: int

record session_row =
  ss_directory :: jstring
  ss_path :: "jstring option"
  ss_workspace :: "jstring option"
  ss_agent :: "jstring option"
  ss_model :: "json option"
  ss_revert :: "json option"
  ss_updated :: int

record epoch_row =
  ep_baseline :: jstring
  ep_snapshot :: json
  ep_seq :: int

record session_db =
  session_table :: "jstring \<rightharpoonup> session_row"
  message_table :: "message_row list"
  input_table :: "input_row list"
  epoch_table :: "jstring \<rightharpoonup> epoch_row"

datatype db_defect = Lifecycle_Conflict jstring | Sql_Error | Missing_Boundary jstring | Missing_Sequence | Missing_Epoch

definition has_session :: "session_db \<Rightarrow> jstring \<Rightarrow> bool" where
  "has_session db sid \<longleftrightarrow> session_table db sid \<noteq> None"

definition update_session :: "jstring \<Rightarrow> (session_row \<Rightarrow> session_row) \<Rightarrow> session_db \<Rightarrow> session_db" where
  "update_session sid f db = db\<lparr>session_table := (session_table db)(sid := map_option f (session_table db sid))\<rparr>"

definition reset_epoch :: "jstring \<Rightarrow> session_db \<Rightarrow> session_db" where
  "reset_epoch sid db = db\<lparr>epoch_table := (epoch_table db)(sid := None)\<rparr>"

section \<open>The inbox\<close>

definition find_input :: "session_db \<Rightarrow> jstring \<Rightarrow> input_row option" where
  "find_input db i = find (\<lambda>r. in_id r = i) (input_table db)"

definition encode_prompt :: "prompt \<Rightarrow> json" where
  "encode_prompt p = JObj ([(lit ''text'', JStr (pr_text p))] @
     (case pr_files p of Some f \<Rightarrow> [(lit ''files'', f)] | None \<Rightarrow> []) @
     (case pr_agents p of Some a \<Rightarrow> [(lit ''agents'', a)] | None \<Rightarrow> []))"

definition matches_prompt :: "input_row \<Rightarrow> jstring \<Rightarrow> prompt \<Rightarrow> bool" where
  "matches_prompt r sid p \<longleftrightarrow> in_session r = sid \<and> stringify (encode_prompt (in_prompt r)) = stringify (encode_prompt p)"

definition equivalent :: "input_row \<Rightarrow> jstring \<Rightarrow> prompt \<Rightarrow> delivery \<Rightarrow> bool" where
  "equivalent r sid p d \<longleftrightarrow> in_delivery r = d \<and> matches_prompt r sid p"

definition matches_projection :: "input_row \<Rightarrow> jstring \<Rightarrow> prompt \<Rightarrow> delivery \<Rightarrow> int \<Rightarrow> bool" where
  "matches_projection r sid p d t \<longleftrightarrow> equivalent r sid p d \<and> in_time r = t"

definition project_admitted :: "jstring \<Rightarrow> jstring \<Rightarrow> prompt \<Rightarrow> delivery \<Rightarrow> int \<Rightarrow> int \<Rightarrow> session_db \<Rightarrow> (db_defect, session_db) result" where
  "project_admitted i sid p d t n db =
    (if i \<in> set (map (\<lambda>r. message_id (mr_message r)) (message_table db)) then Inl (Lifecycle_Conflict i)
     else if \<exists>r \<in> set (input_table db). in_id r = i \<or> in_session r = sid \<and> in_admitted r = n then Inl (Lifecycle_Conflict i)
     else if \<not> has_session db sid then Inl Sql_Error
     else Inr (db\<lparr>input_table := input_table db @ [\<lparr>in_id = i, in_session = sid, in_prompt = p, in_delivery = d,
       in_admitted = n, in_promoted = None, in_time = t\<rparr>]\<rparr>))"

definition promote_row :: "jstring \<Rightarrow> int \<Rightarrow> input_row list \<Rightarrow> input_row list" where
  "promote_row i n rows = map (\<lambda>r. if in_id r = i then r\<lparr>in_promoted := Some n\<rparr> else r) rows"

definition promoted_at :: "session_db \<Rightarrow> jstring \<Rightarrow> int \<Rightarrow> bool" where
  "promoted_at db sid n \<longleftrightarrow> (\<exists>r \<in> set (input_table db). in_session r = sid \<and> in_promoted r = Some n)"

definition project_prompted :: "jstring \<Rightarrow> jstring \<Rightarrow> prompt \<Rightarrow> delivery \<Rightarrow> int \<Rightarrow> int \<Rightarrow> session_db \<Rightarrow> (db_defect, session_db) result" where
  "project_prompted i sid p d t n db =
    (case find (\<lambda>r. in_id r = i \<and> in_session r = sid \<and> in_promoted r = None) (input_table db) of
       Some r \<Rightarrow>
         if promoted_at db sid n then Inl Sql_Error
         else if \<not> matches_projection r sid p d t then Inl (Lifecycle_Conflict i)
         else Inr (db\<lparr>input_table := promote_row i n (input_table db)\<rparr>)
     | None \<Rightarrow>
         (case find_input db i of
            Some r \<Rightarrow>
              if \<not> matches_projection r sid p d t \<or> in_promoted r \<noteq> Some n then Inl (Lifecycle_Conflict i) else Inr db
          | None \<Rightarrow>
              if promoted_at db sid n \<or> (\<exists>r \<in> set (input_table db). in_session r = sid \<and> in_admitted r = n) \<or>
                 \<not> has_session db sid then Inl Sql_Error
              else Inr (db\<lparr>input_table := input_table db @ [\<lparr>in_id = i, in_session = sid, in_prompt = p, in_delivery = d,
                in_admitted = n, in_promoted = Some n, in_time = t\<rparr>]\<rparr>)))"

definition pending :: "session_db \<Rightarrow> jstring \<Rightarrow> delivery \<Rightarrow> input_row list" where
  "pending db sid d = filter (\<lambda>r. in_session r = sid \<and> in_promoted r = None \<and> in_delivery r = d) (input_table db)"

definition has_pending :: "session_db \<Rightarrow> jstring \<Rightarrow> delivery \<Rightarrow> bool" where
  "has_pending db sid d \<longleftrightarrow> pending db sid d \<noteq> []"

section \<open>Projectors\<close>

definition project_run :: "session_event \<Rightarrow> int \<Rightarrow> session_db \<Rightarrow> (db_defect, session_db) result" where
  \<comment> \<open>\<open>run(db, event)\<close> on the whole database\<close>
  "project_run e n db =
    (case run_event (has_session db (se_session e)) e n (message_table db) of
       None \<Rightarrow> Inl Sql_Error
     | Some rows \<Rightarrow> Inr (db\<lparr>message_table := rows\<rparr>))"

definition project_reverted :: "jstring \<Rightarrow> jstring \<Rightarrow> int \<Rightarrow> session_db \<Rightarrow> (db_defect, session_db) result" where
  \<comment> \<open>\<open>RevertEvent.Committed\<close>: everything of the session after the boundary message goes\<close>
  "project_reverted sid m t db =
    (case find (\<lambda>r. mr_session r = sid \<and> message_id (mr_message r) = m) (message_table db) of
       None \<Rightarrow> Inl (Missing_Boundary m)
     | Some b \<Rightarrow>
         let db1 = db\<lparr>
               message_table := filter (\<lambda>r. \<not> (mr_session r = sid \<and> mr_seq b < mr_seq r)) (message_table db),
               input_table := filter (\<lambda>r. \<not> (in_session r = sid \<and>
                 (mr_seq b < in_admitted r \<or> (case in_promoted r of Some p \<Rightarrow> mr_seq b < p | None \<Rightarrow> False)))) (input_table db)\<rparr>
         in Inr (reset_epoch sid (update_session sid (\<lambda>s. s\<lparr>ss_revert := None, ss_updated := t\<rparr>) db1)))"

definition project_event :: "session_event \<Rightarrow> int \<Rightarrow> session_db \<Rightarrow> (db_defect, session_db) result" where
  "project_event e n db =
    (let sid = se_session e; t = se_time e in
     case se_body e of
       AgentSwitchedE i agent \<Rightarrow>
         project_run e n (update_session sid (\<lambda>s. s\<lparr>ss_agent := Some agent, ss_updated := t\<rparr>) db)
     | ModelSwitchedE i model \<Rightarrow>
         project_run e n (update_session sid (\<lambda>s. s\<lparr>ss_model := Some model, ss_updated := t\<rparr>) db)
     | MovedE dir ws sub \<Rightarrow>
         Inr (reset_epoch sid (update_session sid
           (\<lambda>s. s\<lparr>ss_directory := dir, ss_path := or_else sub (ss_path s), ss_workspace := (if present ws then ws else None), ss_updated := t\<rparr>) db))
     | PromptedE i p d \<Rightarrow> rbind (project_prompted i sid p d t n db) (project_run e n)
     | PromptAdmittedE i p d \<Rightarrow> project_admitted i sid p d t n db
     | RetriedE a err \<Rightarrow> Inr db
     | CompactionStartedE m r \<Rightarrow> Inr db
     | RevertStagedE r \<Rightarrow> Inr (update_session sid (\<lambda>s. s\<lparr>ss_revert := Some r, ss_updated := t\<rparr>) db)
     | RevertClearedE \<Rightarrow> Inr (update_session sid (\<lambda>s. s\<lparr>ss_revert := None, ss_updated := t\<rparr>) db)
     | RevertCommittedE m \<Rightarrow> project_reverted sid m t db
     | b \<Rightarrow> if durable_body b then project_run e n db else Inr db)"

definition session_projector :: "(session_event, session_db, db_defect) projector" where
  "session_projector ev db =
    (case ev_durable ev of
       None \<Rightarrow> Inl Missing_Sequence
     | Some (agg, n, v) \<Rightarrow> project_event (ev_data ev) n db)"

section \<open>Publishing\<close>

record 'j codec =
  enc :: "session_event \<Rightarrow> 'j option"
  dec :: "'j \<Rightarrow> session_event option"
  fresh :: "nat \<Rightarrow> jstring" \<comment> \<open>ids of new events, by the number of rows in the log\<close>

definition event_definition :: "'j codec \<Rightarrow> session_body \<Rightarrow> (session_event, 'j) event_def" where
  "event_definition c b = \<lparr>def_type = lit (''session.next.'' @ body_type b),
     def_durable = (if durable_body b then Some \<lparr>aggregate_of = (\<lambda>e. Some (se_session e)), version = body_version b\<rparr> else None),
     encode = enc c, decode = dec c\<rparr>"

type_synonym 'j session_log = "(session_event, 'j, session_db) event_log"

definition publish_session :: "'j codec \<Rightarrow> session_event \<Rightarrow> 'j session_log \<Rightarrow>
    (db_defect log_error, session_event payload) result \<times> 'j session_log" where
  "publish_session c e L =
    publish (\<lambda>_. [session_projector]) (event_definition c (se_body e)) e (fresh c (length (log L))) None L"

end
