(* ===== verification/SessionInbox.thy ===== *)
theory SessionInbox imports SessionDatabase begin

text \<open>
  Prompts admitted to a session and promoted into its history (\<open>admit\<close>, \<open>publish\<close>, \<open>promoteSteers\<close>,
  \<open>promoteNextQueued\<close> of packages/core/src/session/input.ts), over the durable log and the projectors
  that run in its transactions.
\<close>

section \<open>Operations\<close>

definition admit_new :: "'j codec \<Rightarrow> int \<Rightarrow> jstring \<Rightarrow> jstring \<Rightarrow> prompt \<Rightarrow> delivery \<Rightarrow> 'j session_log \<Rightarrow>
    (db_defect log_error, input_row) result \<times> 'j session_log" where
  \<comment> \<open>the publication and its \<open>catchDefect\<close>\<close>
  "admit_new c now i sid p d L =
    (case publish_session c \<lparr>se_metadata = None, se_session = sid, se_time = now, se_body = PromptAdmittedE i p d\<rparr> L of
       (Inr ev, L1) \<Rightarrow>
         (case ev_durable ev of
            None \<Rightarrow> (Inl (Defect Missing_Sequence), L1)
          | Some (agg, n, v) \<Rightarrow> (Inr \<lparr>in_id = i, in_session = sid, in_prompt = p, in_delivery = d, in_admitted = n,
              in_promoted = None, in_time = now\<rparr>, L1))
     | (Inl err, L1) \<Rightarrow>
         (case find_input (tables L1) i of
            Some stored \<Rightarrow> (Inr stored, L1)
          | None \<Rightarrow> (Inl err, L1)))"

definition admit :: "'j codec \<Rightarrow> int \<Rightarrow> jstring \<Rightarrow> jstring \<Rightarrow> prompt \<Rightarrow> delivery \<Rightarrow> 'j session_log \<Rightarrow>
    (db_defect log_error, input_row) result \<times> 'j session_log" where
  "admit c now i sid p d L =
    (case find_input (tables L) i of
       Some stored \<Rightarrow> (Inr stored, L)
     | None \<Rightarrow> admit_new c now i sid p d L)"

definition prompted_event :: "jstring \<Rightarrow> input_row \<Rightarrow> session_event" where
  "prompted_event sid r = \<lparr>se_metadata = None, se_session = sid, se_time = in_time r,
     se_body = PromptedE (in_id r) (in_prompt r) (in_delivery r)\<rparr>"

fun publish_rows :: "'j codec \<Rightarrow> jstring \<Rightarrow> input_row list \<Rightarrow> 'j session_log \<Rightarrow> (db_defect log_error, unit) result \<times> 'j session_log" where
  "publish_rows c sid [] L = (Inr (), L)"
| "publish_rows c sid (r # rs) L =
    (case publish_session c (prompted_event sid r) L of
       (Inr _, L1) \<Rightarrow> publish_rows c sid rs L1
     | (Inl (Defect (Lifecycle_Conflict i)), L1) \<Rightarrow>
         if Option.bind (find_input (tables L1) (in_id r)) in_promoted = None
         then (Inl (Defect (Lifecycle_Conflict i)), L1) else publish_rows c sid rs L1
     | (Inl err, L1) \<Rightarrow> (Inl err, L1))"

definition promote_steers :: "'j codec \<Rightarrow> jstring \<Rightarrow> int \<Rightarrow> 'j session_log \<Rightarrow> (db_defect log_error, nat) result \<times> 'j session_log" where
  "promote_steers c sid cutoff L =
    (let rows = sort_key in_admitted (filter (\<lambda>r. in_admitted r \<le> cutoff) (pending (tables L) sid Steer))
     in case publish_rows c sid rows L of
          (Inl err, L1) \<Rightarrow> (Inl err, L1)
        | (Inr _, L1) \<Rightarrow> (Inr (length rows), L1))"

definition promote_next_queued :: "'j codec \<Rightarrow> jstring \<Rightarrow> 'j session_log \<Rightarrow> (db_defect log_error, bool) result \<times> 'j session_log" where
  "promote_next_queued c sid L =
    (case sort_key in_admitted (pending (tables L) sid Queue) of
       [] \<Rightarrow> (Inr False, L)
     | r # _ \<Rightarrow>
         (case publish_rows c sid [r] L of
            (Inl err, L1) \<Rightarrow> (Inl err, L1)
          | (Inr _, L1) \<Rightarrow> (Inr True, L1)))"

datatype inbox_op =
    Emit session_event
  | Admit int jstring jstring prompt delivery
  | PromoteSteers jstring int
  | PromoteNext jstring

fun run_inbox :: "'j codec \<Rightarrow> inbox_op \<Rightarrow> 'j session_log \<Rightarrow> 'j session_log" where
  "run_inbox c (Emit e) L = snd (publish_session c e L)"
| "run_inbox c (Admit now i sid p d) L = snd (admit c now i sid p d L)"
| "run_inbox c (PromoteSteers sid cutoff) L = snd (promote_steers c sid cutoff L)"
| "run_inbox c (PromoteNext sid) L = snd (promote_next_queued c sid L)"

section \<open>What publishing an event does\<close>

lemma rbind_Inr [simp]: "rbind r Inr = r"
  by (cases r) simp_all

lemma commit_tx_new:
  "commit_tx proj def spec ev agg None None st =
    (case encode def (ev_data ev) of
       None \<Rightarrow> Inl (Invalid Bad_Data)
     | Some encoded \<Rightarrow>
         if ev_id ev \<in> set (map row_id (log st)) then Inl (Invalid Event_Exists)
         else (case project_all (proj (ev_type ev)) (ev\<lparr>ev_durable := Some (agg, latest_sequence st agg + 1, version spec)\<rparr>) (tables st) of
             Inl x \<Rightarrow> Inl (Defect x)
           | Inr p \<Rightarrow> Inr (Some (agg, latest_sequence st agg + 1),
               append_row (new_row def spec ev agg (latest_sequence st agg + 1) encoded) None p st)))"
proof (cases "encode def (ev_data ev)")
  case (Some encoded)
  have h: "run_hook None n = Inr" for n by (rule ext) (simp add: run_hook_def)
  show ?thesis unfolding commit_tx_chain [OF Some] by (simp add: Some commit_seq_def foreign_replay_def h split: sum.split)
qed (simp add: commit_tx_def)

lemma publish_session_eq:
  assumes "durable_body (se_body e)"
  shows "publish_session c e L =
    (let n = latest_sequence L (se_session e) + 1;
         ev = \<lparr>ev_id = fresh c (length (log L)), ev_type = lit (''session.next.'' @ body_type (se_body e)), ev_data = e,
               ev_durable = Some (se_session e, n, body_version (se_body e))\<rparr>
     in case enc c e of
          None \<Rightarrow> (Inl (Invalid Bad_Data), L)
        | Some encoded \<Rightarrow>
            if fresh c (length (log L)) \<in> set (map row_id (log L)) then (Inl (Invalid Event_Exists), L)
            else (case project_event e n (tables L) of
                Inl x \<Rightarrow> (Inl (Defect x), L)
              | Inr p \<Rightarrow> (Inr ev, notify ev ((append_row \<lparr>row_id = fresh c (length (log L)), row_aggregate = se_session e,
                  row_seq = n, row_type = versioned_type (ev_type ev) (body_version (se_body e)), row_data = encoded\<rparr> None p L)
                    \<lparr>wakes := wakes L @ [se_session e]\<rparr>))))"
proof -
  have w: "wakes (append_row r o' p L) = wakes L" for r o' p by (simp add: append_row_def Let_def)
  show ?thesis
    using assms
    by (cases "enc c e"; cases "project_event e (latest_sequence L (se_session e) + 1) (tables L)")
      (simp_all add: publish_session_def publish_def publish_event_def commit_durable_event_def event_definition_def
        commit_tx_new transaction_def session_projector_def new_row_def stamp_def w Let_def)
qed

lemma publish_session_live:
  assumes "\<not> durable_body (se_body e)"
  shows "publish_session c e L =
    (let ev = \<lparr>ev_id = fresh c (length (log L)), ev_type = lit (''session.next.'' @ body_type (se_body e)), ev_data = e, ev_durable = None\<rparr>
     in (Inr ev, notify ev L))"
  using assms by (simp add: publish_session_def publish_def publish_event_def event_definition_def Let_def)

lemma publish_session_cases:
  assumes run: "publish_session c e L = (res, L')"
  obtains (live) ev where "\<not> durable_body (se_body e)" "res = Inr ev" "L' = notify ev L"
    | (failed) err where "durable_body (se_body e)" "res = Inl err" "L' = L"
        "\<And>x. err = Defect x \<Longrightarrow> project_event e (latest_sequence L (se_session e) + 1) (tables L) = Inl x"
    | (committed) ev encoded where "durable_body (se_body e)" "res = Inr ev"
        "ev_durable ev = Some (se_session e, latest_sequence L (se_session e) + 1, body_version (se_body e))"
        "project_event e (latest_sequence L (se_session e) + 1) (tables L) = Inr (tables L')"
        "latest_sequence L' = (latest_sequence L)(se_session e := latest_sequence L (se_session e) + 1)"
        "enc c e = Some encoded"
        "log L' = log L @ [\<lparr>row_id = fresh c (length (log L)), row_aggregate = se_session e,
           row_seq = latest_sequence L (se_session e) + 1,
           row_type = versioned_type (lit (''session.next.'' @ body_type (se_body e))) (body_version (se_body e)), row_data = encoded\<rparr>]"
proof (cases "durable_body (se_body e)")
  case False
  with run that(1) show ?thesis by (auto simp: publish_session_live Let_def)
next
  case True
  note eq = run [unfolded publish_session_eq [OF True] Let_def]
  show ?thesis
  proof (cases "enc c e")
    case None
    with eq show ?thesis by (intro that(2) [OF True]) auto
  next
    case (Some encoded)
    show ?thesis
    proof (cases "fresh c (length (log L)) \<in> set (map row_id (log L))")
      case True2: True
      with eq Some show ?thesis by (intro that(2) [OF True]) auto
    next
      case new: False
      show ?thesis
      proof (cases "project_event e (latest_sequence L (se_session e) + 1) (tables L)")
        case (Inl x)
        with eq Some new show ?thesis by (intro that(2) [OF True, of "Defect x"]) auto
      next
        case (Inr p)
        with eq Some new show ?thesis
          by (intro that(3) [OF True _ _ _ _ Some]) (auto simp: notify_def append_row_def Let_def latest_sequence_def fun_eq_iff)
      qed
    qed
  qed
qed

end
