(* ===== verification/InboxProps.thy ===== *)
theory InboxProps imports SessionInbox begin

text \<open>
  What the inbox guarantees: an input is promoted exactly when its prompt stands in the history, once,
  at the sequence number of the promotion; inputs of one kind are promoted in the order they were
  admitted; \<open>admit\<close> is idempotent and the promotions leave nothing behind.
\<close>

section \<open>User messages of the history\<close>

fun is_user :: "session_message \<Rightarrow> bool" where
  "is_user (UserMessage i md t p) = True"
| "is_user m = False"

definition user_rows :: "message_row list \<Rightarrow> message_row list" where
  "user_rows rows = filter (\<lambda>r. is_user (mr_message r)) rows"

lemma user_rows_update:
  assumes ok: "rows_ok rows" and r0: "r0 \<in> set rows" "\<not> is_user (mr_message r0)" "message_id (mr_message r0) = message_id m"
    and m: "\<not> is_user m"
  shows "user_rows (db_update sid m rows) = user_rows rows"
proof -
  have keep: "is_user (mr_message r) \<Longrightarrow> message_id (mr_message r) \<noteq> message_id m" if "r \<in> set rows" for r
    using ok that r0 unfolding rows_ok_def by (metis distinct_map inj_onD)
  have "r \<in> set rows \<Longrightarrow> is_user (mr_message (if message_id (mr_message r) = message_id m \<and> mr_session r = sid then r\<lparr>mr_message := m\<rparr> else r))
      = is_user (mr_message r)" for r
    using keep [of r] m by (cases "message_id (mr_message r) = message_id m \<and> mr_session r = sid") auto
  then have "user_rows (db_update sid m rows) =
      map (\<lambda>r. if message_id (mr_message r) = message_id m \<and> mr_session r = sid then r\<lparr>mr_message := m\<rparr> else r) (user_rows rows)"
    unfolding user_rows_def db_update_def filter_map comp_def
    by (intro arg_cong [where f = "map _"] filter_cong) simp_all
  also have "\<dots> = user_rows rows"
    by (rule map_idI) (use keep in \<open>auto simp: user_rows_def\<close>)
  finally show ?thesis .
qed

definition row_keys :: "message_row list \<Rightarrow> (jstring \<times> int) set" where
  "row_keys rows = (\<lambda>r. (mr_session r, mr_seq r)) ` set rows"

lemma row_keys_update [simp]: "row_keys (db_update sid m rows) = row_keys rows"
proof -
  have "(mr_session (if c then r\<lparr>mr_message := m\<rparr> else r), mr_seq (if c then r\<lparr>mr_message := m\<rparr> else r)) = (mr_session r, mr_seq r)" for c r
    by (cases c) auto
  then show ?thesis unfolding row_keys_def db_update_def set_map image_image by (intro image_cong refl) blast
qed

lemma rows_ok_update [simp]: "rows_ok rows \<Longrightarrow> rows_ok (db_update sid m rows)"
  using rows_upto_update [of sid "Max (mr_seq ` set rows)" rows m] by (auto simp: rows_upto_def)

definition step_rows :: "jstring \<Rightarrow> int \<Rightarrow> message_row list \<Rightarrow> message_row list \<Rightarrow> message_row list \<Rightarrow> bool" where
  \<comment> \<open>what one event does to the rows: the user messages it adds, and no new keys but its own\<close>
  "step_rows sid n new rows rows' \<longleftrightarrow>
    rows_ok rows' \<and> user_rows rows' = user_rows rows @ new \<and> row_keys rows' \<subseteq> insert (sid, n) (row_keys rows)"

lemma step_rows_refl: "rows_ok rows \<Longrightarrow> step_rows sid n [] rows rows"
  by (auto simp: step_rows_def)

lemma step_rows_update:
  "rows_ok rows \<Longrightarrow> r0 \<in> set rows \<Longrightarrow> \<not> is_user (mr_message r0) \<Longrightarrow> message_id (mr_message r0) = message_id m \<Longrightarrow> \<not> is_user m \<Longrightarrow>
    step_rows sid n [] rows (db_update sid m rows)"
  by (simp add: step_rows_def user_rows_update subset_insertI)

lemma step_rows_insert:
  "rows_ok rows \<Longrightarrow> db_insert sid n m rows = Some rows' \<Longrightarrow>
    step_rows sid n (if is_user m then [\<lparr>mr_session = sid, mr_seq = n, mr_message = m\<rparr>] else []) rows rows'"
  by (auto simp: step_rows_def db_insert_def rows_ok_def user_rows_def row_keys_def split: if_splits)

lemma step_rows_trans: "step_rows sid n [] rows rows1 \<Longrightarrow> step_rows sid n new rows1 rows2 \<Longrightarrow> step_rows sid n new rows rows2"
  by (auto simp: step_rows_def)

lemma assistant_row:
  assumes "memory_assistant i (messages_of sid rows) = Some a \<or> memory_current_assistant (messages_of sid rows) = Some a \<and> am_id a = i"
  obtains r where "r \<in> set rows" "\<not> is_user (mr_message r)" "message_id (mr_message r) = i"
proof -
  have "AssistantMessage a \<in> set (messages_of sid rows)" "am_id a = i"
    using assms memory_assistant_SomeD [of i "messages_of sid rows" a] memory_current_SomeD [of "messages_of sid rows" a] by blast+
  then obtain r where "r \<in> set rows" "mr_message r = AssistantMessage a" by (auto simp: in_messages)
  with \<open>am_id a = i\<close> show ?thesis by (intro that [of r]) auto
qed

lemma shell_row:
  assumes "memory_shell call (messages_of sid rows) = Some s"
  obtains r where "r \<in> set rows" "\<not> is_user (mr_message r)" "message_id (mr_message r) = sh_id s"
proof -
  have "ShellMessage s \<in> set (messages_of sid rows)" using memory_shell_SomeD [OF assms] by blast
  then obtain r where "r \<in> set rows" "mr_message r = ShellMessage s" by (auto simp: in_messages)
  then show ?thesis by (intro that [of r]) auto
qed

definition prompt_rows :: "session_event \<Rightarrow> int \<Rightarrow> message_row list" where
  "prompt_rows e n = (case se_body e of
     PromptedE i p d \<Rightarrow> [\<lparr>mr_session = se_session e, mr_seq = n, mr_message = UserMessage i (se_metadata e) (se_time e) p\<rparr>]
   | _ \<Rightarrow> [])"

lemma appended_user: "appended e b = Some m \<Longrightarrow> is_user m \<longleftrightarrow> (\<exists>i p d. b = PromptedE i p d)"
  by (cases b) auto

lemma run_event_step:
  assumes ok: "rows_ok rows" and run: "run_event known e n rows = Some rows'"
  shows "step_rows (se_session e) n (prompt_rows e n) rows rows'"
proof -
  let ?s = "se_session e"
  let ?ad = "db_adapter known ?s n"
  have app: "step_rows ?s n (if is_user m then [\<lparr>mr_session = ?s, mr_seq = n, mr_message = m\<rparr>] else []) rs rs'"
    if "append_message ?ad m rs = Some rs'" "rows_ok rs" for m rs rs'
    using that step_rows_insert [of rs ?s n m rs'] by (simp add: db_adapter_def split: if_split_asm)
  have upd: "step_rows ?s n [] rows (update_assistant ?ad a rows)"
    if "memory_assistant (am_id a) (messages_of ?s rows) = Some a0 \<or> memory_current_assistant (messages_of ?s rows) = Some a0 \<and> am_id a0 = am_id a" for a a0
  proof -
    note found = that
    obtain r where "r \<in> set rows" "\<not> is_user (mr_message r)" "message_id (mr_message r) = am_id a"
      by (rule assistant_row [OF found])
    with step_rows_update [OF ok, of r "AssistantMessage a" ?s n] show ?thesis by (simp add: db_adapter_def)
  qed
  consider (shell_ended) call out where "se_body e = ShellEndedE call out"
    | (started) m agent model snap where "se_body e = StepStartedE m agent model snap"
    | (append) msg where "appended e (se_body e) = Some msg" "update ?ad e rows = append_message ?ad msg rows"
    | (owned) m recipe where "owned_recipe (se_time e) (se_body e) = Some (m, recipe)" "appended e (se_body e) = None"
        "update ?ad e rows = Some (update_owned_assistant ?ad m recipe rows)"
    | (none) "appended e (se_body e) = None" "update ?ad e rows = Some rows"
    by (cases "se_body e") (simp_all add: update_def)
  then show ?thesis
  proof cases
    case shell_ended
    have "prompt_rows e n = []" by (simp add: prompt_rows_def shell_ended)
    moreover have "step_rows ?s n [] rows rows'"
    proof (cases "memory_shell call (messages_of ?s rows)")
      case None
      with shell_ended run ok show ?thesis by (simp add: run_event_def update_def db_adapter_def db_shell_eq step_rows_refl)
    next
      case (Some s)
      obtain r where r: "r \<in> set rows" "\<not> is_user (mr_message r)" "message_id (mr_message r) = sh_id s" using shell_row [OF Some] .
      let ?m = "ShellMessage (s\<lparr>sh_output := out, sh_completed := Some (se_time e)\<rparr>)"
      have "rows' = db_update ?s ?m rows"
        using shell_ended run Some by (simp add: run_event_def update_def db_adapter_def db_shell_eq)
      with step_rows_update [OF ok r(1,2), of ?m ?s n] r(3) show ?thesis by simp
    qed
    ultimately show ?thesis by simp
  next
    case started
    have none: "prompt_rows e n = []" by (simp add: prompt_rows_def started)
    let ?msg = "AssistantMessage (new_assistant m agent model snap (se_time e))"
    obtain rows1 where r1: "step_rows ?s n [] rows rows1" "append_message ?ad ?msg rows1 = Some rows'"
    proof (cases "memory_current_assistant (messages_of ?s rows)")
      case None
      with started run that [of rows] step_rows_refl [OF ok] show ?thesis
        by (simp add: run_event_def update_def db_adapter_def db_current_eq Let_def)
    next
      case (Some a)
      let ?a = "a\<lparr>am_completed := Some (se_time e)\<rparr>"
      have "step_rows ?s n [] rows (update_assistant ?ad ?a rows)" by (rule upd [of _ a]) (simp add: Some)
      with started run Some that [of "update_assistant ?ad ?a rows"] show ?thesis
        by (simp add: run_event_def update_def db_adapter_def db_current_eq Let_def)
    qed
    from app [OF r1(2)] r1(1) have "step_rows ?s n [] rows1 rows'" by (simp add: step_rows_def)
    with r1(1) none show ?thesis using step_rows_trans by simp
  next
    case append
    with run have "append_message ?ad msg rows = Some rows'" by (simp add: run_event_def)
    from app [OF this ok] append(1) show ?thesis by (cases "se_body e") (auto simp: prompt_rows_def)
  next
    case owned
    have none: "prompt_rows e n = []" using owned(2) by (cases "se_body e") (auto simp: prompt_rows_def)
    have "step_rows ?s n [] rows rows'"
    proof (cases "memory_assistant m (messages_of ?s rows)")
      case None
      with owned run ok show ?thesis
        by (simp add: run_event_def update_owned_assistant_def db_adapter_def db_assistant_eq step_rows_refl)
    next
      case (Some a)
      have "am_id (recipe a) = am_id a" by (rule owned_recipe_id [OF owned(1)])
      moreover have "am_id a = m" using memory_assistant_SomeD [OF Some] by blast
      ultimately have "step_rows ?s n [] rows (update_assistant ?ad (recipe a) rows)" by (intro upd [of _ a]) (simp add: Some)
      with owned run ok Some show ?thesis
        by (simp add: run_event_def update_owned_assistant_def db_adapter_def db_assistant_eq)
    qed
    with none show ?thesis by simp
  next
    case none
    have "prompt_rows e n = []" using none(1) by (cases "se_body e") (auto simp: prompt_rows_def)
    with none run step_rows_refl [OF ok] show ?thesis by (simp add: run_event_def)
  qed
qed


section \<open>Promotion is delivery\<close>

definition delivers :: "message_row \<Rightarrow> input_row \<Rightarrow> bool" where
  \<comment> \<open>the user message of a promoted input\<close>
  "delivers m r \<longleftrightarrow> mr_session m = in_session r \<and> in_promoted r = Some (mr_seq m) \<and>
    (case mr_message m of
       UserMessage i md t p \<Rightarrow> i = in_id r \<and> stringify (encode_prompt p) = stringify (encode_prompt (in_prompt r))
     | _ \<Rightarrow> False)"

definition input_ok :: "(jstring \<Rightarrow> int) \<Rightarrow> message_row list \<Rightarrow> input_row \<Rightarrow> bool" where
  "input_ok hi users r \<longleftrightarrow> in_admitted r \<le> hi (in_session r) \<and>
    (\<forall>p. in_promoted r = Some p \<longrightarrow> in_admitted r \<le> p \<and> p \<le> hi (in_session r) \<and> (\<exists>m \<in> set users. delivers m r))"

definition inbox_ok :: "(jstring \<Rightarrow> int) \<Rightarrow> session_db \<Rightarrow> bool" where
  \<comment> \<open>for sequence numbers used up to \<open>hi\<close>\<close>
  "inbox_ok hi db \<longleftrightarrow>
    distinct (map in_id (input_table db)) \<and> rows_ok (message_table db) \<and>
    (\<forall>k \<in> row_keys (message_table db). snd k \<le> hi (fst k)) \<and>
    (\<forall>r \<in> set (input_table db). input_ok hi (user_rows (message_table db)) r) \<and>
    (\<forall>m \<in> set (user_rows (message_table db)). \<exists>r \<in> set (input_table db). delivers m r)"

lemma inbox_okD:
  assumes "inbox_ok hi db"
  shows "distinct (map in_id (input_table db))" "rows_ok (message_table db)"
    "k \<in> row_keys (message_table db) \<Longrightarrow> snd k \<le> hi (fst k)"
    "r \<in> set (input_table db) \<Longrightarrow> input_ok hi (user_rows (message_table db)) r"
    "m \<in> set (user_rows (message_table db)) \<Longrightarrow> \<exists>r \<in> set (input_table db). delivers m r"
  using assms by (simp_all add: inbox_ok_def)

lemma input_ok_mono: "input_ok hi users r \<Longrightarrow> hi (in_session r) \<le> hi' (in_session r) \<Longrightarrow> set users \<subseteq> set users' \<Longrightarrow> input_ok hi' users' r"
  unfolding input_ok_def by (meson order_trans subsetD)

lemma inbox_ok_frame:
  "inbox_ok hi db \<Longrightarrow> input_table db' = input_table db \<Longrightarrow> message_table db' = message_table db \<Longrightarrow> inbox_ok hi db'"
  by (simp add: inbox_ok_def)

lemma inbox_ok_later:
  assumes ok: "inbox_ok hi db" and hi: "hi s < n"
  shows "inbox_ok (hi(s := n)) db"
  unfolding inbox_ok_def
proof (intro conjI ballI)
  have le: "hi x \<le> (hi(s := n)) x" for x using hi by simp
  show "distinct (map in_id (input_table db))" "rows_ok (message_table db)" using inbox_okD [OF ok] by blast+
  show "snd k \<le> (hi(s := n)) (fst k)" if "k \<in> row_keys (message_table db)" for k
    using inbox_okD(3) [OF ok that] le [of "fst k"] by linarith
  show "input_ok (hi(s := n)) (user_rows (message_table db)) r" if "r \<in> set (input_table db)" for r
    using inbox_okD(4) [OF ok that] le by (rule input_ok_mono) simp
  show "\<exists>r \<in> set (input_table db). delivers m r" if "m \<in> set (user_rows (message_table db))" for m
    using inbox_okD(5) [OF ok that] .
qed

lemma inbox_ok_step:
  \<comment> \<open>the rows change but for the user messages\<close>
  assumes ok: "inbox_ok hi db" and hi: "hi s < n"
    and step: "step_rows s n [] (message_table db) rows'" and db': "message_table db' = rows'" "input_table db' = input_table db"
  shows "inbox_ok (hi(s := n)) db'"
  unfolding inbox_ok_def
proof (intro conjI ballI)
  note ok1 = inbox_okD [OF inbox_ok_later [OF ok hi]]
  have users: "user_rows (message_table db') = user_rows (message_table db)" using step db' by (simp add: step_rows_def)
  show "distinct (map in_id (input_table db'))" using ok1(1) db' by simp
  show "rows_ok (message_table db')" using step db' by (simp add: step_rows_def)
  show "snd k \<le> (hi(s := n)) (fst k)" if "k \<in> row_keys (message_table db')" for k
  proof -
    have "k = (s, n) \<or> k \<in> row_keys (message_table db)" using that step by (auto simp: db' step_rows_def)
    with ok1(3) [of k] show ?thesis by auto
  qed
  show "input_ok (hi(s := n)) (user_rows (message_table db')) r" if "r \<in> set (input_table db')" for r
    using ok1(4) that unfolding users by (simp add: db')
  show "\<exists>r \<in> set (input_table db'). delivers m r" if "m \<in> set (user_rows (message_table db'))" for m
    using ok1(5) that unfolding users by (simp add: db')
qed

lemma admitted_ok:
  assumes ok: "inbox_ok hi db" and hi: "hi s < n" and run: "project_admitted i s p d t n db = Inr db'"
  shows "inbox_ok (hi(s := n)) db'"
proof -
  let ?r = "\<lparr>in_id = i, in_session = s, in_prompt = p, in_delivery = d, in_admitted = n, in_promoted = None, in_time = t\<rparr>"
  have new: "i \<notin> in_id ` set (input_table db)" and db': "db' = db\<lparr>input_table := input_table db @ [?r]\<rparr>"
    using run by (auto simp: project_admitted_def split: if_split_asm)
  note ok1 = inbox_okD [OF inbox_ok_later [OF ok hi]]
  show ?thesis
    unfolding inbox_ok_def db'
  proof (intro conjI ballI)
    fix r assume "r \<in> set (input_table (db\<lparr>input_table := input_table db @ [?r]\<rparr>))"
    then consider "r \<in> set (input_table db)" | "r = ?r" by auto
    then show "input_ok (hi(s := n)) (user_rows (message_table (db\<lparr>input_table := input_table db @ [?r]\<rparr>))) r"
    proof cases
      case 1
      from ok1(4) [OF this] show ?thesis by simp
    next
      case 2
      then show ?thesis by (simp add: input_ok_def)
    qed
  next
    fix m assume "m \<in> set (user_rows (message_table (db\<lparr>input_table := input_table db @ [?r]\<rparr>)))"
    with ok1(5) [of m] show "\<exists>r \<in> set (input_table (db\<lparr>input_table := input_table db @ [?r]\<rparr>)). delivers m r" by auto
  next
    fix k assume "k \<in> row_keys (message_table (db\<lparr>input_table := input_table db @ [?r]\<rparr>))"
    then show "snd k \<le> (hi(s := n)) (fst k)" using ok1(3) [of k] by simp
  next
    show "distinct (map in_id (input_table (db\<lparr>input_table := input_table db @ [?r]\<rparr>)))" using ok1(1) new by simp
    show "rows_ok (message_table (db\<lparr>input_table := input_table db @ [?r]\<rparr>))" using ok1(2) by simp
  qed
qed

lemma project_prompted_cases:
  assumes "project_prompted i s p d t n db = Inr db1"
  obtains (promoted) r where "r \<in> set (input_table db)" "in_id r = i" "in_session r = s" "in_promoted r = None"
      "matches_projection r s p d t" "db1 = db\<lparr>input_table := promote_row i n (input_table db)\<rparr>"
    | (known) r where "r \<in> set (input_table db)" "in_session r = s" "in_promoted r = Some n" "db1 = db"
    | (added) "i \<notin> in_id ` set (input_table db)" "db1 = db\<lparr>input_table := input_table db @ [\<lparr>in_id = i, in_session = s, in_prompt = p,
        in_delivery = d, in_admitted = n, in_promoted = Some n, in_time = t\<rparr>]\<rparr>"
proof (cases "find (\<lambda>r. in_id r = i \<and> in_session r = s \<and> in_promoted r = None) (input_table db)")
  case (Some r)
  then have "r \<in> set (input_table db)" "in_id r = i" "in_session r = s" "in_promoted r = None"
    by (auto simp: find_Some_iff)
  with assms Some show ?thesis by (intro promoted) (auto simp: project_prompted_def split: if_split_asm)
next
  case none: None
  show ?thesis
  proof (cases "find_input db i")
    case (Some r)
    then have "r \<in> set (input_table db)" by (auto simp: find_input_def find_Some_iff)
    with assms none Some show ?thesis
      by (intro known) (auto simp: project_prompted_def matches_projection_def equivalent_def matches_prompt_def split: if_split_asm)
  next
    case None
    then have "i \<notin> in_id ` set (input_table db)" by (auto simp: find_input_def find_None_iff)
    with assms none None show ?thesis by (intro added) (auto simp: project_prompted_def split: if_split_asm)
  qed
qed

lemma in_promote_row:
  assumes "distinct (map in_id rows)" "r0 \<in> set rows" "in_id r0 = i"
  shows "r \<in> set (promote_row i n rows) \<longleftrightarrow> r = r0\<lparr>in_promoted := Some n\<rparr> \<or> r \<in> set rows \<and> in_id r \<noteq> i"
proof -
  have u: "r1 = r0" if "r1 \<in> set rows" "in_id r1 = i" for r1
    using assms that by (metis distinct_map inj_onD)
  show ?thesis
  proof
    assume "r \<in> set (promote_row i n rows)"
    then obtain r1 where r1: "r1 \<in> set rows" "r = (if in_id r1 = i then r1\<lparr>in_promoted := Some n\<rparr> else r1)"
      unfolding promote_row_def by auto
    then show "r = r0\<lparr>in_promoted := Some n\<rparr> \<or> r \<in> set rows \<and> in_id r \<noteq> i" using u [OF r1(1)] by (cases "in_id r1 = i") simp_all
  next
    assume "r = r0\<lparr>in_promoted := Some n\<rparr> \<or> r \<in> set rows \<and> in_id r \<noteq> i"
    then show "r \<in> set (promote_row i n rows)"
    proof
      assume "r = r0\<lparr>in_promoted := Some n\<rparr>"
      with assms(2,3) show ?thesis unfolding promote_row_def by (auto intro!: image_eqI [of _ _ r0])
    next
      assume "r \<in> set rows \<and> in_id r \<noteq> i"
      then show ?thesis unfolding promote_row_def by (auto intro!: image_eqI [of _ _ r])
    qed
  qed
qed

lemma ids_promote_row [simp]: "map in_id (promote_row i n rows) = map in_id rows"
proof -
  have "in_id (if in_id r = i then r\<lparr>in_promoted := Some n\<rparr> else r) = in_id r" for r by (cases "in_id r = i") simp_all
  then show ?thesis by (simp add: promote_row_def)
qed

lemma inbox_ok_prompted:
  \<comment> \<open>one input is promoted, or inserted promoted, and its message is appended\<close>
  assumes ok: "inbox_ok hi db" and hi: "hi s < n"
    and step: "step_rows s n [m] (message_table db) (message_table db')" and m: "delivers m r1" "mr_seq m = n" "in_session r1 = s" "in_admitted r1 \<le> n"
    and ids: "distinct (map in_id (input_table db'))"
    and mem: "\<And>r. r \<in> set (input_table db') \<longleftrightarrow> r = r1 \<or> r \<in> set (input_table db) \<and> in_id r \<noteq> in_id r1"
    and fresh: "\<And>r. r \<in> set (input_table db) \<Longrightarrow> in_id r = in_id r1 \<Longrightarrow> in_promoted r = None"
  shows "inbox_ok (hi(s := n)) db'"
  unfolding inbox_ok_def
proof (intro conjI ballI ids)
  note ok1 = inbox_okD [OF inbox_ok_later [OF ok hi]]
  have users: "user_rows (message_table db') = user_rows (message_table db) @ [m]" using step by (simp add: step_rows_def)
  show "rows_ok (message_table db')" using step by (simp add: step_rows_def)
  show "snd k \<le> (hi(s := n)) (fst k)" if "k \<in> row_keys (message_table db')" for k
  proof -
    have "k = (s, n) \<or> k \<in> row_keys (message_table db)" using that step by (auto simp: step_rows_def)
    with ok1(3) [of k] show ?thesis by auto
  qed
  show "input_ok (hi(s := n)) (user_rows (message_table db')) r" if r: "r \<in> set (input_table db')" for r
  proof (cases "r = r1")
    case True
    have "in_promoted r1 = Some n" using m(1,2) by (simp add: delivers_def)
    with m True show ?thesis by (auto simp: input_ok_def users)
  next
    case False
    with r mem have "r \<in> set (input_table db)" by blast
    from ok1(4) [OF this] show ?thesis by (rule input_ok_mono) (auto simp: users)
  qed
  show "\<exists>r \<in> set (input_table db'). delivers m' r" if "m' \<in> set (user_rows (message_table db'))" for m'
  proof -
    consider "m' = m" | "m' \<in> set (user_rows (message_table db))" using \<open>m' \<in> _\<close> users by auto
    then show ?thesis
    proof cases
      case 1
      with m(1) mem show ?thesis by blast
    next
      case 2
      then obtain r where r: "r \<in> set (input_table db)" "delivers m' r" using ok1(5) by blast
      then have "in_id r \<noteq> in_id r1" using fresh by (auto simp: delivers_def)
      with r mem show ?thesis by blast
    qed
  qed
qed

lemma prompted_ok:
  assumes ok: "inbox_ok hi db" and e: "se_body e = PromptedE i p d" "se_session e = s" and hi: "hi s < n"
    and run: "rbind (project_prompted i s p d (se_time e) n db) (project_run e n) = Inr db'"
  shows "inbox_ok (hi(s := n)) db'"
proof -
  obtain db1 where db1: "project_prompted i s p d (se_time e) n db = Inr db1" "project_run e n db1 = Inr db'"
    using run by (auto simp: rbind_Inr_iff)
  let ?m = "\<lparr>mr_session = s, mr_seq = n, mr_message = UserMessage i (se_metadata e) (se_time e) p\<rparr>"
  have rows: "step_rows s n [?m] (message_table db1) (message_table db')" "input_table db' = input_table db1"
    if "message_table db1 = message_table db"
    using run_event_step [of "message_table db1" _ e n "message_table db'"] db1(2) inbox_okD(2) [OF ok] that
    by (auto simp: project_run_def prompt_rows_def e split: option.split_asm)
  from db1(1) show ?thesis
  proof (cases rule: project_prompted_cases)
    case (promoted r)
    let ?r1 = "r\<lparr>in_promoted := Some n\<rparr>"
    have r_ok: "in_admitted r \<le> hi s" using inbox_okD(4) [OF ok promoted(1)] promoted(3) by (simp add: input_ok_def)
    have m: "delivers ?m ?r1"
      using promoted by (simp add: delivers_def matches_projection_def equivalent_def matches_prompt_def)
    have mem: "r' \<in> set (input_table db') \<longleftrightarrow> r' = ?r1 \<or> r' \<in> set (input_table db) \<and> in_id r' \<noteq> in_id ?r1" for r'
      using in_promote_row [OF inbox_okD(1) [OF ok] promoted(1,2)] promoted(2,6) rows(2) by simp
    have fresh: "in_promoted r' = None" if "r' \<in> set (input_table db)" "in_id r' = in_id ?r1" for r'
    proof -
      have "r' = r" using that promoted(1) inbox_okD(1) [OF ok] by (auto simp: distinct_map inj_on_def)
      with promoted(4) show ?thesis by simp
    qed
    show ?thesis
      by (rule inbox_ok_prompted [OF ok hi _ m _ _ _ _ mem fresh]) (use rows promoted r_ok hi inbox_okD(1) [OF ok] in simp_all)
  next
    case (known r)
    with inbox_okD(4) [OF ok known(1)] hi have False by (simp add: input_ok_def)
    then show ?thesis ..
  next
    case added
    let ?r1 = "\<lparr>in_id = i, in_session = s, in_prompt = p, in_delivery = d, in_admitted = n, in_promoted = Some n, in_time = se_time e\<rparr>"
    have m: "delivers ?m ?r1" by (simp add: delivers_def)
    have mem: "r' \<in> set (input_table db') \<longleftrightarrow> r' = ?r1 \<or> r' \<in> set (input_table db) \<and> in_id r' \<noteq> in_id ?r1" for r'
      using added rows(2) by auto
    show ?thesis
      by (rule inbox_ok_prompted [OF ok hi _ m _ _ _ _ mem]) (use rows added inbox_okD(1) [OF ok] in \<open>auto\<close>)
  qed
qed

lemma tables_upd [simp]:
  "message_table (update_session sid f db) = message_table db" "input_table (update_session sid f db) = input_table db"
  "message_table (reset_epoch sid db) = message_table db" "input_table (reset_epoch sid db) = input_table db"
  by (simp_all add: update_session_def reset_epoch_def)

lemma reverted_ok:
  assumes ok: "inbox_ok hi db" and run: "project_reverted s b t db = Inr db'"
  shows "inbox_ok hi db'"
proof -
  obtain k where db': "message_table db' = filter (\<lambda>r. \<not> (mr_session r = s \<and> k < mr_seq r)) (message_table db)"
      "input_table db' = filter (\<lambda>r. \<not> (in_session r = s \<and>
          (k < in_admitted r \<or> (case in_promoted r of Some p \<Rightarrow> k < p | None \<Rightarrow> False)))) (input_table db)"
  proof (cases "find (\<lambda>r. mr_session r = s \<and> message_id (mr_message r) = b) (message_table db)")
    case None
    with run show ?thesis by (simp add: project_reverted_def)
  next
    case (Some r)
    show ?thesis by (rule that [of "mr_seq r"]) (use run Some in \<open>auto simp: project_reverted_def Let_def\<close>)
  qed
  note okd = inbox_okD [OF ok]
  have users: "m \<in> set (user_rows (message_table db')) \<longleftrightarrow>
      m \<in> set (user_rows (message_table db)) \<and> \<not> (mr_session m = s \<and> k < mr_seq m)" for m
    by (auto simp: user_rows_def db')
  show ?thesis
    unfolding inbox_ok_def
  proof (intro conjI ballI)
    show "distinct (map in_id (input_table db'))" using okd(1) by (simp add: db' distinct_map_filter)
    show "rows_ok (message_table db')" using okd(2) by (simp add: db' rows_ok_def distinct_map_filter)
    show "snd k \<le> hi (fst k)" if "k \<in> row_keys (message_table db')" for k
      using okd(3) that by (auto simp: row_keys_def db')
    show "input_ok hi (user_rows (message_table db')) r" if r: "r \<in> set (input_table db')" for r
    proof -
      have in0: "r \<in> set (input_table db)" using r db' by simp
      have "\<exists>m \<in> set (user_rows (message_table db')). delivers m r" if p: "in_promoted r = Some p" for p
      proof -
        obtain m where m: "m \<in> set (user_rows (message_table db))" "delivers m r" using okd(4) [OF in0] p by (auto simp: input_ok_def)
        then have "mr_session m = in_session r" "mr_seq m = p" using p by (auto simp: delivers_def)
        with r p m(1) have "m \<in> set (user_rows (message_table db'))" unfolding users by (auto simp: db')
        with m(2) show ?thesis by blast
      qed
      with okd(4) [OF in0] show ?thesis by (auto simp: input_ok_def)
    qed
    show "\<exists>r \<in> set (input_table db'). delivers m r" if "m \<in> set (user_rows (message_table db'))" for m
    proof -
      have m: "m \<in> set (user_rows (message_table db))" "\<not> (mr_session m = s \<and> k < mr_seq m)" using that users by auto
      obtain r where r: "r \<in> set (input_table db)" "delivers m r" using okd(5) [OF m(1)] by blast
      then have "mr_session m = in_session r" "in_promoted r = Some (mr_seq m)" by (auto simp: delivers_def)
      moreover have "in_admitted r \<le> mr_seq m" using okd(4) [OF r(1)] \<open>in_promoted r = _\<close> by (auto simp: input_ok_def)
      ultimately have "r \<in> set (input_table db')" using r(1) m(2) by (auto simp: db')
      with r(2) show ?thesis by blast
    qed
  qed
qed

lemma run_only_ok:
  assumes ok: "inbox_ok hi db" and hi: "hi (se_session e) < n" and none: "prompt_rows e n = []"
    and db1: "message_table db1 = message_table db" "input_table db1 = input_table db" and run: "project_run e n db1 = Inr db'"
  shows "inbox_ok (hi(se_session e := n)) db'"
proof -
  obtain rows where rows: "run_event (has_session db1 (se_session e)) e n (message_table db1) = Some rows" "db' = db1\<lparr>message_table := rows\<rparr>"
    using run by (auto simp: project_run_def split: option.split_asm)
  have "rows_ok (message_table db1)" using inbox_okD(2) [OF ok] db1 by simp
  from run_event_step [OF this rows(1)] none db1(1)
  have "step_rows (se_session e) n [] (message_table db) rows" by simp
  from inbox_ok_step [OF ok hi this, of db'] rows(2) db1(2) show ?thesis by simp
qed

lemma project_event_ok:
  assumes ok: "inbox_ok hi db" and hi: "hi (se_session e) < n" and run: "project_event e n db = Inr db'"
  shows "inbox_ok (hi(se_session e := n)) db'"
proof -
  note later = inbox_ok_later [OF ok hi]
  consider (prompted) i p d where "se_body e = PromptedE i p d"
    | (admitted) i p d where "se_body e = PromptAdmittedE i p d"
    | (reverted) m where "se_body e = RevertCommittedE m"
    | (same) "message_table db' = message_table db" "input_table db' = input_table db"
    | (only) db1 where "prompt_rows e n = []" "message_table db1 = message_table db" "input_table db1 = input_table db"
        "project_run e n db1 = Inr db'"
  proof (cases "se_body e")
    case (AgentSwitchedE i a)
    with run show ?thesis
      by (intro that(5) [of "update_session (se_session e) (\<lambda>s. s\<lparr>ss_agent := Some a, ss_updated := se_time e\<rparr>) db"])
        (simp_all add: project_event_def prompt_rows_def Let_def)
  next
    case (ModelSwitchedE i m)
    with run show ?thesis
      by (intro that(5) [of "update_session (se_session e) (\<lambda>s. s\<lparr>ss_model := Some m, ss_updated := se_time e\<rparr>) db"])
        (simp_all add: project_event_def prompt_rows_def Let_def)
  next
    case (PromptedE i p d)
    then show ?thesis by (rule that(1))
  next
    case (PromptAdmittedE i p d)
    then show ?thesis by (rule that(2))
  next
    case (RevertCommittedE m)
    then show ?thesis by (rule that(3))
  qed (use run that(4) that(5) [of db] in \<open>auto simp: project_event_def prompt_rows_def Let_def\<close>)
  then show ?thesis
  proof cases
    case prompted
    with run have "rbind (project_prompted i (se_session e) p d (se_time e) n db) (project_run e n) = Inr db'"
      by (simp add: project_event_def Let_def)
    from prompted_ok [OF ok prompted refl hi this] show ?thesis .
  next
    case admitted
    with run have "project_admitted i (se_session e) p d (se_time e) n db = Inr db'" by (simp add: project_event_def Let_def)
    from admitted_ok [OF ok hi this] show ?thesis .
  next
    case reverted
    with run have "project_reverted (se_session e) m (se_time e) db = Inr db'" by (simp add: project_event_def Let_def)
    from reverted_ok [OF later this] show ?thesis .
  next
    case same
    from inbox_ok_frame [OF later same(2,1)] show ?thesis .
  next
    case only
    from run_only_ok [OF ok hi only] show ?thesis .
  qed
qed

section \<open>Histories\<close>

definition log_inbox_ok :: "'j session_log \<Rightarrow> bool" where
  "log_inbox_ok L \<longleftrightarrow> inbox_ok (latest_sequence L) (tables L)"

lemma publish_session_ok:
  assumes ok: "log_inbox_ok L" and run: "publish_session c e L = (res, L')"
  shows "log_inbox_ok L'"
  using run
proof (cases rule: publish_session_cases)
  case live
  with ok show ?thesis by (simp add: log_inbox_ok_def notify_def latest_sequence_def [abs_def])
next
  case (committed ev encoded)
  have "inbox_ok ((latest_sequence L)(se_session e := latest_sequence L (se_session e) + 1)) (tables L')"
    by (rule project_event_ok [OF ok [unfolded log_inbox_ok_def] _ committed(4)]) simp
  then show ?thesis by (simp add: log_inbox_ok_def committed(5))
qed (use ok in simp)

lemma publish_rows_keeps:
  assumes keep: "\<And>e L res L'. P L \<Longrightarrow> publish_session c e L = (res, L') \<Longrightarrow> P L'"
  shows "P L \<Longrightarrow> P (snd (publish_rows c sid rs L))"
proof (induction rs arbitrary: L)
  case (Cons r rs)
  obtain res L1 where run: "publish_session c (prompted_event sid r) L = (res, L1)" by fastforce
  have ok1: "P L1" using keep [OF Cons.prems run] .
  show ?case using Cons.IH [OF ok1] ok1 by (auto simp: run split: sum.split log_error.split db_defect.split)
qed simp

text \<open>The operations act on the log through the publications only.\<close>

lemma run_inbox_keeps:
  assumes keep: "\<And>e L res L'. P L \<Longrightarrow> publish_session c e L = (res, L') \<Longrightarrow> P L'" and ok: "P L"
  shows "P (run_inbox c a L)"
proof -
  have pub: "P (snd (publish_session c e L))" for e
    using keep [OF ok, of e] by (metis surjective_pairing)
  have pr: "publish_rows c sid rs L = (res, L') \<Longrightarrow> P L'" for sid rs res L'
    using publish_rows_keeps [of P c L sid rs, OF keep ok] by simp
  have new: "P (snd (admit_new c now i sid p d L))" for now i sid p d
    unfolding admit_new_def using pub by (auto split: prod.split sum.split option.split dest: keep [OF ok])
  show ?thesis
    by (cases a) (auto simp: pub admit_def new ok promote_steers_def promote_next_queued_def Let_def simp del: publish_rows.simps
        split: option.split prod.split sum.split list.split dest!: pr)
qed

lemma run_inbox_ok: "log_inbox_ok L \<Longrightarrow> log_inbox_ok (run_inbox c a L)"
  by (rule run_inbox_keeps [where P = log_inbox_ok]) (auto intro: publish_session_ok)

definition known_sessions :: "(jstring \<rightharpoonup> session_row) \<Rightarrow> session_db" where
  "known_sessions s = \<lparr>session_table = s, message_table = [], input_table = [], epoch_table = Map.empty\<rparr>"

definition inbox_after :: "'j codec \<Rightarrow> (jstring \<rightharpoonup> session_row) \<Rightarrow> inbox_op list \<Rightarrow> 'j session_log" where
  "inbox_after c s ops = fold (run_inbox c) ops (empty_log (known_sessions s))"

lemma inbox_after_ok: "log_inbox_ok (inbox_after c s ops)"
proof -
  have all: "log_inbox_ok L \<Longrightarrow> log_inbox_ok (fold (run_inbox c) ops L)" for L
    by (induction ops arbitrary: L) (simp_all add: run_inbox_ok)
  show ?thesis unfolding inbox_after_def
    by (rule all) (simp add: log_inbox_ok_def empty_log_def known_sessions_def inbox_ok_def rows_ok_def row_keys_def user_rows_def)
qed

definition user_messages_of :: "session_db \<Rightarrow> jstring \<Rightarrow> message_row list" where
  \<comment> \<open>the user messages of the history under an id\<close>
  "user_messages_of db i = filter (\<lambda>m. is_user (mr_message m) \<and> message_id (mr_message m) = i) (message_table db)"

lemma delivers_user: "delivers m r \<Longrightarrow> is_user (mr_message m) \<and> message_id (mr_message m) = in_id r"
  by (cases "mr_message m") (auto simp: delivers_def)

lemma unique_filter:
  assumes "distinct (map k xs)" "x \<in> set xs" "P x" "\<And>y. P y \<Longrightarrow> k y = k x"
  shows "filter P xs = [x]"
  using assms(1,2)
proof (induction xs)
  case (Cons y xs)
  show ?case
  proof (cases "y = x")
    case True
    with Cons.prems have "filter P xs = []" by (auto simp: filter_empty_conv image_iff dest!: assms(4))
    with True assms(3) show ?thesis by simp
  next
    case False
    with Cons.prems have "x \<in> set xs" "k y \<noteq> k x" by (auto simp: image_iff)
    then have "\<not> P y" using assms(4) by blast
    with Cons \<open>x \<in> set xs\<close> show ?thesis by simp
  qed
qed simp

text \<open>C3. Whatever is admitted, promoted, emitted and reverted, an input that waits has no message in the
  history, and an input that was promoted has exactly one, of its session, with its prompt, at the
  sequence number of the promotion; and every user message of the history belongs to an input.\<close>

theorem promotion_is_delivery:
  assumes L: "L = inbox_after c s ops"
  shows "(\<forall>r \<in> set (input_table (tables L)).
      case in_promoted r of
        None \<Rightarrow> user_messages_of (tables L) (in_id r) = []
      | Some n \<Rightarrow> in_admitted r \<le> n \<and> (\<exists>m. user_messages_of (tables L) (in_id r) = [m] \<and> delivers m r)) \<and>
    (\<forall>m \<in> set (message_table (tables L)). is_user (mr_message m) \<longrightarrow> (\<exists>r \<in> set (input_table (tables L)). delivers m r))"
proof -
  let ?db = "tables L"
  note ok = inbox_okD [OF inbox_after_ok [of c s ops, folded L, unfolded log_inbox_ok_def]]
  have ids: "r1 = r2" if "r1 \<in> set (input_table ?db)" "r2 \<in> set (input_table ?db)" "in_id r1 = in_id r2" for r1 r2
    using that ok(1) by (auto simp: distinct_map inj_on_def)
  have user: "\<exists>r \<in> set (input_table ?db). delivers m r" if "m \<in> set (message_table ?db)" "is_user (mr_message m)" for m
    using ok(5) that by (auto simp: user_rows_def)
  have "case in_promoted r of None \<Rightarrow> user_messages_of ?db (in_id r) = []
      | Some n \<Rightarrow> in_admitted r \<le> n \<and> (\<exists>m. user_messages_of ?db (in_id r) = [m] \<and> delivers m r)"
    if r: "r \<in> set (input_table ?db)" for r
  proof (cases "in_promoted r")
    case None
    have False if "m \<in> set (message_table ?db)" "is_user (mr_message m)" "message_id (mr_message m) = in_id r" for m
    proof -
      note m = that
      obtain r' where r': "r' \<in> set (input_table ?db)" "delivers m r'" using user [OF m(1,2)] by blast
      then have "r' = r" using delivers_user [OF r'(2)] m(3) by (intro ids [OF r'(1) r]) simp
      with r'(2) None show False by (simp add: delivers_def)
    qed
    with None show ?thesis by (auto simp: user_messages_of_def filter_empty_conv)
  next
    case (Some n)
    obtain m where m: "m \<in> set (user_rows (message_table ?db))" "delivers m r" "in_admitted r \<le> n"
      using ok(4) [OF r] Some by (auto simp: input_ok_def)
    have "user_messages_of ?db (in_id r) = [m]" unfolding user_messages_of_def
      by (rule unique_filter [of "\<lambda>m. message_id (mr_message m)"])
        (use ok(2) m delivers_user [OF m(2)] in \<open>auto simp: rows_ok_def user_rows_def\<close>)
    with m Some show ?thesis by auto
  qed
  with user show ?thesis by blast
qed

definition demo_codec :: "session_event codec" where
  "demo_codec = \<lparr>enc = Some, dec = Some, fresh = (\<lambda>n. [n])\<rparr>"

definition demo_sessions :: "jstring \<rightharpoonup> session_row" where
  "demo_sessions i = (if i = lit ''s'' then Some \<lparr>ss_directory = lit ''/d'', ss_path = None, ss_workspace = None,
     ss_agent = None, ss_model = None, ss_revert = None, ss_updated = 0\<rparr> else None)"

definition demo_prompt :: "string \<Rightarrow> prompt" where
  "demo_prompt t = \<lparr>pr_text = lit t, pr_files = None, pr_agents = None\<rparr>"

definition demo_inbox :: "session_event session_log" where
  \<comment> \<open>two steers and a queued prompt are admitted, the steers promoted up to the first one's number\<close>
  "demo_inbox = inbox_after demo_codec demo_sessions
     [Admit 1 (lit ''a'') (lit ''s'') (demo_prompt ''one'') Steer, Admit 2 (lit ''b'') (lit ''s'') (demo_prompt ''two'') Queue,
      Admit 3 (lit ''c'') (lit ''s'') (demo_prompt ''three'') Steer, PromoteSteers (lit ''s'') 1, PromoteNext (lit ''s'')]"

lemma promotion_is_delivery_witness:
  "map (\<lambda>r. (in_id r, in_promoted r)) (input_table (tables demo_inbox)) =
     [(lit ''a'', Some 3), (lit ''b'', Some 4), (lit ''c'', None)] \<and>
   (\<exists>m. user_messages_of (tables demo_inbox) (lit ''b'') = [m] \<and> mr_seq m = 4)"
proof -
  have rows: "map (\<lambda>r. (in_id r, in_promoted r)) (input_table (tables demo_inbox)) =
     [(lit ''a'', Some 3), (lit ''b'', Some 4), (lit ''c'', None)]" by code_simp
  then have "(lit ''b'', Some 4) \<in> set (map (\<lambda>r. (in_id r, in_promoted r)) (input_table (tables demo_inbox)))" by simp
  then obtain r where r: "r \<in> set (input_table (tables demo_inbox))" "in_id r = lit ''b''" "in_promoted r = Some 4" by auto
  from promotion_is_delivery [OF demo_inbox_def, THEN conjunct1, rule_format, OF r(1)] r rows
  show ?thesis by (auto simp: delivers_def)
qed

end
