(* ===== verification/Projection.thy ===== *)
theory Projection imports InboxProps begin

text \<open>
  The two readings of a session's history agree: the rows the projectors keep in the database are the
  messages that folding the session's durable events in memory gives, as long as nothing was reverted.
  The refinement of one event is the fact \<open>db_store.update_refines\<close> of the database's adapter.
\<close>

definition session_events :: "'j codec \<Rightarrow> jstring \<Rightarrow> 'j session_log \<Rightarrow> session_event list" where
  \<comment> \<open>the session's rows of the log, decoded\<close>
  "session_events c sid L = map (\<lambda>r. the (dec c (row_data r))) (filter (\<lambda>r. row_aggregate r = sid) (log L))"

definition reverts :: "session_event \<Rightarrow> bool" where
  "reverts e \<longleftrightarrow> (\<exists>m. se_body e = RevertCommittedE m)"

lemma inbox_ok_upto: "inbox_ok hi db \<Longrightarrow> hi sid \<le> n \<Longrightarrow> rows_upto sid n (message_table db)"
  using inbox_okD(2,3) [of hi db] by (fastforce simp: rows_upto_def row_keys_def)

lemma project_run_messages:
  assumes "project_run e n db = Inr db'"
  shows "\<exists>known. run_event known e n (message_table db) = Some (message_table db')"
  using assms by (auto simp: project_run_def split: option.split_asm)

lemma project_event_messages:
  assumes run: "project_event e n db = Inr db'" and no: "\<not> reverts e" "durable_body (se_body e)"
  shows "(\<exists>known. run_event known e n (message_table db) = Some (message_table db')) \<or>
    message_table db' = message_table db \<and> (\<forall>ms. update memory e ms = Some ms)"
proof -
  have prompted: "message_table db1 = message_table db" if "project_prompted i s p d t k db = Inr db1" for i s p d t k db1
    using that by (cases rule: project_prompted_cases) simp_all
  show ?thesis
  proof (cases "se_body e")
    case (PromptedE i p d)
    with run obtain db1 where "project_prompted i (se_session e) p d (se_time e) n db = Inr db1" "project_run e n db1 = Inr db'"
      by (auto simp: project_event_def Let_def rbind_Inr_iff)
    with prompted project_run_messages show ?thesis by metis
  next
    case (PromptAdmittedE i p d)
    with run show ?thesis by (auto simp: project_event_def project_admitted_def Let_def update_def split: if_split_asm)
  next
    case (AgentSwitchedE i a)
    with run project_run_messages [of e n _ db'] show ?thesis by (fastforce simp: project_event_def Let_def)
  next
    case (ModelSwitchedE i m)
    with run project_run_messages [of e n _ db'] show ?thesis by (fastforce simp: project_event_def Let_def)
  qed (use run no project_run_messages [of e n db db'] in \<open>auto simp: project_event_def Let_def update_def reverts_def\<close>)
qed

lemma project_event_other:
  assumes run: "project_event e n db = Inr db'" and other: "se_session e \<noteq> sid" and dur: "durable_body (se_body e)"
  shows "messages_of sid (message_table db') = messages_of sid (message_table db)"
proof (cases "reverts e")
  case True
  then obtain m where "se_body e = RevertCommittedE m" by (auto simp: reverts_def)
  with run obtain k where "message_table db' = filter (\<lambda>r. \<not> (mr_session r = se_session e \<and> k < mr_seq r)) (message_table db)"
    by (auto simp: project_event_def project_reverted_def Let_def split: option.split_asm)
  then have "filter (\<lambda>r. mr_session r = sid) (message_table db') = filter (\<lambda>r. mr_session r = sid) (message_table db)"
    using other by (auto intro: filter_cong)
  then show ?thesis by (simp add: messages_of_def session_rows_def)
next
  case False
  from project_event_messages [OF run False dur] run_event_other [OF _ other] show ?thesis by (auto simp: messages_of_def)
qed

lemma project_event_fold:
  assumes run: "project_event e n db = Inr db'" and no: "\<not> reverts e" "durable_body (se_body e)" and ok: "rows_upto (se_session e) n (message_table db)"
  shows "update memory e (messages_of (se_session e) (message_table db)) = Some (messages_of (se_session e) (message_table db'))"
  using project_event_messages [OF run no] run_event_messages [OF _ ok] by auto

definition folded :: "'j codec \<Rightarrow> jstring \<Rightarrow> 'j session_log \<Rightarrow> bool" where
  "folded c sid L \<longleftrightarrow> log_inbox_ok L \<and>
    ((\<forall>e \<in> set (session_events c sid L). \<not> reverts e) \<longrightarrow>
      update_all memory (session_events c sid L) [] = Some (messages_of sid (message_table (tables L))))"

lemma publish_folded:
  assumes codec: "\<And>e x. enc c e = Some x \<Longrightarrow> dec c x = Some e"
    and ok: "folded c sid L" and run: "publish_session c e L = (res, L')"
  shows "folded c sid L'"
proof -
  have inv: "log_inbox_ok L" "log_inbox_ok L'" using ok publish_session_ok [OF _ run] by (auto simp: folded_def)
  show ?thesis
    using run
  proof (cases rule: publish_session_cases)
    case live
    with ok inv show ?thesis by (simp add: folded_def session_events_def notify_def)
  next
    case failed
    with ok show ?thesis by simp
  next
    case (committed ev encoded)
    let ?n = "latest_sequence L (se_session e) + 1"
    have evs: "session_events c sid L' = session_events c sid L @ (if se_session e = sid then [e] else [])"
      using codec [OF committed(6)] by (simp add: session_events_def committed(7))
    show ?thesis
    proof (cases "se_session e = sid")
      case False
      with ok inv evs project_event_other [OF committed(4) False committed(1)] show ?thesis by (simp add: folded_def)
    next
      case True
      have "rows_upto (se_session e) ?n (message_table (tables L))"
        by (rule inbox_ok_upto [OF inv(1) [unfolded log_inbox_ok_def]]) simp
      note step = project_event_fold [OF committed(4) _ committed(1) this]
      show ?thesis
        unfolding folded_def
      proof (intro conjI impI inv(2))
        assume "\<forall>e' \<in> set (session_events c sid L'). \<not> reverts e'"
        with evs True have no: "\<not> reverts e" "\<forall>e' \<in> set (session_events c sid L). \<not> reverts e'" by auto
        with ok have "update_all memory (session_events c sid L) [] = Some (messages_of sid (message_table (tables L)))"
          by (simp add: folded_def)
        with step [OF no(1)] evs True
        show "update_all memory (session_events c sid L') [] = Some (messages_of sid (message_table (tables L')))"
          by (simp add: update_all_append)
      qed
    qed
  qed
qed

text \<open>C4. Whatever was admitted, promoted and emitted: when the schema decodes what it encodes and no revert
  of the session was committed, folding the session's durable events in memory gives the messages its database rows
  hold, in their order.\<close>

theorem projection_is_the_memory_fold:
  assumes codec: "\<And>e x. enc c e = Some x \<Longrightarrow> dec c x = Some e" and L: "L = inbox_after c s ops"
    and no: "\<forall>e \<in> set (session_events c sid L). \<not> reverts e"
  shows "update_all memory (session_events c sid L) [] = Some (messages_of sid (message_table (tables L)))"
proof -
  have step: "folded c sid L0 \<Longrightarrow> folded c sid (run_inbox c a L0)" for L0 a
    by (rule run_inbox_keeps [where P = "folded c sid"]) (auto intro: publish_folded codec)
  have all: "folded c sid L0 \<Longrightarrow> folded c sid (fold (run_inbox c) ops L0)" for L0
    by (induction ops arbitrary: L0) (simp_all add: step)
  have "folded c sid (inbox_after c s [])"
    using inbox_after_ok [of c s "[]"]
    by (simp add: folded_def) (simp add: inbox_after_def session_events_def empty_log_def known_sessions_def messages_of_def session_rows_def)
  then have "folded c sid L" unfolding L using all by (simp add: inbox_after_def)
  with no show ?thesis by (simp add: folded_def)
qed

definition demo_turn :: "inbox_op list" where
  "demo_turn = (let e = (\<lambda>b. Emit \<lparr>se_metadata = None, se_session = lit ''s'', se_time = 5, se_body = b\<rparr>) in
     [Admit 1 (lit ''u'') (lit ''s'') (demo_prompt ''hi'') Steer, PromoteSteers (lit ''s'') 0,
      e (StepStartedE (lit ''m'') (lit ''build'') JNull None), e (TextStartedE (lit ''m'') (lit ''t'')),
      e (TextEndedE (lit ''m'') (lit ''t'') (lit ''hello''))])"

lemma projection_is_the_memory_fold_witness:
  "\<exists>md a. update_all memory (session_events demo_codec (lit ''s'') (inbox_after demo_codec demo_sessions demo_turn)) [] =
     Some [UserMessage (lit ''u'') md 1 (demo_prompt ''hi''), AssistantMessage a] \<and>
     am_content a = [CText \<lparr>tx_id = lit ''t'', tx_text = lit ''hello''\<rparr>]"
proof -
  let ?L = "inbox_after demo_codec demo_sessions demo_turn"
  let ?a = "(new_assistant (lit ''m'') (lit ''build'') JNull None 5)\<lparr>am_content := [CText \<lparr>tx_id = lit ''t'', tx_text = lit ''hello''\<rparr>]\<rparr>"
  have codec: "enc demo_codec e = Some x \<Longrightarrow> dec demo_codec x = Some e" for e x by (simp add: demo_codec_def)
  have "list_all (\<lambda>e. case se_body e of RevertCommittedE m \<Rightarrow> False | _ \<Rightarrow> True) (session_events demo_codec (lit ''s'') ?L)" by code_simp
  then have no: "\<forall>e \<in> set (session_events demo_codec (lit ''s'') ?L). \<not> reverts e"
    by (auto simp: list_all_iff reverts_def split: session_body.split_asm)
  have rows: "messages_of (lit ''s'') (message_table (tables ?L)) =
      [UserMessage (lit ''u'') None 1 (demo_prompt ''hi''), AssistantMessage ?a]" by code_simp
  from projection_is_the_memory_fold [OF codec refl no] rows show ?thesis
    by (intro exI [of _ None] exI [of _ ?a]) simp
qed

end
