(* ===== verification/SystemContext.thy ===== *)
theory SystemContext imports LlmEvents "HOL-Library.List_Lexorder" begin

text \<open>
  The privileged system context (packages/core/src/system-context/index.ts): sources that are observed,
  compared with a durable snapshot and rendered. A source closes over its value type: what remains of it
  is \<open>loaded\<close>, two thunks that may throw. Observing is done by the caller, so a context is the list of its
  sources' keys with what each one loaded, \<open>None\<close> where it was unavailable.
\<close>

section \<open>Sources\<close>

datatype context_defect = Empty_Text jstring string | Missing_Comparison jstring | Missing_Removal jstring | Duplicate_Key jstring

record source_snapshot =
  sn_value :: json
  sn_removed :: "jstring option"

type_synonym snapshot = "(jstring, source_snapshot) jsmap"

record generation =
  gn_baseline :: jstring
  gn_snapshot :: snapshot

record rendered =
  rn_text :: jstring
  rn_snapshot :: source_snapshot

datatype compared = Incompatible | Same | Changed "(context_defect, rendered) result"

record loaded =
  ld_baseline :: "(context_defect, rendered) result"
  ld_compare :: "json \<Rightarrow> compared"

record 'a source =
  src_key :: jstring
  src_encode :: "'a \<Rightarrow> json"
  src_decode :: "json \<Rightarrow> 'a option"
  src_equivalent :: "'a \<Rightarrow> 'a \<Rightarrow> bool"
  src_baseline :: "'a \<Rightarrow> jstring"
  src_update :: "'a \<Rightarrow> 'a \<Rightarrow> jstring"
  src_removed :: "('a \<Rightarrow> jstring) option"

definition require_text :: "jstring \<Rightarrow> string \<Rightarrow> jstring \<Rightarrow> (context_defect, jstring) result" where
  "require_text k kind t = (if t = [] then Inl (Empty_Text k kind) else Inr t)"

definition source_state :: "'a source \<Rightarrow> 'a \<Rightarrow> (context_defect, source_snapshot) result" where
  \<comment> \<open>\<open>snapshot()\<close>\<close>
  "source_state src v =
    (case src_removed src of
       None \<Rightarrow> Inr \<lparr>sn_value = src_encode src v, sn_removed = None\<rparr>
     | Some r \<Rightarrow> rbind (require_text (src_key src) ''removal'' (r v))
         (\<lambda>t. Inr \<lparr>sn_value = src_encode src v, sn_removed = Some t\<rparr>))"

definition render_with :: "'a source \<Rightarrow> 'a \<Rightarrow> string \<Rightarrow> jstring \<Rightarrow> (context_defect, rendered) result" where
  "render_with src v kind t =
    rbind (require_text (src_key src) kind t) (\<lambda>x. rbind (source_state src v) (\<lambda>s. Inr \<lparr>rn_text = x, rn_snapshot = s\<rparr>))"

definition make_loaded :: "'a source \<Rightarrow> 'a \<Rightarrow> loaded" where
  \<comment> \<open>\<open>make\<close>, for a value that was observed\<close>
  "make_loaded src v = \<lparr>
     ld_baseline = render_with src v ''baseline'' (src_baseline src v),
     ld_compare = (\<lambda>previous.
       case src_decode src previous of
         None \<Rightarrow> Incompatible
       | Some d \<Rightarrow> if src_equivalent src d v then Same else Changed (render_with src v ''update'' (src_update src d v)))\<rparr>"

section \<open>Contexts\<close>

type_synonym context_sources = "(jstring \<times> loaded option) list"

definition make_context :: "'a source \<Rightarrow> 'a option \<Rightarrow> context_sources" where
  "make_context src v = [(src_key src, map_option (make_loaded src) v)]"

fun assert_unique_keys :: "jstring list \<Rightarrow> jstring list \<Rightarrow> (context_defect, unit) result" where
  "assert_unique_keys seen [] = Inr ()"
| "assert_unique_keys seen (k # ks) = (if k \<in> set seen then Inl (Duplicate_Key k) else assert_unique_keys (k # seen) ks)"

definition combine :: "context_sources list \<Rightarrow> (context_defect, context_sources) result" where
  "combine values = rbind (assert_unique_keys [] (map fst (concat values))) (\<lambda>_. Inr (concat values))"

definition render :: "jstring list \<Rightarrow> jstring" where
  "render parts = join_with [10, 10] parts"

fun render_available :: "context_sources \<Rightarrow> (context_defect, (jstring \<times> rendered) list) result" where
  "render_available [] = Inr []"
| "render_available ((k, None) # es) = render_available es"
| "render_available ((k, Some l) # es) =
    rbind (ld_baseline l) (\<lambda>r. rbind (render_available es) (\<lambda>rs. Inr ((k, r) # rs)))"

fun from_entries :: "('k \<times> 'v) list \<Rightarrow> ('k, 'v) jsmap \<Rightarrow> ('k, 'v) jsmap" where
  \<comment> \<open>\<open>Object.fromEntries\<close>\<close>
  "from_entries [] m = m"
| "from_entries ((k, v) # es) m = from_entries es (map_set m k v)"

definition initialize_observation :: "context_sources \<Rightarrow> (context_defect, generation) result" where
  "initialize_observation es = rbind (render_available es) (\<lambda>rs.
     Inr \<lparr>gn_baseline = render (map (\<lambda>(k, r). rn_text r) rs),
       gn_snapshot = from_entries (map (\<lambda>(k, r). (k, rn_snapshot r)) rs) []\<rparr>)"

definition unavailable_keys :: "context_sources \<Rightarrow> jstring list" where
  "unavailable_keys es = map fst (filter (\<lambda>e. snd e = None) es)"

definition initialize :: "context_sources \<Rightarrow> (context_defect, (jstring list, generation) result) result" where
  \<comment> \<open>the inner left side is \<open>InitializationBlocked\<close>\<close>
  "initialize es =
    (if unavailable_keys es \<noteq> [] then Inr (Inl (unavailable_keys es)) else rbind (initialize_observation es) (\<lambda>g. Inr (Inr g)))"

section \<open>Reconciling\<close>

datatype reconciled = Unchanged | Updated jstring snapshot | Replace

fun comparisons :: "context_sources \<Rightarrow> snapshot \<Rightarrow> (jstring, compared) jsmap \<Rightarrow> (jstring, compared) jsmap option" where
  \<comment> \<open>\<open>None\<close>: a stored value is incompatible\<close>
  "comparisons [] previous m = Some m"
| "comparisons ((k, None) # es) previous m = comparisons es previous m"
| "comparisons ((k, Some l) # es) previous m =
    (case map_of previous k of
       None \<Rightarrow> comparisons es previous m
     | Some s \<Rightarrow>
         (case ld_compare l (sn_value s) of
            Incompatible \<Rightarrow> None
          | c \<Rightarrow> comparisons es previous (map_set m k c)))"

definition removed_keys :: "context_sources \<Rightarrow> snapshot \<Rightarrow> jstring list" where
  \<comment> \<open>\<open>Object.keys(previous).sort()\<close> but those still observed\<close>
  "removed_keys es previous = filter (\<lambda>k. k \<notin> set (map fst es)) (sort (map_keys previous))"

fun collect_updates :: "context_sources \<Rightarrow> snapshot \<Rightarrow> (jstring, compared) jsmap \<Rightarrow> snapshot \<Rightarrow> jstring list \<Rightarrow>
    (context_defect, snapshot \<times> jstring list) result" where
  "collect_updates [] previous cmps snap ups = Inr (snap, ups)"
| "collect_updates ((k, None) # es) previous cmps snap ups =
    collect_updates es previous cmps (case map_of previous k of None \<Rightarrow> snap | Some s \<Rightarrow> map_set snap k s) ups"
| "collect_updates ((k, Some l) # es) previous cmps snap ups =
    (case map_of previous k of
       None \<Rightarrow> rbind (ld_baseline l) (\<lambda>r. collect_updates es previous cmps (map_set snap k (rn_snapshot r)) (ups @ [rn_text r]))
     | Some s \<Rightarrow>
         (case map_of cmps k of
            Some Same \<Rightarrow> collect_updates es previous cmps (map_set snap k s) ups
          | Some (Changed c) \<Rightarrow> rbind c (\<lambda>r. collect_updates es previous cmps (map_set snap k (rn_snapshot r)) (ups @ [rn_text r]))
          | _ \<Rightarrow> Inl (Missing_Comparison k)))"

fun removal_texts :: "jstring list \<Rightarrow> snapshot \<Rightarrow> (context_defect, jstring list) result" where
  "removal_texts [] previous = Inr []"
| "removal_texts (k # ks) previous =
    (case Option.bind (map_of previous k) sn_removed of
       None \<Rightarrow> Inl (Missing_Removal k)
     | Some t \<Rightarrow> rbind (removal_texts ks previous) (\<lambda>ts. Inr (t # ts)))"

definition reconcile_observation :: "context_sources \<Rightarrow> snapshot \<Rightarrow> (context_defect, reconciled) result" where
  "reconcile_observation es previous =
    (case comparisons es previous [] of
       None \<Rightarrow> Inr Replace
     | Some cmps \<Rightarrow>
         if \<exists>k \<in> set (removed_keys es previous). Option.bind (map_of previous k) sn_removed = None then Inr Replace
         else rbind (collect_updates es previous cmps [] []) (\<lambda>(snap, ups).
           rbind (removal_texts (removed_keys es previous) previous) (\<lambda>gone.
             Inr (if ups @ gone = [] then Unchanged else Updated (render (ups @ gone)) snap))))"

datatype replacement = Ready generation | Blocked

definition replace_observation :: "context_sources \<Rightarrow> snapshot \<Rightarrow> (context_defect, replacement) result" where
  "replace_observation es previous =
    (if \<exists>e \<in> set es. snd e = None \<and> map_of previous (fst e) \<noteq> None then Inr Blocked
     else rbind (initialize_observation es) (\<lambda>g. Inr (Ready g)))"

datatype reconcile_result = Is_Unchanged | Is_Updated jstring snapshot | Is_Replaced replacement

definition reconcile :: "context_sources \<Rightarrow> snapshot \<Rightarrow> (context_defect, reconcile_result) result" where
  "reconcile es previous = rbind (reconcile_observation es previous) (\<lambda>r.
     case r of
       Unchanged \<Rightarrow> Inr Is_Unchanged
     | Updated t s \<Rightarrow> Inr (Is_Updated t s)
     | Replace \<Rightarrow> rbind (replace_observation es previous) (\<lambda>p. Inr (Is_Replaced p)))"

section \<open>What a source promises\<close>

text \<open>
  Comparing a source with the state it has just rendered finds it unchanged. A source whose codec decodes
  what it encodes to an equivalent value keeps this promise.
\<close>

locale context_source =
  fixes base :: "(context_defect, rendered) result" and cmp :: "json \<Rightarrow> compared"
  assumes baseline_known: "base = Inr r \<Longrightarrow> cmp (sn_value (rn_snapshot r)) = Same"
    and update_known: "cmp v = Changed (Inr r) \<Longrightarrow> cmp (sn_value (rn_snapshot r)) = Same"

locale codec_source =
  fixes src :: "'a source"
  assumes decodes: "\<exists>d. src_decode src (src_encode src v) = Some d \<and> src_equivalent src d v"
begin

lemma state_value: "source_state src v = Inr s \<Longrightarrow> sn_value s = src_encode src v"
  by (auto simp: source_state_def rbind_Inr_iff split: option.split_asm)

lemma render_value: "render_with src v kind t = Inr r \<Longrightarrow> sn_value (rn_snapshot r) = src_encode src v"
  by (auto simp: render_with_def rbind_Inr_iff dest: state_value)

lemma compare_own: "ld_compare (make_loaded src v) (src_encode src v) = Same"
  using decodes [of v] by (auto simp: make_loaded_def)

end

sublocale codec_source \<subseteq> made: context_source "ld_baseline (make_loaded src v)" "ld_compare (make_loaded src v)" for v
proof
  fix r assume "ld_baseline (make_loaded src v) = Inr r"
  then have "sn_value (rn_snapshot r) = src_encode src v" by (auto simp: make_loaded_def dest: render_value)
  then show "ld_compare (make_loaded src v) (sn_value (rn_snapshot r)) = Same" by (simp add: compare_own)
next
  fix p r assume "ld_compare (make_loaded src v) p = Changed (Inr r)"
  then have "sn_value (rn_snapshot r) = src_encode src v"
    by (auto simp: make_loaded_def dest: render_value split: option.split_asm if_split_asm)
  then show "ld_compare (make_loaded src v) (sn_value (rn_snapshot r)) = Same" by (simp add: compare_own)
qed

section \<open>The built-in sources\<close>

definition json_text :: "json \<Rightarrow> jstring option" where
  \<comment> \<open>decoding by the codec of \<open>Schema.String\<close>\<close>
  "json_text v = (case v of JStr s \<Rightarrow> Some s | _ \<Rightarrow> None)"

definition lines :: "jstring list \<Rightarrow> jstring" where
  "lines ls = join_with [10] ls"

definition environment_text :: "jstring \<Rightarrow> jstring \<Rightarrow> bool \<Rightarrow> jstring \<Rightarrow> jstring" where
  "environment_text dir root git platform = lines
     [lit ''<env>'', lit ''  Working directory: '' @ dir, lit ''  Workspace root folder: '' @ root,
      lit ''  Is directory a git repo: '' @ (if git then lit ''yes'' else lit ''no''), lit ''  Platform: '' @ platform, lit ''</env>'']"

definition environment_source :: "jstring source" where
  "environment_source = \<lparr>src_key = lit ''core/environment'', src_encode = JStr, src_decode = json_text,
     src_equivalent = (=),
     src_baseline = (\<lambda>e. lines [lit ''Here is some useful information about the environment you are running in:'', e]),
     src_update = (\<lambda>p e. lines [lit ''The environment you are running in is now:'', e]), src_removed = None\<rparr>"

definition date_source :: "jstring source" where
  "date_source = \<lparr>src_key = lit ''core/date'', src_encode = JStr, src_decode = json_text, src_equivalent = (=),
     src_baseline = (\<lambda>d. lit ''Today'' @ [39] @ lit ''s date: '' @ d),
     src_update = (\<lambda>p d. lit ''Today'' @ [39] @ lit ''s date is now: '' @ d), src_removed = None\<rparr>"

interpretation environment: codec_source environment_source
  by unfold_locales (simp add: environment_source_def json_text_def)

interpretation date: codec_source date_source
  by unfold_locales (simp add: date_source_def json_text_def)

definition built_ins :: "jstring \<Rightarrow> jstring \<Rightarrow> (context_defect, context_sources) result" where
  "built_ins env date = combine [make_context environment_source (Some env), make_context date_source (Some date)]"

section \<open>An observation that was taken in stays taken in\<close>

definition promising :: "context_sources \<Rightarrow> bool" where
  "promising es \<longleftrightarrow> distinct (map fst es) \<and> (\<forall>(k, l) \<in> set es. case l of None \<Rightarrow> True | Some x \<Rightarrow> context_source (ld_baseline x) (ld_compare x))"

definition covered :: "context_sources \<Rightarrow> snapshot \<Rightarrow> bool" where
  \<comment> \<open>the snapshot holds the observed value of every available source, and nothing of others\<close>
  "covered es snap \<longleftrightarrow>
    (\<forall>k l. (k, Some l) \<in> set es \<longrightarrow> (\<exists>s. map_of snap k = Some s \<and> ld_compare l (sn_value s) = Same)) \<and>
    set (map_keys snap) \<subseteq> set (map fst es)"

lemma comparisons_same:
  assumes "\<forall>k l. (k, Some l) \<in> set es \<longrightarrow> (\<exists>s. map_of snap k = Some s \<and> ld_compare l (sn_value s) = Same)"
  shows "\<exists>m'. comparisons es snap m = Some m' \<and> (\<forall>k l. (k, Some l) \<in> set es \<longrightarrow> map_of m' k = Some Same) \<and>
    (\<forall>k. map_of m k = Some Same \<longrightarrow> map_of m' k = Some Same)"
  using assms
proof (induction es arbitrary: m)
  case (Cons e es)
  obtain k x where e: "e = (k, x)" by fastforce
  have rest: "\<forall>k l. (k, Some l) \<in> set es \<longrightarrow> (\<exists>s. map_of snap k = Some s \<and> ld_compare l (sn_value s) = Same)"
    using Cons.prems by simp
  show ?case
  proof (cases x)
    case None
    with Cons.IH [OF rest, of m] e show ?thesis by simp
  next
    case (Some l)
    with Cons.prems e obtain s where "map_of snap k = Some s" "ld_compare l (sn_value s) = Same" by auto
    with Cons.IH [OF rest, of "map_set m k Same"] e Some show ?thesis by auto
  qed
qed simp

lemma collect_same:
  assumes "\<forall>k l. (k, Some l) \<in> set es \<longrightarrow> map_of snap k \<noteq> None \<and> map_of cmps k = Some Same"
  shows "\<exists>snap'. collect_updates es snap cmps acc ups = Inr (snap', ups)"
  using assms
proof (induction es arbitrary: acc)
  case (Cons e es)
  obtain k x where e: "e = (k, x)" by fastforce
  have rest: "\<forall>k l. (k, Some l) \<in> set es \<longrightarrow> map_of snap k \<noteq> None \<and> map_of cmps k = Some Same"
    using Cons.prems by simp
  show ?case
  proof (cases x)
    case None
    with Cons.IH [OF rest] e show ?thesis by simp
  next
    case (Some l)
    with Cons.prems e obtain s where "map_of snap k = Some s" "map_of cmps k = Some Same" by auto
    with Cons.IH [OF rest] e Some show ?thesis by simp
  qed
qed simp

lemma covered_unchanged: "covered es snap \<Longrightarrow> reconcile_observation es snap = Inr Unchanged"
proof -
  assume c: "covered es snap"
  then obtain cmps where cmps: "comparisons es snap [] = Some cmps" "\<forall>k l. (k, Some l) \<in> set es \<longrightarrow> map_of cmps k = Some Same"
    using comparisons_same [of es snap "[]"] by (auto simp: covered_def)
  have none: "removed_keys es snap = []" using c by (auto simp: removed_keys_def covered_def filter_empty_conv)
  have "\<forall>k l. (k, Some l) \<in> set es \<longrightarrow> map_of snap k \<noteq> None \<and> map_of cmps k = Some Same"
    using c cmps(2) by (fastforce simp: covered_def)
  then obtain snap' where "collect_updates es snap cmps [] [] = Inr (snap', [])" using collect_same by blast
  with cmps(1) none show ?thesis by (simp add: reconcile_observation_def)
qed


lemma render_available_keys: "render_available es = Inr rs \<Longrightarrow> map fst rs = map fst (filter (\<lambda>e. snd e \<noteq> None) es)"
  by (induction es arbitrary: rs rule: render_available.induct) (auto simp: rbind_Inr_iff)

lemma render_available_base: "render_available es = Inr rs \<Longrightarrow> (k, Some l) \<in> set es \<Longrightarrow> \<exists>r. (k, r) \<in> set rs \<and> ld_baseline l = Inr r"
  by (induction es arbitrary: rs rule: render_available.induct) (auto simp: rbind_Inr_iff)

lemma from_entries_get:
  "distinct (map fst es) \<Longrightarrow> map_of (from_entries es m) k = (case map_of es k of None \<Rightarrow> map_of m k | Some v \<Rightarrow> Some v)"
proof (induction es m rule: from_entries.induct)
  case (2 j v es m)
  then have "map_of es j = None" by (simp add: map_of_eq_None_iff)
  with 2 show ?case by (simp split: option.split)
qed simp

lemma from_entries_keys: "set (map_keys (from_entries es m)) = set (map fst es) \<union> set (map_keys m)"
  by (induction es m rule: from_entries.induct) (auto simp: dom_update image_iff)

lemma initialize_covered:
  assumes es: "promising es" and g: "initialize_observation es = Inr g"
  shows "covered es (gn_snapshot g)"
proof -
  obtain rs where rs: "render_available es = Inr rs" "gn_snapshot g = from_entries (map (\<lambda>(k, r). (k, rn_snapshot r)) rs) []"
    using g by (auto simp: initialize_observation_def rbind_Inr_iff)
  have keys: "map fst (map (\<lambda>(k, r). (k, rn_snapshot r)) rs) = map fst (filter (\<lambda>e. snd e \<noteq> None) es)"
    using render_available_keys [OF rs(1)] by (simp add: comp_def split_beta)
  have d: "distinct (map fst (filter (\<lambda>e. snd e \<noteq> None) es))"
    using es by (simp add: promising_def distinct_map_filter)
  show ?thesis
    unfolding covered_def
  proof (intro conjI allI impI)
    fix k l assume kl: "(k, Some l) \<in> set es"
    obtain r where r: "(k, r) \<in> set rs" "ld_baseline l = Inr r" using render_available_base [OF rs(1) kl] by blast
    have "context_source (ld_baseline l) (ld_compare l)" using es kl by (fastforce simp: promising_def)
    then have "ld_compare l (sn_value (rn_snapshot r)) = Same" using r(2) by (rule context_source.baseline_known)
    moreover have "map_of (map (\<lambda>(k, r). (k, rn_snapshot r)) rs) k = Some (rn_snapshot r)"
      using d keys by (intro map_of_is_SomeI) (auto intro: image_eqI [OF _ r(1)])
    ultimately show "\<exists>s. map_of (gn_snapshot g) k = Some s \<and> ld_compare l (sn_value s) = Same"
      using d keys rs(2) by (simp add: from_entries_get)
  next
    show "set (map_keys (gn_snapshot g)) \<subseteq> set (map fst es)"
      unfolding rs(2) from_entries_keys keys by auto
  qed
qed

lemma comparisons_step:
  assumes "comparisons ((j, x) # es) previous m = Some m'"
  obtains (skip) "comparisons es previous m = Some m'" "x = None \<or> map_of previous j = None"
    | (known) l s where "x = Some l" "map_of previous j = Some s" "comparisons es previous (map_set m j (ld_compare l (sn_value s))) = Some m'"
  using assms by (cases x) (auto split: option.split_asm compared.split_asm)

lemma comparisons_other:
  "comparisons es previous m = Some m' \<Longrightarrow> k \<notin> set (map fst es) \<Longrightarrow> map_of m' k = map_of m k"
proof (induction es arbitrary: m)
  case (Cons e es)
  obtain j x where e: "e = (j, x)" by fastforce
  from Cons.prems(1) [unfolded e] show ?case
    by (cases rule: comparisons_step) (use Cons e in auto)
qed simp

lemma comparisons_get:
  "comparisons es previous m = Some m' \<Longrightarrow> distinct (map fst es) \<Longrightarrow> (k, Some l) \<in> set es \<Longrightarrow> map_of previous k = Some s \<Longrightarrow>
    map_of m' k = Some (ld_compare l (sn_value s))"
proof (induction es arbitrary: m)
  case (Cons e es)
  obtain j x where e: "e = (j, x)" by fastforce
  from Cons.prems(1) [unfolded e] show ?case
  proof (cases rule: comparisons_step)
    case skip
    with Cons e show ?thesis by auto
  next
    case (known l' s')
    show ?thesis
    proof (cases "j = k")
      case True
      then have "k \<notin> set (map fst es)" using Cons.prems(2) e by simp
      moreover from this have "(k, Some l) \<notin> set es" by force
      ultimately show ?thesis using comparisons_other [OF known(3)] known Cons.prems(3,4) e True by auto
    next
      case False
      with Cons.IH [OF known(3)] Cons.prems e show ?thesis by auto
    qed
  qed
qed simp

lemma collect_keys:
  "collect_updates es previous cmps acc ups = Inr (snap, ups') \<Longrightarrow> set (map_keys snap) \<subseteq> set (map fst es) \<union> set (map_keys acc)"
proof (induction es arbitrary: acc ups)
  case (Cons e es)
  obtain k x where e: "e = (k, x)" by fastforce
  have keys: "set (map_keys (map_set m k v)) = insert k (set (map_keys m))" for m :: snapshot and v by (simp add: dom_update)
  have step: "set (map_keys snap) \<subseteq> set (map fst (e # es)) \<union> set (map_keys acc)"
    if "collect_updates es previous cmps (map_set acc k v) ups1 = Inr (snap, ups')" for v ups1
    using Cons.IH [OF that] e unfolding keys by auto
  show ?case
  proof (cases x)
    case None
    show ?thesis
    proof (cases "map_of previous k")
      case None
      with Cons.IH [of acc ups] Cons.prems e \<open>x = None\<close> show ?thesis by auto
    next
      case (Some s)
      with Cons.prems e \<open>x = None\<close> show ?thesis by (intro step [of s ups]) simp
    qed
  next
    case (Some l)
    with Cons.prems e obtain s ups1 where "collect_updates es previous cmps (map_set acc k s) ups1 = Inr (snap, ups')"
      by (force simp: rbind_Inr_iff split: option.split_asm compared.split_asm)
    then show ?thesis by (rule step)
  qed
qed simp


lemma collect_other:
  "collect_updates es previous cmps acc ups = Inr (snap, ups') \<Longrightarrow> k \<notin> set (map fst es) \<Longrightarrow> map_of snap k = map_of acc k"
proof (induction es arbitrary: acc ups)
  case (Cons e es)
  obtain j x where e: "e = (j, x)" by fastforce
  have "\<exists>acc1 ups1. collect_updates es previous cmps acc1 ups1 = Inr (snap, ups') \<and> map_of acc1 k = map_of acc k"
    using Cons.prems e
    by (cases x) (force simp: rbind_Inr_iff split: option.split_asm compared.split_asm)+
  with Cons.IH Cons.prems(2) show ?case by fastforce
qed simp

lemma collect_covered:
  assumes "collect_updates es previous cmps acc ups = Inr (snap, ups')" "promising es"
    and "\<And>k l s. (k, Some l) \<in> set es \<Longrightarrow> map_of previous k = Some s \<Longrightarrow> map_of cmps k = Some (ld_compare l (sn_value s))"
  shows "\<forall>k l. (k, Some l) \<in> set es \<longrightarrow> (\<exists>s. map_of snap k = Some s \<and> ld_compare l (sn_value s) = Same)"
  using assms
proof (induction es arbitrary: acc ups)
  case (Cons e es)
  obtain j x where e: "e = (j, x)" by fastforce
  have p: "promising es" "j \<notin> set (map fst es)" using Cons.prems(2) e by (auto simp: promising_def)
  have rest: "\<forall>k l. (k, Some l) \<in> set es \<longrightarrow> (\<exists>s. map_of snap k = Some s \<and> ld_compare l (sn_value s) = Same)"
    if "collect_updates es previous cmps acc1 ups1 = Inr (snap, ups')" for acc1 ups1
    using Cons.IH [OF that p(1)] Cons.prems(3) by auto
  show ?case
  proof (cases x)
    case None
    with Cons.prems(1) e rest show ?thesis by (auto split: option.split_asm)
  next
    case (Some l)
    have src: "context_source (ld_baseline l) (ld_compare l)" using Cons.prems(2) e Some by (auto simp: promising_def)
    have cmp: "map_of cmps j = Some (ld_compare l (sn_value s))" if "map_of previous j = Some s" for s
      using Cons.prems(3) [of j l s] that e Some by simp
    obtain s acc1 ups1 where s: "collect_updates es previous cmps (map_set acc j s) ups1 = Inr (snap, ups')" "ld_compare l (sn_value s) = Same"
      using Cons.prems(1) e Some context_source.baseline_known [OF src] context_source.update_known [OF src] cmp
      by (force simp: rbind_Inr_iff split: option.split_asm compared.split_asm)
    with collect_other [OF s(1) p(2)] rest [OF s(1)] e Some show ?thesis by auto
  qed
qed simp

lemma reconcile_covered:
  assumes es: "promising es" and run: "reconcile_observation es previous = Inr (Updated t snap)"
  shows "covered es snap"
proof -
  obtain cmps ups where c: "comparisons es previous [] = Some cmps" "collect_updates es previous cmps [] [] = Inr (snap, ups)"
    using run by (auto simp: reconcile_observation_def rbind_Inr_iff split: option.split_asm if_split_asm)
  have "distinct (map fst es)" using es by (simp add: promising_def)
  note get = comparisons_get [OF c(1) this]
  show ?thesis
    unfolding covered_def using collect_covered [OF c(2) es get] collect_keys [OF c(2)] by simp
qed


text \<open>C18. Context that was taken in is not told again: after a baseline was built from an observation, or an
  update was rendered from it, reconciling the same observation with the snapshot that was stored finds
  nothing changed, whatever was unavailable, added, changed or removed, as long as each source's codec
  decodes what it encodes.\<close>

theorem reconcile_settles:
  assumes "promising es"
    and "initialize_observation es = Inr \<lparr>gn_baseline = t, gn_snapshot = snap\<rparr> \<or> reconcile_observation es previous = Inr (Updated t snap)"
  shows "reconcile es snap = Inr Is_Unchanged"
proof -
  have "covered es snap"
    using assms initialize_covered [OF assms(1)] reconcile_covered [OF assms(1)] by fastforce
  then show ?thesis by (simp add: reconcile_def covered_unchanged)
qed

definition demo_sources :: "string \<Rightarrow> context_sources" where
  "demo_sources date = make_context environment_source (Some (lit ''e'')) @ make_context date_source (Some (lit date))"

lemma promising_demo: "promising (demo_sources d)"
proof -
  have "src_key environment_source \<noteq> src_key date_source" by code_simp
  with environment.made.context_source_axioms date.made.context_source_axioms show ?thesis
    by (simp add: promising_def demo_sources_def make_context_def)
qed

lemma reconcile_settles_witness:
  "\<exists>g t snap. initialize_observation (demo_sources ''Mon'') = Inr g \<and>
    reconcile_observation (demo_sources ''Tue'') (gn_snapshot g) = Inr (Updated t snap) \<and>
    t = lit ''Today'' @ [39] @ lit ''s date is now: Tue'' \<and> reconcile (demo_sources ''Tue'') snap = Inr Is_Unchanged"
proof -
  let ?r = "rbind (initialize_observation (demo_sources ''Mon'')) (\<lambda>g. reconcile_observation (demo_sources ''Tue'') (gn_snapshot g))"
  have "(case ?r of Inr (Updated t snap) \<Rightarrow> t = lit ''Today'' @ [39] @ lit ''s date is now: Tue'' | _ \<Rightarrow> False)" by code_simp
  then obtain g t snap where run: "initialize_observation (demo_sources ''Mon'') = Inr g"
      "reconcile_observation (demo_sources ''Tue'') (gn_snapshot g) = Inr (Updated t snap)" "t = lit ''Today'' @ [39] @ lit ''s date is now: Tue''"
    by (cases "initialize_observation (demo_sources ''Mon'')") (auto split: sum.split_asm reconciled.split_asm)
  from reconcile_settles [OF promising_demo disjI2 [OF run(2)]] run show ?thesis by blast
qed

end
