(* ===== verification/ContextEpoch.thy ===== *)
theory ContextEpoch imports SystemContext InboxProps begin

text \<open>
  The context epoch of a session (packages/core/src/session/context-epoch.ts) and the history a request is
  built from (packages/core/src/session/history.ts). The epoch row keeps the baseline the model was given, the
  snapshot that was taken in, and the sequence number from which system messages count. The load of the
  sources has happened: its outcome is an argument. Decoding a stored snapshot is the schema's (\<open>unpack\<close>).
\<close>

section \<open>History\<close>

fun is_compaction :: "session_message \<Rightarrow> bool" where
  "is_compaction (CompactionMessage i m t r s x) = True"
| "is_compaction m = False"

fun is_system :: "session_message \<Rightarrow> bool" where
  "is_system (SystemMessage i t x) = True"
| "is_system m = False"

definition latest_compaction :: "session_db \<Rightarrow> jstring \<Rightarrow> int option" where
  "latest_compaction db sid =
    (case rev (filter (\<lambda>r. is_compaction (mr_message r)) (session_rows sid (message_table db))) of
       [] \<Rightarrow> None
     | r # _ \<Rightarrow> Some (mr_seq r))"

definition message_rows :: "session_db \<Rightarrow> jstring \<Rightarrow> int option \<Rightarrow> int option \<Rightarrow> message_row list" where
  "message_rows db sid compaction baseline =
    filter (\<lambda>r.
      (case compaction of
         None \<Rightarrow> True
       | Some c \<Rightarrow> c \<le> mr_seq r \<or> (case baseline of None \<Rightarrow> False | Some b \<Rightarrow> is_system (mr_message r) \<and> b < mr_seq r)) \<and>
      (case baseline of None \<Rightarrow> True | Some b \<Rightarrow> \<not> is_system (mr_message r) \<or> b < mr_seq r))
      (session_rows sid (message_table db))"

definition load_history :: "session_db \<Rightarrow> jstring \<Rightarrow> session_message list" where
  "load_history db sid =
    map mr_message (message_rows db sid (latest_compaction db sid) (map_option ep_seq (epoch_table db sid)))"

definition entries_for_runner :: "session_db \<Rightarrow> jstring \<Rightarrow> int \<Rightarrow> message_row list" where
  "entries_for_runner db sid baseline = message_rows db sid (latest_compaction db sid) (Some baseline)"

section \<open>The epoch row\<close>

definition snapshot_json :: "snapshot \<Rightarrow> json" where
  "snapshot_json s = JObj (map (\<lambda>(k, v). (k, JObj ((lit ''value'', sn_value v) #
     (case sn_removed v of None \<Rightarrow> [] | Some t \<Rightarrow> [(lit ''removed'', JStr t)])))) s)"

datatype epoch_error = Init_Blocked "jstring list" | Snapshot_Decode | Context_Threw context_defect | Log_Failed "db_defect log_error"

record prepared =
  pp_baseline :: jstring
  pp_seq :: int

definition epoch_exists :: "session_db \<Rightarrow> jstring \<Rightarrow> bool" where
  "epoch_exists db sid \<longleftrightarrow> epoch_table db sid \<noteq> None"

definition set_epoch :: "jstring \<Rightarrow> epoch_row \<Rightarrow> session_db \<Rightarrow> session_db" where
  "set_epoch sid ep db = db\<lparr>epoch_table := (epoch_table db)(sid \<mapsto> ep)\<rparr>"

definition insert_epoch :: "jstring \<Rightarrow> generation \<Rightarrow> 'j session_log \<Rightarrow> (epoch_error, int) result \<times> 'j session_log" where
  "insert_epoch sid g L =
    (let n = latest_sequence L sid in
     if epoch_exists (tables L) sid \<or> \<not> has_session (tables L) sid then (Inl (Log_Failed (Defect Sql_Error)), L)
     else (Inr n, L\<lparr>tables := set_epoch sid \<lparr>ep_baseline = gn_baseline g, ep_snapshot = snapshot_json (gn_snapshot g), ep_seq = n\<rparr>
       (tables L)\<rparr>))"

definition replace_epoch :: "jstring \<Rightarrow> int \<Rightarrow> generation \<Rightarrow> session_db \<Rightarrow> (db_defect, session_db) result" where
  "replace_epoch sid n g db =
    (case epoch_table db sid of
       None \<Rightarrow> Inl Missing_Epoch
     | Some ep \<Rightarrow> Inr (set_epoch sid \<lparr>ep_baseline = gn_baseline g, ep_snapshot = snapshot_json (gn_snapshot g), ep_seq = n\<rparr> db))"

definition advance_epoch :: "jstring \<Rightarrow> snapshot \<Rightarrow> session_db \<Rightarrow> (db_defect, session_db) result" where
  "advance_epoch sid snap db =
    (case epoch_table db sid of
       None \<Rightarrow> Inl Missing_Epoch
     | Some ep \<Rightarrow> Inr (set_epoch sid (ep\<lparr>ep_snapshot := snapshot_json snap\<rparr>) db))"

definition start_epoch :: "context_sources \<Rightarrow> jstring \<Rightarrow> 'j session_log \<Rightarrow> (epoch_error, prepared) result \<times> 'j session_log" where
  \<comment> \<open>initialize the context and insert the row\<close>
  "start_epoch es sid L =
    (case initialize es of
       Inl d \<Rightarrow> (Inl (Context_Threw d), L)
     | Inr (Inl keys) \<Rightarrow> (Inl (Init_Blocked keys), L)
     | Inr (Inr g) \<Rightarrow>
         (case insert_epoch sid g L of
            (Inl e, L1) \<Rightarrow> (Inl e, L1)
          | (Inr n, L1) \<Rightarrow> (Inr \<lparr>pp_baseline = gn_baseline g, pp_seq = n\<rparr>, L1)))"

definition initialize_once :: "(context_defect, context_sources) result \<Rightarrow> jstring \<Rightarrow> 'j session_log \<Rightarrow>
    (epoch_error, prepared option) result \<times> 'j session_log" where
  "initialize_once ctx sid L =
    (if epoch_exists (tables L) sid then (Inr None, L)
     else case ctx of
         Inl d \<Rightarrow> (Inl (Context_Threw d), L)
       | Inr es \<Rightarrow>
           (case start_epoch es sid L of
              (Inl e, L1) \<Rightarrow> (Inl e, L1)
            | (Inr p, L1) \<Rightarrow> (Inr (Some p), L1)))"

definition publish_context :: "'j codec \<Rightarrow> session_event \<Rightarrow> snapshot \<Rightarrow> 'j session_log \<Rightarrow>
    (db_defect log_error, session_event payload) result \<times> 'j session_log" where
  \<comment> \<open>the snapshot advances in the transaction of the event\<close>
  "publish_context c e snap L =
    publish (\<lambda>_. [session_projector]) (event_definition c (se_body e)) e (fresh c (length (log L)))
      (Some (\<lambda>n. advance_epoch (se_session e) snap)) L"

definition newer_compaction :: "jstring \<Rightarrow> epoch_row \<Rightarrow> 'j session_log \<Rightarrow> int option" where
  \<comment> \<open>\<open>replacementSeq\<close>\<close>
  "newer_compaction sid ep L = (case latest_compaction (tables L) sid of
     Some n \<Rightarrow> if ep_seq ep < n then Some n else None | None \<Rightarrow> None)"

definition compare_context :: "context_sources \<Rightarrow> snapshot \<Rightarrow> int option \<Rightarrow> (context_defect, reconcile_result) result" where
  \<comment> \<open>a number is true unless it is 0\<close>
  "compare_context es snap newer =
    (if newer \<noteq> None \<and> newer \<noteq> Some 0 then rbind (replace_observation es snap) (\<lambda>r. Inr (Is_Replaced r)) else reconcile es snap)"

definition kept_epoch :: "epoch_row \<Rightarrow> prepared" where
  "kept_epoch ep = \<lparr>pp_baseline = ep_baseline ep, pp_seq = ep_seq ep\<rparr>"

definition apply_context :: "'j codec \<Rightarrow> jstring \<Rightarrow> int \<Rightarrow> jstring \<Rightarrow> epoch_row \<Rightarrow> int option \<Rightarrow> reconcile_result \<Rightarrow> 'j session_log \<Rightarrow>
    (epoch_error, prepared) result \<times> 'j session_log" where
  "apply_context c mid now sid ep newer r L =
    (case r of
       Is_Unchanged \<Rightarrow> (Inr (kept_epoch ep), L)
     | Is_Replaced Blocked \<Rightarrow> (Inr (kept_epoch ep), L)
     | Is_Replaced (Ready g) \<Rightarrow>
         let n = (case newer of Some m \<Rightarrow> m | None \<Rightarrow> latest_sequence L sid)
         in (case replace_epoch sid n g (tables L) of
               Inl d \<Rightarrow> (Inl (Log_Failed (Defect d)), L)
             | Inr db \<Rightarrow> (Inr \<lparr>pp_baseline = gn_baseline g, pp_seq = n\<rparr>, L\<lparr>tables := db\<rparr>))
     | Is_Updated t new \<Rightarrow>
         (case publish_context c \<lparr>se_metadata = None, se_session = sid, se_time = now, se_body = ContextUpdatedE mid t\<rparr> new L of
            (Inl e, L1) \<Rightarrow> (Inl (Log_Failed e), L1)
          | (Inr _, L1) \<Rightarrow> (Inr (kept_epoch ep), L1)))"

definition prepare_once :: "'j codec \<Rightarrow> (json \<Rightarrow> snapshot option) \<Rightarrow> (context_defect, context_sources) result \<Rightarrow> jstring \<Rightarrow> int \<Rightarrow> jstring \<Rightarrow>
    'j session_log \<Rightarrow> (epoch_error, prepared) result \<times> 'j session_log" where
  \<comment> \<open>with the id and the time of the message an update makes\<close>
  "prepare_once c unpack ctx mid now sid L =
    (case ctx of
       Inl d \<Rightarrow> (Inl (Context_Threw d), L)
     | Inr es \<Rightarrow>
         (case epoch_table (tables L) sid of
            None \<Rightarrow> start_epoch es sid L
          | Some ep \<Rightarrow>
              (case unpack (ep_snapshot ep) of
                 None \<Rightarrow> (Inl Snapshot_Decode, L)
               | Some snap \<Rightarrow>
                   (case compare_context es snap (newer_compaction sid ep L) of
                      Inl d \<Rightarrow> (Inl (Context_Threw d), L)
                    | Inr r \<Rightarrow> apply_context c mid now sid ep (newer_compaction sid ep L) r L))))"

section \<open>Publishing an update\<close>

lemma project_context: "se_body e = ContextUpdatedE mid t \<Longrightarrow> project_event e n db = project_run e n db"
  by (simp add: project_event_def Let_def)

lemma publish_context_eq:
  assumes b: "se_body e = ContextUpdatedE mid t"
  shows "publish_context c e snap L =
    (let n = latest_sequence L (se_session e) + 1;
         ev = \<lparr>ev_id = fresh c (length (log L)), ev_type = lit (''session.next.'' @ body_type (se_body e)), ev_data = e,
               ev_durable = Some (se_session e, n, 1)\<rparr>
     in case enc c e of
          None \<Rightarrow> (Inl (Invalid Bad_Data), L)
        | Some encoded \<Rightarrow>
            if fresh c (length (log L)) \<in> set (map row_id (log L)) then (Inl (Invalid Event_Exists), L)
            else (case rbind (project_run e n (tables L)) (advance_epoch (se_session e) snap) of
                Inl x \<Rightarrow> (Inl (Defect x), L)
              | Inr p \<Rightarrow> (Inr ev, notify ev ((append_row \<lparr>row_id = fresh c (length (log L)), row_aggregate = se_session e,
                  row_seq = n, row_type = versioned_type (ev_type ev) 1, row_data = encoded\<rparr> None p L)
                    \<lparr>wakes := wakes L @ [se_session e]\<rparr>))))"
proof -
  have w: "wakes (append_row r o' p L) = wakes L" for r o' p by (simp add: append_row_def Let_def)
  have d: "durable_body (se_body e)" "body_version (se_body e) = 1" using b by simp_all
  show ?thesis
  proof (cases "enc c e")
    case None
    then show ?thesis
      by (simp add: publish_context_def publish_def publish_event_def commit_durable_event_def event_definition_def
        commit_tx_def transaction_def d Let_def)
  next
    case (Some encoded)
    then have enc: "encode (event_definition c (se_body e)) e = Some encoded" by (simp add: event_definition_def)
    show ?thesis
      using enc Some
      by (cases "project_run e (latest_sequence L (se_session e) + 1) (tables L)")
        (simp_all add: publish_context_def publish_def publish_event_def commit_durable_event_def event_definition_def
          commit_tx_def transaction_def session_projector_def new_row_def stamp_def w d Let_def project_context [OF b] run_hook_def
          split: sum.split)
  qed
qed


definition system_row :: "session_event \<Rightarrow> jstring \<Rightarrow> jstring \<Rightarrow> int \<Rightarrow> message_row" where
  "system_row e mid t n = \<lparr>mr_session = se_session e, mr_seq = n, mr_message = SystemMessage mid (se_time e) t\<rparr>"

lemma project_run_context:
  assumes "se_body e = ContextUpdatedE mid t" "project_run e n db = Inr db'"
  shows "db' = db\<lparr>message_table := message_table db @ [system_row e mid t n]\<rparr>"
  using assms by (auto simp: project_run_def run_event_def update_def db_adapter_def db_insert_def system_row_def Let_def
      split: option.split_asm if_split_asm)

lemma publish_context_cases:
  assumes b: "se_body e = ContextUpdatedE mid t" and run: "publish_context c e snap L = (res, L')"
  obtains (failed) err where "res = Inl err" "L' = L"
    | (committed) ev ep r where "res = Inr ev" "epoch_table (tables L) (se_session e) = Some ep"
        "tables L' = set_epoch (se_session e) (ep\<lparr>ep_snapshot := snapshot_json snap\<rparr>)
          ((tables L)\<lparr>message_table := message_table (tables L) @ [system_row e mid t (latest_sequence L (se_session e) + 1)]\<rparr>)"
        "log L' = log L @ [r]"
proof (cases "enc c e")
  case None
  with run failed show ?thesis by (auto simp: publish_context_eq [OF b])
next
  case (Some encoded)
  show ?thesis
  proof (cases "fresh c (length (log L)) \<in> set (map row_id (log L))")
    case True
    with run Some failed show ?thesis by (auto simp: publish_context_eq [OF b])
  next
    case False
    show ?thesis
    proof (cases "rbind (project_run e (latest_sequence L (se_session e) + 1) (tables L)) (advance_epoch (se_session e) snap)")
      case (Inl x)
      with run Some False failed show ?thesis by (auto simp: publish_context_eq [OF b] Let_def)
    next
      case (Inr p)
      then obtain db where db: "project_run e (latest_sequence L (se_session e) + 1) (tables L) = Inr db" "advance_epoch (se_session e) snap db = Inr p"
        by (auto simp: rbind_Inr_iff)
      with run Some False Inr committed project_run_context [OF b db(1)] show ?thesis
        by (auto simp: publish_context_eq [OF b] Let_def notify_def append_row_def advance_epoch_def split: option.split_asm)
    qed
  qed
qed

lemma publish_context_done:
  assumes ep: "epoch_table (tables L) sid = Some ep"
    and run: "publish_context c \<lparr>se_metadata = None, se_session = sid, se_time = now, se_body = ContextUpdatedE mid t\<rparr> snap L = (Inr ev, L')"
  obtains r where "tables L' = set_epoch sid (ep\<lparr>ep_snapshot := snapshot_json snap\<rparr>)
      ((tables L)\<lparr>message_table := message_table (tables L) @
        [\<lparr>mr_session = sid, mr_seq = latest_sequence L sid + 1, mr_message = SystemMessage mid now t\<rparr>]\<rparr>)"
    "log L' = log L @ [r]"
  by (rule publish_context_cases [OF _ run]) (use ep that in \<open>auto simp: system_row_def\<close>)

section \<open>Preparing again\<close>

lemma set_epoch_simps [simp]:
  "epoch_table (set_epoch sid ep db) sid = Some ep" "message_table (set_epoch sid ep db) = message_table db"
  by (simp_all add: set_epoch_def)

lemma start_epoch_cases:
  assumes "start_epoch es sid L = (Inr p, L')"
  obtains g where "initialize_observation es = Inr g" "p = \<lparr>pp_baseline = gn_baseline g, pp_seq = latest_sequence L sid\<rparr>"
    "L' = L\<lparr>tables := set_epoch sid \<lparr>ep_baseline = gn_baseline g, ep_snapshot = snapshot_json (gn_snapshot g), ep_seq = latest_sequence L sid\<rparr> (tables L)\<rparr>"
  using assms
  by (auto simp: start_epoch_def insert_epoch_def initialize_def rbind_Inr_iff Let_def split: sum.split_asm if_split_asm)

lemma replace_ready: "replace_observation es snap = Inr (Ready g) \<Longrightarrow> initialize_observation es = Inr g"
  by (auto simp: replace_observation_def rbind_Inr_iff split: if_split_asm)

lemma reconcile_cases:
  assumes "reconcile es snap = Inr r"
  obtains (unchanged) "r = Is_Unchanged"
    | (updated) t new where "r = Is_Updated t new" "reconcile_observation es snap = Inr (Updated t new)"
    | (replaced) x where "r = Is_Replaced x" "replace_observation es snap = Inr x"
proof -
  obtain y where y: "reconcile_observation es snap = Inr y" using assms by (auto simp: reconcile_def rbind_Inr_iff)
  show ?thesis
    by (cases y) (use assms y that in \<open>auto simp: reconcile_def rbind_Inr_iff\<close>)
qed

lemma compare_ready: "compare_context es snap newer = Inr (Is_Replaced (Ready g)) \<Longrightarrow> initialize_observation es = Inr g"
  by (auto simp: compare_context_def rbind_Inr_iff replace_ready elim!: reconcile_cases split: if_split_asm)

lemma compare_updated: "compare_context es snap newer = Inr (Is_Updated t new) \<Longrightarrow>
    reconcile_observation es snap = Inr (Updated t new) \<and> newer \<in> {None, Some 0}"
  by (auto simp: compare_context_def rbind_Inr_iff elim!: reconcile_cases split: if_split_asm)

lemma prepare_cases:
  assumes "prepare_once c unpack (Inr es) mid now sid L = (res, L')"
  obtains (failed) err where "res = Inl err" "L' = L"
    | (started) g where "epoch_table (tables L) sid = None" "initialize_observation es = Inr g"
        "res = Inr \<lparr>pp_baseline = gn_baseline g, pp_seq = latest_sequence L sid\<rparr>"
        "L' = L\<lparr>tables := set_epoch sid \<lparr>ep_baseline = gn_baseline g, ep_snapshot = snapshot_json (gn_snapshot g), ep_seq = latest_sequence L sid\<rparr> (tables L)\<rparr>"
    | (kept) ep where "epoch_table (tables L) sid = Some ep" "res = Inr (kept_epoch ep)" "L' = L"
        "\<And>mid now. prepare_once c unpack (Inr es) mid now sid L = (Inr (kept_epoch ep), L)"
    | (replaced) ep g n where "epoch_table (tables L) sid = Some ep" "initialize_observation es = Inr g"
        "n = (case newer_compaction sid ep L of Some m \<Rightarrow> m | None \<Rightarrow> latest_sequence L sid)"
        "res = Inr \<lparr>pp_baseline = gn_baseline g, pp_seq = n\<rparr>"
        "L' = L\<lparr>tables := set_epoch sid \<lparr>ep_baseline = gn_baseline g, ep_snapshot = snapshot_json (gn_snapshot g), ep_seq = n\<rparr> (tables L)\<rparr>"
    | (updated) ep snap t new ev where "epoch_table (tables L) sid = Some ep"
        "reconcile_observation es snap = Inr (Updated t new)" "newer_compaction sid ep L \<in> {None, Some 0}"
        "res = Inr (kept_epoch ep)"
        "publish_context c \<lparr>se_metadata = None, se_session = sid, se_time = now, se_body = ContextUpdatedE mid t\<rparr> new L = (Inr ev, L')"
proof (cases "epoch_table (tables L) sid")
  case None
  with assms have run: "start_epoch es sid L = (res, L')" by (simp add: prepare_once_def)
  show ?thesis
  proof (cases res)
    case (Inr p)
    from run [unfolded Inr] show ?thesis
      by (cases rule: start_epoch_cases) (use Inr in \<open>auto intro: started [OF None]\<close>)
  next
    case (Inl e)
    then have "L' = L" using run by (auto simp: start_epoch_def insert_epoch_def Let_def split: sum.split_asm if_split_asm)
    with Inl failed show ?thesis by blast
  qed
next
  case (Some ep)
  let ?newer = "newer_compaction sid ep L"
  show ?thesis
  proof (cases "unpack (ep_snapshot ep)")
    case None
    with assms Some failed show ?thesis by (auto simp: prepare_once_def)
  next
    case snap: (Some snap)
    show ?thesis
    proof (cases "compare_context es snap ?newer")
      case (Inl d)
      with assms Some snap failed show ?thesis by (auto simp: prepare_once_def)
    next
      case (Inr r)
      then have run: "apply_context c mid now sid ep ?newer r L = (res, L')" using assms Some snap by (simp add: prepare_once_def)
      show ?thesis
      proof (cases r)
        case Is_Unchanged
        with run have "res = Inr (kept_epoch ep)" "L' = L" by (simp_all add: apply_context_def)
        moreover have "prepare_once c unpack (Inr es) mid' now' sid L = (Inr (kept_epoch ep), L)" for mid' now'
          using Some snap Inr Is_Unchanged by (simp add: prepare_once_def apply_context_def)
        ultimately show ?thesis by (rule kept [OF Some])
      next
        case (Is_Updated t new)
        let ?e = "\<lparr>se_metadata = None, se_session = sid, se_time = now, se_body = ContextUpdatedE mid t\<rparr>"
        obtain x L1 where pub: "publish_context c ?e new L = (x, L1)" by fastforce
        show ?thesis
        proof (cases x)
          case (Inl err)
          have "L1 = L" using pub by (rule publish_context_cases [of ?e mid t, rotated]) (simp_all add: Inl)
          with Inl pub run Is_Updated have "res = Inl (Log_Failed err)" "L' = L" by (simp_all add: apply_context_def)
          then show ?thesis by (rule failed)
        next
          case ev: (Inr ev)
          with pub run Is_Updated have r: "res = Inr (kept_epoch ep)" "publish_context c ?e new L = (Inr ev, L')"
            by (simp_all add: apply_context_def)
          note u = compare_updated [OF Inr [unfolded Is_Updated]]
          show ?thesis by (rule updated [OF Some u [THEN conjunct1] u [THEN conjunct2] r])
        qed
      next
        case (Is_Replaced x)
        show ?thesis
        proof (cases x)
          case (Ready g)
          with run Is_Replaced Some have r: "res = Inr \<lparr>pp_baseline = gn_baseline g, pp_seq = (case ?newer of Some m \<Rightarrow> m | None \<Rightarrow> latest_sequence L sid)\<rparr>"
              "L' = L\<lparr>tables := set_epoch sid \<lparr>ep_baseline = gn_baseline g, ep_snapshot = snapshot_json (gn_snapshot g),
                ep_seq = (case ?newer of Some m \<Rightarrow> m | None \<Rightarrow> latest_sequence L sid)\<rparr> (tables L)\<rparr>"
            by (simp_all add: apply_context_def replace_epoch_def Let_def)
          have "initialize_observation es = Inr g" using compare_ready [of es snap ?newer g] Inr Is_Replaced Ready by simp
          then show ?thesis by (rule replaced [OF Some _ refl r])
        next
          case Blocked
          with run Is_Replaced have "res = Inr (kept_epoch ep)" "L' = L" by (simp_all add: apply_context_def)
          moreover have "prepare_once c unpack (Inr es) mid' now' sid L = (Inr (kept_epoch ep), L)" for mid' now'
            using Some snap Inr Is_Replaced Blocked by (simp add: prepare_once_def apply_context_def)
          ultimately show ?thesis by (rule kept [OF Some])
        qed
      qed
    qed
  qed
qed

lemma prepare_settled:
  assumes "epoch_table (tables L) sid = Some ep" "unpack (ep_snapshot ep) = Some snap" "covered es snap"
    "newer_compaction sid ep L \<in> {None, Some 0}"
  shows "prepare_once c unpack (Inr es) mid now sid L = (Inr (kept_epoch ep), L)"
proof -
  have "reconcile es snap = Inr Is_Unchanged" by (simp add: reconcile_def covered_unchanged [OF assms(3)])
  with assms show ?thesis by (auto simp: prepare_once_def compare_context_def apply_context_def)
qed


section \<open>What preparing does\<close>

definition past_only :: "jstring \<Rightarrow> 'j session_log \<Rightarrow> bool" where
  \<comment> \<open>no message of the session, and no epoch, is numbered beyond the log\<close>
  "past_only sid L \<longleftrightarrow>
    (\<forall>r \<in> set (message_table (tables L)). mr_session r = sid \<longrightarrow> mr_seq r \<le> latest_sequence L sid) \<and>
    (\<forall>ep. epoch_table (tables L) sid = Some ep \<longrightarrow> ep_seq ep \<le> latest_sequence L sid)"

lemma latest_compaction_cong:
  "filter (\<lambda>r. is_compaction (mr_message r)) (session_rows sid (message_table db)) =
   filter (\<lambda>r. is_compaction (mr_message r)) (session_rows sid (message_table db')) \<Longrightarrow> latest_compaction db sid = latest_compaction db' sid"
  by (simp add: latest_compaction_def)

lemma session_rows_snoc:
  assumes "\<forall>r \<in> set rows. mr_session r = sid \<longrightarrow> mr_seq r < mr_seq x" "mr_session x = sid"
  shows "session_rows sid (rows @ [x]) = session_rows sid rows @ [x]"
  unfolding session_rows_def using assms by (auto intro: sort_key_snoc)

lemma latest_compaction_past:
  assumes "past_only sid L" "latest_compaction (tables L) sid = Some n"
  shows "n \<le> latest_sequence L sid"
proof -
  let ?rows = "filter (\<lambda>r. is_compaction (mr_message r)) (session_rows sid (message_table (tables L)))"
  obtain r rs where r: "rev ?rows = r # rs" "mr_seq r = n"
    using assms(2) by (auto simp: latest_compaction_def split: list.split_asm)
  then have "r \<in> set (rev ?rows)" by simp
  with assms(1) r(2) show ?thesis by (auto simp: past_only_def)
qed

lemma newer_after:
  assumes past: "past_only sid L" and t: "tables L' = set_epoch sid ep' (tables L)" and le: "latest_sequence L sid \<le> ep_seq ep"
  shows "newer_compaction sid ep L' = None"
proof -
  have "latest_compaction (tables L') sid = latest_compaction (tables L) sid" by (simp add: latest_compaction_def t)
  with latest_compaction_past [OF past] le show ?thesis by (fastforce simp: newer_compaction_def split: option.split)
qed


lemma updated_entries:
  assumes past: "past_only sid L" and ep: "epoch_table (tables L) sid = Some ep"
    and x: "x = \<lparr>mr_session = sid, mr_seq = latest_sequence L sid + 1, mr_message = SystemMessage mid now t\<rparr>"
    and db: "message_table db = message_table (tables L) @ [x]"
  shows "entries_for_runner db sid (ep_seq ep) = entries_for_runner (tables L) sid (ep_seq ep) @ [x]"
    "latest_compaction db sid = latest_compaction (tables L) sid"
proof -
  have rows: "session_rows sid (message_table db) = session_rows sid (message_table (tables L)) @ [x]"
    unfolding db by (rule session_rows_snoc) (use past x in \<open>auto simp: past_only_def\<close>)
  show c: "latest_compaction db sid = latest_compaction (tables L) sid"
    by (rule latest_compaction_cong) (simp add: rows x)
  have "ep_seq ep < latest_sequence L sid + 1" using past ep by (auto simp: past_only_def)
  then show "entries_for_runner db sid (ep_seq ep) = entries_for_runner (tables L) sid (ep_seq ep) @ [x]"
    by (auto simp: entries_for_runner_def message_rows_def c rows x split: option.split)
qed

text \<open>C16. Preparing the context of a turn is atomic: a failure changes nothing at all; a success returns the
  baseline and the sequence number that are stored, and either leaves the log and the history as they were or
  appends one event together with the snapshot it stands for, whose text is the last message the runner loads
  and under the baseline the model already has.\<close>

theorem prepare_is_atomic:
  assumes run: "prepare_once c unpack (Inr es) mid now sid L = (res, L')" and past: "past_only sid L"
  shows "case res of
      Inl err \<Rightarrow> L' = L
    | Inr p \<Rightarrow> (\<exists>ep'. epoch_table (tables L') sid = Some ep' \<and> p = kept_epoch ep' \<and>
        (log L' = log L \<and> message_table (tables L') = message_table (tables L) \<or>
         (\<exists>ep snap t new r x. epoch_table (tables L) sid = Some ep \<and> reconcile_observation es snap = Inr (Updated t new) \<and>
           ep' = ep\<lparr>ep_snapshot := snapshot_json new\<rparr> \<and> log L' = log L @ [r] \<and> mr_message x = SystemMessage mid now t \<and>
           entries_for_runner (tables L') sid (pp_seq p) = entries_for_runner (tables L) sid (pp_seq p) @ [x])))"
  using run
proof (cases rule: prepare_cases)
  case (updated ep snap t new ev)
  let ?x = "\<lparr>mr_session = sid, mr_seq = latest_sequence L sid + 1, mr_message = SystemMessage mid now t\<rparr>"
  obtain r where r: "tables L' = set_epoch sid (ep\<lparr>ep_snapshot := snapshot_json new\<rparr>)
      ((tables L)\<lparr>message_table := message_table (tables L) @ [?x]\<rparr>)" "log L' = log L @ [r]"
    by (rule publish_context_done [OF updated(1,5)])
  then have "message_table (tables L') = message_table (tables L) @ [?x]" by simp
  note entries = updated_entries(1) [OF past updated(1) refl this]
  let ?ep = "ep\<lparr>ep_snapshot := snapshot_json new\<rparr>"
  have ep: "epoch_table (tables L') sid = Some ?ep" "kept_epoch ep = kept_epoch ?ep" "pp_seq (kept_epoch ep) = ep_seq ep"
    using r(1) by (simp_all add: kept_epoch_def)
  show ?thesis
    unfolding updated(4) sum.case
    using updated(1,2) r(2) entries ep by (intro exI [of _ ?ep] conjI disjI2 exI [of _ ep] exI [of _ snap] exI [of _ t]
        exI [of _ new] exI [of _ r] exI [of _ ?x]) simp_all
qed (auto simp: kept_epoch_def)

text \<open>C17. Preparing is idempotent: prepared once more from the same observation, at any later time, a turn gets
  the same baseline and sequence number, and neither the log nor any table changes. This covers the first
  baseline, an update, a replacement after a compaction and one that was blocked.\<close>

theorem prepare_settles:
  assumes run: "prepare_once c unpack (Inr es) mid now sid L = (Inr p, L')" and past: "past_only sid L"
    and es: "promising es" and unpack: "\<And>s. unpack (snapshot_json s) = Some s"
  shows "prepare_once c unpack (Inr es) mid' now' sid L' = (Inr p, L')"
  using run
proof (cases rule: prepare_cases)
  case (started g)
  then have p: "p = kept_epoch \<lparr>ep_baseline = gn_baseline g, ep_snapshot = snapshot_json (gn_snapshot g), ep_seq = latest_sequence L sid\<rparr>"
    by (simp add: kept_epoch_def)
  show ?thesis unfolding p
    by (rule prepare_settled [OF _ _ initialize_covered [OF es started(2)]])
      (use started(4) newer_after [OF past, of L'] in \<open>simp_all add: unpack\<close>)
next
  case (replaced ep g n)
  then have p: "p = kept_epoch \<lparr>ep_baseline = gn_baseline g, ep_snapshot = snapshot_json (gn_snapshot g), ep_seq = n\<rparr>"
    by (simp add: kept_epoch_def)
  have same: "latest_compaction (tables L') sid = latest_compaction (tables L) sid" by (simp add: latest_compaction_def replaced(5))
  have newer: "newer_compaction sid \<lparr>ep_baseline = gn_baseline g, ep_snapshot = snapshot_json (gn_snapshot g), ep_seq = n\<rparr> L' = None"
    using latest_compaction_past [OF past] replaced(3)
    by (fastforce simp: newer_compaction_def same split: option.split option.split_asm if_split_asm)
  show ?thesis unfolding p
    by (rule prepare_settled [OF _ _ initialize_covered [OF es replaced(2)]]) (use replaced(5) newer in \<open>simp_all add: unpack\<close>)
next
  case (updated ep snap t new ev)
  obtain r where t': "tables L' = set_epoch sid (ep\<lparr>ep_snapshot := snapshot_json new\<rparr>)
      ((tables L)\<lparr>message_table := message_table (tables L) @
        [\<lparr>mr_session = sid, mr_seq = latest_sequence L sid + 1, mr_message = SystemMessage mid now t\<rparr>]\<rparr>)"
    by (rule publish_context_done [OF updated(1,5)])
  then have "latest_compaction (tables L') sid = latest_compaction (tables L) sid"
    by (intro updated_entries(2) [OF past updated(1) refl]) simp
  then have "newer_compaction sid (ep\<lparr>ep_snapshot := snapshot_json new\<rparr>) L' \<in> {None, Some 0}"
    using updated(3) by (cases "latest_compaction (tables L) sid") (simp_all add: newer_compaction_def)
  moreover have p: "p = kept_epoch (ep\<lparr>ep_snapshot := snapshot_json new\<rparr>)" using updated(4) by (simp add: kept_epoch_def)
  ultimately show ?thesis
    unfolding p by (intro prepare_settled [OF _ _ reconcile_covered [OF es updated(2)]]) (simp_all add: t' unpack)
next
  case (kept ep)
  then show ?thesis by simp
qed simp


section \<open>Examples\<close>

fun entry_of :: "jstring \<times> json \<Rightarrow> (jstring \<times> source_snapshot) option" where
  "entry_of (k, JObj [(a, v)]) = Some (k, \<lparr>sn_value = v, sn_removed = None\<rparr>)"
| "entry_of (k, JObj [(a, v), (b, JStr t)]) = Some (k, \<lparr>sn_value = v, sn_removed = Some t\<rparr>)"
| "entry_of (k, v) = None"

definition unpack_entries :: "json \<Rightarrow> snapshot option" where
  \<comment> \<open>a decoder of snapshots\<close>
  "unpack_entries v = (case v of JObj fs \<Rightarrow> those (map entry_of fs) | _ \<Rightarrow> None)"

lemma unpack_entries: "unpack_entries (snapshot_json s) = Some s"
proof -
  have "entry_of (case x of (k, v) \<Rightarrow> (k, JObj ((lit ''value'', sn_value v) #
      (case sn_removed v of None \<Rightarrow> [] | Some t \<Rightarrow> [(lit ''removed'', JStr t)])))) = Some x" for x
    by (cases x) (auto split: option.split)
  then have "those (map entry_of (map (\<lambda>(k, v). (k, JObj ((lit ''value'', sn_value v) #
      (case sn_removed v of None \<Rightarrow> [] | Some t \<Rightarrow> [(lit ''removed'', JStr t)])))) s)) = Some s"
    by (induction s) simp_all
  then show ?thesis by (simp add: unpack_entries_def snapshot_json_def)
qed

definition demo_epoch :: "session_event session_log" where
  "demo_epoch = snd (prepare_once demo_codec unpack_entries (Inr (demo_sources ''Mon'')) (lit ''m0'') 0 (lit ''s'') demo_inbox)"


lemma demo_epoch_past: "past_only (lit ''s'') demo_epoch"
proof -
  have rows: "list_all (\<lambda>r. mr_seq r \<le> latest_sequence demo_epoch (lit ''s'')) (message_table (tables demo_epoch))" by code_simp
  have ep: "case epoch_table (tables demo_epoch) (lit ''s'') of None \<Rightarrow> True | Some ep \<Rightarrow> ep_seq ep \<le> latest_sequence demo_epoch (lit ''s'')"
    by code_simp
  from rows ep show ?thesis by (auto simp: past_only_def list_all_iff)
qed

lemma prepare_is_atomic_witness:
  "\<exists>p L'. prepare_once demo_codec unpack_entries (Inr (demo_sources ''Tue'')) (lit ''m1'') 5 (lit ''s'') demo_epoch = (Inr p, L') \<and>
    (\<exists>ep'. epoch_table (tables L') (lit ''s'') = Some ep' \<and> p = kept_epoch ep')"
proof -
  let ?r = "prepare_once demo_codec unpack_entries (Inr (demo_sources ''Tue'')) (lit ''m1'') 5 (lit ''s'') demo_epoch"
  have "case fst ?r of Inl e \<Rightarrow> False | Inr p \<Rightarrow> True" by code_simp
  then obtain p where p: "?r = (Inr p, snd ?r)" by (cases "fst ?r") (auto simp: prod_eq_iff)
  from prepare_is_atomic [OF p demo_epoch_past] p show ?thesis by auto
qed

lemma prepare_settles_witness:
  "\<exists>p L'. prepare_once demo_codec unpack_entries (Inr (demo_sources ''Tue'')) (lit ''m1'') 5 (lit ''s'') demo_epoch = (Inr p, L') \<and>
    length (log L') = length (log demo_epoch) + 1 \<and>
    prepare_once demo_codec unpack_entries (Inr (demo_sources ''Tue'')) (lit ''m2'') 6 (lit ''s'') L' = (Inr p, L')"
proof -
  let ?r = "prepare_once demo_codec unpack_entries (Inr (demo_sources ''Tue'')) (lit ''m1'') 5 (lit ''s'') demo_epoch"
  have "case fst ?r of Inl e \<Rightarrow> False | Inr p \<Rightarrow> True" by code_simp
  then obtain p where p: "?r = (Inr p, snd ?r)" by (cases "fst ?r") (auto simp: prod_eq_iff)
  have "length (log (snd ?r)) = length (log demo_epoch) + 1" by code_simp
  with prepare_settles [OF p demo_epoch_past promising_demo unpack_entries] p show ?thesis by blast
qed

end
