(* ===== verification/InboxOrder.thy ===== *)
theory InboxOrder imports InboxProps begin

text \<open>
  The order of the inbox: inputs of a session and a kind are promoted in the order they were
  admitted, as long as prompts are published by the inbox alone; what the promotions leave; and that
  admitting is idempotent.
\<close>

lemma find_snoc: "find P xs = None \<Longrightarrow> P x \<Longrightarrow> find P (xs @ [x]) = Some x"
  by (induction xs) (auto split: if_splits)

section \<open>First in, first out\<close>

definition fifo :: "session_db \<Rightarrow> bool" where
  "fifo db \<longleftrightarrow> (\<forall>a \<in> set (input_table db). \<forall>b \<in> set (input_table db). \<forall>q.
     in_session a = in_session b \<and> in_delivery a = in_delivery b \<and> in_admitted a < in_admitted b \<and> in_promoted b = Some q \<longrightarrow>
     (\<exists>p. in_promoted a = Some p \<and> p < q))"

lemma fifoD:
  "fifo db \<Longrightarrow> a \<in> set (input_table db) \<Longrightarrow> b \<in> set (input_table db) \<Longrightarrow> in_session a = in_session b \<Longrightarrow>
    in_delivery a = in_delivery b \<Longrightarrow> in_admitted a < in_admitted b \<Longrightarrow> in_promoted b = Some q \<Longrightarrow>
    \<exists>p. in_promoted a = Some p \<and> p < q"
  unfolding fifo_def by blast

lemma fifo_same: "fifo db \<Longrightarrow> input_table db' = input_table db \<Longrightarrow> fifo db'"
  by (simp add: fifo_def)

lemma project_admitted_row:
  "project_admitted i s p d t n db = Inr db' \<Longrightarrow> input_table db' = input_table db @
    [\<lparr>in_id = i, in_session = s, in_prompt = p, in_delivery = d, in_admitted = n, in_promoted = None, in_time = t\<rparr>]"
  by (auto simp: project_admitted_def split: if_split_asm)

lemma fifo_admitted:
  assumes ok: "inbox_ok hi db" "fifo db" and hi: "hi s < n" and run: "project_admitted i s p d t n db = Inr db'"
  shows "fifo db'"
  unfolding fifo_def
proof (intro ballI allI impI)
  let ?r = "\<lparr>in_id = i, in_session = s, in_prompt = p, in_delivery = d, in_admitted = n, in_promoted = None, in_time = t\<rparr>"
  have db': "input_table db' = input_table db @ [?r]" by (rule project_admitted_row [OF run])
  fix a b q assume a: "a \<in> set (input_table db')" and b: "b \<in> set (input_table db')"
    and h: "in_session a = in_session b \<and> in_delivery a = in_delivery b \<and> in_admitted a < in_admitted b \<and> in_promoted b = Some q"
  have b0: "b \<in> set (input_table db)" using b h db' by auto
  have "in_admitted b \<le> hi (in_session b)" using inbox_okD(4) [OF ok(1) b0] by (simp add: input_ok_def)
  then have "a \<noteq> ?r" using h hi by auto
  then have "a \<in> set (input_table db)" using a db' by auto
  from fifoD [OF ok(2) this b0] h show "\<exists>p. in_promoted a = Some p \<and> p < q" by blast
qed

lemma fifo_reverted:
  assumes ok: "inbox_ok hi db" "fifo db" and run: "project_reverted s m t db = Inr db'"
  shows "fifo db'"
  unfolding fifo_def
proof (intro ballI allI impI)
  obtain k where db': "input_table db' = filter (\<lambda>r. \<not> (in_session r = s \<and>
          (k < in_admitted r \<or> (case in_promoted r of Some p \<Rightarrow> k < p | None \<Rightarrow> False)))) (input_table db)"
  proof (cases "find (\<lambda>r. mr_session r = s \<and> message_id (mr_message r) = m) (message_table db)")
    case None
    with run show ?thesis by (simp add: project_reverted_def)
  next
    case (Some r)
    show ?thesis by (rule that [of "mr_seq r"]) (use run Some in \<open>auto simp: project_reverted_def Let_def\<close>)
  qed
  fix a b q assume a: "a \<in> set (input_table db')" and b: "b \<in> set (input_table db')"
    and h: "in_session a = in_session b \<and> in_delivery a = in_delivery b \<and> in_admitted a < in_admitted b \<and> in_promoted b = Some q"
  have "a \<in> set (input_table db)" "b \<in> set (input_table db)" using a b by (simp_all add: db')
  from fifoD [OF ok(2) this] h show "\<exists>p. in_promoted a = Some p \<and> p < q" by blast
qed

lemma fifo_promoted:
  assumes ok: "inbox_ok hi db" "fifo db" and hi: "hi s < n" and r: "r \<in> set (input_table db)" "in_session r = s" "in_promoted r = None"
    and first: "\<And>x. x \<in> set (pending db s (in_delivery r)) \<Longrightarrow> in_admitted r \<le> in_admitted x"
    and db': "input_table db' = promote_row (in_id r) n (input_table db)"
  shows "fifo db'"
  unfolding fifo_def
proof (intro ballI allI impI)
  let ?r = "r\<lparr>in_promoted := Some n\<rparr>"
  have mem: "x \<in> set (input_table db') \<longleftrightarrow> x = ?r \<or> x \<in> set (input_table db) \<and> in_id x \<noteq> in_id r" for x
    unfolding db' by (rule in_promote_row [OF inbox_okD(1) [OF ok(1)] r(1) refl])
  fix a b q assume a: "a \<in> set (input_table db')" and b: "b \<in> set (input_table db')"
    and h: "in_session a = in_session b \<and> in_delivery a = in_delivery b \<and> in_admitted a < in_admitted b \<and> in_promoted b = Some q"
  show "\<exists>p. in_promoted a = Some p \<and> p < q"
  proof (cases "b = ?r")
    case True
    with h have "a \<noteq> ?r" by auto
    with a mem have a0: "a \<in> set (input_table db)" by blast
    have "in_promoted a \<noteq> None"
    proof
      assume "in_promoted a = None"
      with a0 h True r(2) have "a \<in> set (pending db s (in_delivery r))" by (simp add: pending_def)
      with first have "in_admitted r \<le> in_admitted a" by blast
      with h True show False by simp
    qed
    then obtain p where p: "in_promoted a = Some p" by blast
    with inbox_okD(4) [OF ok(1) a0] have "p \<le> hi (in_session a)" by (simp add: input_ok_def)
    with h True hi r(2) p show ?thesis by auto
  next
    case False
    with b mem have b0: "b \<in> set (input_table db)" by blast
    show ?thesis
    proof (cases "a = ?r")
      case True
      with fifoD [OF ok(2) r(1) b0, of q] h r(3) show ?thesis by simp
    next
      case False
      with a mem have "a \<in> set (input_table db)" by blast
      from fifoD [OF ok(2) this b0] h show ?thesis by blast
    qed
  qed
qed

lemma project_run_inputs: "project_run e n db = Inr db' \<Longrightarrow> input_table db' = input_table db"
  by (auto simp: project_run_def split: option.split_asm)

lemma project_event_inputs:
  assumes "project_event e n db = Inr db'" "\<And>i p d. se_body e \<noteq> PromptedE i p d" "\<And>i p d. se_body e \<noteq> PromptAdmittedE i p d"
    "\<And>m. se_body e \<noteq> RevertCommittedE m"
  shows "input_table db' = input_table db"
  using assms(1) assms(2-)
  by (cases "se_body e") (auto simp: project_event_def Let_def dest!: project_run_inputs)

definition log_fifo :: "'j session_log \<Rightarrow> bool" where
  "log_fifo L \<longleftrightarrow> log_inbox_ok L \<and> fifo (tables L)"

lemma publish_fifo:
  assumes ok: "log_fifo L" and no: "\<And>i p d. se_body e \<noteq> PromptedE i p d" and run: "publish_session c e L = (res, L')"
  shows "log_fifo L'"
proof -
  have ok1: "log_inbox_ok L" "fifo (tables L)" "log_inbox_ok L'" using ok publish_session_ok [OF _ run] by (auto simp: log_fifo_def)
  let ?n = "latest_sequence L (se_session e) + 1"
  have "fifo (tables L')"
    using run
  proof (cases rule: publish_session_cases)
    case live
    with ok1 show ?thesis by (simp add: notify_def)
  next
    case failed
    with ok1 show ?thesis by simp
  next
    case (committed ev encoded)
    note inv = ok1(1) [unfolded log_inbox_ok_def]
    have hi: "latest_sequence L (se_session e) < ?n" by simp
    consider (admitted) i p d where "se_body e = PromptAdmittedE i p d" | (reverted) m where "se_body e = RevertCommittedE m"
      | (other) "\<And>i p d. se_body e \<noteq> PromptAdmittedE i p d" "\<And>m. se_body e \<noteq> RevertCommittedE m" by blast
    then show ?thesis
    proof cases
      case (admitted i p d)
      with committed(4) have "project_admitted i (se_session e) p d (se_time e) ?n (tables L) = Inr (tables L')"
        by (simp add: project_event_def Let_def)
      from fifo_admitted [OF inv ok1(2) hi this] show ?thesis .
    next
      case (reverted m)
      with committed(4) have "project_reverted (se_session e) m (se_time e) (tables L) = Inr (tables L')"
        by (simp add: project_event_def Let_def)
      from fifo_reverted [OF inv ok1(2) this] show ?thesis .
    next
      case other
      from fifo_same [OF ok1(2) project_event_inputs [OF committed(4) no other]] show ?thesis .
    qed
  qed
  with ok1(3) show ?thesis by (simp add: log_fifo_def)
qed

section \<open>One round of promotions\<close>

definition next_in_line :: "session_db \<Rightarrow> jstring \<Rightarrow> delivery \<Rightarrow> input_row list \<Rightarrow> bool" where
  \<comment> \<open>waiting inputs in order, none waiting before them\<close>
  "next_in_line db sid d rs \<longleftrightarrow> set rs \<subseteq> set (pending db sid d) \<and> sorted (map in_admitted rs) \<and> distinct rs \<and>
    (\<forall>x \<in> set (pending db sid d) - set rs. \<forall>r \<in> set rs. in_admitted r \<le> in_admitted x)"

lemma publish_prompted:
  assumes ok: "log_inbox_ok L" and r: "r \<in> set (pending (tables L) sid d)"
    and run: "publish_session c (prompted_event sid r) L = (res, L')"
  shows "(\<exists>err. res = Inl err \<and> L' = L) \<or>
    (\<exists>ev. res = Inr ev \<and> input_table (tables L') = promote_row (in_id r) (latest_sequence L sid + 1) (input_table (tables L)))"
  using run
proof (cases rule: publish_session_cases)
  case live
  then show ?thesis by (simp add: prompted_event_def)
next
  case failed
  then show ?thesis by blast
next
  case (committed ev encoded)
  have r0: "r \<in> set (input_table (tables L))" "in_session r = sid" "in_promoted r = None"
    using r by (auto simp: pending_def)
  note inv = ok [unfolded log_inbox_ok_def]
  obtain db1 where db1: "project_prompted (in_id r) sid (in_prompt r) (in_delivery r) (in_time r) (latest_sequence L sid + 1) (tables L) = Inr db1"
      "project_run (prompted_event sid r) (latest_sequence L sid + 1) db1 = Inr (tables L')"
    using committed(4) by (auto simp: project_event_def prompted_event_def Let_def rbind_Inr_iff)
  from db1(1) have "db1 = tables L\<lparr>input_table := promote_row (in_id r) (latest_sequence L sid + 1) (input_table (tables L))\<rparr>"
  proof (cases rule: project_prompted_cases)
    case (known r')
    with inbox_okD(4) [OF inv known(1)] have False by (simp add: input_ok_def)
    then show ?thesis ..
  next
    case added
    with r0 show ?thesis by auto
  qed simp
  with project_run_inputs [OF db1(2)] committed(2) show ?thesis by simp
qed

lemma pending_promote_row:
  assumes ids: "distinct (map in_id (input_table db))" and r: "r \<in> set (pending db sid d)"
    and db': "input_table db' = promote_row (in_id r) n (input_table db)"
  shows "set (pending db' sid d') = set (pending db sid d') - {r}"
proof -
  have r0: "r \<in> set (input_table db)" using r by (simp add: pending_def)
  have "x \<in> set (pending db' sid d') \<longleftrightarrow> x \<in> set (pending db sid d') \<and> in_id x \<noteq> in_id r" for x
    using in_promote_row [OF ids r0 refl, of x n] by (auto simp: pending_def db')
  moreover have "x \<in> set (pending db sid d') \<Longrightarrow> in_id x = in_id r \<longleftrightarrow> x = r" for x
    using ids r0 by (auto simp: pending_def distinct_map inj_on_def)
  ultimately show ?thesis by blast
qed

lemma publish_rows_facts:
  assumes "log_fifo L" "next_in_line (tables L) sid d rs" "publish_rows c sid rs L = (res, L')"
  shows "log_fifo L' \<and> (res = Inr () \<longrightarrow> (\<forall>d'. set (pending (tables L') sid d') = set (pending (tables L) sid d') - set rs))"
  using assms
proof (induction rs arbitrary: L)
  case Nil
  then show ?case by simp
next
  case (Cons r rs)
  obtain res1 L1 where run: "publish_session c (prompted_event sid r) L = (res1, L1)" by fastforce
  have ok: "log_inbox_ok L" "fifo (tables L)" using Cons.prems(1) by (simp_all add: log_fifo_def)
  note inv = ok(1) [unfolded log_inbox_ok_def]
  have r: "r \<in> set (pending (tables L) sid d)" using Cons.prems(2) by (simp add: next_in_line_def)
  then have r0: "r \<in> set (input_table (tables L))" "in_session r = sid" "in_promoted r = None" "in_delivery r = d"
    by (auto simp: pending_def)
  from publish_prompted [OF ok(1) r run] show ?case
  proof (elim disjE exE conjE)
    fix err assume err: "res1 = Inl err" "L1 = L"
    have "find_input (tables L) (in_id r) = Some r" unfolding find_input_def
      by (rule find_distinct_rev [of in_id, OF inbox_okD(1) [OF inv] _ r0(1)]) simp_all
    then have "publish_rows c sid (r # rs) L = (Inl err, L)"
      using run err r0(3) by (simp split: log_error.split db_defect.split)
    with Cons.prems show ?thesis by simp
  next
    fix ev assume ev: "res1 = Inr ev"
      "input_table (tables L1) = promote_row (in_id r) (latest_sequence L sid + 1) (input_table (tables L))"
    have first: "in_admitted r \<le> in_admitted x" if "x \<in> set (pending (tables L) sid (in_delivery r))" for x
      using Cons.prems(2) that r0(4) by (cases "x \<in> set (r # rs)") (auto simp: next_in_line_def)
    have "fifo (tables L1)"
      by (rule fifo_promoted [OF inv ok(2) _ r0(1-3) first ev(2)]) simp_all
    then have f1: "log_fifo L1" using publish_session_ok [OF ok(1) run] by (simp add: log_fifo_def)
    have pend: "set (pending (tables L1) sid d') = set (pending (tables L) sid d') - {r}" for d'
      by (rule pending_promote_row [OF inbox_okD(1) [OF inv] r ev(2)])
    have "next_in_line (tables L1) sid d rs"
      using Cons.prems(2) unfolding next_in_line_def pend by auto
    from Cons.IH [OF f1 this] Cons.prems(3) run ev(1) pend show ?thesis by auto
  qed
qed

lemma next_in_line_steers:
  assumes "log_inbox_ok L"
  shows "next_in_line (tables L) sid Steer (sort_key in_admitted (filter (\<lambda>r. in_admitted r \<le> cutoff) (pending (tables L) sid Steer)))"
proof -
  have "distinct (input_table (tables L))"
    using inbox_okD(1) [OF assms [unfolded log_inbox_ok_def]] by (simp add: distinct_map)
  then show ?thesis unfolding next_in_line_def by (auto simp: pending_def)
qed

lemma next_in_line_queued:
  assumes "sort_key in_admitted (pending (tables L) sid d) = r # rs"
  shows "next_in_line (tables L) sid d [r]"
proof -
  have set: "set (pending (tables L) sid d) = set (r # rs)" using assms by (metis set_sort)
  have "sorted (map in_admitted (r # rs))" using assms by (metis sorted_sort_key)
  with set show ?thesis unfolding next_in_line_def by auto
qed

lemma promote_steers_facts:
  assumes ok: "log_fifo L" and run: "promote_steers c sid cutoff L = (res, L')"
  shows "log_fifo L' \<and> (\<forall>n. res = Inr n \<longrightarrow>
    set (pending (tables L') sid Steer) = {r \<in> set (pending (tables L) sid Steer). cutoff < in_admitted r})"
proof -
  let ?rows = "sort_key in_admitted (filter (\<lambda>r. in_admitted r \<le> cutoff) (pending (tables L) sid Steer))"
  obtain res1 L1 where p: "publish_rows c sid ?rows L = (res1, L1)" by fastforce
  have "log_inbox_ok L" using ok by (simp add: log_fifo_def)
  note facts = publish_rows_facts [OF ok next_in_line_steers [OF this] p]
  have rows: "set ?rows = {r \<in> set (pending (tables L) sid Steer). in_admitted r \<le> cutoff}" by auto
  have split: "promote_steers c sid cutoff L = (case res1 of Inl err \<Rightarrow> (Inl err, L1) | Inr _ \<Rightarrow> (Inr (length ?rows), L1))"
    by (simp only: promote_steers_def Let_def p prod.case)
  show ?thesis
  proof (cases res1)
    case (Inl err)
    with run split facts show ?thesis by auto
  next
    case (Inr u)
    have left: "set (pending (tables L1) sid Steer) = set (pending (tables L) sid Steer) - set ?rows"
      by (rule facts [THEN conjunct2, THEN mp, THEN spec]) (simp add: Inr)
    have "set (pending (tables L1) sid Steer) = {r \<in> set (pending (tables L) sid Steer). cutoff < in_admitted r}"
      unfolding left rows by auto
    moreover have "L' = L1" using run unfolding split by (simp add: Inr)
    ultimately show ?thesis using facts [THEN conjunct1] by simp
  qed
qed

lemma promote_next_facts:
  assumes ok: "log_fifo L" and run: "promote_next_queued c sid L = (res, L')"
  shows "log_fifo L'"
proof (cases "sort_key in_admitted (pending (tables L) sid Queue)")
  case Nil
  with run ok show ?thesis by (simp add: promote_next_queued_def)
next
  case (Cons r rs)
  obtain res1 L1 where p: "publish_rows c sid [r] L = (res1, L1)" by fastforce
  from publish_rows_facts [OF ok next_in_line_queued [OF Cons] p] run p Cons
  show ?thesis by (auto simp: promote_next_queued_def simp del: publish_rows.simps split: sum.split_asm)
qed

fun by_the_inbox :: "inbox_op \<Rightarrow> bool" where
  \<comment> \<open>prompts are published by the promotions only\<close>
  "by_the_inbox (Emit e) = (case se_body e of PromptedE i p d \<Rightarrow> False | _ \<Rightarrow> True)"
| "by_the_inbox a = True"

lemma run_inbox_fifo:
  assumes ok: "log_fifo L" and a: "by_the_inbox a"
  shows "log_fifo (run_inbox c a L)"
proof (cases a)
  case (Emit e)
  then have "\<And>i p d. se_body e \<noteq> PromptedE i p d" using a by auto
  from publish_fifo [OF ok this] Emit show ?thesis by (metis run_inbox.simps(1) surjective_pairing)
next
  case (Admit now i sid p d)
  let ?e = "\<lparr>se_metadata = None, se_session = sid, se_time = now, se_body = PromptAdmittedE i p d\<rparr>"
  obtain res L1 where run: "publish_session c ?e L = (res, L1)" by fastforce
  have "log_fifo L1" using publish_fifo [OF ok _ run] by simp
  with ok Admit run show ?thesis by (auto simp: admit_def admit_new_def split: sum.split option.split)
next
  case (PromoteSteers sid cutoff)
  with promote_steers_facts [OF ok, of c sid cutoff] show ?thesis by (metis run_inbox.simps(3) surjective_pairing)
next
  case (PromoteNext sid)
  with promote_next_facts [OF ok, of c sid] show ?thesis by (metis run_inbox.simps(4) surjective_pairing)
qed

lemma inbox_after_fifo:
  assumes "list_all by_the_inbox ops"
  shows "log_fifo (inbox_after c s ops)"
proof -
  have all: "log_fifo L \<Longrightarrow> list_all by_the_inbox ops \<Longrightarrow> log_fifo (fold (run_inbox c) ops L)" for L
    by (induction ops arbitrary: L) (simp_all add: run_inbox_fifo)
  have "log_fifo (inbox_after c s [])"
    using inbox_after_ok [of c s "[]"] by (simp add: log_fifo_def) (simp add: inbox_after_def fifo_def empty_log_def known_sessions_def)
  then show ?thesis using all [OF _ assms] by (simp add: inbox_after_def)
qed

text \<open>C12. As long as prompts are published by the promotions alone, inputs of one session and one kind
  are promoted in the order of their admission: when one is promoted, every one admitted before it
  already is, at a smaller sequence number.\<close>

theorem inputs_promoted_in_order:
  assumes "list_all by_the_inbox ops" "L = inbox_after c s ops"
    and "a \<in> set (input_table (tables L))" "b \<in> set (input_table (tables L))"
    and "in_session a = in_session b" "in_delivery a = in_delivery b" "in_admitted a < in_admitted b" "in_promoted b = Some q"
  shows "\<exists>p. in_promoted a = Some p \<and> p < q"
proof -
  have "fifo (tables L)" using inbox_after_fifo [OF assms(1), of c s] assms(2) by (simp add: log_fifo_def)
  from fifoD [OF this assms(3-8)] show ?thesis .
qed

definition demo_ops :: "inbox_op list" where
  "demo_ops =
    [Admit 1 (lit ''a'') (lit ''s'') (demo_prompt ''one'') Queue, Admit 2 (lit ''b'') (lit ''s'') (demo_prompt ''two'') Queue,
     PromoteNext (lit ''s''), PromoteSteers (lit ''s'') 7, PromoteNext (lit ''s'')]"

lemma inputs_promoted_in_order_witness:
  "\<exists>(a :: input_row) (b :: input_row). map in_id (input_table (tables (inbox_after demo_codec demo_sessions demo_ops))) = [lit ''a'', lit ''b''] \<and>
     in_id a = lit ''a'' \<and> in_id b = lit ''b'' \<and> in_promoted b = Some 3 \<and> (\<exists>p. in_promoted a = Some p \<and> p < 3)"
proof -
  let ?L = "inbox_after demo_codec demo_sessions demo_ops"
  let ?row = "\<lambda>i t n p. \<lparr>in_id = lit i, in_session = lit ''s'', in_prompt = demo_prompt t, in_delivery = Queue,
    in_admitted = n, in_promoted = Some p, in_time = n + 1\<rparr>"
  have rows: "input_table (tables ?L) = [?row ''a'' ''one'' 0 2, ?row ''b'' ''two'' 1 3]" by code_simp
  have ops: "list_all by_the_inbox demo_ops" by code_simp
  have order: "\<exists>p. in_promoted (?row ''a'' ''one'' 0 2) = Some p \<and> p < 3"
    by (rule inputs_promoted_in_order [OF ops refl, of "?row ''a'' ''one'' 0 2" demo_codec demo_sessions "?row ''b'' ''two'' 1 3"])
      (simp_all add: rows)
  show ?thesis
    by (rule exI [of _ "?row ''a'' ''one'' 0 2"], rule exI [of _ "?row ''b'' ''two'' 1 3"]) (use order in \<open>simp add: rows\<close>)
qed

section \<open>Admission is idempotent\<close>

lemma find_input_SomeD: "find_input db i = Some r \<Longrightarrow> r \<in> set (input_table db) \<and> in_id r = i"
  by (auto simp: find_input_def find_Some_iff)

text \<open>An admission that returns an input leaves exactly that input stored under the id, and any later
  admission under the id, with whatever prompt, returns it again and changes nothing.\<close>

theorem admit_idempotent:
  assumes "admit c now i sid p d L = (Inr r, L')"
  shows "find_input (tables L') i = Some r \<and> admit c now' i sid' p' d' L' = (Inr r, L')"
proof -
  let ?e = "\<lparr>se_metadata = None, se_session = sid, se_time = now, se_body = PromptAdmittedE i p d\<rparr>"
  have "find_input (tables L') i = Some r"
  proof (cases "find_input (tables L) i")
    case (Some stored)
    with assms show ?thesis by (simp add: admit_def)
  next
    case None
    obtain res L1 where run: "publish_session c ?e L = (res, L1)" by fastforce
    have new: "admit_new c now i sid p d L = (Inr r, L')" using assms None by (simp add: admit_def)
    from run show ?thesis
    proof (cases rule: publish_session_cases)
      case live
      then show ?thesis by simp
    next
      case failed
      with new run None show ?thesis by (simp add: admit_new_def)
    next
      case (committed ev encoded)
      let ?r = "\<lparr>in_id = i, in_session = sid, in_prompt = p, in_delivery = d, in_admitted = latest_sequence L sid + 1,
        in_promoted = None, in_time = now\<rparr>"
      have "project_admitted i sid p d now (latest_sequence L sid + 1) (tables L) = Inr (tables L1)"
        using committed(4) by (simp add: project_event_def Let_def)
      note project_admitted_row [OF this]
      moreover have "r = ?r" "L' = L1" using new run committed(2,3) by (simp_all add: admit_new_def)
      ultimately show ?thesis using None by (simp add: find_input_def find_snoc)
    qed
  qed
  then show ?thesis by (simp add: admit_def)
qed

lemma admit_idempotent_witness:
  "\<exists>r L'. admit demo_codec 1 (lit ''a'') (lit ''s'') (demo_prompt ''one'') Queue (empty_log (known_sessions demo_sessions)) = (Inr r, L') \<and>
     in_admitted r = 0 \<and> find_input (tables L') (lit ''a'') = Some r \<and>
     admit demo_codec 9 (lit ''a'') (lit ''t'') (demo_prompt ''two'') Steer L' = (Inr r, L')"
proof -
  let ?a = "admit demo_codec 1 (lit ''a'') (lit ''s'') (demo_prompt ''one'') Queue (empty_log (known_sessions demo_sessions))"
  let ?r = "\<lparr>in_id = lit ''a'', in_session = lit ''s'', in_prompt = demo_prompt ''one'', in_delivery = Queue,
    in_admitted = 0, in_promoted = None, in_time = 1\<rparr>"
  have "fst ?a = Inr ?r" by code_simp
  then have a: "?a = (Inr ?r, snd ?a)" by (metis surjective_pairing)
  from a admit_idempotent [OF a] show ?thesis by (intro exI [of _ ?r] exI [of _ "snd ?a"]) simp
qed

section \<open>Steers reach the history\<close>

definition fresh_ids :: "'j codec \<Rightarrow> 'j session_log \<Rightarrow> bool" where
  "fresh_ids c L \<longleftrightarrow> map row_id (log L) = map (fresh c) [0..<length (log L)]"

lemma publish_session_fresh: "fresh_ids c L \<Longrightarrow> publish_session c e L = (res, L') \<Longrightarrow> fresh_ids c L'"
  by (erule publish_session_cases) (simp_all add: fresh_ids_def notify_def)

lemma log_ids_fresh: "fresh_ids c (inbox_after c s ops)"
proof -
  have step: "fresh_ids c L \<Longrightarrow> fresh_ids c (run_inbox c a L)" for L a
    by (rule run_inbox_keeps [where P = "fresh_ids c"]) (auto intro: publish_session_fresh)
  have "fresh_ids c L \<Longrightarrow> fresh_ids c (fold (run_inbox c) ops L)" for L
    by (induction ops arbitrary: L) (simp_all add: step)
  then show ?thesis by (simp add: inbox_after_def empty_log_def fresh_ids_def)
qed

lemma publish_session_succeeds:
  assumes codec: "\<And>e. enc c e \<noteq> None" "inj (fresh c)" and ids: "fresh_ids c L"
    and e: "durable_body (se_body e)" "project_event e (latest_sequence L (se_session e) + 1) (tables L) = Inr db"
  obtains ev L' where "publish_session c e L = (Inr ev, L')" "tables L' = db"
proof -
  obtain res L' where run: "publish_session c e L = (res, L')" by fastforce
  have new: "fresh c (length (log L)) \<notin> set (map row_id (log L))"
    unfolding ids [unfolded fresh_ids_def] using codec(2) by (auto dest: injD)
  obtain encoded where enc: "enc c e = Some encoded" using codec(1) [of e] by blast
  from run show ?thesis
  proof (cases rule: publish_session_cases)
    case live
    with e(1) show ?thesis by simp
  next
    case failed
    with run enc new e show ?thesis by (simp add: publish_session_eq Let_def)
  next
    case (committed ev encoded)
    with e(2) run that show ?thesis by simp
  qed
qed

definition deliverable :: "session_db \<Rightarrow> jstring \<Rightarrow> input_row list \<Rightarrow> bool" where
  \<comment> \<open>the session has its row, and no message has taken the id of an input\<close>
  "deliverable db sid rs \<longleftrightarrow> has_session db sid \<and>
    (\<forall>r \<in> set rs. in_id r \<notin> set (map (\<lambda>m. message_id (mr_message m)) (message_table db)))"

lemma prompted_succeeds:
  assumes ok: "log_inbox_ok L" and r: "r \<in> set (pending (tables L) sid d)" and del: "deliverable (tables L) sid [r]"
  shows "project_event (prompted_event sid r) (latest_sequence L sid + 1) (tables L) =
    Inr ((tables L)\<lparr>input_table := promote_row (in_id r) (latest_sequence L sid + 1) (input_table (tables L)),
      message_table := message_table (tables L) @ [\<lparr>mr_session = sid, mr_seq = latest_sequence L sid + 1,
        mr_message = UserMessage (in_id r) None (in_time r) (in_prompt r)\<rparr>]\<rparr>)"
proof -
  let ?n = "latest_sequence L sid + 1" and ?db = "tables L"
  note inv = ok [unfolded log_inbox_ok_def]
  have r0: "r \<in> set (input_table ?db)" "in_session r = sid" "in_promoted r = None" "in_delivery r = d"
    using r by (auto simp: pending_def)
  have "find (\<lambda>x. in_id x = in_id r \<and> in_session x = sid \<and> in_promoted x = None) (input_table ?db) = Some r"
    by (rule find_distinct_rev [of in_id, OF inbox_okD(1) [OF inv] _ r0(1)]) (simp_all add: r0)
  moreover have "\<not> promoted_at ?db sid ?n"
    using inbox_okD(4) [OF inv] by (fastforce simp: promoted_at_def input_ok_def)
  ultimately have "project_prompted (in_id r) sid (in_prompt r) (in_delivery r) (in_time r) ?n ?db =
      Inr (?db\<lparr>input_table := promote_row (in_id r) ?n (input_table ?db)\<rparr>)"
    by (simp add: project_prompted_def matches_projection_def equivalent_def matches_prompt_def r0)
  moreover have "\<not> (\<exists>m \<in> set (message_table ?db). mr_session m = sid \<and> mr_seq m = ?n)"
  proof
    assume "\<exists>m \<in> set (message_table ?db). mr_session m = sid \<and> mr_seq m = ?n"
    then have "(sid, ?n) \<in> row_keys (message_table ?db)" by (force simp: row_keys_def)
    from inbox_okD(3) [OF inv this] show False by simp
  qed
  ultimately show ?thesis
    using del by (simp add: project_event_def prompted_event_def project_run_def run_event_def update_def db_adapter_def
        db_insert_def deliverable_def has_session_def)
qed

lemma publish_rows_succeeds:
  assumes "log_inbox_ok L" "\<And>e. enc c e \<noteq> None" "inj (fresh c)" "fresh_ids c L"
    and "set rs \<subseteq> set (pending (tables L) sid d)" "distinct rs" "deliverable (tables L) sid rs"
  shows "\<exists>L'. publish_rows c sid rs L = (Inr (), L')"
  using assms(1,4-)
proof (induction rs arbitrary: L)
  case (Cons r rs)
  let ?e = "prompted_event sid r" and ?n = "latest_sequence L sid + 1"
  have r: "r \<in> set (pending (tables L) sid d)" and del: "deliverable (tables L) sid [r]"
    using Cons.prems by (auto simp: deliverable_def)
  have e: "durable_body (se_body ?e)" "se_session ?e = sid" by (simp_all add: prompted_event_def)
  note pr = prompted_succeeds [OF Cons.prems(1) r del]
  obtain ev L1 where run: "publish_session c ?e L = (Inr ev, L1)"
    and ev: "tables L1 = (tables L)\<lparr>input_table := promote_row (in_id r) ?n (input_table (tables L)),
      message_table := message_table (tables L) @ [\<lparr>mr_session = sid, mr_seq = ?n,
        mr_message = UserMessage (in_id r) None (in_time r) (in_prompt r)\<rparr>]\<rparr>"
    by (rule publish_session_succeeds [OF assms(2,3) Cons.prems(2) e(1), of "(tables L)\<lparr>input_table := promote_row (in_id r) ?n (input_table (tables L)),
      message_table := message_table (tables L) @ [\<lparr>mr_session = sid, mr_seq = ?n,
        mr_message = UserMessage (in_id r) None (in_time r) (in_prompt r)\<rparr>]\<rparr>"]) (use pr e(2) in auto)
  have ok1: "log_inbox_ok L1" by (rule publish_session_ok [OF Cons.prems(1) run])
  have ids: "distinct (map in_id (input_table (tables L)))"
    using inbox_okD(1) [OF Cons.prems(1) [unfolded log_inbox_ok_def]] .
  have pend: "set (pending (tables L1) sid d) = set (pending (tables L) sid d) - {r}"
    by (rule pending_promote_row [OF ids r]) (simp add: ev)
  have "in_id x \<noteq> in_id r" if "x \<in> set rs" for x
    using that Cons.prems(3,4) ids by (auto simp: pending_def distinct_map inj_on_def subset_iff)
  then have "deliverable (tables L1) sid rs" using Cons.prems(5) by (auto simp: deliverable_def ev has_session_def)
  moreover have "set rs \<subseteq> set (pending (tables L1) sid d)" using Cons.prems(3,4) pend by auto
  ultimately obtain L' where "publish_rows c sid rs L1 = (Inr (), L')"
    using Cons.IH [OF ok1 publish_session_fresh [OF Cons.prems(2) run]] Cons.prems(4) by auto
  with run show ?case by simp
qed simp

text \<open>C13. A round of steers succeeds when the events can be encoded under fresh ids, the session exists and
  no message has taken an input's id; afterwards exactly the steers admitted after the cutoff wait, and the
  round reports how many there were.\<close>

theorem steers_reach_the_history:
  assumes L: "L = inbox_after c s ops" "list_all by_the_inbox ops"
    and codec: "\<And>e. enc c e \<noteq> None" "inj (fresh c)"
    and del: "deliverable (tables L) sid (pending (tables L) sid Steer)"
  shows "\<exists>n L'. promote_steers c sid cutoff L = (Inr n, L') \<and>
    n = length (filter (\<lambda>r. in_admitted r \<le> cutoff) (pending (tables L) sid Steer)) \<and>
    set (pending (tables L') sid Steer) = {r \<in> set (pending (tables L) sid Steer). cutoff < in_admitted r}"
proof -
  let ?rows = "sort_key in_admitted (filter (\<lambda>r. in_admitted r \<le> cutoff) (pending (tables L) sid Steer))"
  have ok: "log_fifo L" using inbox_after_fifo [OF L(2)] L(1) by blast
  then have ok1: "log_inbox_ok L" by (simp add: log_fifo_def)
  have ids: "fresh_ids c L" unfolding L(1) by (rule log_ids_fresh)
  have rows: "set ?rows \<subseteq> set (pending (tables L) sid Steer)" "distinct ?rows"
    using next_in_line_steers [OF ok1, of sid cutoff] by (simp_all add: next_in_line_def)
  moreover have "deliverable (tables L) sid ?rows" using del by (auto simp: deliverable_def)
  ultimately obtain L' where L': "publish_rows c sid ?rows L = (Inr (), L')"
    using publish_rows_succeeds [OF ok1 codec ids] by blast
  then have run: "promote_steers c sid cutoff L = (Inr (length ?rows), L')"
    by (simp only: promote_steers_def Let_def prod.case sum.case)
  from promote_steers_facts [OF ok run] run show ?thesis by simp
qed

definition demo_waiting :: "inbox_op list" where
  "demo_waiting = [Admit 1 (lit ''a'') (lit ''s'') (demo_prompt ''one'') Steer, Admit 2 (lit ''b'') (lit ''s'') (demo_prompt ''two'') Steer]"

lemma steers_reach_the_history_witness:
  "\<exists>L'. promote_steers demo_codec (lit ''s'') 0 (inbox_after demo_codec demo_sessions demo_waiting) = (Inr 1, L') \<and>
     map in_id (input_table (tables L')) = [lit ''a'', lit ''b''] \<and> (\<forall>r \<in> set (pending (tables L') (lit ''s'') Steer). 0 < in_admitted r)"
proof -
  let ?L = "inbox_after demo_codec demo_sessions demo_waiting"
  have ops: "list_all by_the_inbox demo_waiting" by code_simp
  have enc: "enc demo_codec e \<noteq> None" for e by (simp add: demo_codec_def)
  have inj: "inj (fresh demo_codec)" by (simp add: demo_codec_def inj_on_def)
  have del: "deliverable (tables ?L) (lit ''s'') (pending (tables ?L) (lit ''s'') Steer)" by code_simp
  have n: "length (filter (\<lambda>r. in_admitted r \<le> 0) (pending (tables ?L) (lit ''s'') Steer)) = 1" by code_simp
  have t: "map in_id (input_table (tables (snd (promote_steers demo_codec (lit ''s'') 0 ?L)))) = [lit ''a'', lit ''b'']" by code_simp
  from steers_reach_the_history [OF refl ops enc inj del, of 0] obtain L' where
    "promote_steers demo_codec (lit ''s'') 0 ?L = (Inr 1, L')"
    "set (pending (tables L') (lit ''s'') Steer) = {r \<in> set (pending (tables ?L) (lit ''s'') Steer). 0 < in_admitted r}"
    unfolding n by blast
  with t show ?thesis by auto
qed

end
