(* ===== verification/SessionDrain.thy ===== *)
theory SessionDrain imports ContextEpoch InboxOrder ToolPairing begin

text \<open>
  The drain of a session (\<open>run\<close>, \<open>runTurn\<close> and the opening of \<open>runTurnAttempt\<close> in
  packages/core/src/session/runner/llm.ts): what is promoted before each turn, when the step count starts
  over, when the loop takes another turn, and that it returns. What the provider and the tools do in a turn is
  a script: for each attempt the context that was loaded, the events published, and how it ended.
\<close>

section \<open>Attempts\<close>

datatype run_error =
    No_Session jstring | Interrupted | Context_Failed epoch_error | Log_Died "db_defect log_error" | Turn_Failed | Second_Overflow

record runner =
  rn_directory :: jstring
  rn_workspace :: "jstring option"
  rn_steps :: "nat option" \<comment> \<open>the agent's limit\<close>
  rn_unpack :: "json \<Rightarrow> snapshot option" \<comment> \<open>the schema of a stored snapshot\<close>

record attempt =
  at_context :: "(context_defect, context_sources) result"
  at_message :: jstring \<comment> \<open>the id and the time for a context update\<close>
  at_now :: int
  at_events :: "session_event list"

datatype restart = After_Compaction | After_Overflow

record turn_end =
  te_local_call :: bool \<comment> \<open>the model called a tool that runs here\<close>
  te_provider_error :: bool
  te_failed :: bool \<comment> \<open>the stream failed or was interrupted, or the user declined\<close>

type_synonym turn_script = "(attempt \<times> restart) list \<times> attempt \<times> turn_end"

definition promote :: "'j codec \<Rightarrow> jstring \<Rightarrow> delivery option \<Rightarrow> 'j session_log \<Rightarrow> (db_defect log_error, nat) result \<times> 'j session_log" where
  "promote c sid promotion L =
    (let cutoff = latest_sequence L sid in
     case promotion of
       None \<Rightarrow> (Inr 0, L)
     | Some Steer \<Rightarrow> promote_steers c sid cutoff L
     | Some Queue \<Rightarrow>
         (case promote_next_queued c sid L of
            (Inl err, L1) \<Rightarrow> (Inl err, L1)
          | (Inr b, L1) \<Rightarrow>
              (case promote_steers c sid cutoff L1 of
                 (Inl err, L2) \<Rightarrow> (Inl err, L2)
               | (Inr n, L2) \<Rightarrow> (Inr (of_bool b + n), L2))))"

definition misplaced :: "runner \<Rightarrow> session_row \<Rightarrow> bool" where
  "misplaced rn s \<longleftrightarrow> ss_directory s \<noteq> rn_directory rn \<or> ss_workspace s \<noteq> rn_workspace rn"

definition begin_attempt :: "'j codec \<Rightarrow> runner \<Rightarrow> jstring \<Rightarrow> attempt \<Rightarrow> delivery option \<Rightarrow> nat \<Rightarrow> 'j session_log \<Rightarrow>
    (run_error, prepared \<times> nat) result \<times> 'j session_log" where
  \<comment> \<open>up to the prepared context: the baseline and the current step\<close>
  "begin_attempt c rn sid at promotion step L =
    (case session_table (tables L) sid of
       None \<Rightarrow> (Inl (No_Session sid), L)
     | Some s \<Rightarrow>
         if misplaced rn s then (Inl Interrupted, L)
         else (case initialize_once (at_context at) sid L of
             (Inl e, L1) \<Rightarrow> (Inl (Context_Failed e), L1)
           | (Inr initialized, L1) \<Rightarrow>
               (case promote c sid promotion L1 of
                  (Inl e, L2) \<Rightarrow> (Inl (Log_Died e), L2)
                | (Inr n, L2) \<Rightarrow>
                    (case initialized of
                       Some p \<Rightarrow> (Inr (p, if 0 < n then 1 else step), L2)
                     | None \<Rightarrow>
                         (case prepare_once c (rn_unpack rn) (at_context at) (at_message at) (at_now at) sid L2 of
                            (Inl e, L3) \<Rightarrow> (Inl (Context_Failed e), L3)
                          | (Inr p, L3) \<Rightarrow> (Inr (p, if 0 < n then 1 else step), L3))))))"

definition is_last_step :: "runner \<Rightarrow> nat \<Rightarrow> bool" where
  "is_last_step rn step \<longleftrightarrow> (case rn_steps rn of None \<Rightarrow> False | Some n \<Rightarrow> n \<le> step)"

fun publish_all :: "'j codec \<Rightarrow> session_event list \<Rightarrow> 'j session_log \<Rightarrow> (db_defect log_error, unit) result \<times> 'j session_log" where
  "publish_all c [] L = (Inr (), L)"
| "publish_all c (e # es) L =
    (case publish_session c e L of
       (Inl err, L1) \<Rightarrow> (Inl err, L1)
     | (Inr ev, L1) \<Rightarrow> publish_all c es L1)"

definition attempt_turn :: "'j codec \<Rightarrow> runner \<Rightarrow> jstring \<Rightarrow> attempt \<Rightarrow> delivery option \<Rightarrow> nat \<Rightarrow> 'j session_log \<Rightarrow>
    (run_error, nat) result \<times> 'j session_log" where
  "attempt_turn c rn sid at promotion step L =
    (case begin_attempt c rn sid at promotion step L of
       (Inl e, L1) \<Rightarrow> (Inl e, L1)
     | (Inr (p, current), L1) \<Rightarrow>
         (case publish_all c (at_events at) L1 of
            (Inl e, L2) \<Rightarrow> (Inl (Log_Died e), L2)
          | (Inr u, L2) \<Rightarrow> (Inr current, L2)))"

definition needs_continuation :: "runner \<Rightarrow> turn_end \<Rightarrow> nat \<Rightarrow> bool" where
  \<comment> \<open>on the last step no tools are offered and a call is failed at once\<close>
  "needs_continuation rn te step \<longleftrightarrow> \<not> te_provider_error te \<and> te_local_call te \<and> \<not> is_last_step rn step"

fun run_turn :: "'j codec \<Rightarrow> runner \<Rightarrow> jstring \<Rightarrow> bool \<Rightarrow> delivery option \<Rightarrow> nat \<Rightarrow> turn_script \<Rightarrow> 'j session_log \<Rightarrow>
    (run_error, bool \<times> nat) result \<times> 'j session_log" where
  \<comment> \<open>\<open>runTurn\<close>, and \<open>runAfterOverflowCompaction\<close> with nothing left to recover an overflow\<close>
  "run_turn c rn sid recover promotion step ([], at, te) L =
    (case attempt_turn c rn sid at promotion step L of
       (Inl e, L1) \<Rightarrow> (Inl e, L1)
     | (Inr current, L1) \<Rightarrow>
         if te_failed te then (Inl Turn_Failed, L1) else (Inr (needs_continuation rn te current, current), L1))"
| "run_turn c rn sid recover promotion step ((at, r) # rs, fin) L =
    (case attempt_turn c rn sid at promotion step L of
       (Inl e, L1) \<Rightarrow> (Inl e, L1)
     | (Inr current, L1) \<Rightarrow>
         if r = After_Overflow \<and> \<not> recover then (Inl Second_Overflow, L1)
         else run_turn c rn sid (recover \<and> r = After_Compaction) None current (rs, fin) L1)"

section \<open>The drain\<close>

fun drain :: "'j codec \<Rightarrow> runner \<Rightarrow> jstring \<Rightarrow> (nat \<Rightarrow> turn_script) \<Rightarrow> nat \<Rightarrow> nat \<Rightarrow> delivery option \<Rightarrow> nat \<Rightarrow> 'j session_log \<Rightarrow>
    ((run_error, unit) result \<times> 'j session_log) option" where
  \<comment> \<open>the two loops of \<open>run\<close>, with fuel for the turns; the scripts of the turns, the number of this turn\<close>
  "drain c rn sid scripts 0 k promotion step L = None"
| "drain c rn sid scripts (Suc fuel) k promotion step L =
    (case run_turn c rn sid True promotion step (scripts k) L of
       (Inl e, L1) \<Rightarrow> Some (Inl e, L1)
     | (Inr (needs, current), L1) \<Rightarrow>
         if needs \<or> has_pending (tables L1) sid Steer then drain c rn sid scripts fuel (Suc k) (Some Steer) (current + 1) L1
         else if has_pending (tables L1) sid Queue then drain c rn sid scripts fuel (Suc k) (Some Queue) 1 L1
         else Some (Inr (), L1))"

definition interrupted_body :: "assistant_message \<Rightarrow> tool_item \<Rightarrow> session_body" where
  "interrupted_body a t = ToolFailedE (am_id a) (ti_id t) (lit ''Tool execution interrupted'') None (hosted t)
     (Option.bind (ti_provider t) tp_metadata)"

fun interrupted_bodies :: "session_message \<Rightarrow> session_body list" where
  "interrupted_bodies (AssistantMessage a) = map (interrupted_body a) (filter (\<lambda>t. waiting (ti_state t)) (tools_in (am_content a)))"
| "interrupted_bodies m = []"

definition fail_interrupted_tools :: "'j codec \<Rightarrow> int \<Rightarrow> jstring \<Rightarrow> 'j session_log \<Rightarrow> (db_defect log_error, unit) result \<times> 'j session_log" where
  "fail_interrupted_tools c now sid L =
    publish_all c (map (\<lambda>b. \<lparr>se_metadata = None, se_session = sid, se_time = now, se_body = b\<rparr>)
      (concat (map interrupted_bodies (load_history (tables L) sid)))) L"

definition run :: "'j codec \<Rightarrow> runner \<Rightarrow> jstring \<Rightarrow> bool \<Rightarrow> int \<Rightarrow> (nat \<Rightarrow> turn_script) \<Rightarrow> nat \<Rightarrow> 'j session_log \<Rightarrow>
    ((run_error, unit) result \<times> 'j session_log) option" where
  "run c rn sid force now scripts fuel L =
    (let steer = has_pending (tables L) sid Steer; queue = \<not> steer \<and> has_pending (tables L) sid Queue in
     if \<not> force \<and> \<not> steer \<and> \<not> queue then Some (Inr (), L)
     else (case fail_interrupted_tools c now sid L of
         (Inl e, L1) \<Rightarrow> Some (Inl (Log_Died e), L1)
       | (Inr u, L1) \<Rightarrow>
           drain c rn sid scripts fuel 0 (if steer then Some Steer else if queue then Some Queue else None) 1 L1))"

section \<open>What an attempt keeps\<close>

fun quiet :: "session_event \<Rightarrow> bool" where
  \<comment> \<open>admits no prompt, promotes none and takes none back\<close>
  "quiet e = (case se_body e of PromptedE i p d \<Rightarrow> False | PromptAdmittedE i p d \<Rightarrow> False | RevertCommittedE m \<Rightarrow> False | _ \<Rightarrow> True)"

definition same_inbox :: "'j session_log \<Rightarrow> 'j session_log \<Rightarrow> bool" where
  "same_inbox L L' \<longleftrightarrow> input_table (tables L') = input_table (tables L) \<and> (log_fifo L \<longrightarrow> log_fifo L')"

lemma same_inbox_refl [simp]: "same_inbox L L"
  by (simp add: same_inbox_def)

lemma same_inbox_trans: "same_inbox L L1 \<Longrightarrow> same_inbox L1 L2 \<Longrightarrow> same_inbox L L2"
  by (simp add: same_inbox_def)

lemma same_inbox_pending: "same_inbox L L' \<Longrightarrow> pending (tables L') sid d = pending (tables L) sid d"
  by (simp add: same_inbox_def pending_def)

lemma publish_quiet:
  assumes "quiet e" "publish_session c e L = (res, L')"
  shows "same_inbox L L'"
proof -
  have b: "\<And>i p d. se_body e \<noteq> PromptedE i p d" "\<And>i p d. se_body e \<noteq> PromptAdmittedE i p d" "\<And>m. se_body e \<noteq> RevertCommittedE m"
    using assms(1) by auto
  have "input_table (tables L') = input_table (tables L)"
    using assms(2)
  proof (cases rule: publish_session_cases)
    case (committed ev encoded)
    from project_event_inputs [OF committed(4) b] show ?thesis .
  qed (simp_all add: notify_def)
  with publish_fifo [OF _ b(1) assms(2)] show ?thesis by (simp add: same_inbox_def)
qed

lemma publish_all_quiet: "list_all quiet es \<Longrightarrow> publish_all c es L = (res, L') \<Longrightarrow> same_inbox L L'"
proof (induction es arbitrary: L)
  case (Cons e es)
  obtain r L1 where e: "publish_session c e L = (r, L1)" by fastforce
  have L1: "same_inbox L L1" using Cons.prems(1) by (intro publish_quiet [OF _ e]) simp
  show ?case
  proof (cases r)
    case (Inl err)
    with Cons.prems(2) e L1 show ?thesis by simp
  next
    case (Inr ev)
    with Cons e have "same_inbox L1 L'" by simp
    with L1 show ?thesis by (rule same_inbox_trans)
  qed
qed simp

lemma epoch_same_inbox:
  assumes "input_table (tables L') = input_table (tables L)" "message_table (tables L') = message_table (tables L)"
    "latest_sequence L' = latest_sequence L"
  shows "same_inbox L L'"
  using assms by (simp add: same_inbox_def log_fifo_def log_inbox_ok_def inbox_ok_def fifo_def)

lemma set_epoch_same [simp]: "same_inbox L (L\<lparr>tables := set_epoch sid ep (tables L)\<rparr>)"
  by (rule epoch_same_inbox) (simp_all add: set_epoch_def latest_sequence_def fun_eq_iff)

lemma initialize_same:
  assumes "initialize_once ctx sid L = (res, L')"
  shows "same_inbox L L'"
  using assms
  by (auto simp: initialize_once_def start_epoch_def insert_epoch_def Let_def split: sum.split_asm if_split_asm prod.split_asm)

lemma publish_context_same:
  assumes b: "se_body e = ContextUpdatedE mid t" and run: "publish_context c e snap L = (res, L')"
  shows "same_inbox L L'"
proof (cases "enc c e = None \<or> fresh c (length (log L)) \<in> set (map row_id (log L))")
  case True
  with run show ?thesis by (auto simp: publish_context_eq [OF b] Let_def split: option.split_asm)
next
  case False
  let ?n = "latest_sequence L (se_session e) + 1"
  from False obtain encoded where enc: "enc c e = Some encoded" by auto
  show ?thesis
  proof (cases "rbind (project_run e ?n (tables L)) (advance_epoch (se_session e) snap)")
    case (Inl x)
    with run enc False show ?thesis by (simp add: publish_context_eq [OF b] Let_def)
  next
    case (Inr p)
    then obtain db ep where db: "project_run e ?n (tables L) = Inr db" "p = set_epoch (se_session e) ep db"
      by (auto simp: rbind_Inr_iff advance_epoch_def split: option.split_asm)
    have t: "tables L' = p" "latest_sequence L' = (latest_sequence L)(se_session e := ?n)"
      using run enc False Inr
      by (auto simp: publish_context_eq [OF b] Let_def notify_def append_row_def latest_sequence_def fun_eq_iff)
    have inputs: "input_table p = input_table (tables L)" "input_table p = input_table db" "message_table p = message_table db"
      using project_run_inputs [OF db(1)] by (simp_all add: db(2) set_epoch_def)
    have "inbox_ok ((latest_sequence L)(se_session e := ?n)) db" if "log_inbox_ok L"
      by (rule project_event_ok [OF that [unfolded log_inbox_ok_def]]) (simp_all add: project_context [OF b] db(1))
    then show ?thesis using inputs by (auto simp: same_inbox_def log_fifo_def log_inbox_ok_def inbox_ok_def t fifo_def)
  qed
qed

lemma prepare_same:
  assumes "prepare_once c unpack ctx mid now sid L = (res, L')"
  shows "same_inbox L L'"
proof (cases ctx)
  case (Inl d)
  with assms show ?thesis by (simp add: prepare_once_def)
next
  case (Inr es)
  from assms [unfolded Inr] show ?thesis
  proof (cases rule: prepare_cases)
    case (updated ep snap t new ev)
    from publish_context_same [OF _ updated(5)] show ?thesis by simp
  qed simp_all
qed

section \<open>What an attempt promotes\<close>

definition promotes :: "delivery option \<Rightarrow> jstring \<Rightarrow> 'j session_log \<Rightarrow> 'j session_log \<Rightarrow> nat \<Rightarrow> nat \<Rightarrow> bool" where
  \<comment> \<open>what waits afterwards, and the step the turn has\<close>
  "promotes promotion sid L L' step current \<longleftrightarrow>
    (case promotion of
       None \<Rightarrow> (\<forall>d. set (pending (tables L') sid d) = set (pending (tables L) sid d)) \<and> current = step
     | Some Steer \<Rightarrow> set (pending (tables L') sid Steer) = {} \<and> set (pending (tables L') sid Queue) = set (pending (tables L) sid Queue) \<and>
         current = (if pending (tables L) sid Steer = [] then step else 1)
     | Some Queue \<Rightarrow> set (pending (tables L') sid Steer) = {} \<and>
         (if pending (tables L) sid Queue = [] then set (pending (tables L') sid Queue) = {} \<and> (current = step \<or> current = 1)
          else current = 1 \<and> (\<exists>r \<in> set (pending (tables L) sid Queue).
            set (pending (tables L') sid Queue) = set (pending (tables L) sid Queue) - {r})))"

lemma pending_disjoint: "set (pending db sid Queue) - set (pending db sid Steer) = set (pending db sid Queue)"
  by (auto simp: pending_def)

lemma steers_promoted:
  assumes ok: "log_fifo L" and cutoff: "\<And>r. r \<in> set (pending (tables L) sid Steer) \<Longrightarrow> in_admitted r \<le> cutoff"
    and run: "promote_steers c sid cutoff L = (Inr n, L')"
  shows "log_fifo L' \<and> set (pending (tables L') sid Steer) = {} \<and>
    set (pending (tables L') sid Queue) = set (pending (tables L) sid Queue) \<and> n = length (pending (tables L) sid Steer)"
proof -
  let ?rows = "sort_key in_admitted (filter (\<lambda>r. in_admitted r \<le> cutoff) (pending (tables L) sid Steer))"
  have f: "filter (\<lambda>r. in_admitted r \<le> cutoff) (pending (tables L) sid Steer) = pending (tables L) sid Steer"
    using cutoff by simp
  obtain res1 L1 where p: "publish_rows c sid ?rows L = (res1, L1)" by fastforce
  have "promote_steers c sid cutoff L = (case res1 of Inl err \<Rightarrow> (Inl err, L1) | Inr _ \<Rightarrow> (Inr (length ?rows), L1))"
    by (simp only: promote_steers_def Let_def p prod.case)
  with run have r: "res1 = Inr ()" "L1 = L'" "n = length ?rows" by (auto split: sum.split_asm)
  have ok1: "log_inbox_ok L" using ok by (simp add: log_fifo_def)
  note facts = publish_rows_facts [OF ok next_in_line_steers [OF ok1] p]
  have rows: "set ?rows = set (pending (tables L) sid Steer)" unfolding f by simp
  have left: "set (pending (tables L') sid d') = set (pending (tables L) sid d') - set ?rows" for d'
    using facts [THEN conjunct2, rule_format, OF r(1)] r(2) by blast
  show ?thesis
    using facts [THEN conjunct1] left [of Steer] left [of Queue] r(2,3) pending_disjoint [of "tables L" sid] unfolding rows f by simp
qed

lemma queued_promoted:
  assumes ok: "log_fifo L" and run: "promote_next_queued c sid L = (Inr b, L')"
  shows "log_fifo L' \<and> set (pending (tables L') sid Steer) = set (pending (tables L) sid Steer) \<and>
    (if pending (tables L) sid Queue = [] then \<not> b \<and> L' = L
     else b \<and> (\<exists>r \<in> set (pending (tables L) sid Queue). set (pending (tables L') sid Queue) = set (pending (tables L) sid Queue) - {r}))"
proof (cases "sort_key in_admitted (pending (tables L) sid Queue)")
  case Nil
  then have "pending (tables L) sid Queue = []" by (metis set_sort set_empty)
  with Nil run ok show ?thesis by (simp add: promote_next_queued_def)
next
  case (Cons r rs)
  then have r: "r \<in> set (pending (tables L) sid Queue)" by (metis list.set_intros(1) set_sort)
  obtain res1 L1 where p: "publish_rows c sid [r] L = (res1, L1)" by fastforce
  with run Cons have r1: "res1 = Inr ()" "b" "L1 = L'"
    by (auto simp: promote_next_queued_def simp del: publish_rows.simps split: sum.split_asm)
  note facts = publish_rows_facts [OF ok next_in_line_queued [OF Cons] p [unfolded r1(1,3)]]
  have left: "set (pending (tables L') sid d') = set (pending (tables L) sid d') - {r}" for d'
    using facts by simp
  have "r \<notin> set (pending (tables L) sid Steer)" using r by (auto simp: pending_def)
  with facts [THEN conjunct1] left r r1(2) show ?thesis by auto
qed

lemma promote_facts:
  assumes ok: "log_fifo L" and run: "promote c sid promotion L = (Inr n, L')"
  shows "log_fifo L' \<and> promotes promotion sid L L' step (if 0 < n then 1 else step)"
proof -
  have "in_admitted r \<le> latest_sequence L sid" if "r \<in> set (pending (tables L) sid d)" for r d
    using inbox_okD(4) [of "latest_sequence L" "tables L" r] that ok
    by (auto simp: log_fifo_def log_inbox_ok_def input_ok_def pending_def)
  note late = this
  show ?thesis
  proof (cases promotion)
    case None
    with run ok show ?thesis by (simp add: promote_def promotes_def)
  next
    case (Some d)
    show ?thesis
    proof (cases d)
      case Steer
      with run Some have "promote_steers c sid (latest_sequence L sid) L = (Inr n, L')" by (simp add: promote_def Let_def)
      from steers_promoted [OF ok late this] Some Steer show ?thesis by (simp add: promotes_def)
    next
      case Queue
      with run Some obtain b L1 m where q: "promote_next_queued c sid L = (Inr b, L1)"
          "promote_steers c sid (latest_sequence L sid) L1 = (Inr m, L')" "n = of_bool b + m"
        by (auto simp: promote_def Let_def split: prod.split_asm sum.split_asm)
      note q1 = queued_promoted [OF ok q(1)]
      have "in_admitted r \<le> latest_sequence L sid" if "r \<in> set (pending (tables L1) sid Steer)" for r
        using late [of r Steer] that q1 by blast
      note q2 = steers_promoted [OF _ this q(2)]
      from q1 q2 q(3) Some Queue show ?thesis by (auto simp: promotes_def)
    qed
  qed
qed

lemma promotes_same:
  assumes p: "promotes promotion sid L1 L2 step current" and same: "same_inbox L L1" "same_inbox L2 L'"
  shows "promotes promotion sid L L' step current"
proof -
  have e: "pending (tables L1) sid d = pending (tables L) sid d" "pending (tables L') sid d = pending (tables L2) sid d" for d
    using same by (simp_all add: same_inbox_pending)
  show ?thesis using p unfolding promotes_def e .
qed

lemma promotes_again:
  assumes "promotes promotion sid L L1 step current1" "promotes None sid L1 L' current1 current"
  shows "promotes promotion sid L L' step current"
proof -
  have e: "set (pending (tables L') sid d) = set (pending (tables L1) sid d)" "current = current1" for d
    using assms(2) by (simp_all add: promotes_def)
  show ?thesis using assms(1) unfolding promotes_def e .
qed

lemma begin_facts:
  assumes ok: "log_fifo L" and run: "begin_attempt c rn sid at promotion step L = (Inr (p, current), L')"
  shows "log_fifo L' \<and> promotes promotion sid L L' step current"
proof -
  obtain s initialized L1 n L2 where a: "initialize_once (at_context at) sid L = (Inr initialized, L1)"
      "promote c sid promotion L1 = (Inr n, L2)" "current = (if 0 < n then 1 else step)"
      "L' = L2 \<or> prepare_once c (rn_unpack rn) (at_context at) (at_message at) (at_now at) sid L2 = (Inr p, L')"
    using run by (auto simp: begin_attempt_def split: option.split_asm if_split_asm prod.split_asm sum.split_asm)
  have L1: "same_inbox L L1" by (rule initialize_same [OF a(1)])
  then have "log_fifo L1" using ok by (simp add: same_inbox_def)
  note L2 = promote_facts [OF this a(2), of step]
  have L': "same_inbox L2 L'" using a(4) by (auto intro: prepare_same)
  from promotes_same [OF L2 [THEN conjunct2] L1 L'] L2 L' a(3) show ?thesis by (simp add: same_inbox_def)
qed

lemma attempt_facts:
  assumes ok: "log_fifo L" and quiet: "list_all quiet (at_events at)"
    and run: "attempt_turn c rn sid at promotion step L = (Inr current, L')"
  shows "log_fifo L' \<and> promotes promotion sid L L' step current"
proof -
  obtain p L1 where a: "begin_attempt c rn sid at promotion step L = (Inr (p, current), L1)"
      "publish_all c (at_events at) L1 = (Inr (), L')"
    using run by (auto simp: attempt_turn_def split: prod.split_asm sum.split_asm)
  note L1 = begin_facts [OF ok a(1)]
  have L': "same_inbox L1 L'" by (rule publish_all_quiet [OF quiet a(2)])
  from promotes_same [OF L1 [THEN conjunct2] same_inbox_refl L'] L1 L' show ?thesis by (simp add: same_inbox_def)
qed

fun quiet_script :: "turn_script \<Rightarrow> bool" where
  "quiet_script (rs, at, te) \<longleftrightarrow> list_all (\<lambda>(a, r). list_all quiet (at_events a)) rs \<and> list_all quiet (at_events at)"

lemma run_turn_facts:
  assumes "log_fifo L" "quiet_script (rs, at, te)" "run_turn c rn sid recover promotion step (rs, at, te) L = (Inr (needs, current), L')"
  shows "log_fifo L' \<and> promotes promotion sid L L' step current \<and> (needs \<longrightarrow> \<not> is_last_step rn current)"
  using assms
proof (induction rs arbitrary: recover promotion step L)
  case Nil
  then obtain cur where a: "attempt_turn c rn sid at promotion step L = (Inr cur, L')" "cur = current"
      "needs = needs_continuation rn te cur"
    by (auto split: prod.split_asm sum.split_asm if_split_asm)
  with attempt_facts [OF Nil.prems(1) _ a(1)] Nil.prems(2) show ?case by (simp add: needs_continuation_def)
next
  case (Cons x rs)
  obtain at1 r where x: "x = (at1, r)" by fastforce
  from Cons.prems(3) x obtain cur L1 where a: "attempt_turn c rn sid at1 promotion step L = (Inr cur, L1)"
      "run_turn c rn sid (recover \<and> r = After_Compaction) None cur (rs, at, te) L1 = (Inr (needs, current), L')"
    by (auto split: prod.split_asm sum.split_asm if_split_asm)
  have first: "log_fifo L1 \<and> promotes promotion sid L L1 step cur"
    by (rule attempt_facts [OF Cons.prems(1) _ a(1)]) (use Cons.prems(2) x in simp)
  have rest: "log_fifo L' \<and> promotes None sid L1 L' cur current \<and> (needs \<longrightarrow> \<not> is_last_step rn current)"
    by (rule Cons.IH [OF _ _ a(2)]) (use first Cons.prems(2) x in simp_all)
  from promotes_again [of promotion sid L L1 step cur L' current] first rest show ?case by simp
qed

section \<open>The drain returns\<close>

definition waits :: "'j session_log \<Rightarrow> jstring \<Rightarrow> nat" where
  "waits L sid = length (pending (tables L) sid Steer) + length (pending (tables L) sid Queue)"

definition turns_left :: "nat \<Rightarrow> nat \<Rightarrow> delivery option \<Rightarrow> nat \<Rightarrow> nat" where
  \<comment> \<open>each input that waits is worth a full round of steps, a round that has begun the steps it has left\<close>
  "turns_left limit w promotion step =
    (if promotion = Some Queue then w * (limit + 2) else w * (limit + 2) + (limit + 1 - step) + 1)"

definition startable :: "'j session_log \<Rightarrow> jstring \<Rightarrow> delivery option \<Rightarrow> bool" where
  "startable L sid promotion \<longleftrightarrow> (case promotion of
     None \<Rightarrow> pending (tables L) sid Steer = [] | Some Steer \<Rightarrow> True | Some Queue \<Rightarrow> pending (tables L) sid Queue \<noteq> [])"

lemma pending_length: "log_fifo L \<Longrightarrow> length (pending (tables L) sid d) = card (set (pending (tables L) sid d))"
  using inbox_okD(1) [of "latest_sequence L" "tables L"]
  by (auto simp: log_fifo_def log_inbox_ok_def pending_def distinct_map intro!: distinct_card [symmetric] simp del: set_filter)

lemma promotes_waits:
  assumes ok: "log_fifo L" "log_fifo L1" and p: "promotes promotion sid L L1 step current" and start: "startable L sid promotion"
  shows "pending (tables L1) sid Steer = [] \<and>
    (if promotion = Some Queue \<or> pending (tables L) sid Steer \<noteq> [] then waits L1 sid < waits L sid \<and> current = 1
     else waits L1 sid = waits L sid \<and> current = step)"
proof -
  note len = pending_length [OF ok(1), of sid] pending_length [OF ok(2), of sid]
  consider (none) "promotion = None" | (steer) "promotion = Some Steer" | (queue) "promotion = Some Queue"
    by (cases promotion; cases "the promotion") auto
  then show ?thesis
  proof cases
    case none
    with p start have e: "\<And>d. set (pending (tables L1) sid d) = set (pending (tables L) sid d)" "current = step"
        "pending (tables L) sid Steer = []"
      by (simp_all add: promotes_def startable_def)
    moreover have "pending (tables L1) sid Steer = []" using e(1) [of Steer] e(3) by (metis set_empty)
    ultimately show ?thesis using none by (simp add: waits_def len(2) e(1) [of Queue] len(1) [symmetric])
  next
    case steer
    with p have e: "pending (tables L1) sid Steer = []" "set (pending (tables L1) sid Queue) = set (pending (tables L) sid Queue)"
        "current = (if pending (tables L) sid Steer = [] then step else 1)"
      by (simp_all add: promotes_def)
    have "length (pending (tables L1) sid Queue) = length (pending (tables L) sid Queue)" by (simp add: len e(2))
    with steer e(1,3) show ?thesis by (simp add: waits_def)
  next
    case queue
    with p start obtain r where e: "pending (tables L1) sid Steer = []" "current = 1" "r \<in> set (pending (tables L) sid Queue)"
        "set (pending (tables L1) sid Queue) = set (pending (tables L) sid Queue) - {r}"
      by (auto simp: promotes_def startable_def)
    have "length (pending (tables L1) sid Queue) < length (pending (tables L) sid Queue)"
      unfolding len e(4) by (rule psubset_card_mono) (use e(3) in auto)
    with queue e(1,2) show ?thesis by (simp add: waits_def)
  qed
qed

lemma less_round: "w' < w \<Longrightarrow> a < limit + 2 \<Longrightarrow> w' * (limit + 2) + a < w * (limit + (2 :: nat))"
proof -
  assume w: "w' < w" and a: "a < limit + 2"
  have "w' * (limit + 2) + a < Suc w' * (limit + 2)" using a by simp
  also have "\<dots> \<le> w * (limit + 2)" by (rule mult_le_mono1) (use w in simp)
  finally show ?thesis .
qed

lemma turns_decrease:
  assumes waits: "if promotion = Some Queue \<or> steers then w' < w \<and> current = 1 else w' = w \<and> current = step"
    and limit: "needs \<longrightarrow> current < limit"
  shows "needs \<Longrightarrow> turns_left limit w' (Some Steer) (current + 1) < turns_left limit w promotion step"
    "turns_left limit w' (Some Queue) 1 < turns_left limit w promotion step \<or> promotion = Some Queue \<and> w' = w"
proof -
  show "turns_left limit w' (Some Steer) (current + 1) < turns_left limit w promotion step" if needs
  proof (cases "promotion = Some Queue \<or> steers")
    case True
    then have "w' < w" "current = 1" using waits by simp_all
    moreover have "w' * (limit + 2) + (limit + 1 - 2 + 1) < w * (limit + 2)"
      by (rule less_round [OF \<open>w' < w\<close>]) simp
    moreover have "turns_left limit w' (Some Steer) (1 + 1) = w' * (limit + 2) + (limit + 1 - 2 + 1)" by (simp add: turns_left_def)
    moreover have "w * (limit + 2) \<le> turns_left limit w promotion step" by (simp add: turns_left_def)
    ultimately show ?thesis by (metis order.strict_trans2)
  next
    case False
    with waits limit that show ?thesis by (simp add: turns_left_def)
  qed
  show "turns_left limit w' (Some Queue) 1 < turns_left limit w promotion step \<or> promotion = Some Queue \<and> w' = w"
  proof (cases "promotion = Some Queue \<or> steers")
    case True
    then have "w' < w" using waits by simp
    then show ?thesis using less_round [of w' w 0 limit] by (auto simp: turns_left_def)
  next
    case False
    with waits show ?thesis by (simp add: turns_left_def)
  qed
qed

lemma drain_returns:
  assumes quiet: "\<And>k. quiet_script (scripts k)" and limit: "rn_steps rn = Some n"
  shows "log_fifo L \<Longrightarrow> startable L sid promotion \<Longrightarrow> turns_left n (waits L sid) promotion step < fuel \<Longrightarrow>
    \<exists>res L'. drain c rn sid scripts fuel k promotion step L = Some (res, L') \<and>
      (res = Inr () \<longrightarrow> pending (tables L') sid Steer = [] \<and> pending (tables L') sid Queue = [])"
proof (induction fuel arbitrary: k promotion step L)
  case (Suc fuel)
  obtain rs at te where script: "scripts k = (rs, at, te)" by (metis prod_cases3)
  obtain res L1 where run: "run_turn c rn sid True promotion step (scripts k) L = (res, L1)" by fastforce
  show ?case
  proof (cases res)
    case (Inl e)
    with run show ?thesis by simp
  next
    case (Inr x)
    then obtain needs current where x: "res = Inr (needs, current)" by (cases x) auto
    have L1: "log_fifo L1 \<and> promotes promotion sid L L1 step current \<and> (needs \<longrightarrow> \<not> is_last_step rn current)"
      by (rule run_turn_facts [OF Suc.prems(1)]) (use run x quiet [of k] script in simp_all)
    then have w: "pending (tables L1) sid Steer = [] \<and>
        (if promotion = Some Queue \<or> pending (tables L) sid Steer \<noteq> [] then waits L1 sid < waits L sid \<and> current = 1
         else waits L1 sid = waits L sid \<and> current = step)"
      by (intro promotes_waits) (use Suc.prems in auto)
    have l: "needs \<longrightarrow> current < n" using L1 limit by (auto simp: is_last_step_def)
    note less = turns_decrease [OF w [THEN conjunct2] l]
    note IH = Suc.IH [OF L1 [THEN conjunct1]]
    have next_turn: "drain c rn sid scripts (Suc fuel) k promotion step L =
        (if needs then drain c rn sid scripts fuel (Suc k) (Some Steer) (current + 1) L1
         else if has_pending (tables L1) sid Queue then drain c rn sid scripts fuel (Suc k) (Some Queue) 1 L1
         else Some (Inr (), L1))"
      using run x w by (simp add: has_pending_def)
    consider (again) needs | (queue) "\<not> needs" "has_pending (tables L1) sid Queue" | (idle) "\<not> needs" "\<not> has_pending (tables L1) sid Queue"
      by blast
    then show ?thesis
    proof cases
      case again
      then show ?thesis unfolding next_turn using IH [of "Some Steer" "current + 1" "Suc k"] less(1) Suc.prems(3)
        by (simp add: startable_def)
    next
      case queue
      moreover have "turns_left n (waits L1 sid) (Some Queue) 1 < fuel" using less(2) Suc.prems(3) w by (auto split: if_split_asm)
      ultimately show ?thesis unfolding next_turn using IH [of "Some Queue" 1 "Suc k"]
        by (simp add: startable_def has_pending_def)
    next
      case idle
      then show ?thesis unfolding next_turn using w by (simp add: has_pending_def)
    qed
  qed
qed simp

text \<open>C7. A run returns: an agent with a step limit drains its session within as many turns as one round of steps
  for each input that waits and one more, however often turns are repeated after compaction, as long as the
  turns admit no further prompts; when it returns without an error nothing waits.\<close>

theorem run_returns:
  assumes L: "L = inbox_after c s ops" "list_all by_the_inbox ops"
    and turns: "\<And>k. quiet_script (scripts k)" "rn_steps rn = Some n" "(waits L sid + 1) * (n + 2) \<le> fuel"
  shows "\<exists>res L'. run c rn sid force now scripts fuel L = Some (res, L') \<and>
    (res = Inr () \<longrightarrow> \<not> has_pending (tables L') sid Steer \<and> \<not> has_pending (tables L') sid Queue)"
proof -
  let ?promotion = "if has_pending (tables L) sid Steer then Some Steer else if has_pending (tables L) sid Queue then Some Queue else None"
  obtain res1 L1 where failing: "fail_interrupted_tools c now sid L = (res1, L1)" by fastforce
  have "list_all quiet (map (\<lambda>b. \<lparr>se_metadata = None, se_session = sid, se_time = now, se_body = b\<rparr>) bs)"
    if "\<forall>b \<in> set bs. \<exists>a t. b = interrupted_body a t" for bs
    using that by (auto simp: list_all_iff interrupted_body_def)
  moreover have "\<exists>a t. b = interrupted_body a t" if "b \<in> set (interrupted_bodies m)" for b m
    using that by (cases m) auto
  ultimately have L1: "same_inbox L L1"
    by (intro publish_all_quiet [OF _ failing [unfolded fail_interrupted_tools_def]]) auto
  have "log_fifo L" using inbox_after_fifo [OF L(2)] L(1) by simp
  with L1 have fifo: "log_fifo L1" by (simp add: same_inbox_def)
  note same = same_inbox_pending [OF L1]
  have "turns_left n (waits L1 sid) ?promotion 1 < (waits L sid + 1) * (n + 2)" by (simp add: turns_left_def waits_def same)
  then have left: "turns_left n (waits L1 sid) ?promotion 1 < fuel" using turns(3) by simp
  have start: "startable L1 sid ?promotion" by (simp add: startable_def has_pending_def same)
  from drain_returns [where scripts = scripts and c = c and k = 0, OF turns(1,2) fifo start left] obtain res L' where
    "drain c rn sid scripts fuel 0 ?promotion 1 L1 = Some (res, L')"
    "res = Inr () \<longrightarrow> pending (tables L') sid Steer = [] \<and> pending (tables L') sid Queue = []" by blast
  then show ?thesis
    by (cases res1) (auto simp: run_def Let_def failing has_pending_def split: if_splits)
qed

definition demo_runner :: runner where
  "demo_runner = \<lparr>rn_directory = lit ''/d'', rn_workspace = None, rn_steps = Some 1, rn_unpack = unpack_entries\<rparr>"

definition demo_script :: "nat \<Rightarrow> turn_script" where
  \<comment> \<open>a first turn compacts and calls a tool, later ones just answer\<close>
  "demo_script k =
    (let at = \<lparr>at_context = Inr [], at_message = lit ''m'', at_now = 5, at_events = []\<rparr>
     in (if k = 0 then [(at, After_Compaction)] else [], at, \<lparr>te_local_call = k = 0, te_provider_error = False, te_failed = False\<rparr>))"

definition demo_queue :: "inbox_op list" where
  "demo_queue = [Admit 1 (lit ''a'') (lit ''s'') (demo_prompt ''one'') Queue, Admit 2 (lit ''b'') (lit ''s'') (demo_prompt ''two'') Queue,
     Admit 3 (lit ''c'') (lit ''s'') (demo_prompt ''three'') Steer]"

lemma run_returns_witness:
  "\<exists>L'. run demo_codec demo_runner (lit ''s'') False 4 demo_script 12 (inbox_after demo_codec demo_sessions demo_queue) = Some (Inr (), L') \<and>
     map in_promoted (input_table (tables L')) = [Some 4, Some 5, Some 3] \<and> \<not> has_pending (tables L') (lit ''s'') Queue"
proof -
  let ?L = "inbox_after demo_codec demo_sessions demo_queue"
  let ?run = "run demo_codec demo_runner (lit ''s'') False 4 demo_script 12 ?L"
  have ops: "list_all by_the_inbox demo_queue" by code_simp
  have script: "quiet_script (demo_script k)" for k by (simp add: demo_script_def Let_def)
  have fuel: "(waits ?L (lit ''s'') + 1) * (1 + 2) \<le> 12" by code_simp
  have out: "map_option (\<lambda>(r, L'). (r, map in_promoted (input_table (tables L')))) ?run = Some (Inr (), [Some 4, Some 5, Some 3])" by code_simp
  have "rn_steps demo_runner = Some 1" by (simp add: demo_runner_def)
  from run_returns [where scripts = demo_script, OF refl ops script this fuel, of False 4] obtain res L' where
    "?run = Some (res, L')" "res = Inr () \<longrightarrow> \<not> has_pending (tables L') (lit ''s'') Steer \<and> \<not> has_pending (tables L') (lit ''s'') Queue"
    by blast
  with out show ?thesis by auto
qed

end
