(* ===== verification/AttemptLog.thy ===== *)
theory AttemptLog imports AttemptProps Projection SessionDrain begin

text \<open>
  An attempt as part of a run: its answer to whether another turn is needed is the one the drain works with, and
  its events, published into the log, leave a history in the database whose request answers every call.
\<close>

section \<open>The drain's view of an attempt\<close>

definition end_of :: "attempt_result \<Rightarrow> turn_end" where
  "end_of res = \<lparr>te_local_call = (res = Ends True), te_provider_error = False, te_failed = (res = Fails)\<rparr>"

lemma receive_last_step: "\<not> as_needs st \<Longrightarrow> \<not> as_needs (receive inp False e st)"
  by (auto simp: receive_def split: prod.split sum.split option.split)

lemma tool_needs: "as_needs (tool_step inp a st) = as_needs st"
  by (cases a) (auto simp: leave_def split: prod.split sum.split option.split)

lemma fold_tool_needs: "as_needs (fold (tool_step inp) ts st) = as_needs st"
  by (induction ts arbitrary: st) (simp_all add: tool_needs)

lemma fold_last_step: "\<not> as_needs st \<Longrightarrow> \<not> as_needs (fold (stream_step inp False) as st)"
proof (induction as arbitrary: st)
  case (Cons a as)
  then have "\<not> as_needs (stream_step inp False a st)" by (cases a) (simp_all add: receive_last_step tool_needs)
  with Cons.IH show ?case by simp
qed simp

lemma last_step_ends:
  assumes "run_attempt inp False sc = Some (res, s)"
  shows "res \<noteq> Ends True"
proof -
  have "\<not> as_needs (fold (stream_step inp False) (sc_stream sc) new_attempt)"
    by (rule fold_last_step) (simp add: new_attempt_def)
  with assms show ?thesis
    by (auto simp: run_attempt_def Let_def fold_tool_needs split: prod.split_asm if_split_asm sum.split_asm option.split_asm)
qed

lemma attempt_in_the_drain:
  assumes "run_attempt inp (\<not> is_last_step rn step) sc = Some (Ends b, s)"
  shows "needs_continuation rn (end_of (Ends b)) step = b"
  using assms last_step_ends [of inp sc "Ends b" s] by (cases "is_last_step rn step"; cases b) (auto simp: needs_continuation_def end_of_def)

section \<open>Publishing the events of a turn\<close>








end
