(* ===== verification/BackgroundJob.thy ===== *)
theory BackgroundJob imports LlmEvents begin

text \<open>
  The registry of background jobs (packages/core/src/background-job.ts). A job is a chain of pieces: \<open>extend\<close> adds
  one that awaits the tail of the piece before it. A change of the \<open>SynchronizedRef\<close> and the completion of the
  deferreds right behind it is one step; a piece is a fiber whose work ends in one step and whose exit is settled in
  a later one. The owner of the registry may close the scope it was made in: every fiber is then interrupted, and may
  end without having settled its job. Deferreds and scopes are named after the token of their job, tails after their
  piece. Reads of the clock are arguments.
\<close>

section \<open>State\<close>

datatype job_status = Job_Running | Job_Completed | Job_Error | Job_Cancelled

record job_info =
  ji_id :: jstring
  ji_type :: jstring
  ji_title :: "jstring option"
  ji_status :: job_status
  ji_started_at :: int
  ji_completed_at :: "int option"
  ji_output :: "jstring option"
  ji_error :: "jstring option"
  ji_metadata :: "metadata option"

datatype job_exit = Piece_Ok jstring | Piece_Interrupted jstring \<comment> \<open>with interrupts only\<close> | Piece_Failed jstring
  \<comment> \<open>a failure with the text of its squashed cause\<close>

record 'c active_job =
  aj_info :: job_info
  aj_token :: nat \<comment> \<open>also names \<open>done\<close>, \<open>promoted\<close> and \<open>scope\<close>\<close>
  aj_pending :: nat
  aj_next :: nat
  aj_output :: "(nat \<times> jstring) option"
  aj_tail :: nat
  aj_on_promote :: "'c option"

datatype piece_phase = Blocked | Working | Ran job_exit | Settled job_exit | Lost \<comment> \<open>interrupted with the registry, not settled\<close>

record job_piece =
  pc_job :: jstring
  pc_token :: nat
  pc_sequence :: nat
  pc_previous :: "nat option"
  pc_phase :: piece_phase

record 'c job_registry =
  jr_jobs :: "(jstring, 'c active_job) jsmap"
  jr_pieces :: "nat \<rightharpoonup> job_piece" \<comment> \<open>by their tail\<close>
  jr_done :: "nat \<rightharpoonup> job_info"
  jr_promoted :: "nat \<rightharpoonup> job_info"
  jr_closed :: "nat \<Rightarrow> bool" \<comment> \<open>scopes that are closed or closing: their fibers are interrupted\<close>
  jr_shut :: bool \<comment> \<open>the scope that owns the registry is closed\<close>
  jr_next_token :: nat
  jr_next_tail :: nat
  jr_called :: "'c list" \<comment> \<open>the \<open>onPromote\<close> effects that ran\<close>

definition new_registry :: "'c job_registry" where
  "new_registry = \<lparr>jr_jobs = [], jr_pieces = Map.empty, jr_done = Map.empty, jr_promoted = Map.empty, jr_closed = (\<lambda>_. False),
     jr_shut = False, jr_next_token = 0, jr_next_tail = 0, jr_called = []\<rparr>"

record 'c start_input =
  si_id :: "jstring option"
  si_type :: jstring
  si_title :: "jstring option"
  si_metadata :: "metadata option"
  si_on_promote :: "'c option"

section \<open>Operations\<close>

definition complete_info :: "(nat \<rightharpoonup> job_info) \<Rightarrow> nat \<Rightarrow> job_info \<Rightarrow> nat \<rightharpoonup> job_info" where
  \<comment> \<open>a deferred keeps its first value\<close>
  "complete_info ds t i = (case ds t of None \<Rightarrow> ds(t \<mapsto> i) | Some _ \<Rightarrow> ds)"

definition is_running :: "'c active_job \<Rightarrow> bool" where
  "is_running job \<longleftrightarrow> ji_status (aj_info job) = Job_Running"

definition snapshot_of :: "'c active_job \<Rightarrow> job_info" where
  "snapshot_of job = aj_info job"

definition fork_piece :: "jstring \<Rightarrow> nat \<Rightarrow> nat \<Rightarrow> nat option \<Rightarrow> 'c job_registry \<Rightarrow> 'c job_registry" where
  \<comment> \<open>under the tail that was just made\<close>
  "fork_piece i t sq prev jr = jr\<lparr>jr_pieces := (jr_pieces jr)(jr_next_tail jr \<mapsto>
       \<lparr>pc_job = i, pc_token = t, pc_sequence = sq, pc_previous = prev, pc_phase = Blocked\<rparr>), jr_next_tail := Suc (jr_next_tail jr)\<rparr>"

definition new_job :: "jstring \<Rightarrow> int \<Rightarrow> 'c start_input \<Rightarrow> 'c job_registry \<Rightarrow> 'c active_job" where
  "new_job i now inp jr = \<lparr>aj_info = \<lparr>ji_id = i, ji_type = si_type inp, ji_title = si_title inp, ji_status = Job_Running,
       ji_started_at = now, ji_completed_at = None, ji_output = None, ji_error = None, ji_metadata = si_metadata inp\<rparr>,
     aj_token = jr_next_token jr, aj_pending = 1, aj_next = 1, aj_output = None, aj_tail = jr_next_tail jr,
     aj_on_promote = si_on_promote inp\<rparr>"

definition start_job :: "jstring \<Rightarrow> int \<Rightarrow> 'c start_input \<Rightarrow> 'c job_registry \<Rightarrow> job_info \<times> 'c job_registry" where
  \<comment> \<open>\<open>fresh\<close> is the identifier made where the input has none\<close>
  "start_job fresh now inp jr =
    (let i = (case si_id inp of Some i \<Rightarrow> i | None \<Rightarrow> fresh); job = new_job i now inp jr in
     case map_of (jr_jobs jr) i of
       Some ex \<Rightarrow>
         if is_running ex then (snapshot_of ex, jr)
         else (snapshot_of job, fork_piece i (jr_next_token jr) 0 None
                (jr\<lparr>jr_jobs := map_set (jr_jobs jr) i job, jr_next_token := Suc (jr_next_token jr)\<rparr>))
     | None \<Rightarrow> (snapshot_of job, fork_piece i (jr_next_token jr) 0 None
                (jr\<lparr>jr_jobs := map_set (jr_jobs jr) i job, jr_next_token := Suc (jr_next_token jr)\<rparr>)))"

definition extend_job :: "jstring \<Rightarrow> 'c job_registry \<Rightarrow> bool \<times> 'c job_registry" where
  "extend_job i jr =
    (case map_of (jr_jobs jr) i of
       None \<Rightarrow> (False, jr)
     | Some job \<Rightarrow>
         if \<not> is_running job then (False, jr)
         else (True, fork_piece i (aj_token job) (aj_next job) (Some (aj_tail job))
                (jr\<lparr>jr_jobs := map_set (jr_jobs jr) i (job\<lparr>aj_pending := aj_pending job + 1, aj_next := aj_next job + 1,
                     aj_tail := jr_next_tail jr\<rparr>)\<rparr>)))"

definition finish_job :: "jstring \<Rightarrow> 'c active_job \<Rightarrow> 'c job_registry \<Rightarrow> job_info option \<times> 'c job_registry" where
  \<comment> \<open>the entry of a job that ended, its waiters answered and its scope closed\<close>
  "finish_job i job jr = (Some (snapshot_of job), jr\<lparr>jr_jobs := map_set (jr_jobs jr) i job,
     jr_done := complete_info (jr_done jr) (aj_token job) (snapshot_of job), jr_closed := (jr_closed jr)(aj_token job := True)\<rparr>)"

definition latest_output :: "(nat \<times> jstring) option \<Rightarrow> nat \<Rightarrow> job_exit \<Rightarrow> (nat \<times> jstring) option" where
  "latest_output old sq x =
    (case x of
       Piece_Ok s \<Rightarrow> (case old of None \<Rightarrow> Some (sq, s) | Some (sq', s') \<Rightarrow> if sq > sq' then Some (sq, s) else old)
     | _ \<Rightarrow> old)"

definition exit_status :: "job_exit \<Rightarrow> job_status" where
  "exit_status x = (case x of Piece_Ok _ \<Rightarrow> Job_Completed | Piece_Interrupted _ \<Rightarrow> Job_Cancelled | Piece_Failed _ \<Rightarrow> Job_Error)"

definition exit_error :: "job_exit \<Rightarrow> jstring option \<Rightarrow> jstring option" where
  "exit_error x old = (case x of Piece_Ok _ \<Rightarrow> old | Piece_Interrupted e \<Rightarrow> Some e | Piece_Failed e \<Rightarrow> Some e)"

definition is_ok :: "job_exit \<Rightarrow> bool" where
  "is_ok x = (case x of Piece_Ok _ \<Rightarrow> True | _ \<Rightarrow> False)"

definition settle_job :: "jstring \<Rightarrow> nat \<Rightarrow> nat \<Rightarrow> job_exit \<Rightarrow> int \<Rightarrow> 'c job_registry \<Rightarrow> job_info option \<times> 'c job_registry" where
  "settle_job i t sq x now jr =
    (case map_of (jr_jobs jr) i of
       None \<Rightarrow> (None, jr)
     | Some job \<Rightarrow>
         if aj_token job \<noteq> t then (None, jr)
         else if \<not> is_running job then (Some (snapshot_of job), jr)
         else
           let pending = aj_pending job - 1; out = latest_output (aj_output job) sq x in
           if is_ok x \<and> pending > 0 then (None, jr\<lparr>jr_jobs := map_set (jr_jobs jr) i (job\<lparr>aj_pending := pending, aj_output := out\<rparr>)\<rparr>)
           else finish_job i (job\<lparr>aj_on_promote := None, aj_pending := 0, aj_output := out,
                  aj_info := (aj_info job)\<lparr>ji_status := exit_status x, ji_completed_at := Some now,
                    ji_output := (case out of Some (_, s) \<Rightarrow> Some s | None \<Rightarrow> ji_output (aj_info job)),
                    ji_error := exit_error x (ji_error (aj_info job))\<rparr>\<rparr>) jr)"

definition list_jobs :: "'c job_registry \<Rightarrow> job_info list" where
  "list_jobs jr = sort_key ji_started_at (map (\<lambda>e. snapshot_of (snd e)) (jr_jobs jr))"

definition get_job :: "jstring \<Rightarrow> 'c job_registry \<Rightarrow> job_info option" where
  "get_job i jr = map_option snapshot_of (map_of (jr_jobs jr) i)"

datatype job_wait =
    Wait_Now "job_info option" bool \<comment> \<open>\<open>info\<close> and \<open>timedOut\<close>\<close>
  | Wait_Done nat \<comment> \<open>until the job of the token is done\<close>
  | Wait_Timeout nat int job_info \<comment> \<open>at most so long, and then what to say\<close>

definition wait_job :: "jstring \<Rightarrow> int option \<Rightarrow> 'c job_registry \<Rightarrow> job_wait" where
  "wait_job i timeout jr =
    (case map_of (jr_jobs jr) i of
       None \<Rightarrow> Wait_Now None False
     | Some job \<Rightarrow>
         if \<not> is_running job then Wait_Now (Some (snapshot_of job)) False
         else (case timeout of
                 None \<Rightarrow> Wait_Done (aj_token job)
               | Some ms \<Rightarrow> if ms \<le> 0 then Wait_Now (Some (snapshot_of job)) True else Wait_Timeout (aj_token job) ms (snapshot_of job)))"

definition backgrounded :: "'c active_job \<Rightarrow> bool" where
  "backgrounded job \<longleftrightarrow> Option.bind (ji_metadata (aj_info job)) (\<lambda>md. map_of md (lit ''background'')) = Some (JBool True)"

datatype promotion_wait = Promotion_Never | Promotion_Now job_info | Promotion_Awaited nat

definition wait_for_promotion :: "jstring \<Rightarrow> 'c job_registry \<Rightarrow> promotion_wait" where
  "wait_for_promotion i jr =
    (case map_of (jr_jobs jr) i of
       None \<Rightarrow> Promotion_Never
     | Some job \<Rightarrow>
         if \<not> is_running job then Promotion_Never
         else if backgrounded job then Promotion_Now (snapshot_of job)
         else Promotion_Awaited (aj_token job))"

definition promote_job :: "jstring \<Rightarrow> 'c job_registry \<Rightarrow> job_info option \<times> 'c job_registry" where
  "promote_job i jr =
    (case map_of (jr_jobs jr) i of
       None \<Rightarrow> (None, jr)
     | Some job \<Rightarrow>
         if \<not> is_running job then (None, jr)
         else if backgrounded job then (Some (snapshot_of job), jr)
         else
           let md = (case ji_metadata (aj_info job) of Some md \<Rightarrow> md | None \<Rightarrow> []);
               nxt = job\<lparr>aj_on_promote := None, aj_info := (aj_info job)\<lparr>ji_metadata := Some (map_set md (lit ''background'') (JBool True))\<rparr>\<rparr>
           in (Some (snapshot_of nxt), jr\<lparr>jr_jobs := map_set (jr_jobs jr) i nxt,
                jr_promoted := complete_info (jr_promoted jr) (aj_token job) (snapshot_of nxt),
                jr_called := jr_called jr @ (case aj_on_promote job of Some c \<Rightarrow> [c] | None \<Rightarrow> [])\<rparr>))"

definition cancel_job :: "jstring \<Rightarrow> int \<Rightarrow> 'c job_registry \<Rightarrow> job_info option \<times> 'c job_registry" where
  "cancel_job i now jr =
    (case map_of (jr_jobs jr) i of
       None \<Rightarrow> (None, jr)
     | Some job \<Rightarrow>
         if \<not> is_running job then (Some (snapshot_of job), jr)
         else finish_job i (job\<lparr>aj_on_promote := None, aj_pending := 0,
                aj_info := (aj_info job)\<lparr>ji_status := Job_Cancelled, ji_completed_at := Some now\<rparr>\<rparr>) jr)"

definition close_registry :: "'c job_registry \<Rightarrow> 'c job_registry" where
  \<comment> \<open>the owner closes the scope the registry was made in, and with it those of the jobs; entries stay as they are\<close>
  "close_registry jr = jr\<lparr>jr_shut := True\<rparr>"

definition scope_closed :: "'c job_registry \<Rightarrow> nat \<Rightarrow> bool" where
  "scope_closed jr t \<longleftrightarrow> jr_closed jr t \<or> jr_shut jr"

section \<open>Pieces\<close>

definition set_phase :: "nat \<Rightarrow> piece_phase \<Rightarrow> 'c job_registry \<Rightarrow> 'c job_registry" where
  "set_phase p ph jr = jr\<lparr>jr_pieces := (jr_pieces jr)(p := map_option (\<lambda>pc. pc\<lparr>pc_phase := ph\<rparr>) (jr_pieces jr p))\<rparr>"

definition tail_open :: "'c job_registry \<Rightarrow> nat \<Rightarrow> bool" where
  \<comment> \<open>the tail is completed where the work of the piece ends\<close>
  "tail_open jr p = (case jr_pieces jr p of
     Some pc \<Rightarrow> (case pc_phase pc of Ran _ \<Rightarrow> True | Settled _ \<Rightarrow> True | Lost \<Rightarrow> True | _ \<Rightarrow> False) | None \<Rightarrow> False)"

definition may_begin :: "'c job_registry \<Rightarrow> job_piece \<Rightarrow> bool" where
  "may_begin jr pc \<longleftrightarrow> (case pc_previous pc of None \<Rightarrow> True | Some p \<Rightarrow> tail_open jr p)"

definition settle_piece :: "nat \<Rightarrow> int \<Rightarrow> 'c job_registry \<Rightarrow> 'c job_registry" where
  "settle_piece p now jr =
    (case jr_pieces jr p of
       Some pc \<Rightarrow>
         (case pc_phase pc of
            Ran x \<Rightarrow> set_phase p (Settled x) (snd (settle_job (pc_job pc) (pc_token pc) (pc_sequence pc) x now jr))
          | _ \<Rightarrow> jr)
     | None \<Rightarrow> jr)"

inductive piece_step :: "'c job_registry \<Rightarrow> 'c job_registry \<Rightarrow> bool" where
  step_begin_piece: "jr_pieces jr p = Some pc \<Longrightarrow> pc_phase pc = Blocked \<Longrightarrow> may_begin jr pc \<Longrightarrow> piece_step jr (set_phase p Working jr)"
| step_end_piece: "jr_pieces jr p = Some pc \<Longrightarrow> pc_phase pc = Working \<Longrightarrow> piece_step jr (set_phase p (Ran x) jr)"
| step_interrupt_piece: "jr_pieces jr p = Some pc \<Longrightarrow> pc_phase pc = Blocked \<Longrightarrow> scope_closed jr (pc_token pc) \<Longrightarrow>
    piece_step jr (set_phase p (Ran (Piece_Interrupted e)) jr)"
| step_settle: "jr_pieces jr p = Some pc \<Longrightarrow> pc_phase pc = Ran x \<Longrightarrow> piece_step jr (settle_piece p now jr)"
| step_lose_piece: "jr_pieces jr p = Some pc \<Longrightarrow> pc_phase pc \<noteq> Lost \<Longrightarrow> \<forall>x. pc_phase pc \<noteq> Settled x \<Longrightarrow> jr_shut jr \<Longrightarrow>
    piece_step jr (set_phase p Lost jr)"

inductive job_step :: "'c job_registry \<Rightarrow> 'c job_registry \<Rightarrow> bool" where
  step_start: "job_step jr (snd (start_job fresh now inp jr))"
| step_extend: "job_step jr (snd (extend_job i jr))"
| step_promote: "job_step jr (snd (promote_job i jr))"
| step_cancel_job: "job_step jr (snd (cancel_job i now jr))"
| step_close: "job_step jr (close_registry jr)"
| step_piece: "piece_step jr jr' \<Longrightarrow> job_step jr jr'"

inductive_cases piece_stepE: "piece_step jr jr'"
inductive_cases job_stepE: "job_step jr jr'"

inductive job_reachable :: "'c job_registry \<Rightarrow> bool" where
  reach_registry: "job_reachable new_registry"
| reach_job_step: "job_reachable jr \<Longrightarrow> job_step jr jr' \<Longrightarrow> job_reachable jr'"

end
