(* ===== verification/BackgroundJobInv.thy ===== *)
theory BackgroundJobInv imports BackgroundJob begin

text \<open>
  The invariant of the registry of background jobs: the pieces of a job are a chain in the order of their
  sequence, the book of a running job counts the pieces that are not settled and holds the output of the latest one
  that is, a completed job has the output of its last piece, and a job whose waiters are not answered runs.
\<close>

section \<open>The pieces of a job\<close>

definition pieces_of :: "'c job_registry \<Rightarrow> nat \<Rightarrow> nat list" where
  "pieces_of jr t = filter (\<lambda>p. case jr_pieces jr p of Some pc \<Rightarrow> pc_token pc = t | None \<Rightarrow> False) [0..<jr_next_tail jr]"

definition phase_of :: "'c job_registry \<Rightarrow> nat \<Rightarrow> piece_phase option" where
  "phase_of jr p = map_option pc_phase (jr_pieces jr p)"

definition settled :: "'c job_registry \<Rightarrow> nat \<Rightarrow> bool" where
  "settled jr p \<longleftrightarrow> (\<exists>x. phase_of jr p = Some (Settled x))"

definition tails_known :: "'c job_registry \<Rightarrow> bool" where
  "tails_known jr \<longleftrightarrow> (\<forall>p \<ge> jr_next_tail jr. jr_pieces jr p = None) \<and> (\<forall>p pc. jr_pieces jr p = Some pc \<longrightarrow> pc_token pc < jr_next_token jr) \<and>
     (\<forall>t \<ge> jr_next_token jr. jr_done jr t = None \<and> \<not> jr_closed jr t)"

definition chained :: "'c job_registry \<Rightarrow> nat \<Rightarrow> bool" where
  "chained jr t \<longleftrightarrow> (\<forall>k < length (pieces_of jr t). \<exists>pc. jr_pieces jr (pieces_of jr t ! k) = Some pc \<and> pc_sequence pc = k \<and>
     pc_previous pc = (if k = 0 then None else Some (pieces_of jr t ! (k - 1))))"

definition output_book :: "'c job_registry \<Rightarrow> nat list \<Rightarrow> (nat \<times> jstring) option \<Rightarrow> bool" where
  "output_book jr ps out = (case out of
     None \<Rightarrow> (\<forall>p \<in> set ps. \<not> settled jr p)
   | Some (k, s) \<Rightarrow> k < length ps \<and> phase_of jr (ps ! k) = Some (Settled (Piece_Ok s)) \<and> (\<forall>l < length ps. settled jr (ps ! l) \<longrightarrow> l \<le> k))"

definition running_book :: "'c job_registry \<Rightarrow> 'c active_job \<Rightarrow> bool" where
  "running_book jr job \<longleftrightarrow> (let ps = pieces_of jr (aj_token job) in
     jr_done jr (aj_token job) = None \<and> \<not> jr_closed jr (aj_token job) \<and> (\<exists>p \<in> set ps. \<not> settled jr p) \<and>
     aj_pending job = length (filter (\<lambda>p. \<not> settled jr p) ps) \<and> output_book jr ps (aj_output job) \<and>
     (\<forall>p \<in> set ps. \<forall>x. phase_of jr p = Some (Settled x) \<longrightarrow> is_ok x))"

definition completed_book :: "'c job_registry \<Rightarrow> 'c active_job \<Rightarrow> bool" where
  "completed_book jr job \<longleftrightarrow> (let ps = pieces_of jr (aj_token job) in
     (\<forall>p \<in> set ps. \<exists>s. phase_of jr p = Some (Settled (Piece_Ok s))) \<and>
     (\<exists>s. phase_of jr (last ps) = Some (Settled (Piece_Ok s)) \<and> ji_output (aj_info job) = Some s))"

definition job_book :: "'c job_registry \<Rightarrow> jstring \<Rightarrow> 'c active_job \<Rightarrow> bool" where
  "job_book jr i job \<longleftrightarrow> (let ps = pieces_of jr (aj_token job) in
     aj_token job < jr_next_token jr \<and> ps \<noteq> [] \<and> aj_next job = length ps \<and> aj_tail job = last ps \<and>
     (\<forall>p \<in> set ps. map_option pc_job (jr_pieces jr p) = Some i) \<and>
     (is_running job \<longrightarrow> running_book jr job) \<and>
     (\<not> is_running job \<longrightarrow> jr_done jr (aj_token job) \<noteq> None) \<and>
     (ji_status (aj_info job) = Job_Completed \<longrightarrow> completed_book jr job))"

definition one_key :: "'c job_registry \<Rightarrow> bool" where
  "one_key jr \<longleftrightarrow> (\<forall>i j a b. map_of (jr_jobs jr) i = Some a \<longrightarrow> map_of (jr_jobs jr) j = Some b \<longrightarrow> aj_token a = aj_token b \<longrightarrow> i = j)"

definition runs_under :: "'c job_registry \<Rightarrow> nat \<Rightarrow> bool" where
  "runs_under jr t \<longleftrightarrow> (\<exists>i job. map_of (jr_jobs jr) i = Some job \<and> is_running job \<and> aj_token job = t)"

definition in_turn :: "'c job_registry \<Rightarrow> bool" where
  "in_turn jr \<longleftrightarrow> (\<forall>p pc q. jr_pieces jr p = Some pc \<longrightarrow> pc_previous pc = Some q \<longrightarrow> \<not> scope_closed jr (pc_token pc) \<longrightarrow>
     pc_phase pc \<noteq> Blocked \<longrightarrow> tail_open jr q)"

definition job_inv :: "'c job_registry \<Rightarrow> bool" where
  "job_inv jr \<longleftrightarrow> tails_known jr \<and> (\<forall>t. chained jr t) \<and> (\<forall>i job. map_of (jr_jobs jr) i = Some job \<longrightarrow> job_book jr i job) \<and>
     one_key jr \<and> (\<forall>t < jr_next_token jr. jr_done jr t = None \<longrightarrow> runs_under jr t) \<and> in_turn jr"

section \<open>What operations leave alone\<close>

lemma job_book_frame:
  assumes "job_book jr i job" "pieces_of jr' (aj_token job) = pieces_of jr (aj_token job)"
    "\<And>p. p \<in> set (pieces_of jr (aj_token job)) \<Longrightarrow> jr_pieces jr' p = jr_pieces jr p"
    "jr_done jr' (aj_token job) = jr_done jr (aj_token job)" "jr_closed jr' (aj_token job) = jr_closed jr (aj_token job)"
    "jr_next_token jr \<le> jr_next_token jr'"
  shows "job_book jr' i job"
proof -
  let ?ps = "pieces_of jr (aj_token job)"
  have phases: "phase_of jr' p = phase_of jr p" "settled jr' p = settled jr p" if "p \<in> set ?ps" for p
    using assms(3) [OF that] by (simp_all add: phase_of_def settled_def)
  then have "filter (\<lambda>p. \<not> settled jr' p) ?ps = filter (\<lambda>p. \<not> settled jr p) ?ps"
    by (intro filter_cong) simp_all
  moreover have "output_book jr' ?ps out = output_book jr ?ps out" for out
    using phases by (auto simp: output_book_def split: option.split)
  moreover have "?ps \<noteq> []" using assms(1) by (simp add: job_book_def Let_def)
  ultimately show ?thesis
    using assms phases by (simp add: job_book_def running_book_def completed_book_def Let_def)
qed

lemma pieces_of_fork [simp]:
  assumes "tails_known jr"
  shows "pieces_of (fork_piece i t sq prev jr) t' = pieces_of jr t' @ (if t' = t then [jr_next_tail jr] else [])"
proof -
  have "filter (\<lambda>p. case jr_pieces (fork_piece i t sq prev jr) p of Some pc \<Rightarrow> pc_token pc = t' | None \<Rightarrow> False) [0..<jr_next_tail jr]
      = filter (\<lambda>p. case jr_pieces jr p of Some pc \<Rightarrow> pc_token pc = t' | None \<Rightarrow> False) [0..<jr_next_tail jr]"
    by (intro filter_cong) (auto simp: fork_piece_def)
  then show ?thesis by (simp add: pieces_of_def) (simp add: fork_piece_def)
qed

lemma pieces_of_phase [simp]: "pieces_of (set_phase p ph jr) t = pieces_of jr t"
  unfolding pieces_of_def set_phase_def by (intro filter_cong) (auto split: option.split)

lemma in_pieces_of:
  "tails_known jr \<Longrightarrow> p \<in> set (pieces_of jr t) \<longleftrightarrow> (\<exists>pc. jr_pieces jr p = Some pc \<and> pc_token pc = t)"
  unfolding pieces_of_def tails_known_def
  by (cases "jr_pieces jr p"; cases "p < jr_next_tail jr") auto

lemma distinct_pieces_of [simp]: "distinct (pieces_of jr t)"
  by (simp add: pieces_of_def)

lemma fork_selectors [simp]:
  "jr_jobs (fork_piece i t sq prev jr) = jr_jobs jr" "jr_done (fork_piece i t sq prev jr) = jr_done jr"
  "jr_closed (fork_piece i t sq prev jr) = jr_closed jr" "jr_next_token (fork_piece i t sq prev jr) = jr_next_token jr"
  "jr_pieces (fork_piece i t sq prev jr) p = (if p = jr_next_tail jr
     then Some \<lparr>pc_job = i, pc_token = t, pc_sequence = sq, pc_previous = prev, pc_phase = Blocked\<rparr> else jr_pieces jr p)"
  "jr_next_tail (fork_piece i t sq prev jr) = Suc (jr_next_tail jr)" "jr_shut (fork_piece i t sq prev jr) = jr_shut jr"
  "scope_closed (fork_piece i t sq prev jr) = scope_closed jr"
  by (simp_all add: fork_piece_def scope_closed_def fun_eq_iff)

lemma phase_selectors [simp]:
  "jr_jobs (set_phase p ph jr) = jr_jobs jr" "jr_done (set_phase p ph jr) = jr_done jr"
  "jr_closed (set_phase p ph jr) = jr_closed jr" "jr_next_token (set_phase p ph jr) = jr_next_token jr"
  "jr_next_tail (set_phase p ph jr) = jr_next_tail jr" "jr_shut (set_phase p ph jr) = jr_shut jr"
  "scope_closed (set_phase p ph jr) = scope_closed jr"
  "jr_pieces (set_phase p ph jr) q = (if q = p then map_option (\<lambda>pc. pc\<lparr>pc_phase := ph\<rparr>) (jr_pieces jr p) else jr_pieces jr q)"
  by (simp_all add: set_phase_def scope_closed_def fun_eq_iff)

lemma scope_closed_update [simp]:
  "scope_closed (jr_jobs_update f jr) = scope_closed jr" "scope_closed (jr_next_token_update k jr) = scope_closed jr"
  "scope_closed (jr_promoted_update g jr) = scope_closed jr" "scope_closed (jr_called_update c jr) = scope_closed jr"
  by (simp_all add: scope_closed_def fun_eq_iff)

lemma pieces_of_update [simp]:
  "pieces_of (jr_jobs_update f jr) t = pieces_of jr t" "pieces_of (jr_done_update g jr) t = pieces_of jr t"
  "pieces_of (jr_closed_update h jr) t = pieces_of jr t" "pieces_of (jr_next_token_update k jr) t = pieces_of jr t"
  "pieces_of (jr_promoted_update g jr) t = pieces_of jr t" "pieces_of (jr_called_update c jr) t = pieces_of jr t"
  by (simp_all add: pieces_of_def)

lemma phase_of_update [simp]:
  "phase_of (jr_jobs_update f jr) p = phase_of jr p" "settled (jr_jobs_update f jr) p = settled jr p"
  "phase_of (jr_done_update g jr) p = phase_of jr p" "settled (jr_done_update g jr) p = settled jr p"
  "phase_of (jr_closed_update h jr) p = phase_of jr p" "settled (jr_closed_update h jr) p = settled jr p"
  "phase_of (jr_promoted_update g jr) p = phase_of jr p" "settled (jr_promoted_update g jr) p = settled jr p"
  "phase_of (jr_called_update c jr) p = phase_of jr p" "settled (jr_called_update c jr) p = settled jr p"
  "phase_of (jr_next_token_update k jr) p = phase_of jr p" "settled (jr_next_token_update k jr) p = settled jr p"
  "phase_of (set_phase q ph jr) p = (if p = q \<and> jr_pieces jr q \<noteq> None then Some ph else phase_of jr p)"
  by (auto simp: phase_of_def settled_def)

lemma output_book_update [simp]:
  "output_book (jr_jobs_update f jr) ps out = output_book jr ps out" "output_book (jr_done_update g jr) ps out = output_book jr ps out"
  "output_book (jr_closed_update h jr) ps out = output_book jr ps out" "output_book (jr_called_update c jr) ps out = output_book jr ps out"
  "output_book (jr_promoted_update g jr) ps out = output_book jr ps out"
  by (cases out; simp add: output_book_def)+

lemma chained_update [simp]:
  "chained (jr_jobs_update f jr) t = chained jr t" "chained (jr_done_update g jr) t = chained jr t"
  "chained (jr_closed_update h jr) t = chained jr t" "chained (jr_next_token_update k jr) t = chained jr t"
  "chained (jr_promoted_update g jr) t = chained jr t" "chained (jr_called_update c jr) t = chained jr t"
  by (simp_all add: chained_def)

lemma chained_phase [simp]: "chained jr t \<Longrightarrow> chained (set_phase p ph jr) t"
  unfolding chained_def pieces_of_phase by (auto simp: set_phase_def)

lemma fresh_token:
  assumes "tails_known jr" "jr_next_token jr \<le> t"
  shows "pieces_of jr t = []"
proof -
  have "p \<notin> set (pieces_of jr t)" for p
    unfolding in_pieces_of [OF assms(1)] using assms by (force simp: tails_known_def)
  then show ?thesis by (metis last_in_set)
qed

lemma tail_open_phase: "tail_open jr p \<longleftrightarrow> phase_of jr p = Some Lost \<or> (\<exists>x. phase_of jr p = Some (Ran x) \<or> phase_of jr p = Some (Settled x))"
  by (auto simp: tail_open_def phase_of_def split: option.split piece_phase.split)

section \<open>Starting and extending\<close>

lemma job_inv_new: "job_inv new_registry"
  by (simp add: job_inv_def new_registry_def tails_known_def chained_def pieces_of_def one_key_def in_turn_def)

lemma in_turn_fork:
  assumes "in_turn jr" "tails_known jr"
  shows "in_turn (fork_piece i t sq prev jr)"
proof -
  have "tail_open jr q \<Longrightarrow> tail_open (fork_piece i t sq prev jr) q" for q
    using assms(2) by (auto simp: tail_open_def tails_known_def split: option.splits)
  then show ?thesis using assms(1) by (auto simp: in_turn_def split: if_splits)
qed

lemma chained_fork:
  assumes "tails_known jr" "chained jr t'"
    "t' = t \<Longrightarrow> sq = length (pieces_of jr t) \<and> prev = (if sq = 0 then None else Some (last (pieces_of jr t)))"
  shows "chained (fork_piece i t sq prev jr) t'"
proof -
  have old: "p \<in> set (pieces_of jr t') \<Longrightarrow> p \<noteq> jr_next_tail jr" for p
    using assms(1) by (auto simp: pieces_of_def)
  show ?thesis
    unfolding chained_def pieces_of_fork [OF assms(1)]
  proof (intro allI impI)
    fix k assume k: "k < length (pieces_of jr t' @ (if t' = t then [jr_next_tail jr] else []))"
    show "\<exists>pc. jr_pieces (fork_piece i t sq prev jr) ((pieces_of jr t' @ (if t' = t then [jr_next_tail jr] else [])) ! k) = Some pc \<and>
        pc_sequence pc = k \<and> pc_previous pc = (if k = 0 then None
          else Some ((pieces_of jr t' @ (if t' = t then [jr_next_tail jr] else [])) ! (k - 1)))"
    proof (cases "k < length (pieces_of jr t')")
      case True
      then show ?thesis using assms(2) old [OF nth_mem [OF True]] by (auto simp: chained_def nth_append)
    next
      case False
      then have "t' = t" "k = length (pieces_of jr t)" using k by (auto split: if_splits)
      then show ?thesis using assms(3) by (auto simp: nth_append last_conv_nth)
    qed
  qed
qed

lemma started:
  assumes "job_inv jr" "\<And>ex. map_of (jr_jobs jr) i = Some ex \<Longrightarrow> \<not> is_running ex"
    "job = new_job i now inp jr"
  shows "job_inv (fork_piece i (jr_next_token jr) 0 None
    (jr\<lparr>jr_jobs := map_set (jr_jobs jr) i job, jr_next_token := Suc (jr_next_token jr)\<rparr>))" (is "job_inv (fork_piece i ?t 0 None ?jr)")
proof -
  let ?jr' = "fork_piece i ?t 0 None ?jr"
  have inv: "tails_known jr" "one_key jr" "in_turn jr" "\<And>t. chained jr t"
    "\<And>j b. map_of (jr_jobs jr) j = Some b \<Longrightarrow> job_book jr j b"
    "\<And>t. t < jr_next_token jr \<Longrightarrow> jr_done jr t = None \<Longrightarrow> runs_under jr t"
    using assms(1) by (auto simp: job_inv_def)
  have known: "tails_known ?jr" using inv(1) by (auto simp: tails_known_def less_SucI)
  have token: "aj_token job = ?t" "is_running job" by (simp_all add: assms(3) new_job_def is_running_def)
  have older: "aj_token b < ?t" if "map_of (jr_jobs jr) j = Some b" for j b
    using inv(5) [OF that] by (simp add: job_book_def Let_def)
  show ?thesis
    unfolding job_inv_def
  proof (intro conjI allI impI)
    show "tails_known ?jr'" using known by (auto simp: tails_known_def)
    show "chained ?jr' t" for t
      using inv(4) [of t] fresh_token [OF inv(1), of ?t] by (intro chained_fork known) (auto simp: chained_def)
    show "one_key ?jr'" using inv(2) older token(1) by (fastforce simp: one_key_def split: if_splits)
    show "in_turn ?jr'" using inv(3) by (intro in_turn_fork known) (auto simp: in_turn_def tail_open_def)
  next
    fix j b assume at: "map_of (jr_jobs ?jr') j = Some b"
    show "job_book ?jr' j b"
    proof (cases "j = i")
      case True
      then have b: "b = job" using at by simp
      have ps: "pieces_of ?jr' ?t = [jr_next_tail jr]" using known fresh_token [OF inv(1), of ?t] by simp
      show ?thesis
        using True b ps inv(1)
        by (simp add: job_book_def running_book_def output_book_def completed_book_def assms(3) new_job_def is_running_def
            settled_def phase_of_def tails_known_def)
    next
      case False
      then have b: "map_of (jr_jobs jr) j = Some b" using at by simp
      have "jr_next_tail jr \<notin> set (pieces_of jr (aj_token b))" by (simp add: pieces_of_def)
      then show ?thesis
        using older [OF b] known by (intro job_book_frame [OF inv(5) [OF b]]) auto
    qed
  next
    fix t assume t: "t < jr_next_token ?jr'" "jr_done ?jr' t = None"
    show "runs_under ?jr' t"
    proof (cases "t = ?t")
      case True
      then show ?thesis using token by (auto simp: runs_under_def)
    next
      case False
      then obtain j b where b: "map_of (jr_jobs jr) j = Some b" "is_running b" "aj_token b = t"
        using t inv(6) [of t] by (auto simp: runs_under_def)
      then have "j \<noteq> i" using assms(2) by blast
      then show ?thesis using b by (auto simp: runs_under_def intro!: exI [of _ j])
    qed
  qed
qed

section \<open>Changing one job\<close>

lemma job_inv_bookD: "job_inv jr \<Longrightarrow> map_of (jr_jobs jr) i = Some job \<Longrightarrow> job_book jr i job"
  by (simp add: job_inv_def)

lemma job_inv_known: "job_inv jr \<Longrightarrow> tails_known jr"
  by (simp add: job_inv_def)

lemma job_inv_update:
  assumes inv: "job_inv jr" and old: "map_of (jr_jobs jr) i = Some old"
    and jobs: "jr_jobs jr' = map_set (jr_jobs jr) i job" "aj_token job = aj_token old" "jr_next_token jr' = jr_next_token jr"
    and kept: "tails_known jr'" "\<And>t. chained jr' t" "in_turn jr'" "job_book jr' i job"
    and others: "\<And>t. t \<noteq> aj_token old \<Longrightarrow> pieces_of jr' t = pieces_of jr t \<and> jr_done jr' t = jr_done jr t \<and> jr_closed jr' t = jr_closed jr t"
      "\<And>p pc. jr_pieces jr p = Some pc \<Longrightarrow> pc_token pc \<noteq> aj_token old \<Longrightarrow> jr_pieces jr' p = jr_pieces jr p"
    and answered: "jr_done jr' (aj_token old) = None \<Longrightarrow> is_running job"
  shows "job_inv jr'"
proof -
  have one: "aj_token b \<noteq> aj_token old" if "map_of (jr_jobs jr) j = Some b" "j \<noteq> i" for j b
    using inv old that by (auto simp: job_inv_def one_key_def)
  show ?thesis
    unfolding job_inv_def
  proof (intro conjI allI impI kept(1-3))
    show "one_key jr'"
      using inv one jobs by (auto simp: job_inv_def one_key_def split: if_splits) (metis | metis one)+
  next
    fix j b assume at: "map_of (jr_jobs jr') j = Some b"
    show "job_book jr' j b"
    proof (cases "j = i")
      case True
      then show ?thesis using at kept(4) jobs(1) by simp
    next
      case False
      then have b: "map_of (jr_jobs jr) j = Some b" using at jobs(1) by simp
      show ?thesis
      proof (rule job_book_frame [OF job_inv_bookD [OF inv b]])
        fix p assume "p \<in> set (pieces_of jr (aj_token b))"
        then show "jr_pieces jr' p = jr_pieces jr p"
          using others(2) [of p] one [OF b False] by (auto simp: in_pieces_of [OF job_inv_known [OF inv]])
      qed (use others(1) [OF one [OF b False]] jobs(3) in simp_all)
    qed
  next
    fix t assume t: "t < jr_next_token jr'" "jr_done jr' t = None"
    show "runs_under jr' t"
    proof (cases "t = aj_token old")
      case True
      then show ?thesis using t answered jobs by (auto simp: runs_under_def intro!: exI [of _ i])
    next
      case False
      then obtain j b where b: "map_of (jr_jobs jr) j = Some b" "is_running b" "aj_token b = t"
        using t inv others(1) [OF False] jobs(3) by (auto simp: job_inv_def runs_under_def)
      then have "j \<noteq> i" using old False by auto
      then show ?thesis using b jobs(1) by (auto simp: runs_under_def intro!: exI [of _ j])
    qed
  qed
qed

lemma extended:
  assumes "job_inv jr" "map_of (jr_jobs jr) i = Some job" "is_running job"
  shows "job_inv (fork_piece i (aj_token job) (aj_next job) (Some (aj_tail job))
    (jr\<lparr>jr_jobs := map_set (jr_jobs jr) i (job\<lparr>aj_pending := aj_pending job + 1, aj_next := aj_next job + 1, aj_tail := jr_next_tail jr\<rparr>)\<rparr>))"
    (is "job_inv (fork_piece i ?t ?sq ?prev (jr\<lparr>jr_jobs := map_set (jr_jobs jr) i ?job\<rparr>))")
proof -
  let ?jr = "jr\<lparr>jr_jobs := map_set (jr_jobs jr) i ?job\<rparr>"
  let ?jr' = "fork_piece i ?t ?sq ?prev ?jr"
  have known: "tails_known ?jr" using job_inv_known [OF assms(1)] by (simp add: tails_known_def)
  have book: "job_book jr i job" by (rule job_inv_bookD [OF assms(1,2)])
  then have ps: "pieces_of jr ?t \<noteq> []" "?sq = length (pieces_of jr ?t)" "aj_tail job = last (pieces_of jr ?t)" "?t < jr_next_token jr"
    by (simp_all add: job_book_def Let_def)
  have new: "jr_next_tail jr \<notin> set (pieces_of jr t)" for t by (simp add: pieces_of_def)
  have phases: "phase_of ?jr' p = phase_of jr p" "settled ?jr' p = settled jr p" if "p \<noteq> jr_next_tail jr" for p
    using that by (simp_all add: phase_of_def settled_def)
  show ?thesis
  proof (rule job_inv_update [OF assms(1,2), where job = ?job])
    show "tails_known ?jr'" using known ps(4) by (auto simp: tails_known_def)
    have chain: "chained ?jr t" for t using assms(1) by (simp add: job_inv_def)
    show "chained ?jr' t" for t
      using ps by (intro chained_fork known chain) auto
    show "in_turn ?jr'"
      using assms(1) by (intro in_turn_fork known) (simp add: job_inv_def in_turn_def tail_open_def)
    have old: "settled ?jr' p = settled jr p" "phase_of ?jr' p = phase_of jr p" if "p \<in> set (pieces_of jr ?t)" for p
      using phases new that by metis+
    have fresh: "\<not> settled ?jr' (jr_next_tail jr)" "phase_of ?jr' (jr_next_tail jr) = Some Blocked"
      by (simp_all add: settled_def phase_of_def)
    have run: "running_book jr job" using book assms(3) by (simp add: job_book_def Let_def)
    have "output_book ?jr' (pieces_of jr ?t @ [jr_next_tail jr]) (aj_output job)"
      using run old fresh(1)
      by (auto simp: running_book_def output_book_def Let_def nth_append less_Suc_eq split: option.splits)
    moreover have "filter (\<lambda>p. \<not> settled ?jr' p) (pieces_of jr ?t) = filter (\<lambda>p. \<not> settled jr p) (pieces_of jr ?t)"
      using old by (intro filter_cong) simp_all
    ultimately have "running_book ?jr' ?job"
      using run fresh old(2) known by (auto simp: running_book_def Let_def simp del: phase_of_update)
    then show "job_book ?jr' i ?job"
      using book assms(3) known new by (auto simp: job_book_def Let_def is_running_def)
    show "is_running ?job" using assms(3) by (simp add: is_running_def)
  qed (use known new in \<open>auto simp: tails_known_def\<close>)
qed

lemma promoted:
  assumes "job_inv jr"
  shows "job_inv (snd (promote_job i jr))"
proof (cases "map_of (jr_jobs jr) i")
  case (Some job)
  let ?new = "\<lambda>md. job\<lparr>aj_on_promote := None, aj_info := (aj_info job)\<lparr>ji_metadata := Some md\<rparr>\<rparr>"
  have book: "job_book jr i job" by (rule job_inv_bookD [OF assms Some])
  have "job_inv (jr\<lparr>jr_jobs := map_set (jr_jobs jr) i (?new md), jr_promoted := pr, jr_called := c\<rparr>)" for md pr c
  proof (rule job_inv_update [OF assms Some, where job = "?new md"])
    let ?jr' = "jr\<lparr>jr_jobs := map_set (jr_jobs jr) i (?new md), jr_promoted := pr, jr_called := c\<rparr>"
    show "tails_known ?jr'" "in_turn ?jr'" "chained ?jr' t" for t
      using assms by (simp_all add: job_inv_def tails_known_def in_turn_def tail_open_def)
    show "job_book ?jr' i (?new md)"
      using book by (simp add: job_book_def running_book_def completed_book_def Let_def is_running_def)
    show "jr_done ?jr' (aj_token job) = None \<Longrightarrow> is_running (?new md)"
      using book by (auto simp: job_book_def Let_def is_running_def)
  qed auto
  then show ?thesis using assms Some by (simp add: promote_job_def Let_def)
qed (use assms in \<open>simp add: promote_job_def\<close>)

section \<open>Changing phases\<close>

definition like :: "'c job_registry \<Rightarrow> 'c job_registry \<Rightarrow> bool" where
  \<comment> \<open>the same pieces up to their phases\<close>
  "like jr jr' \<longleftrightarrow> jr_next_tail jr' = jr_next_tail jr \<and> jr_next_token jr' = jr_next_token jr \<and>
     (\<forall>p. map_option (\<lambda>pc. pc\<lparr>pc_phase := Blocked\<rparr>) (jr_pieces jr' p) = map_option (\<lambda>pc. pc\<lparr>pc_phase := Blocked\<rparr>) (jr_pieces jr p))"

lemma like_piece:
  assumes "like jr jr'" "jr_pieces jr' p = Some pc'"
  obtains pc where "jr_pieces jr p = Some pc" "pc_job pc' = pc_job pc" "pc_token pc' = pc_token pc"
    "pc_sequence pc' = pc_sequence pc" "pc_previous pc' = pc_previous pc"
proof -
  have "map_option (\<lambda>pc. pc\<lparr>pc_phase := Blocked\<rparr>) (jr_pieces jr p) = Some (pc'\<lparr>pc_phase := Blocked\<rparr>)"
    using assms by (metis (no_types, lifting) like_def option.simps(9))
  then obtain pc where pc: "jr_pieces jr p = Some pc" "pc\<lparr>pc_phase := Blocked\<rparr> = pc'\<lparr>pc_phase := Blocked\<rparr>" by auto
  then have "pc_job pc' = pc_job pc" "pc_token pc' = pc_token pc" "pc_sequence pc' = pc_sequence pc" "pc_previous pc' = pc_previous pc"
    by (metis job_piece.select_convs job_piece.surjective job_piece.update_convs(5))+
  then show ?thesis using that pc(1) by blast
qed

lemma like_sym: "like jr jr' \<Longrightarrow> like jr' jr"
  by (simp add: like_def)

lemma like_pieces_of: "like jr jr' \<Longrightarrow> pieces_of jr' t = pieces_of jr t"
proof -
  assume like: "like jr jr'"
  have "(case jr_pieces jr' p of Some pc \<Rightarrow> pc_token pc = t | None \<Rightarrow> False) =
      (case jr_pieces jr p of Some pc \<Rightarrow> pc_token pc = t | None \<Rightarrow> False)" for p
    by (cases "jr_pieces jr p"; cases "jr_pieces jr' p")
      (auto elim: like_piece [OF like] like_piece [OF like_sym [OF like]])
  then show ?thesis using like by (simp add: pieces_of_def like_def)
qed

lemma like_job:
  assumes "like jr jr'"
  shows "map_option pc_job (jr_pieces jr' p) = map_option pc_job (jr_pieces jr p)"
  by (cases "jr_pieces jr p"; cases "jr_pieces jr' p")
    (auto elim: like_piece [OF assms] like_piece [OF like_sym [OF assms]])

lemma like_chained:
  assumes "like jr jr'" "chained jr t"
  shows "chained jr' t"
  unfolding chained_def like_pieces_of [OF assms(1)]
proof (intro allI impI)
  fix k assume k: "k < length (pieces_of jr t)"
  then obtain pc where pc: "jr_pieces jr (pieces_of jr t ! k) = Some pc" "pc_sequence pc = k"
      "pc_previous pc = (if k = 0 then None else Some (pieces_of jr t ! (k - 1)))"
    using assms(2) unfolding chained_def by blast
  then show "\<exists>pc. jr_pieces jr' (pieces_of jr t ! k) = Some pc \<and> pc_sequence pc = k \<and>
      pc_previous pc = (if k = 0 then None else Some (pieces_of jr t ! (k - 1)))"
    using like_piece [OF like_sym [OF assms(1)] pc(1)] by metis
qed

lemma like_set_phase [simp]: "like jr (set_phase p ph jr)"
  by (cases "jr_pieces jr p") (auto simp: like_def)

lemma like_known:
  assumes "like jr jr'" "tails_known jr" "\<And>t. jr_next_token jr \<le> t \<Longrightarrow> jr_done jr' t = None \<and> \<not> jr_closed jr' t"
  shows "tails_known jr'"
proof -
  have "jr_pieces jr' p = None" if "jr_pieces jr p = None" for p
    using that like_piece [OF assms(1)] by (metis not_Some_eq)
  moreover have "pc_token pc < jr_next_token jr" if "jr_pieces jr' p = Some pc" for p pc
    using like_piece [OF assms(1) that] assms(2) unfolding tails_known_def by metis
  ultimately show ?thesis using assms unfolding tails_known_def like_def by simp
qed

lemma like_turn:
  assumes "like jr jr'" "in_turn jr" "\<And>q. tail_open jr q \<Longrightarrow> tail_open jr' q"
    "\<And>p pc. jr_pieces jr' p = Some pc \<Longrightarrow> \<not> scope_closed jr' (pc_token pc) \<Longrightarrow> pc_phase pc \<noteq> Blocked \<Longrightarrow>
      \<not> scope_closed jr (pc_token pc) \<and> (phase_of jr p \<noteq> Some Blocked \<or> may_begin jr pc)"
  shows "in_turn jr'"
  unfolding in_turn_def
proof (intro allI impI)
  fix p pc q
  assume pc: "jr_pieces jr' p = Some pc" "pc_previous pc = Some q" "\<not> scope_closed jr' (pc_token pc)" "pc_phase pc \<noteq> Blocked"
  obtain pc0 where pc0: "jr_pieces jr p = Some pc0" "pc_token pc = pc_token pc0" "pc_previous pc = pc_previous pc0"
    using like_piece [OF assms(1) pc(1)] by metis
  have prev: "pc_previous pc0 = Some q" using pc(2) pc0(3) by simp
  have "tail_open jr q"
    using assms(4) [OF pc(1,3,4)] pc(2) prev pc0 assms(2) [unfolded in_turn_def]
    by (auto simp: phase_of_def may_begin_def)
  then show "tail_open jr' q" by (rule assms(3))
qed

section \<open>Jobs that end\<close>

lemma like_ended:
  assumes "job_inv jr" "map_of (jr_jobs jr) i = Some job" "is_running job"
    and new: "aj_token new = aj_token job" "aj_next new = aj_next job" "aj_tail new = aj_tail job" "\<not> is_running new"
    and jr': "like jr jr'" "jr_jobs jr' = map_set (jr_jobs jr) i new" "jr_closed jr' = (jr_closed jr)(aj_token job := True)"
      "jr_shut jr' = jr_shut jr"
      "jr_done jr' = complete_info (jr_done jr) (aj_token job) (aj_info new)"
      "\<And>q. tail_open jr q \<Longrightarrow> tail_open jr' q"
      "\<And>p pc. jr_pieces jr p = Some pc \<Longrightarrow> pc_token pc \<noteq> aj_token job \<Longrightarrow> jr_pieces jr' p = Some pc"
    and completed: "ji_status (aj_info new) = Job_Completed \<Longrightarrow> completed_book jr' new"
  shows "job_inv jr'"
proof (rule job_inv_update [OF assms(1,2) jr'(2) new(1)])
  let ?t = "aj_token job"
  have book: "job_book jr i job" by (rule job_inv_bookD [OF assms(1,2)])
  have token: "?t < jr_next_token jr" using book by (simp add: job_book_def Let_def)
  have done_t: "jr_done jr' ?t \<noteq> None" "\<And>t. t \<noteq> ?t \<Longrightarrow> jr_done jr' t = jr_done jr t"
    unfolding jr'(5) by (auto simp: complete_info_def split: option.split)
  show "tails_known jr'"
    using job_inv_known [OF assms(1)] token jr'(3) done_t(2)
    by (intro like_known [OF jr'(1)]) (auto simp: tails_known_def)
  show "chained jr' t" for t
    using assms(1) by (intro like_chained [OF jr'(1)]) (simp add: job_inv_def)
  show "in_turn jr'"
  proof (rule like_turn [OF jr'(1) _ jr'(6)])
    show "in_turn jr" using assms(1) by (simp add: job_inv_def)
    fix p pc
    assume pc: "jr_pieces jr' p = Some pc" "\<not> scope_closed jr' (pc_token pc)" "pc_phase pc \<noteq> Blocked"
    then have "pc_token pc \<noteq> ?t" "\<not> scope_closed jr (pc_token pc)"
      by (auto simp: scope_closed_def jr'(3,4) split: if_splits)
    moreover have "jr_pieces jr p = Some pc"
      using calculation(1) pc(1) like_piece [OF jr'(1) pc(1)] jr'(7) by metis
    ultimately show "\<not> scope_closed jr (pc_token pc) \<and> (phase_of jr p \<noteq> Some Blocked \<or> may_begin jr pc)"
      using pc(3) by (simp add: phase_of_def)
  qed
  show "job_book jr' i new"
    using book new completed done_t(1) jr'(1) like_job [OF jr'(1)]
    by (simp add: job_book_def Let_def like_pieces_of [OF jr'(1)] like_def del: map_option_eq_Some)
  show "jr_done jr' ?t = None \<Longrightarrow> is_running new" using done_t(1) by simp
qed (use jr' new in \<open>auto simp: like_pieces_of complete_info_def like_def split: option.split\<close>)

lemma cancelled_job:
  assumes "job_inv jr"
  shows "job_inv (snd (cancel_job i now jr))"
proof (cases "map_of (jr_jobs jr) i")
  case (Some job)
  show ?thesis
  proof (cases "is_running job")
    case True
    show ?thesis
      by (rule like_ended [OF assms Some True])
        (use Some True in \<open>auto simp: cancel_job_def finish_job_def is_running_def like_def snapshot_of_def tail_open_def\<close>)
  qed (use assms Some in \<open>simp add: cancel_job_def\<close>)
qed (use assms in \<open>simp add: cancel_job_def\<close>)

section \<open>Pieces that go on\<close>

lemma job_inv_rephase:
  assumes inv: "job_inv jr" and pc: "jr_pieces jr p = Some pc"
    and turn: "ph \<noteq> Blocked \<Longrightarrow> \<not> scope_closed jr (pc_token pc) \<Longrightarrow> pc_phase pc \<noteq> Blocked \<or> may_begin jr pc"
    and stays: "tail_open jr p \<Longrightarrow> ph = Lost \<or> (\<exists>x. ph = Ran x \<or> ph = Settled x)"
    and unsettled: "\<And>x. pc_phase pc \<noteq> Settled x" "\<And>x. ph = Settled x \<Longrightarrow> \<not> runs_under jr (pc_token pc)"
  shows "job_inv (set_phase p ph jr)"
proof -
  let ?jr' = "set_phase p ph jr"
  have like: "like jr ?jr'" by simp
  have open_kept: "tail_open ?jr' q" if "tail_open jr q" for q
    using that stays pc by (auto simp: tail_open_phase)
  have settled_same: "settled ?jr' q = settled jr q" if "q \<noteq> p \<or> (\<forall>x. ph \<noteq> Settled x)" for q
    using that unsettled(1) pc by (auto simp: settled_def phase_of_def)
  show ?thesis
    unfolding job_inv_def
  proof (intro conjI allI impI)
    show "tails_known ?jr'"
      using inv by (intro like_known [OF like]) (auto simp: job_inv_def tails_known_def)
    show "chained ?jr' t" for t using inv by (intro like_chained [OF like]) (simp add: job_inv_def)
    show "one_key ?jr'" using inv by (simp add: job_inv_def one_key_def)
    show "in_turn ?jr'"
      using inv pc turn
      by (intro like_turn [OF like _ open_kept]) (auto simp: job_inv_def phase_of_def may_begin_def split: if_splits)
    show "t < jr_next_token ?jr' \<Longrightarrow> jr_done ?jr' t = None \<Longrightarrow> runs_under ?jr' t" for t
      using inv by (simp add: job_inv_def runs_under_def)
  next
    fix i job assume "map_of (jr_jobs ?jr') i = Some job"
    then have at: "map_of (jr_jobs jr) i = Some job" by simp
    have book: "job_book jr i job" by (rule job_inv_bookD [OF inv at])
    show "job_book ?jr' i job"
    proof (cases "p \<in> set (pieces_of jr (aj_token job))")
      case False
      then show ?thesis using book by (intro job_book_frame [OF book]) auto
    next
      case True
      then have mine: "pc_token pc = aj_token job" using pc in_pieces_of [OF job_inv_known [OF inv]] by auto
      have "ji_status (aj_info job) \<noteq> Job_Completed"
        using book True unsettled(1) pc by (auto simp: job_book_def completed_book_def Let_def phase_of_def)
      moreover have "running_book ?jr' job" if run: "is_running job"
      proof -
        have free: "ph \<noteq> Settled x" for x using unsettled(2) at run mine by (auto simp: runs_under_def)
        have "filter (\<lambda>q. \<not> settled ?jr' q) (pieces_of jr (aj_token job)) = filter (\<lambda>q. \<not> settled jr q) (pieces_of jr (aj_token job))"
          using settled_same free by (intro filter_cong) simp_all
        then show ?thesis
          using book run free settled_same unsettled(1) pc
          by (auto simp: job_book_def running_book_def output_book_def Let_def phase_of_def split: option.splits)
      qed
      ultimately show ?thesis
        using book like_job [OF like] by (simp add: job_book_def Let_def del: map_option_eq_Some)
    qed
  qed
qed

section \<open>Pieces that are settled\<close>

lemma piece_index:
  assumes "job_inv jr" "jr_pieces jr p = Some pc"
  shows "pc_sequence pc < length (pieces_of jr (pc_token pc)) \<and> pieces_of jr (pc_token pc) ! pc_sequence pc = p"
proof -
  have "p \<in> set (pieces_of jr (pc_token pc))" using assms in_pieces_of [OF job_inv_known [OF assms(1)]] by simp
  then obtain k where k: "k < length (pieces_of jr (pc_token pc))" "pieces_of jr (pc_token pc) ! k = p"
    by (auto simp: in_set_conv_nth)
  then show ?thesis using assms unfolding job_inv_def chained_def by (metis option.inject)
qed

lemma output_settle:
  assumes "output_book jr ps out" "distinct ps" "k < length ps" "jr_pieces jr (ps ! k) = Some pc" "pc_phase pc = Ran (Piece_Ok s)"
    and jr': "\<And>q. phase_of jr' q = (if q = ps ! k then Some (Settled (Piece_Ok s)) else phase_of jr q)"
  shows "output_book jr' ps (latest_output out k (Piece_Ok s))"
proof -
  have phase: "l < length ps \<Longrightarrow> phase_of jr' (ps ! l) = (if l = k then Some (Settled (Piece_Ok s)) else phase_of jr (ps ! l))" for l
    using jr' assms(2,3) nth_eq_iff_index_eq by metis
  then have settled: "l < length ps \<Longrightarrow> settled jr' (ps ! l) \<longleftrightarrow> l = k \<or> settled jr (ps ! l)" for l
    by (simp add: settled_def)
  have unsettled: "\<not> settled jr (ps ! k)" using assms(4,5) by (simp add: settled_def phase_of_def)
  show ?thesis
  proof (cases out)
    case None
    then have "\<not> settled jr (ps ! l)" if "l < length ps" for l using assms(1) that by (simp add: output_book_def)
    then show ?thesis using None phase [OF assms(3)] settled assms(3) by (auto simp: output_book_def latest_output_def)
  next
    case (Some o1)
    obtain m s' where out: "out = Some (m, s')" using Some by (cases o1) auto
    have m: "m < length ps" "phase_of jr (ps ! m) = Some (Settled (Piece_Ok s'))" "\<And>l. l < length ps \<Longrightarrow> settled jr (ps ! l) \<Longrightarrow> l \<le> m"
      using assms(1) out by (auto simp: output_book_def)
    then have "m \<noteq> k" using unsettled by (auto simp: settled_def)
    then show ?thesis
      using m out phase settled assms(3) by (fastforce simp: output_book_def latest_output_def)
  qed
qed

lemma count_settle:
  assumes "distinct ps" "p \<in> set ps" "\<not> settled jr p" "\<And>q. settled jr' q \<longleftrightarrow> q = p \<or> settled jr q"
  shows "Suc (length (filter (\<lambda>q. \<not> settled jr' q) ps)) = length (filter (\<lambda>q. \<not> settled jr q) ps)"
proof -
  obtain xs ys where ps: "ps = xs @ p # ys" using split_list [OF assms(2)] by blast
  have "filter (\<lambda>q. \<not> settled jr' q) zs = filter (\<lambda>q. \<not> settled jr q) zs" if "p \<notin> set zs" for zs
    using that assms(4) by (intro filter_cong) auto
  moreover have "p \<notin> set xs" "p \<notin> set ys" using assms(1) ps by auto
  ultimately show ?thesis using assms(3,4) ps by simp
qed

lemma all_settled:
  assumes "output_book jr ps out" "ps \<noteq> []" "\<And>p. p \<in> set ps \<Longrightarrow> settled jr p" "distinct ps"
  obtains s where "out = Some (length ps - 1, s)" "phase_of jr (last ps) = Some (Settled (Piece_Ok s))"
proof -
  have last: "settled jr (last ps)" "last ps = ps ! (length ps - 1)" using assms(2,3) by (simp_all add: last_conv_nth)
  have "out \<noteq> None" using assms(1) last(1) last_in_set [OF assms(2)] by (cases out) (auto simp: output_book_def)
  then obtain k s where out: "out = Some (k, s)" by (cases out) auto
  then have k: "k < length ps" "phase_of jr (ps ! k) = Some (Settled (Piece_Ok s))" "length ps - 1 \<le> k"
    using assms(1,2) last by (auto simp: output_book_def)
  then have "k = length ps - 1" by linarith
  then show ?thesis using that out k last(2) by simp
qed

lemma settled_running:
  assumes inv: "job_inv jr" and at: "map_of (jr_jobs jr) i = Some job" and run: "is_running job"
    and pc: "jr_pieces jr p = Some pc" "pc_phase pc = Ran x" "pc_token pc = aj_token job" and ok: "is_ok x"
    and jr': "\<And>q. phase_of jr' q = (if q = p then Some (Settled x) else phase_of jr q)"
  defines "ps \<equiv> pieces_of jr (aj_token job)" and "out \<equiv> latest_output (aj_output job) (pc_sequence pc) x"
  shows "output_book jr' ps out" "aj_pending job = Suc (length (filter (\<lambda>q. \<not> settled jr' q) ps))"
    "q \<in> set ps \<Longrightarrow> phase_of jr' q = Some (Settled y) \<Longrightarrow> is_ok y"
proof -
  obtain s where x: "x = Piece_Ok s" using ok by (cases x) (auto simp: is_ok_def)
  have running: "running_book jr job" using job_inv_bookD [OF inv at] run by (simp add: job_book_def Let_def)
  have k: "pc_sequence pc < length ps" "ps ! pc_sequence pc = p" using piece_index [OF inv pc(1)] pc(3) by (simp_all add: ps_def)
  have unsettled: "\<not> settled jr p" using pc by (simp add: settled_def phase_of_def)
  show "output_book jr' ps out"
    unfolding out_def x
  proof (rule output_settle [where jr = jr])
    show "output_book jr ps (aj_output job)" using running by (simp add: running_book_def Let_def ps_def)
  qed (use k pc x jr' in \<open>simp_all add: ps_def\<close>)
  have "Suc (length (filter (\<lambda>q. \<not> settled jr' q) ps)) = length (filter (\<lambda>q. \<not> settled jr q) ps)"
    using k unsettled jr' by (intro count_settle [where p = p]) (auto simp: ps_def settled_def)
  then show "aj_pending job = Suc (length (filter (\<lambda>q. \<not> settled jr' q) ps))"
    using running by (simp add: running_book_def Let_def ps_def)
  show "is_ok y" if "q \<in> set ps" "phase_of jr' q = Some (Settled y)"
    using that jr' ok running by (auto simp: running_book_def Let_def ps_def split: if_splits)
qed

lemma settle_like:
  assumes "jr_pieces jr0 = jr_pieces jr" "jr_next_tail jr0 = jr_next_tail jr" "jr_next_token jr0 = jr_next_token jr"
  shows "like jr (set_phase p ph jr0)"
  using assms by (cases "jr_pieces jr p") (auto simp: like_def)

lemma settle_phases:
  "jr_pieces jr p = Some pc \<Longrightarrow> jr_pieces jr0 = jr_pieces jr \<Longrightarrow>
   phase_of (set_phase p ph jr0) q = (if q = p then Some ph else phase_of jr q)"
  by (simp add: phase_of_def)

lemma settle_opens:
  "jr_pieces jr p = Some pc \<Longrightarrow> jr_pieces jr0 = jr_pieces jr \<Longrightarrow> tail_open jr q \<Longrightarrow> tail_open (set_phase p (Settled x) jr0) q"
  by (auto simp: tail_open_def split: option.splits)

lemma settled_on:
  assumes inv: "job_inv jr" and at: "map_of (jr_jobs jr) i = Some job" and run: "is_running job"
    and pc: "jr_pieces jr p = Some pc" "pc_phase pc = Ran x" "pc_token pc = aj_token job" and ok: "is_ok x" and more: "aj_pending job > 1"
  defines "new \<equiv> job\<lparr>aj_pending := aj_pending job - 1, aj_output := latest_output (aj_output job) (pc_sequence pc) x\<rparr>"
  shows "job_inv (set_phase p (Settled x) (jr\<lparr>jr_jobs := map_set (jr_jobs jr) i new\<rparr>))" (is "job_inv ?jr")
proof (rule job_inv_update [OF inv at, where job = new])
  let ?ps = "pieces_of jr (aj_token job)"
  have like: "like jr ?jr" by (rule settle_like) simp_all
  have book: "job_book jr i job" by (rule job_inv_bookD [OF inv at])
  have same: "jr_pieces (jr\<lparr>jr_jobs := map_set (jr_jobs jr) i new\<rparr>) = jr_pieces jr" by simp
  note books = settled_running [OF inv at run pc ok settle_phases [OF pc(1) same]]
  show "tails_known ?jr" using inv by (intro like_known [OF like]) (auto simp: job_inv_def tails_known_def)
  show "chained ?jr t" for t using inv by (intro like_chained [OF like]) (simp add: job_inv_def)
  show "in_turn ?jr"
    using inv pc by (intro like_turn [OF like _ settle_opens]) (auto simp: job_inv_def phase_of_def split: if_splits)
  have "filter (\<lambda>q. \<not> settled ?jr q) ?ps \<noteq> []" using books(2) more by auto
  then have "\<exists>q \<in> set ?ps. \<not> settled ?jr q" by (simp add: filter_empty_conv)
  moreover have "\<forall>q \<in> set ?ps. \<forall>y. phase_of ?jr q = Some (Settled y) \<longrightarrow> is_ok y"
    using books(3) by simp
  moreover have "aj_token new = aj_token job" "aj_output new = latest_output (aj_output job) (pc_sequence pc) x"
      "aj_pending new = aj_pending job - 1"
    by (simp_all add: new_def)
  moreover have "aj_pending job - 1 = length (filter (\<lambda>q. \<not> settled ?jr q) ?ps)"
    using books(2) by linarith
  ultimately have "running_book ?jr new"
    using book run books(1) by (simp add: job_book_def running_book_def Let_def del: phase_of_update)
  then show "job_book ?jr i new"
    using book run like_job [OF like] by (simp add: job_book_def Let_def is_running_def new_def del: map_option_eq_Some)
qed (use job_inv_bookD [OF inv at] run pc in \<open>auto simp: job_book_def Let_def is_running_def new_def\<close>)

lemma settled_last:
  assumes inv: "job_inv jr" and at: "map_of (jr_jobs jr) i = Some job" and run: "is_running job"
    and pc: "jr_pieces jr p = Some pc" "pc_phase pc = Ran x" "pc_token pc = aj_token job" and last: "\<not> (is_ok x \<and> aj_pending job > 1)"
    and new: "aj_token new = aj_token job" "aj_next new = aj_next job" "aj_tail new = aj_tail job"
      "ji_status (aj_info new) = exit_status x"
      "ji_output (aj_info new) = (case latest_output (aj_output job) (pc_sequence pc) x of Some (_, s) \<Rightarrow> Some s | None \<Rightarrow> ji_output (aj_info job))"
  shows "job_inv (set_phase p (Settled x) (snd (finish_job i new jr)))" (is "job_inv (set_phase p _ ?fin)")
proof (rule like_ended [OF inv at run new(1-3)])
  let ?jr = "set_phase p (Settled x) ?fin" and ?ps = "pieces_of jr (aj_token job)"
  have same: "jr_pieces ?fin = jr_pieces jr" "jr_next_tail ?fin = jr_next_tail jr" "jr_next_token ?fin = jr_next_token jr"
    by (simp_all add: finish_job_def)
  show "\<not> is_running new" by (cases x) (simp_all add: is_running_def new(4) exit_status_def)
  show "like jr ?jr" by (rule settle_like [OF same])
  show "tail_open jr q \<Longrightarrow> tail_open ?jr q" for q by (rule settle_opens [OF pc(1) same(1)])
  assume "ji_status (aj_info new) = Job_Completed"
  then have ok: "is_ok x" by (cases x) (simp_all add: is_ok_def exit_status_def new(4))
  note books = settled_running [OF inv at run pc ok settle_phases [OF pc(1) same(1)]]
  have "filter (\<lambda>q. \<not> settled ?jr q) ?ps = []" using books(2) last ok by simp
  then have settled: "q \<in> set ?ps \<Longrightarrow> settled ?jr q" for q by (auto simp: filter_empty_conv)
  have ne: "?ps \<noteq> []" using job_inv_bookD [OF inv at] by (simp add: job_book_def Let_def)
  obtain s where s: "latest_output (aj_output job) (pc_sequence pc) x = Some (length ?ps - 1, s)"
      "phase_of ?jr (last ?ps) = Some (Settled (Piece_Ok s))"
    by (rule all_settled [OF books(1) ne settled distinct_pieces_of])
  have "\<exists>s. phase_of ?jr q = Some (Settled (Piece_Ok s))" if "q \<in> set ?ps" for q
  proof -
    note m = that
    obtain y where y: "phase_of ?jr q = Some (Settled y)" using settled [OF m] unfolding settled_def by blast
    then have "is_ok y" by (rule books(3) [OF m])
    then show ?thesis using y by (cases y) (simp_all add: is_ok_def)
  qed
  moreover have "pieces_of ?jr t = pieces_of jr t" for t by (simp add: finish_job_def)
  ultimately show "completed_book ?jr new"
    using s new by (simp add: completed_book_def Let_def del: phase_of_update)
qed (use pc new in \<open>auto simp: finish_job_def snapshot_of_def\<close>)

lemma settled_piece:
  assumes inv: "job_inv jr" and pc: "jr_pieces jr p = Some pc" "pc_phase pc = Ran x"
  shows "job_inv (settle_piece p now jr)"
proof (cases "runs_under jr (pc_token pc)")
  case False
  then have "snd (settle_job (pc_job pc) (pc_token pc) (pc_sequence pc) x now jr) = jr"
    by (auto simp: settle_job_def runs_under_def split: option.split)
  then show ?thesis
    using False pc by (auto simp: settle_piece_def intro!: job_inv_rephase [OF inv pc(1)])
next
  case True
  then obtain i job where at: "map_of (jr_jobs jr) i = Some job" and run: "is_running job" and token: "pc_token pc = aj_token job"
    by (auto simp: runs_under_def)
  have "p \<in> set (pieces_of jr (aj_token job))" using pc token by (simp add: in_pieces_of [OF job_inv_known [OF inv]])
  then have i: "pc_job pc = i" using job_inv_bookD [OF inv at] pc(1) by (auto simp: job_book_def Let_def)
  show ?thesis
  proof (cases "is_ok x \<and> aj_pending job > 1")
    case True
    then show ?thesis
      using settled_on [OF inv at run pc token] at run token pc i by (simp add: settle_piece_def settle_job_def Let_def)
  next
    case False
    let ?new = "job\<lparr>aj_on_promote := None, aj_pending := 0, aj_output := latest_output (aj_output job) (pc_sequence pc) x,
      aj_info := (aj_info job)\<lparr>ji_status := exit_status x, ji_completed_at := Some now,
        ji_output := (case latest_output (aj_output job) (pc_sequence pc) x of Some (_, s) \<Rightarrow> Some s | None \<Rightarrow> ji_output (aj_info job)),
        ji_error := exit_error x (ji_error (aj_info job))\<rparr>\<rparr>"
    have "settle_piece p now jr = set_phase p (Settled x) (snd (finish_job i ?new jr))"
      using at run token pc i False by (auto simp: settle_piece_def settle_job_def Let_def)
    then show ?thesis using settled_last [OF inv at run pc token False, of ?new] by simp
  qed
qed

section \<open>The invariant is kept\<close>

lemma job_inv_piece:
  assumes "piece_step jr jr'" "job_inv jr"
  shows "job_inv jr'"
  using assms
proof cases
  case (step_begin_piece p pc)
  then show ?thesis
    using job_inv_rephase [OF assms(2) step_begin_piece(2), of Working] by (auto simp: tail_open_phase phase_of_def)
next
  case (step_end_piece p pc x)
  then show ?thesis
    using job_inv_rephase [OF assms(2) step_end_piece(2), of "Ran x"] by (auto simp: tail_open_phase phase_of_def)
next
  case (step_interrupt_piece p pc e)
  then show ?thesis
    using job_inv_rephase [OF assms(2) step_interrupt_piece(2), of "Ran (Piece_Interrupted e)"]
    by (auto simp: tail_open_phase phase_of_def)
next
  case (step_settle p pc x now)
  then show ?thesis using settled_piece [OF assms(2)] by blast
next
  case (step_lose_piece p pc)
  then show ?thesis
    using job_inv_rephase [OF assms(2) step_lose_piece(2), of Lost] by (auto simp: tail_open_phase phase_of_def scope_closed_def)
qed

lemma closed_registry:
  assumes "job_inv jr"
  shows "job_inv (close_registry jr)"
proof -
  have same: "pieces_of (close_registry jr) t = pieces_of jr t" "phase_of (close_registry jr) p = phase_of jr p" for t p
    by (simp_all add: close_registry_def pieces_of_def phase_of_def)
  have "job_book (close_registry jr) i job" if "map_of (jr_jobs jr) i = Some job" for i job
    by (rule job_book_frame [OF job_inv_bookD [OF assms that] same(1)]) (simp_all add: close_registry_def)
  moreover have "chained (close_registry jr) t" for t
    using assms unfolding job_inv_def chained_def same by (simp add: close_registry_def)
  ultimately show ?thesis
    using assms unfolding job_inv_def
    by (auto simp add: tails_known_def one_key_def runs_under_def in_turn_def scope_closed_def close_registry_def)
qed

lemma job_inv_step:
  assumes "job_step jr jr'" "job_inv jr"
  shows "job_inv jr'"
  using assms(1)
proof cases
  case (step_start fresh now inp)
  define i where "i = (case si_id inp of Some i \<Rightarrow> i | None \<Rightarrow> fresh)"
  have "job_inv (fork_piece i (jr_next_token jr) 0 None
      (jr\<lparr>jr_jobs := map_set (jr_jobs jr) i (new_job i now inp jr), jr_next_token := Suc (jr_next_token jr)\<rparr>))"
    if "\<And>ex. map_of (jr_jobs jr) i = Some ex \<Longrightarrow> \<not> is_running ex"
    using started [OF assms(2) that refl] .
  then show ?thesis
    unfolding step_start start_job_def Let_def i_def [symmetric]
    using assms(2) by (cases "map_of (jr_jobs jr) i") auto
next
  case (step_extend i)
  then show ?thesis using assms(2) extended [OF assms(2), of i] by (simp add: extend_job_def split: option.split)
qed (use assms(2) promoted cancelled_job closed_registry job_inv_piece in auto)

lemma job_inv_reachable: "job_reachable jr \<Longrightarrow> job_inv jr"
  by (induction rule: job_reachable.induct) (auto intro: job_inv_new job_inv_step)

end
