(* ===== verification/Inevitable.thy ===== *)
theory Inevitable imports Prelude begin

text \<open>
  What happens in the end whatever order the steps of a program come in: a state predicate that every run reaches
  that goes on as long as it can, and the interface of a program whose steps wind something down.
\<close>

inductive inevitable :: "('s \<Rightarrow> 's \<Rightarrow> bool) \<Rightarrow> ('s \<Rightarrow> bool) \<Rightarrow> 's \<Rightarrow> bool" for R P where
  inevitable_now: "P s \<Longrightarrow> inevitable R P s"
| inevitable_later: "R s s1 \<Longrightarrow> (\<And>s'. R s s' \<Longrightarrow> inevitable R P s') \<Longrightarrow> inevitable R P s"

locale winding_down =
  fixes R :: "'s \<Rightarrow> 's \<Rightarrow> bool" and keeps :: "'s \<Rightarrow> bool" and load :: "'s \<Rightarrow> nat" and rest :: "'s \<Rightarrow> bool"
  assumes kept: "keeps s \<Longrightarrow> R s s' \<Longrightarrow> keeps s'"
    and lighter: "keeps s \<Longrightarrow> R s s' \<Longrightarrow> load s' < load s"
    and stuck: "keeps s \<Longrightarrow> (\<And>s'. \<not> R s s') \<Longrightarrow> rest s"
begin

lemma comes_to_rest: "keeps s \<Longrightarrow> inevitable R rest s"
proof (induction "load s" arbitrary: s rule: less_induct)
  case less
  show ?case
  proof (cases "\<exists>s'. R s s'")
    case True
    then show ?thesis using less.prems less.hyps kept lighter by (blast intro: inevitable_later)
  next
    case False
    then show ?thesis using less.prems stuck by (blast intro: inevitable_now)
  qed
qed

end

lemma inevitable_mono:
  assumes "inevitable R P s" "\<And>s. P s \<Longrightarrow> Q s"
  shows "inevitable R Q s"
  using assms(1) by induction (blast intro: inevitable_now inevitable_later assms(2))+

end
