(* ===== verification/BackgroundJobProps.thy ===== *)
theory BackgroundJobProps imports BackgroundJobInv Inevitable begin

text \<open>
  What the registry of background jobs promises: the pieces of a job run one after another, a completed job has the
  output of its last piece, and whoever waits for a job is answered while the scope of the registry stays open.
\<close>

section \<open>One piece after another\<close>

lemma in_turn_before:
  assumes "job_inv jr" "\<not> scope_closed jr t" "l < length (pieces_of jr t)" "phase_of jr (pieces_of jr t ! l) \<noteq> Some Blocked" "k < l"
  shows "tail_open jr (pieces_of jr t ! k)"
  using assms(3-5)
proof (induction l)
  case (Suc l)
  obtain pc where pc: "jr_pieces jr (pieces_of jr t ! Suc l) = Some pc" "pc_previous pc = Some (pieces_of jr t ! l)"
    using assms(1) Suc.prems(1) unfolding job_inv_def chained_def by fastforce
  have "pieces_of jr t ! Suc l \<in> set (pieces_of jr t)" using Suc.prems(1) by simp
  then have "pc_token pc = t" using pc(1) in_pieces_of [OF job_inv_known [OF assms(1)]] by auto
  then have last: "tail_open jr (pieces_of jr t ! l)"
    using assms(1,2) pc Suc.prems(2) unfolding job_inv_def in_turn_def phase_of_def by (metis option.simps(9))
  show ?case
  proof (cases "k = l")
    case False
    then show ?thesis using Suc.IH Suc.prems last by (auto simp: tail_open_phase)
  qed (use last in simp)
qed simp

text \<open>C35. The pieces of a job whose scope and registry are open never run at the same time.\<close>
theorem pieces_run_one_at_a_time:
  assumes "job_reachable jr" "jr_pieces jr p = Some a" "jr_pieces jr q = Some b" "pc_phase a = Working" "pc_phase b = Working"
    "pc_token a = pc_token b" "\<not> scope_closed jr (pc_token a)"
  shows "p = q"
proof -
  have inv: "job_inv jr" by (rule job_inv_reachable [OF assms(1)])
  let ?ps = "pieces_of jr (pc_token a)"
  have p: "pc_sequence a < length ?ps" "?ps ! pc_sequence a = p" using piece_index [OF inv assms(2)] by simp_all
  have q: "pc_sequence b < length ?ps" "?ps ! pc_sequence b = q" using piece_index [OF inv assms(3)] assms(6) by simp_all
  have "\<not> tail_open jr p" "\<not> tail_open jr q" "phase_of jr p \<noteq> Some Blocked" "phase_of jr q \<noteq> Some Blocked"
    using assms(2-5) by (simp_all add: tail_open_def phase_of_def)
  then have "\<not> pc_sequence a < pc_sequence b" "\<not> pc_sequence b < pc_sequence a"
    using in_turn_before [OF inv assms(7) q(1)] in_turn_before [OF inv assms(7) p(1)] p(2) q(2) by auto
  then show ?thesis using p(2) q(2) by simp
qed

section \<open>What a completed job says\<close>

text \<open>C33. Where a job completed, its output is the text of the piece that was added last, in whatever order the pieces
  were settled.\<close>
theorem completed_job_has_last_output:
  assumes "job_reachable jr" "map_of (jr_jobs jr) i = Some job" "ji_status (aj_info job) = Job_Completed"
  shows "\<exists>p pc s. jr_pieces jr p = Some pc \<and> pc_token pc = aj_token job \<and> Suc (pc_sequence pc) = aj_next job \<and>
    pc_phase pc = Settled (Piece_Ok s) \<and> ji_output (aj_info job) = Some s"
proof -
  have inv: "job_inv jr" by (rule job_inv_reachable [OF assms(1)])
  let ?ps = "pieces_of jr (aj_token job)"
  have book: "completed_book jr job" "?ps \<noteq> []" "aj_next job = length ?ps"
    using job_inv_bookD [OF inv assms(2)] assms(3) by (simp_all add: job_book_def Let_def)
  obtain s where s: "phase_of jr (last ?ps) = Some (Settled (Piece_Ok s))" "ji_output (aj_info job) = Some s"
    using book(1) by (auto simp: completed_book_def Let_def)
  then obtain pc where pc: "jr_pieces jr (last ?ps) = Some pc" "pc_phase pc = Settled (Piece_Ok s)" by (auto simp: phase_of_def)
  have token: "pc_token pc = aj_token job" using pc(1) last_in_set [OF book(2)] by (simp add: in_pieces_of [OF job_inv_known [OF inv]])
  have idx: "pc_sequence pc < length ?ps" "?ps ! pc_sequence pc = ?ps ! (length ?ps - 1)"
    using piece_index [OF inv pc(1)] token last_conv_nth [OF book(2)] by simp_all
  have "pc_sequence pc = length ?ps - 1"
    using nth_eq_iff_index_eq [OF distinct_pieces_of idx(1), of "length ?ps - 1"] idx(2) book(2) by simp
  then have "Suc (pc_sequence pc) = aj_next job" using book(2,3) by (cases ?ps) simp_all
  then show ?thesis using pc token s(2) by blast
qed

section \<open>Whoever waits is answered\<close>

definition final_infos :: "'c job_registry \<Rightarrow> bool" where
  "final_infos jr \<longleftrightarrow> (\<forall>t info. jr_done jr t = Some info \<longrightarrow> ji_status info \<noteq> Job_Running)"

lemma complete_infoD: "complete_info ds t' i t = Some info \<Longrightarrow> info = i \<or> ds t = Some info"
  by (auto simp: complete_info_def split: option.splits if_splits)

lemma complete_info_kept: "ds t = Some info \<Longrightarrow> complete_info ds t' i t = Some info"
  by (auto simp: complete_info_def split: option.split)

lemma exit_status_final [simp]: "exit_status x \<noteq> Job_Running"
  by (cases x) (simp_all add: exit_status_def)

lemma settle_job_dones:
  "jr_done (snd (settle_job i k sq x now jr)) t = Some info \<Longrightarrow> jr_done jr t = Some info \<or> ji_status info \<noteq> Job_Running"
  by (auto simp: settle_job_def finish_job_def Let_def snapshot_of_def split: option.splits if_splits dest!: complete_infoD)

lemma settle_job_keeps: "jr_done jr t = Some info \<Longrightarrow> jr_done (snd (settle_job i k sq x now jr)) t = Some info"
  by (auto simp: settle_job_def finish_job_def Let_def complete_info_kept split: option.split)

lemma settle_job_pieces [simp]:
  "jr_pieces (snd (settle_job i k sq x now jr)) = jr_pieces jr" "jr_next_tail (snd (settle_job i k sq x now jr)) = jr_next_tail jr"
  by (auto simp: settle_job_def finish_job_def Let_def split: option.split)

lemma piece_dones:
  assumes "piece_step jr jr'"
  shows "jr_done jr t = Some info \<Longrightarrow> jr_done jr' t = Some info"
    "jr_done jr' t = Some info \<Longrightarrow> jr_done jr t = Some info \<or> ji_status info \<noteq> Job_Running"
  using assms
  by (cases; auto simp: settle_piece_def settle_job_keeps dest: settle_job_dones)+

lemma final_infos_step:
  assumes "job_step jr jr'" "final_infos jr"
  shows "final_infos jr'"
  using assms
proof cases
  case (step_cancel_job i now)
  then show ?thesis using assms(2)
    by (auto simp: final_infos_def cancel_job_def finish_job_def snapshot_of_def split: option.split dest!: complete_infoD)
next
  case step_piece
  then show ?thesis using assms(2) piece_dones(2) unfolding final_infos_def by blast
qed (auto simp: final_infos_def start_job_def extend_job_def promote_job_def close_registry_def Let_def split: option.split)

lemma final_infos_reachable: "job_reachable jr \<Longrightarrow> final_infos jr"
  by (induction rule: job_reachable.induct) (simp add: new_registry_def final_infos_def, rule final_infos_step)

definition no_losses :: "'c job_registry \<Rightarrow> bool" where
  "no_losses jr \<longleftrightarrow> jr_shut jr \<or> (\<forall>p pc. jr_pieces jr p = Some pc \<longrightarrow> pc_phase pc \<noteq> Lost)"

lemma settle_job_shut [simp]: "jr_shut (snd (settle_job i k sq x now jr)) = jr_shut jr"
  by (auto simp: settle_job_def finish_job_def Let_def split: option.split)

lemma piece_step_shut: "piece_step jr jr' \<Longrightarrow> jr_shut jr' = jr_shut jr"
  by (auto elim!: piece_stepE simp: settle_piece_def)

lemma no_losses_piece:
  assumes "piece_step jr jr'" "no_losses jr"
  shows "no_losses jr'"
  using assms by cases (auto simp: no_losses_def settle_piece_def split: if_splits)

lemma no_losses_step:
  assumes "job_step jr jr'" "no_losses jr"
  shows "no_losses jr'"
  using assms
proof cases
  case step_piece
  then show ?thesis using no_losses_piece assms(2) by blast
qed (auto simp: no_losses_def start_job_def extend_job_def promote_job_def cancel_job_def finish_job_def close_registry_def Let_def
    split: option.split if_splits)

lemma no_losses_reachable: "job_reachable jr \<Longrightarrow> no_losses jr"
  by (induction rule: job_reachable.induct) (simp add: new_registry_def no_losses_def, rule no_losses_step)

fun phase_load :: "piece_phase option \<Rightarrow> nat" where
  "phase_load (Some Blocked) = 3"
| "phase_load (Some Working) = 2"
| "phase_load (Some (Ran x)) = 1"
| "phase_load _ = 0"

lemma phase_load_left: "ph \<noteq> Lost \<Longrightarrow> \<forall>x. ph \<noteq> Settled x \<Longrightarrow> 0 < phase_load (Some ph)"
  by (cases ph) simp_all

definition pieces_load :: "'c job_registry \<Rightarrow> nat" where
  "pieces_load jr = (\<Sum>p<jr_next_tail jr. phase_load (phase_of jr p))"

lemma phase_lighter:
  assumes "tails_known jr" "jr_pieces jr p = Some pc" "phase_load (Some ph) < phase_load (Some (pc_phase pc))"
    "jr_pieces jr0 = jr_pieces jr" "jr_next_tail jr0 = jr_next_tail jr"
  shows "pieces_load (set_phase p ph jr0) < pieces_load jr"
proof -
  have "p < jr_next_tail jr" using assms(1,2) unfolding tails_known_def by (metis not_le option.distinct(1))
  moreover have "phase_of (set_phase p ph jr0) q = (if q = p then Some ph else phase_of jr q)" for q
    using assms(2,4) by (simp add: phase_of_def)
  moreover have "phase_of jr p = Some (pc_phase pc)" using assms(2) by (simp add: phase_of_def)
  ultimately show ?thesis
    unfolding pieces_load_def phase_selectors assms(5)
    by (intro sum_strict_mono_ex1) (use assms(3) in auto)
qed

lemma piece_step_lighter:
  assumes "piece_step jr jr'" "job_inv jr"
  shows "pieces_load jr' < pieces_load jr"
  using assms(1) by cases (auto simp: settle_piece_def phase_load_left intro!: phase_lighter [OF job_inv_known [OF assms(2)]])

lemma running_piece_steps:
  assumes "job_inv jr" "runs_under jr t" "no_losses jr" "\<not> jr_shut jr"
  shows "\<exists>jr'. piece_step jr jr'"
proof -
  let ?ps = "pieces_of jr t"
  obtain i job where job: "map_of (jr_jobs jr) i = Some job" "is_running job" "aj_token job = t"
    using assms(2) by (auto simp: runs_under_def)
  then have "\<exists>p \<in> set ?ps. \<not> settled jr p"
    using job_inv_bookD [OF assms(1) job(1)] by (simp add: job_book_def running_book_def Let_def)
  then have "\<exists>k. k < length ?ps \<and> \<not> settled jr (?ps ! k)" by (metis in_set_conv_nth)
  then obtain k where k: "k < length ?ps" "\<not> settled jr (?ps ! k)" "\<And>l. l < k \<Longrightarrow> settled jr (?ps ! l)"
    using exists_least_iff [of "\<lambda>k. k < length ?ps \<and> \<not> settled jr (?ps ! k)"] by (metis less_trans)
  obtain pc where pc: "jr_pieces jr (?ps ! k) = Some pc" "pc_previous pc = (if k = 0 then None else Some (?ps ! (k - 1)))"
    using assms(1) k(1) unfolding job_inv_def chained_def by blast
  show ?thesis
  proof (cases "pc_phase pc")
    case Blocked
    have "may_begin jr pc"
      using pc(2) k(3) [of "k - 1"] by (cases "k = 0") (auto simp: may_begin_def tail_open_phase settled_def)
    then show ?thesis using pc(1) Blocked step_begin_piece by blast
  next
    case (Settled x)
    then show ?thesis using k(2) pc(1) by (simp add: settled_def phase_of_def)
  next
    case Lost
    then show ?thesis using assms(3,4) pc(1) by (simp add: no_losses_def)
  qed (use pc(1) step_end_piece step_settle in blast)+
qed

definition job_waits :: "nat \<Rightarrow> 'c job_registry \<Rightarrow> bool" where
  "job_waits t jr \<longleftrightarrow> job_inv jr \<and> final_infos jr \<and> no_losses jr \<and> \<not> jr_shut jr \<and> (jr_done jr t = None \<longrightarrow> runs_under jr t)"

definition job_answered :: "nat \<Rightarrow> 'c job_registry \<Rightarrow> bool" where
  "job_answered t jr \<longleftrightarrow> (\<exists>info. jr_done jr t = Some info \<and> ji_status info \<noteq> Job_Running)"

lemma piece_step_tokens: "piece_step jr jr' \<Longrightarrow> jr_next_token jr' = jr_next_token jr"
  by (auto elim!: piece_stepE simp: settle_piece_def settle_job_def finish_job_def Let_def split: option.split)

lemma job_waitsI:
  assumes "job_reachable jr" "t < jr_next_token jr" "\<not> jr_shut jr"
  shows "job_waits t jr"
  using assms job_inv_reachable [OF assms(1)] final_infos_reachable [OF assms(1)]
    no_losses_reachable [OF assms(1)] by (simp add: job_waits_def job_inv_def)

interpretation waiting: winding_down piece_step "\<lambda>jr. job_waits t jr \<and> t < jr_next_token jr" pieces_load "job_answered t" for t
proof
  fix jr jr' :: "'a job_registry"
  assume keeps: "job_waits t jr \<and> t < jr_next_token jr"
  show "job_waits t jr' \<and> t < jr_next_token jr'" if "piece_step jr jr'"
    using keeps that job_inv_piece [OF that] final_infos_step [OF step_piece [OF that]] piece_step_tokens [OF that]
      no_losses_piece [OF that] piece_step_shut [OF that]
    by (simp add: job_waits_def job_inv_def)
  show "pieces_load jr' < pieces_load jr" if "piece_step jr jr'"
    using keeps piece_step_lighter [OF that] by (simp add: job_waits_def)
  show "job_answered t jr" if stuck: "\<And>jr'. \<not> piece_step jr jr'"
  proof -
    have "jr_done jr t \<noteq> None" using keeps stuck running_piece_steps [of jr t] unfolding job_waits_def by blast
    then show ?thesis using keeps by (auto simp: job_waits_def final_infos_def job_answered_def)
  qed
qed

text \<open>C32. While the scope that owns the registry stays open, whoever waits for a job without a timeout is answered,
  with a status that is final, in whatever order the pieces of the jobs begin, end and are settled.\<close>
theorem waiters_are_answered:
  assumes "job_reachable jr" "wait_job i timeout jr = Wait_Done t" "\<not> jr_shut jr"
  shows "inevitable piece_step (job_answered t) jr"
proof (rule waiting.comes_to_rest)
  obtain job where "map_of (jr_jobs jr) i = Some job" "aj_token job = t"
    using assms(2) by (auto simp: wait_job_def split: option.splits if_splits)
  then have "t < jr_next_token jr"
    using job_inv_bookD [OF job_inv_reachable [OF assms(1)]] by (auto simp: job_book_def Let_def)
  then show "job_waits t jr \<and> t < jr_next_token jr" using job_waitsI [OF assms(1)] assms(3) by blast
qed

section \<open>A job of two pieces\<close>

definition sample_job :: "unit start_input" where
  "sample_job = \<lparr>si_id = Some (lit ''job_a''), si_type = lit ''task'', si_title = None, si_metadata = None, si_on_promote = None\<rparr>"

definition two_pieces :: "unit job_registry" where
  "two_pieces = set_phase 1 Working (set_phase 0 (Ran (Piece_Ok (lit ''first''))) (set_phase 0 Working
     (snd (extend_job (lit ''job_a'') (snd (start_job [] 5 sample_job new_registry))))))"

definition two_done :: "unit job_registry" where
  \<comment> \<open>the second piece is settled before the first\<close>
  "two_done = settle_piece 0 9 (settle_piece 1 8 (set_phase 1 (Ran (Piece_Ok (lit ''second''))) two_pieces))"

lemmas sample_defs = two_pieces_def two_done_def sample_job_def new_registry_def start_job_def new_job_def extend_job_def
  fork_piece_def set_phase_def settle_piece_def settle_job_def finish_job_def latest_output_def is_ok_def is_running_def
  scope_closed_def snapshot_of_def may_begin_def tail_open_def lit_def Let_def

lemma two_pieces_reachable: "job_reachable two_pieces"
  unfolding two_pieces_def
  by (rule reach_job_step [OF reach_job_step [OF reach_job_step [OF reach_job_step [OF reach_job_step [OF reach_registry step_start] step_extend]
        step_piece [OF step_begin_piece]] step_piece [OF step_end_piece]] step_piece [OF step_begin_piece]])
    (simp add: sample_defs)+

lemma two_done_reachable: "job_reachable two_done"
  unfolding two_done_def
  by (rule reach_job_step [OF reach_job_step [OF reach_job_step [OF two_pieces_reachable step_piece [OF step_end_piece]]
        step_piece [OF step_settle]] step_piece [OF step_settle]])
    (simp add: sample_defs)+

lemma pieces_run_one_at_a_time_witness:
  "\<exists>a. jr_pieces two_pieces 1 = Some a \<and> pc_phase a = Working \<and> \<not> scope_closed two_pieces (pc_token a) \<and>
    (\<forall>q b. jr_pieces two_pieces q = Some b \<and> pc_phase b = Working \<and> pc_token b = pc_token a \<longrightarrow> 1 = q)"
proof -
  obtain a where a: "jr_pieces two_pieces 1 = Some a" "pc_phase a = Working" "\<not> scope_closed two_pieces (pc_token a)"
    by (simp add: sample_defs)
  have "1 = q" if "jr_pieces two_pieces q = Some b" "pc_phase b = Working" "pc_token b = pc_token a" for q b
    using pieces_run_one_at_a_time [OF two_pieces_reachable a(1) that(1) a(2) that(2) that(3) [symmetric] a(3)] .
  then show ?thesis using a by blast
qed

lemma completed_job_has_last_output_witness:
  "\<exists>job p pc s. map_of (jr_jobs two_done) (lit ''job_a'') = Some job \<and> jr_pieces two_done p = Some pc \<and>
    pc_token pc = aj_token job \<and> Suc (pc_sequence pc) = aj_next job \<and> pc_phase pc = Settled (Piece_Ok s) \<and> ji_output (aj_info job) = Some s"
proof -
  obtain job where "map_of (jr_jobs two_done) (lit ''job_a'') = Some job" "ji_status (aj_info job) = Job_Completed"
    by (simp add: sample_defs exit_status_def)
  then show ?thesis using completed_job_has_last_output [OF two_done_reachable] by blast
qed

lemma waiters_are_answered_witness: "inevitable piece_step (job_answered 0) two_pieces"
proof (rule waiters_are_answered [OF two_pieces_reachable])
  show "wait_job (lit ''job_a'') None two_pieces = Wait_Done 0" by (simp add: sample_defs wait_job_def)
  show "\<not> jr_shut two_pieces" by (simp add: sample_defs)
qed

lemma closed_registry_leaves_waiters:
  \<comment> \<open>without that condition a waiter may be left: the job runs on in the book and no fiber is there to settle it\<close>
  "let jr = set_phase (Suc 0) Lost (set_phase 0 Lost (close_registry two_pieces)) in
     job_reachable jr \<and> wait_job (lit ''job_a'') None jr = Wait_Done 0 \<and> jr_done jr 0 = None \<and> (\<forall>jr'. \<not> piece_step jr jr')"
proof -
  let ?shut = "close_registry two_pieces"
  let ?jr = "set_phase (Suc 0) Lost (set_phase 0 Lost ?shut)"
  have "job_reachable ?jr"
    by (rule reach_job_step [OF reach_job_step [OF reach_job_step [OF two_pieces_reachable step_close]
        step_piece [OF step_lose_piece]] step_piece [OF step_lose_piece]])
      (simp add: sample_defs close_registry_def)+
  moreover have "wait_job (lit ''job_a'') None ?jr = Wait_Done 0" "jr_done ?jr 0 = None"
    by (simp_all add: sample_defs close_registry_def wait_job_def)
  moreover have lost: "pc_phase pc = Lost" if "jr_pieces ?jr p = Some pc" for p pc
    using that by (auto simp: sample_defs close_registry_def split: if_splits)
  moreover have "\<not> piece_step ?jr jr'" for jr'
  proof
    assume "piece_step ?jr jr'"
    then show False by cases (auto dest!: lost simp del: phase_selectors)
  qed
  ultimately show ?thesis by (simp add: Let_def)
qed

end
