(* ===== verification/OpenAIChat.thy ===== *)
theory OpenAIChat imports LlmStream begin

text \<open>
  The stream parser of the OpenAI Chat protocol (packages/llm/src/protocols/openai-chat.ts). Absent and
  null fields of a decoded event are both \<open>None\<close>; the index of a tool call is a natural number. The
  raw usage payload is kept as decoded.
\<close>

section \<open>Decoded events\<close>

record chat_usage =
  prompt_tokens :: "int option"
  completion_tokens :: "int option"
  chat_total :: "int option"
  cached_tokens :: "int option" \<comment> \<open>\<open>prompt_tokens_details?.cached_tokens\<close>\<close>
  chat_reasoning :: "int option" \<comment> \<open>\<open>completion_tokens_details?.reasoning_tokens\<close>\<close>
  raw_usage :: json

record chat_function =
  fn_name :: "jstring option"
  fn_arguments :: "jstring option"

record chat_tool_delta =
  ct_index :: nat
  ct_id :: "jstring option"
  ct_function :: "chat_function option"

record chat_delta =
  delta_content :: "jstring option"
  delta_reasoning :: "jstring option"
  delta_tool_calls :: "chat_tool_delta list option"

record chat_choice =
  choice_delta :: "chat_delta option"
  choice_finish :: "jstring option"

record chat_event =
  ce_choices :: "chat_choice list"
  ce_usage :: "chat_usage option"

record chat_state =
  cs_tools :: "nat tools"
  cs_calls :: "llm_event list"
  cs_usage :: "usage option"
  cs_reason :: "finish_reason option"
  cs_lifecycle :: lifecycle

section \<open>The parser\<close>

definition CHAT_ADAPTER :: jstring where "CHAT_ADAPTER = lit ''openai-chat''"
definition MISSING_CALL :: jstring where "MISSING_CALL = lit ''OpenAI Chat tool call delta is missing id or name''"

definition map_finish_reason :: "jstring \<Rightarrow> finish_reason" where
  "map_finish_reason r =
    (if r = lit ''stop'' then Stop
     else if r = lit ''length'' then Length
     else if r = lit ''content_filter'' then ContentFilter
     else if r = lit ''function_call'' \<or> r = lit ''tool_calls'' then ToolCalls
     else Unknown)"

definition map_usage :: "chat_usage option \<Rightarrow> usage option" where
  "map_usage u =
    (case u of
       None \<Rightarrow> None
     | Some w \<Rightarrow>
         Some \<lparr>input_tokens = prompt_tokens w, output_tokens = completion_tokens w,
           non_cached_input_tokens = subtract_tokens (prompt_tokens w) (cached_tokens w),
           cache_read_input_tokens = cached_tokens w, cache_write_input_tokens = None,
           reasoning_tokens = chat_reasoning w,
           total_tokens = total_of (prompt_tokens w) (completion_tokens w) (chat_total w),
           usage_metadata = Some [(lit ''openai'', raw_usage w)]\<rparr>)"

definition present :: "jstring option \<Rightarrow> jstring" where
  \<comment> \<open>a text that is absent or empty is falsy\<close>
  "present t = (case t of Some s \<Rightarrow> s | None \<Rightarrow> [])"

definition delta_of :: "chat_tool_delta \<Rightarrow> tool_delta" where
  "delta_of d = \<lparr>td_id = ct_id d, td_name = Option.bind (ct_function d) fn_name,
     td_text = present (Option.bind (ct_function d) fn_arguments)\<rparr>"

fun chat_tools :: "nat tools \<Rightarrow> lifecycle \<Rightarrow> chat_tool_delta list \<Rightarrow> (llm_error, nat tools \<times> lifecycle \<times> llm_event list) result" where
  \<comment> \<open>the loop over the tool deltas of a chunk\<close>
  "chat_tools tools lc [] = Inr (tools, lc, [])"
| "chat_tools tools lc (d # ds) =
    rbind (append_or_start CHAT_ADAPTER tools (ct_index d) (delta_of d) MISSING_CALL) (\<lambda>r.
      let (lc1, e1) = (if ao_events r \<noteq> [] then step_start lc else (lc, [])) in
      rbind (chat_tools (ao_tools r) lc1 ds) (\<lambda>(tools', lc', evs). Inr (tools', lc', e1 @ ao_events r @ evs)))"

definition chat_blocks :: "jstring \<Rightarrow> jstring \<Rightarrow> bool \<Rightarrow> lifecycle \<Rightarrow> lifecycle \<times> llm_event list" where
  \<comment> \<open>the reasoning, content and tool-call conditionals of \<open>step\<close>, in order\<close>
  "chat_blocks reasoning content calls lc =
    (let (l1, e1) = (if reasoning \<noteq> [] then reasoning_delta (lit ''reasoning-0'') reasoning None lc else (lc, []));
         (l2, e2) = (if content \<noteq> [] then reasoning_end (lit ''reasoning-0'') None l1 else (l1, []));
         (l3, e3) = (if content \<noteq> [] then text_delta (lit ''text-0'') content l2 else (l2, []));
         (l4, e4) = (if calls then reasoning_end (lit ''reasoning-0'') None l3 else (l3, []))
     in (l4, e1 @ e2 @ e3 @ e4))"

definition first_choice :: "chat_event \<Rightarrow> chat_choice option" where
  "first_choice e = (case ce_choices e of [] \<Rightarrow> None | c # cs \<Rightarrow> Some c)"

definition event_delta :: "chat_event \<Rightarrow> chat_delta option" where
  "event_delta e = Option.bind (first_choice e) choice_delta"

definition event_content :: "chat_event \<Rightarrow> jstring" where
  "event_content e = present (Option.bind (event_delta e) delta_content)"

definition event_reasoning :: "chat_event \<Rightarrow> jstring" where
  "event_reasoning e = present (Option.bind (event_delta e) delta_reasoning)"

definition event_calls :: "chat_event \<Rightarrow> chat_tool_delta list" where
  "event_calls e = (case Option.bind (event_delta e) delta_tool_calls of Some ds \<Rightarrow> ds | None \<Rightarrow> [])"

definition event_reason :: "chat_event \<Rightarrow> finish_reason option" where
  "event_reason e =
    (let r = present (Option.bind (first_choice e) choice_finish)
     in if r = [] then None else Some (map_finish_reason r))"

definition chat_step :: "(jstring \<Rightarrow> json option) \<Rightarrow> chat_state \<Rightarrow> chat_event \<Rightarrow> (llm_error, chat_state \<times> llm_event list) result" where
  "chat_step decode st e =
    (let reason = or_else (event_reason e) (cs_reason st);
         (lc1, e1) = chat_blocks (event_reasoning e) (event_content e) (event_calls e \<noteq> []) (cs_lifecycle st) in
     rbind (chat_tools (cs_tools st) lc1 (event_calls e)) (\<lambda>(tools, lc2, e2).
       rbind (if reason \<noteq> None \<and> cs_reason st = None \<and> tools \<noteq> []
              then rbind (finish_all numeric_order decode CHAT_ADAPTER tools) (\<lambda>r. Inr (Some r))
              else Inr None) (\<lambda>finished.
         Inr (\<lparr>cs_tools = (case finished of Some (ts, evs) \<Rightarrow> ts | None \<Rightarrow> tools),
               cs_calls = (case finished of Some (ts, evs) \<Rightarrow> evs | None \<Rightarrow> cs_calls st),
               cs_usage = or_else (map_usage (ce_usage e)) (cs_usage st),
               cs_reason = reason, cs_lifecycle = lc2\<rparr>, e1 @ e2))))"

definition final_reason :: "chat_state \<Rightarrow> finish_reason option" where
  "final_reason st = (if cs_reason st = Some Stop \<and> cs_calls st \<noteq> [] then Some ToolCalls else cs_reason st)"

definition finish_events :: "chat_state \<Rightarrow> llm_event list" where
  "finish_events st =
    (let (lc, e1) = (if cs_calls st \<noteq> [] then step_start (cs_lifecycle st) else (cs_lifecycle st, []))
     in e1 @ cs_calls st @
        (case final_reason st of Some r \<Rightarrow> snd (finish r (cs_usage st) None lc) | None \<Rightarrow> []))"

definition chat_initial :: chat_state where
  "chat_initial = \<lparr>cs_tools = [], cs_calls = [], cs_usage = None, cs_reason = None, cs_lifecycle = initial\<rparr>"

section \<open>The parser keeps the contract\<close>

definition chat_ok :: "chat_state \<Rightarrow> bool" where
  "chat_ok st \<longleftrightarrow> wf_lifecycle (cs_lifecycle st) \<and> list_all is_tool_event (cs_calls st)"

definition chat_trace :: "chat_state \<Rightarrow> trace_state" where
  "chat_trace st = trace_of (cs_lifecycle st)"

lemma step_start_in_step: "in_step (trace_of (fst (step_start lc)))"
  by (simp add: step_start_def trace_of_def)

interpretation chat_blocks: lifecycle_op "chat_blocks r c b" for r c b
proof
  fix lc assume wf: "wf_lifecycle lc"
  let ?l1 = "if r \<noteq> [] then reasoning_delta (lit ''reasoning-0'') r None lc else (lc, [])"
  let ?l2 = "if c \<noteq> [] then reasoning_end (lit ''reasoning-0'') None (fst ?l1) else (fst ?l1, [])"
  let ?l3 = "if c \<noteq> [] then text_delta (lit ''text-0'') c (fst ?l2) else (fst ?l2, [])"
  let ?l4 = "if b then reasoning_end (lit ''reasoning-0'') None (fst ?l3) else (fst ?l3, [])"
  have eq: "chat_blocks r c b lc = (fst ?l4, snd ?l1 @ snd ?l2 @ snd ?l3 @ snd ?l4)"
    unfolding chat_blocks_def Let_def case_prod_beta fst_conv snd_conv ..
  have w1: "wf_lifecycle (fst ?l1)" using wf reasoning_delta.keeps_wf by simp
  have w2: "wf_lifecycle (fst ?l2)" using w1 reasoning_end.keeps_wf by (cases "c = []") (simp only: if_True if_False simp_thms fst_conv)+
  have w3: "wf_lifecycle (fst ?l3)" using w2 text_delta.keeps_wf by (cases "c = []") (simp only: if_True if_False simp_thms fst_conv)+
  have w4: "wf_lifecycle (fst ?l4)" using w3 reasoning_end.keeps_wf by (cases b) (simp only: if_True if_False fst_conv)+
  have t1: "run (trace_of lc) (snd ?l1) = Some (trace_of (fst ?l1))"
    using reasoning_delta.traces [OF wf] by (cases "r = []") simp_all
  have t2: "run (trace_of (fst ?l1)) (snd ?l2) = Some (trace_of (fst ?l2))"
    using reasoning_end.traces [OF w1] by (cases "c = []") (simp_all only: if_True if_False simp_thms fst_conv snd_conv run.simps)
  have t3: "run (trace_of (fst ?l2)) (snd ?l3) = Some (trace_of (fst ?l3))"
    using text_delta.traces [OF w2] by (cases "c = []") (simp_all only: if_True if_False simp_thms fst_conv snd_conv run.simps)
  have t4: "run (trace_of (fst ?l3)) (snd ?l4) = Some (trace_of (fst ?l4))"
    using reasoning_end.traces [OF w3] by (cases b) (simp_all only: if_True if_False simp_thms fst_conv snd_conv run.simps)
  show "wf_lifecycle (fst (chat_blocks r c b lc))" unfolding eq fst_conv by (rule w4)
  show "run (trace_of lc) (snd (chat_blocks r c b lc)) = Some (trace_of (fst (chat_blocks r c b lc)))"
    unfolding eq fst_conv snd_conv by (intro run_appendI [OF t1] run_appendI [OF t2] run_appendI [OF t3] t4)
qed

lemma chat_tools_trace:
  "wf_lifecycle lc \<Longrightarrow> chat_tools tools lc ds = Inr (tools', lc', evs) \<Longrightarrow>
   wf_lifecycle lc' \<and> run (trace_of lc) evs = Some (trace_of lc')"
proof (induction ds arbitrary: tools lc evs)
  case (Cons d ds)
  from Cons.prems(2) obtain r evs' where
    a: "append_or_start CHAT_ADAPTER tools (ct_index d) (delta_of d) MISSING_CALL = Inr r" and
    rest: "chat_tools (ao_tools r) (fst (if ao_events r \<noteq> [] then step_start lc else (lc, []))) ds = Inr (tools', lc', evs')" and
    evs: "evs = snd (if ao_events r \<noteq> [] then step_start lc else (lc, [])) @ ao_events r @ evs'"
    by (auto simp: rbind_Inr_iff Let_def case_prod_beta simp del: split_paired_All split_paired_Ex)
  let ?l = "if ao_events r \<noteq> [] then step_start lc else (lc, [])"
  have w: "wf_lifecycle (fst ?l)" using Cons.prems(1) step_start.keeps_wf by simp
  have t1: "run (trace_of lc) (snd ?l) = Some (trace_of (fst ?l))"
    using step_start.traces [OF Cons.prems(1)] by (cases "ao_events r = []") simp_all
  have t2: "run (trace_of (fst ?l)) (ao_events r) = Some (trace_of (fst ?l))"
    using run_tool_events [OF append_or_start_events [OF a] step_start_in_step [of lc]]
    by (cases "ao_events r = []") simp_all
  from Cons.IH [OF w rest] have "wf_lifecycle lc'" "run (trace_of (fst ?l)) evs' = Some (trace_of lc')" by auto
  then show ?case unfolding evs using t1 t2 by (blast intro: run_appendI)
qed simp

lemma chat_step_InrD:
  assumes "chat_step decode st e = Inr (st', evs)"
  shows "\<exists>tools lc2 e2. chat_tools (cs_tools st)
      (fst (chat_blocks (event_reasoning e) (event_content e) (event_calls e \<noteq> []) (cs_lifecycle st))) (event_calls e) =
      Inr (tools, lc2, e2) \<and> cs_lifecycle st' = lc2 \<and>
    evs = snd (chat_blocks (event_reasoning e) (event_content e) (event_calls e \<noteq> []) (cs_lifecycle st)) @ e2 \<and>
    cs_reason st' = or_else (event_reason e) (cs_reason st) \<and>
    (cs_calls st' = cs_calls st \<or> list_all is_tool_event (cs_calls st'))"
proof -
  let ?b = "chat_blocks (event_reasoning e) (event_content e) (event_calls e \<noteq> []) (cs_lifecycle st)"
  from assms obtain tools lc2 e2 where t: "chat_tools (cs_tools st) (fst ?b) (event_calls e) = Inr (tools, lc2, e2)"
    by (cases "chat_tools (cs_tools st) (fst ?b) (event_calls e)")
      (auto simp: chat_step_def Let_def case_prod_beta)
  show ?thesis
  proof (cases "or_else (event_reason e) (cs_reason st) \<noteq> None \<and> cs_reason st = None \<and> tools \<noteq> []")
    case True
    with assms t obtain ts calls where f: "finish_all numeric_order decode CHAT_ADAPTER tools = Inr (ts, calls)"
      and "cs_lifecycle st' = lc2" "evs = snd ?b @ e2" "cs_calls st' = calls"
        "cs_reason st' = or_else (event_reason e) (cs_reason st)"
      by (auto simp: chat_step_def Let_def case_prod_beta rbind_Inr_iff)
    with finish_all_events [OF f] t show ?thesis by blast
  next
    case False
    with assms t have "cs_lifecycle st' = lc2" "evs = snd ?b @ e2" "cs_calls st' = cs_calls st"
        "cs_reason st' = or_else (event_reason e) (cs_reason st)"
      by (auto simp: chat_step_def Let_def case_prod_beta)
    with t show ?thesis by blast
  qed
qed

interpretation chat: stream_parser "chat_step decode" finish_events chat_ok chat_trace for decode
proof
  fix st e st' evs assume ok: "chat_ok st" and s: "chat_step decode st e = Inr (st', evs)"
  let ?b = "chat_blocks (event_reasoning e) (event_content e) (event_calls e \<noteq> []) (cs_lifecycle st)"
  have wf: "wf_lifecycle (cs_lifecycle st)" using ok by (simp add: chat_ok_def)
  from chat_step_InrD [OF s] obtain tools lc2 e2 where
    t: "chat_tools (cs_tools st) (fst ?b) (event_calls e) = Inr (tools, lc2, e2)" and
    l: "cs_lifecycle st' = lc2" "evs = snd ?b @ e2" and
    c: "cs_calls st' = cs_calls st \<or> list_all is_tool_event (cs_calls st')" by blast
  note r = chat_tools_trace [OF chat_blocks.keeps_wf [OF wf] t]
  show "chat_ok st'" using r l c ok by (auto simp: chat_ok_def)
  show "run (chat_trace st) evs = Some (chat_trace st')"
    using run_appendI [OF chat_blocks.traces [OF wf]] r l by (simp add: chat_trace_def)
next
  fix st assume ok: "chat_ok st"
  let ?l = "if cs_calls st \<noteq> [] then step_start (cs_lifecycle st) else (cs_lifecycle st, [])"
  have wf: "wf_lifecycle (cs_lifecycle st)" and calls: "list_all is_tool_event (cs_calls st)"
    using ok by (simp_all add: chat_ok_def)
  have w: "wf_lifecycle (fst ?l)" using wf step_start.keeps_wf by simp
  have t1: "run (chat_trace st) (snd ?l) = Some (trace_of (fst ?l))"
    using step_start.traces [OF wf] by (cases "cs_calls st = []") (simp_all add: chat_trace_def)
  have t2: "run (trace_of (fst ?l)) (cs_calls st) = Some (trace_of (fst ?l))"
    using run_tool_events [OF calls step_start_in_step] by (cases "cs_calls st = []") simp_all
  have "\<exists>t. run (trace_of (fst ?l)) (case final_reason st of Some r \<Rightarrow> snd (finish r (cs_usage st) None (fst ?l)) | None \<Rightarrow> []) = Some t"
    using finish_traces [OF w] by (cases "final_reason st") auto
  then obtain t where t3: "run (trace_of (fst ?l)) (case final_reason st of Some r \<Rightarrow> snd (finish r (cs_usage st) None (fst ?l)) | None \<Rightarrow> []) = Some t"
    by blast
  have "finish_events st = snd ?l @ cs_calls st @ (case final_reason st of Some r \<Rightarrow> snd (finish r (cs_usage st) None (fst ?l)) | None \<Rightarrow> [])"
    unfolding finish_events_def Let_def case_prod_beta ..
  then show "run (chat_trace st) (finish_events st) \<noteq> None"
    using run_appendI [OF t1 run_appendI [OF t2 t3]] by simp
qed

end
