(* ===== verification/ChatProps.thy ===== *)
theory ChatProps imports OpenAIChat begin

text \<open>
  What a whole OpenAI Chat stream amounts to: the trace is well bracketed even when the stream fails
  half way, the text and the reasoning are those of the deltas, and the response completes with the
  provider's finish reason.
\<close>

lemma chat_tools_silent:
  "chat_tools tools lc ds = Inr (tools', lc', evs) \<Longrightarrow> response_text evs = [] \<and> response_reasoning evs = []"
proof (induction ds arbitrary: tools lc evs)
  case (Cons d ds)
  from Cons.prems obtain r evs' where
    a: "append_or_start CHAT_ADAPTER tools (ct_index d) (delta_of d) MISSING_CALL = Inr r" and
    rest: "chat_tools (ao_tools r) (fst (if ao_events r \<noteq> [] then step_start lc else (lc, []))) ds = Inr (tools', lc', evs')" and
    evs: "evs = snd (if ao_events r \<noteq> [] then step_start lc else (lc, [])) @ ao_events r @ evs'"
    by (auto simp: rbind_Inr_iff Let_def case_prod_beta simp del: split_paired_All split_paired_Ex)
  show ?case
    unfolding evs using Cons.IH [OF rest] tool_events_silent [OF append_or_start_events [OF a]]
    by (cases "ao_events r = []") simp_all
qed simp

lemma chat_blocks_text:
  "response_text (snd (chat_blocks r c b lc)) = c \<and> response_reasoning (snd (chat_blocks r c b lc)) = r"
  unfolding chat_blocks_def Let_def case_prod_beta
  by (cases "r = []"; cases "c = []"; cases b) simp_all

lemma chat_step_text:
  assumes "chat_step decode st e = Inr (st', evs)"
  shows "response_text evs = event_content e \<and> response_reasoning evs = event_reasoning e"
proof -
  from chat_step_InrD [OF assms] obtain tools lc2 e2 where
    t: "chat_tools (cs_tools st) (fst (chat_blocks (event_reasoning e) (event_content e) (event_calls e \<noteq> []) (cs_lifecycle st)))
      (event_calls e) = Inr (tools, lc2, e2)" and
    l: "evs = snd (chat_blocks (event_reasoning e) (event_content e) (event_calls e \<noteq> []) (cs_lifecycle st)) @ e2" by blast
  show ?thesis unfolding l using chat_tools_silent [OF t]
      chat_blocks_text [of "event_reasoning e" "event_content e" "event_calls e \<noteq> []" "cs_lifecycle st"] by simp
qed

lemma chat_ok_settled: "settle (chat_step decode) chat_initial es = Some st \<Longrightarrow> chat_ok st"
  by (erule chat.settle_ok [rotated]) (simp add: chat_ok_def chat_initial_def trace_of_initial)

lemma finish_events_silent:
  "chat_ok st \<Longrightarrow> response_text (finish_events st) = [] \<and> response_reasoning (finish_events st) = []"
  using tool_events_silent [of "cs_calls st"]
  by (cases "cs_calls st = []"; cases "final_reason st")
    (simp_all add: finish_events_def chat_ok_def case_prod_beta Let_def)

lemma settle_reason:
  "settle (chat_step decode) st es = Some st' \<Longrightarrow>
   cs_reason st' = fold (\<lambda>e r. or_else (event_reason e) r) es (cs_reason st)"
proof (induction es arbitrary: st)
  case (Cons e es)
  from Cons.prems obtain st1 evs where "chat_step decode st e = Inr (st1, evs)" "settle (chat_step decode) st1 es = Some st'"
    by (auto split: sum.splits)
  with Cons.IH chat_step_InrD show ?case by fastforce
qed simp

text \<open>C25. Whatever the provider sends, what an OpenAI Chat stream emits is a well-bracketed trace: a step
  is started before anything happens in it, a block is started before its deltas and ended at most
  once, and a step finishes with no block open. This holds of the prefix emitted before a failure.\<close>

theorem chat_stream_well_bracketed:
  "run idle_trace (fst (drive (chat_step decode) finish_events chat_initial es)) \<noteq> None"
proof -
  have ok: "chat_ok chat_initial" by (simp add: chat_ok_def chat_initial_def trace_of_initial)
  have "chat_trace chat_initial = idle_trace" by (simp add: chat_trace_def chat_initial_def trace_of_initial)
  with chat.drive_trace [OF ok] show ?thesis by metis
qed

lemma drive_text:
  assumes "drive (chat_step decode) finish_events st es = (evs, None)" "chat_ok st"
  shows "response_text evs = concat (map event_content es) \<and> response_reasoning evs = concat (map event_reasoning es)"
  using assms
proof (induction es arbitrary: st evs)
  case Nil
  then show ?case using finish_events_silent [of st] by auto
next
  case (Cons e es)
  from Cons.prems(1) obtain st1 evs1 rest where s: "chat_step decode st e = Inr (st1, evs1)"
    "drive (chat_step decode) finish_events st1 es = (rest, None)" "evs = evs1 @ rest"
    by (auto split: sum.splits prod.splits)
  from Cons.IH [OF s(2) chat.step_ok [OF Cons.prems(2) s(1)]] chat_step_text [OF s(1)] s(3) show ?case by simp
qed

lemma reason_fold_append: "fold reason_after (xs @ [Finish r u m]) old = Some r"
  by simp

text \<open>A stream that does not fail and in which a finish reason arrives yields a complete response: its
  text and reasoning are the concatenations of the deltas, and its finish reason is the last one the
  provider gave, a plain stop counting as tool calls when calls were accumulated.\<close>

theorem chat_response:
  assumes "drive (chat_step decode) finish_events chat_initial es = (evs, None)"
    and "fold (\<lambda>e r. or_else (event_reason e) r) es None = Some given"
  shows "\<exists>r. from_events evs = Some r \<and> response_text (res_events r) = concat (map event_content es) \<and>
    response_reasoning (res_events r) = concat (map event_reasoning es) \<and>
    (res_reason r = given \<or> given = Stop \<and> res_reason r = ToolCalls)"
proof -
  have ok: "chat_ok chat_initial" by (simp add: chat_ok_def chat_initial_def trace_of_initial)
  from drive_halt [OF assms(1)] obtain st pre where st: "settle (chat_step decode) chat_initial es = Some st"
    and evs: "evs = pre @ finish_events st" by blast
  have reason: "cs_reason st = Some given"
    using settle_reason [OF st] assms(2) by (simp add: chat_initial_def)
  then obtain fin where fin: "final_reason st = Some fin" "fin = given \<or> given = Stop \<and> fin = ToolCalls"
    by (cases "given = Stop \<and> cs_calls st \<noteq> []") (auto simp: final_reason_def)
  have "\<exists>ys. finish_events st = ys @ [Finish fin (cs_usage st) None]"
    unfolding finish_events_def Let_def case_prod_beta fin(1) finish_def by simp
  then obtain zs where evs': "evs = zs @ [Finish fin (cs_usage st) None]" using evs by auto
  have meta: "resp_reason (reduce_all evs) = Some fin" "events (reduce_all evs) = evs"
    using reduce_all_meta [of evs] by (simp_all add: evs')
  then show ?thesis
    using drive_text [OF assms(1) ok] fin(2) by (auto simp: from_events_def complete_def)
qed

lemma chat_response_witness:
  "\<exists>evs r. drive (chat_step (\<lambda>s. Some (JStr s))) finish_events chat_initial
     [\<lparr>ce_choices = [\<lparr>choice_delta = Some \<lparr>delta_content = Some (lit ''hi''), delta_reasoning = None, delta_tool_calls = None\<rparr>,
        choice_finish = Some (lit ''stop'')\<rparr>], ce_usage = None\<rparr>] = (evs, None) \<and>
   from_events evs = Some r \<and> response_text (res_events r) = lit ''hi'' \<and> res_reason r = Stop"
proof -
  let ?es = "[\<lparr>ce_choices = [\<lparr>choice_delta = Some \<lparr>delta_content = Some (lit ''hi''), delta_reasoning = None, delta_tool_calls = None\<rparr>,
        choice_finish = Some (lit ''stop'')\<rparr>], ce_usage = None\<rparr>]"
  let ?evs = "[StepStart 0, TextStart (lit ''text-0'') None, TextDelta (lit ''text-0'') (lit ''hi'') None,
      TextEnd (lit ''text-0'') None, StepFinish 0 Stop None None, Finish Stop None None]"
  have d: "drive (chat_step (\<lambda>s. Some (JStr s))) finish_events chat_initial ?es = (?evs, None)" by code_simp
  have g: "fold (\<lambda>e r. or_else (event_reason e) r) ?es None = Some Stop" by code_simp
  have t: "concat (map event_content ?es) = lit ''hi''" by code_simp
  have rr: "from_events ?evs = Some r \<Longrightarrow> res_reason r = Stop" for r
    using reduce_all_meta [of ?evs] by (auto simp: from_events_def complete_def split: option.splits)
  from chat_response [OF d g] d rr t show ?thesis by metis
qed

text \<open>The usage the parser reports keeps the contract of the token counts: the fresh part of the prompt is
  the prompt minus its cached part, never negative, and the parts add up to the prompt unless the
  provider claims more cached tokens than prompt tokens; the visible output is never negative.\<close>

theorem chat_usage_contract:
  "case map_usage (Some w) of
     None \<Rightarrow> False
   | Some u \<Rightarrow>
       (prompt_tokens w = None \<longrightarrow> non_cached_input_tokens u = None) \<and>
       (case (prompt_tokens w, cached_tokens w) of
          (Some p, Some c) \<Rightarrow> non_cached_input_tokens u = Some (max 0 (p - c)) \<and>
            (c \<le> p \<longrightarrow> the (non_cached_input_tokens u) + the (cache_read_input_tokens u) = the (input_tokens u))
        | _ \<Rightarrow> non_cached_input_tokens u = prompt_tokens w) \<and>
       0 \<le> visible_output_tokens u"
  by (auto simp: map_usage_def subtract_tokens_def visible_output_tokens_def split: option.split)

lemma chat_usage_contract_witness:
  "\<exists>u. map_usage (Some \<lparr>prompt_tokens = Some 10, completion_tokens = Some 2, chat_total = None, cached_tokens = Some 4,
      chat_reasoning = Some 5, raw_usage = JNull\<rparr>) = Some u \<and>
    the (non_cached_input_tokens u) + the (cache_read_input_tokens u) = the (input_tokens u)"
  using chat_usage_contract [of "\<lparr>prompt_tokens = Some 10, completion_tokens = Some 2, chat_total = None, cached_tokens = Some 4,
      chat_reasoning = Some 5, raw_usage = JNull\<rparr>"]
  by (auto split: option.splits)

end
