(* ===== verification/Compaction.thy ===== *)
theory Compaction imports ContextEpoch InboxOrder LlmMessages begin

text \<open>
  Compaction of a session (packages/core/src/session/compaction.ts, packages/core/src/util/token.ts): which
  part of the conversation is summarised and which is kept as it is, and the events a compaction publishes.
  The text of the request whose size is estimated and the stream of the summary are arguments; token counts
  of models are integers.
\<close>

section \<open>Text of the conversation\<close>

definition token_estimate :: "jstring \<Rightarrow> int" where
  \<comment> \<open>\<open>Math.round(length / 4)\<close>, a half rounds up\<close>
  "token_estimate s = max 0 ((int (length s) + 2) div 4)"

definition truncate :: "jstring \<Rightarrow> jstring" where
  "truncate s = (if length s \<le> 2000 then s else take 2000 s @ LF # lit ''[truncated]'')"

fun serialize_item :: "json \<Rightarrow> jstring" where
  "serialize_item v =
    (if field_of v ''type'' = Some (JStr (lit ''text'')) then ref_text v ''text''
     else lit ''[Attached '' @ ref_text v ''mime'' @ (case field_of v ''name'' of None \<Rightarrow> [] | Some n \<Rightarrow> lit '': '' @ js_string n) @ lit '']'')"

definition serialize_tool_content :: "json list \<Rightarrow> jstring" where
  "serialize_tool_content content = lines (map serialize_item content)"

definition serialize_file :: "json \<Rightarrow> jstring" where
  \<comment> \<open>\<open>null\<close> is not a name\<close>
  "serialize_file f = lit ''[Attached '' @ ref_text f ''mime'' @ lit '': '' @
     (case field_of f ''name'' of Some JNull \<Rightarrow> ref_text f ''uri'' | Some n \<Rightarrow> js_string n | None \<Rightarrow> ref_text f ''uri'') @ lit '']''"

fun state_input :: "tool_state \<Rightarrow> jstring" where
  "state_input (Pending s) = s"
| "state_input (Running v s c) = (case v of JStr t \<Rightarrow> t | _ \<Rightarrow> stringify v)"
| "state_input (Completed v s c p r) = (case v of JStr t \<Rightarrow> t | _ \<Rightarrow> stringify v)"
| "state_input (Errored v s c e r) = (case v of JStr t \<Rightarrow> t | _ \<Rightarrow> stringify v)"

fun serialize_part :: "assistant_content \<Rightarrow> jstring list" where
  "serialize_part (CText t) = [lit ''[Assistant]: '' @ tx_text t]"
| "serialize_part (CReasoning r) = (if rs_text r = [] then [] else [lit ''[Assistant reasoning]: '' @ rs_text r])"
| "serialize_part (CTool t) =
    (let call = lit ''[Assistant tool call]: '' @ ti_name t @ lit ''('' @ state_input (ti_state t) @ lit '')''
     in case ti_state t of
          Completed _ _ content _ _ \<Rightarrow> [call, lit ''[Tool result]: '' @ truncate (serialize_tool_content content)]
        | Errored _ _ _ error _ \<Rightarrow> [call, lit ''[Tool error]: '' @ error]
        | _ \<Rightarrow> [call])"

fun serialize :: "session_message \<Rightarrow> jstring" where
  "serialize (UserMessage i md t p) = lines ((lit ''[User]: '' @ pr_text p) #
     (case pr_files p of Some (JArr fs) \<Rightarrow> map serialize_file fs | _ \<Rightarrow> []))"
| "serialize (AssistantMessage a) = lines (concat (map serialize_part (am_content a)))"
| "serialize (SystemMessage i t s) = lit ''[System update]: '' @ s"
| "serialize (SyntheticMessage i t sid s) = lit ''[Synthetic context]: '' @ s"
| "serialize (ShellMessage s) = lit ''[Shell]: '' @ sh_command s @ LF # truncate (sh_output s)"
| "serialize m = []"

section \<open>Settings\<close>

record compaction_info =
  ci_auto :: "bool option"
  ci_buffer :: "int option"
  ci_keep :: "int option option" \<comment> \<open>\<open>keep.tokens\<close>\<close>

record compaction_settings =
  cs_auto :: bool
  cs_buffer :: int
  cs_tokens :: int

definition apply_info :: "compaction_info \<Rightarrow> compaction_settings \<Rightarrow> compaction_settings" where
  "apply_info c r = \<lparr>cs_auto = (case ci_auto c of Some b \<Rightarrow> b | None \<Rightarrow> cs_auto r),
     cs_buffer = (case ci_buffer c of Some n \<Rightarrow> n | None \<Rightarrow> cs_buffer r),
     cs_tokens = (case Option.bind (ci_keep c) id of Some n \<Rightarrow> n | None \<Rightarrow> cs_tokens r)\<rparr>"

definition compaction_settings_of :: "compaction_info option list \<Rightarrow> compaction_settings" where
  \<comment> \<open>the \<open>compaction\<close> of each configuration document, in order\<close>
  "compaction_settings_of docs = fold apply_info (concat (map (\<lambda>d. case d of Some c \<Rightarrow> [c] | None \<Rightarrow> []) docs))
     \<lparr>cs_auto = True, cs_buffer = 20000, cs_tokens = 8000\<rparr>"

section \<open>Head and recent part\<close>

fun split_point :: "jstring list \<Rightarrow> int \<Rightarrow> int \<Rightarrow> (nat \<times> jstring \<times> jstring) \<Rightarrow> nat \<Rightarrow> (nat \<times> jstring \<times> jstring)" where
  \<comment> \<open>the loop of \<open>select\<close>, with the number of messages still to look at; it yields \<open>split\<close>, \<open>splitPrefix\<close>
     and \<open>splitSuffix\<close>\<close>
  "split_point conv tokens used (split, prefix, suffix) 0 = (split, prefix, suffix)"
| "split_point conv tokens used (split, prefix, suffix) (Suc i) =
    (let s = conv ! i; nxt = used + token_estimate s in
     if tokens < nxt then
       (let remaining = nat (max 0 (tokens - used) * 4) in
        if 0 < remaining then (Suc i, take (length s - remaining) s, drop (length s - remaining) s) else (split, prefix, suffix))
     else split_point conv tokens nxt (i, prefix, suffix) i)"

definition conversation :: "message_row list \<Rightarrow> jstring list" where
  "conversation entries =
    filter (\<lambda>s. s \<noteq> []) (map (serialize \<circ> mr_message) (filter (\<lambda>r. \<not> is_compaction (mr_message r)) entries))"

definition paragraphs :: "jstring list \<Rightarrow> jstring" where
  \<comment> \<open>\<open>filter(Boolean).join("\n\n")\<close>\<close>
  "paragraphs ps = join_with [LF, LF] (filter (\<lambda>s. s \<noteq> []) ps)"

definition select :: "message_row list \<Rightarrow> int \<Rightarrow> (jstring \<times> jstring) option" where
  "select entries tokens =
    (let conv = conversation entries in
     if conv = [] then None
     else (case split_point conv tokens 0 (length conv, [], []) (length conv) of
         (split, prefix, suffix) \<Rightarrow> Some (paragraphs (take split conv @ [prefix]), paragraphs (suffix # drop split conv))))"

section \<open>The prompt for the summary\<close>

definition summary_template :: jstring where
  "summary_template = lines
     [lit ''Output exactly the Markdown structure shown inside <template> and keep the section order unchanged. Do not include the <template> tags in your response.'',
      lit ''<template>'',
      lit ''## Objective'',
      lit ''- [one or two brief sentences describing what the user is trying to accomplish]'',
      [],
      lit ''## Important Details'',
      lit ''- [constraints/preferences, decisions and why, important facts/assumptions, exact context needed to continue, or \"(none)\"]'',
      [],
      lit ''## Work State'',
      lit ''### Completed'',
      lit ''- [finished work, verified facts, or changes made; otherwise \"(none)\"]'',
      [],
      lit ''### Active'',
      lit ''- [current work, partial changes, or investigation state; otherwise \"(none)\"]'',
      [],
      lit ''### Blocked'',
      lit ''- [blockers, failing commands, or unknowns; otherwise \"(none)\"]'',
      [],
      lit ''## Next Move'',
      lit ''1. [immediate concrete action, or \"(none)\"]'',
      lit ''2. [next action if known, or \"(none)\"]'',
      [],
      lit ''## Relevant Files'',
      lit ''- [file or directory path: why it matters, or \"(none)\"]'',
      lit ''</template>'',
      [],
      lit ''Rules:'',
      lit ''- Keep every section, even when empty.'',
      lit ''- Use terse bullets, not prose paragraphs.'',
      lit ''- Preserve exact file paths, symbols, commands, error strings, URLs, and identifiers when known.'',
      lit ''- Do not mention the summary process or that context was compacted.'']"

definition build_prompt :: "jstring option \<Rightarrow> jstring list \<Rightarrow> jstring" where
  \<comment> \<open>an empty previous summary counts as none\<close>
  "build_prompt previous context = join_with [LF, LF]
     ((case previous of
         Some p \<Rightarrow>
           if p = [] then lit ''Create a new anchored summary from the conversation history.''
           else lines [lit ''Update the anchored summary below using the conversation history above.'',
             lit ''Preserve still-true details, remove stale details, and merge in the new facts.'',
             lit ''<previous-summary>'', p, lit ''</previous-summary>'']
       | None \<Rightarrow> lit ''Create a new anchored summary from the conversation history.'') # summary_template # context)"

section \<open>Compacting\<close>

record model_limits =
  ml_context :: "int option"
  ml_output :: "int option"

record compaction_input =
  cin_session :: jstring
  cin_entries :: "message_row list"
  cin_limits :: model_limits
  cin_max_tokens :: "int option" \<comment> \<open>of the request\<close>

definition output_tokens_of :: "compaction_input \<Rightarrow> int" where
  "output_tokens_of inp = (case or_else (cin_max_tokens inp) (ml_output (cin_limits inp)) of Some n \<Rightarrow> n | None \<Rightarrow> 0)"

fun checkpoint :: "session_message \<Rightarrow> (jstring \<times> jstring) option" where
  "checkpoint (CompactionMessage i md t r summary recent) = Some (summary, recent)"
| "checkpoint m = None"

definition previous_summary :: "message_row list \<Rightarrow> (jstring \<times> jstring) option" where
  "previous_summary entries = Option.bind (find is_compaction (map mr_message entries)) checkpoint"

definition compaction_plan :: "compaction_settings \<Rightarrow> compaction_input \<Rightarrow> (jstring \<times> int \<times> jstring) option" where
  \<comment> \<open>the prompt, the tokens for the summary and the recent part, where the code goes on to publish\<close>
  "compaction_plan cs inp =
    (case ml_context (cin_limits inp) of
       None \<Rightarrow> None
     | Some context \<Rightarrow>
         if context \<le> 0 then None
         else (case select (cin_entries inp) (cs_tokens cs) of
             None \<Rightarrow> None
           | Some (head, recent) \<Rightarrow>
               let previous = previous_summary (cin_entries inp) in
               if head = [] \<and> previous = None then None
               else let prompt = build_prompt (map_option fst previous)
                      (filter (\<lambda>s. s \<noteq> []) [case previous of Some (s, r) \<Rightarrow> r | None \<Rightarrow> [], head]);
                    output = min (if output_tokens_of inp = 0 then 4096 else output_tokens_of inp) 4096
                 in if context - output < token_estimate prompt then None else Some (prompt, output, recent)))"

record compaction_run =
  cr_message :: jstring \<comment> \<open>the id of the message, and the times of the two events\<close>
  cr_started :: int
  cr_ended :: int
  cr_stream :: "jstring \<Rightarrow> int \<Rightarrow> llm_event list \<times> bool" \<comment> \<open>the stream for a prompt, and whether it ended without an error\<close>

definition summary_of :: "llm_event list \<times> bool \<Rightarrow> jstring option" where
  "summary_of st =
    (if \<not> snd st \<or> (\<exists>e \<in> set (fst st). case e of ProviderError m k r md \<Rightarrow> True | _ \<Rightarrow> False) \<or>
        trim (response_text (fst st)) = [] then None
     else Some (response_text (fst st)))"

definition compact_after_overflow :: "'j codec \<Rightarrow> compaction_settings \<Rightarrow> compaction_run \<Rightarrow> compaction_input \<Rightarrow> 'j session_log \<Rightarrow>
    (db_defect log_error, bool) result \<times> 'j session_log" where
  "compact_after_overflow c cs cr inp L =
    (case compaction_plan cs inp of
       None \<Rightarrow> (Inr False, L)
     | Some (prompt, output, recent) \<Rightarrow>
         (case publish_session c \<lparr>se_metadata = None, se_session = cin_session inp, se_time = cr_started cr,
             se_body = CompactionStartedE (cr_message cr) Auto\<rparr> L of
            (Inl err, L1) \<Rightarrow> (Inl err, L1)
          | (Inr ev, L1) \<Rightarrow>
              (case summary_of (cr_stream cr prompt output) of
                 None \<Rightarrow> (Inr False, L1)
               | Some summary \<Rightarrow>
                   (case publish_session c \<lparr>se_metadata = None, se_session = cin_session inp, se_time = cr_ended cr,
                       se_body = CompactionEndedE (cr_message cr) Auto summary recent\<rparr> L1 of
                      (Inl err, L2) \<Rightarrow> (Inl err, L2)
                    | (Inr ev, L2) \<Rightarrow> (Inr True, L2)))))"

definition compact_if_needed :: "'j codec \<Rightarrow> compaction_settings \<Rightarrow> compaction_run \<Rightarrow> jstring \<Rightarrow> compaction_input \<Rightarrow> 'j session_log \<Rightarrow>
    (db_defect log_error, bool) result \<times> 'j session_log" where
  \<comment> \<open>with the JSON text of the request's system parts, messages and tools\<close>
  "compact_if_needed c cs cr request inp L =
    (case ml_context (cin_limits inp) of
       None \<Rightarrow> (Inr False, L)
     | Some context \<Rightarrow>
         if \<not> cs_auto cs \<or> context \<le> 0 \<or> token_estimate request \<le> context - max (output_tokens_of inp) (cs_buffer cs)
         then (Inr False, L)
         else compact_after_overflow c cs cr inp L)"

end
