(* ===== verification/CompactionProps.thy ===== *)
theory CompactionProps imports Compaction begin

text \<open>
  What a compaction does to a conversation: how it is divided and what fits the budget, where the head repeats
  a message, and that an automatic compaction is not followed by another one before the session goes on.
\<close>

section \<open>Where the conversation is divided\<close>

lemma token_estimate_bound: "int (length s) \<le> 4 * token_estimate s + 1" "0 \<le> token_estimate s"
  by (simp_all add: token_estimate_def)

definition kept_tokens :: "jstring list \<Rightarrow> int" where
  "kept_tokens ss = sum_list (map token_estimate ss)"

lemma kept_tokens_simps [simp]: "kept_tokens [] = 0" "kept_tokens (s # ss) = token_estimate s + kept_tokens ss"
  by (simp_all add: kept_tokens_def)

definition divided :: "jstring list \<Rightarrow> nat \<Rightarrow> jstring \<Rightarrow> jstring \<Rightarrow> bool" where
  \<comment> \<open>the message before the kept ones is split in two, or none is\<close>
  "divided conv k p x \<longleftrightarrow> p = [] \<and> x = [] \<or> 0 < k \<and> conv ! (k - 1) = p @ x \<and> p \<noteq> [] \<and> x \<noteq> []"

lemma split_point_spec:
  assumes "split_point conv tokens used (i, [], []) i = (k, p, x)" "i \<le> length conv"
    "used = kept_tokens (drop i conv)" "used \<le> tokens"
  shows "k \<le> length conv \<and> divided conv k p x \<and> kept_tokens (x # drop k conv) \<le> tokens \<and>
    (0 < k \<longrightarrow> kept_tokens (x # drop k conv) = tokens)"
  using assms
proof (induction i arbitrary: used)
  case 0
  then show ?case by (simp add: divided_def token_estimate_def)
next
  case (Suc i)
  let ?s = "conv ! i"
  have drop: "drop i conv = ?s # drop (Suc i) conv" using Suc.prems(2) by (simp add: Cons_nth_drop_Suc)
  show ?case
  proof (cases "tokens < used + token_estimate ?s")
    case False
    then have "split_point conv tokens (used + token_estimate ?s) (i, [], []) i = (k, p, x)"
      using Suc.prems(1) by (simp add: Let_def)
    then show ?thesis by (rule Suc.IH) (use Suc.prems False drop in simp_all)
  next
    case True
    define r where "r = nat ((tokens - used) * 4)"
    have r: "int r = (tokens - used) * 4" using Suc.prems(4) by (simp add: r_def)
    have res: "(k, p, x) = (if 0 < r then (Suc i, take (length ?s - r) ?s, drop (length ?s - r) ?s) else (Suc i, [], []))"
      using Suc.prems(1,4) True by (auto simp: Let_def r_def split: if_split_asm)
    show ?thesis
    proof (cases "0 < r")
      case big: True
      have "int r + 2 \<le> int (length ?s)" using True r Suc.prems(4) by (simp add: token_estimate_def)
      then have len: "r + 2 \<le> length ?s" by simp
      have "token_estimate (drop (length ?s - r) ?s) = tokens - used"
        using len r Suc.prems(4) by (simp add: token_estimate_def)
      moreover have "length (take (length ?s - r) ?s) \<noteq> 0" "length (drop (length ?s - r) ?s) \<noteq> 0" using len big by simp_all
      then have "take (length ?s - r) ?s \<noteq> []" "drop (length ?s - r) ?s \<noteq> []" by (simp_all only: length_0_conv) simp_all
      ultimately show ?thesis using res big Suc.prems(2,3) by (simp add: divided_def del: take_eq_Nil drop_eq_Nil)
    next
      case False
      with r Suc.prems(4) have "used = tokens" by simp
      with False res Suc.prems(2,3) show ?thesis by (simp add: divided_def token_estimate_def)
    qed
  qed
qed

lemma paragraphs_length: "length (paragraphs ps) + 2 \<le> sum_list (map length ps) + 2 * max 1 (length (filter (\<lambda>s. s \<noteq> []) ps))"
proof -
  have j: "length (join_with sep qs) + 2 \<le> sum_list (map length qs) + 2 * max 1 (length qs)" if "length sep = 2" for sep :: jstring and qs
    using that by (induction sep qs rule: join_with.induct) auto
  have "sum_list (map length (filter (\<lambda>s. s \<noteq> []) ps)) = sum_list (map length ps)" by (induction ps) simp_all
  with j [of "[LF, LF]" "filter (\<lambda>s. s \<noteq> []) ps"] show ?thesis by (simp add: paragraphs_def)
qed

lemma lengths_bound:
  "int (sum_list (map length ss)) \<le> 4 * kept_tokens ss + int (length (filter (\<lambda>s. s \<noteq> []) ss))"
proof (induction ss)
  case (Cons s ss)
  with token_estimate_bound(1) [of s] show ?case by (cases "s = []") (simp_all add: token_estimate_def)
qed simp

text \<open>C20. The part of a conversation a compaction keeps is its end, and within the budget: the messages from some
  point on, with the end of the one before that point when it was split there; their estimated tokens are
  at most the budget, exactly the budget when anything is left for the head, and the text kept has at most
  four units per token and three for each of the messages.\<close>

theorem kept_part_fits_the_budget:
  assumes sel: "select entries tokens = Some (head, recent)" and tokens: "0 \<le> tokens"
  defines "conv \<equiv> conversation entries"
  shows "\<exists>k p x. k \<le> length conv \<and> divided conv k p x \<and>
    head = paragraphs (take k conv @ [p]) \<and> recent = paragraphs (x # drop k conv) \<and>
    kept_tokens (x # drop k conv) \<le> tokens \<and> (head \<noteq> [] \<longrightarrow> kept_tokens (x # drop k conv) = tokens) \<and>
    int (length recent) \<le> 4 * tokens + 3 * int (length conv)"
proof -
  have ne: "conv \<noteq> []" using sel by (auto simp: select_def conv_def Let_def)
  obtain k p x where s: "split_point conv tokens 0 (length conv, [], []) (length conv) = (k, p, x)" by (metis prod_cases3)
  with sel ne have hr: "head = paragraphs (take k conv @ [p])" "recent = paragraphs (x # drop k conv)"
    by (simp_all add: select_def conv_def Let_def)
  have spec: "k \<le> length conv \<and> divided conv k p x \<and> kept_tokens (x # drop k conv) \<le> tokens \<and>
      (0 < k \<longrightarrow> kept_tokens (x # drop k conv) = tokens)"
    by (rule split_point_spec [OF s]) (use tokens in simp_all)
  then have "k = 0 \<Longrightarrow> head = []" by (auto simp: hr divided_def paragraphs_def)
  then have full: "head \<noteq> [] \<longrightarrow> kept_tokens (x # drop k conv) = tokens" using spec by blast
  let ?n = "length (filter (\<lambda>s. s \<noteq> []) (x # drop k conv))"
  have n: "?n \<le> length conv" "1 \<le> length conv"
    using spec ne length_filter_le [of "\<lambda>s. s \<noteq> []" "drop k conv"] by (auto simp: divided_def Suc_le_eq split: if_split_asm)
  have "int (length recent) \<le> 4 * tokens + 3 * int (length conv)"
    using paragraphs_length [of "x # drop k conv"] lengths_bound [of "x # drop k conv"] spec n unfolding hr by linarith
  with spec hr full show ?thesis by blast
qed

definition user_entry :: "int \<Rightarrow> string \<Rightarrow> message_row" where
  "user_entry n t = \<lparr>mr_session = lit ''s'', mr_seq = n, mr_message = UserMessage [nat n] None 0 \<lparr>pr_text = lit t, pr_files = None, pr_agents = None\<rparr>\<rparr>"

lemma kept_part_fits_the_budget_witness:
  "\<exists>head recent k p x. select [user_entry 1 ''first prompt'', user_entry 2 ''second'', user_entry 3 ''third''] 6 = Some (head, recent) \<and>
     head \<noteq> [] \<and> kept_tokens (x # drop k (conversation [user_entry 1 ''first prompt'', user_entry 2 ''second'', user_entry 3 ''third''])) = 6 \<and>
     recent = paragraphs (x # drop k (conversation [user_entry 1 ''first prompt'', user_entry 2 ''second'', user_entry 3 ''third'']))"
proof -
  let ?es = "[user_entry 1 ''first prompt'', user_entry 2 ''second'', user_entry 3 ''third'']"
  have "map_option (\<lambda>(h, r). h \<noteq> []) (select ?es 6) = Some True" by code_simp
  then obtain head recent where sel: "select ?es 6 = Some (head, recent)" "head \<noteq> []" by auto
  have "(0 :: int) \<le> 6" by simp
  from kept_part_fits_the_budget [OF sel(1) this] sel show ?thesis by blast
qed

section \<open>The head repeats a message that is split\<close>

text \<open>A message that alone exceeds the budget is summarised twice: the head is the whole message followed by
  its beginning once more, not the beginning alone, while its end is also kept.\<close>

theorem split_message_is_repeated:
  assumes "conversation entries = [s]" "0 < tokens" "tokens < token_estimate s"
  shows "select entries tokens =
    Some (s @ [LF, LF] @ take (length s - nat (4 * tokens)) s, drop (length s - nat (4 * tokens)) s)"
proof -
  have "4 * tokens + 2 \<le> int (length s)" using assms(2,3) by (simp add: token_estimate_def)
  then have len: "nat (4 * tokens) + 2 \<le> length s" "0 < nat (4 * tokens)" using assms(2) by auto
  then have "s \<noteq> []" "take (length s - nat (4 * tokens)) s \<noteq> []" "drop (length s - nat (4 * tokens)) s \<noteq> []" by auto
  with assms len show ?thesis by (simp add: select_def paragraphs_def Let_def mult.commute)
qed

lemma split_message_is_repeated_witness:
  "select [user_entry 1 ''a prompt of some length''] 2 =
    Some (lit ''[User]: a prompt of some length'' @ [LF, LF] @ lit ''[User]: a prompt of som'', lit ''e length'')"
proof -
  have conv: "conversation [user_entry 1 ''a prompt of some length''] = [lit ''[User]: a prompt of some length'']" by code_simp
  have "(2 :: int) < token_estimate (lit ''[User]: a prompt of some length'')" by code_simp
  from split_message_is_repeated [OF conv _ this]
  have "select [user_entry 1 ''a prompt of some length''] 2 =
    Some (lit ''[User]: a prompt of some length'' @ [LF, LF] @
      take (length (lit ''[User]: a prompt of some length'') - nat (4 * 2)) (lit ''[User]: a prompt of some length''),
      drop (length (lit ''[User]: a prompt of some length'') - nat (4 * 2)) (lit ''[User]: a prompt of some length''))" by simp
  also have "take (length (lit ''[User]: a prompt of some length'') - nat (4 * 2)) (lit ''[User]: a prompt of some length'') =
      lit ''[User]: a prompt of som''" by code_simp
  also have "drop (length (lit ''[User]: a prompt of some length'') - nat (4 * 2)) (lit ''[User]: a prompt of some length'') =
      lit ''e length''" by code_simp
  finally show ?thesis .
qed
section \<open>A compaction is not repeated\<close>

lemma publish_started:
  assumes e: "se_body e = CompactionStartedE m r" and run: "publish_session c e L = (Inr ev, L')"
  shows "tables L' = tables L" "latest_sequence L' = (latest_sequence L)(se_session e := latest_sequence L (se_session e) + 1)"
proof -
  have d: "durable_body (se_body e)" by (simp add: e)
  have "tables L' = tables L \<and> latest_sequence L' = (latest_sequence L)(se_session e := latest_sequence L (se_session e) + 1)"
    using run
  proof (cases rule: publish_session_cases)
    case live
    with d show ?thesis by simp
  next
    case (committed ev encoded)
    then show ?thesis by (simp add: project_event_def e Let_def)
  qed simp
  then show "tables L' = tables L" "latest_sequence L' = (latest_sequence L)(se_session e := latest_sequence L (se_session e) + 1)" by simp_all
qed

lemma publish_ended:
  assumes e: "se_body e = CompactionEndedE m r s t" and run: "publish_session c e L = (Inr ev, L')"
  shows "tables L' = (tables L)\<lparr>message_table := message_table (tables L) @ [\<lparr>mr_session = se_session e, mr_seq = latest_sequence L (se_session e) + 1,
      mr_message = CompactionMessage m (se_metadata e) (se_time e) r s t\<rparr>]\<rparr> \<and>
    latest_sequence L' = (latest_sequence L)(se_session e := latest_sequence L (se_session e) + 1)"
  using run
proof (cases rule: publish_session_cases)
  case live
  with e show ?thesis by simp
next
  case (committed ev encoded)
  then have "project_run e (latest_sequence L (se_session e) + 1) (tables L) = Inr (tables L')"
    by (simp add: project_event_def e Let_def)
  then have "tables L' = (tables L)\<lparr>message_table := message_table (tables L) @ [\<lparr>mr_session = se_session e, mr_seq = latest_sequence L (se_session e) + 1,
      mr_message = CompactionMessage m (se_metadata e) (se_time e) r s t\<rparr>]\<rparr>"
    using e by (auto simp: project_run_def run_event_def update_def db_adapter_def db_insert_def split: option.split_asm if_split_asm)
  with committed(5) show ?thesis by blast
qed simp

lemma compacted:
  assumes "compact_after_overflow c cs cr inp L = (Inr True, L1)"
  obtains summary recent where
    "tables L1 = (tables L)\<lparr>message_table := message_table (tables L) @ [\<lparr>mr_session = cin_session inp,
       mr_seq = latest_sequence L (cin_session inp) + 2,
       mr_message = CompactionMessage (cr_message cr) None (cr_ended cr) Auto summary recent\<rparr>]\<rparr>"
    "latest_sequence L1 (cin_session inp) = latest_sequence L (cin_session inp) + 2"
proof -
  let ?e = "\<lparr>se_metadata = None, se_session = cin_session inp, se_time = cr_started cr, se_body = CompactionStartedE (cr_message cr) Auto\<rparr>"
  obtain prompt out recent where plan: "compaction_plan cs inp = Some (prompt, out, recent)"
    using assms by (auto simp: compact_after_overflow_def split: option.split_asm)
  obtain ev L0 where start: "publish_session c ?e L = (Inr ev, L0)"
    using assms plan by (auto simp: compact_after_overflow_def split: prod.split_asm sum.split_asm)
  obtain summary where summary: "summary_of (cr_stream cr prompt out) = Some summary"
    using assms plan start by (auto simp: compact_after_overflow_def split: option.split_asm)
  let ?f = "\<lparr>se_metadata = None, se_session = cin_session inp, se_time = cr_ended cr, se_body = CompactionEndedE (cr_message cr) Auto summary recent\<rparr>"
  obtain ev' where fin: "publish_session c ?f L0 = (Inr ev', L1)"
    using assms plan start summary by (auto simp: compact_after_overflow_def split: prod.split_asm sum.split_asm)
  have s: "tables L0 = tables L" "latest_sequence L0 = (latest_sequence L)(cin_session inp := latest_sequence L (cin_session inp) + 1)"
    using publish_started [OF _ start] by simp_all
  have "tables L1 = (tables L)\<lparr>message_table := message_table (tables L) @ [\<lparr>mr_session = cin_session inp,
       mr_seq = latest_sequence L (cin_session inp) + 2,
       mr_message = CompactionMessage (cr_message cr) None (cr_ended cr) Auto summary recent\<rparr>]\<rparr> \<and>
    latest_sequence L1 (cin_session inp) = latest_sequence L (cin_session inp) + 2"
    using publish_ended [OF _ fin] s by simp
  with that show ?thesis by blast
qed

lemma prepare_after_compaction:
  assumes run: "prepare_once c unpack (Inr es) mid now sid L = (Inr p, L')" and all: "unavailable_keys es = []"
    and n: "latest_compaction (tables L) sid = Some n" "n \<noteq> 0" "n = latest_sequence L sid"
    and old: "\<And>ep. epoch_table (tables L) sid = Some ep \<Longrightarrow> ep_seq ep < n"
  shows "message_table (tables L') = message_table (tables L) \<and> pp_seq p = n"
proof (cases "epoch_table (tables L) sid")
  case None
  with run have "start_epoch es sid L = (Inr p, L')" by (simp add: prepare_once_def)
  then show ?thesis by (cases rule: start_epoch_cases) (simp add: n(3))
next
  case (Some ep)
  have newer: "newer_compaction sid ep L = Some n" by (simp add: newer_compaction_def n(1) old [OF Some])
  have "\<not> (\<exists>e \<in> set es. snd e = None \<and> map_of snap (fst e) \<noteq> None)" for snap :: snapshot
    using all by (auto simp: unavailable_keys_def filter_empty_conv)
  then have fresh: "replace_observation es snap = rbind (initialize_observation es) (\<lambda>g. Inr (Ready g))" for snap
    by (simp only: replace_observation_def if_False)
  obtain snap g where "unpack (ep_snapshot ep) = Some snap" "initialize_observation es = Inr g"
      "apply_context c mid now sid ep (Some n) (Is_Replaced (Ready g)) L = (Inr p, L')"
    using run n(2)
    by (auto simp: prepare_once_def Some newer compare_context_def fresh rbind_Inr_iff
        split: option.split_asm sum.split_asm)
  then show ?thesis by (auto simp: apply_context_def replace_epoch_def Some)
qed

text \<open>C19. An automatic compaction is not followed by another one: when the sources of the context are all
  available, the attempt that restarts after it finds the compaction's message and nothing else in the
  history under the baseline it prepares, so compacting again, with whatever settings and model, ends at once
  and publishes nothing.\<close>

theorem compaction_is_not_repeated:
  assumes run: "compact_after_overflow c cs cr inp L = (Inr True, L1)" and sid: "sid = cin_session inp"
    and past: "past_only sid L" "-1 \<le> latest_sequence L sid"
    and prep: "prepare_once c unpack (Inr es) mid now sid L1 = (Inr p, L2)" "unavailable_keys es = []"
    and again: "cin_entries inp' = entries_for_runner (tables L2) sid (pp_seq p)"
  shows "map mr_seq (cin_entries inp') = [latest_sequence L sid + 2] \<and>
    (\<exists>summary recent. map mr_message (cin_entries inp') = [CompactionMessage (cr_message cr) None (cr_ended cr) Auto summary recent]) \<and>
    compact_after_overflow c' cs' cr' inp' L2 = (Inr False, L2)"
proof -
  let ?n = "latest_sequence L sid + 2"
  obtain summary recent where t: "tables L1 = (tables L)\<lparr>message_table := message_table (tables L) @ [\<lparr>mr_session = sid, mr_seq = ?n,
       mr_message = CompactionMessage (cr_message cr) None (cr_ended cr) Auto summary recent\<rparr>]\<rparr>"
     "latest_sequence L1 sid = ?n"
    unfolding sid by (rule compacted [OF run])
  let ?x = "\<lparr>mr_session = sid, mr_seq = ?n, mr_message = CompactionMessage (cr_message cr) None (cr_ended cr) Auto summary recent\<rparr>"
  have older: "\<forall>r \<in> set (message_table (tables L)). mr_session r = sid \<longrightarrow> mr_seq r < ?n"
    using past(1) by (auto simp: past_only_def)
  have rows: "session_rows sid (message_table (tables L1)) = session_rows sid (message_table (tables L)) @ [?x]"
    unfolding t(1) by (simp add: session_rows_snoc older)
  have comp: "latest_compaction (tables L1) sid = Some ?n" by (simp add: latest_compaction_def rows)
  have ep: "ep_seq ep < ?n" if "epoch_table (tables L1) sid = Some ep" for ep
    using past(1) that by (auto simp: past_only_def t(1))
  have L2: "message_table (tables L2) = message_table (tables L1) \<and> pp_seq p = ?n"
    by (rule prepare_after_compaction [OF prep comp _ _ ep]) (use past(2) t(2) in simp_all)
  have "filter (\<lambda>r. (?n \<le> mr_seq r \<or> is_system (mr_message r) \<and> ?n < mr_seq r) \<and> (\<not> is_system (mr_message r) \<or> ?n < mr_seq r))
      (session_rows sid (message_table (tables L))) = []"
    using older by (force simp: filter_empty_conv)
  moreover have "latest_compaction (tables L2) sid = Some ?n" using comp L2 by (simp add: latest_compaction_def)
  ultimately have entries: "cin_entries inp' = [?x]"
    by (simp add: again entries_for_runner_def message_rows_def L2 rows)
  then have "select (cin_entries inp') tokens = None" for tokens by (simp add: select_def conversation_def)
  then have "compaction_plan cs' inp' = None" by (simp add: compaction_plan_def split: option.split)
  then have "compact_after_overflow c' cs' cr' inp' L2 = (Inr False, L2)" by (simp add: compact_after_overflow_def)
  with entries show ?thesis by simp
qed

definition demo_settings :: compaction_settings where
  "demo_settings = compaction_settings_of [None, Some \<lparr>ci_auto = None, ci_buffer = None, ci_keep = Some (Some 2)\<rparr>]"

definition demo_compaction :: compaction_run where
  "demo_compaction = \<lparr>cr_message = lit ''k'', cr_started = 7, cr_ended = 8,
     cr_stream = (\<lambda>prompt out. ([TextDelta (lit ''t'') (lit ''all of '') None, TextDelta (lit ''t'') (lit ''it'') None], True))\<rparr>"

definition demo_compaction_input :: "message_row list \<Rightarrow> compaction_input" where
  "demo_compaction_input entries = \<lparr>cin_session = lit ''s'', cin_entries = entries,
     cin_limits = \<lparr>ml_context = Some 9000, ml_output = None\<rparr>, cin_max_tokens = None\<rparr>"

lemma compaction_is_not_repeated_witness:
  "\<exists>L1 p L2. compact_after_overflow demo_codec demo_settings demo_compaction
       (demo_compaction_input (entries_for_runner (tables demo_epoch) (lit ''s'') 0)) demo_epoch = (Inr True, L1) \<and>
     prepare_once demo_codec unpack_entries (Inr (demo_sources ''Mon'')) (lit ''m2'') 9 (lit ''s'') L1 = (Inr p, L2) \<and>
     compact_after_overflow demo_codec demo_settings demo_compaction
       (demo_compaction_input (entries_for_runner (tables L2) (lit ''s'') (pp_seq p))) L2 = (Inr False, L2)"
proof -
  let ?in = "demo_compaction_input (entries_for_runner (tables demo_epoch) (lit ''s'') 0)"
  let ?r = "compact_after_overflow demo_codec demo_settings demo_compaction ?in demo_epoch"
  let ?q = "prepare_once demo_codec unpack_entries (Inr (demo_sources ''Mon'')) (lit ''m2'') 9 (lit ''s'') (snd ?r)"
  have "fst ?r = Inr True" by code_simp
  then have r: "?r = (Inr True, snd ?r)" by (metis surjective_pairing)
  have "case fst ?q of Inl e \<Rightarrow> False | Inr p \<Rightarrow> True" by code_simp
  then obtain p where q: "?q = (Inr p, snd ?q)" by (cases "fst ?q") (auto simp: prod_eq_iff)
  have s: "lit ''s'' = cin_session ?in" by (simp add: demo_compaction_input_def)
  have n: "-1 \<le> latest_sequence demo_epoch (lit ''s'')" by code_simp
  have all: "unavailable_keys (demo_sources ''Mon'') = []" by code_simp
  have entries: "cin_entries (demo_compaction_input es) = es" for es by (simp add: demo_compaction_input_def)
  from compaction_is_not_repeated [OF r s demo_epoch_past n q all entries, of demo_codec demo_settings demo_compaction] r q
  show ?thesis by blast
qed

end
