(* ===== verification/Levenshtein.thy ===== *)
theory Levenshtein imports JsText begin

text \<open>
  The edit distance of packages/opencode/src/tool/edit.ts. The source fills a matrix in place, row by
  row; a cell reads the row above it and the cell to its left, so the model keeps one row at a time.
\<close>

section \<open>The matrix\<close>

fun lev_cells :: "nat \<Rightarrow> jstring \<Rightarrow> nat list \<Rightarrow> nat \<Rightarrow> nat list" where
  \<comment> \<open>the inner loop: \<open>prev\<close> is the row above from the diagonal cell on, \<open>left\<close> the cell just written\<close>
  "lev_cells c (d # b) (diag # up # prev) left =
    (let cost = (if c = d then 0 else 1);
         cell = min (min (up + 1) (left + 1)) (diag + cost)
     in cell # lev_cells c b (up # prev) cell)"
| "lev_cells c b prev left = []"

fun lev_rows :: "nat \<Rightarrow> jstring \<Rightarrow> jstring \<Rightarrow> nat list \<Rightarrow> nat list" where
  \<comment> \<open>the outer loop, from row \<open>i\<close> on\<close>
  "lev_rows i [] b prev = prev"
| "lev_rows i (c # a) b prev = lev_rows (Suc i) a b (i # lev_cells c b prev i)"

definition levenshtein :: "jstring \<Rightarrow> jstring \<Rightarrow> nat" where
  "levenshtein a b =
    (if a = [] \<or> b = [] then max (length a) (length b) else last (lev_rows 1 a b [0..<length b + 1]))"

section \<open>Specification: the length of a shortest edit script\<close>

inductive edit_script :: "jstring \<Rightarrow> jstring \<Rightarrow> nat \<Rightarrow> bool" where
  es_done: "edit_script [] [] 0"
| es_delete: "edit_script a b n \<Longrightarrow> edit_script (c # a) b (Suc n)"
| es_insert: "edit_script a b n \<Longrightarrow> edit_script a (d # b) (Suc n)"
| es_keep: "edit_script a b n \<Longrightarrow> edit_script (c # a) (c # b) n"
| es_change: "edit_script a b n \<Longrightarrow> edit_script (c # a) (d # b) (Suc n)"

lemma edit_script_append:
  "edit_script a b n \<Longrightarrow> edit_script a' b' m \<Longrightarrow> edit_script (a @ a') (b @ b') (n + m)"
  by (induction rule: edit_script.induct) (auto intro: edit_script.intros)

lemma edit_script_rev: "edit_script a b n \<Longrightarrow> edit_script (rev a) (rev b) n"
proof (induction rule: edit_script.induct)
  case (es_delete a b n c)
  from edit_script_append [OF es_delete.IH, of "[c]" "[]" 1] show ?case by (auto intro: edit_script.intros)
next
  case (es_insert a b n d)
  from edit_script_append [OF es_insert.IH, of "[]" "[d]" 1] show ?case by (auto intro: edit_script.intros)
next
  case (es_keep a b n c)
  from edit_script_append [OF es_keep.IH, of "[c]" "[c]" 0] show ?case by (auto intro: edit_script.intros)
next
  case (es_change a b n c d)
  from edit_script_append [OF es_change.IH, of "[c]" "[d]" 1] show ?case by (auto intro: edit_script.intros)
qed (simp add: edit_script.es_done)

fun edist :: "jstring \<Rightarrow> jstring \<Rightarrow> nat" where
  "edist [] b = length b"
| "edist a [] = length a"
| "edist (c # a) (d # b) =
    min (min (Suc (edist a (d # b))) (Suc (edist (c # a) b))) (edist a b + (if c = d then 0 else 1))"

lemma edist_Nil2 [simp]: "edist a [] = length a"
  by (cases a) auto

lemma edit_script_lengths: "edit_script (replicate 0 c) b (length b)" "edit_script a [] (length a)"
  by (induction b, auto intro: edit_script.intros) (induction a, auto intro: edit_script.intros)

lemma edit_script_edist: "edit_script a b (edist a b)"
proof (induction a b rule: edist.induct)
  case (3 c a d b)
  then show ?case
    by (auto simp: min_def intro: edit_script.intros)
next
  case (2 v va)
  show ?case using edit_script_lengths(2) [of "v # va"] by simp
qed (use edit_script_lengths in simp)

lemma edist_skip: "edist (c # a) b \<le> Suc (edist a b)" "edist a (d # b) \<le> Suc (edist a b)"
  by (cases b; simp) (cases a; simp)

lemma edist_least: "edit_script a b n \<Longrightarrow> edist a b \<le> n"
proof (induction rule: edit_script.induct)
  case (es_delete a b n c)
  with edist_skip(1) [of c a b] show ?case by simp
next
  case (es_insert a b n d)
  with edist_skip(2) [of a d b] show ?case by simp
qed auto

lemma edist_rev: "edist (rev a) (rev b) = edist a b"
proof -
  have "edist (rev x) (rev y) \<le> edist x y" for x y
    by (rule edist_least [OF edit_script_rev [OF edit_script_edist]])
  from this [of a b] this [of "rev a" "rev b"] show ?thesis by simp
qed

lemma edist_snoc:
  "edist (a @ [c]) (b @ [d]) =
    min (min (Suc (edist a (b @ [d]))) (Suc (edist (a @ [c]) b))) (edist a b + (if c = d then 0 else 1))"
  by (subst (1 2 3 4) edist_rev [symmetric]) simp

section \<open>The rows\<close>

lemma lev_cells_row:
  assumes "b = b0 @ b'" "left = edist (a @ [c]) b0"
  shows "lev_cells c b' (map (\<lambda>j. edist a (take j b)) [length b0..<Suc (length b)]) left =
    map (\<lambda>j. edist (a @ [c]) (take j b)) [Suc (length b0)..<Suc (length b)]"
  using assms
proof (induction b' arbitrary: b0 left)
  case Nil
  then show ?case by simp
next
  case (Cons d b')
  have up: "[length b0..<Suc (length b)] = length b0 # Suc (length b0) # [Suc (Suc (length b0))..<Suc (length b)]"
    and up': "[Suc (length b0)..<Suc (length b)] = Suc (length b0) # [Suc (Suc (length b0))..<Suc (length b)]"
    using Cons.prems(1) by (simp_all add: upt_rec)
  have t: "take (length b0) b = b0" "take (Suc (length b0)) b = b0 @ [d]" using Cons.prems(1) by auto
  let ?cell = "min (min (Suc (edist a (b0 @ [d]))) (Suc left)) (edist a b0 + (if c = d then 0 else 1))"
  have cell: "?cell = edist (a @ [c]) (b0 @ [d])" by (simp add: edist_snoc Cons.prems(2))
  have "lev_cells c b' (map (\<lambda>j. edist a (take j b)) [length (b0 @ [d])..<Suc (length b)]) (edist (a @ [c]) (b0 @ [d])) =
      map (\<lambda>j. edist (a @ [c]) (take j b)) [Suc (length (b0 @ [d]))..<Suc (length b)]"
    by (rule Cons.IH) (use Cons.prems(1) in simp_all)
  then have IH: "lev_cells c b' (edist a (b0 @ [d]) # map (\<lambda>j. edist a (take j b)) [Suc (Suc (length b0))..<Suc (length b)]) ?cell =
      map (\<lambda>j. edist (a @ [c]) (take j b)) [Suc (Suc (length b0))..<Suc (length b)]"
    unfolding cell by (simp add: up' t del: upt_Suc)
  show ?case
    unfolding up up' list.map t lev_cells.simps Let_def
    using IH cell by simp
qed

lemma lev_rows_row:
  "i = Suc (length a0) \<Longrightarrow>
   lev_rows i a b (map (\<lambda>j. edist a0 (take j b)) [0..<Suc (length b)]) =
     map (\<lambda>j. edist (a0 @ a) (take j b)) [0..<Suc (length b)]"
proof (induction a arbitrary: i a0)
  case Nil
  then show ?case by simp
next
  case (Cons c a)
  have "lev_cells c b (map (\<lambda>j. edist a0 (take j b)) [0..<Suc (length b)]) i =
      map (\<lambda>j. edist (a0 @ [c]) (take j b)) [1..<Suc (length b)]"
    using lev_cells_row [of b "[]" b i a0 c] Cons.prems by (simp del: upt_Suc)
  moreover have "[0..<Suc (length b)] = 0 # [1..<Suc (length b)]" by (simp add: upt_rec)
  ultimately have row: "i # lev_cells c b (map (\<lambda>j. edist a0 (take j b)) [0..<Suc (length b)]) i =
      map (\<lambda>j. edist (a0 @ [c]) (take j b)) [0..<Suc (length b)]"
    using Cons.prems by (metis (no_types, lifting) edist_Nil2 length_append_singleton list.simps(9) take0)
  show ?case using Cons.IH [of "Suc i" "a0 @ [c]"] Cons.prems unfolding lev_rows.simps row
    by (simp del: upt_Suc)
qed

lemma levenshtein_edist: "levenshtein a b = edist a b"
proof (cases "a = [] \<or> b = []")
  case True
  then show ?thesis by (auto simp: levenshtein_def)
next
  case False
  have "[0..<length b + 1] = map (\<lambda>j. edist [] (take j b)) [0..<Suc (length b)]"
    by (rule nth_equalityI) (simp_all del: upt_Suc)
  then have "lev_rows 1 a b [0..<length b + 1] = map (\<lambda>j. edist a (take j b)) [0..<Suc (length b)]"
    using lev_rows_row [of 1 "[]" a b] by simp
  then show ?thesis using False by (simp add: levenshtein_def)
qed

lemma levenshtein_bound: "levenshtein a b \<le> max (length a) (length b)"
  unfolding levenshtein_edist
proof (induction a b rule: edist.induct)
  case (3 c a d b)
  then show ?case by auto
qed auto

text \<open>C39. The matrix computes the edit distance: there is an edit script from one string to the other with
  that many insertions, deletions and changes, and none with fewer.\<close>

theorem levenshtein_optimal:
  "edit_script a b (levenshtein a b) \<and> (\<forall>n. edit_script a b n \<longrightarrow> levenshtein a b \<le> n)"
  using edit_script_edist edist_least by (auto simp: levenshtein_edist)

lemma levenshtein_optimal_witness: "levenshtein (lit ''kitten'') (lit ''sitting'') = 3 \<and> levenshtein (lit ''ab'') (lit ''b'') \<le> 1"
proof -
  have "edit_script (lit ''ab'') (lit ''b'') 1"
    by (simp add: lit_def) (rule es_delete es_keep es_done | simp add: One_nat_def)+
  with levenshtein_optimal [of "lit ''ab''" "lit ''b''"] have "levenshtein (lit ''ab'') (lit ''b'') \<le> 1" by blast
  moreover have "levenshtein (lit ''kitten'') (lit ''sitting'') = 3" by code_simp
  ultimately show ?thesis by blast
qed

end
