(* ===== verification/JsFloat.thy ===== *)
theory JsFloat imports Prelude Complex_Main begin

text \<open>
  IEEE double arithmetic on rationals, for the code that compares ratios with a threshold: an
  operation computes the exact rational and rounds it to 53 significant bits, ties to even. Infinities,
  NaN and overflow are outside the model: the code divides by positive lengths below \<open>2 ^ 53\<close> only.
\<close>

definition round_quotient :: "int \<Rightarrow> int \<Rightarrow> int" where
  \<comment> \<open>\<open>n / d\<close> to the nearest integer, ties to even\<close>
  "round_quotient n d =
    (let f = n div d; r = n mod d in
     if 2 * r < d then f else if 2 * r > d then f + 1 else if even f then f else f + 1)"

function scale :: "int \<Rightarrow> int \<Rightarrow> int \<Rightarrow> int \<Rightarrow> int \<times> int" where
  \<comment> \<open>doubles \<open>n / d\<close> until it reaches \<open>2 ^ 52\<close>, at most 1074 times, and keeps the factor \<open>p\<close>\<close>
  "scale n d k p =
    (if n < 4503599627370496 * d \<and> k < 1074 then scale (2 * n) d (k + 1) (2 * p) else (n, p))"
  by pat_completeness auto
termination
  by (relation "measure (\<lambda>(n, d, k, p). nat (1074 - k))") auto

declare scale.simps [simp del]

definition rnd_pos :: "rat \<Rightarrow> rat" where
  "rnd_pos x =
    (case quotient_of x of (n, d) \<Rightarrow>
     case scale n d 0 1 of (m, p) \<Rightarrow> of_int (round_quotient m d) / of_int p)"

definition rnd :: "rat \<Rightarrow> rat" where
  \<comment> \<open>the double nearest to \<open>x\<close>, for \<open>\<bar>x\<bar> < 2 ^ 53\<close>\<close>
  "rnd x = (if x = 0 then 0 else if x < 0 then - rnd_pos (- x) else rnd_pos x)"

definition fadd :: "rat \<Rightarrow> rat \<Rightarrow> rat" where "fadd a b = rnd (a + b)"
definition fsub :: "rat \<Rightarrow> rat \<Rightarrow> rat" where "fsub a b = rnd (a - b)"
definition fdiv :: "rat \<Rightarrow> rat \<Rightarrow> rat" where "fdiv a b = rnd (a / b)"

lemma round_quotient_error: "0 < d \<Longrightarrow> \<bar>2 * (round_quotient n d * d - n)\<bar> \<le> d"
proof -
  assume d: "0 < d"
  have n: "n = n div d * d + n mod d" by simp
  have r: "0 \<le> n mod d" "n mod d < d" using d by simp_all
  let ?f = "n div d" let ?r = "n mod d"
  have "round_quotient n d * d - n = - ?r \<and> 2 * ?r \<le> d \<or> round_quotient n d * d - n = d - ?r \<and> 2 * ?r \<ge> d"
    using n by (auto simp: round_quotient_def Let_def algebra_simps)
  with r show ?thesis by auto
qed

lemma scale_factor: "0 < p \<Longrightarrow> scale n d k p = (m, q) \<Longrightarrow> 0 < q \<and> m * p = n * q"
proof (induction n d k p rule: scale.induct)
  case (1 n d k p)
  show ?case
  proof (cases "n < 4503599627370496 * d \<and> k < 1074")
    case True
    with "1.prems" have "scale (2 * n) d (k + 1) (2 * p) = (m, q)" by (simp add: scale.simps [of n d k p])
    from "1.IH" [OF True _ this] "1.prems"(1) show ?thesis by simp
  next
    case False
    with "1.prems" show ?thesis by (simp only: scale.simps [of n d k p] if_False) auto
  qed
qed

lemma rnd_pos_error:
  assumes "0 < x" and big: "quotient_of x = (n, d)" "scale n d 0 1 = (m, p)" "4503599627370496 * d \<le> m"
  shows "\<bar>rnd x - x\<bar> \<le> x / 9007199254740992"
proof -
  have d: "0 < d" and x: "x = of_int n / of_int d"
    using big(1) quotient_of_denom_pos quotient_of_div by blast+
  have p: "0 < p" and m: "m = n * p" using scale_factor [OF _ big(2)] by auto
  let ?r = "round_quotient m d"
  have e: "\<bar>2 * (of_int ?r * of_int d - of_int m :: rat)\<bar> \<le> of_int d"
    using round_quotient_error [OF d, of m] by (metis (mono_tags) of_int_abs of_int_diff of_int_le_iff of_int_mult of_int_numeral)
  have "rnd x - x = (of_int ?r * of_int d - of_int m) / (of_int d * of_int p)"
    using assms(1) big d p by (simp add: rnd_def rnd_pos_def x m field_simps)
  then have "\<bar>rnd x - x\<bar> = \<bar>of_int ?r * of_int d - of_int m :: rat\<bar> / (of_int d * of_int p)"
    using d p by (simp add: abs_mult)
  also have "\<dots> \<le> (of_int d / 2) / (of_int d * of_int p)"
  proof (rule divide_right_mono)
    show "\<bar>of_int ?r * of_int d - of_int m :: rat\<bar> \<le> of_int d / 2"
      using e unfolding abs_mult by simp
  qed (use d p in simp)
  also have "\<dots> = 1 / (2 * of_int p)" using d p by simp
  also have "\<dots> \<le> x / 9007199254740992"
  proof -
    have "(4503599627370496 * of_int d :: rat) \<le> of_int m"
      using big(3) by (metis of_int_le_iff of_int_mult of_int_numeral)
    then have "4503599627370496 / of_int p \<le> x" using d p by (simp add: x m field_simps)
    then show ?thesis using p by (simp add: field_simps)
  qed
  finally show ?thesis .
qed

end
