(* ===== verification/Replacers.thy ===== *)
theory Replacers imports Levenshtein JsFloat begin

text \<open>
  The replacers of packages/opencode/src/tool/edit.ts: given a file's contents and the text to look
  for, each generates candidate search strings, as the list of what the generator yields. Similarity
  ratios are IEEE doubles (\<open>JsFloat\<close>).
\<close>

section \<open>Shared text operations\<close>

definition substring :: "jstring \<Rightarrow> nat \<Rightarrow> nat \<Rightarrow> jstring" where
  \<comment> \<open>\<open>s.substring(a, b)\<close> for \<open>a \<le> b\<close>\<close>
  "substring s a b = take (b - a) (drop a s)"

definition pop_blank :: "jstring list \<Rightarrow> jstring list" where
  "pop_blank ls = (if ls \<noteq> [] \<and> last ls = [] then butlast ls else ls)"

definition line_start :: "jstring list \<Rightarrow> nat \<Rightarrow> nat" where
  \<comment> \<open>the offset of line \<open>i\<close>: the loop adding \<open>length + 1\<close>\<close>
  "line_start ls i = sum_list (map (\<lambda>l. length l + 1) (take i ls))"

definition line_block :: "jstring \<Rightarrow> jstring list \<Rightarrow> nat \<Rightarrow> nat \<Rightarrow> jstring" where
  \<comment> \<open>the part of the contents under \<open>n\<close> lines from line \<open>i\<close> on, without the last line feed\<close>
  "line_block content ls i n =
    (let a = line_start ls i
     in substring content a (a + (sum_list (map length (take n (drop i ls))) + (n - 1))))"

definition slice_lines :: "jstring list \<Rightarrow> nat \<Rightarrow> nat \<Rightarrow> jstring" where
  \<comment> \<open>\<open>lines.slice(i, i + n).join("\n")\<close>\<close>
  "slice_lines ls i n = unlines (take n (drop i ls))"

definition offsets :: "jstring list \<Rightarrow> jstring list \<Rightarrow> nat list" where
  \<comment> \<open>\<open>for (let i = 0; i <= ls.length - pat.length; i++)\<close>\<close>
  "offsets ls pat = [0..<length ls + 1 - length pat]"

function collapse :: "jstring \<Rightarrow> jstring" where
  \<comment> \<open>\<open>text.replace(/\s+/g, " ")\<close>\<close>
  "collapse [] = []"
| "collapse (c # s) = (if is_ws c then 32 # collapse (dropWhile is_ws s) else c # collapse s)"
  by pat_completeness auto
termination
  by (relation "measure length") (auto simp: le_imp_less_Suc length_dropWhile_le)

definition normalize_whitespace :: "jstring \<Rightarrow> jstring" where
  "normalize_whitespace s = trim (collapse s)"

function split_ws :: "jstring \<Rightarrow> jstring list" where
  \<comment> \<open>\<open>s.split(/\s+/)\<close>\<close>
  "split_ws s =
    (let w = takeWhile (\<lambda>c. \<not> is_ws c) s; r = drop (length w) s
     in if r = [] then [w] else w # split_ws (dropWhile is_ws r))"
  by pat_completeness auto
termination
proof (relation "measure length", simp, goal_cases)
  case (1 s w r)
  then have r: "r = dropWhile (\<lambda>c. \<not> is_ws c) s" "r \<noteq> []" by (auto simp: dropWhile_eq_drop)
  then obtain c t where ct: "r = c # t" "is_ws c" by (metis hd_dropWhile list.collapse)
  have "length (dropWhile is_ws r) \<le> length t" using ct by (simp add: length_dropWhile_le)
  moreover have "length r \<le> length s" using r by (simp add: length_dropWhile_le)
  ultimately show ?case using ct by simp
qed

declare split_ws.simps [simp del]

section \<open>Exact text and trimmed lines\<close>

definition simple_replacer :: "jstring \<Rightarrow> jstring \<Rightarrow> jstring list" where
  "simple_replacer content sought = [sought]"

definition line_trimmed_replacer :: "jstring \<Rightarrow> jstring \<Rightarrow> jstring list" where
  "line_trimmed_replacer content sought =
    (let original = lines_of content; search = pop_blank (lines_of sought)
     in map (\<lambda>i. line_block content original i (length search))
         (filter (\<lambda>i. list_all (\<lambda>j. trim (original ! (i + j)) = trim (search ! j)) [0..<length search])
           (offsets original search)))"

section \<open>Anchored blocks\<close>

definition THRESHOLD :: rat where
  \<comment> \<open>both similarity thresholds\<close>
  "THRESHOLD = rnd (65 / 100)"

definition line_distance :: "jstring list \<Rightarrow> jstring list \<Rightarrow> nat \<Rightarrow> nat \<Rightarrow> (nat \<times> nat) option" where
  \<comment> \<open>distance and longer length of the \<open>j\<close>-th lines, trimmed; \<open>None\<close> when both are blank\<close>
  "line_distance original search startLine j =
    (let a = trim (original ! (startLine + j)); b = trim (search ! j); m = max (length a) (length b)
     in if m = 0 then None else Some (levenshtein a b, m))"

definition line_ratio :: "nat \<times> nat \<Rightarrow> rat" where
  "line_ratio dm = fsub 1 (fdiv (of_nat (fst dm)) (of_nat (snd dm)))"

fun single_similarity :: "(nat \<Rightarrow> (nat \<times> nat) option) \<Rightarrow> nat \<Rightarrow> nat list \<Rightarrow> rat \<Rightarrow> rat" where
  \<comment> \<open>stops as soon as the threshold is reached\<close>
  "single_similarity gap n [] sim = sim"
| "single_similarity gap n (j # js) sim =
    (case gap j of
       None \<Rightarrow> single_similarity gap n js sim
     | Some dm \<Rightarrow>
         let sim' = fadd sim (fdiv (line_ratio dm) (of_nat n))
         in if sim' \<ge> THRESHOLD then sim' else single_similarity gap n js sim')"

fun total_similarity :: "(nat \<Rightarrow> (nat \<times> nat) option) \<Rightarrow> nat list \<Rightarrow> rat \<Rightarrow> rat" where
  "total_similarity gap [] sim = sim"
| "total_similarity gap (j # js) sim =
    (case gap j of
       None \<Rightarrow> total_similarity gap js sim
     | Some dm \<Rightarrow> total_similarity gap js (fadd sim (line_ratio dm)))"

definition anchor_candidates :: "jstring list \<Rightarrow> jstring \<Rightarrow> jstring \<Rightarrow> nat \<Rightarrow> (nat \<times> nat) list" where
  \<comment> \<open>for each first line, the first matching last line only\<close>
  "anchor_candidates original firstLine lastLine searchBlockSize =
    (let maxDelta = max 1 (searchBlockSize div 4) in
     concat (map (\<lambda>i.
       if trim (original ! i) \<noteq> firstLine then []
       else case find (\<lambda>j. trim (original ! j) = lastLine) [i + 2..<length original] of
              None \<Rightarrow> []
            | Some j \<Rightarrow> if \<bar>int (j - i + 1) - int searchBlockSize\<bar> \<le> int maxDelta then [(i, j)] else [])
       [0..<length original]))"

definition middle_lines :: "nat \<Rightarrow> nat \<Rightarrow> nat list" where
  "middle_lines searchBlockSize actual = [1..<min (searchBlockSize - 1) (actual - 1)]"

fun best_candidate :: "(nat \<times> nat \<Rightarrow> rat) \<Rightarrow> (nat \<times> nat) list \<Rightarrow> (nat \<times> nat) option \<Rightarrow> rat
    \<Rightarrow> (nat \<times> nat) option \<times> rat" where
  "best_candidate sim [] best maxSim = (best, maxSim)"
| "best_candidate sim (c # cs) best maxSim =
    (if sim c > maxSim then best_candidate sim cs (Some c) (sim c) else best_candidate sim cs best maxSim)"

definition block_anchor_replacer :: "jstring \<Rightarrow> jstring \<Rightarrow> jstring list" where
  "block_anchor_replacer content sought =
    (let original = lines_of content; search0 = lines_of sought in
     if length search0 < 3 then []
     else
       let search = pop_blank search0; searchBlockSize = length search;
           candidates = anchor_candidates original (trim (hd search)) (trim (last search)) searchBlockSize;
           block = (\<lambda>(s, e). line_block content original s (e - s + 1))
       in case candidates of
            [] \<Rightarrow> []
          | [(s, e)] \<Rightarrow>
              (let actual = e - s + 1; n = min (searchBlockSize - 2) (actual - 2);
                   sim = (if n > 0 then single_similarity (line_distance original search s) n (middle_lines searchBlockSize actual) 0
                          else 1)
               in if sim \<ge> THRESHOLD then [block (s, e)] else [])
          | _ \<Rightarrow>
              (let sim = (\<lambda>(s, e). let actual = e - s + 1; n = min (searchBlockSize - 2) (actual - 2)
                     in if n > 0 then fdiv (total_similarity (line_distance original search s) (middle_lines searchBlockSize actual) 0) (of_nat n)
                        else 1)
               in case best_candidate sim candidates None (-1) of
                    (Some c, maxSim) \<Rightarrow> if maxSim \<ge> THRESHOLD then [block c] else []
                  | (None, maxSim) \<Rightarrow> []))"

section \<open>White space, indentation, escapes\<close>

fun match_words :: "jstring list \<Rightarrow> jstring \<Rightarrow> nat option" where
  \<comment> \<open>the words joined by \<open>\s+\<close> as a regular expression, at one position: the length matched\<close>
  "match_words [] s = Some 0"
| "match_words [w] s = (if starts_with s w then Some (length w) else None)"
| "match_words (w # v # ws) s =
    (if starts_with s w then
       let r = drop (length w) s; k = length (takeWhile is_ws r)
       in if k = 0 then None else map_option (\<lambda>n. length w + k + n) (match_words (v # ws) (drop k r))
     else None)"

fun first_match :: "jstring list \<Rightarrow> jstring \<Rightarrow> jstring option" where
  "first_match ws [] = map_option (\<lambda>n. []) (match_words ws [])"
| "first_match ws (c # s) =
    (case match_words ws (c # s) of Some n \<Rightarrow> Some (take n (c # s)) | None \<Rightarrow> first_match ws s)"

definition whitespace_line :: "jstring \<Rightarrow> jstring \<Rightarrow> jstring list" where
  \<comment> \<open>what one line of the contents yields\<close>
  "whitespace_line sought line =
    (if normalize_whitespace line = normalize_whitespace sought then [line]
     else if str_includes (normalize_whitespace line) (normalize_whitespace sought) then
       (case first_match (split_ws (trim sought)) line of Some m \<Rightarrow> [m] | None \<Rightarrow> [])
     else [])"

definition whitespace_replacer :: "jstring \<Rightarrow> jstring \<Rightarrow> jstring list" where
  "whitespace_replacer content sought =
    (let ls = lines_of content; fl = lines_of sought
     in concat (map (whitespace_line sought) ls) @
        (if length fl > 1 then
           filter (\<lambda>b. normalize_whitespace b = normalize_whitespace sought)
             (map (\<lambda>i. slice_lines ls i (length fl)) (offsets ls fl))
         else []))"

definition indent_of :: "jstring \<Rightarrow> nat" where
  "indent_of line = length (takeWhile is_ws line)"

definition remove_indentation :: "jstring \<Rightarrow> jstring" where
  "remove_indentation text =
    (let ls = lines_of text; nonEmpty = filter (\<lambda>l. trim l \<noteq> []) ls in
     if nonEmpty = [] then text
     else let minIndent = Min (set (map indent_of nonEmpty))
          in unlines (map (\<lambda>l. if trim l = [] then l else drop minIndent l) ls))"

definition indentation_replacer :: "jstring \<Rightarrow> jstring \<Rightarrow> jstring list" where
  "indentation_replacer content sought =
    (let ls = lines_of content; fl = lines_of sought
     in filter (\<lambda>b. remove_indentation b = remove_indentation sought)
          (map (\<lambda>i. slice_lines ls i (length fl)) (offsets ls fl)))"

definition unescape_unit :: "nat \<Rightarrow> nat option" where
  "unescape_unit c =
    (if c = 110 then Some LF else if c = 116 then Some 9 else if c = 114 then Some CR
     else if c = 39 \<or> c = 34 \<or> c = 96 \<or> c = 92 \<or> c = LF \<or> c = 36 then Some c else None)"

fun unescape :: "jstring \<Rightarrow> jstring" where
  "unescape [] = []"
| "unescape [c] = [c]"
| "unescape (c # d # s) =
    (if c = 92 then (case unescape_unit d of Some u \<Rightarrow> u # unescape s | None \<Rightarrow> c # unescape (d # s))
     else c # unescape (d # s))"

definition escape_replacer :: "jstring \<Rightarrow> jstring \<Rightarrow> jstring list" where
  "escape_replacer content sought =
    (let u = unescape sought; ls = lines_of content; fl = lines_of u
     in (if str_includes content u then [u] else []) @
        filter (\<lambda>b. unescape b = u) (map (\<lambda>i. slice_lines ls i (length fl)) (offsets ls fl)))"

section \<open>Occurrences, trimmed text, context\<close>

partial_function (option) occurrences :: "jstring \<Rightarrow> jstring \<Rightarrow> nat \<Rightarrow> jstring list option" where
  \<comment> \<open>the loop of \<open>MultiOccurrenceReplacer\<close>; \<open>None\<close> when it does not end\<close>
  "occurrences content sought start =
    (case index_from content sought start of
       None \<Rightarrow> Some []
     | Some i \<Rightarrow> Option.bind (occurrences content sought (i + length sought)) (\<lambda>r. Some (sought # r)))"

definition multi_occurrence_replacer :: "jstring \<Rightarrow> jstring \<Rightarrow> jstring list" where
  \<comment> \<open>\<open>replace\<close> excludes the empty \<open>find\<close>, the only one for which the loop does not end\<close>
  "multi_occurrence_replacer content sought = (case occurrences content sought 0 of Some r \<Rightarrow> r | None \<Rightarrow> [])"

definition trimmed_boundary_replacer :: "jstring \<Rightarrow> jstring \<Rightarrow> jstring list" where
  "trimmed_boundary_replacer content sought =
    (let t = trim sought; ls = lines_of content; fl = lines_of sought in
     if t = sought then []
     else (if str_includes content t then [t] else []) @
          filter (\<lambda>b. trim b = t) (map (\<lambda>i. slice_lines ls i (length fl)) (offsets ls fl)))"

definition context_agrees :: "jstring list \<Rightarrow> jstring list \<Rightarrow> bool" where
  \<comment> \<open>at least half of the middle lines that are not blank on both sides are equal when trimmed\<close>
  "context_agrees block sought =
    (let middle = [1..<length block - 1];
         counted = filter (\<lambda>k. trim (block ! k) \<noteq> [] \<or> trim (sought ! k) \<noteq> []) middle;
         matching = filter (\<lambda>k. trim (block ! k) = trim (sought ! k)) counted
     in counted = [] \<or> 2 * length matching \<ge> length counted)"

definition context_replacer :: "jstring \<Rightarrow> jstring \<Rightarrow> jstring list" where
  "context_replacer content sought =
    (let fl0 = lines_of sought in
     if length fl0 < 3 then []
     else
       let fl = pop_blank fl0; ls = lines_of content
       in concat (map (\<lambda>i.
            if trim (ls ! i) \<noteq> trim (hd fl) then []
            else case find (\<lambda>j. trim (ls ! j) = trim (last fl)) [i + 2..<length ls] of
                   None \<Rightarrow> []
                 | Some j \<Rightarrow>
                     (let block = take (j + 1 - i) (drop i ls)
                      in if length block = length fl \<and> context_agrees block fl then [unlines block] else []))
            [0..<length ls]))"

end
