(* ===== verification/ReplacerLaws.thy ===== *)
theory ReplacerLaws imports Replacers begin

text \<open>
  The contract of a replacer, that each string it yields occurs in the contents, as a locale, and its
  interpretation by every replacer but the exact one, which yields the sought text unseen.
\<close>

section \<open>Parts of a text\<close>

lemma str_includes_refl [simp]: "str_includes s s"
  unfolding str_includes_iff by (metis append.left_neutral append.right_neutral)

lemma str_includes_Nil [simp]: "str_includes s []"
  by (auto simp: str_includes_iff)

lemma str_includes_trans: "str_includes a b \<Longrightarrow> str_includes b c \<Longrightarrow> str_includes a c"
  unfolding str_includes_iff by (metis append.assoc)

lemma str_includes_take: "str_includes s (take n s)"
  unfolding str_includes_iff by (metis append_Nil append_take_drop_id)

lemma str_includes_Cons: "str_includes s t \<Longrightarrow> str_includes (c # s) t"
  unfolding str_includes_iff by (metis append_Cons)

lemma str_includes_unlines_append:
  "ys \<noteq> [] \<Longrightarrow> str_includes (unlines (xs @ ys @ zs)) (unlines ys)"
proof -
  assume ys: "ys \<noteq> []"
  have "\<exists>v. unlines (ys @ zs) = unlines ys @ v" using ys by (cases "zs = []") (auto simp: join_with_append)
  moreover have "\<exists>u. unlines (xs @ ys @ zs) = u @ unlines (ys @ zs)"
    using ys by (cases "xs = []") (auto simp: join_with_append)
  ultimately show ?thesis unfolding str_includes_iff by (metis append.assoc)
qed

lemma str_includes_slice: "str_includes content (slice_lines (lines_of content) i n)"
proof (cases "take n (drop i (lines_of content)) = []")
  case True
  show ?thesis unfolding slice_lines_def True by simp
next
  case False
  let ?ls = "lines_of content"
  have "?ls = take i ?ls @ take n (drop i ?ls) @ drop n (drop i ?ls)" by (simp only: append_take_drop_id)
  then have "str_includes (unlines ?ls) (unlines (take n (drop i ?ls)))"
    by (metis False str_includes_unlines_append)
  then show ?thesis by (simp add: slice_lines_def)
qed

lemma str_includes_line: "l \<in> set (lines_of content) \<Longrightarrow> str_includes content l"
proof -
  assume "l \<in> set (lines_of content)"
  then obtain xs ys where "lines_of content = xs @ [l] @ ys" by (auto simp: in_set_conv_decomp)
  then have "str_includes (unlines (lines_of content)) (unlines [l])"
    by (metis list.distinct(1) str_includes_unlines_append)
  then show ?thesis by simp
qed

lemma str_includes_substring: "str_includes s (substring s a b)"
  unfolding substring_def str_includes_iff
  by (metis append.assoc append_take_drop_id)

text \<open>The offsets the line-based replacers compute select exactly the lines they matched.\<close>

lemma length_unlines: "ls \<noteq> [] \<Longrightarrow> length (unlines ls) = sum_list (map length ls) + (length ls - 1)"
  by (induction ls rule: induct_list012) auto

lemma line_start_prefix:
  "i < length ls \<Longrightarrow> \<exists>u. unlines ls = u @ unlines (drop i ls) \<and> length u = line_start ls i"
proof (induction ls arbitrary: i)
  case (Cons l ls)
  show ?case
  proof (cases i)
    case 0
    then show ?thesis by (simp add: line_start_def)
  next
    case (Suc k)
    with Cons.prems have "ls \<noteq> []" "k < length ls" by auto
    from Cons.IH [OF this(2)] obtain u where "unlines ls = u @ unlines (drop k ls)" "length u = line_start ls k" by blast
    then show ?thesis using Suc \<open>ls \<noteq> []\<close>
      by (intro exI [of _ "l @ [LF] @ u"]) (simp add: join_with_Cons line_start_def)
  qed
qed simp

lemma line_block_slice:
  assumes "0 < n" "i + n \<le> length (lines_of content)"
  shows "line_block content (lines_of content) i n = slice_lines (lines_of content) i n"
proof -
  let ?ls = "lines_of content"
  obtain u where u: "unlines ?ls = u @ unlines (drop i ?ls)" "length u = line_start ?ls i"
    using line_start_prefix [of i ?ls] assms by auto
  let ?b = "take n (drop i ?ls)"
  have b: "?b \<noteq> []" "length ?b = n" using assms by auto
  obtain v where v: "unlines (drop i ?ls) = unlines ?b @ v"
  proof (cases "drop n (drop i ?ls) = []")
    case True
    then show ?thesis using that [of "[]"] by (metis append.right_neutral append_take_drop_id)
  next
    case False
    then have "unlines (?b @ drop n (drop i ?ls)) = unlines ?b @ [LF] @ unlines (drop n (drop i ?ls))"
      using b by (intro join_with_append) auto
    then show ?thesis using that by (simp only: append_take_drop_id)
  qed
  have "content = u @ unlines ?b @ v" using u(1) v by (metis join_split)
  then have "drop (length u) content = unlines ?b @ v" by (metis append_eq_conv_conj)
  moreover have "sum_list (map length ?b) + (n - 1) = length (unlines ?b)"
    using length_unlines [OF b(1)] b(2) by simp
  ultimately show ?thesis
    using u(2) by (simp add: line_block_def Let_def substring_def slice_lines_def)
qed

section \<open>The contract\<close>

locale replacer =
  fixes r :: "jstring \<Rightarrow> jstring \<Rightarrow> jstring list"
  assumes yields_part: "s \<in> set (r content sought) \<Longrightarrow> str_includes content s"
begin

lemma yield_found: "s \<in> set (r content sought) \<Longrightarrow> \<exists>i. index_of content s = Some i"
  using yields_part by (auto simp: str_includes_def)

lemma silent_iff: "(\<forall>s \<in> set (r content sought). \<not> str_includes content s) \<longleftrightarrow> r content sought = []"
proof
  assume a: "\<forall>s \<in> set (r content sought). \<not> str_includes content s"
  then show "r content sought = []" using yields_part [of _ content sought] by (cases "r content sought") auto
qed simp

end

interpretation line_trimmed: replacer line_trimmed_replacer
  by unfold_locales (auto simp: line_trimmed_replacer_def line_block_def Let_def str_includes_substring)

lemma block_anchor_yields:
  assumes "s \<in> set (block_anchor_replacer content sought)"
  shows "\<exists>i n. s = line_block content (lines_of content) i n"
proof -
  let ?cs = "anchor_candidates (lines_of content) (trim (hd (pop_blank (lines_of sought))))
      (trim (last (pop_blank (lines_of sought)))) (length (pop_blank (lines_of sought)))"
  consider "?cs = []" | i j where "?cs = [(i, j)]" | c d cs where "?cs = c # d # cs"
    by (metis neq_Nil_conv surj_pair)
  then show ?thesis
  proof cases
    case 1
    then show ?thesis using assms by (simp add: block_anchor_replacer_def Let_def split: if_splits)
  next
    case 2
    then show ?thesis using assms by (auto simp: block_anchor_replacer_def Let_def split: if_splits)
  next
    case 3
    then show ?thesis using assms
      by (cases c) (auto simp: block_anchor_replacer_def Let_def split: if_splits option.splits prod.splits)
  qed
qed

interpretation block_anchor: replacer block_anchor_replacer
  by unfold_locales
    (use block_anchor_yields in \<open>auto simp: line_block_def Let_def str_includes_substring dest!: block_anchor_yields\<close>)

lemma first_match_part: "first_match ws s = Some m \<Longrightarrow> str_includes s m"
  by (induction ws s arbitrary: m rule: first_match.induct)
    (auto split: option.splits intro: str_includes_Cons str_includes_take simp del: take.simps)

lemma whitespace_line_part: "s \<in> set (whitespace_line sought l) \<Longrightarrow> str_includes l s"
proof -
  assume s: "s \<in> set (whitespace_line sought l)"
  show "str_includes l s"
  proof (cases "normalize_whitespace l = normalize_whitespace sought")
    case True
    with s show ?thesis by (simp add: whitespace_line_def)
  next
    case False
    with s have "s \<in> set (case first_match (split_ws (trim sought)) l of Some m \<Rightarrow> [m] | None \<Rightarrow> [])"
      by (cases "str_includes (normalize_whitespace l) (normalize_whitespace sought)") (simp_all add: whitespace_line_def)
    then show ?thesis
      by (cases "first_match (split_ws (trim sought)) l") (simp_all add: first_match_part)
  qed
qed

interpretation whitespace: replacer whitespace_replacer
proof
  fix s content sought assume "s \<in> set (whitespace_replacer content sought)"
  then consider (one) l where "l \<in> set (lines_of content)" "s \<in> set (whitespace_line sought l)"
    | (many) i where "s = slice_lines (lines_of content) i (length (lines_of sought))"
    by (auto simp: whitespace_replacer_def Let_def split: if_splits)
  then show "str_includes content s"
  proof cases
    case one
    then have ls: "str_includes l s"
      using whitespace_line_part by blast
    show ?thesis by (rule str_includes_trans [OF str_includes_line [OF one(1)] ls])
  qed (simp add: str_includes_slice)
qed

interpretation indentation: replacer indentation_replacer
  by unfold_locales (auto simp: indentation_replacer_def Let_def str_includes_slice)

interpretation escape: replacer escape_replacer
  by unfold_locales (auto simp: escape_replacer_def Let_def str_includes_slice split: if_splits)

interpretation trimmed_boundary: replacer trimmed_boundary_replacer
  by unfold_locales (auto simp: trimmed_boundary_replacer_def Let_def str_includes_slice split: if_splits)

interpretation context_aware: replacer context_replacer
  by unfold_locales
    (auto simp: context_replacer_def Let_def split: if_splits option.splits
      intro: str_includes_slice [unfolded slice_lines_def])

section \<open>Occurrences\<close>

lemma index_from_SomeD: "index_from s p a = Some i \<Longrightarrow> a \<le> length s \<Longrightarrow> a \<le> i \<and> i + length p \<le> length s \<and> str_includes s p"
proof -
  assume "index_from s p a = Some i" and a: "a \<le> length s"
  then obtain k where k: "index_of (drop a s) p = Some k" "i = a + k" by (auto simp: index_from_def)
  from index_of_Some_split [OF k(1)] have sp: "drop a s = take k (drop a s) @ p @ drop (k + length p) (drop a s)" .
  have "k \<le> length (drop a s)" using index_of_SomeD [OF k(1)] by blast
  then have "length (drop a s) = k + length p + length (drop (k + length p) (drop a s))"
    using arg_cong [OF sp, of length] by simp
  then have "k + length p \<le> length (drop a s)" by linarith
  moreover have "s = (take a s @ take k (drop a s)) @ p @ drop (k + length p) (drop a s)"
    using sp by (metis append.assoc append_take_drop_id)
  then have "str_includes s p" unfolding str_includes_iff by blast
  ultimately show ?thesis using k(2) a by auto
qed

lemma occurrences_total:
  assumes "sought \<noteq> []" "start \<le> length content"
  shows "\<exists>r. occurrences content sought start = Some r \<and> set r \<subseteq> {sought} \<and> (r \<noteq> [] \<longrightarrow> str_includes content sought)"
  using assms(2)
proof (induction "length content - start" arbitrary: start rule: less_induct)
  case less
  show ?case
  proof (cases "index_from content sought start")
    case None
    then show ?thesis by (simp add: occurrences.simps [of content sought start])
  next
    case (Some i)
    note b = index_from_SomeD [OF Some less.prems]
    have "0 < length sought" using assms(1) by simp
    then have lt: "length content - (i + length sought) < length content - start" using b by linarith
    from less.hyps [OF lt] b obtain r where
      "occurrences content sought (i + length sought) = Some r" "set r \<subseteq> {sought}" by auto
    with Some b show ?thesis by (simp add: occurrences.simps [of content sought start])
  qed
qed

lemma occurrences_member: "s \<in> set (multi_occurrence_replacer content sought) \<Longrightarrow> sought \<noteq> [] \<Longrightarrow> s = sought \<and> str_includes content sought"
  using occurrences_total [of sought 0 content] by (auto simp: multi_occurrence_replacer_def)

lemma occurrences_diverge: "occurrences content [] start = None"
proof -
  have "occurrences content [] start \<noteq> Some r" for r
  proof (induction r arbitrary: start)
    case Nil
    have "index_of (drop start content) [] = Some 0" by (cases "drop start content") auto
    then show ?case by (subst occurrences.simps) (simp add: index_from_def bind_eq_Some_conv)
  next
    case (Cons x r)
    have "index_of (drop start content) [] = Some 0" by (cases "drop start content") auto
    then show ?case using Cons.IH [of start]
      by (subst occurrences.simps) (simp add: index_from_def bind_eq_Some_conv)
  qed
  then show ?thesis by (cases "occurrences content [] start") auto
qed

interpretation multi_occurrence: replacer multi_occurrence_replacer
proof
  fix s content sought assume a: "s \<in> set (multi_occurrence_replacer content sought)"
  show "str_includes content s"
  proof (cases "sought = []")
    case True
    with a show ?thesis by (simp add: multi_occurrence_replacer_def occurrences_diverge)
  next
    case False
    with occurrences_member [OF a] show ?thesis by auto
  qed
qed

end
