(* ===== verification/EditTool.thy ===== *)
theory EditTool imports ReplacerLaws begin

text \<open>
  The edit tool of packages/opencode/src/tool/edit.ts: line endings, the replacement itself, the
  trimming of a diff and the execution of an edit on the disk. The disk is a map from paths to
  entries; the permission prompt, the diff library and the formatter are arguments. A write succeeds.
  The per-file lock serialises executions, so one execution is one step.
\<close>

section \<open>Line endings\<close>

definition normalize_line_endings :: "jstring \<Rightarrow> jstring" where
  "normalize_line_endings text = replace_all [CR, LF] [LF] text"

definition detect_line_ending :: "jstring \<Rightarrow> jstring" where
  "detect_line_ending text = (if str_includes text [CR, LF] then [CR, LF] else [LF])"

definition convert_to_line_ending :: "jstring \<Rightarrow> jstring \<Rightarrow> jstring" where
  "convert_to_line_ending text ending = (if ending = [LF] then text else replace_all [LF] [CR, LF] text)"

section \<open>replaceAll with a replacement string\<close>

function positions :: "jstring \<Rightarrow> jstring \<Rightarrow> nat \<Rightarrow> nat list" where
  \<comment> \<open>where \<open>replaceAll\<close> finds \<open>p\<close>: each search starts behind the last match, one unit on at least\<close>
  "positions p s start =
    (if start > length s then []
     else case index_from s p start of
            None \<Rightarrow> []
          | Some i \<Rightarrow> i # positions p s (i + max 1 (length p)))"
  by pat_completeness auto
termination
  by (relation "measure (\<lambda>(p, s, start). Suc (length s) - start)")
    (auto dest!: index_from_SomeD simp: max_def intro!: diff_less_mono2)

declare positions.simps [simp del]

fun get_substitution :: "jstring \<Rightarrow> jstring \<Rightarrow> jstring \<Rightarrow> jstring \<Rightarrow> jstring" where
  \<comment> \<open>the replacement patterns of ECMAScript for a match without captures: \<open>$$\<close>, \<open>$&\<close>, \<open>$`\<close>, \<open>$'\<close>\<close>
  "get_substitution before matched after [] = []"
| "get_substitution before matched after [c] = [c]"
| "get_substitution before matched after (c # d # t) =
    (if c = 36 \<and> d = 36 then 36 # get_substitution before matched after t
     else if c = 36 \<and> d = 38 then matched @ get_substitution before matched after t
     else if c = 36 \<and> d = 96 then before @ get_substitution before matched after t
     else if c = 36 \<and> d = 39 then after @ get_substitution before matched after t
     else c # get_substitution before matched after (d # t))"

fun stitch :: "jstring \<Rightarrow> jstring \<Rightarrow> jstring \<Rightarrow> nat \<Rightarrow> nat list \<Rightarrow> jstring" where
  "stitch s p template done [] = drop done s"
| "stitch s p template done (i # is) =
    substring s done i @ get_substitution (take i s) p (drop (i + length p) s) template @
    stitch s p template (i + length p) is"

definition js_replace_all :: "jstring \<Rightarrow> jstring \<Rightarrow> jstring \<Rightarrow> jstring" where
  \<comment> \<open>\<open>s.replaceAll(p, template)\<close>\<close>
  "js_replace_all s p template = stitch s p template 0 (positions p s 0)"

section \<open>replace\<close>

datatype edit_error =
    FilePathRequired
  | NoChanges
  | OldStringEmpty
  | Refusing
  | NotFound
  | MultipleMatches
  | ExternalDirectory
  | FileNotFound jstring
  | PathIsDirectory jstring
  | PermissionDenied

definition is_disproportionate_match :: "jstring \<Rightarrow> jstring \<Rightarrow> bool" where
  "is_disproportionate_match search old =
    (let oldLines = length (lines_of old); searchLines = length (lines_of search) in
     if searchLines \<ge> max (oldLines + 3) (oldLines * 2) then True
     else if oldLines = 1 then False
     else length (trim search) > max (length (trim old) + 500) (length (trim old) * 4))"

definition replacers :: "(jstring \<Rightarrow> jstring \<Rightarrow> jstring list) list" where
  "replacers = [simple_replacer, line_trimmed_replacer, block_anchor_replacer, whitespace_replacer,
     indentation_replacer, escape_replacer, trimmed_boundary_replacer, context_replacer,
     multi_occurrence_replacer]"

definition searches :: "jstring \<Rightarrow> jstring \<Rightarrow> jstring list" where
  \<comment> \<open>what the two nested loops of \<open>replace\<close> run over\<close>
  "searches content old = concat (map (\<lambda>r. r content old) replacers)"

fun scan :: "jstring \<Rightarrow> jstring \<Rightarrow> jstring \<Rightarrow> bool \<Rightarrow> jstring list \<Rightarrow> bool \<Rightarrow> (edit_error, jstring) result" where
  \<comment> \<open>the body of the loops, with \<open>notFound\<close>\<close>
  "scan content old new all [] notFound = (if notFound then Inl NotFound else Inl MultipleMatches)"
| "scan content old new all (search # rest) notFound =
    (case index_of content search of
       None \<Rightarrow> scan content old new all rest notFound
     | Some index \<Rightarrow>
         if is_disproportionate_match search old then Inl Refusing
         else if all then Inr (js_replace_all content search new)
         else if last_index_of content search \<noteq> Some index then scan content old new all rest False
         else Inr (take index content @ new @ drop (index + length search) content))"

definition replace :: "jstring \<Rightarrow> jstring \<Rightarrow> jstring \<Rightarrow> bool \<Rightarrow> (edit_error, jstring) result" where
  "replace content old new all =
    (if old = new then Inl NoChanges
     else if old = [] then Inl OldStringEmpty
     else scan content old new all (searches content old) True)"

section \<open>trimDiff\<close>

definition diff_content_line :: "jstring \<Rightarrow> bool" where
  "diff_content_line l \<longleftrightarrow>
    (starts_with l (lit ''+'') \<or> starts_with l (lit ''-'') \<or> starts_with l (lit '' '')) \<and>
    \<not> starts_with l (lit ''---'') \<and> \<not> starts_with l (lit ''+++'')"

definition trim_diff :: "jstring \<Rightarrow> jstring" where
  "trim_diff diff =
    (let ls = lines_of diff;
         contents = map (drop 1) (filter diff_content_line ls);
         indents = map indent_of (filter (\<lambda>c. trim c \<noteq> []) contents)
     in if contents = [] \<or> indents = [] then diff
        else let m = Min (set indents)
             in if m = 0 then diff
                else unlines (map (\<lambda>l. if diff_content_line l then take 1 l @ drop m (drop 1 l) else l) ls))"

section \<open>Executing an edit\<close>

datatype entry = Directory | File jstring

datatype watch_kind = AddKind | ChangeKind

datatype edit_event = Edited jstring | Updated jstring watch_kind

record edit_state =
  disk :: "jstring \<rightharpoonup> entry"
  published :: "edit_event list"

record edit_params =
  file_path :: jstring
  old_string :: jstring
  new_string :: jstring
  all_occurrences :: bool

record edit_env =
  absolute :: "jstring \<Rightarrow> jstring" \<comment> \<open>the path itself, or joined to the instance directory\<close>
  external_ok :: "jstring \<Rightarrow> bool"
  two_files_patch :: "jstring \<Rightarrow> jstring \<Rightarrow> jstring \<Rightarrow> jstring"
  granted :: "jstring \<Rightarrow> jstring \<Rightarrow> bool" \<comment> \<open>\<open>ctx.ask\<close> for a path and a diff returns\<close>
  reformat :: "jstring \<Rightarrow> jstring \<Rightarrow> jstring option" \<comment> \<open>\<open>format.file\<close>: what a formatter leaves, if one ran\<close>

record edit_outcome =
  out_diff :: jstring
  content_old :: jstring
  content_new :: jstring

definition write_file :: "jstring \<Rightarrow> jstring \<Rightarrow> edit_state \<Rightarrow> edit_state" where
  "write_file p raw st = st\<lparr>disk := (disk st)(p \<mapsto> File raw)\<rparr>"

definition sync_file :: "jstring \<Rightarrow> jstring \<Rightarrow> bool \<Rightarrow> edit_state \<Rightarrow> jstring \<times> edit_state" where
  \<comment> \<open>\<open>Bom.syncFile\<close> on a file that now holds \<open>raw\<close>\<close>
  "sync_file p raw bom st =
    (case split_bom raw of (b, text) \<Rightarrow>
       (text, if b = bom then st else write_file p (join_bom text bom) st))"

definition write_and_format :: "edit_env \<Rightarrow> jstring \<Rightarrow> jstring \<Rightarrow> bool \<Rightarrow> edit_state \<Rightarrow> jstring \<times> edit_state" where
  \<comment> \<open>write, format, sync: the new contents and the state\<close>
  "write_and_format env p content bom st =
    (let raw = join_bom content bom; st1 = write_file p raw st in
     case reformat env p raw of
       None \<Rightarrow> (content, st1)
     | Some raw' \<Rightarrow> sync_file p raw' bom (write_file p raw' st1))"

definition publish :: "edit_event list \<Rightarrow> edit_state \<Rightarrow> edit_state" where
  "publish es st = st\<lparr>published := published st @ es\<rparr>"

definition create_file :: "edit_env \<Rightarrow> jstring \<Rightarrow> jstring \<Rightarrow> edit_state \<Rightarrow> (edit_error, edit_outcome) result \<times> edit_state" where
  "create_file env p new st =
    (if disk st p \<noteq> None then (Inl OldStringEmpty, st)
     else
       let (bom, text) = split_bom new; diff = trim_diff (two_files_patch env p [] text) in
       if \<not> granted env p diff then (Inl PermissionDenied, st)
       else
         let (text', st') = write_and_format env p text bom st
         in (Inr \<lparr>out_diff = diff, content_old = [], content_new = text'\<rparr>,
             publish [Edited p, Updated p AddKind] st'))"

definition edit_diff :: "edit_env \<Rightarrow> jstring \<Rightarrow> jstring \<Rightarrow> jstring \<Rightarrow> jstring" where
  "edit_diff env p old new = trim_diff (two_files_patch env p (normalize_line_endings old) (normalize_line_endings new))"

definition edit_file :: "edit_env \<Rightarrow> jstring \<Rightarrow> edit_params \<Rightarrow> edit_state \<Rightarrow> (edit_error, edit_outcome) result \<times> edit_state" where
  "edit_file env p params st =
    (case disk st p of
       None \<Rightarrow> (Inl (FileNotFound p), st)
     | Some Directory \<Rightarrow> (Inl (PathIsDirectory p), st)
     | Some (File raw) \<Rightarrow>
         (let (sbom, contentOld) = split_bom raw;
              ending = detect_line_ending contentOld;
              old = convert_to_line_ending (normalize_line_endings (old_string params)) ending;
              new = convert_to_line_ending (normalize_line_endings (new_string params)) ending
          in case replace contentOld old new (all_occurrences params) of
               Inl e \<Rightarrow> (Inl e, st)
             | Inr replaced \<Rightarrow>
                 (let (nbom, text) = split_bom replaced; bom = (sbom \<or> nbom) in
                  if \<not> granted env p (edit_diff env p contentOld text) then (Inl PermissionDenied, st)
                  else
                    let (text', st') = write_and_format env p text bom st
                    in (Inr \<lparr>out_diff = edit_diff env p contentOld text', content_old = contentOld, content_new = text'\<rparr>,
                        publish [Edited p, Updated p ChangeKind] st'))))"

definition execute :: "edit_env \<Rightarrow> edit_params \<Rightarrow> edit_state \<Rightarrow> (edit_error, edit_outcome) result \<times> edit_state" where
  "execute env params st =
    (if file_path params = [] then (Inl FilePathRequired, st)
     else if old_string params = new_string params then (Inl NoChanges, st)
     else
       let p = absolute env (file_path params) in
       if \<not> external_ok env p then (Inl ExternalDirectory, st)
       else if old_string params = [] then create_file env p (new_string params) st
       else edit_file env p params st)"

end
