(* ===== verification/EditProps.thy ===== *)
theory EditProps imports EditTool begin

text \<open>
  What an edit guarantees: which text is replaced, when it is refused, what \<open>replaceAll\<close> does with a
  replacement string, and what an execution does to the disk.
\<close>

section \<open>Scanning the candidates\<close>

definition unique_in :: "jstring \<Rightarrow> jstring \<Rightarrow> bool" where
  \<comment> \<open>the search occurs exactly once\<close>
  "unique_in content search \<longleftrightarrow> (\<exists>pre post. content = pre @ search @ post \<and>
     (\<forall>pre' post'. content = pre' @ search @ post' \<longrightarrow> pre' = pre))"

lemma index_last_unique:
  assumes "index_of s p = Some i" "last_index_of s p = Some i"
  shows "unique_in s p"
proof -
  have sp: "s = take i s @ p @ drop (i + length p) s" using assms(1) by (rule index_of_Some_split)
  have len: "length (take i s) = i" using index_of_SomeD [OF assms(1)] by simp
  have "pre' = take i s" if "s = pre' @ p @ post'" for pre' post'
    using index_eq_last_unique [OF assms that] that by (metis append_eq_conv_conj)
  with sp show ?thesis unfolding unique_in_def by blast
qed

lemma scan_single:
  assumes "scan content old new False ss nf = Inr r"
  shows "\<exists>search pre post. search \<in> set ss \<and> content = pre @ search @ post \<and> r = pre @ new @ post \<and>
    unique_in content search \<and> \<not> is_disproportionate_match search old"
  using assms
proof (induction ss arbitrary: nf)
  case (Cons search ss)
  show ?case
  proof (cases "index_of content search")
    case None
    with Cons obtain s pre post where "s \<in> set ss" "content = pre @ s @ post" "r = pre @ new @ post"
      "unique_in content s" "\<not> is_disproportionate_match s old" by fastforce
    then show ?thesis by (metis list.set_intros(2))
  next
    case (Some i)
    with Cons.prems have np: "\<not> is_disproportionate_match search old" by (auto split: if_splits)
    show ?thesis
    proof (cases "last_index_of content search = Some i")
      case True
      with Some Cons.prems np have "r = take i content @ new @ drop (i + length search) content" by simp
      moreover note index_of_Some_split [OF Some] index_last_unique [OF Some True] np
      ultimately show ?thesis
        by (intro exI [of _ search] exI [of _ "take i content"] exI [of _ "drop (i + length search) content"]) simp
    next
      case False
      with Some Cons.prems np have "scan content old new False ss False = Inr r" by simp
      from Cons.IH [OF this] show ?thesis by (metis list.set_intros(2))
    qed
  qed
qed (simp split: if_splits)

lemma scan_not_found:
  "scan content old new all ss nf = Inl NotFound \<longleftrightarrow> nf \<and> (\<forall>s \<in> set ss. \<not> str_includes content s)"
proof (induction ss arbitrary: nf all)
  case (Cons s ss)
  show ?case
    by (cases "index_of content s") (auto simp: Cons.IH str_includes_def)
qed simp

lemma proportionate_self: "\<not> is_disproportionate_match old old"
proof -
  have "lines_of old \<noteq> []" by simp
  then have "length (lines_of old) > 0" by blast
  then show ?thesis by (simp add: is_disproportionate_match_def Let_def del: length_greater_0_conv)
qed

lemma searches_simple: "searches content old = old # concat (map (\<lambda>r. r content old) (tl replacers))"
  by (simp add: searches_def replacers_def simple_replacer_def)

lemma other_searches_part:
  "r \<in> set (tl replacers) \<Longrightarrow> s \<in> set (r content old) \<Longrightarrow> str_includes content s"
  unfolding replacers_def
  by (auto intro: line_trimmed.yields_part block_anchor.yields_part whitespace.yields_part
      indentation.yields_part escape.yields_part trimmed_boundary.yields_part context_aware.yields_part
      multi_occurrence.yields_part)

section \<open>replaceAll\<close>

lemma get_substitution_plain: "36 \<notin> set template \<Longrightarrow> get_substitution before matched after template = template"
  by (induction before matched after template rule: get_substitution.induct) auto

lemma replace_all_first:
  "index_of s p = Some i \<Longrightarrow> p \<noteq> [] \<Longrightarrow>
   replace_all p r s = take i s @ r @ replace_all p r (drop (i + length p) s)"
proof (induction s p arbitrary: i rule: index_of.induct)
  case (2 c s p)
  show ?case
  proof (cases "starts_with (c # s) p")
    case True
    with 2 show ?thesis by simp
  next
    case False
    with "2.prems" obtain k where "index_of s p = Some k" "i = Suc k" by auto
    with 2 False show ?thesis by simp
  qed
qed (simp split: if_splits)

lemma stitch_replace_all:
  assumes p: "p \<noteq> []" and t: "36 \<notin> set template"
  shows "start \<le> length s \<Longrightarrow> stitch s p template start (positions p s start) = replace_all p template (drop start s)"
proof (induction "length s - start" arbitrary: start rule: less_induct)
  case less
  show ?case
  proof (cases "index_from s p start")
    case None
    then have "\<not> str_includes (drop start s) p" by (simp add: index_from_def str_includes_def)
    with None less.prems show ?thesis
      by (simp add: positions.simps [of p s start] replace_all_absent)
  next
    case (Some i)
    then obtain k where k: "index_of (drop start s) p = Some k" "i = start + k" by (auto simp: index_from_def)
    note b = index_from_SomeD [OF Some less.prems]
    have pos: "positions p s start = i # positions p s (i + length p)"
      using Some less.prems p by (simp add: positions.simps [of p s start] max_def Suc_le_eq)
    have "0 < length p" using p by simp
    then have "length s - (i + length p) < length s - start" using b by linarith
    from less.hyps [OF this] b have IH:
      "stitch s p template (i + length p) (positions p s (i + length p)) = replace_all p template (drop (i + length p) s)"
      by simp
    show ?thesis
      unfolding pos stitch.simps IH replace_all_first [OF k(1) p]
      by (simp add: get_substitution_plain [OF t] substring_def k(2) add.commute add.left_commute)
  qed
qed

lemma js_replace_all_plain: "p \<noteq> [] \<Longrightarrow> 36 \<notin> set template \<Longrightarrow> js_replace_all s p template = replace_all p template s"
  using stitch_replace_all [of p template 0 s] by (simp add: js_replace_all_def)

section \<open>Properties of the replacement\<close>

text \<open>C22. A successful single replacement changes one place only: the new contents are the old ones with
  one occurrence of a candidate exchanged for the new string, the candidate was yielded by a
  replacer, occurs nowhere else, and is not disproportionate to the text that was sought.\<close>

theorem replace_changes_one_place:
  assumes "replace content old new False = Inr r"
  shows "\<exists>search pre post. search \<in> set (searches content old) \<and> content = pre @ search @ post \<and>
    r = pre @ new @ post \<and> unique_in content search \<and> \<not> is_disproportionate_match search old"
  using assms scan_single by (auto simp: replace_def split: if_splits)

lemma replace_changes_one_place_witness:
  "\<exists>search pre post. pre @ lit ''Y'' @ post = lit ''aY'' \<and> pre @ search @ post = lit ''ab '' \<and> unique_in (lit ''ab '') search"
proof -
  have "replace (lit ''ab '') (lit ''b '') (lit ''Y'') False = Inr (lit ''aY'')" by code_simp
  from replace_changes_one_place [OF this] show ?thesis by metis
qed

text \<open>A text that occurs exactly once is the text that is replaced: no tolerant replacer is consulted.\<close>

theorem replace_exact:
  assumes "old \<noteq> new" "old \<noteq> []" "content = pre @ old @ post"
    "\<forall>pre' post'. content = pre' @ old @ post' \<longrightarrow> pre' = pre"
  shows "replace content old new False = Inr (pre @ new @ post)"
proof -
  have i: "index_of content old = Some (length pre)" "last_index_of content old = Some (length pre)"
    using unique_index_of [OF assms(3)] assms(4) by blast+
  show ?thesis
    using assms(1,2) i proportionate_self [of old] by (simp add: replace_def searches_simple assms(3))
qed

lemma replace_exact_witness: "replace (lit ''xay'') (lit ''a'') (lit ''bb'') False = Inr (lit ''x'' @ lit ''bb'' @ lit ''y'')"
proof (rule replace_exact)
  show "\<forall>pre' post'. lit ''xay'' = pre' @ lit ''a'' @ post' \<longrightarrow> pre' = lit ''x''"
    by (auto simp: lit_def append_eq_Cons_conv Cons_eq_append_conv)
qed (simp_all add: lit_def)

text \<open>A search fails as not found exactly when the sought text does not occur and none of the tolerant
  replacers yields anything: a candidate of theirs is always a part of the contents.\<close>

theorem replace_not_found:
  "replace content old new all = Inl NotFound \<longleftrightarrow>
    old \<noteq> new \<and> old \<noteq> [] \<and> \<not> str_includes content old \<and>
    list_all (\<lambda>r. r content old = []) (tl replacers)"
proof -
  have others: "(\<forall>s \<in> set (concat (map (\<lambda>r. r content old) (tl replacers))). \<not> str_includes content s) \<longleftrightarrow>
      (\<forall>r \<in> set (tl replacers). r content old = [])"
  proof
    assume a: "\<forall>s \<in> set (concat (map (\<lambda>r. r content old) (tl replacers))). \<not> str_includes content s"
    show "\<forall>r \<in> set (tl replacers). r content old = []"
    proof
      fix r assume r: "r \<in> set (tl replacers)"
      have "s \<notin> set (r content old)" for s using a r other_searches_part [OF r] by auto
      then show "r content old = []" by (cases "r content old") auto
    qed
  qed auto
  have "scan content old new all (searches content old) True = Inl NotFound \<longleftrightarrow>
      \<not> str_includes content old \<and> (\<forall>r \<in> set (tl replacers). r content old = [])"
    unfolding scan_not_found searches_simple using others by (simp only: list.set) blast
  then show ?thesis by (simp add: replace_def list_all_iff)
qed

text \<open>Replacing all occurrences of a text that occurs, by a string without a dollar sign, replaces every
  occurrence, left to right, by that very string.\<close>

theorem replace_all_plain:
  assumes "old \<noteq> new" "old \<noteq> []" "str_includes content old" "36 \<notin> set new"
  shows "replace content old new True = Inr (replace_all old new content)"
proof -
  obtain i where i: "index_of content old = Some i" using assms(3) by (auto simp: str_includes_def)
  show ?thesis
    using assms i proportionate_self [of old] js_replace_all_plain [of old new content]
    by (simp add: replace_def searches_simple)
qed

lemma replace_all_plain_witness: "replace (lit ''aXbX'') (lit ''X'') (lit ''yy'') True = Inr (lit ''ayybyy'')"
proof -
  have "replace_all (lit ''X'') (lit ''yy'') (lit ''aXbX'') = lit ''ayybyy''" by code_simp
  moreover have "str_includes (lit ''aXbX'') (lit ''X'')" by code_simp
  moreover have "36 \<notin> set (lit ''yy'')" "lit ''X'' \<noteq> lit ''yy''" "lit ''X'' \<noteq> []" by (simp_all add: lit_def)
  ultimately show ?thesis using replace_all_plain by metis
qed

text \<open>With a dollar sign it does not: \<open>replaceAll\<close> expands replacement patterns, so \<open>$$\<close> becomes one
  dollar and \<open>$&\<close> the matched text, where a single replacement inserts the string as it is.\<close>

theorem replace_all_expands_dollars:
  "replace (lit ''price'') (lit ''price'') (lit ''$$5'') True = Inr (lit ''$5'') \<and>
   replace (lit ''price'') (lit ''price'') (lit ''$$5'') False = Inr (lit ''$$5'') \<and>
   replace (lit ''a b a'') (lit ''a'') (lit ''<$&>'') True = Inr (lit ''<a> b <a>'')"
proof (intro conjI)
  show "replace (lit ''price'') (lit ''price'') (lit ''$$5'') True = Inr (lit ''$5'')" by code_simp
  show "replace (lit ''price'') (lit ''price'') (lit ''$$5'') False = Inr (lit ''$$5'')" by code_simp
  show "replace (lit ''a b a'') (lit ''a'') (lit ''<$&>'') True = Inr (lit ''<a> b <a>'')" by code_simp
qed

text \<open>Sought white space that does not occur, in a file with a blank line, matches the empty string of
  that line: replacing all occurrences then inserts the new string between any two units.\<close>

theorem blank_search_shreds_the_file:
  "replace (unlines [lit ''ab'', [], lit ''c'']) (lit ''  '') (lit ''X'') True =
    Inr (lit ''XaXbX'' @ [LF] @ lit ''X'' @ [LF] @ lit ''XcX'')"
  by code_simp

section \<open>Trimming a diff\<close>

text \<open>Trimming a diff keeps its lines one for one; a line that is no content line stays as it is, and
  content lines keep their marker and lose the same number of leading units, which in a line that
  is not blank are all white space.\<close>

theorem trim_diff_lines:
  "\<exists>n. lines_of (trim_diff diff) =
      map (\<lambda>l. if diff_content_line l then take 1 l @ drop n (drop 1 l) else l) (lines_of diff) \<and>
    list_all (\<lambda>l. \<not> diff_content_line l \<or> trim (drop 1 l) = [] \<or> list_all is_ws (take n (drop 1 l))) (lines_of diff)"
proof -
  let ?contents = "map (drop 1) (filter diff_content_line (lines_of diff))"
  let ?indents = "map indent_of (filter (\<lambda>c. trim c \<noteq> []) ?contents)"
  let ?cut = "\<lambda>n l. if diff_content_line l then take 1 l @ drop n (drop 1 l) else l"
  have same: "map (?cut 0) (lines_of diff) = lines_of diff" by (intro map_idI) simp
  show ?thesis
  proof (cases "?contents = [] \<or> ?indents = [] \<or> Min (set ?indents) = 0")
    case True
    then have "trim_diff diff = diff" by (auto simp: trim_diff_def Let_def)
    then show ?thesis using same by (intro exI [of _ 0]) (simp add: list_all_iff)
  next
    case False
    let ?m = "Min (set ?indents)"
    have t: "trim_diff diff = unlines (map (?cut ?m) (lines_of diff))"
      using False unfolding trim_diff_def Let_def by simp
    have noLF: "\<forall>l \<in> set (map (?cut ?m) (lines_of diff)). LF \<notin> set l"
      using split_on_no_sep [of _ LF diff] by (auto dest!: in_set_takeD in_set_dropD)
    have "lines_of (trim_diff diff) = map (?cut ?m) (lines_of diff)"
      unfolding t by (rule split_join) (use noLF in auto)
    moreover have "\<not> diff_content_line l \<or> trim (drop 1 l) = [] \<or> list_all is_ws (take ?m (drop 1 l))"
      if l: "l \<in> set (lines_of diff)" for l
    proof (cases "diff_content_line l \<and> trim (drop 1 l) \<noteq> []")
      case True
      then have "indent_of (drop 1 l) \<in> set ?indents" using l by auto
      then have "?m \<le> indent_of (drop 1 l)" by simp
      then have "set (take ?m (drop 1 l)) \<subseteq> set (takeWhile is_ws (drop 1 l))"
        unfolding indent_of_def by (metis set_take_subset_set_take takeWhile_eq_take)
      then show ?thesis by (auto simp: list_all_iff dest: set_takeWhileD)
    qed auto
    ultimately show ?thesis unfolding list_all_iff by blast
  qed
qed

lemma trim_diff_lines_witness:
  "\<exists>n. lines_of (trim_diff (unlines [lit ''--- f'', lit ''+    a'', lit ''-  b''])) =
     [lit ''--- f'', lit ''+'' @ drop n (lit ''    a''), lit ''-'' @ drop n (lit ''  b'')]"
proof -
  let ?d = "unlines [lit ''--- f'', lit ''+    a'', lit ''-  b'']"
  have ls: "lines_of ?d = [lit ''--- f'', lit ''+    a'', lit ''-  b'']" by code_simp
  have c: "\<not> diff_content_line (lit ''--- f'')" "diff_content_line (lit ''+    a'')" "diff_content_line (lit ''-  b'')"
    by code_simp+
  from trim_diff_lines [of ?d] obtain n where
    "lines_of (trim_diff ?d) =
      map (\<lambda>l. if diff_content_line l then take 1 l @ drop n (drop 1 l) else l) (lines_of ?d)" by blast
  then show ?thesis using c unfolding ls by (intro exI [of _ n]) (simp add: lit_def)
qed

section \<open>Properties of an execution\<close>

lemma split_bom_cases: "split_bom t = (starts_with t [BOM], if starts_with t [BOM] then drop 1 t else t)"
  by (cases t) (auto simp: split_bom_def)

lemma fst_split_join: "bom \<Longrightarrow> fst (split_bom (join_bom t bom))"
  by (simp add: join_bom_def Let_def split_bom_def)

lemma write_and_format_disk:
  assumes "write_and_format env p body bom st = (body', st')"
  shows "\<exists>raw. disk st' = (disk st)(p \<mapsto> File raw) \<and> published st' = published st \<and>
    (bom \<longrightarrow> fst (split_bom raw)) \<and> (reformat env p (join_bom body bom) = None \<longrightarrow> raw = join_bom body bom \<and> body' = body)"
proof (cases "reformat env p (join_bom body bom)")
  case None
  with assms show ?thesis
    by (auto simp: write_and_format_def write_file_def Let_def intro: fst_split_join)
next
  case (Some raw')
  obtain b t where s: "split_bom raw' = (b, t)" by (cases "split_bom raw'")
  with Some assms have t: "body' = t" and
    st': "st' = (if b = bom then write_file p raw' (write_file p (join_bom body bom) st)
       else write_file p (join_bom t bom) (write_file p raw' (write_file p (join_bom body bom) st)))"
    by (auto simp: write_and_format_def sync_file_def Let_def split: if_splits)
  then show ?thesis
    using Some s by (cases "b = bom") (auto simp: write_file_def intro: fst_split_join)
qed

definition asked_diff :: "edit_env \<Rightarrow> edit_params \<Rightarrow> edit_state \<Rightarrow> jstring" where
  \<comment> \<open>specification: the diff the user is shown, from the contents on the disk to the requested ones\<close>
  "asked_diff env params st =
    (let p = absolute env (file_path params) in
     case disk st p of
       Some (File raw) \<Rightarrow>
         (let old = snd (split_bom raw); ending = detect_line_ending old;
              conv = (\<lambda>t. convert_to_line_ending (normalize_line_endings t) ending)
          in case replace old (conv (old_string params)) (conv (new_string params)) (all_occurrences params) of
               Inr replaced \<Rightarrow> edit_diff env p old (snd (split_bom replaced))
             | Inl e \<Rightarrow> [])
     | _ \<Rightarrow> trim_diff (two_files_patch env p [] (snd (split_bom (new_string params)))))"

definition good_outcome :: "edit_env \<Rightarrow> edit_params \<Rightarrow> edit_state \<Rightarrow> (edit_error, edit_outcome) result \<times> edit_state \<Rightarrow> bool" where
  "good_outcome env params st r = (case r of
     (Inl e, st') \<Rightarrow> st' = st
   | (Inr out, st') \<Rightarrow>
       (\<exists>raw kind. disk st' = (disk st)(absolute env (file_path params) \<mapsto> File raw) \<and>
         granted env (absolute env (file_path params)) (asked_diff env params st) \<and>
         published st' = published st @ [Edited (absolute env (file_path params)), Updated (absolute env (file_path params)) kind] \<and>
         (kind = AddKind) = (disk st (absolute env (file_path params)) = None) \<and>
         list_all (\<lambda>old_raw. \<not> fst (split_bom old_raw) \<or> fst (split_bom raw))
           (case disk st (absolute env (file_path params)) of Some (File old_raw) \<Rightarrow> [old_raw] | _ \<Rightarrow> [])))"

lemma create_file_outcome:
  assumes "old_string params = []"
  shows "good_outcome env params st (create_file env (absolute env (file_path params)) (new_string params) st)"
proof -
  let ?p = "absolute env (file_path params)"
  obtain bom body where s: "split_bom (new_string params) = (bom, body)" by (cases "split_bom (new_string params)")
  let ?diff = "trim_diff (two_files_patch env ?p [] body)"
  obtain body' st1 where w: "write_and_format env ?p body bom st = (body', st1)"
    by (cases "write_and_format env ?p body bom st")
  show ?thesis
  proof (cases "disk st ?p = None \<and> granted env ?p ?diff")
    case True
    with assms s w write_and_format_disk [OF w] show ?thesis
      by (auto simp: good_outcome_def create_file_def Let_def publish_def asked_diff_def)
  next
    case False
    with s show ?thesis by (auto simp: good_outcome_def create_file_def Let_def)
  qed
qed

lemma edit_file_outcome:
  assumes "old_string params \<noteq> []" and raw: "disk st (absolute env (file_path params)) = Some (File raw)"
  shows "good_outcome env params st (edit_file env (absolute env (file_path params)) params st)"
proof -
  let ?p = "absolute env (file_path params)"
  obtain sbom old where s: "split_bom raw = (sbom, old)" by (cases "split_bom raw")
  let ?r = "replace old (convert_to_line_ending (normalize_line_endings (old_string params)) (detect_line_ending old))
      (convert_to_line_ending (normalize_line_endings (new_string params)) (detect_line_ending old)) (all_occurrences params)"
  show ?thesis
  proof (cases ?r)
    case (Inl e)
    then show ?thesis using raw s by (simp add: good_outcome_def edit_file_def Let_def)
  next
    case (Inr replaced)
    obtain nbom body where n: "split_bom replaced = (nbom, body)" by (cases "split_bom replaced")
    obtain body' st1 where w: "write_and_format env ?p body (sbom \<or> nbom) st = (body', st1)"
      by (cases "write_and_format env ?p body (sbom \<or> nbom) st")
    show ?thesis
    proof (cases "granted env ?p (edit_diff env ?p old body)")
      case True
      with assms(1) raw s n w Inr write_and_format_disk [OF w] show ?thesis
        by (auto simp: good_outcome_def edit_file_def Let_def publish_def asked_diff_def)
    next
      case False
      then show ?thesis using raw s n Inr by (simp add: good_outcome_def edit_file_def Let_def)
    qed
  qed
qed

text \<open>An execution that fails leaves the disk and the events as they were; one that succeeds writes the
  one file it was asked for, publishes its two events, had the permission for
  the very diff it makes, and never drops the byte order mark of a
  file that had one.\<close>

theorem execute_outcome:
  "case execute env params st of
     (Inl e, st') \<Rightarrow> st' = st
   | (Inr out, st') \<Rightarrow>
       (\<exists>raw kind. disk st' = (disk st)(absolute env (file_path params) \<mapsto> File raw) \<and>
         granted env (absolute env (file_path params)) (asked_diff env params st) \<and>
         published st' = published st @ [Edited (absolute env (file_path params)), Updated (absolute env (file_path params)) kind] \<and>
         (kind = AddKind) = (disk st (absolute env (file_path params)) = None) \<and>
         list_all (\<lambda>old_raw. \<not> fst (split_bom old_raw) \<or> fst (split_bom raw))
           (case disk st (absolute env (file_path params)) of Some (File old_raw) \<Rightarrow> [old_raw] | _ \<Rightarrow> []))"
proof -
  let ?p = "absolute env (file_path params)"
  consider (stop) e where "execute env params st = (Inl e, st)"
    | (create) "execute env params st = create_file env ?p (new_string params) st" "old_string params = []"
    | (edit) "execute env params st = edit_file env ?p params st" "old_string params \<noteq> []"
    by (cases "file_path params = []"; cases "old_string params = new_string params"; cases "external_ok env ?p";
        cases "old_string params = []") (auto simp: execute_def Let_def)
  then have "good_outcome env params st (execute env params st)"
  proof cases
    case stop
    then show ?thesis by (simp add: good_outcome_def)
  next
    case create
    then show ?thesis by (simp add: create_file_outcome)
  next
    case edit
    show ?thesis
    proof (cases "\<exists>raw. disk st ?p = Some (File raw)")
      case False
      then have "execute env params st = (Inl (FileNotFound ?p), st) \<or> execute env params st = (Inl (PathIsDirectory ?p), st)"
        using edit(1) by (auto simp: edit_file_def split: option.split entry.split)
      then show ?thesis by (auto simp: good_outcome_def)
    next
      case True
      with edit_file_outcome [OF edit(2)] edit(1) show ?thesis by auto
    qed
  qed
  then show ?thesis by (simp only: good_outcome_def)
qed

lemma execute_outcome_witness:
  "\<exists>env params st out st'. execute env params st = (Inr out, st') \<and> disk st (lit ''/f'') \<noteq> disk st' (lit ''/f'') \<and>
    (\<exists>raw kind. disk st' = (disk st)(lit ''/f'' \<mapsto> File raw) \<and> fst (split_bom raw) \<and>
      published st' = published st @ [Edited (lit ''/f''), Updated (lit ''/f'') kind])"
proof -
  let ?env = "\<lparr>absolute = (\<lambda>p. p), external_ok = (\<lambda>p. True), two_files_patch = (\<lambda>p a b. []), granted = (\<lambda>p d. True),
    reformat = (\<lambda>p c. None)\<rparr>"
  let ?params = "\<lparr>file_path = lit ''/f'', old_string = lit ''a'', new_string = lit ''b'', all_occurrences = False\<rparr>"
  let ?st = "\<lparr>disk = [lit ''/f'' \<mapsto> File (BOM # lit ''a'')], published = []\<rparr>"
  have b: "fst (split_bom (BOM # lit ''a''))" by (simp add: split_bom_def)
  have r: "case execute ?env ?params ?st of (Inr out, st') \<Rightarrow> disk st' (lit ''/f'') = Some (File (BOM # lit ''b'')) | _ \<Rightarrow> False"
    by code_simp
  then obtain out st' where e: "execute ?env ?params ?st = (Inr out, st')" by (auto split: prod.splits sum.splits)
  have "disk st' (lit ''/f'') = Some (File (BOM # lit ''b''))" using r e by simp
  then have "disk ?st (lit ''/f'') \<noteq> disk st' (lit ''/f'')" by (simp add: lit_def)
  moreover have "\<exists>raw kind. disk st' = (disk ?st)(lit ''/f'' \<mapsto> File raw) \<and> fst (split_bom raw) \<and>
      published st' = published ?st @ [Edited (lit ''/f''), Updated (lit ''/f'') kind]"
    using execute_outcome [where env = ?env and params = ?params and st = ?st] b by (auto simp: e)
  ultimately show ?thesis using e by blast
qed

end
