(* ===== verification/EventReplay.thy ===== *)
theory EventReplay imports EventLog begin

text \<open>
  Replicas of the event log: what replaying one serialized row does, and that a replica which holds
  a prefix of an aggregate's events catches up by replaying the whole of them.
\<close>

section \<open>Rows in order\<close>

lemma log_ok_sorted: "log_ok st \<Longrightarrow> sorted (map row_seq (rows_of st agg))"
  by (simp add: log_ok_seqs)

lemma rows_after_eq:
  assumes "log_ok st"
  shows "rows_after st agg after = filter (\<lambda>r. after < row_seq r) (rows_of st agg)"
proof -
  have "rows_after st agg after = sort_key row_seq (filter (\<lambda>r. after < row_seq r) (rows_of st agg))"
    by (simp add: rows_after_def rows_of_def conj_commute)
  also have "\<dots> = filter (\<lambda>r. after < row_seq r) (rows_of st agg)"
    by (rule sort_key_id_if_sorted) (rule sorted_filter [OF log_ok_sorted [OF assms]])
  finally show ?thesis .
qed

lemma rows_of_seq_nonneg: "log_ok st \<Longrightarrow> r \<in> set (rows_of st agg) \<Longrightarrow> 0 \<le> row_seq r"
  using log_ok_seqs [of st agg] by (metis atLeastAtMost_iff image_eqI list.set_map set_upto)

lemma all_rows: "log_ok st \<Longrightarrow> rows_after st agg (-1) = rows_of st agg"
  by (auto simp: rows_after_eq filter_id_conv dest: rows_of_seq_nonneg)

lemma length_rows_of: "log_ok st \<Longrightarrow> int (length (rows_of st agg)) = latest_sequence st agg + 1"
proof -
  assume ok: "log_ok st"
  have "length (rows_of st agg) = nat (latest_sequence st agg + 1)" using arg_cong [OF log_ok_seqs [OF ok, of agg], of length] by simp
  moreover have "-1 \<le> latest_sequence st agg" using ok by (simp add: log_ok_def)
  ultimately show ?thesis by simp
qed

lemma rows_of_nth:
  assumes ok: "log_ok st" and i: "i < length (rows_of st agg)"
  shows "row_seq (rows_of st agg ! i) = int i"
proof -
  have "row_seq (rows_of st agg ! i) = map row_seq (rows_of st agg) ! i" using i by simp
  also have "\<dots> = int i" using i length_rows_of [OF ok, of agg] by (simp add: log_ok_seqs [OF ok] nth_upto)
  finally show ?thesis .
qed

section \<open>One row\<close>

definition row_valid :: "(jstring \<Rightarrow> ('d, 'j) event_def option) \<Rightarrow> 'j event_row \<Rightarrow> bool" where
  \<comment> \<open>the manifest knows the row's type, and its data decodes to an event of the row's aggregate that
     encodes to the same data\<close>
  "row_valid manifest r \<longleftrightarrow>
    (case manifest (row_type r) of
       None \<Rightarrow> False
     | Some def \<Rightarrow>
         (case (def_durable def, decode def (row_data r)) of
            (Some spec, Some d) \<Rightarrow> encode def d = Some (row_data r) \<and> aggregate_of spec d = Some (row_aggregate r) \<and>
              versioned_type (def_type def) (version spec) = row_type r
          | _ \<Rightarrow> False))"

lemma row_validE:
  assumes "row_valid manifest r"
  obtains def spec d where "manifest (row_type r) = Some def" "def_durable def = Some spec" "decode def (row_data r) = Some d"
    "encode def d = Some (row_data r)" "aggregate_of spec d = Some (row_aggregate r)" "versioned_type (def_type def) (version spec) = row_type r"
  using assms by (auto simp: row_valid_def split: option.splits)

definition project_row ::
  "(jstring \<Rightarrow> ('d, 'p, 'x) projector list) \<Rightarrow> (jstring \<Rightarrow> ('d, 'j) event_def option) \<Rightarrow> 'j event_row \<Rightarrow> 'p \<Rightarrow> ('x, 'p) result" where
  \<comment> \<open>what the projectors make of a stored row\<close>
  "project_row proj manifest r p =
    (case manifest (row_type r) of
       None \<Rightarrow> Inr p
     | Some def \<Rightarrow>
         (case (def_durable def, decode def (row_data r)) of
            (Some spec, Some d) \<Rightarrow>
              project_all (proj (def_type def))
                \<lparr>ev_id = row_id r, ev_type = def_type def, ev_data = d, ev_durable = Some (row_aggregate r, row_seq r, version spec)\<rparr> p
          | _ \<Rightarrow> Inr p))"

fun project_rows ::
  "(jstring \<Rightarrow> ('d, 'p, 'x) projector list) \<Rightarrow> (jstring \<Rightarrow> ('d, 'j) event_def option) \<Rightarrow> 'j event_row list \<Rightarrow> 'p \<Rightarrow> ('x, 'p) result" where
  "project_rows proj manifest [] p = Inr p"
| "project_rows proj manifest (r # rs) p = rbind (project_row proj manifest r p) (project_rows proj manifest rs)"

definition may_replay :: "replay_options \<Rightarrow> jstring \<Rightarrow> ('d, 'j, 'p) event_log \<Rightarrow> bool" where
  \<comment> \<open>nobody else owns the aggregate\<close>
  "may_replay opts agg st \<longleftrightarrow> \<not> (named (owner_of st agg) \<and> owner_of st agg \<noteq> opt_owner opts)"

definition replay_input_of :: "replay_options \<Rightarrow> 'j event_row \<Rightarrow> replay_input" where
  "replay_input_of opts r =
    \<lparr>in_seq = row_seq r, in_aggregate = row_aggregate r, in_owner = opt_owner opts, strict_owner = opt_strict opts\<rparr>"

lemma replay_tx:
  assumes v: "manifest (row_type r) = Some def" "def_durable def = Some spec" "decode def (row_data r) = Some d"
      "aggregate_of spec d = Some (row_aggregate r)"
    and run: "commit_tx proj def spec \<lparr>ev_id = row_id r, ev_type = def_type def, ev_data = d, ev_durable = None\<rparr> (row_aggregate r)
      (Some (replay_input_of opts r)) None st = Inr (c, st')"
  shows "\<exists>st2. replay proj manifest opts r st = (Inr (), st2) \<and> sequences st2 = sequences st' \<and> log st2 = log st' \<and> tables st2 = tables st'"
  using run v
  by (cases c) (auto simp: replay_def commit_durable_event_def transaction_def replay_input_of_def notify_def Let_def)

lemma same_reading:
  "sequences st2 = sequences st' \<Longrightarrow> owner_of st2 = owner_of st'" "sequences st2 = sequences st' \<Longrightarrow> latest_sequence st2 = latest_sequence st'"
  by (simp_all add: owner_of_def latest_sequence_def fun_eq_iff)

lemma may_replay_append: "may_replay opts agg st \<Longrightarrow> may_replay opts agg (append_row r (opt_owner opts) p st)"
  by (auto simp: may_replay_def owner_of_def append_row_def Let_def named_def split: option.splits)

lemma may_replay_adopt: "may_replay opts agg st \<Longrightarrow> may_replay opts agg (adopt_owner agg' (opt_owner opts) st)"
  by (cases "sequences st agg'") (auto simp: may_replay_def owner_of_def adopt_owner_def)

lemma may_replay_cong: "sequences st2 = sequences st' \<Longrightarrow> may_replay opts agg st2 = may_replay opts agg st'"
  by (simp add: may_replay_def owner_of_def)

lemma foreign_input [simp]: "foreign_replay (Some (replay_input_of opts r)) agg st \<longleftrightarrow> \<not> may_replay opts agg st"
  by (simp add: foreign_replay_def may_replay_def replay_input_of_def)

lemma commit_seq_input [simp]: "commit_seq (Some (replay_input_of opts r)) agg st = row_seq r"
  by (simp add: commit_seq_def replay_input_of_def)

lemma in_owner_input [simp]: "in_owner (replay_input_of opts r) = opt_owner opts"
  by (simp add: replay_input_of_def)

lemma replay_next_row:
  assumes v: "row_valid manifest r" and s: "row_seq r = latest_sequence st (row_aggregate r) + 1"
    and own: "may_replay opts (row_aggregate r) st" and new: "row_id r \<notin> set (map row_id (log st))"
    and p: "project_row proj manifest r (tables st) = Inr p"
  shows "\<exists>st'. replay proj manifest opts r st = (Inr (), st') \<and> log st' = log st @ [r] \<and> tables st' = p \<and>
    latest_sequence st' = (latest_sequence st)(row_aggregate r := row_seq r) \<and> may_replay opts (row_aggregate r) st'"
proof -
  obtain def spec d where d: "manifest (row_type r) = Some def" "def_durable def = Some spec" "decode def (row_data r) = Some d"
    "encode def d = Some (row_data r)" "aggregate_of spec d = Some (row_aggregate r)" "versioned_type (def_type def) (version spec) = row_type r"
    using v by (rule row_validE)
  let ?ev = "\<lparr>ev_id = row_id r, ev_type = def_type def, ev_data = d, ev_durable = None\<rparr>"
  have enc: "encode def (ev_data ?ev) = Some (row_data r)" using d by simp
  have row: "new_row def spec ?ev (row_aggregate r) (row_seq r) (row_data r) = r" using d by (simp add: new_row_def)
  have pr: "project_all (proj (def_type def)) (?ev\<lparr>ev_durable := Some (row_aggregate r, row_seq r, version spec)\<rparr>) (tables st) = Inr p"
    using p d by (simp add: project_row_def)
  have c: "commit_tx proj def spec ?ev (row_aggregate r) (Some (replay_input_of opts r)) None st =
      Inr (Some (row_aggregate r, row_seq r), append_row r (opt_owner opts) p st)"
    unfolding commit_tx_chain [OF enc] using own s new pr row by (simp add: run_hook_def)
  let ?st = "append_row r (opt_owner opts) p st"
  from replay_tx [of manifest r, OF d(1,2,3,5) c] obtain st2 where st2: "replay proj manifest opts r st = (Inr (), st2)" "sequences st2 = sequences ?st"
    "log st2 = log ?st" "tables st2 = tables ?st" by blast
  have "latest_sequence st2 = (latest_sequence st)(row_aggregate r := row_seq r)"
    unfolding same_reading(2) [OF st2(2)] by (auto simp: fun_eq_iff)
  moreover have "may_replay opts (row_aggregate r) st2"
    unfolding may_replay_cong [OF st2(2)] by (rule may_replay_append [OF own])
  ultimately show ?thesis using st2 by (simp add: append_row_def Let_def)
qed

lemma replay_known_row:
  assumes ok: "log_ok st" and v: "row_valid manifest r" and mem: "r \<in> set (log st)" and own: "may_replay opts (row_aggregate r) st"
  shows "\<exists>st'. replay proj manifest opts r st = (Inr (), st') \<and> log st' = log st \<and> tables st' = tables st \<and>
    latest_sequence st' = latest_sequence st \<and> may_replay opts (row_aggregate r) st'"
proof -
  obtain def spec d where d: "manifest (row_type r) = Some def" "def_durable def = Some spec" "decode def (row_data r) = Some d"
    "encode def d = Some (row_data r)" "aggregate_of spec d = Some (row_aggregate r)" "versioned_type (def_type def) (version spec) = row_type r"
    using v by (rule row_validE)
  let ?ev = "\<lparr>ev_id = row_id r, ev_type = def_type def, ev_data = d, ev_durable = None\<rparr>"
  let ?agg = "row_aggregate r"
  have enc: "encode def (ev_data ?ev) = Some (row_data r)" using d by simp
  have in_rows: "r \<in> set (rows_of st ?agg)" using mem by (simp add: rows_of_def)
  have "row_seq r \<in> set (map row_seq (rows_of st ?agg))" using in_rows by simp
  then have le: "row_seq r \<le> latest_sequence st ?agg" by (simp add: log_ok_seqs [OF ok])
  have inj: "inj_on row_seq (set (rows_of st ?agg))"
    using arg_cong [OF log_ok_seqs [OF ok, of ?agg], of distinct] by (simp add: distinct_map)
  have f: "find (\<lambda>r'. row_aggregate r' = ?agg \<and> row_seq r' = row_seq r) (log st) = Some r"
  proof -
    obtain r' where r': "find (\<lambda>r'. row_aggregate r' = ?agg \<and> row_seq r' = row_seq r) (log st) = Some r'"
      using mem by (cases "find (\<lambda>r'. row_aggregate r' = ?agg \<and> row_seq r' = row_seq r) (log st)") (auto simp: find_None_iff)
    then have "r' \<in> set (rows_of st ?agg)" "row_seq r' = row_seq r" by (auto simp: find_Some_iff rows_of_def)
    with inj in_rows have "r' = r" by (auto dest: inj_onD)
    with r' show ?thesis by simp
  qed
  have c: "commit_tx proj def spec ?ev ?agg (Some (replay_input_of opts r)) None st = Inr (None, adopt_owner ?agg (opt_owner opts) st)"
    unfolding commit_tx_chain [OF enc] using own le f d by simp
  let ?st = "adopt_owner ?agg (opt_owner opts) st"
  from replay_tx [of manifest r, OF d(1,2,3,5) c] obtain st2 where st2: "replay proj manifest opts r st = (Inr (), st2)" "sequences st2 = sequences ?st"
    "log st2 = log ?st" "tables st2 = tables ?st" by blast
  have "may_replay opts ?agg st2" unfolding may_replay_cong [OF st2(2)] by (rule may_replay_adopt [OF own])
  moreover have "tables ?st = tables st" by (simp add: adopt_owner_def)
  ultimately show ?thesis using st2 same_reading(2) [OF st2(2)] by simp
qed

section \<open>Many rows\<close>

lemma replay_known_rows:
  assumes "log_ok st" "\<forall>r \<in> set rs. row_valid manifest r \<and> row_aggregate r = agg \<and> r \<in> set (log st)" "may_replay opts agg st"
  shows "\<exists>st'. replay_each proj manifest opts rs st = (Inr (), st') \<and> log st' = log st \<and> tables st' = tables st \<and>
    latest_sequence st' = latest_sequence st \<and> may_replay opts agg st'"
  using assms
proof (induction rs arbitrary: st)
  case (Cons r rs)
  have r: "row_valid manifest r" "row_aggregate r = agg" "r \<in> set (log st)" using Cons.prems(2) by auto
  from replay_known_row [OF Cons.prems(1) r(1,3), of opts proj] Cons.prems(3) r(2)
  obtain st1 where st1: "replay proj manifest opts r st = (Inr (), st1)" "log st1 = log st" "tables st1 = tables st"
    "latest_sequence st1 = latest_sequence st" "may_replay opts agg st1" by auto
  have "log_ok st1" using log_ok_cong [OF Cons.prems(1) st1(2,4)] .
  with Cons.IH [OF this] Cons.prems(2) st1 show ?case by simp
qed simp

lemma replay_next_rows:
  assumes "\<forall>r \<in> set rs. row_valid manifest r \<and> row_aggregate r = agg" "map row_seq rs = map (\<lambda>i. latest_sequence st agg + 1 + int i) [0..<length rs]"
    "may_replay opts agg st" "distinct (map row_id rs)" "set (map row_id rs) \<inter> set (map row_id (log st)) = {}"
    "project_rows proj manifest rs (tables st) = Inr p"
  shows "\<exists>st'. replay_each proj manifest opts rs st = (Inr (), st') \<and> log st' = log st @ rs \<and> tables st' = p"
  using assms
proof (induction rs arbitrary: st)
  case (Cons r rs)
  have r: "row_valid manifest r" "row_aggregate r = agg" using Cons.prems(1) by auto
  have sq: "row_seq r = latest_sequence st agg + 1" "map row_seq rs = map (\<lambda>i. latest_sequence st agg + 1 + int (Suc i)) [0..<length rs]"
    using Cons.prems(2) by (simp_all del: upt_Suc add: upt_rec [of 0] map_Suc_upt [symmetric] o_def)
  obtain p1 where p1: "project_row proj manifest r (tables st) = Inr p1" "project_rows proj manifest rs p1 = Inr p"
    using Cons.prems(6) by (auto simp: rbind_Inr_iff)
  have "row_id r \<notin> set (map row_id (log st))" using Cons.prems(5) by auto
  from replay_next_row [OF r(1), of st opts proj p1] sq(1) r(2) Cons.prems(3) this p1(1)
  obtain st1 where st1: "replay proj manifest opts r st = (Inr (), st1)" "log st1 = log st @ [r]" "tables st1 = p1"
    "latest_sequence st1 = (latest_sequence st)(agg := row_seq r)" "may_replay opts agg st1" by auto
  have "\<exists>st'. replay_each proj manifest opts rs st1 = (Inr (), st') \<and> log st' = log st1 @ rs \<and> tables st' = p"
  proof (rule Cons.IH)
    show "map row_seq rs = map (\<lambda>i. latest_sequence st1 agg + 1 + int i) [0..<length rs]"
      using sq by (simp add: st1(4) algebra_simps)
    show "set (map row_id rs) \<inter> set (map row_id (log st1)) = {}" using Cons.prems(4,5) by (auto simp: st1(2))
  qed (use Cons.prems st1 p1 in auto)
  with st1 show ?case by simp
qed simp

lemma replay_each_append:
  "replay_each proj manifest opts (xs @ ys) st =
    (case replay_each proj manifest opts xs st of (Inl e, st1) \<Rightarrow> (Inl e, st1) | (Inr _, st1) \<Rightarrow> replay_each proj manifest opts ys st1)"
  by (induction xs arbitrary: st) (auto split: prod.split sum.split)

lemma served_rows:
  \<comment> \<open>what a source serves of an aggregate\<close>
  assumes ok: "log_ok source"
  shows "r \<in> set (rows_after source agg (-1)) \<Longrightarrow> row_aggregate r = agg"
    and "i < length (rows_after source agg (-1)) \<Longrightarrow> row_seq (rows_after source agg (-1) ! i) = int i"
    and "distinct (map row_id (rows_after source agg (-1)))"
    and "map row_seq (rows_after source agg (-1)) = map int [0..<length (rows_after source agg (-1))]"
proof -
  note rows = all_rows [OF ok, of agg]
  show "r \<in> set (rows_after source agg (-1)) \<Longrightarrow> row_aggregate r = agg" by (simp add: rows rows_of_def)
  show "i < length (rows_after source agg (-1)) \<Longrightarrow> row_seq (rows_after source agg (-1) ! i) = int i"
    by (simp add: rows rows_of_nth [OF ok])
  show "distinct (map row_id (rows_after source agg (-1)))"
    using ok by (simp add: rows rows_of_def log_ok_def distinct_map_filter)
  show "map row_seq (rows_after source agg (-1)) = map int [0..<length (rows_after source agg (-1))]"
    by (rule nth_equalityI) (simp_all add: rows rows_of_nth [OF ok])
qed

text \<open>C1. A replica that holds a prefix of an aggregate's events and replays all the events the source serves
  ends up serving the same events: the ones it knew are recognised and change nothing, the others are
  appended and projected in order, once each, and no other aggregate is touched. In particular a
  replica that is up to date does not change by replaying again.\<close>

theorem replica_catches_up:
  assumes ok: "log_ok source" "log_ok replica" and rs: "rs = rows_after source agg (-1)" "rs \<noteq> []" "agg \<noteq> []"
    and valid: "\<forall>r \<in> set rs. row_valid manifest r" and own: "may_replay opts agg replica"
    and prefix: "rows_after replica agg (-1) = take k rs"
    and ids: "set (map row_id (drop k rs)) \<inter> set (map row_id (log replica)) = {}"
    and proj: "project_rows proj manifest (drop k rs) (tables replica) = Inr p"
  shows "\<exists>replica'. replay_all proj manifest opts rs replica = (Inr (Some agg), replica') \<and>
    rows_after replica' agg (-1) = rs \<and> tables replica' = p \<and>
    (\<forall>other. other \<noteq> agg \<longrightarrow> rows_after replica' other (-1) = rows_after replica other (-1))"
proof -
  note agg = served_rows(1) [OF ok(1), of _ agg, folded rs(1)] and nth = served_rows(2) [OF ok(1), of _ agg, folded rs(1)]
    and dist = served_rows(3) [OF ok(1), of agg, folded rs(1)] and seqs = served_rows(4) [OF ok(1), of agg, folded rs(1)]
  have known: "rows_of replica agg = take k rs" using prefix all_rows [OF ok(2)] by simp
  have k: "\<forall>r \<in> set (take k rs). row_valid manifest r \<and> row_aggregate r = agg \<and> r \<in> set (log replica)"
  proof
    fix r assume r: "r \<in> set (take k rs)"
    then have "r \<in> set (rows_of replica agg)" by (simp add: known)
    then show "row_valid manifest r \<and> row_aggregate r = agg \<and> r \<in> set (log replica)"
      using valid in_set_takeD [OF r] by (simp add: rows_of_def)
  qed
  from replay_known_rows [OF ok(2) k own, of proj] obtain st1 where
    st1: "replay_each proj manifest opts (take k rs) replica = (Inr (), st1)" "log st1 = log replica" "tables st1 = tables replica"
      "latest_sequence st1 = latest_sequence replica" "may_replay opts agg st1" by blast
  have lat: "latest_sequence replica agg + 1 = int (min k (length rs))"
    using length_rows_of [OF ok(2), of agg] by (simp add: known min.commute)
  have "map row_seq (drop k rs) = map (\<lambda>i. latest_sequence st1 agg + 1 + int i) [0..<length (drop k rs)]"
    by (rule nth_equalityI) (auto simp: nth st1(4) lat min_def)
  from replay_next_rows [OF _ this st1(5) _ _ , of manifest proj p] valid agg dist ids proj
  have "\<exists>st'. replay_each proj manifest opts (drop k rs) st1 = (Inr (), st') \<and> log st' = log st1 @ drop k rs \<and> tables st' = p"
    by (auto simp: st1(2,3) drop_map [symmetric] dest: in_set_dropD)
  then obtain st2 where st2: "replay_each proj manifest opts (drop k rs) st1 = (Inr (), st2)" "log st2 = log replica @ drop k rs" "tables st2 = p"
    using st1(2) by auto
  have run: "replay_each proj manifest opts rs replica = (Inr (), st2)"
    using replay_each_append [of proj manifest opts "take k rs" "drop k rs" replica] st1(1) st2(1) by simp
  obtain r rest where cons: "rs = r # rest" using rs(2) by (cases rs) auto
  have r0: "row_seq r = 0" "row_aggregate r = agg" using nth [of 0] agg [of r] by (simp_all add: cons)
  have all: "replay_all proj manifest opts rs replica = (Inr (Some agg), st2)"
    using run seqs agg r0 rs(3) unfolding replay_all_def by (auto simp: cons simp del: replay_each.simps upt_Suc)
  have ok2: "log_ok st2" using replay_all_ok [OF all ok(2)] .
  have "rows_of st2 other = rows_of replica other @ (if other = agg then drop k rs else [])" for other
    using agg in_set_dropD [of _ k rs] by (auto simp: rows_of_def st2(2) filter_empty_conv filter_id_conv)
  then have "rows_after st2 agg (-1) = rs" "other \<noteq> agg \<Longrightarrow> rows_after st2 other (-1) = rows_after replica other (-1)" for other
    using known by (simp_all add: all_rows [OF ok2] all_rows [OF ok(2)])
  with all st2(3) show ?thesis by blast
qed

definition demo_event :: "(jstring, jstring) event_def" where
  \<comment> \<open>an event whose data is its aggregate\<close>
  "demo_event = \<lparr>def_type = lit ''e'', def_durable = Some \<lparr>aggregate_of = Some, version = 1\<rparr>, encode = Some, decode = Some\<rparr>"

definition demo_projectors :: "jstring \<Rightarrow> (jstring, jstring list, jstring) projector list" where
  \<comment> \<open>collects the ids of the events\<close>
  "demo_projectors t = [\<lambda>ev p. Inr (ev_id ev # p)]"

definition demo_manifest :: "jstring \<Rightarrow> (jstring, jstring) event_def option" where
  "demo_manifest t = (if t = (lit ''e.1'') then Some demo_event else None)"

definition demo_options :: replay_options where
  "demo_options = \<lparr>opt_publish = False, opt_owner = None, opt_strict = False\<rparr>"

definition demo_source :: "(jstring, jstring, jstring list) event_log" where
  "demo_source = fold (run_op demo_projectors demo_manifest)
     [Publish demo_event (lit ''s'') (lit ''x'') None, Publish demo_event (lit ''s'') (lit ''y'') None] (empty_log [])"

definition demo_replica :: "(jstring, jstring, jstring list) event_log" where
  "demo_replica = fold (run_op demo_projectors demo_manifest) [Publish demo_event (lit ''s'') (lit ''x'') None] (empty_log [])"

lemma replica_catches_up_witness:
  "\<exists>replica'. replay_all demo_projectors demo_manifest demo_options (rows_after demo_source (lit ''s'') (-1)) demo_replica =
      (Inr (Some (lit ''s'')), replica') \<and>
    map row_id (rows_after replica' (lit ''s'') (-1)) = [lit ''x'', lit ''y''] \<and> tables replica' = [lit ''y'', lit ''x'']"
proof -
  let ?r = "\<lambda>i n. \<lparr>row_id = i, row_aggregate = lit ''s'', row_seq = n, row_type = lit ''e.1'', row_data = (lit ''s'')\<rparr>"
  have ok: "log_ok demo_source" "log_ok demo_replica"
    unfolding demo_source_def demo_replica_def by (rule run_ops_ok [OF log_ok_empty])+
  have rs: "rows_after demo_source (lit ''s'') (-1) = [?r (lit ''x'') 0, ?r (lit ''y'') 1]" by code_simp
  have pre: "rows_after demo_replica (lit ''s'') (-1) = take 1 (rows_after demo_source (lit ''s'') (-1))" by code_simp
  have ids: "set (map row_id (drop 1 (rows_after demo_source (lit ''s'') (-1)))) \<inter> set (map row_id (log demo_replica)) = {}" by code_simp
  have pr: "project_rows demo_projectors demo_manifest (drop 1 (rows_after demo_source (lit ''s'') (-1))) (tables demo_replica) = Inr [lit ''y'', lit ''x'']"
    by code_simp
  have ne: "lit ''s'' \<noteq> []" by code_simp
  have own: "may_replay demo_options (lit ''s'') demo_replica" by code_simp
  have valid: "\<forall>r \<in> set (rows_after demo_source (lit ''s'') (-1)). row_valid demo_manifest r" unfolding rs by code_simp
  from replica_catches_up [OF ok refl _ _ valid own pre ids pr] rs ne show ?thesis by auto
qed

end
