(* ===== verification/EventStream.thy ===== *)
theory EventStream imports EventReplay begin

text \<open>
  The durable streams of the event log (\<open>subscribeDurable\<close> and \<open>durable\<close> in
  packages/core/src/event.ts): a subscriber registers for wakes, reads what is stored, and reads again
  from its cursor after every wake. Wakes go through a sliding queue of one place, so they
  coalesce. Commits, the delivery of their wakes, the taking of a wake and the query it causes are
  separate steps that interleave freely. What a subscriber relies on is the locale \<open>durable_feed\<close>.
\<close>

section \<open>The subscriber\<close>

record 'r durable_sub =
  cursor :: int \<comment> \<open>\<open>sequence\<close>\<close>
  delivered :: "'r list"
  pending :: bool \<comment> \<open>the sliding queue holds a wake\<close>
  reading :: bool \<comment> \<open>a read is due: the historical one, or that of a wake just taken\<close>
  heard :: nat \<comment> \<open>announced wakes that have reached the subscribers\<close>

definition subscribe_durable :: "int option \<Rightarrow> nat \<Rightarrow> 'r durable_sub" where
  "subscribe_durable after announced = \<lparr>cursor = (case after of Some a \<Rightarrow> a | None \<Rightarrow> -1), delivered = [],
     pending = False, reading = True, heard = announced\<rparr>"

definition hear :: "bool list \<Rightarrow> 'r durable_sub \<Rightarrow> 'r durable_sub" where
  "hear announced sub =
    (if heard sub < length announced
     then sub\<lparr>pending := (pending sub \<or> announced ! heard sub), heard := Suc (heard sub)\<rparr> else sub)"

definition take_wake :: "'r durable_sub \<Rightarrow> 'r durable_sub" where
  "take_wake sub = (if pending sub \<and> \<not> reading sub then sub\<lparr>pending := False, reading := True\<rparr> else sub)"

definition read_rows :: "('r \<Rightarrow> int) \<Rightarrow> (int \<Rightarrow> 'r list) \<Rightarrow> 'r durable_sub \<Rightarrow> 'r durable_sub" where
  "read_rows num query sub =
    (if \<not> reading sub then sub
     else let rows = query (cursor sub)
          in sub\<lparr>reading := False, delivered := delivered sub @ rows,
               cursor := (if rows = [] then cursor sub else num (last rows))\<rparr>)"

datatype 'op stream_event = Op 'op | Hear | Take | Query

fun stream_step :: "('op \<Rightarrow> 's \<Rightarrow> 's) \<Rightarrow> ('s \<Rightarrow> int \<Rightarrow> 'r list) \<Rightarrow> ('r \<Rightarrow> int) \<Rightarrow> ('s \<Rightarrow> bool list) \<Rightarrow> 'op stream_event \<Rightarrow>
    's \<times> 'r durable_sub \<Rightarrow> 's \<times> 'r durable_sub" where
  "stream_step step query num announced (Op a) (st, sub) = (step a st, sub)"
| "stream_step step query num announced Hear (st, sub) = (st, hear (announced st) sub)"
| "stream_step step query num announced Take (st, sub) = (st, take_wake sub)"
| "stream_step step query num announced Query (st, sub) = (st, read_rows num (query st) sub)"

section \<open>What a subscriber relies on\<close>

locale durable_feed =
  fixes inv :: "'s \<Rightarrow> bool" and allowed :: "'op \<Rightarrow> bool" and step :: "'op \<Rightarrow> 's \<Rightarrow> 's"
    and rows :: "'s \<Rightarrow> 'r list" and query :: "'s \<Rightarrow> int \<Rightarrow> 'r list" and num :: "'r \<Rightarrow> int" and announced :: "'s \<Rightarrow> bool list"
  assumes step_inv: "inv st \<Longrightarrow> inv (step a st)"
    and ordered: "inv st \<Longrightarrow> sorted_wrt (\<lambda>x y. num x < num y) (rows st)"
    and queried: "inv st \<Longrightarrow> query st c = filter (\<lambda>r. c < num r) (rows st)"
    and grows: "inv st \<Longrightarrow> allowed a \<Longrightarrow>
      \<exists>new w. rows (step a st) = rows st @ new \<and> announced (step a st) = announced st @ w \<and> (new \<noteq> [] \<longrightarrow> True \<in> set w)"
begin

definition behind :: "'s \<Rightarrow> 'r durable_sub \<Rightarrow> bool" where
  "behind st sub \<longleftrightarrow> (\<exists>r \<in> set (rows st). cursor sub < num r)"

definition sub_ok :: "int \<Rightarrow> 's \<times> 'r durable_sub \<Rightarrow> bool" where
  "sub_ok start = (\<lambda>(st, sub). inv st \<and> start \<le> cursor sub \<and> heard sub \<le> length (announced st) \<and>
    (cursor sub = start \<or> (\<exists>r \<in> set (rows st). num r = cursor sub)) \<and>
    delivered sub = filter (\<lambda>r. start < num r \<and> num r \<le> cursor sub) (rows st) \<and>
    (behind st sub \<longrightarrow> reading sub \<or> pending sub \<or> True \<in> set (drop (heard sub) (announced st))))"

lemma num_le_last: "sorted_wrt (\<lambda>x y. num x < num y) xs \<Longrightarrow> r \<in> set xs \<Longrightarrow> num r \<le> num (last xs)"
  by (induction xs) (auto simp: less_imp_le)

lemma filter_split:
  "sorted_wrt (\<lambda>x y. num x < num y) xs \<Longrightarrow> start \<le> c \<Longrightarrow>
   filter (\<lambda>r. start < num r \<and> num r \<le> c) xs @ filter (\<lambda>r. c < num r) xs = filter (\<lambda>r. start < num r) xs"
proof (induction xs)
  case (Cons x xs)
  show ?case
  proof (cases "c < num x")
    case True
    with Cons.prems have "\<forall>r \<in> set xs. c < num r" by auto
    with True Cons.prems have "filter (\<lambda>r. start < num r \<and> num r \<le> c) xs = []" by (auto simp: filter_empty_conv)
    with True Cons show ?thesis by auto
  qed (use Cons in auto)
qed simp

lemma op_ok:
  assumes ok: "sub_ok start (st, sub)" and al: "allowed a"
  shows "sub_ok start (step a st, sub)"
proof -
  have inv: "inv st" using ok by (simp add: sub_ok_def)
  from grows [OF inv al] obtain new w where g: "rows (step a st) = rows st @ new" "announced (step a st) = announced st @ w"
    "new \<noteq> [] \<longrightarrow> True \<in> set w" by blast
  have inv': "inv (step a st)" using step_inv [OF inv] .
  from ordered [OF inv'] have above: "num r < num n" if "r \<in> set (rows st)" "n \<in> set new" for r n
    using that by (auto simp: g(1) sorted_wrt_append)
  have "filter (\<lambda>r. start < num r \<and> num r \<le> cursor sub) new = []"
    using ok above by (fastforce simp: sub_ok_def filter_empty_conv)
  moreover have "behind (step a st) sub \<longrightarrow> behind st sub \<or> True \<in> set w" using g by (auto simp: behind_def)
  ultimately show ?thesis using ok inv' by (auto simp: sub_ok_def g(1,2))
qed

lemma hear_ok: "sub_ok start (st, sub) \<Longrightarrow> sub_ok start (st, hear (announced st) sub)"
proof (cases "heard sub < length (announced st)")
  case True
  assume ok: "sub_ok start (st, sub)"
  have "drop (heard sub) (announced st) = announced st ! heard sub # drop (Suc (heard sub)) (announced st)"
    using True by (rule Cons_nth_drop_Suc [symmetric])
  with ok True show ?thesis by (auto simp: sub_ok_def hear_def behind_def)
qed (simp add: hear_def)

lemma take_wake_ok: "sub_ok start (st, sub) \<Longrightarrow> sub_ok start (st, take_wake sub)"
  by (auto simp: sub_ok_def take_wake_def behind_def)

lemma read_rows_ok:
  assumes ok: "sub_ok start (st, sub)"
  shows "sub_ok start (st, read_rows num (query st) sub)"
proof (cases "reading sub")
  case True
  have inv: "inv st" and le: "start \<le> cursor sub" using ok by (auto simp: sub_ok_def)
  let ?new = "filter (\<lambda>r. cursor sub < num r) (rows st)"
  let ?c = "if ?new = [] then cursor sub else num (last ?new)"
  let ?sub = "sub\<lparr>reading := False, delivered := delivered sub @ ?new, cursor := ?c\<rparr>"
  have s: "read_rows num (query st) sub = ?sub" using True queried [OF inv] by (simp add: read_rows_def Let_def)
  have sorted: "sorted_wrt (\<lambda>x y. num x < num y) ?new" using ordered [OF inv] by (rule sorted_wrt_filter)
  have top: "num r \<le> ?c" if "r \<in> set (rows st)" for r
  proof (cases "cursor sub < num r")
    case True
    with that have mem: "r \<in> set ?new" by simp
    then have ne: "?new \<noteq> []" by (metis empty_iff empty_set)
    show ?thesis unfolding if_not_P [OF ne] by (rule num_le_last [OF sorted mem])
  next
    case False
    have "cursor sub \<le> ?c" by (cases "?new = []") (use last_in_set [of ?new] in auto)
    with False show ?thesis by simp
  qed
  have c: "cursor sub \<le> ?c" "?new \<noteq> [] \<longrightarrow> (\<exists>r \<in> set (rows st). num r = ?c)"
    using last_in_set [of ?new] by auto
  have "delivered ?sub = filter (\<lambda>r. start < num r) (rows st)"
    using ok filter_split [OF ordered [OF inv] le] by (simp add: sub_ok_def)
  also have "\<dots> = filter (\<lambda>r. start < num r \<and> num r \<le> ?c) (rows st)" using top by (intro filter_cong) auto
  finally have d: "delivered ?sub = filter (\<lambda>r. start < num r \<and> num r \<le> ?c) (rows st)" .
  have nb: "\<not> behind st ?sub" using top by (fastforce simp: behind_def)
  have "?c = start \<or> (\<exists>r \<in> set (rows st). num r = ?c)" using c(2) ok by (cases "?new = []") (auto simp: sub_ok_def)
  then show ?thesis unfolding s using ok d nb c(1) le by (simp add: sub_ok_def)
qed (simp add: read_rows_def ok)

lemma subscribe_ok: "inv st \<Longrightarrow> sub_ok start (st, subscribe_durable (Some start) (length (announced st)))"
  by (auto simp: sub_ok_def subscribe_durable_def filter_empty_conv)

lemma stream_ok:
  "sub_ok start s \<Longrightarrow> \<forall>a. Op a \<in> set evs \<longrightarrow> allowed a \<Longrightarrow> sub_ok start (fold (stream_step step query num announced) evs s)"
proof (induction evs arbitrary: s)
  case (Cons ev evs)
  obtain st sub where s: "s = (st, sub)" by (cases s)
  have "sub_ok start (stream_step step query num announced ev s)"
    using Cons.prems by (cases ev) (auto simp: s op_ok hear_ok take_wake_ok read_rows_ok)
  with Cons show ?case by simp
qed simp

lemma caught_up:
  assumes "sub_ok start (st, sub)" "\<not> reading sub" "\<not> pending sub" "heard sub = length (announced st)"
  shows "delivered sub = filter (\<lambda>r. start < num r) (rows st)"
proof -
  have "\<not> behind st sub" using assms by (auto simp: sub_ok_def)
  then have "filter (\<lambda>r. start < num r \<and> num r \<le> cursor sub) (rows st) = filter (\<lambda>r. start < num r) (rows st)"
    by (intro filter_cong) (auto simp: behind_def)
  with assms(1) show ?thesis by (simp add: sub_ok_def)
qed

end

section \<open>The event log as a feed\<close>

definition grown :: "jstring \<Rightarrow> ('d, 'j, 'p) event_log \<Rightarrow> ('d, 'j, 'p) event_log \<Rightarrow> bool" where
  \<comment> \<open>the aggregate's rows were extended, and announced if they were\<close>
  "grown agg st st' \<longleftrightarrow> (\<exists>new w. rows_of st' agg = rows_of st agg @ new \<and> wakes st' = wakes st @ w \<and> (new \<noteq> [] \<longrightarrow> agg \<in> set w))"

lemma grown_same: "log st' = log st \<Longrightarrow> wakes st' = wakes st \<Longrightarrow> grown agg st st'"
  by (simp add: grown_def rows_of_def)

lemma grown_trans: "grown agg st st1 \<Longrightarrow> grown agg st1 st2 \<Longrightarrow> grown agg st st2"
  unfolding grown_def by force

lemma grown_notify [simp]: "grown agg st (notify ev st1) = grown agg st st1"
  by (simp add: grown_def rows_of_def notify_def)

lemma grown_refl [simp]: "grown agg st st"
  by (rule grown_same) simp_all

lemma commit_tx_grown:
  assumes "commit_tx proj def spec ev agg input hook st = Inr (c, st')"
  shows "(c = None \<and> log st' = log st \<and> wakes st' = wakes st) \<or>
    (\<exists>s r. c = Some (agg, s) \<and> row_aggregate r = agg \<and> log st' = log st @ [r] \<and> wakes st' = wakes st)"
  using assms by (cases rule: commit_tx_cases) (auto simp: adopt_owner_def new_row_def append_row_def Let_def)

lemma commit_durable_grown: "commit_durable_event proj def ev input hook st = (a, st') \<Longrightarrow> grown agg st st'"
  unfolding commit_durable_event_def transaction_def
  by (auto split: option.split_asm prod.split_asm sum.split_asm if_split_asm dest!: commit_tx_grown intro: grown_same)
    (auto simp: grown_def rows_of_def)

lemma publish_grown: "publish proj def d eid hook st = (a, st') \<Longrightarrow> grown agg st st'"
  unfolding publish_def publish_event_def
  by (auto dest: commit_durable_grown split: option.split_asm prod.split_asm sum.split_asm if_split_asm)

lemma replay_grown: "replay proj manifest opts r st = (a, st') \<Longrightarrow> grown agg st st'"
  unfolding replay_def Let_def
  by (auto dest: commit_durable_grown split: option.split_asm prod.split_asm sum.split_asm if_split_asm)

lemma replay_each_grown: "replay_each proj manifest opts rs st = (a, st') \<Longrightarrow> grown agg st st'"
proof (induction rs arbitrary: st)
  case (Cons r rs)
  then show ?case
    by (auto split: prod.split_asm sum.split_asm dest: replay_grown intro: grown_trans)
qed simp

lemma replay_all_grown: "replay_all proj manifest opts rs st = (a, st') \<Longrightarrow> grown agg st st'"
  unfolding replay_all_def
  by (auto simp del: replay_each.simps dest: replay_each_grown split: list.split_asm prod.split_asm sum.split_asm if_split_asm)

fun removes :: "jstring \<Rightarrow> ('d, 'j, 'p, 'x) log_op \<Rightarrow> bool" where
  "removes agg (Remove a) = (a = agg)"
| "removes agg _ = False"

lemma run_op_grown: "\<not> removes agg op1 \<Longrightarrow> grown agg st (run_op proj manifest op1 st)"
proof (cases op1)
  case (Remove a)
  assume "\<not> removes agg op1"
  with Remove show ?thesis
    by (auto simp: grown_def rows_of_def remove_def intro!: exI [of _ "[]"] filter_cong)
qed (auto intro: publish_grown [OF surjective_pairing] replay_all_grown [OF surjective_pairing] grown_same simp: claim_def)

interpretation log_feed: durable_feed log_ok "\<lambda>a. \<not> removes agg a" "run_op proj manifest" "\<lambda>st. rows_of st agg"
    "\<lambda>st. rows_after st agg" row_seq "\<lambda>st. map (\<lambda>a. a = agg) (wakes st)" for agg proj manifest
proof unfold_locales
  fix st :: "('a, 'b, 'c) event_log" and a
  assume ok: "log_ok st"
  show "log_ok (run_op proj manifest a st)" using ok by (rule run_op_ok)
  show "sorted_wrt (\<lambda>x y. row_seq x < row_seq y) (rows_of st agg)"
    using log_ok_seqs [OF ok, of agg] sorted_wrt_map [of "(<)" row_seq "rows_of st agg"]
    by (simp add: strict_sorted_iff)
  show "rows_after st agg c = filter (\<lambda>r. c < row_seq r) (rows_of st agg)" for c by (rule rows_after_eq [OF ok])
  assume "\<not> removes agg a"
  from run_op_grown [OF this, of st proj manifest] obtain new w where "rows_of (run_op proj manifest a st) agg = rows_of st agg @ new"
    "wakes (run_op proj manifest a st) = wakes st @ w" "new \<noteq> [] \<longrightarrow> agg \<in> set w" unfolding grown_def by blast
  then show "\<exists>new w. rows_of (run_op proj manifest a st) agg = rows_of st agg @ new \<and>
      map (\<lambda>a. a = agg) (wakes (run_op proj manifest a st)) = map (\<lambda>a. a = agg) (wakes st) @ w \<and> (new \<noteq> [] \<longrightarrow> True \<in> set w)"
    by (intro exI [of _ new] exI [of _ "map (\<lambda>a. a = agg) w"]) auto
qed

definition follow :: "(jstring \<Rightarrow> ('d, 'p, 'x) projector list) \<Rightarrow> (jstring \<Rightarrow> ('d, 'j) event_def option) \<Rightarrow> jstring \<Rightarrow> int option \<Rightarrow>
    ('d, 'j, 'p, 'x) log_op stream_event list \<Rightarrow> ('d, 'j, 'p) event_log \<Rightarrow> ('d, 'j, 'p) event_log \<times> 'j event_row durable_sub" where
  \<comment> \<open>a durable stream of the aggregate opened in the given state, after some events\<close>
  "follow proj manifest agg after evs st =
    fold (stream_step (run_op proj manifest) (\<lambda>st. rows_after st agg) row_seq (\<lambda>st. map (\<lambda>a. a = agg) (wakes st))) evs
      (st, subscribe_durable after (length (wakes st)))"

text \<open>C2. However commits, wakes and reads interleave, a durable stream delivers the events of its aggregate
  after the requested sequence in order, without a gap or a repetition; and once every wake has
  arrived and no read is due, it has delivered all of them. (The aggregate is not removed meanwhile.)\<close>

theorem durable_stream_misses_nothing:
  assumes ok: "log_ok st" and keep: "\<forall>a. Op a \<in> set evs \<longrightarrow> \<not> removes agg a"
    and run: "follow proj manifest agg after evs st = (st', sub)"
  defines "start \<equiv> (case after of Some a \<Rightarrow> a | None \<Rightarrow> -1)"
  shows "delivered sub = filter (\<lambda>r. row_seq r \<le> cursor sub) (rows_after st' agg start) \<and>
    (\<not> reading sub \<longrightarrow> \<not> pending sub \<longrightarrow> heard sub = length (wakes st') \<longrightarrow> delivered sub = rows_after st' agg start)"
proof -
  have sub: "subscribe_durable after n = (subscribe_durable (Some start) n :: 'b event_row durable_sub)" for n
    by (simp add: subscribe_durable_def start_def)
  have s: "log_feed.sub_ok agg start (st', sub)"
    using log_feed.stream_ok [OF log_feed.subscribe_ok [where start = start and agg = agg, OF ok] keep, where proj = proj and manifest = manifest] run
    by (simp add: follow_def sub)
  then have ok': "log_ok st'" and d: "delivered sub = filter (\<lambda>r. start < row_seq r \<and> row_seq r \<le> cursor sub) (rows_of st' agg)"
    by (simp_all add: log_feed.sub_ok_def)
  show ?thesis
    using d log_feed.caught_up [OF s] by (auto simp: rows_after_eq [OF ok'] conj_commute)
qed

lemma durable_stream_misses_nothing_witness:
  "\<exists>st' sub. follow demo_projectors demo_manifest (lit ''s'') (Some 0)
      [Query, Op (Publish demo_event (lit ''s'') (lit ''y'') None), Op (Publish demo_event (lit ''s'') (lit ''z'') None), Hear, Take, Hear, Query, Take, Query] demo_replica = (st', sub) \<and>
    map row_id (delivered sub) = [lit ''y'', lit ''z''] \<and> delivered sub = rows_after st' (lit ''s'') 0"
proof -
  let ?evs = "[Query, Op (Publish demo_event (lit ''s'') (lit ''y'') None), Op (Publish demo_event (lit ''s'') (lit ''z'') None), Hear, Take, Hear, Query, Take, Query]"
  let ?f = "follow demo_projectors demo_manifest (lit ''s'') (Some 0) ?evs demo_replica"
  have ok: "log_ok demo_replica" unfolding demo_replica_def by (rule run_ops_ok [OF log_ok_empty])
  have keep: "\<forall>a. Op a \<in> set ?evs \<longrightarrow> \<not> removes (lit ''s'') a" by auto
  have q: "\<not> reading (snd ?f)" "\<not> pending (snd ?f)" "heard (snd ?f) = length (wakes (fst ?f))" by code_simp+
  have d: "map row_id (delivered (snd ?f)) = [lit ''y'', lit ''z'']" by code_simp
  from durable_stream_misses_nothing [OF ok keep, of demo_projectors demo_manifest "Some 0" "fst ?f" "snd ?f"] q
  have "delivered (snd ?f) = rows_after (fst ?f) (lit ''s'') 0" unfolding option.case surjective_pairing [symmetric] by blast
  with d show ?thesis by (intro exI [of _ "fst ?f"] exI [of _ "snd ?f"]) simp
qed

end
