(* ===== verification/WorkRunner.thy ===== *)
theory WorkRunner imports Prelude begin

text \<open>
  The runner that gives a session one work at a time (packages/opencode/src/effect/runner.ts): callers join the
  run that goes on, a shell keeps a run waiting behind it, and cancelling drops both. A change of the
  \<open>SynchronizedRef\<close> is one step; what is flattened behind it comes in later steps: the end of a work first changes
  the state and then answers those who wait, and a cancellation first drops the work, then stops it, and then
  answers. The callbacks are counted. A caller of \<open>cancel\<close> waits until its cancellation has ended; what is left where
  it is interrupted before is \<open>abandon_cancel\<close>, which is not among the steps.
\<close>

section \<open>State\<close>

datatype 'a work_exit = Exited 'a \<comment> \<open>with a value, an error or a defect\<close> | Interrupted_Only

datatype 'a answer = Waiting | Answered "'a work_exit"

datatype 'w runner_state =
    Idle
  | Running nat nat \<comment> \<open>the id of the run, which is its fiber's, and its deferred\<close>
  | Shell nat
  | Shell_Then_Run nat nat nat 'w \<comment> \<open>the shell; id, deferred and work of the run that is to follow\<close>

record ('w, 'a) work_fiber =
  wf_work :: 'w
  wf_done :: "nat option" \<comment> \<open>a run's deferred\<close>
  wf_asked :: bool
  wf_exit :: "('a work_exit \<times> bool) option" \<comment> \<open>its work ended, and whether it was current\<close>

record cancellation =
  ca_fiber :: nat
  ca_done :: "nat option"
  ca_stopped :: bool

record ('w, 'a) work_runner =
  wr_state :: "'w runner_state"
  wr_fibers :: "nat \<rightharpoonup> ('w, 'a) work_fiber"
  wr_dones :: "nat \<rightharpoonup> 'a answer"
  wr_shells :: "nat \<rightharpoonup> 'a work_exit" \<comment> \<open>the exits of shells that ended\<close>
  wr_cancels :: "nat \<rightharpoonup> cancellation"
  wr_closed :: "nat \<Rightarrow> bool" \<comment> \<open>shells that were given a latch which is not open yet\<close>
  wr_stopped :: "nat \<Rightarrow> bool" \<comment> \<open>\<open>cancelled\<close> of shells: complete; a run has none\<close>
  wr_ids :: nat
  wr_next_done :: nat
  wr_next_cancel :: nat
  wr_idle :: nat
  wr_busy :: nat

definition new_runner :: "('w, 'a) work_runner" where
  "new_runner = \<lparr>wr_state = Idle, wr_fibers = Map.empty, wr_dones = Map.empty, wr_shells = Map.empty, wr_cancels = Map.empty,
     wr_closed = (\<lambda>_. False), wr_stopped = (\<lambda>_. False), wr_ids = 0, wr_next_done = 0, wr_next_cancel = 0, wr_idle = 0, wr_busy = 0\<rparr>"

section \<open>Operations\<close>

definition new_done :: "('w, 'a) work_runner \<Rightarrow> ('w, 'a) work_runner" where
  "new_done st = st\<lparr>wr_dones := (wr_dones st)(wr_next_done st \<mapsto> Waiting), wr_next_done := Suc (wr_next_done st)\<rparr>"

definition complete_done :: "nat \<Rightarrow> 'a work_exit \<Rightarrow> ('w, 'a) work_runner \<Rightarrow> ('w, 'a) work_runner" where
  \<comment> \<open>a deferred keeps its first answer; \<open>Interrupted_Only\<close> stands for \<open>Cancelled\<close>\<close>
  "complete_done d x st = (if wr_dones st d = Some Waiting then st\<lparr>wr_dones := (wr_dones st)(d \<mapsto> Answered x)\<rparr> else st)"

definition fork_work :: "'w \<Rightarrow> nat option \<Rightarrow> ('w, 'a) work_runner \<Rightarrow> ('w, 'a) work_runner" where
  \<comment> \<open>a fiber under the next id\<close>
  "fork_work w d st = st\<lparr>wr_fibers := (wr_fibers st)(wr_ids st \<mapsto>
       \<lparr>wf_work = w, wf_done = d, wf_asked = False, wf_exit = None\<rparr>), wr_ids := Suc (wr_ids st)\<rparr>"

definition start_run :: "'w \<Rightarrow> nat \<Rightarrow> ('w, 'a) work_runner \<Rightarrow> ('w, 'a) work_runner" where
  "start_run w d st = (fork_work w (Some d) st)\<lparr>wr_state := Running (wr_ids st) d\<rparr>"

definition ensure_running :: "'w \<Rightarrow> ('w, 'a) work_runner \<Rightarrow> nat \<times> ('w, 'a) work_runner" where
  \<comment> \<open>the deferred the caller awaits\<close>
  "ensure_running w st =
    (case wr_state st of
       Running i d \<Rightarrow> (d, st)
     | Shell_Then_Run s i d w' \<Rightarrow> (d, st)
     | Shell s \<Rightarrow>
         (wr_next_done st, (new_done st)\<lparr>wr_state := Shell_Then_Run s (wr_ids st) (wr_next_done st) w, wr_ids := Suc (wr_ids st)\<rparr>)
     | Idle \<Rightarrow> (wr_next_done st, start_run w (wr_next_done st) (new_done st)))"

definition await_done :: "'r option \<Rightarrow> ('a \<Rightarrow> 'r) \<Rightarrow> 'a answer \<Rightarrow> 'r option option" where
  \<comment> \<open>what a caller gets: nothing yet, a result, or the defect \<open>Cancelled\<close> where no \<open>onInterrupt\<close> is given\<close>
  "await_done on_interrupt result a =
    (case a of Waiting \<Rightarrow> None | Answered (Exited x) \<Rightarrow> Some (Some (result x)) | Answered Interrupted_Only \<Rightarrow> Some on_interrupt)"

definition start_shell :: "'w \<Rightarrow> bool \<Rightarrow> ('w, 'a) work_runner \<Rightarrow> nat option \<times> ('w, 'a) work_runner" where
  \<comment> \<open>the fiber the caller awaits, or \<open>Busy\<close>; whether a latch comes with the shell\<close>
  "start_shell w latch st =
    (if wr_state st \<noteq> Idle then (None, st)
     else (Some (wr_ids st), (fork_work w None st)\<lparr>wr_state := Shell (wr_ids st),
             wr_closed := (wr_closed st)(wr_ids st := latch), wr_busy := Suc (wr_busy st)\<rparr>))"

definition shell_result :: "'r option \<Rightarrow> ('a \<Rightarrow> 'r) \<Rightarrow> ('a \<Rightarrow> bool) \<Rightarrow> nat \<Rightarrow> ('w, 'a) work_runner \<Rightarrow> 'r option option" where
  \<comment> \<open>what the caller of a shell gets, read as in \<open>await_done\<close>; \<open>mixed\<close> says of an exit that it is a failure with
    interrupts among its causes and no defect\<close>
  "shell_result on_interrupt result mixed f st =
    (case wr_shells st f of
       None \<Rightarrow> None
     | Some Interrupted_Only \<Rightarrow> Some on_interrupt
     | Some (Exited x) \<Rightarrow> if wr_stopped st f \<and> mixed x then Some on_interrupt else Some (Some (result x)))"

definition open_ready :: "nat \<Rightarrow> ('w, 'a) work_runner \<Rightarrow> ('w, 'a) work_runner" where
  \<comment> \<open>whoever gave the latch opens it\<close>
  "open_ready f st = st\<lparr>wr_closed := (wr_closed st)(f := False)\<rparr>"

definition ended :: "nat \<Rightarrow> ('w, 'a) work_fiber \<Rightarrow> 'a work_exit \<Rightarrow> bool \<Rightarrow> ('w, 'a) work_runner \<Rightarrow> ('w, 'a) work_runner" where
  "ended f fb x current st = st\<lparr>wr_fibers := (wr_fibers st)(f \<mapsto> fb\<lparr>wf_exit := Some (x, current)\<rparr>)\<rparr>"

definition finish_run :: "nat \<Rightarrow> ('w, 'a) work_fiber \<Rightarrow> 'a work_exit \<Rightarrow> ('w, 'a) work_runner \<Rightarrow> ('w, 'a) work_runner" where
  "finish_run f fb x st =
    (case wr_state st of
       Running i d \<Rightarrow> if i = f then (ended f fb x True st)\<lparr>wr_state := Idle\<rparr> else ended f fb x False st
     | _ \<Rightarrow> ended f fb x False st)"

definition finish_shell :: "nat \<Rightarrow> ('w, 'a) work_fiber \<Rightarrow> 'a work_exit \<Rightarrow> ('w, 'a) work_runner \<Rightarrow> ('w, 'a) work_runner" where
  "finish_shell f fb x st =
    (case wr_state st of
       Shell s \<Rightarrow> if s = f then (ended f fb x True st)\<lparr>wr_state := Idle\<rparr> else ended f fb x False st
     | Shell_Then_Run s i d w \<Rightarrow> if s = f then start_run w d (ended f fb x False st) else ended f fb x False st
     | _ \<Rightarrow> ended f fb x False st)"

definition finish_work :: "nat \<Rightarrow> 'a work_exit \<Rightarrow> ('w, 'a) work_runner \<Rightarrow> ('w, 'a) work_runner" where
  \<comment> \<open>the first step of a fiber's end\<close>
  "finish_work f x st =
    (case wr_fibers st f of
       None \<Rightarrow> st
     | Some fb \<Rightarrow> (case wf_done fb of Some d \<Rightarrow> finish_run f fb x st | None \<Rightarrow> finish_shell f fb x st))"

definition complete_work :: "nat \<Rightarrow> ('w, 'a) work_runner \<Rightarrow> ('w, 'a) work_runner" where
  \<comment> \<open>the second: the callback and the answer; then the fiber is gone\<close>
  "complete_work f st =
    (case wr_fibers st f of
       None \<Rightarrow> st
     | Some fb \<Rightarrow>
         (case wf_exit fb of
            None \<Rightarrow> st
          | Some (x, current) \<Rightarrow>
              let st1 = st\<lparr>wr_fibers := (wr_fibers st)(f := None), wr_idle := (if current then Suc (wr_idle st) else wr_idle st)\<rparr>
              in (case wf_done fb of
                    Some d \<Rightarrow> complete_done d x st1
                  | None \<Rightarrow> st1\<lparr>wr_shells := (wr_shells st)(f \<mapsto> x)\<rparr>)))"

definition drop_work :: "nat \<Rightarrow> nat option \<Rightarrow> ('w, 'a) work_runner \<Rightarrow> ('w, 'a) work_runner" where
  "drop_work f d st = st\<lparr>wr_state := Idle,
     wr_cancels := (wr_cancels st)(wr_next_cancel st \<mapsto> \<lparr>ca_fiber = f, ca_done = d, ca_stopped = False\<rparr>),
     wr_next_cancel := Suc (wr_next_cancel st)\<rparr>"

definition cancel :: "('w, 'a) work_runner \<Rightarrow> ('w, 'a) work_runner" where
  "cancel st =
    (case wr_state st of
       Idle \<Rightarrow> st
     | Running i d \<Rightarrow> drop_work i (Some d) st
     | Shell s \<Rightarrow> drop_work s None st
     | Shell_Then_Run s i d w \<Rightarrow> drop_work s (Some d) st)"

definition stop_work :: "nat \<Rightarrow> ('w, 'a) work_runner \<Rightarrow> ('w, 'a) work_runner" where
  \<comment> \<open>\<open>Fiber.interrupt\<close> of a run, \<open>stopShell\<close> once the shell is ready\<close>
  "stop_work n st =
    (case wr_cancels st n of
       None \<Rightarrow> st
     | Some ca \<Rightarrow> st\<lparr>wr_cancels := (wr_cancels st)(n \<mapsto> ca\<lparr>ca_stopped := True\<rparr>),
         wr_stopped := (wr_stopped st)(ca_fiber ca := True),
         wr_fibers := (wr_fibers st)(ca_fiber ca := map_option (\<lambda>fb. fb\<lparr>wf_asked := True\<rparr>) (wr_fibers st (ca_fiber ca)))\<rparr>)"

definition end_cancel :: "nat \<Rightarrow> ('w, 'a) work_runner \<Rightarrow> ('w, 'a) work_runner" where
  \<comment> \<open>once the fiber is gone: the deferred fails, and the callback if the runner is idle\<close>
  "end_cancel n st =
    (case wr_cancels st n of
       None \<Rightarrow> st
     | Some ca \<Rightarrow>
         let st1 = (case ca_done ca of Some d \<Rightarrow> complete_done d Interrupted_Only st | None \<Rightarrow> st)
         in st1\<lparr>wr_cancels := (wr_cancels st1)(n := None), wr_idle := (if wr_state st1 = Idle then Suc (wr_idle st1) else wr_idle st1)\<rparr>)"

definition abandon_cancel :: "nat \<Rightarrow> ('w, 'a) work_runner \<Rightarrow> ('w, 'a) work_runner" where
  \<comment> \<open>its caller is interrupted: what is left of the cancellation does not happen\<close>
  "abandon_cancel n st = st\<lparr>wr_cancels := (wr_cancels st)(n := None)\<rparr>"

section \<open>Steps\<close>

datatype ('w, 'a) runner_action =
    Ensure 'w | Start_Shell 'w bool | Cancel \<comment> \<open>of callers\<close>
  | Open_Ready nat
  | Finish_Work nat "'a work_exit" | Complete_Work nat | Stop_Work nat | End_Cancel nat

inductive runner_step :: "('w, 'a) work_runner \<Rightarrow> ('w, 'a) runner_action \<Rightarrow> ('w, 'a) work_runner \<Rightarrow> bool" where
  step_ensure: "runner_step st (Ensure w) (snd (ensure_running w st))"
| step_shell: "runner_step st (Start_Shell w latch) (snd (start_shell w latch st))"
| step_cancel: "runner_step st Cancel (cancel st)"
| step_ready: "runner_step st (Open_Ready f) (open_ready f st)"
| step_finish: "wr_fibers st f = Some fb \<Longrightarrow> wf_exit fb = None \<Longrightarrow> runner_step st (Finish_Work f x) (finish_work f x st)"
| step_complete: "wr_fibers st f = Some fb \<Longrightarrow> wf_exit fb \<noteq> None \<Longrightarrow> runner_step st (Complete_Work f) (complete_work f st)"
| step_stop: "wr_cancels st n = Some ca \<Longrightarrow> \<not> ca_stopped ca \<Longrightarrow> \<not> wr_closed st (ca_fiber ca) \<Longrightarrow>
    runner_step st (Stop_Work n) (stop_work n st)"
| step_end: "wr_cancels st n = Some ca \<Longrightarrow> ca_stopped ca \<Longrightarrow> wr_fibers st (ca_fiber ca) = None \<Longrightarrow>
    runner_step st (End_Cancel n) (end_cancel n st)"

inductive_cases runner_stepE: "runner_step st a st'"

fun of_caller :: "('w, 'a) runner_action \<Rightarrow> bool" where
  "of_caller (Ensure w) \<longleftrightarrow> True"
| "of_caller (Start_Shell w latch) \<longleftrightarrow> True"
| "of_caller Cancel \<longleftrightarrow> True"
| "of_caller (Open_Ready f) \<longleftrightarrow> True"
| "of_caller _ \<longleftrightarrow> False"

definition own_step :: "('w, 'a) work_runner \<Rightarrow> ('w, 'a) work_runner \<Rightarrow> bool" where
  \<comment> \<open>no caller does anything\<close>
  "own_step st st' \<longleftrightarrow> (\<exists>a. \<not> of_caller a \<and> runner_step st a st')"

inductive runner_reachable :: "('w, 'a) work_runner \<Rightarrow> bool" where
  reach_new: "runner_reachable new_runner"
| reach_next: "runner_reachable st \<Longrightarrow> runner_step st a st' \<Longrightarrow> runner_reachable st'"

end
