(* ===== verification/RunState.thy ===== *)
theory RunState imports WorkRunner BackgroundJob begin

text \<open>
  The runners of the sessions (packages/opencode/src/session/run-state.ts): a map from sessions to runners whose entry
  is deleted when a runner calls \<open>onIdle\<close>, the calls that go to the runner of a session, and the cancelling of the
  background jobs that descend from a session. A lookup and the call of the runner behind it are one step; so are a
  runner's step and the callback it runs. The finalizer \<open>close_runners\<close> ends the instance and is not one of the steps.
\<close>

section \<open>State\<close>

record ('w, 'a) run_state =
  rs_map :: "jstring \<rightharpoonup> nat" \<comment> \<open>\<open>runners\<close>\<close>
  rs_runners :: "nat \<rightharpoonup> ('w, 'a) work_runner" \<comment> \<open>every runner that was made\<close>
  rs_session :: "nat \<Rightarrow> jstring" \<comment> \<open>whom it was made for\<close>
  rs_next :: nat
  rs_busy :: "jstring \<Rightarrow> bool" \<comment> \<open>the status of a session\<close>

definition no_runners :: "('w, 'a) run_state" where
  "no_runners = \<lparr>rs_map = Map.empty, rs_runners = Map.empty, rs_session = (\<lambda>_. []), rs_next = 0, rs_busy = (\<lambda>_. False)\<rparr>"

section \<open>Operations\<close>

definition runner_for :: "jstring \<Rightarrow> ('w, 'a) run_state \<Rightarrow> nat \<times> ('w, 'a) run_state" where
  "runner_for sid rs =
    (case rs_map rs sid of
       Some r \<Rightarrow> (r, rs)
     | None \<Rightarrow> (rs_next rs, rs\<lparr>rs_map := (rs_map rs)(sid \<mapsto> rs_next rs), rs_runners := (rs_runners rs)(rs_next rs \<mapsto> new_runner),
         rs_session := (rs_session rs)(rs_next rs := sid), rs_next := Suc (rs_next rs)\<rparr>))"

definition on_idle :: "jstring \<Rightarrow> ('w, 'a) run_state \<Rightarrow> ('w, 'a) run_state" where
  "on_idle sid rs = rs\<lparr>rs_map := (rs_map rs)(sid := None), rs_busy := (rs_busy rs)(sid := False)\<rparr>"

definition on_busy :: "jstring \<Rightarrow> ('w, 'a) run_state \<Rightarrow> ('w, 'a) run_state" where
  "on_busy sid rs = rs\<lparr>rs_busy := (rs_busy rs)(sid := True)\<rparr>"

definition call_runner :: "nat \<Rightarrow> ('w, 'a) work_runner \<Rightarrow> ('w, 'a) work_runner \<Rightarrow> ('w, 'a) run_state \<Rightarrow> ('w, 'a) run_state" where
  \<comment> \<open>runner \<open>r\<close> went from one state to the next, with the callbacks it ran\<close>
  "call_runner r st st' rs =
    (let rs1 = rs\<lparr>rs_runners := (rs_runners rs)(r \<mapsto> st')\<rparr>;
         rs2 = (if wr_busy st' > wr_busy st then on_busy (rs_session rs r) rs1 else rs1)
     in if wr_idle st' > wr_idle st then on_idle (rs_session rs r) rs2 else rs2)"

definition session_busy :: "jstring \<Rightarrow> ('w, 'a) run_state \<Rightarrow> bool" where
  \<comment> \<open>\<open>assertNotBusy\<close> fails\<close>
  "session_busy sid rs = (case Option.bind (rs_map rs sid) (rs_runners rs) of Some st \<Rightarrow> wr_state st \<noteq> Idle | None \<Rightarrow> False)"

definition ensure_session :: "jstring \<Rightarrow> 'w \<Rightarrow> ('w, 'a) run_state \<Rightarrow> (nat \<times> nat) option \<times> ('w, 'a) run_state" where
  \<comment> \<open>the runner and the deferred the caller awaits\<close>
  "ensure_session sid w rs =
    (let (r, rs1) = runner_for sid rs
     in case rs_runners rs1 r of
          None \<Rightarrow> (None, rs1)
        | Some st \<Rightarrow> (Some (r, fst (ensure_running w st)), call_runner r st (snd (ensure_running w st)) rs1))"

definition shell_session :: "jstring \<Rightarrow> 'w \<Rightarrow> bool \<Rightarrow> ('w, 'a) run_state \<Rightarrow> (nat \<times> nat) option \<times> ('w, 'a) run_state" where
  \<comment> \<open>the runner and the fiber the caller awaits, or \<open>BusyError\<close>\<close>
  "shell_session sid w latch rs =
    (let (r, rs1) = runner_for sid rs
     in case rs_runners rs1 r of
          None \<Rightarrow> (None, rs1)
        | Some st \<Rightarrow> (map_option (Pair r) (fst (start_shell w latch st)), call_runner r st (snd (start_shell w latch st)) rs1))"

definition cancel_session :: "jstring \<Rightarrow> ('w, 'a) run_state \<Rightarrow> ('w, 'a) run_state" where
  \<comment> \<open>after the background jobs\<close>
  "cancel_session sid rs =
    (case rs_map rs sid of
       None \<Rightarrow> rs\<lparr>rs_busy := (rs_busy rs)(sid := False)\<rparr>
     | Some r \<Rightarrow> (case rs_runners rs r of None \<Rightarrow> rs | Some st \<Rightarrow> call_runner r st (cancel st) rs))"

definition close_runners :: "('w, 'a) run_state \<Rightarrow> ('w, 'a) run_state" where
  \<comment> \<open>the finalizer: every runner of the map is cancelled\<close>
  "close_runners rs = rs\<lparr>rs_runners := (\<lambda>r. map_option (\<lambda>st. if rs_map rs (rs_session rs r) = Some r then cancel st else st) (rs_runners rs r)),
     rs_map := Map.empty\<rparr>"

datatype 'w run_action = Ensure_Session jstring 'w | Shell_Session jstring 'w bool | Cancel_Session jstring | Open_Latch nat nat | Of_Runner nat

inductive run_step :: "('w, 'a) run_state \<Rightarrow> 'w run_action \<Rightarrow> ('w, 'a) run_state \<Rightarrow> bool" where
  run_ensure: "run_step rs (Ensure_Session sid w) (snd (ensure_session sid w rs))"
| run_shell: "run_step rs (Shell_Session sid w latch) (snd (shell_session sid w latch rs))"
| run_cancel: "run_step rs (Cancel_Session sid) (cancel_session sid rs)"
| run_ready: "rs_runners rs r = Some st \<Longrightarrow> run_step rs (Open_Latch r f) (call_runner r st (open_ready f st) rs)"
| run_own: "rs_runners rs r = Some st \<Longrightarrow> own_step st st' \<Longrightarrow> run_step rs (Of_Runner r) (call_runner r st st' rs)"

inductive_cases run_stepE: "run_step rs a rs'"

inductive run_reachable :: "('w, 'a) run_state \<Rightarrow> bool" where
  reach_none: "run_reachable no_runners"
| reach_run: "run_reachable rs \<Longrightarrow> run_step rs a rs' \<Longrightarrow> run_reachable rs'"

section \<open>Background jobs of a session\<close>

definition session_key :: "string \<Rightarrow> job_info \<Rightarrow> jstring option" where
  \<comment> \<open>a string of the metadata\<close>
  "session_key k job = (case Option.bind (ji_metadata job) (\<lambda>md. map_of md (lit k)) of Some (JStr s) \<Rightarrow> Some s | _ \<Rightarrow> None)"

definition job_matches :: "jstring set \<Rightarrow> jstring set \<Rightarrow> job_info \<Rightarrow> bool" where
  "job_matches pending cancelled job \<longleftrightarrow> ji_status job = Job_Running \<and> ji_id job \<notin> cancelled \<and>
     (ji_id job \<in> pending \<or> (\<exists>s \<in> set_option (session_key ''sessionId'' job). s \<in> pending) \<or>
      (\<exists>s \<in> set_option (session_key ''parentSessionId'' job). s \<in> pending))"

fun cancel_batch :: "job_info list \<Rightarrow> int \<Rightarrow> jstring set \<times> jstring set \<times> 'c job_registry \<Rightarrow> jstring set \<times> jstring set \<times> 'c job_registry" where
  "cancel_batch [] now acc = acc"
| "cancel_batch (job # batch) now (pending, cancelled, jr) =
    cancel_batch batch now (insert (ji_id job) pending \<union> set_option (session_key ''sessionId'' job), insert (ji_id job) cancelled,
      snd (cancel_job (ji_id job) now jr))"

lemma cancel_batch_cancelled:
  "fst (snd (cancel_batch batch now (p, c, jr))) = c \<union> ji_id ` set batch"
  by (induction batch arbitrary: p c jr) auto

function cancel_batches :: "job_info list \<Rightarrow> int \<Rightarrow> jstring set \<times> jstring set \<times> 'c job_registry \<Rightarrow> jstring set \<times> jstring set \<times> 'c job_registry" where
  "cancel_batches jobs now (pending, cancelled, jr) =
    (let batch = filter (job_matches pending cancelled) jobs
     in if batch = [] then (pending, cancelled, jr) else cancel_batches jobs now (cancel_batch batch now (pending, cancelled, jr)))"
  by pat_completeness auto
termination
proof (relation "measure (\<lambda>(jobs, now, p, c, jr). length (filter (\<lambda>j. ji_id j \<notin> c) jobs))", goal_cases)
  case (2 jobs now p c jr batch)
  obtain job where "job \<in> set batch" using 2(2) by (cases batch) auto
  then have job: "job \<in> set jobs" "ji_id job \<notin> c" using 2(1) by (auto simp: job_matches_def)
  obtain p' c' jr' where to: "cancel_batch batch now (p, c, jr) = (p', c', jr')" by (cases "cancel_batch batch now (p, c, jr)")
  then have c': "c' = c \<union> ji_id ` set batch" using cancel_batch_cancelled [of batch now p c jr] by simp
  have "length (filter (\<lambda>j. ji_id j \<notin> c') jobs) = length (filter (\<lambda>j. ji_id j \<notin> c') (filter (\<lambda>j. ji_id j \<notin> c) jobs))"
    using c' by (auto simp: filter_filter intro!: arg_cong [where f = length] filter_cong)
  also have "\<dots> < length (filter (\<lambda>j. ji_id j \<notin> c) jobs)"
    using job \<open>job \<in> set batch\<close> c' by (intro length_filter_less [of job]) auto
  finally show ?case using to by simp
qed simp

definition cancel_background_jobs :: "jstring \<Rightarrow> int \<Rightarrow> 'c job_registry \<Rightarrow> jstring set \<times> 'c job_registry" where
  "cancel_background_jobs sid now jr = snd (cancel_batches (list_jobs jr) now ({sid}, {}, jr))"

end
