(* ===== verification/JobFamily.thy ===== *)
theory JobFamily imports RunState BackgroundJobInv begin

text \<open>
  What cancelling the background jobs of a session cancels: the running jobs that descend from it, through the
  sessions the jobs name as their own and as their parent's, and no others.
\<close>

section \<open>The jobs that descend from a session\<close>

definition names :: "job_info \<Rightarrow> jstring \<Rightarrow> bool" where
  "names job n \<longleftrightarrow> ji_id job = n \<or> session_key ''sessionId'' job = Some n \<or> session_key ''parentSessionId'' job = Some n"

inductive tied :: "job_info list \<Rightarrow> jstring \<Rightarrow> jstring \<Rightarrow> bool" for jobs sid where
  tied_self: "tied jobs sid sid"
| tied_job: "tied jobs sid n \<Longrightarrow> job \<in> set jobs \<Longrightarrow> ji_status job = Job_Running \<Longrightarrow> names job n \<Longrightarrow> tied jobs sid (ji_id job)"
| tied_session: "tied jobs sid n \<Longrightarrow> job \<in> set jobs \<Longrightarrow> ji_status job = Job_Running \<Longrightarrow> names job n \<Longrightarrow>
    session_key ''sessionId'' job = Some s \<Longrightarrow> tied jobs sid s"

definition descends :: "job_info list \<Rightarrow> jstring \<Rightarrow> job_info \<Rightarrow> bool" where
  "descends jobs sid job \<longleftrightarrow> job \<in> set jobs \<and> ji_status job = Job_Running \<and> (\<exists>n. tied jobs sid n \<and> names job n)"

lemma descends_tied:
  assumes "descends jobs sid job"
  shows "tied jobs sid (ji_id job)" "session_key ''sessionId'' job = Some s \<Longrightarrow> tied jobs sid s"
  using assms unfolding descends_def by (blast intro: tied_job tied_session)+

lemma job_matches_names: "job_matches p c job \<longleftrightarrow> ji_status job = Job_Running \<and> ji_id job \<notin> c \<and> (\<exists>n \<in> p. names job n)"
  by (auto simp: job_matches_def names_def)

section \<open>The batches\<close>

definition family_inv :: "job_info list \<Rightarrow> jstring \<Rightarrow> jstring set \<Rightarrow> jstring set \<Rightarrow> bool" where
  "family_inv jobs sid p c \<longleftrightarrow> sid \<in> p \<and> (\<forall>n \<in> p. tied jobs sid n) \<and> c \<subseteq> ji_id ` {job. descends jobs sid job} \<and>
     (\<forall>job \<in> set jobs. ji_id job \<in> c \<longrightarrow> ji_id job \<in> p \<and> set_option (session_key ''sessionId'' job) \<subseteq> p)"

lemma cancel_batch_sets:
  "cancel_batch batch now (p, c, jr) =
    (p \<union> (\<Union>job \<in> set batch. insert (ji_id job) (set_option (session_key ''sessionId'' job))), c \<union> ji_id ` set batch,
     snd (snd (cancel_batch batch now (p, c, jr))))"
  by (induction batch arbitrary: p c jr) (auto simp: prod_eq_iff)

lemma family_inv_batch:
  assumes "family_inv jobs sid p c" "distinct (map ji_id jobs)" "batch = filter (job_matches p c) jobs"
    "cancel_batch batch now (p, c, jr) = (p', c', jr')"
  shows "family_inv jobs sid p' c'"
proof -
  have eqs: "p' = p \<union> (\<Union>job \<in> set batch. insert (ji_id job) (set_option (session_key ''sessionId'' job)))" "c' = c \<union> ji_id ` set batch"
    using assms(4) cancel_batch_sets [of batch now p c jr] by simp_all
  have member: "descends jobs sid job" if "job \<in> set batch" for job
    using assms(1,3) that by (auto simp: family_inv_def descends_def job_matches_names)
  have tied: "tied jobs sid n" if "n \<in> p'" for n
    using that assms(1) eqs(1) descends_tied(1) [OF member] descends_tied(2) [OF member]
    by (auto simp: family_inv_def)
  have same: "a = b" if "a \<in> set jobs" "b \<in> set jobs" "ji_id a = ji_id b" for a b
    using assms(2) that by (auto simp: distinct_map inj_on_def)
  have sub: "set batch \<subseteq> set jobs" using assms(3) by auto
  have kept: "ji_id job \<in> p' \<and> set_option (session_key ''sessionId'' job) \<subseteq> p'" if "job \<in> set jobs" "ji_id job \<in> c'" for job
  proof (cases "ji_id job \<in> c")
    case True
    then show ?thesis using assms(1) that eqs(1) by (auto simp: family_inv_def)
  next
    case False
    note m = that
    obtain b where b: "b \<in> set batch" "ji_id b = ji_id job" using m(2) False eqs(2) by auto
    then have "b = job" using same [OF _ m(1) b(2)] sub by blast
    then show ?thesis using b(1) eqs(1) by blast
  qed
  have "c' \<subseteq> ji_id ` {job. descends jobs sid job}" using assms(1) member eqs(2) by (auto simp: family_inv_def)
  then show ?thesis using tied kept assms(1) eqs(1) by (auto simp: family_inv_def)
qed

lemma family_inv_end:
  assumes "family_inv jobs sid p c" "filter (job_matches p c) jobs = []"
  shows "c = ji_id ` {job. descends jobs sid job}"
proof -
  have closed: "ji_id job \<in> c" if "job \<in> set jobs" "ji_status job = Job_Running" "names job n" "n \<in> p" for job n
    using assms(2) that by (auto simp: filter_empty_conv job_matches_names)
  have "n \<in> p" if "tied jobs sid n" for n
    using that
  proof induction
    case tied_self
    then show ?case using assms(1) by (simp add: family_inv_def)
  next
    case (tied_job n job)
    then show ?case using closed [of job n] assms(1) by (auto simp: family_inv_def)
  next
    case (tied_session n job s)
    then show ?case using closed [of job n] assms(1) by (auto simp: family_inv_def)
  qed
  then show ?thesis using assms(1) closed by (auto simp: family_inv_def descends_def)
qed

lemma cancel_batches_family:
  assumes "distinct (map ji_id jobs)" "family_inv jobs sid p c"
  shows "fst (snd (cancel_batches jobs now (p, c, jr))) = ji_id ` {job. descends jobs sid job}"
  using assms
proof (induction jobs now "(p, c, jr)" arbitrary: p c jr rule: cancel_batches.induct)
  case (1 jobs now p c jr)
  let ?batch = "filter (job_matches p c) jobs"
  show ?case
  proof (cases "?batch = []")
    case True
    then show ?thesis using family_inv_end [OF 1(3) True] by (simp add: Let_def)
  next
    case False
    obtain p' c' jr' where to: "cancel_batch ?batch now (p, c, jr) = (p', c', jr')" by (cases "cancel_batch ?batch now (p, c, jr)")
    then have "family_inv jobs sid p' c'" using family_inv_batch [OF 1(3) 1(2) refl] by blast
    then show ?thesis using 1(1) [OF refl False to] 1(2) False to by (simp add: Let_def)
  qed
qed

section \<open>The registry after it\<close>

definition runs_at :: "'c job_registry \<Rightarrow> jstring \<Rightarrow> bool" where
  "runs_at jr i \<longleftrightarrow> (\<exists>job. map_of (jr_jobs jr) i = Some job \<and> is_running job)"

lemma runs_at_code [code]:
  "runs_at jr i = (case map_of (jr_jobs jr) i of Some job \<Rightarrow> is_running job | None \<Rightarrow> False)"
  by (simp add: runs_at_def split: option.split)

lemma runs_at_cancel: "runs_at (snd (cancel_job k now jr)) i \<longleftrightarrow> runs_at jr i \<and> i \<noteq> k"
  by (auto simp: runs_at_def cancel_job_def finish_job_def is_running_def split: option.split)

lemma runs_at_batch: "runs_at (snd (snd (cancel_batch batch now (p, c, jr)))) i \<longleftrightarrow> runs_at jr i \<and> i \<notin> ji_id ` set batch"
  by (induction batch arbitrary: p c jr) (auto simp: runs_at_cancel)

lemma cancel_batches_grow: "c \<subseteq> fst (snd (cancel_batches jobs now (p, c, jr)))"
proof (induction jobs now "(p, c, jr)" arbitrary: p c jr rule: cancel_batches.induct)
  case (1 jobs now p c jr)
  let ?batch = "filter (job_matches p c) jobs"
  show ?case
  proof (cases "?batch = []")
    case False
    obtain p' c' jr' where to: "cancel_batch ?batch now (p, c, jr) = (p', c', jr')" by (cases "cancel_batch ?batch now (p, c, jr)")
    have "c \<subseteq> c'" using cancel_batch_cancelled [of ?batch now p c jr] to by auto
    then show ?thesis using 1 [OF refl False to] False to by (simp add: Let_def)
  qed (simp add: Let_def)
qed

lemma runs_at_batches:
  "runs_at (snd (snd (cancel_batches jobs now (p, c, jr)))) i \<longleftrightarrow>
     runs_at jr i \<and> i \<notin> fst (snd (cancel_batches jobs now (p, c, jr))) - c"
proof (induction jobs now "(p, c, jr)" arbitrary: p c jr rule: cancel_batches.induct)
  case (1 jobs now p c jr)
  let ?batch = "filter (job_matches p c) jobs"
  show ?case
  proof (cases "?batch = []")
    case False
    obtain p' c' jr' where to: "cancel_batch ?batch now (p, c, jr) = (p', c', jr')" by (cases "cancel_batch ?batch now (p, c, jr)")
    have c': "c' = c \<union> ji_id ` set ?batch" using cancel_batch_cancelled [of ?batch now p c jr] to by simp
    have "runs_at jr' i \<longleftrightarrow> runs_at jr i \<and> i \<notin> ji_id ` set ?batch" using runs_at_batch [of ?batch now p c jr i] to by simp
    moreover have "ji_id ` set ?batch \<inter> c = {}" by (auto simp: job_matches_def)
    ultimately show ?thesis using 1 [OF refl False to] False to c' cancel_batches_grow [of c' jobs now p' jr'] by (auto simp: Let_def)
  qed (simp add: Let_def)
qed

definition keyed :: "'c job_registry \<Rightarrow> bool" where
  "keyed jr \<longleftrightarrow> wf_map (jr_jobs jr) \<and> (\<forall>i job. map_of (jr_jobs jr) i = Some job \<longrightarrow> ji_id (aj_info job) = i)"

lemma keyedD: "keyed jr \<Longrightarrow> map_of (jr_jobs jr) i = Some job \<Longrightarrow> ji_id (aj_info job) = i"
  by (simp add: keyed_def)

lemma keyed_settle: "keyed jr \<Longrightarrow> keyed (snd (settle_job i t sq x now jr))"
  by (auto simp: settle_job_def finish_job_def Let_def keyed_def split: option.split)

lemma keyed_phase [simp]: "keyed (set_phase p ph jr) = keyed jr"
  by (simp add: keyed_def)

lemma keyed_step:
  assumes "job_step jr jr'" "keyed jr"
  shows "keyed jr'"
  using assms(1)
proof cases
  case (step_piece)
  then show ?thesis using assms(2)
    by (auto elim!: piece_stepE simp: settle_piece_def keyed_settle split: option.split piece_phase.split)
qed (use assms(2) in \<open>auto simp: start_job_def extend_job_def promote_job_def cancel_job_def finish_job_def new_job_def close_registry_def Let_def
      keyed_def split: option.split\<close>)

lemma keyed_reachable: "job_reachable jr \<Longrightarrow> keyed jr"
  by (induction rule: job_reachable.induct) (simp add: keyed_def new_registry_def, rule keyed_step)

lemma keyed_list:
  assumes "keyed jr"
  shows "distinct (map ji_id (list_jobs jr))" "job \<in> set (list_jobs jr) \<longleftrightarrow> (\<exists>a. map_of (jr_jobs jr) (ji_id job) = Some a \<and> aj_info a = job)"
proof -
  have wf: "wf_map (jr_jobs jr)" using assms by (simp add: keyed_def)
  have key: "ji_id (aj_info a) = i" if "(i, a) \<in> set (jr_jobs jr)" for i a
    using keyedD [OF assms] that wf_map_get_iff [OF wf] by blast
  have "distinct (map fst (jr_jobs jr))" using wf by (simp add: wf_map_def)
  then have "distinct (jr_jobs jr)" "inj_on fst (set (jr_jobs jr))" by (simp_all add: distinct_map)
  then have one: "a = b" if "a \<in> set (jr_jobs jr)" "b \<in> set (jr_jobs jr)" "ji_id (snapshot_of (snd a)) = ji_id (snapshot_of (snd b))" for a b
    using that key [of "fst a" "snd a"] key [of "fst b" "snd b"] by (auto simp: snapshot_of_def inj_on_def)
  then have "inj_on (\<lambda>e. snapshot_of (snd e)) (set (jr_jobs jr))" by (intro inj_onI) (simp add: one)
  moreover have "inj_on ji_id ((\<lambda>e. snapshot_of (snd e)) ` set (jr_jobs jr))"
  proof (rule inj_onI)
    fix x y assume "x \<in> (\<lambda>e. snapshot_of (snd e)) ` set (jr_jobs jr)" "y \<in> (\<lambda>e. snapshot_of (snd e)) ` set (jr_jobs jr)" "ji_id x = ji_id y"
    then obtain a b where ab: "x = snapshot_of (snd a)" "y = snapshot_of (snd b)" "a \<in> set (jr_jobs jr)" "b \<in> set (jr_jobs jr)"
        "ji_id (snapshot_of (snd a)) = ji_id (snapshot_of (snd b))" by auto
    then have "a = b" by (intro one)
    then show "x = y" using ab by simp
  qed
  ultimately show "distinct (map ji_id (list_jobs jr))"
    using \<open>distinct (jr_jobs jr)\<close> by (simp add: list_jobs_def distinct_map)
  show "job \<in> set (list_jobs jr) \<longleftrightarrow> (\<exists>a. map_of (jr_jobs jr) (ji_id job) = Some a \<and> aj_info a = job)"
  proof
    assume "job \<in> set (list_jobs jr)"
    then obtain i a where a: "(i, a) \<in> set (jr_jobs jr)" "job = aj_info a" by (auto simp: list_jobs_def snapshot_of_def)
    then have "map_of (jr_jobs jr) (ji_id job) = Some a" using key [OF a(1)] wf_map_get_iff [OF wf] by simp
    then show "\<exists>a. map_of (jr_jobs jr) (ji_id job) = Some a \<and> aj_info a = job" using a(2) by blast
  next
    assume "\<exists>a. map_of (jr_jobs jr) (ji_id job) = Some a \<and> aj_info a = job"
    then obtain a where "(ji_id job, a) \<in> set (jr_jobs jr)" "aj_info a = job" using wf_map_get_iff [OF wf] by blast
    then show "job \<in> set (list_jobs jr)" by (force simp: list_jobs_def snapshot_of_def)
  qed
qed

section \<open>Properties\<close>

text \<open>C34. Cancelling the background jobs of a session stops exactly the running jobs that descend from it, through
  any number of sessions between.\<close>
theorem session_cancel_stops_descendants:
  assumes "job_reachable jr"
  shows "runs_at (snd (cancel_background_jobs sid now jr)) i \<longleftrightarrow>
    runs_at jr i \<and> \<not> (\<exists>job. descends (list_jobs jr) sid job \<and> ji_id job = i)"
proof -
  have "family_inv (list_jobs jr) sid {sid} {}" by (simp add: family_inv_def tied_self)
  then have "fst (snd (cancel_batches (list_jobs jr) now ({sid}, {}, jr))) = ji_id ` {job. descends (list_jobs jr) sid job}"
    by (rule cancel_batches_family [OF keyed_list(1) [OF keyed_reachable [OF assms]]])
  then show ?thesis
    using runs_at_batches [of "list_jobs jr" now "{sid}" "{}" jr i] by (auto simp: cancel_background_jobs_def)
qed

definition child_of :: "string \<Rightarrow> string \<Rightarrow> unit start_input" where
  "child_of own parent = \<lparr>si_id = Some (lit own), si_type = lit ''task'', si_title = None,
     si_metadata = Some [(lit ''sessionId'', JStr (lit own)), (lit ''parentSessionId'', JStr (lit parent))], si_on_promote = None\<rparr>"

definition three_jobs :: "unit job_registry" where
  "three_jobs = snd (start_job [] 3 (child_of ''c'' ''x'') (snd (start_job [] 2 (child_of ''b'' ''a'')
     (snd (start_job [] 1 (child_of ''a'' ''s'') new_registry)))))"

lemma three_jobs_reachable: "job_reachable three_jobs"
  unfolding three_jobs_def
  by (rule reach_job_step [OF reach_job_step [OF reach_job_step [OF reach_registry step_start] step_start] step_start])

lemma three_jobs_family: "\<exists>job. descends (list_jobs three_jobs) (lit ''s'') job \<and> ji_id job = lit ''b''"
proof -
  let ?jobs = "list_jobs three_jobs"
  have jobs: "\<exists>a \<in> set ?jobs. \<exists>b \<in> set ?jobs. ji_status a = Job_Running \<and> ji_status b = Job_Running \<and>
      ji_id a = lit ''a'' \<and> names a (lit ''s'') \<and> ji_id b = lit ''b'' \<and> names b (lit ''a'')"
    by code_simp
  then show ?thesis unfolding descends_def by (metis tied_self tied_job)
qed

lemma session_cancel_stops_descendants_witness:
  "runs_at three_jobs (lit ''b'') \<and> \<not> runs_at (snd (cancel_background_jobs (lit ''s'') 9 three_jobs)) (lit ''b'')"
proof -
  have "runs_at three_jobs (lit ''b'')" by code_simp
  then show ?thesis
    using session_cancel_stops_descendants [OF three_jobs_reachable, of "lit ''s''" 9 "lit ''b''"] three_jobs_family by blast
qed

end
