(* ===== verification/LineMatch.thy ===== *)
theory LineMatch imports JsText begin

text \<open>
  Looking for a block of lines in a file, as both patch modules do (packages/core/src/patch.ts and
  packages/opencode/src/patch/index.ts): the four comparators, from exact to normalised, the test of
  one offset, and the forward search. The contract of a comparator is a locale; the four comparators
  interpret it.
\<close>

section \<open>Comparators\<close>

definition cmp_exact :: "jstring \<Rightarrow> jstring \<Rightarrow> bool" where
  "cmp_exact left right = (left = right)"

definition cmp_rstrip :: "jstring \<Rightarrow> jstring \<Rightarrow> bool" where
  "cmp_rstrip left right = (trim_end left = trim_end right)"

definition cmp_trim :: "jstring \<Rightarrow> jstring \<Rightarrow> bool" where
  "cmp_trim left right = (trim left = trim right)"

definition normalize_unit :: "nat \<Rightarrow> jstring" where
  "normalize_unit c =
    (if 8216 \<le> c \<and> c \<le> 8219 then lit [CHR 0x27]
     else if 8220 \<le> c \<and> c \<le> 8223 then lit [CHR 0x22]
     else if 8208 \<le> c \<and> c \<le> 8213 then lit ''-''
     else if c = 8230 then lit ''...''
     else if c = 160 then lit '' ''
     else [c])"

definition normalize :: "jstring \<Rightarrow> jstring" where
  \<comment> \<open>the five replacements in sequence; none produces a unit a later one replaces\<close>
  "normalize s = concat (map normalize_unit s)"

definition cmp_normalized :: "jstring \<Rightarrow> jstring \<Rightarrow> bool" where
  "cmp_normalized left right = (normalize (trim left) = normalize (trim right))"

definition comparators :: "(jstring \<Rightarrow> jstring \<Rightarrow> bool) list" where
  "comparators = [cmp_exact, cmp_rstrip, cmp_trim, cmp_normalized]"

section \<open>One offset, and the search over offsets\<close>

definition matches_at :: "jstring list \<Rightarrow> jstring list \<Rightarrow> nat \<Rightarrow> (jstring \<Rightarrow> jstring \<Rightarrow> bool) \<Rightarrow> bool" where
  "matches_at ls pat off cmp = list_all (\<lambda>i. cmp (ls ! (off + i)) (pat ! i)) [0..<length pat]"

definition try_match :: "jstring list \<Rightarrow> jstring list \<Rightarrow> nat \<Rightarrow> (jstring \<Rightarrow> jstring \<Rightarrow> bool) \<Rightarrow> bool \<Rightarrow> nat option" where
  \<comment> \<open>one pass of the search: the end of the file first when the chunk is anchored there, then
      forward from \<open>start\<close> while the pattern fits\<close>
  "try_match ls pat start cmp eof =
    (let offset = length ls - length pat in
     if eof \<and> length pat \<le> length ls \<and> start \<le> offset \<and> matches_at ls pat offset cmp then Some offset
     else find (\<lambda>off. matches_at ls pat off cmp) [start..<length ls + 1 - length pat])"

definition fits :: "jstring list \<Rightarrow> jstring list \<Rightarrow> nat \<Rightarrow> nat \<Rightarrow> bool" where
  \<comment> \<open>the offsets a search may return\<close>
  "fits ls pat start off \<longleftrightarrow> start \<le> off \<and> off + length pat \<le> length ls"

lemma matches_at_iff: "matches_at ls pat off cmp \<longleftrightarrow> (\<forall>i < length pat. cmp (ls ! (off + i)) (pat ! i))"
  by (auto simp: matches_at_def list_all_iff)

lemma find_upt_Some:
  "find P [a..<b] = Some k \<longleftrightarrow> a \<le> k \<and> k < b \<and> P k \<and> (\<forall>j. a \<le> j \<and> j < k \<longrightarrow> \<not> P j)"
proof -
  have "find P [a..<b] = Some k \<longleftrightarrow>
      (\<exists>i < b - a. P (a + i) \<and> k = a + i \<and> (\<forall>j < i. \<not> P (a + j)))"
    by (auto simp: find_Some_iff)
  also have "\<dots> \<longleftrightarrow> a \<le> k \<and> k < b \<and> P k \<and> (\<forall>j. a \<le> j \<and> j < k \<longrightarrow> \<not> P j)"
  proof
    assume "\<exists>i < b - a. P (a + i) \<and> k = a + i \<and> (\<forall>j < i. \<not> P (a + j))"
    then obtain i where i: "i < b - a" "P (a + i)" "k = a + i" "\<forall>j < i. \<not> P (a + j)" by blast
    have "\<not> P j" if "a \<le> j" "j < k" for j
      using i(4) [rule_format, of "j - a"] i(3) that by simp
    with i show "a \<le> k \<and> k < b \<and> P k \<and> (\<forall>j. a \<le> j \<and> j < k \<longrightarrow> \<not> P j)" by auto
  next
    assume "a \<le> k \<and> k < b \<and> P k \<and> (\<forall>j. a \<le> j \<and> j < k \<longrightarrow> \<not> P j)"
    then show "\<exists>i < b - a. P (a + i) \<and> k = a + i \<and> (\<forall>j < i. \<not> P (a + j))"
      by (intro exI [of _ "k - a"]) auto
  qed
  finally show ?thesis .
qed

lemma find_upt_None: "find P [a..<b] = None \<longleftrightarrow> (\<forall>k. a \<le> k \<and> k < b \<longrightarrow> \<not> P k)"
  by (auto simp: find_None_iff)

lemma try_match_SomeD:
  "try_match ls pat start cmp eof = Some k \<Longrightarrow> fits ls pat start k \<and> matches_at ls pat k cmp"
  by (auto simp: try_match_def Let_def fits_def find_upt_Some split: if_splits)

lemma try_match_None_iff:
  "try_match ls pat start cmp eof = None \<longleftrightarrow> (\<forall>k. fits ls pat start k \<longrightarrow> \<not> matches_at ls pat k cmp)"
  by (auto simp: try_match_def Let_def fits_def find_upt_None split: if_splits)

lemma try_match_first:
  "try_match ls pat start cmp False = Some k \<longleftrightarrow>
    fits ls pat start k \<and> matches_at ls pat k cmp \<and>
    (\<forall>j. start \<le> j \<and> j < k \<longrightarrow> \<not> matches_at ls pat j cmp)"
  by (auto simp: try_match_def Let_def fits_def find_upt_Some)

section \<open>The contract of a comparator\<close>

locale line_compare =
  fixes cmp :: "jstring \<Rightarrow> jstring \<Rightarrow> bool"
  assumes cmp_refl: "cmp a a"
begin

lemma own_block: "matches_at (pre @ pat @ post) pat (length pre) cmp"
  by (auto simp: matches_at_iff nth_append cmp_refl)

lemma finds_block:
  "start \<le> length pre \<Longrightarrow> \<exists>k. try_match (pre @ pat @ post) pat start cmp eof = Some k \<and> start \<le> k"
proof -
  assume "start \<le> length pre"
  then have "fits (pre @ pat @ post) pat start (length pre)" by (simp add: fits_def)
  then have "try_match (pre @ pat @ post) pat start cmp eof \<noteq> None"
    using own_block try_match_None_iff by blast
  then obtain k where "try_match (pre @ pat @ post) pat start cmp eof = Some k" by blast
  with try_match_SomeD [OF this] show ?thesis by (auto simp: fits_def)
qed

end

text \<open>A pass after the first one accepts what the earlier passes accept.\<close>

locale coarser_compare = line_compare cmp for cmp +
  fixes finer :: "jstring \<Rightarrow> jstring \<Rightarrow> bool"
  assumes finer_cmp: "finer a b \<Longrightarrow> cmp a b"
begin

lemma coarser_matches: "matches_at ls pat off finer \<Longrightarrow> matches_at ls pat off cmp"
  by (simp add: matches_at_iff finer_cmp)

lemma coarser_None: "try_match ls pat start cmp eof = None \<Longrightarrow> try_match ls pat start finer eof = None"
  by (auto simp: try_match_None_iff dest: coarser_matches)

end

interpretation exact: line_compare cmp_exact
  by unfold_locales (simp add: cmp_exact_def)

interpretation rstrip: coarser_compare cmp_rstrip cmp_exact
  by unfold_locales (simp_all add: cmp_rstrip_def cmp_exact_def)

interpretation trimmed: coarser_compare cmp_trim cmp_rstrip
  by unfold_locales (auto simp: cmp_trim_def cmp_rstrip_def dest: arg_cong [where f = trim])

interpretation normalized: coarser_compare cmp_normalized cmp_trim
  by unfold_locales (simp_all add: cmp_normalized_def cmp_trim_def)

lemma comparators_refl: "cmp \<in> set comparators \<Longrightarrow> cmp a a"
  by (auto simp: comparators_def cmp_exact_def cmp_rstrip_def cmp_trim_def cmp_normalized_def)

lemma comparator_normalized: "cmp \<in> set comparators \<Longrightarrow> cmp a b \<Longrightarrow> cmp_normalized a b"
  unfolding comparators_def
  by (auto intro: normalized.finer_cmp trimmed.finer_cmp rstrip.finer_cmp)

section \<open>All passes\<close>

fun first_some :: "('a \<Rightarrow> 'b option) \<Rightarrow> 'a list \<Rightarrow> 'b option" where
  "first_some f [] = None"
| "first_some f (x # xs) = (case f x of Some y \<Rightarrow> Some y | None \<Rightarrow> first_some f xs)"

lemma first_some_SomeD: "first_some f xs = Some y \<Longrightarrow> \<exists>x \<in> set xs. f x = Some y"
  by (induction xs) (auto split: option.splits)

lemma first_some_None_iff: "first_some f xs = None \<longleftrightarrow> (\<forall>x \<in> set xs. f x = None)"
  by (induction xs) (auto split: option.splits)

end
