(* ===== verification/Patch.thy ===== *)
theory Patch imports LineMatch begin

text \<open>
  The patch module of the core package (packages/core/src/patch.ts): parsing a patch text into
  hunks, and deriving a file's new contents from an update hunk's chunks. \<open>throw new Error\<close> is the
  left summand, one constructor of \<open>patch_error\<close> per message.
\<close>

section \<open>Data\<close>

record chunk =
  old_lines :: "jstring list"
  new_lines :: "jstring list"
  change_context :: "jstring option"
  end_of_file :: bool \<comment> \<open>\<open>endOfFile || undefined\<close>: absent reads as false\<close>

datatype hunk =
    AddFile jstring jstring
  | DeleteFile jstring
  | UpdateFile jstring "jstring option" "chunk list"

datatype patch_error =
    MissingMarkers
  | InvalidAddPath
  | InvalidDeletePath
  | InvalidUpdatePath
  | InvalidMovePath
  | InvalidAddLine jstring
  | InvalidUpdateLine jstring
  | InvalidChunkLine jstring
  | NoChunks jstring
  | InvalidPatchLine jstring
  | ContextNotFound jstring jstring
  | LinesNotFound jstring "jstring list"

section \<open>Heredoc wrappers\<close>

definition drop_cat :: "jstring \<Rightarrow> jstring" where
  \<comment> \<open>\<open>(?:cat\s+)?\<close>; white space cannot start the \<open><<\<close> that must follow, so the greedy choice is the
      only one\<close>
  "drop_cat s =
    (if starts_with s (lit ''cat'') \<and> takeWhile is_ws (drop 3 s) \<noteq> []
     then dropWhile is_ws (drop 3 s) else s)"

definition drop_quote :: "jstring \<Rightarrow> jstring" where
  \<comment> \<open>an optional single or double quote\<close>
  "drop_quote s = (case s of [] \<Rightarrow> [] | c # t \<Rightarrow> if c = 39 \<or> c = 34 then t else s)"

fun body_end :: "jstring \<Rightarrow> jstring \<Rightarrow> nat option" where
  \<comment> \<open>\<open>([\s\S]*?)\n\1\s*$\<close>: the shortest body\<close>
  "body_end tag [] = None"
| "body_end tag (c # s) =
    (if starts_with (c # s) (LF # tag) \<and> list_all is_ws (drop (length tag) s) then Some 0
     else map_option Suc (body_end tag s))"

fun heredoc_body :: "jstring \<Rightarrow> jstring \<Rightarrow> nat list \<Rightarrow> jstring option" where
  \<comment> \<open>\<open>\s*\n\<close> is greedy: the last line feed of the white space first, then the ones before it\<close>
  "heredoc_body tag s [] = None"
| "heredoc_body tag s (i # is) =
    (if s ! i = LF then
       (case body_end tag (drop (Suc i) s) of
          Some k \<Rightarrow> Some (take k (drop (Suc i) s))
        | None \<Rightarrow> heredoc_body tag s is)
     else heredoc_body tag s is)"

definition heredoc :: "jstring \<Rightarrow> jstring option" where
  \<comment> \<open>the second group of \<open>/^(?:cat\s+)?<<['"]?(\w+)['"]?\s*\n([\s\S]*?)\n\1\s*$/\<close>\<close>
  "heredoc input =
    (let s1 = drop_cat input in
     if starts_with s1 (lit ''<<'') then
       let s2 = drop_quote (drop 2 s1); tag = takeWhile is_word s2;
           s3 = drop_quote (drop (length tag) s2); ws = takeWhile is_ws s3
       in if tag = [] then None else heredoc_body tag s3 (rev [0..<length ws])
     else None)"

definition strip_heredoc :: "jstring \<Rightarrow> jstring" where
  "strip_heredoc input = (case heredoc input of Some b \<Rightarrow> b | None \<Rightarrow> input)"

section \<open>Parsing\<close>

function parse_add :: "jstring list \<Rightarrow> nat \<Rightarrow> jstring list \<Rightarrow> (patch_error, jstring \<times> nat) result" where
  "parse_add ls i content =
    (if i < length ls \<and> \<not> starts_with (ls ! i) (lit ''***'') then
       if \<not> starts_with (ls ! i) (lit ''+'') then Inl (InvalidAddLine (ls ! i))
       else parse_add ls (Suc i) (content @ [drop 1 (ls ! i)])
     else Inr (unlines content, i))"
  by pat_completeness auto
termination
  by (relation "measure (\<lambda>(ls, i, c). length ls - i)") auto

function parse_chunk :: "jstring list \<Rightarrow> nat \<Rightarrow> jstring list \<Rightarrow> jstring list
    \<Rightarrow> (patch_error, jstring list \<times> jstring list \<times> bool \<times> nat) result" where
  \<comment> \<open>the inner loop of \<open>parseUpdate\<close>\<close>
  "parse_chunk ls i old new =
    (if i < length ls \<and> \<not> starts_with (ls ! i) (lit ''@@'') then
       let line = ls ! i in
       if line = lit ''*** End of File'' then Inr (old, new, True, Suc i)
       else if starts_with line (lit ''***'') then Inr (old, new, False, i)
       else if starts_with line (lit '' '') then parse_chunk ls (Suc i) (old @ [drop 1 line]) (new @ [drop 1 line])
       else if starts_with line (lit ''-'') then parse_chunk ls (Suc i) (old @ [drop 1 line]) new
       else if starts_with line (lit ''+'') then parse_chunk ls (Suc i) old (new @ [drop 1 line])
       else Inl (InvalidChunkLine line)
     else Inr (old, new, False, i))"
  by pat_completeness auto
termination
  by (relation "measure (\<lambda>(ls, i, c). length ls - i)") auto

declare parse_add.simps [simp del] parse_chunk.simps [simp del]

lemma parse_add_advances: "parse_add ls i acc = Inr (c, n) \<Longrightarrow> i \<le> n"
proof (induction ls i acc rule: parse_add.induct)
  case (1 ls i acc)
  then show ?case by (force simp: parse_add.simps [of ls i acc] split: if_splits)
qed

lemma parse_chunk_advances: "parse_chunk ls i old new = Inr (a, b, e, n) \<Longrightarrow> i \<le> n"
proof (induction ls i old new rule: parse_chunk.induct)
  case (1 ls i old new)
  then show ?case
    by (force simp: parse_chunk.simps [of ls i old new] Let_def split: if_splits)
qed

function parse_update :: "jstring list \<Rightarrow> nat \<Rightarrow> chunk list \<Rightarrow> (patch_error, chunk list \<times> nat) result" where
  "parse_update ls i chunks =
    (if i < length ls \<and> \<not> starts_with (ls ! i) (lit ''***'') then
       if \<not> starts_with (ls ! i) (lit ''@@'') then Inl (InvalidUpdateLine (ls ! i))
       else
         let ctx = trim (drop 2 (ls ! i)) in
         (case parse_chunk ls (Suc i) [] [] of
            Inl e \<Rightarrow> Inl e
          | Inr (old, new, eof, n) \<Rightarrow>
              parse_update ls n (chunks @
                [\<lparr>old_lines = old, new_lines = new, change_context = (if ctx = [] then None else Some ctx),
                  end_of_file = eof\<rparr>]))
     else Inr (chunks, i))"
  by pat_completeness auto
termination
  by (relation "measure (\<lambda>(ls, i, c). length ls - i)") (auto dest!: parse_chunk_advances)

declare parse_update.simps [simp del]

lemma parse_update_advances: "parse_update ls i acc = Inr (c, n) \<Longrightarrow> i \<le> n"
proof (induction ls i acc rule: parse_update.induct)
  case (1 ls i acc)
  then show ?case
    by (force simp: parse_update.simps [of ls i acc] Let_def
        split: if_splits sum.splits prod.splits dest: parse_chunk_advances)
qed

definition ADD :: jstring where "ADD = lit ''*** Add File:''"
definition DELETE :: jstring where "DELETE = lit ''*** Delete File:''"
definition UPDATE :: jstring where "UPDATE = lit ''*** Update File:''"
definition MOVE :: jstring where "MOVE = lit ''*** Move to:''"
definition BEGIN :: jstring where "BEGIN = lit ''*** Begin Patch''"
definition END :: jstring where "END = lit ''*** End Patch''"

definition parse_move :: "jstring list \<Rightarrow> nat \<Rightarrow> (patch_error, jstring option \<times> nat) result" where
  \<comment> \<open>the optional move line after an update header\<close>
  "parse_move ls next =
    (if next < length ls \<and> starts_with (ls ! next) MOVE then
       let p = trim (drop (length MOVE) (ls ! next)) in
       if p = [] then Inl InvalidMovePath else Inr (Some p, Suc next)
     else Inr (None, next))"

definition parse_hunk :: "jstring list \<Rightarrow> nat \<Rightarrow> (patch_error, hunk \<times> nat) result" where
  \<comment> \<open>one turn of the loop of \<open>parse\<close>\<close>
  "parse_hunk ls i =
    (let line = ls ! i in
     if starts_with line ADD then
       let p = trim (drop (length ADD) line) in
       if p = [] then Inl InvalidAddPath
       else rbind (parse_add ls (Suc i) []) (\<lambda>(content, n). Inr (AddFile p content, n))
     else if starts_with line DELETE then
       let p = trim (drop (length DELETE) line) in
       if p = [] then Inl InvalidDeletePath else Inr (DeleteFile p, Suc i)
     else if starts_with line UPDATE then
       let p = trim (drop (length UPDATE) line) in
       if p = [] then Inl InvalidUpdatePath
       else rbind (parse_move ls (Suc i)) (\<lambda>(mv, n).
              rbind (parse_update ls n []) (\<lambda>(chunks, n').
                if chunks = [] then Inl (NoChunks p) else Inr (UpdateFile p mv chunks, n')))
     else Inl (InvalidPatchLine line))"

lemma parse_move_advances: "parse_move ls i = Inr (m, n) \<Longrightarrow> i \<le> n"
  by (auto simp: parse_move_def Let_def split: if_splits)

lemma parse_hunk_advances: "parse_hunk ls i = Inr (h, n) \<Longrightarrow> i < n"
  by (fastforce simp: parse_hunk_def Let_def rbind_Inr_iff split: if_splits
      dest: parse_add_advances parse_update_advances parse_move_advances)

function parse_loop :: "jstring list \<Rightarrow> nat \<Rightarrow> nat \<Rightarrow> hunk list \<Rightarrow> (patch_error, hunk list) result" where
  "parse_loop ls fin i hunks =
    (if i < fin then
       (case parse_hunk ls i of
          Inl e \<Rightarrow> Inl e
        | Inr (h, n) \<Rightarrow> parse_loop ls fin n (hunks @ [h]))
     else Inr hunks)"
  by pat_completeness auto
termination
  by (relation "measure (\<lambda>(ls, fin, i, h). fin - i)") (auto dest!: parse_hunk_advances)

declare parse_loop.simps [simp del]

definition parse :: "jstring \<Rightarrow> (patch_error, hunk list) result" where
  "parse patch_text =
    (let ls = lines_of (strip_heredoc (trim patch_text)) in
     case (find_index (\<lambda>l. trim l = BEGIN) ls, find_index (\<lambda>l. trim l = END) ls) of
       (Some b, Some e) \<Rightarrow> if b \<ge> e then Inl MissingMarkers else parse_loop ls e (Suc b) []
     | _ \<Rightarrow> Inl MissingMarkers)"

section \<open>Deriving new contents\<close>

type_synonym replacement = "nat \<times> nat \<times> jstring list"

definition seek :: "jstring list \<Rightarrow> jstring list \<Rightarrow> nat \<Rightarrow> bool \<Rightarrow> nat option" where
  "seek ls pat start eof =
    (if pat = [] then None else first_some (\<lambda>cmp. try_match ls pat start cmp eof) comparators)"

definition strip_last_blank :: "jstring list \<Rightarrow> jstring list" where
  "strip_last_blank ls = (if ls \<noteq> [] \<and> last ls = [] then butlast ls else ls)"

definition locate :: "jstring list \<Rightarrow> chunk \<Rightarrow> nat \<Rightarrow> replacement option" where
  \<comment> \<open>a chunk that has old lines, sought with a second try without their trailing blank line\<close>
  "locate ls ch lineIndex =
    (case seek ls (old_lines ch) lineIndex (end_of_file ch) of
       Some found \<Rightarrow> Some (found, length (old_lines ch), new_lines ch)
     | None \<Rightarrow>
         if old_lines ch \<noteq> [] \<and> last (old_lines ch) = [] then
           let old = butlast (old_lines ch); new = strip_last_blank (new_lines ch)
           in map_option (\<lambda>found. (found, length old, new)) (seek ls old lineIndex (end_of_file ch))
         else None)"

definition seek_context :: "jstring list \<Rightarrow> jstring \<Rightarrow> chunk \<Rightarrow> nat \<Rightarrow> (patch_error, nat) result" where
  "seek_context ls path ch lineIndex =
    (case change_context ch of
       None \<Rightarrow> Inr lineIndex
     | Some c \<Rightarrow>
         if c = [] then Inr lineIndex
         else case seek ls [c] lineIndex False of
                None \<Rightarrow> Inl (ContextNotFound c path)
              | Some k \<Rightarrow> Inr (Suc k))"

fun collect :: "jstring list \<Rightarrow> jstring \<Rightarrow> nat \<Rightarrow> chunk list \<Rightarrow> (patch_error, replacement list) result" where
  \<comment> \<open>the loop of \<open>computeReplacements\<close>\<close>
  "collect ls path lineIndex [] = Inr []"
| "collect ls path lineIndex (ch # chs) =
    (case seek_context ls path ch lineIndex of
       Inl e \<Rightarrow> Inl e
     | Inr li \<Rightarrow>
         if old_lines ch = [] then
           rbind (collect ls path li chs) (\<lambda>rs. Inr ((length ls, 0, new_lines ch) # rs))
         else case locate ls ch li of
                None \<Rightarrow> Inl (LinesNotFound path (old_lines ch))
              | Some (found, len, new) \<Rightarrow>
                  rbind (collect ls path (found + len) chs) (\<lambda>rs. Inr ((found, len, new) # rs)))"

definition compute_replacements :: "jstring list \<Rightarrow> jstring \<Rightarrow> chunk list \<Rightarrow> (patch_error, replacement list) result" where
  "compute_replacements ls path chunks = rbind (collect ls path 0 chunks) (\<lambda>rs. Inr (sort_key fst rs))"

definition apply_reversed :: "jstring list \<Rightarrow> replacement list \<Rightarrow> jstring list" where
  \<comment> \<open>\<open>for (... of replacements.toReversed()) updated.splice(start, remove, ...insert)\<close>\<close>
  "apply_reversed ls rs = fold (\<lambda>(start, remove, ins) u. splice u start remove ins) (rev rs) ls"

definition end_with_blank :: "jstring list \<Rightarrow> jstring list" where
  "end_with_blank ls = (if ls \<noteq> [] \<and> last ls = [] then ls else ls @ [[]])"

definition derive :: "jstring \<Rightarrow> chunk list \<Rightarrow> jstring \<Rightarrow> (patch_error, jstring \<times> bool) result" where
  \<comment> \<open>\<open>{ content, bom }\<close>\<close>
  "derive path chunks original =
    (let (bom, text) = split_bom original;
         ls = strip_last_blank (lines_of text)
     in rbind (compute_replacements ls path chunks) (\<lambda>rs.
          let (nbom, ntext) = split_bom (unlines (end_with_blank (apply_reversed ls rs)))
          in Inr (ntext, bom \<or> nbom)))"

end
