(* ===== verification/PatchDerive.thy ===== *)
theory PatchDerive imports Patch begin

text \<open>
  What \<open>derive\<close> of the core patch module guarantees: where \<open>seek\<close> lands, that the replacements of
  a successful run are in bounds and do not overlap, and that splicing them from the last to the
  first rewrites the file in one left-to-right pass.
\<close>

section \<open>Seeking\<close>

lemma seek_SomeD:
  assumes "seek ls pat start eof = Some k"
  shows "pat \<noteq> []" "fits ls pat start k" "\<exists>cmp \<in> set comparators. matches_at ls pat k cmp"
proof -
  show "pat \<noteq> []" using assms by (auto simp: seek_def)
  then obtain cmp where "cmp \<in> set comparators" "try_match ls pat start cmp eof = Some k"
    using assms by (auto simp: seek_def dest!: first_some_SomeD)
  then show "fits ls pat start k" "\<exists>cmp \<in> set comparators. matches_at ls pat k cmp"
    by (auto dest: try_match_SomeD)
qed

lemma seek_None_iff:
  "seek ls pat start eof = None \<longleftrightarrow>
    pat = [] \<or> \<not> (\<exists>k. fits ls pat start k \<and> matches_at ls pat k cmp_normalized)"
proof -
  have "cmp_normalized \<in> set comparators" by (simp add: comparators_def)
  then have "(\<forall>cmp \<in> set comparators. try_match ls pat start cmp eof = None) \<longleftrightarrow>
      try_match ls pat start cmp_normalized eof = None"
    by (auto simp: try_match_None_iff matches_at_iff) (blast dest: comparator_normalized)
  then show ?thesis by (auto simp: seek_def first_some_None_iff try_match_None_iff)
qed

lemma seek_exact:
  assumes "pat \<noteq> []" "fits ls pat start k" "matches_at ls pat k cmp_exact"
    "\<And>j. start \<le> j \<Longrightarrow> j < k \<Longrightarrow> \<not> matches_at ls pat j cmp_exact"
  shows "seek ls pat start False = Some k"
proof -
  have "try_match ls pat start cmp_exact False = Some k" using assms by (auto simp: try_match_first)
  with assms(1) show ?thesis by (simp add: seek_def comparators_def)
qed

section \<open>Replacements in order\<close>

fun chain :: "nat \<Rightarrow> nat \<Rightarrow> replacement list \<Rightarrow> bool" where
  \<comment> \<open>in order from \<open>a\<close>, not overlapping, ending at \<open>n\<close> at most\<close>
  "chain n a [] = (a \<le> n)"
| "chain n a ((s, r, ins) # rs) = (a \<le> s \<and> chain n (s + r) rs)"

lemma chain_bound: "chain n a rs \<Longrightarrow> a \<le> n"
  by (induction n a rs rule: chain.induct) auto

lemma chain_inserts: "\<forall>x \<in> set js. fst x = n \<and> fst (snd x) = 0 \<Longrightarrow> a \<le> n \<Longrightarrow> chain n a js"
  by (induction js arbitrary: a) auto

lemma chain_append_inserts:
  "chain n a rs \<Longrightarrow> \<forall>x \<in> set js. fst x = n \<and> fst (snd x) = 0 \<Longrightarrow> chain n a (rs @ js)"
  by (induction n a rs rule: chain.induct) (auto intro: chain_inserts)

lemma locate_SomeD:
  assumes "locate ls ch li = Some (f, len, new)"
  shows "li \<le> f" "f + len \<le> length ls" "0 < len"
proof -
  have "fits ls (old_lines ch) li f \<and> len = length (old_lines ch) \<and> old_lines ch \<noteq> [] \<or>
      fits ls (butlast (old_lines ch)) li f \<and> len = length (butlast (old_lines ch)) \<and>
      butlast (old_lines ch) \<noteq> []"
    using assms by (auto simp: locate_def Let_def split: option.splits if_splits dest: seek_SomeD)
  then show "li \<le> f" "f + len \<le> length ls" "0 < len"
    by (auto simp: fits_def length_greater_0_conv simp del: length_butlast)
qed

lemma seek_context_advances: "seek_context ls path ch li = Inr k \<Longrightarrow> li \<le> length ls \<Longrightarrow> li \<le> k \<and> k \<le> length ls"
  by (auto simp: seek_context_def fits_def split: option.splits if_splits dest!: seek_SomeD(2))

text \<open>The found replacements come in order; the pure additions all stand at the end of the file.\<close>

lemma collect_found_chain:
  assumes "collect ls path li chs = Inr rs" "li \<le> length ls"
  shows "chain (length ls) li (filter (\<lambda>r. fst (snd r) \<noteq> 0) rs) \<and>
    (\<forall>(s, r, ins) \<in> set rs. (r = 0 \<longrightarrow> s = length ls) \<and> (r \<noteq> 0 \<longrightarrow> s < length ls))"
  using assms
proof (induction ls path li chs arbitrary: rs rule: collect.induct)
  case (2 ls path li ch chs)
  obtain k where k: "seek_context ls path ch li = Inr k"
    using "2.prems"(1) by (cases "seek_context ls path ch li") auto
  note kb = seek_context_advances [OF k "2.prems"(2)]
  have weaken: "chain n b xs \<Longrightarrow> a \<le> b \<Longrightarrow> chain n a xs" for n a b and xs :: "replacement list"
    by (cases xs) (auto)
  show ?case
  proof (cases "old_lines ch = []")
    case True
    with "2.prems"(1) k obtain rs' where rs': "collect ls path k chs = Inr rs'"
      "rs = (length ls, 0, new_lines ch) # rs'" by (auto simp: rbind_Inr_iff)
    from "2.IH"(1) [OF k True rs'(1)] kb rs'(2) show ?thesis by (auto intro: weaken)
  next
    case False
    with "2.prems"(1) k obtain f len new where l: "locate ls ch k = Some (f, len, new)"
      by (auto split: option.splits)
    from l False "2.prems"(1) k obtain rs' where rs': "collect ls path (f + len) chs = Inr rs'"
      "rs = (f, len, new) # rs'" by (auto simp: rbind_Inr_iff)
    note lb = locate_SomeD [OF l]
    from "2.IH"(2) [OF k False l refl refl rs'(1)] lb kb rs'(2) show ?thesis by auto
  qed
qed auto

lemma sort_key_two_levels:
  fixes f :: "'a \<Rightarrow> nat"
  assumes "sorted (map f (filter P xs))" "\<forall>x \<in> set xs. P x \<longrightarrow> f x < n" "\<forall>x \<in> set xs. \<not> P x \<longrightarrow> f x = n"
  shows "sort_key f xs = filter P xs @ filter (\<lambda>x. \<not> P x) xs"
  using assms
proof (induction xs)
  case (Cons x xs)
  then have IH: "sort_key f xs = filter P xs @ filter (\<lambda>x. \<not> P x) xs"
    by (auto split: if_splits)
  show ?case
  proof (cases "P x")
    case True
    with Cons.prems have "\<forall>y \<in> set (filter P xs @ filter (\<lambda>x. \<not> P x) xs). f x \<le> f y"
      by (auto simp: less_imp_le)
    with True IH show ?thesis by (simp add: insort_is_Cons)
  next
    case False
    have "insort_key f x (ys @ zs) = ys @ x # zs" if "\<forall>y \<in> set ys. f y < n" "\<forall>z \<in> set zs. f z = n" for ys zs
      using that False Cons.prems(3) by (induction ys) (auto simp: insort_is_Cons)
    with False IH Cons.prems show ?thesis by simp
  qed
qed simp

lemma chain_sorted: "chain n a rs \<Longrightarrow> sorted (map fst rs) \<and> (\<forall>r \<in> set rs. a \<le> fst r)"
  by (induction n a rs rule: chain.induct) fastforce+

lemma compute_chain:
  assumes "compute_replacements ls path chunks = Inr rs"
  shows "chain (length ls) 0 rs"
proof -
  obtain rs0 where c: "collect ls path 0 chunks = Inr rs0" and rs: "rs = sort_key fst rs0"
    using assms by (auto simp: compute_replacements_def rbind_Inr_iff)
  let ?P = "\<lambda>r :: replacement. fst (snd r) \<noteq> 0"
  have ch: "chain (length ls) 0 (filter ?P rs0)"
    and lv: "\<forall>(s, r, ins) \<in> set rs0. (r = 0 \<longrightarrow> s = length ls) \<and> (r \<noteq> 0 \<longrightarrow> s < length ls)"
    using collect_found_chain [OF c] by auto
  have split: "rs = filter ?P rs0 @ filter (\<lambda>r. \<not> ?P r) rs0"
    unfolding rs
  proof (rule sort_key_two_levels)
    show "sorted (map fst (filter ?P rs0))" using chain_sorted [OF ch] by blast
    show "\<forall>x \<in> set rs0. ?P x \<longrightarrow> fst x < length ls" using lv by auto
    show "\<forall>x \<in> set rs0. \<not> ?P x \<longrightarrow> fst x = length ls" using lv by auto
  qed
  have "\<forall>x \<in> set (filter (\<lambda>r. \<not> ?P r) rs0). fst x = length ls \<and> fst (snd x) = 0"
    using lv by auto
  then show ?thesis unfolding split by (rule chain_append_inserts [OF ch])
qed

section \<open>One pass instead of splicing\<close>

fun rewrite_lines :: "jstring list \<Rightarrow> nat \<Rightarrow> replacement list \<Rightarrow> jstring list" where
  \<comment> \<open>specification: copy up to the next replacement, emit its lines, skip what it removes\<close>
  "rewrite_lines ls a [] = drop a ls"
| "rewrite_lines ls a ((s, r, ins) # rs) = take (s - a) (drop a ls) @ ins @ rewrite_lines ls (s + r) rs"

lemma apply_reversed_Cons:
  "apply_reversed ls ((s, r, ins) # rs) = splice (apply_reversed ls rs) s r ins"
  by (simp add: apply_reversed_def)

lemma apply_reversed_rewrite:
  "chain (length ls) a rs \<Longrightarrow> apply_reversed ls rs = take a ls @ rewrite_lines ls a rs"
proof (induction rs arbitrary: a)
  case Nil
  then show ?case by (simp add: apply_reversed_def)
next
  case (Cons x rs)
  obtain s r ins where x: "x = (s, r, ins)" by (cases x) auto
  from Cons.prems x have as: "a \<le> s" and ch: "chain (length ls) (s + r) rs" by auto
  have b: "s + r \<le> length ls" using ch by (rule chain_bound)
  have "apply_reversed ls (x # rs) = splice (take (s + r) ls @ rewrite_lines ls (s + r) rs) s r ins"
    using Cons.IH [OF ch] by (simp add: x apply_reversed_Cons)
  also have "\<dots> = take s ls @ ins @ rewrite_lines ls (s + r) rs"
    using b by (simp add: splice_def min_def)
  also have "take s ls = take a ls @ take (s - a) (drop a ls)"
    using as by (metis le_add_diff_inverse take_add)
  finally show ?case by (simp add: x)
qed

lemma rewrite_lines_length:
  "chain (length ls) a rs \<Longrightarrow>
   length (rewrite_lines ls a rs) + sum_list (map (\<lambda>r. fst (snd r)) rs) =
     length ls - a + sum_list (map (\<lambda>r. length (snd (snd r))) rs)"
proof (induction rs arbitrary: a)
  case (Cons x rs)
  obtain s r ins where x: "x = (s, r, ins)" by (cases x) auto
  from Cons.prems x have "a \<le> s" "chain (length ls) (s + r) rs" by auto
  with Cons.IH [of "s + r"] chain_bound [of "length ls" "s + r" rs] x show ?case by simp
qed simp

section \<open>Properties\<close>

text \<open>Seeking is complete: it fails exactly when the pattern is empty or no offset from the start on
  matches under the most tolerant comparator, and an offset it returns lies in the file, not before
  the start, and matches under one of the comparators.\<close>

theorem seek_complete:
  "(seek ls pat start eof = None \<longleftrightarrow>
      pat = [] \<or> \<not> (\<exists>k. fits ls pat start k \<and> matches_at ls pat k cmp_normalized)) \<and>
   (\<forall>k. seek ls pat start eof = Some k \<longrightarrow>
      fits ls pat start k \<and> (\<exists>cmp \<in> set comparators. matches_at ls pat k cmp))"
proof (intro conjI allI impI)
  fix k assume "seek ls pat start eof = Some k"
  then show "fits ls pat start k" "\<exists>cmp \<in> set comparators. matches_at ls pat k cmp"
    by (rule seek_SomeD)+
qed (rule seek_None_iff)

lemma seek_complete_witness:
  "seek [lit ''a'', lit ''b ''] [lit ''b''] 0 False = Some 1 \<and> fits [lit ''a'', lit ''b ''] [lit ''b''] 0 1"
proof -
  have "seek [lit ''a'', lit ''b ''] [lit ''b''] 0 False = Some 1" by code_simp
  then show ?thesis using seek_complete [of "[lit ''a'', lit ''b '']" "[lit ''b'']" 0 False] by blast
qed

text \<open>C23. A successful computation of replacements yields them in file order, inside the file and without
  overlap, so that splicing them from the last to the first is one left-to-right rewrite of the
  file in which every line outside the replaced ranges is copied unchanged.\<close>

theorem replacements_rewrite_the_file:
  assumes "compute_replacements ls path chunks = Inr rs"
  shows "chain (length ls) 0 rs \<and> apply_reversed ls rs = rewrite_lines ls 0 rs \<and>
    length (apply_reversed ls rs) + sum_list (map (\<lambda>r. fst (snd r)) rs) =
      length ls + sum_list (map (\<lambda>r. length (snd (snd r))) rs)"
proof -
  have ch: "chain (length ls) 0 rs" using assms by (rule compute_chain)
  show ?thesis using ch apply_reversed_rewrite [OF ch] rewrite_lines_length [OF ch] by simp
qed

lemma replacements_rewrite_the_file_witness:
  "apply_reversed [lit ''a'', lit ''b'', lit ''c''] [(0, 1, [lit ''x'', lit ''y'']), (2, 1, []), (3, 0, [lit ''z''])] =
    [lit ''x'', lit ''y'', lit ''b'', lit ''z'']"
proof -
  let ?ls = "[lit ''a'', lit ''b'', lit ''c'']"
  let ?ch = "\<lambda>old n. \<lparr>old_lines = old, new_lines = n, change_context = None, end_of_file = False\<rparr>"
  have "compute_replacements ?ls [] [?ch [] [lit ''z''], ?ch [lit ''a''] [lit ''x'', lit ''y''], ?ch [lit ''c''] []] =
      Inr [(0, 1, [lit ''x'', lit ''y'']), (2, 1, []), (3, 0, [lit ''z''])]" by code_simp
  from replacements_rewrite_the_file [OF this] show ?thesis by simp
qed

text \<open>The result of \<open>derive\<close>: it carries a byte order mark exactly when the original or the new text
  begins with one, never keeps the mark in the contents, and the contents are the rewritten lines
  ended by a line feed.\<close>

theorem derive_result:
  assumes "derive path chunks original = Inr (content, bom)"
  shows "\<exists>rs. compute_replacements (strip_last_blank (lines_of (snd (split_bom original)))) path chunks = Inr rs \<and>
    (let out = end_with_blank (rewrite_lines (strip_last_blank (lines_of (snd (split_bom original)))) 0 rs) in
      (bom \<longleftrightarrow> fst (split_bom original) \<or> starts_with (unlines out) [BOM]) \<and>
      unlines out = (if starts_with (unlines out) [BOM] then BOM # content else content) \<and>
      last out = [])"
proof -
  let ?ls = "strip_last_blank (lines_of (snd (split_bom original)))"
  obtain rs where rs: "compute_replacements ?ls path chunks = Inr rs"
    using assms by (cases "compute_replacements ?ls path chunks") (auto simp: derive_def case_prod_beta Let_def)
  have d: "(content, bom) = (let (nbom, ntext) = split_bom (unlines (end_with_blank (apply_reversed ?ls rs)))
          in (ntext, fst (split_bom original) \<or> nbom))"
    using assms by (simp add: derive_def case_prod_beta Let_def rs)
  have eq: "apply_reversed ?ls rs = rewrite_lines ?ls 0 rs"
    using apply_reversed_rewrite [OF compute_chain [OF rs]] by simp
  have blank: "last (end_with_blank xs) = []" for xs by (simp add: end_with_blank_def)
  have sb: "split_bom t = (starts_with t [BOM], if starts_with t [BOM] then drop 1 t else t)" for t
    by (cases t) (auto simp: split_bom_def)
  let ?t = "unlines (end_with_blank (rewrite_lines ?ls 0 rs))"
  have dd: "bom = (fst (split_bom original) \<or> starts_with ?t [BOM])"
      "content = (if starts_with ?t [BOM] then drop 1 ?t else ?t)"
    using d unfolding eq sb [of ?t] by simp_all
  have "starts_with ?t [BOM] \<Longrightarrow> ?t = BOM # drop 1 ?t" by (cases ?t) auto
  with dd have "?t = (if starts_with ?t [BOM] then BOM # content else content)" by simp
  with dd(1) rs blank show ?thesis unfolding Let_def by blast
qed

lemma derive_result_witness:
  "\<exists>rs. compute_replacements [lit ''a'', lit ''b''] (lit ''f'')
      [\<lparr>old_lines = [lit ''b''], new_lines = [lit ''c''], change_context = None, end_of_file = True\<rparr>] = Inr rs \<and>
    rewrite_lines [lit ''a'', lit ''b''] 0 rs = [lit ''a'', lit ''c'']"
proof -
  let ?chs = "[\<lparr>old_lines = [lit ''b''], new_lines = [lit ''c''], change_context = None, end_of_file = True\<rparr>]"
  have d: "derive (lit ''f'') ?chs (BOM # lit ''a'' @ [LF] @ lit ''b'' @ [LF]) =
      Inr (lit ''a'' @ [LF] @ lit ''c'' @ [LF], True)" by code_simp
  have ls: "strip_last_blank (lines_of (snd (split_bom (BOM # lit ''a'' @ [LF] @ lit ''b'' @ [LF])))) =
      [lit ''a'', lit ''b'']" by code_simp
  have "compute_replacements [lit ''a'', lit ''b''] (lit ''f'') ?chs = Inr [(1, 1, [lit ''c''])]" by code_simp
  moreover have "rewrite_lines [lit ''a'', lit ''b''] 0 [(1, 1, [lit ''c''])] = [lit ''a'', lit ''c'']" by code_simp
  ultimately show ?thesis using derive_result [OF d] unfolding ls by blast
qed

end
