(* ===== verification/PatchV1.thy ===== *)
theory PatchV1 imports PatchDerive begin

text \<open>
  The patch module of the opencode package (packages/opencode/src/patch/index.ts): its lenient
  parser, its derivation of new contents, the detection of an \<open>apply_patch\<close> invocation and the
  application of hunks to files. Chunks and hunks have the shape of the core module's and share its
  types; a \<open>move_path\<close> may be the empty string here, which the code treats as absent. Files are a map
  from paths to contents; reading or removing a missing file fails, and an error leaves the files as
  the completed hunks made them.
\<close>

section \<open>Parsing\<close>

definition parse_patch_header :: "jstring list \<Rightarrow> nat \<Rightarrow> (jstring \<times> jstring option \<times> nat) option" where
  \<comment> \<open>\<open>{ filePath, movePath, nextIdx }\<close>, \<open>None\<close> for null\<close>
  "parse_patch_header ls i =
    (let line = ls ! i in
     if starts_with line ADD then
       let p = trim (drop (length ADD) line) in if p = [] then None else Some (p, None, Suc i)
     else if starts_with line DELETE then
       let p = trim (drop (length DELETE) line) in if p = [] then None else Some (p, None, Suc i)
     else if starts_with line UPDATE then
       let p = trim (drop (length UPDATE) line);
           (mv, next) = (if Suc i < length ls \<and> starts_with (ls ! Suc i) MOVE
             then (Some (trim (drop (length MOVE) (ls ! Suc i))), Suc (Suc i)) else (None, Suc i))
       in if p = [] then None else Some (p, mv, next)
     else None)"

function change_lines :: "jstring list \<Rightarrow> nat \<Rightarrow> jstring list \<Rightarrow> jstring list
    \<Rightarrow> jstring list \<times> jstring list \<times> bool \<times> nat" where
  \<comment> \<open>the inner loop of \<open>parseUpdateFileChunks\<close>\<close>
  "change_lines ls i old new =
    (if i < length ls \<and> \<not> starts_with (ls ! i) (lit ''@@'') \<and> \<not> starts_with (ls ! i) (lit ''***'') then
       let line = ls ! i in
       if line = lit ''*** End of File'' then (old, new, True, Suc i)
       else if starts_with line (lit '' '') then change_lines ls (Suc i) (old @ [drop 1 line]) (new @ [drop 1 line])
       else if starts_with line (lit ''-'') then change_lines ls (Suc i) (old @ [drop 1 line]) new
       else if starts_with line (lit ''+'') then change_lines ls (Suc i) old (new @ [drop 1 line])
       else change_lines ls (Suc i) old new
     else (old, new, False, i))"
  by pat_completeness auto
termination
  by (relation "measure (\<lambda>(ls, i, c). length ls - i)") auto

declare change_lines.simps [simp del]

lemma change_lines_advances: "change_lines ls i old new = (a, b, e, n) \<Longrightarrow> i \<le> n"
proof (induction ls i old new rule: change_lines.induct)
  case (1 ls i old new)
  then show ?case
    by (force simp: change_lines.simps [of ls i old new] Let_def split: if_splits)
qed

function parse_update_file_chunks :: "jstring list \<Rightarrow> nat \<Rightarrow> chunk list \<Rightarrow> chunk list \<times> nat" where
  "parse_update_file_chunks ls i chunks =
    (if i < length ls \<and> \<not> starts_with (ls ! i) (lit ''***'') then
       if starts_with (ls ! i) (lit ''@@'') then
         let ctx = trim (drop 2 (ls ! i)) in
         (case change_lines ls (Suc i) [] [] of
            (old, new, eof, n) \<Rightarrow>
              parse_update_file_chunks ls n (chunks @
                [\<lparr>old_lines = old, new_lines = new, change_context = (if ctx = [] then None else Some ctx),
                  end_of_file = eof\<rparr>]))
       else parse_update_file_chunks ls (Suc i) chunks
     else (chunks, i))"
  by pat_completeness auto
termination
  by (relation "measure (\<lambda>(ls, i, c). length ls - i)") (auto dest!: change_lines_advances [OF sym])

function add_file_lines :: "jstring list \<Rightarrow> nat \<Rightarrow> jstring \<Rightarrow> jstring \<times> nat" where
  "add_file_lines ls i content =
    (if i < length ls \<and> \<not> starts_with (ls ! i) (lit ''***'') then
       add_file_lines ls (Suc i)
         (if starts_with (ls ! i) (lit ''+'') then content @ drop 1 (ls ! i) @ [LF] else content)
     else (content, i))"
  by pat_completeness auto
termination
  by (relation "measure (\<lambda>(ls, i, c). length ls - i)") auto

declare parse_update_file_chunks.simps [simp del] add_file_lines.simps [simp del]

definition parse_add_file_content :: "jstring list \<Rightarrow> nat \<Rightarrow> jstring \<times> nat" where
  "parse_add_file_content ls i =
    (case add_file_lines ls i [] of
       (content, n) \<Rightarrow> (if ends_with content [LF] then butlast content else content, n))"

lemma parse_update_file_chunks_advances: "parse_update_file_chunks ls i acc = (c, n) \<Longrightarrow> i \<le> n"
proof (induction ls i acc rule: parse_update_file_chunks.induct)
  case (1 ls i acc)
  obtain old new eof k where ch: "change_lines ls (Suc i) [] [] = (old, new, eof, k)"
    by (cases "change_lines ls (Suc i) [] []") auto
  show ?case
    using 1 ch change_lines_advances [OF ch]
    by (force simp: parse_update_file_chunks.simps [of ls i acc] Let_def split: if_splits)
qed

lemma add_file_lines_advances: "add_file_lines ls i acc = (c, n) \<Longrightarrow> i \<le> n"
proof (induction ls i acc rule: add_file_lines.induct)
  case (1 ls i acc)
  then show ?case by (force simp: add_file_lines.simps [of ls i acc] split: if_splits)
qed

definition parse_patch_step :: "jstring list \<Rightarrow> nat \<Rightarrow> hunk option \<times> nat" where
  \<comment> \<open>one turn of the loop of \<open>parsePatch\<close>: the hunk pushed, if any, and the next index\<close>
  "parse_patch_step ls i =
    (case parse_patch_header ls i of
       None \<Rightarrow> (None, Suc i)
     | Some (p, mv, n) \<Rightarrow>
         if starts_with (ls ! i) ADD then
           (case parse_add_file_content ls n of (content, n') \<Rightarrow> (Some (AddFile p content), n'))
         else if starts_with (ls ! i) DELETE then (Some (DeleteFile p), n)
         else if starts_with (ls ! i) UPDATE then
           (case parse_update_file_chunks ls n [] of (chunks, n') \<Rightarrow> (Some (UpdateFile p mv chunks), n'))
         else (None, Suc i))"

lemma parse_patch_step_advances: "parse_patch_step ls i = (h, n) \<Longrightarrow> i < n"
  by (auto simp: parse_patch_step_def parse_patch_header_def parse_add_file_content_def Let_def
      split: option.splits if_splits prod.splits
      dest!: parse_update_file_chunks_advances add_file_lines_advances)

function parse_patch_loop :: "jstring list \<Rightarrow> nat \<Rightarrow> nat \<Rightarrow> hunk list \<Rightarrow> hunk list" where
  "parse_patch_loop ls fin i hunks =
    (if i < fin then
       (case parse_patch_step ls i of
          (None, n) \<Rightarrow> parse_patch_loop ls fin n hunks
        | (Some h, n) \<Rightarrow> parse_patch_loop ls fin n (hunks @ [h]))
     else hunks)"
  by pat_completeness auto
termination
  by (relation "measure (\<lambda>(ls, fin, i, h). fin - i)") (auto dest!: parse_patch_step_advances [OF sym])

declare parse_patch_loop.simps [simp del]

datatype v1_error =
    InvalidPatchFormat
  | FailedContext jstring jstring
  | FailedLines jstring "jstring list"
  | NoFilesModified
  | IoError jstring
  | ImplicitInvocation
  | ReadForDeletion jstring
  | ReadForUpdate jstring

definition parse_patch :: "jstring \<Rightarrow> (v1_error, hunk list) result" where
  "parse_patch patchText =
    (let ls = lines_of (strip_heredoc (trim patchText)) in
     case (find_index (\<lambda>l. trim l = BEGIN) ls, find_index (\<lambda>l. trim l = END) ls) of
       (Some b, Some e) \<Rightarrow> if b \<ge> e then Inl InvalidPatchFormat else Inr (parse_patch_loop ls e (Suc b) [])
     | _ \<Rightarrow> Inl InvalidPatchFormat)"

section \<open>Recognising an invocation\<close>

record apply_args =
  arg_patch :: jstring
  arg_hunks :: "hunk list"

datatype maybe_apply = Body apply_args | PatchParseError v1_error | NotApplyPatch

fun unanchored_body :: "jstring \<Rightarrow> jstring \<Rightarrow> nat list \<Rightarrow> jstring option" where
  \<comment> \<open>\<open>\s*\n([\s\S]*?)\n\1\<close>, with no anchor behind it\<close>
  "unanchored_body tag s [] = None"
| "unanchored_body tag s (i # is) =
    (if s ! i = LF then
       (case index_of (drop (Suc i) s) (LF # tag) of
          Some k \<Rightarrow> Some (take k (drop (Suc i) s))
        | None \<Rightarrow> unanchored_body tag s is)
     else unanchored_body tag s is)"

definition is_quote :: "nat \<Rightarrow> bool" where
  "is_quote c \<longleftrightarrow> c = 39 \<or> c = 34"

definition quoted_heredoc :: "jstring \<Rightarrow> jstring option" where
  \<comment> \<open>\<open>\s*<<['"](\w+)['"]\s*\n...\<close> right after the command name; both quotes are required\<close>
  "quoted_heredoc s =
    (let s1 = dropWhile is_ws s in
     if starts_with s1 (lit ''<<'') then
       (case drop 2 s1 of
          [] \<Rightarrow> None
        | q # s2 \<Rightarrow>
            (let tag = takeWhile is_word s2 in
             if \<not> is_quote q \<or> tag = [] then None
             else case drop (length tag) s2 of
                    [] \<Rightarrow> None
                  | q2 # s3 \<Rightarrow>
                      if is_quote q2 then unanchored_body tag s3 (rev [0..<length (takeWhile is_ws s3)])
                      else None))
     else None)"

fun script_heredoc :: "jstring \<Rightarrow> jstring option" where
  \<comment> \<open>\<open>script.match(...)\<close>: the leftmost occurrence of \<open>apply_patch\<close> the rest matches at\<close>
  "script_heredoc [] = None"
| "script_heredoc (c # s) =
    (if starts_with (c # s) (lit ''apply_patch'') then
       (case quoted_heredoc (drop 10 s) of Some b \<Rightarrow> Some b | None \<Rightarrow> script_heredoc s)
     else script_heredoc s)"

definition body_of :: "jstring \<Rightarrow> maybe_apply" where
  \<comment> \<open>the try/catch both forms share\<close>
  "body_of patch =
    (case parse_patch patch of
       Inr hunks \<Rightarrow> Body \<lparr>arg_patch = patch, arg_hunks = hunks\<rparr>
     | Inl e \<Rightarrow> PatchParseError e)"

definition maybe_parse_apply_patch :: "jstring list \<Rightarrow> maybe_apply" where
  "maybe_parse_apply_patch argv =
    (if length argv = 2 \<and> argv ! 0 \<in> {lit ''apply_patch'', lit ''applypatch''} then body_of (argv ! 1)
     else if length argv = 3 \<and> argv ! 0 = lit ''bash'' \<and> argv ! 1 = lit ''-lc'' then
       (case script_heredoc (argv ! 2) of
          Some patch \<Rightarrow> body_of patch
        | None \<Rightarrow> NotApplyPatch)
     else NotApplyPatch)"

section \<open>Deriving new contents\<close>

definition seek_sequence :: "jstring list \<Rightarrow> jstring list \<Rightarrow> nat \<Rightarrow> bool \<Rightarrow> nat option" where
  "seek_sequence ls pat start eof =
    (if pat = [] then None
     else case try_match ls pat start cmp_exact eof of
       Some k \<Rightarrow> Some k
     | None \<Rightarrow> (case try_match ls pat start cmp_rstrip eof of
         Some k \<Rightarrow> Some k
       | None \<Rightarrow> (case try_match ls pat start cmp_trim eof of
           Some k \<Rightarrow> Some k
         | None \<Rightarrow> try_match ls pat start cmp_normalized eof)))"

definition insertion_idx :: "jstring list \<Rightarrow> nat" where
  "insertion_idx ls = (if length ls > 0 \<and> ls ! (length ls - 1) = [] then length ls - 1 else length ls)"

fun v1_collect :: "jstring list \<Rightarrow> jstring \<Rightarrow> nat \<Rightarrow> chunk list \<Rightarrow> (v1_error, replacement list) result" where
  "v1_collect ls path lineIndex [] = Inr []"
| "v1_collect ls path lineIndex (ch # chs) =
    (case (case change_context ch of
             None \<Rightarrow> Inr lineIndex
           | Some c \<Rightarrow>
               if c = [] then Inr lineIndex
               else case seek_sequence ls [c] lineIndex False of
                      None \<Rightarrow> Inl (FailedContext c path)
                    | Some k \<Rightarrow> Inr (Suc k)) of
       Inl e \<Rightarrow> Inl e
     | Inr li \<Rightarrow>
         if old_lines ch = [] then
           rbind (v1_collect ls path li chs) (\<lambda>rs. Inr ((insertion_idx ls, 0, new_lines ch) # rs))
         else
           let first = seek_sequence ls (old_lines ch) li (end_of_file ch);
               retry = first = None \<and> old_lines ch \<noteq> [] \<and> last (old_lines ch) = [];
               pat = (if retry then butlast (old_lines ch) else old_lines ch);
               slice = (if retry then strip_last_blank (new_lines ch) else new_lines ch);
               found = (if retry then seek_sequence ls pat li (end_of_file ch) else first)
           in case found of
                None \<Rightarrow> Inl (FailedLines path (old_lines ch))
              | Some f \<Rightarrow>
                  rbind (v1_collect ls path (f + length pat) chs) (\<lambda>rs. Inr ((f, length pat, slice) # rs)))"

definition v1_compute_replacements :: "jstring list \<Rightarrow> jstring \<Rightarrow> chunk list \<Rightarrow> (v1_error, replacement list) result" where
  "v1_compute_replacements ls path chunks = rbind (v1_collect ls path 0 chunks) (\<lambda>rs. Inr (sort_key fst rs))"

fun insert_each :: "jstring list \<Rightarrow> nat \<Rightarrow> jstring list \<Rightarrow> jstring list" where
  \<comment> \<open>\<open>for j: result.splice(startIdx + j, 0, newSegment[j])\<close>\<close>
  "insert_each u pos [] = u"
| "insert_each u pos (x # xs) = insert_each (splice u pos 0 [x]) (Suc pos) xs"

definition apply_replacements :: "jstring list \<Rightarrow> replacement list \<Rightarrow> jstring list" where
  "apply_replacements ls rs =
    fold (\<lambda>(start, oldLen, seg) u. insert_each (splice u start oldLen []) start seg) (rev rs) ls"

fun diff_lines :: "jstring list \<Rightarrow> jstring list \<Rightarrow> nat list \<Rightarrow> jstring \<Rightarrow> bool \<Rightarrow> jstring \<times> bool" where
  \<comment> \<open>the loop of \<open>generateUnifiedDiff\<close> over the line numbers\<close>
  "diff_lines old new [] diff changed = (diff, changed)"
| "diff_lines old new (i # is) diff changed =
    (let o_line = get_at [] old i; n_line = get_at [] new i in
     if o_line \<noteq> n_line then
       diff_lines old new is
         (diff @ (if o_line \<noteq> [] then 45 # o_line @ [LF] else []) @ (if n_line \<noteq> [] then 43 # n_line @ [LF] else []))
         True
     else diff_lines old new is (diff @ (if o_line \<noteq> [] then 32 # o_line @ [LF] else [])) changed)"

definition generate_unified_diff :: "jstring \<Rightarrow> jstring \<Rightarrow> jstring" where
  "generate_unified_diff oldContent newContent =
    (let old = lines_of oldContent; new = lines_of newContent;
         (diff, changed) = diff_lines old new [0..<max (length old) (length new)] (lit ''@@ -1 +1 @@'' @ [LF]) False
     in if changed then diff else [])"

record file_update =
  unified_diff :: jstring
  content :: jstring
  bom :: bool

definition derive_new_contents :: "jstring \<Rightarrow> chunk list \<Rightarrow> jstring \<Rightarrow> (v1_error, file_update) result" where
  "derive_new_contents path chunks original =
    (let (obom, text) = split_bom original;
         ls = strip_last_blank (lines_of text)
     in rbind (v1_compute_replacements ls path chunks) (\<lambda>rs.
          let (nbom, ntext) = split_bom (unlines (end_with_blank (apply_replacements ls rs)))
          in Inr \<lparr>unified_diff = generate_unified_diff text ntext, content = ntext, bom = obom \<or> nbom\<rparr>))"

section \<open>Applying hunks to files\<close>

type_synonym files = "jstring \<rightharpoonup> jstring"

record affected =
  added :: "jstring list"
  modified :: "jstring list"
  deleted :: "jstring list"

definition truthy :: "jstring option \<Rightarrow> bool" where
  "truthy p \<longleftrightarrow> (case p of None \<Rightarrow> False | Some q \<Rightarrow> q \<noteq> [])"

definition apply_hunk :: "hunk \<Rightarrow> files \<times> affected \<Rightarrow> (v1_error, unit) result \<times> files \<times> affected" where
  \<comment> \<open>one hunk; on an error the files changed so far stay changed\<close>
  "apply_hunk h st =
    (case st of (fs, acc) \<Rightarrow>
      (case h of
         AddFile p c \<Rightarrow> (Inr (), fs(p \<mapsto> c), acc\<lparr>added := added acc @ [p]\<rparr>)
       | DeleteFile p \<Rightarrow>
           (case fs p of
              None \<Rightarrow> (Inl (IoError p), fs, acc)
            | Some _ \<Rightarrow> (Inr (), fs(p := None), acc\<lparr>deleted := deleted acc @ [p]\<rparr>))
       | UpdateFile p mv chunks \<Rightarrow>
           (case fs p of
              None \<Rightarrow> (Inl (IoError p), fs, acc)
            | Some original \<Rightarrow>
                (case derive_new_contents p chunks original of
                   Inl e \<Rightarrow> (Inl e, fs, acc)
                 | Inr u \<Rightarrow>
                     (let out = join_bom (content u) (bom u) in
                      if truthy mv then
                        (let fs1 = fs(the mv \<mapsto> out) in
                         (Inr (), fs1(p := None), acc\<lparr>modified := modified acc @ [the mv]\<rparr>))
                      else (Inr (), fs(p \<mapsto> out), acc\<lparr>modified := modified acc @ [p]\<rparr>))))))"

fun apply_hunk_list :: "hunk list \<Rightarrow> files \<times> affected \<Rightarrow> (v1_error, affected) result \<times> files" where
  "apply_hunk_list [] st = (Inr (snd st), fst st)"
| "apply_hunk_list (h # hs) st =
    (case apply_hunk h st of
       (Inl e, fs, acc) \<Rightarrow> (Inl e, fs)
     | (Inr _, st') \<Rightarrow> apply_hunk_list hs st')"

definition apply_hunks_to_files :: "hunk list \<Rightarrow> files \<Rightarrow> (v1_error, affected) result \<times> files" where
  "apply_hunks_to_files hs fs =
    (if hs = [] then (Inl NoFilesModified, fs)
     else apply_hunk_list hs (fs, \<lparr>added = [], modified = [], deleted = []\<rparr>))"

definition apply_patch :: "jstring \<Rightarrow> files \<Rightarrow> (v1_error, affected) result \<times> files" where
  "apply_patch patchText fs =
    (case parse_patch patchText of
       Inl e \<Rightarrow> (Inl e, fs)
     | Inr hunks \<Rightarrow> apply_hunks_to_files hunks fs)"

section \<open>The verified parse\<close>

datatype file_change =
    Added jstring
  | Deleted jstring
  | Updated jstring "jstring option" jstring \<comment> \<open>diff, move target, new content\<close>

record patch_action =
  changes :: "(jstring, file_change) jsmap"
  act_patch :: jstring
  act_cwd :: jstring

datatype verified = VBody patch_action | CorrectnessError v1_error | VNotApplyPatch

fun plan_changes :: "(jstring \<Rightarrow> jstring \<Rightarrow> jstring) \<Rightarrow> jstring \<Rightarrow> files \<Rightarrow> hunk list
    \<Rightarrow> (jstring, file_change) jsmap \<Rightarrow> (v1_error, (jstring, file_change) jsmap) result" where
  \<comment> \<open>\<open>resolve\<close> is \<open>path.resolve\<close>\<close>
  "plan_changes resolve cwd fs [] chs = Inr chs"
| "plan_changes resolve cwd fs (AddFile p c # hs) chs =
    plan_changes resolve cwd fs hs (map_set chs (resolve cwd p) (Added c))"
| "plan_changes resolve cwd fs (DeleteFile p # hs) chs =
    (case fs (resolve cwd p) of
       None \<Rightarrow> Inl (ReadForDeletion (resolve cwd p))
     | Some c \<Rightarrow> plan_changes resolve cwd fs hs (map_set chs (resolve cwd p) (Deleted c)))"
| "plan_changes resolve cwd fs (UpdateFile p mv chunks # hs) chs =
    (case fs (resolve cwd p) of
       None \<Rightarrow> Inl (ReadForUpdate (resolve cwd p))
     | Some original \<Rightarrow>
         (case derive_new_contents (resolve cwd p) chunks original of
            Inl e \<Rightarrow> Inl e
          | Inr u \<Rightarrow>
              plan_changes resolve cwd fs hs
                (map_set chs (resolve cwd (if truthy mv then the mv else p))
                  (Updated (unified_diff u) (if truthy mv then Some (resolve cwd (the mv)) else None) (content u)))))"

definition maybe_parse_apply_patch_verified ::
  "(jstring \<Rightarrow> jstring \<Rightarrow> jstring) \<Rightarrow> jstring list \<Rightarrow> jstring \<Rightarrow> files \<Rightarrow> verified" where
  "maybe_parse_apply_patch_verified resolve argv cwd fs =
    (if length argv = 1 \<and> (\<exists>hs. parse_patch (argv ! 0) = Inr hs) then CorrectnessError ImplicitInvocation
     else case maybe_parse_apply_patch argv of
       Body args \<Rightarrow>
         (case plan_changes resolve cwd fs (arg_hunks args) [] of
            Inl e \<Rightarrow> CorrectnessError e
          | Inr chs \<Rightarrow> VBody \<lparr>changes = chs, act_patch = arg_patch args, act_cwd = cwd\<rparr>)
     | PatchParseError e \<Rightarrow> CorrectnessError e
     | NotApplyPatch \<Rightarrow> VNotApplyPatch)"

end
