(* ===== verification/PatchAgree.thy ===== *)
theory PatchAgree imports PatchV1 begin

text \<open>
  The two patch modules side by side. They derive the same contents from the same chunks as long as
  the file does not keep a blank last line; where it does, the older module's insertion point for a
  pure addition lies inside the range another chunk may replace. The older parser never anchors a
  chunk to the end of the file. What applying hunks touches is stated at the end.
\<close>

section \<open>The end-of-file marker\<close>

lemma change_lines_never_eof: "change_lines ls i old new = (a, b, e, n) \<Longrightarrow> \<not> e"
proof (induction ls i old new rule: change_lines.induct)
  case (1 ls i old new)
  show ?case
  proof (cases "i < length ls \<and> \<not> starts_with (ls ! i) (lit ''@@'') \<and> \<not> starts_with (ls ! i) (lit ''***'')")
    case True
    have ne: "ls ! i \<noteq> lit ''*** End of File''"
    proof
      assume "ls ! i = lit ''*** End of File''"
      moreover have "starts_with (lit ''*** End of File'') (lit ''***'')" by code_simp
      ultimately show False using True by simp
    qed
    show ?thesis
      using 1 True ne by (auto simp: change_lines.simps [of ls i old new] Let_def split: if_splits)
  next
    case False
    then show ?thesis using "1.prems" by (simp only: change_lines.simps [of ls i old new] if_False prod.inject) simp
  qed
qed

lemma parse_update_file_chunks_never_eof:
  "parse_update_file_chunks ls i acc = (chs, n) \<Longrightarrow> \<forall>c \<in> set acc. \<not> end_of_file c \<Longrightarrow>
   \<forall>c \<in> set chs. \<not> end_of_file c"
proof (induction ls i acc rule: parse_update_file_chunks.induct)
  case (1 ls i acc)
  obtain old new eof k where ch: "change_lines ls (Suc i) [] [] = (old, new, eof, k)"
    by (cases "change_lines ls (Suc i) [] []") auto
  note ne = change_lines_never_eof [OF ch]
  consider (stop) "\<not> (i < length ls \<and> \<not> starts_with (ls ! i) (lit ''***''))"
    | (chunk) "i < length ls \<and> \<not> starts_with (ls ! i) (lit ''***'')" "starts_with (ls ! i) (lit ''@@'')"
    | (skip) "i < length ls \<and> \<not> starts_with (ls ! i) (lit ''***'')" "\<not> starts_with (ls ! i) (lit ''@@'')"
    by blast
  then show ?case
  proof cases
    case stop
    with 1 show ?thesis by (simp add: parse_update_file_chunks.simps [of ls i acc] split: if_splits)
  next
    case chunk
    show ?thesis
      by (rule "1.IH"(1) [OF chunk refl ch [symmetric] refl refl])
        (use chunk ch ne "1.prems" in \<open>simp_all add: parse_update_file_chunks.simps [of ls i acc] Let_def\<close>)
  next
    case skip
    show ?thesis
      by (rule "1.IH"(2) [OF skip])
        (use skip "1.prems" in \<open>simp_all add: parse_update_file_chunks.simps [of ls i acc]\<close>)
  qed
qed

definition no_anchor :: "hunk \<Rightarrow> bool" where
  "no_anchor h = (case h of UpdateFile p mv chs \<Rightarrow> (\<forall>c \<in> set chs. \<not> end_of_file c) | _ \<Rightarrow> True)"

lemma parse_patch_step_no_anchor: "parse_patch_step ls i = (Some h, n) \<Longrightarrow> no_anchor h"
  by (auto simp: parse_patch_step_def no_anchor_def split: option.splits if_splits prod.splits
      dest!: parse_update_file_chunks_never_eof)

lemma parse_patch_loop_no_anchor:
  "\<forall>h \<in> set hs. no_anchor h \<Longrightarrow> \<forall>h \<in> set (parse_patch_loop ls fin i hs). no_anchor h"
proof (induction ls fin i hs rule: parse_patch_loop.induct)
  case (1 ls fin i hs)
  obtain ho n where st: "parse_patch_step ls i = (ho, n)" by (cases "parse_patch_step ls i") auto
  show ?case
  proof (cases "i < fin")
    case True
    note IH1 = "1.IH"(1) [OF True st [symmetric]] and IH2 = "1.IH"(2) [OF True st [symmetric]]
    show ?thesis
    proof (cases ho)
      case None
      with IH1 "1.prems" st True show ?thesis by (simp add: parse_patch_loop.simps [of ls fin i hs])
    next
      case (Some h)
      with st have "no_anchor h" by (auto dest: parse_patch_step_no_anchor)
      with IH2 "1.prems" st True Some show ?thesis by (simp add: parse_patch_loop.simps [of ls fin i hs])
    qed
  next
    case False
    with "1.prems" show ?thesis by (simp add: parse_patch_loop.simps [of ls fin i hs])
  qed
qed

text \<open>The older parser never anchors a chunk to the end of the file: its inner loop stops at every
  line starting with three stars, so the branch for the end-of-file marker is not reached.\<close>

theorem eof_anchor_never_parsed:
  assumes "parse_patch t = Inr hs"
  shows "\<forall>h \<in> set hs. no_anchor h"
  using assms parse_patch_loop_no_anchor [of "[]"]
  by (auto simp: parse_patch_def Let_def split: option.splits if_splits)

lemma eof_anchor_never_parsed_witness:
  "\<exists>hs p ch. parse_patch (unlines [BEGIN, UPDATE @ lit '' f'', lit ''@@'', lit ''-a'', lit ''+b'', lit ''*** End of File'', END]) = Inr hs \<and>
    hs = [UpdateFile p None [ch]] \<and> \<not> end_of_file ch \<and>
    (\<exists>chs. parse (unlines [BEGIN, UPDATE @ lit '' f'', lit ''@@'', lit ''-a'', lit ''+b'', lit ''*** End of File'', END]) =
      Inr [UpdateFile p None [ch\<lparr>end_of_file := True\<rparr>]])"
proof -
  let ?t = "unlines [BEGIN, UPDATE @ lit '' f'', lit ''@@'', lit ''-a'', lit ''+b'', lit ''*** End of File'', END]"
  let ?ch = "\<lambda>e. \<lparr>old_lines = [lit ''a''], new_lines = [lit ''b''], change_context = None, end_of_file = e\<rparr>"
  have p: "parse_patch ?t = Inr [UpdateFile (lit ''f'') None [?ch False]]" by code_simp
  have q: "parse ?t = Inr [UpdateFile (lit ''f'') None [?ch True]]" by code_simp
  show ?thesis using eof_anchor_never_parsed [OF p] p q by (simp add: no_anchor_def)
qed

section \<open>The two derivations\<close>

lemma seek_sequence_eq: "seek_sequence = seek"
  by (intro ext) (simp add: seek_sequence_def seek_def comparators_def split: option.split)

lemma splice_splice_insert:
  "pos \<le> length u \<Longrightarrow> splice (splice u pos 0 [x]) (Suc pos) 0 xs = splice u pos 0 (x # xs)"
  by (simp add: splice_def)

lemma insert_each_eq: "pos \<le> length u \<Longrightarrow> insert_each u pos xs = splice u pos 0 xs"
proof (induction xs arbitrary: u pos)
  case Nil
  then show ?case by (simp add: splice_def)
next
  case (Cons x xs)
  have "Suc pos \<le> length (splice u pos 0 [x])" using Cons.prems by (simp add: splice_def)
  then show ?case using Cons by (simp add: splice_splice_insert)
qed

lemma apply_replacements_Cons:
  "apply_replacements ls ((s, r, ins) # rs) = insert_each (splice (apply_replacements ls rs) s r []) s ins"
  by (simp add: apply_replacements_def)

lemma apply_replacements_eq:
  "chain (length ls) a rs \<Longrightarrow> apply_replacements ls rs = apply_reversed ls rs"
proof (induction rs arbitrary: a)
  case Nil
  then show ?case by (simp add: apply_replacements_def apply_reversed_def)
next
  case (Cons x rs)
  obtain s r ins where x: "x = (s, r, ins)" by (cases x) auto
  from Cons.prems x have ch: "chain (length ls) (s + r) rs" by auto
  have len: "s \<le> length (apply_reversed ls rs)"
    using apply_reversed_rewrite [OF ch] chain_bound [OF ch] by simp
  with Cons.IH [OF ch] show ?case
    by (simp add: x apply_replacements_Cons apply_reversed_Cons insert_each_eq splice_def)
qed

fun v1_error_of :: "patch_error \<Rightarrow> v1_error" where
  "v1_error_of (ContextNotFound c p) = FailedContext c p"
| "v1_error_of (LinesNotFound p ls) = FailedLines p ls"
| "v1_error_of _ = InvalidPatchFormat"

definition map_error :: "('e \<Rightarrow> 'f) \<Rightarrow> ('e, 'a) result \<Rightarrow> ('f, 'a) result" where
  "map_error f r = (case r of Inl e \<Rightarrow> Inl (f e) | Inr a \<Rightarrow> Inr a)"

lemma map_error_simps [simp]: "map_error f (Inl e) = Inl (f e)" "map_error f (Inr a) = Inr a"
  by (simp_all add: map_error_def)

lemma map_error_rbind: "map_error f (rbind r g) = rbind (map_error f r) (\<lambda>a. map_error f (g a))"
  by (cases r) simp_all

lemma v1_collect_eq:
  assumes "insertion_idx ls = length ls"
  shows "v1_collect ls path li chs = map_error v1_error_of (collect ls path li chs)"
proof (induction chs arbitrary: li)
  case Nil
  then show ?case by simp
next
  case (Cons ch chs)
  have loc: "locate ls ch k =
    (let first = seek ls (old_lines ch) k (end_of_file ch);
           retry = first = None \<and> old_lines ch \<noteq> [] \<and> last (old_lines ch) = [];
           pat = (if retry then butlast (old_lines ch) else old_lines ch);
           slice = (if retry then strip_last_blank (new_lines ch) else new_lines ch);
           found = (if retry then seek ls pat k (end_of_file ch) else first)
       in map_option (\<lambda>f. (f, length pat, slice)) found)" for k
    by (simp add: locate_def Let_def split: option.split)
  have ctx: "(case change_context ch of
             None \<Rightarrow> Inr li
           | Some c \<Rightarrow>
               if c = [] then Inr li
               else case seek_sequence ls [c] li False of
                      None \<Rightarrow> Inl (FailedContext c path)
                    | Some k \<Rightarrow> Inr (Suc k)) = map_error v1_error_of (seek_context ls path ch li)"
    by (simp add: seek_context_def seek_sequence_eq split: option.split)
  show ?case
  proof (cases "seek_context ls path ch li")
    case (Inl e)
    then show ?thesis by (simp add: ctx)
  next
    case (Inr k)
    show ?thesis
    proof (cases "old_lines ch = []")
      case True
      then show ?thesis by (simp add: ctx Inr Cons.IH map_error_rbind assms)
    next
      case False
      then show ?thesis
        by (simp add: ctx Inr Cons.IH map_error_rbind loc seek_sequence_eq Let_def split: option.split)
    qed
  qed
qed

text \<open>When the file's last line, a final line feed aside, is not blank, the older module's
  derivation and the core module's give the same contents, the same byte order mark and the same
  error on the same chunks.\<close>

theorem derivations_agree:
  assumes "let ls = strip_last_blank (lines_of (snd (split_bom original))) in ls = [] \<or> last ls \<noteq> []"
  shows "rbind (derive_new_contents path chunks original) (\<lambda>u. Inr (content u, bom u)) =
    map_error v1_error_of (derive path chunks original)"
proof -
  let ?ls = "strip_last_blank (lines_of (snd (split_bom original)))"
  have ins: "insertion_idx ?ls = length ?ls"
    using assms by (auto simp: insertion_idx_def Let_def last_conv_nth)
  have comp: "v1_compute_replacements ?ls path chunks = map_error v1_error_of (compute_replacements ?ls path chunks)"
    by (simp add: v1_compute_replacements_def compute_replacements_def v1_collect_eq [OF ins] map_error_rbind)
  show ?thesis
  proof (cases "compute_replacements ?ls path chunks")
    case (Inl e)
    then show ?thesis by (simp add: derive_new_contents_def derive_def case_prod_beta Let_def comp)
  next
    case (Inr rs)
    with apply_replacements_eq [OF compute_chain [OF Inr]] comp show ?thesis
      by (simp add: derive_new_contents_def derive_def case_prod_beta Let_def)
  qed
qed

lemma derivations_agree_witness:
  "\<exists>u. derive_new_contents (lit ''f'') [\<lparr>old_lines = [lit ''a''], new_lines = [lit ''b''], change_context = None, end_of_file = False\<rparr>]
      (lit ''a'') = Inr u \<and> content u = lit ''b'' @ [LF]"
proof -
  let ?chs = "[\<lparr>old_lines = [lit ''a''], new_lines = [lit ''b''], change_context = None, end_of_file = False\<rparr>]"
  have d: "derive (lit ''f'') ?chs (lit ''a'') = Inr (lit ''b'' @ [LF], False)" by code_simp
  have h: "let ls = strip_last_blank (lines_of (snd (split_bom (lit ''a'')))) in ls = [] \<or> last ls \<noteq> []"
    by code_simp
  from derivations_agree [OF h, of "lit ''f''" ?chs] d show ?thesis
    by (cases "derive_new_contents (lit ''f'') ?chs (lit ''a'')") auto
qed

text \<open>With a blank last line the older module can lose lines: a pure addition is inserted before the
  blank line, inside the range a later chunk replaces, and vanishes; the core module keeps it.\<close>

theorem v1_loses_an_addition:
  "let chunks = [\<lparr>old_lines = [], new_lines = [lit ''X''], change_context = None, end_of_file = False\<rparr>,
                 \<lparr>old_lines = [lit ''a'', []], new_lines = [lit ''b'', []], change_context = None, end_of_file = False\<rparr>];
       file = unlines [lit ''a'', [], []]
   in rbind (derive_new_contents (lit ''f'') chunks file) (\<lambda>u. Inr (content u)) = Inr (unlines [lit ''b'', [], []]) \<and>
      derive (lit ''f'') chunks file = Inr (unlines [lit ''b'', [], lit ''X'', []], False)"
  by code_simp

section \<open>Applying hunks\<close>

definition touched :: "hunk \<Rightarrow> jstring set" where
  "touched h = (case h of AddFile p c \<Rightarrow> {p} | DeleteFile p \<Rightarrow> {p}
     | UpdateFile p mv chs \<Rightarrow> insert p (if truthy mv then {the mv} else {}))"

definition reported :: "hunk list \<Rightarrow> affected" where
  \<comment> \<open>the paths a complete run reports, per kind and in order\<close>
  "reported hs = \<lparr>added = concat (map (\<lambda>h. case h of AddFile p c \<Rightarrow> [p] | _ \<Rightarrow> []) hs),
     modified = concat (map (\<lambda>h. case h of UpdateFile p mv chs \<Rightarrow> [if truthy mv then the mv else p] | _ \<Rightarrow> []) hs),
     deleted = concat (map (\<lambda>h. case h of DeleteFile p \<Rightarrow> [p] | _ \<Rightarrow> []) hs)\<rparr>"

lemma apply_hunk_frame: "apply_hunk h (fs, acc) = (r, fs', acc') \<Longrightarrow> q \<notin> touched h \<Longrightarrow> fs' q = fs q"
  by (auto simp: apply_hunk_def touched_def Let_def split: hunk.splits option.splits sum.splits if_splits)

lemma apply_hunk_failed: "apply_hunk h (fs, acc) = (Inl e, fs', acc') \<Longrightarrow> fs' = fs"
  by (auto simp: apply_hunk_def Let_def split: hunk.splits option.splits sum.splits if_splits)

lemma apply_hunk_reported:
  "apply_hunk h (fs, acc) = (Inr u, fs', acc') \<Longrightarrow>
   acc' = \<lparr>added = added acc @ added (reported [h]), modified = modified acc @ modified (reported [h]),
     deleted = deleted acc @ deleted (reported [h])\<rparr>"
  by (auto simp: apply_hunk_def reported_def Let_def split: hunk.splits option.splits sum.splits if_splits)

lemma apply_hunk_list_frame:
  "q \<notin> \<Union> (touched ` set hs) \<Longrightarrow> snd (apply_hunk_list hs (fs, acc)) q = fs q"
proof (induction hs arbitrary: fs acc)
  case (Cons h hs)
  obtain r fs' acc' where st: "apply_hunk h (fs, acc) = (r, fs', acc')" by (cases "apply_hunk h (fs, acc)") auto
  have q: "fs' q = fs q" using apply_hunk_frame [OF st] Cons.prems by auto
  then show ?case using Cons st by (cases r) auto
qed simp

lemma apply_hunk_list_reported:
  "apply_hunk_list hs (fs, acc) = (Inr a, fs') \<Longrightarrow>
   a = \<lparr>added = added acc @ added (reported hs), modified = modified acc @ modified (reported hs),
     deleted = deleted acc @ deleted (reported hs)\<rparr>"
proof (induction hs arbitrary: fs acc)
  case Nil
  then show ?case by (simp add: reported_def)
next
  case (Cons h hs)
  obtain r fs1 acc1 where st: "apply_hunk h (fs, acc) = (r, fs1, acc1)" by (cases "apply_hunk h (fs, acc)") auto
  then obtain u where r: "r = Inr u" using Cons.prems by (cases r) auto
  have rec: "apply_hunk_list hs (fs1, acc1) = (Inr a, fs')" using Cons.prems st r by simp
  show ?case using Cons.IH [OF rec] apply_hunk_reported [OF st [unfolded r]] by (simp add: reported_def)
qed

lemma apply_hunk_list_prefix:
  "apply_hunk_list hs (fs, acc) = (Inl e, fs') \<Longrightarrow>
   \<exists>done h rest a. hs = done @ h # rest \<and> apply_hunk_list done (fs, acc) = (Inr a, fs') \<and>
     (\<exists>acc'. apply_hunk h (fs', a) = (Inl e, fs', acc'))"
proof (induction hs arbitrary: fs acc)
  case (Cons h hs)
  obtain r fs1 acc1 where st: "apply_hunk h (fs, acc) = (r, fs1, acc1)" by (cases "apply_hunk h (fs, acc)") auto
  show ?case
  proof (cases r)
    case (Inl e')
    with st Cons.prems have "e' = e" "fs1 = fs'" by auto
    with st Inl apply_hunk_failed [of h fs acc e fs1 acc1] show ?thesis
      by (intro exI [of _ "[]"] exI [of _ h] exI [of _ hs] exI [of _ acc]) auto
  next
    case (Inr u)
    with st Cons.prems have "apply_hunk_list hs (fs1, acc1) = (Inl e, fs')" by simp
    from Cons.IH [OF this] obtain dn h' rest a where
      "hs = dn @ h' # rest" "apply_hunk_list dn (fs1, acc1) = (Inr a, fs')"
      "\<exists>acc'. apply_hunk h' (fs', a) = (Inl e, fs', acc')" by blast
    then show ?thesis using st Inr
      by (intro exI [of _ "h # dn"] exI [of _ h'] exI [of _ rest] exI [of _ a]) auto
  qed
qed simp

text \<open>Applying hunks: a path no hunk names keeps its contents, whatever the outcome; a run that
  returns reports exactly the paths of its hunks, per kind and in order; and a run that fails has
  applied exactly the hunks before the failing one, which changed nothing itself.\<close>

theorem apply_hunks_outcome:
  "(\<forall>q. q \<notin> \<Union> (touched ` set hs) \<longrightarrow> snd (apply_hunks_to_files hs fs) q = fs q) \<and>
   (case apply_hunks_to_files hs fs of
      (Inr a, fs') \<Rightarrow> hs \<noteq> [] \<and> a = reported hs
    | (Inl e, fs') \<Rightarrow> (hs = [] \<and> e = NoFilesModified \<and> fs' = fs) \<or>
        (\<exists>before h rest a acc'. hs = before @ h # rest \<and>
          apply_hunk_list before (fs, \<lparr>added = [], modified = [], deleted = []\<rparr>) = (Inr a, fs') \<and>
          apply_hunk h (fs', a) = (Inl e, fs', acc')))"
proof (cases "hs = []")
  case True
  then show ?thesis by (simp add: apply_hunks_to_files_def)
next
  case False
  let ?z = "\<lparr>added = [], modified = [], deleted = []\<rparr>"
  have e: "apply_hunks_to_files hs fs = apply_hunk_list hs (fs, ?z)" using False by (simp add: apply_hunks_to_files_def)
  obtain r fs' where run: "apply_hunk_list hs (fs, ?z) = (r, fs')" by (cases "apply_hunk_list hs (fs, ?z)") auto
  have fr: "\<forall>q. q \<notin> \<Union> (touched ` set hs) \<longrightarrow> fs' q = fs q"
    using apply_hunk_list_frame [of _ hs fs ?z] run by auto
  show ?thesis
  proof (cases r)
    case (Inl err)
    from apply_hunk_list_prefix [OF run [unfolded Inl]] fr e run Inl False show ?thesis by fastforce
  next
    case (Inr a)
    from apply_hunk_list_reported [OF run [unfolded Inr]] fr e run Inr False show ?thesis by simp
  qed
qed

lemma apply_hunks_outcome_witness:
  "snd (apply_hunks_to_files [AddFile (lit ''f'') (lit ''x''), DeleteFile (lit ''g'')] [lit ''k'' \<mapsto> lit ''v'']) (lit ''k'') = Some (lit ''v'')"
proof -
  have "lit ''k'' \<notin> \<Union> (touched ` set [AddFile (lit ''f'') (lit ''x''), DeleteFile (lit ''g'')])"
    by (simp add: touched_def lit_def)
  then show ?thesis
    using apply_hunks_outcome [of "[AddFile (lit ''f'') (lit ''x''), DeleteFile (lit ''g'')]" "[lit ''k'' \<mapsto> lit ''v'']"]
    by simp
qed

text \<open>Moving a file onto itself deletes it: the update writes the new contents under the move path
  and then removes the old path, without comparing the two.\<close>

theorem self_move_deletes:
  assumes "fs p = Some original" "p \<noteq> []" "derive_new_contents p chunks original = Inr u"
  shows "\<exists>acc. apply_hunk_list [UpdateFile p (Some p) chunks] (fs, acc0) = (Inr acc, fs(p := None)) \<and> p \<in> set (modified acc)"
  using assms by (simp add: apply_hunk_def truthy_def Let_def)

lemma self_move_deletes_witness:
  "\<exists>acc. apply_hunk_list [UpdateFile (lit ''f'') (Some (lit ''f''))
      [\<lparr>old_lines = [lit ''a''], new_lines = [lit ''b''], change_context = None, end_of_file = False\<rparr>]]
    ([lit ''f'' \<mapsto> lit ''a''], \<lparr>added = [], modified = [], deleted = []\<rparr>) = (Inr acc, [lit ''f'' \<mapsto> lit ''a''](lit ''f'' := None)) \<and>
    lit ''f'' \<in> set (modified acc)"
proof -
  let ?chs = "[\<lparr>old_lines = [lit ''a''], new_lines = [lit ''b''], change_context = None, end_of_file = False\<rparr>]"
  obtain u where u: "derive_new_contents (lit ''f'') ?chs (lit ''a'') = Inr u"
  proof -
    have "(case derive_new_contents (lit ''f'') ?chs (lit ''a'') of Inr u \<Rightarrow> True | Inl e \<Rightarrow> False)" by code_simp
    then show ?thesis using that by (auto split: sum.splits)
  qed
  show ?thesis by (rule self_move_deletes [OF _ _ u]) (simp_all add: lit_def)
qed

end
