(* ===== verification/PatchRoundtrip.thy ===== *)
theory PatchRoundtrip imports PatchDerive begin

text \<open>
  The patch language seen from the writer's side: a printer of hunks in the form the tool's
  description documents, and the proof that \<open>parse\<close> reads back what it prints. The printer is the
  specification; the code has none.
\<close>

section \<open>The printer\<close>

definition EOF_LINE :: jstring where "EOF_LINE = lit ''*** End of File''"

definition print_chunk :: "chunk \<Rightarrow> jstring list" where
  "print_chunk ch =
    (lit ''@@'' @ (case change_context ch of None \<Rightarrow> [] | Some c \<Rightarrow> 32 # c)) #
    map ((#) 45) (old_lines ch) @ map ((#) 43) (new_lines ch) @
    (if end_of_file ch then [EOF_LINE] else [])"

fun print_hunk :: "hunk \<Rightarrow> jstring list" where
  "print_hunk (AddFile p c) = (ADD @ 32 # p) # map ((#) 43) (lines_of c)"
| "print_hunk (DeleteFile p) = [DELETE @ 32 # p]"
| "print_hunk (UpdateFile p mv chs) =
    (UPDATE @ 32 # p) # (case mv of None \<Rightarrow> [] | Some q \<Rightarrow> [MOVE @ 32 # q]) @ concat (map print_chunk chs)"

definition print_patch :: "hunk list \<Rightarrow> jstring" where
  "print_patch hs = unlines (BEGIN # concat (map print_hunk hs) @ [END])"

definition wf_path :: "jstring \<Rightarrow> bool" where
  "wf_path p \<longleftrightarrow> p \<noteq> [] \<and> trim p = p \<and> LF \<notin> set p"

definition wf_chunk :: "chunk \<Rightarrow> bool" where
  "wf_chunk ch \<longleftrightarrow> list_all (\<lambda>l. LF \<notin> set l) (old_lines ch) \<and> list_all (\<lambda>l. LF \<notin> set l) (new_lines ch) \<and>
     (case change_context ch of None \<Rightarrow> True | Some c \<Rightarrow> wf_path c)"

fun wf_hunk :: "hunk \<Rightarrow> bool" where
  "wf_hunk (AddFile p c) = wf_path p"
| "wf_hunk (DeleteFile p) = wf_path p"
| "wf_hunk (UpdateFile p mv chs) =
    (wf_path p \<and> (case mv of None \<Rightarrow> True | Some q \<Rightarrow> wf_path q) \<and> chs \<noteq> [] \<and> list_all wf_chunk chs)"

section \<open>Reading the parts\<close>

lemma trim_space_path: "wf_path p \<Longrightarrow> trim (32 # p) = p"
  by (simp add: wf_path_def trim_def trim_start_def is_ws_def)

definition stops :: "jstring list \<Rightarrow> bool" where
  \<comment> \<open>what follows a hunk's lines: a line of the patch structure\<close>
  "stops rest \<longleftrightarrow> (\<exists>l t. rest = l # t \<and> starts_with l (lit ''***'') \<and> l \<noteq> EOF_LINE)"

lemma parse_add_printed:
  "stops rest \<Longrightarrow> parse_add (pre @ map ((#) 43) cs @ rest) (length pre) acc =
    Inr (unlines (acc @ cs), length pre + length cs)"
proof (induction cs arbitrary: pre acc)
  case Nil
  then show ?case by (subst parse_add.simps) (auto simp: stops_def)
next
  case (Cons c cs)
  have "parse_add ((pre @ [43 # c]) @ map ((#) 43) cs @ rest) (length (pre @ [43 # c])) (acc @ [c]) =
      Inr (unlines ((acc @ [c]) @ cs), length (pre @ [43 # c]) + length cs)"
    by (rule Cons.IH [OF Cons.prems])
  then show ?case by (subst parse_add.simps) (simp add: lit_def)
qed

lemma parse_chunk_new_printed:
  assumes "stops rest \<or> (\<exists>l t. rest = l # t \<and> starts_with l (lit ''@@''))"
  shows "parse_chunk (pre @ map ((#) 43) ns @ (if eof then [EOF_LINE] else []) @ rest) (length pre) old new =
    Inr (old, new @ ns, eof, length pre + length ns + (if eof then 1 else 0))"
proof (induction ns arbitrary: pre new)
  case Nil
  show ?case
  proof (cases eof)
    case True
    then show ?thesis by (subst parse_chunk.simps) (simp add: EOF_LINE_def lit_def)
  next
    case False
    with assms show ?thesis
      by (subst parse_chunk.simps) (auto simp: stops_def EOF_LINE_def Let_def starts_with_iff lit_def)
  qed
next
  case (Cons c ns)
  have "parse_chunk ((pre @ [43 # c]) @ map ((#) 43) ns @ (if eof then [EOF_LINE] else []) @ rest)
      (length (pre @ [43 # c])) old (new @ [c]) =
      Inr (old, (new @ [c]) @ ns, eof, length (pre @ [43 # c]) + length ns + (if eof then 1 else 0))"
    by (rule Cons.IH)
  then show ?case by (subst parse_chunk.simps) (simp add: lit_def)
qed

lemma parse_chunk_printed:
  assumes "stops rest \<or> (\<exists>l t. rest = l # t \<and> starts_with l (lit ''@@''))"
  shows "parse_chunk (pre @ map ((#) 45) os @ map ((#) 43) ns @ (if eof then [EOF_LINE] else []) @ rest)
      (length pre) old [] =
    Inr (old @ os, ns, eof, length pre + length os + length ns + (if eof then 1 else 0))"
proof (induction os arbitrary: pre old)
  case Nil
  then show ?case using parse_chunk_new_printed [OF assms] by simp
next
  case (Cons c os)
  have "parse_chunk ((pre @ [45 # c]) @ map ((#) 45) os @ map ((#) 43) ns @ (if eof then [EOF_LINE] else []) @ rest)
      (length (pre @ [45 # c])) (old @ [c]) [] =
      Inr ((old @ [c]) @ os, ns, eof, length (pre @ [45 # c]) + length os + length ns + (if eof then 1 else 0))"
    by (rule Cons.IH)
  then show ?case by (subst parse_chunk.simps) (simp add: lit_def)
qed

lemma print_chunk_hd: "\<exists>t. print_chunk ch = (lit ''@@'' @ (case change_context ch of None \<Rightarrow> [] | Some c \<Rightarrow> 32 # c)) # t"
  by (simp add: print_chunk_def)

lemma length_print_chunk:
  "length (print_chunk ch) = Suc (length (old_lines ch) + length (new_lines ch) + (if end_of_file ch then 1 else 0))"
  by (simp add: print_chunk_def)

lemma context_printed:
  "wf_chunk ch \<Longrightarrow>
   (let t = trim (case change_context ch of None \<Rightarrow> [] | Some c \<Rightarrow> 32 # c) in if t = [] then None else Some t) =
     change_context ch"
  by (auto simp: wf_chunk_def trim_space_path wf_path_def Let_def split: option.splits)

lemma parse_update_printed:
  assumes "stops rest" "list_all wf_chunk chs"
  shows "parse_update (pre @ concat (map print_chunk chs) @ rest) (length pre) acc =
    Inr (acc @ chs, length pre + length (concat (map print_chunk chs)))"
  using assms(2)
proof (induction chs arbitrary: pre acc)
  case Nil
  with assms(1) show ?case by (subst parse_update.simps) (auto simp: stops_def)
next
  case (Cons ch chs)
  let ?h = "lit ''@@'' @ (case change_context ch of None \<Rightarrow> [] | Some c \<Rightarrow> 32 # c)"
  let ?rest = "concat (map print_chunk chs) @ rest"
  have nxt: "stops ?rest \<or> (\<exists>l t. ?rest = l # t \<and> starts_with l (lit ''@@''))"
    using assms(1) by (cases chs) (auto simp: print_chunk_def)
  have chunk: "parse_chunk (pre @ print_chunk ch @ ?rest) (Suc (length pre)) [] [] =
      Inr (old_lines ch, new_lines ch, end_of_file ch, length (pre @ print_chunk ch))"
    using parse_chunk_printed [OF nxt, of "pre @ [?h]" "old_lines ch" "new_lines ch" "end_of_file ch" "[]"]
    by (simp add: print_chunk_def length_print_chunk)
  have at: "(pre @ print_chunk ch @ ?rest) ! length pre = ?h"
    by (simp add: print_chunk_def)
  have star: "\<not> starts_with ?h (lit ''***'')" "starts_with ?h (lit ''@@'')" "drop 2 ?h =
      (case change_context ch of None \<Rightarrow> [] | Some c \<Rightarrow> 32 # c)"
    by (simp_all add: lit_def)
  have built: "\<lparr>old_lines = old_lines ch, new_lines = new_lines ch,
      change_context = (if trim (drop 2 ?h) = [] then None else Some (trim (drop 2 ?h))),
      end_of_file = end_of_file ch\<rparr> = ch"
    using context_printed [of ch] Cons.prems unfolding star(3) by (simp add: Let_def)
  have "parse_update (pre @ print_chunk ch @ ?rest) (length pre) acc =
      parse_update (pre @ print_chunk ch @ ?rest) (length (pre @ print_chunk ch)) (acc @ [ch])"
    using built by (subst parse_update.simps) (simp only: at star chunk Let_def if_True if_False
        length_append not_False_eq_True simp_thms, simp add: length_print_chunk)
  also have "\<dots> = Inr ((acc @ [ch]) @ chs, length (pre @ print_chunk ch) + length (concat (map print_chunk chs)))"
    using Cons.IH [of "pre @ print_chunk ch" "acc @ [ch]"] Cons.prems by simp
  finally show ?case by simp
qed

lemma header_lits:
  "starts_with (ADD @ s) (lit ''***'')" "starts_with (DELETE @ s) (lit ''***'')"
  "starts_with (UPDATE @ s) (lit ''***'')" "starts_with (MOVE @ s) (lit ''***'')"
  "\<not> starts_with (DELETE @ s) ADD" "\<not> starts_with (UPDATE @ s) ADD" "\<not> starts_with (UPDATE @ s) DELETE"
  "ADD @ s \<noteq> EOF_LINE" "DELETE @ s \<noteq> EOF_LINE" "UPDATE @ s \<noteq> EOF_LINE" "MOVE @ s \<noteq> EOF_LINE"
  "\<not> starts_with (ADD @ s) MOVE" "\<not> starts_with (DELETE @ s) MOVE" "\<not> starts_with (UPDATE @ s) MOVE"
  by (simp_all add: ADD_def DELETE_def UPDATE_def MOVE_def EOF_LINE_def lit_def)

lemma stops_print_hunk: "stops (print_hunk h @ rest)"
  by (cases h) (auto simp: stops_def header_lits)

lemma print_chunk_not_move: "chs \<noteq> [] \<Longrightarrow> \<not> starts_with ((concat (map print_chunk chs) @ rest) ! 0) MOVE"
  by (cases chs) (auto simp: print_chunk_def MOVE_def lit_def)

lemma parse_move_printed:
  assumes "case mv of None \<Rightarrow> True | Some q \<Rightarrow> wf_path q" "chs \<noteq> []"
  shows "parse_move (pre @ (case mv of None \<Rightarrow> [] | Some q \<Rightarrow> [MOVE @ 32 # q]) @ concat (map print_chunk chs) @ rest)
      (length pre) = Inr (mv, length pre + (case mv of None \<Rightarrow> 0 | Some q \<Rightarrow> 1))"
proof (cases mv)
  case None
  have "(pre @ concat (map print_chunk chs) @ rest) ! length pre = (concat (map print_chunk chs) @ rest) ! 0"
    by (simp add: nth_append)
  with None show ?thesis using print_chunk_not_move [OF assms(2)] by (simp add: parse_move_def)
next
  case (Some q)
  with assms(1) show ?thesis by (auto simp: parse_move_def Let_def trim_space_path wf_path_def)
qed

lemma parse_hunk_printed:
  assumes "wf_hunk h" "stops rest"
  shows "parse_hunk (pre @ print_hunk h @ rest) (length pre) = Inr (h, length pre + length (print_hunk h))"
proof (cases h)
  case (AddFile p c)
  have "parse_add ((pre @ [ADD @ 32 # p]) @ map ((#) 43) (lines_of c) @ rest) (length (pre @ [ADD @ 32 # p])) [] =
      Inr (unlines ([] @ lines_of c), length (pre @ [ADD @ 32 # p]) + length (lines_of c))"
    by (rule parse_add_printed [OF assms(2)])
  with AddFile assms(1) show ?thesis by (simp add: parse_hunk_def Let_def trim_space_path wf_path_def)
next
  case (DeleteFile p)
  with assms(1) show ?thesis by (simp add: parse_hunk_def Let_def trim_space_path wf_path_def header_lits)
next
  case (UpdateFile p mv chs)
  let ?u = "UPDATE @ 32 # p" and ?mv = "case mv of None \<Rightarrow> [] | Some q \<Rightarrow> [MOVE @ 32 # q]"
  let ?cs = "concat (map print_chunk chs)"
  have wf: "wf_path p" "case mv of None \<Rightarrow> True | Some q \<Rightarrow> wf_path q" "chs \<noteq> []" "list_all wf_chunk chs"
    using assms(1) UpdateFile by auto
  have mv: "parse_move (pre @ ?u # ?mv @ ?cs @ rest) (Suc (length pre)) =
      Inr (mv, length (pre @ ?u # ?mv))"
    using parse_move_printed [OF wf(2,3), of "pre @ [?u]" rest] by (simp split: option.splits)
  have up: "parse_update (pre @ ?u # ?mv @ ?cs @ rest) (length (pre @ ?u # ?mv)) [] =
      Inr (chs, length (pre @ ?u # ?mv) + length ?cs)"
    using parse_update_printed [OF assms(2) wf(4), of "pre @ ?u # ?mv" "[]"] by simp
  have line: "(pre @ ?u # ?mv @ ?cs @ rest) ! length pre = ?u" by simp
  have "trim (drop (length UPDATE) ?u) = p" using trim_space_path [OF wf(1)] by simp
  moreover have "p \<noteq> []" using wf(1) by (simp add: wf_path_def)
  ultimately have "parse_hunk (pre @ ?u # ?mv @ ?cs @ rest) (length pre) =
      Inr (UpdateFile p mv chs, length (pre @ ?u # ?mv) + length ?cs)"
    using wf(3) by (simp only: parse_hunk_def Let_def line header_lits if_False mv up rbind.simps prod.case
        if_True starts_with_append)
  with UpdateFile show ?thesis by simp
qed

lemma parse_loop_printed:
  assumes "list_all wf_hunk hs"
  shows "parse_loop (pre @ concat (map print_hunk hs) @ [END])
      (length pre + length (concat (map print_hunk hs))) (length pre) acc = Inr (acc @ hs)"
  using assms
proof (induction hs arbitrary: pre acc)
  case Nil
  then show ?case by (subst parse_loop.simps) simp
next
  case (Cons h hs)
  let ?rest = "concat (map print_hunk hs) @ [END]"
  have stop: "stops ?rest"
  proof (cases hs)
    case Nil
    then show ?thesis by (simp add: stops_def END_def EOF_LINE_def lit_def)
  next
    case (Cons a l)
    then show ?thesis using stops_print_hunk [of a "concat (map print_hunk l) @ [END]"] by simp
  qed
  have "print_hunk h \<noteq> []" by (cases h) auto
  then have "length (print_hunk h) > 0" by simp
  moreover have "parse_hunk (pre @ print_hunk h @ ?rest) (length pre) = Inr (h, length pre + length (print_hunk h))"
    using Cons.prems stop by (intro parse_hunk_printed) auto
  moreover have "parse_loop ((pre @ print_hunk h) @ ?rest)
      (length (pre @ print_hunk h) + length (concat (map print_hunk hs))) (length (pre @ print_hunk h)) (acc @ [h]) =
      Inr ((acc @ [h]) @ hs)"
    using Cons.prems by (intro Cons.IH) auto
  ultimately show ?case by (subst parse_loop.simps) (simp add: add.assoc)
qed

section \<open>The markers and the text\<close>

lemma trim_keeps_hd:
  assumes "\<not> is_ws c"
  shows "trim (c # s) = c # trim_end s"
  using assms by (simp add: trim_def trim_start_def trim_end_Cons)

lemma trim_header: "wf_path p \<Longrightarrow> \<not> is_ws (hd h) \<Longrightarrow> h \<noteq> [] \<Longrightarrow> trim (h @ 32 # p) = h @ 32 # p"
proof -
  assume p: "wf_path p" and h: "\<not> is_ws (hd h)" "h \<noteq> []"
  then have "\<not> is_ws (last p)" using last_trim [of p] by (auto simp: wf_path_def)
  with p h show ?thesis by (intro trim_same) (auto simp: wf_path_def)
qed

lemma header_not_marker:
  assumes "wf_path p"
  shows "trim (ADD @ 32 # p) \<noteq> END" "trim (DELETE @ 32 # p) \<noteq> END" "trim (UPDATE @ 32 # p) \<noteq> END"
    "trim (MOVE @ 32 # p) \<noteq> END"
proof -
  have "\<not> is_ws (hd ADD)" "\<not> is_ws (hd DELETE)" "\<not> is_ws (hd UPDATE)" "\<not> is_ws (hd MOVE)"
    and "ADD \<noteq> []" "DELETE \<noteq> []" "UPDATE \<noteq> []" "MOVE \<noteq> []"
    by (simp_all add: ADD_def DELETE_def UPDATE_def MOVE_def lit_def is_ws_def)
  moreover have "ADD @ 32 # p \<noteq> END" "DELETE @ 32 # p \<noteq> END" "UPDATE @ 32 # p \<noteq> END" "MOVE @ 32 # p \<noteq> END"
    by (simp_all add: ADD_def DELETE_def UPDATE_def MOVE_def END_def lit_def)
  ultimately show "trim (ADD @ 32 # p) \<noteq> END" "trim (DELETE @ 32 # p) \<noteq> END" "trim (UPDATE @ 32 # p) \<noteq> END"
    "trim (MOVE @ 32 # p) \<noteq> END"
    by (simp_all only: trim_header [OF assms] simp_thms)
qed

lemma line_not_end: "trim (43 # s) \<noteq> END" "trim (45 # s) \<noteq> END" "trim (lit ''@@'' @ s) \<noteq> END" "trim EOF_LINE \<noteq> END"
proof -
  show "trim EOF_LINE \<noteq> END" by code_simp
qed (simp_all add: trim_keeps_hd is_ws_def lit_def END_def)

lemma chunk_line_not_end: "l \<in> set (print_chunk ch) \<Longrightarrow> trim l \<noteq> END"
  by (auto simp: print_chunk_def line_not_end split: if_splits)

lemma hunk_line_not_end: "wf_hunk h \<Longrightarrow> l \<in> set (print_hunk h) \<Longrightarrow> trim l \<noteq> END"
  by (cases h) (auto simp: header_not_marker line_not_end dest: chunk_line_not_end split: option.splits)

lemma header_no_LF: "LF \<notin> set ADD" "LF \<notin> set DELETE" "LF \<notin> set UPDATE" "LF \<notin> set MOVE" "LF \<notin> set BEGIN"
  "LF \<notin> set END" "LF \<notin> set EOF_LINE" "LF \<notin> set (lit ''@@'')" "LF \<noteq> 32" "LF \<noteq> 43" "LF \<noteq> 45"
  by (simp_all add: ADD_def DELETE_def UPDATE_def MOVE_def BEGIN_def END_def EOF_LINE_def lit_def LF_def)

lemma chunk_no_LF: "wf_chunk ch \<Longrightarrow> l \<in> set (print_chunk ch) \<Longrightarrow> LF \<notin> set l"
  by (auto simp: wf_chunk_def print_chunk_def header_no_LF wf_path_def list_all_iff split: option.splits if_splits)

lemma hunk_no_LF: "wf_hunk h \<Longrightarrow> l \<in> set (print_hunk h) \<Longrightarrow> LF \<notin> set l"
  by (cases h) (auto simp: header_no_LF wf_path_def list_all_iff dest: split_on_no_sep chunk_no_LF split: option.splits)

lemma print_patch_lines:
  "list_all wf_hunk hs \<Longrightarrow> lines_of (print_patch hs) = BEGIN # concat (map print_hunk hs) @ [END]"
  unfolding print_patch_def
  by (rule split_join) (auto simp: header_no_LF list_all_iff dest: hunk_no_LF)

lemma print_patch_ends:
  "\<exists>s. print_patch hs = BEGIN @ LF # s \<and> (\<exists>t. print_patch hs = t @ END)"
proof -
  let ?ls = "concat (map print_hunk hs)"
  have "print_patch hs = BEGIN @ [LF] @ unlines (?ls @ [END])"
    unfolding print_patch_def by (rule join_with_Cons) simp
  moreover have "print_patch hs = unlines (BEGIN # ?ls) @ [LF] @ END"
    using join_with_append [of "BEGIN # ?ls" "[END]" "[LF]"] by (simp add: print_patch_def)
  ultimately show ?thesis by (metis append.assoc append_Cons append_Nil)
qed

lemma print_patch_plain: "trim (print_patch hs) = print_patch hs" "strip_heredoc (print_patch hs) = print_patch hs"
proof -
  obtain s t where s: "print_patch hs = BEGIN @ LF # s" and t: "print_patch hs = t @ END"
    using print_patch_ends by blast
  have "hd (print_patch hs) = 42" by (simp add: s BEGIN_def lit_def)
  moreover have "last (print_patch hs) = 104" by (simp add: t END_def lit_def)
  ultimately show "trim (print_patch hs) = print_patch hs" by (intro trim_same) (simp add: is_ws_def)
  show "strip_heredoc (print_patch hs) = print_patch hs"
    by (simp add: s strip_heredoc_def heredoc_def drop_cat_def Let_def BEGIN_def lit_def)
qed

section \<open>Property\<close>

text \<open>C21. Reading back a printed patch: for any list of hunks whose paths and lines the format can carry,
  \<open>parse\<close> of the printed text returns exactly those hunks, contexts, end-of-file anchors and moves
  included.\<close>

theorem parse_print_patch:
  assumes "list_all wf_hunk hs"
  shows "parse (print_patch hs) = Inr hs"
proof -
  let ?body = "concat (map print_hunk hs)"
  let ?ls = "BEGIN # ?body @ [END]"
  have b: "find_index (\<lambda>l. trim l = BEGIN) ?ls = Some 0"
    using trim_same [of BEGIN] by (simp add: BEGIN_def lit_def is_ws_def)
  have "trim BEGIN \<noteq> END" by code_simp
  moreover have "find_index (\<lambda>l. trim l = END) ?body = None"
    using assms by (auto simp: find_index_None_iff list_all_iff dest: hunk_line_not_end)
  moreover have "trim END = END" by code_simp
  ultimately have e: "find_index (\<lambda>l. trim l = END) ?ls = Some (Suc (length ?body))"
    by (simp add: find_index_append)
  have "parse_loop ([BEGIN] @ ?body @ [END]) (length [BEGIN] + length ?body) (length [BEGIN]) [] = Inr ([] @ hs)"
    by (rule parse_loop_printed [OF assms])
  then have "parse_loop ?ls (Suc (length ?body)) (Suc 0) [] = Inr hs" by simp
  then show ?thesis
    unfolding parse_def Let_def print_patch_plain print_patch_lines [OF assms] b e by simp
qed

lemma parse_print_patch_witness:
  "parse (print_patch [AddFile (lit ''a.ts'') (lit ''x'' @ [LF] @ lit ''y''),
     UpdateFile (lit ''b.ts'') (Some (lit ''c.ts''))
       [\<lparr>old_lines = [lit ''p''], new_lines = [lit ''q'', []], change_context = Some (lit ''fn f''), end_of_file = True\<rparr>],
     DeleteFile (lit ''d.ts'')]) =
   Inr [AddFile (lit ''a.ts'') (lit ''x'' @ [LF] @ lit ''y''),
     UpdateFile (lit ''b.ts'') (Some (lit ''c.ts''))
       [\<lparr>old_lines = [lit ''p''], new_lines = [lit ''q'', []], change_context = Some (lit ''fn f''), end_of_file = True\<rparr>],
     DeleteFile (lit ''d.ts'')]"
  by (rule parse_print_patch) code_simp

end
