(* ===== verification/Wildcard.thy ===== *)
theory Wildcard imports JsText begin

text \<open>
  \<open>Wildcard.match\<close> (packages/core/src/util/wildcard.ts). The code rewrites the glob to a regular
  expression and runs it; here the rewriting yields the regular expression's atoms and \<open>re_match\<close>
  is what the engine decides for an expression of that shape, anchored at both ends and with the
  flag \<open>s\<close> (the dot matches every unit). The laws other components rely on are the locale
  \<open>rule_matching\<close>.
\<close>

section \<open>The matcher\<close>

datatype atom = Lit nat | AnyOne | AnyRun

definition slashes :: "jstring \<Rightarrow> jstring" where
  \<comment> \<open>\<open>s.replaceAll("\\", "/")\<close>\<close>
  "slashes s = map (\<lambda>c. if c = 92 then 47 else c) s"

definition compile_glob :: "jstring \<Rightarrow> atom list" where
  \<comment> \<open>escaping leaves every unit but \<open>*\<close> and \<open>?\<close> to stand for itself\<close>
  "compile_glob p = map (\<lambda>c. if c = 42 then AnyRun else if c = 63 then AnyOne else Lit c) (slashes p)"

definition canon :: "bool \<Rightarrow> nat \<Rightarrow> nat" where
  \<comment> \<open>case folding of the flag \<open>i\<close>, set on win32 only: the upper case of ASCII and Latin-1 letters\<close>
  "canon win32 c =
    (if win32 \<and> ((97 \<le> c \<and> c \<le> 122) \<or> (224 \<le> c \<and> c \<le> 254 \<and> c \<noteq> 247)) then c - 32 else c)"

fun re_match :: "bool \<Rightarrow> atom list \<Rightarrow> jstring \<Rightarrow> bool" where
  "re_match w [] s = (s = [])"
| "re_match w (Lit c # as) [] = False"
| "re_match w (Lit c # as) (x # s) = (canon w c = canon w x \<and> re_match w as s)"
| "re_match w (AnyOne # as) [] = False"
| "re_match w (AnyOne # as) (x # s) = re_match w as s"
| "re_match w (AnyRun # as) [] = re_match w as []"
| "re_match w (AnyRun # as) (x # s) = (re_match w as (x # s) \<or> re_match w (AnyRun # as) s)"

definition wildcard_match :: "bool \<Rightarrow> jstring \<Rightarrow> jstring \<Rightarrow> bool" where
  "wildcard_match win32 input pat =
    (let s = slashes input; as = compile_glob pat in
     if ends_with as [Lit 32, AnyRun]
     then re_match win32 (take (length as - 2) as) s \<or> re_match win32 as s
     else re_match win32 as s)"

section \<open>What a glob means\<close>

fun atom_ok :: "bool \<Rightarrow> atom \<Rightarrow> jstring \<Rightarrow> bool" where
  "atom_ok w (Lit c) s = (\<exists>x. s = [x] \<and> canon w c = canon w x)"
| "atom_ok w AnyOne s = (length s = 1)"
| "atom_ok w AnyRun s = True"

lemma re_match_run_append: "re_match w as s \<Longrightarrow> re_match w (AnyRun # as) (r @ s)"
proof (induction r)
  case Nil
  then show ?case by (cases s) auto
qed auto

lemma re_match_runD: "re_match w (AnyRun # as) s \<Longrightarrow> \<exists>r t. s = r @ t \<and> re_match w as t"
proof (induction s)
  case (Cons x s)
  then show ?case by (auto intro: exI [of _ "[]"]) (metis append_Cons)
qed (auto)

text \<open>The search decides exactly whether the input splits into one part per atom.\<close>

lemma re_match_parts:
  "re_match w as s \<longleftrightarrow> (\<exists>parts. s = concat parts \<and> list_all2 (atom_ok w) as parts)"
proof (induction as arbitrary: s)
  case (Cons a as)
  have "re_match w (a # as) s \<longleftrightarrow> (\<exists>p t. s = p @ t \<and> atom_ok w a p \<and> re_match w as t)"
  proof (cases a)
    case (Lit c)
    have "re_match w (Lit c # as) s \<longleftrightarrow> (\<exists>x t. s = [x] @ t \<and> canon w c = canon w x \<and> re_match w as t)"
      by (cases s) auto
    then show ?thesis unfolding Lit atom_ok.simps by blast
  next
    case AnyOne
    have "re_match w (AnyOne # as) s \<longleftrightarrow> (\<exists>x t. s = [x] @ t \<and> re_match w as t)"
      by (cases s) auto
    then show ?thesis unfolding AnyOne atom_ok.simps One_nat_def length_Suc_conv length_0_conv by blast
  next
    case AnyRun
    then show ?thesis using re_match_runD re_match_run_append by fastforce
  qed
  also have "\<dots> \<longleftrightarrow> (\<exists>parts. s = concat parts \<and> list_all2 (atom_ok w) (a # as) parts)"
    by (auto simp: Cons.IH list_all2_Cons1) (metis concat.simps(2))+
  finally show ?case .
qed simp

lemma re_match_append_lits:
  "re_match False (map Lit p @ as) s \<longleftrightarrow> (\<exists>t. s = p @ t \<and> re_match False as t)"
proof (induction p arbitrary: s)
  case (Cons c p)
  then show ?case by (cases s) (auto simp: canon_def)
qed simp

lemma re_match_run_any [simp]: "re_match w [AnyRun] s"
  by (induction s) auto

section \<open>Laws of the matcher\<close>

definition plain :: "jstring \<Rightarrow> bool" where
  \<comment> \<open>no unit the matcher treats specially\<close>
  "plain p \<longleftrightarrow> 42 \<notin> set p \<and> 63 \<notin> set p \<and> 92 \<notin> set p"

lemma slashes_plain: "92 \<notin> set p \<Longrightarrow> slashes p = p"
  unfolding slashes_def by (induction p) auto

lemma compile_plain: "plain p \<Longrightarrow> compile_glob p = map Lit p"
  by (auto simp: compile_glob_def slashes_plain plain_def)

lemma compile_append: "compile_glob (p @ q) = compile_glob p @ compile_glob q"
  by (simp add: compile_glob_def slashes_def)

lemma compile_star [simp]: "compile_glob (lit ''*'') = [AnyRun]"
  by (simp add: compile_glob_def slashes_def lit_def)

lemma ends_with_lits: "\<not> ends_with (map Lit p) [Lit 32, AnyRun]"
proof
  assume "ends_with (map Lit p) [Lit 32, AnyRun]"
  then obtain t where "map Lit p = t @ [Lit 32, AnyRun]" by (auto simp: ends_with_iff)
  then have "AnyRun \<in> set (map Lit p)" by simp
  then show False by auto
qed

lemma wildcard_star [simp]: "wildcard_match w s (lit ''*'')"
  by (simp add: wildcard_match_def Let_def ends_with_def)

lemma wildcard_plain: "plain p \<Longrightarrow> wildcard_match False s p \<longleftrightarrow> slashes s = p"
  using re_match_append_lits [of p "[]"]
  by (simp add: wildcard_match_def Let_def compile_plain ends_with_lits)

lemma wildcard_command:
  assumes "plain p"
  shows "wildcard_match False s (p @ lit '' *'') \<longleftrightarrow>
    slashes s = p \<or> (\<exists>r. slashes s = p @ lit '' '' @ r)"
proof -
  have c: "compile_glob (p @ lit '' *'') = map Lit p @ [Lit 32, AnyRun]"
    using assms by (simp add: compile_append compile_plain) (simp add: compile_glob_def slashes_def lit_def)
  have e: "ends_with (map Lit p @ [Lit 32, AnyRun]) [Lit 32, AnyRun]"
    unfolding ends_with_iff by blast
  have one: "re_match False (Lit 32 # [AnyRun]) t \<longleftrightarrow> (\<exists>r. t = lit '' '' @ r)" for t
    by (cases t) (auto simp: canon_def lit_def)
  have "wildcard_match False s (p @ lit '' *'') \<longleftrightarrow>
      re_match False (map Lit p @ []) (slashes s) \<or> re_match False (map Lit p @ [Lit 32, AnyRun]) (slashes s)"
    by (simp add: wildcard_match_def Let_def c e)
  also have "\<dots> \<longleftrightarrow> slashes s = p \<or> (\<exists>r. slashes s = p @ lit '' '' @ r)"
    unfolding re_match_append_lits one by auto
  finally show ?thesis .
qed

lemma slashes_idem [simp]: "slashes (slashes s) = slashes s"
  by (simp add: slashes_def)

lemma wildcard_slashes:
  "wildcard_match w (slashes s) p = wildcard_match w s p"
  "wildcard_match w s (slashes p) = wildcard_match w s p"
  by (simp_all add: wildcard_match_def compile_glob_def)

lemma re_match_self: "re_match w (compile_glob p) (slashes p)"
proof (induction p)
  case (Cons c p)
  have "re_match w (AnyRun # compile_glob p) (slashes p)"
    using re_match_run_append [OF Cons.IH, of "[]"] by simp
  with Cons.IH show ?case by (simp add: compile_glob_def slashes_def)
qed (simp add: compile_glob_def slashes_def)

lemma wildcard_self [simp]: "wildcard_match w p p"
  by (simp add: wildcard_match_def Let_def re_match_self)

section \<open>The interface the permission rules use\<close>

text \<open>
  What rule evaluation needs of a matcher: the star accepts everything and a pattern accepts its
  own text.
\<close>

locale rule_matching =
  fixes matches :: "'s \<Rightarrow> 's \<Rightarrow> bool" and star :: 's
  assumes star_matches: "matches s star"
    and self_matches: "matches s s"
begin

lemma named_rule_wins:
  assumes "r \<in> set late" "f r = p" "g r = q"
  obtains r' where "r' \<in> set late" "matches p (f r')" "matches q (g r')"
    "find_last (\<lambda>r. matches p (f r) \<and> matches q (g r)) (early @ late) = Some r'"
proof -
  have "find_last (\<lambda>r. matches p (f r) \<and> matches q (g r)) late \<noteq> None"
    using assms self_matches by (auto simp: find_last_None_iff)
  then obtain r' where r': "find_last (\<lambda>r. matches p (f r) \<and> matches q (g r)) late = Some r'"
    by auto
  then have "r' \<in> set late" "matches p (f r')" "matches q (g r')"
    by (auto simp: find_last_Some_iff)
  with r' show ?thesis by (intro that) (simp_all add: find_last_append)
qed

lemma catch_all_decides:
  assumes "f r = star" "g r = star"
  shows "find_last (\<lambda>r. matches p (f r) \<and> matches q (g r)) (rs @ [r]) = Some r"
  using assms by (simp add: find_last_append star_matches)

end

interpretation wild: rule_matching "wildcard_match w" "lit ''*''" for w
  by unfold_locales simp_all

end
