(* ===== verification/Permission.thy ===== *)
theory Permission imports Wildcard begin

text \<open>
  The permission service (packages/opencode/src/permission/index.ts): rule evaluation, the table of
  pending requests with their deferreds, and the handlers \<open>ask\<close>, \<open>reply\<close>, \<open>list\<close> and the finalizer.
  Each handler runs to its next suspension as one step; \<open>ask\<close> suspends on its deferred, and
  \<open>ask_release\<close> is what its \<open>Effect.ensuring\<close> does when it resumes or is interrupted. The matcher is
  an argument, as \<open>Wildcard.match\<close> is an import of the module; \<open>metadata\<close> and \<open>tool\<close> are carried
  through untouched and are the type parameter.
\<close>

section \<open>Rules\<close>

datatype action = Allow | Deny | Ask

record rule =
  rule_permission :: jstring
  rule_pattern :: jstring
  rule_action :: action

type_synonym matcher = "jstring \<Rightarrow> jstring \<Rightarrow> bool"

definition evaluate :: "matcher \<Rightarrow> jstring \<Rightarrow> jstring \<Rightarrow> rule list list \<Rightarrow> rule" where
  "evaluate m permission pat rulesets =
    (case find_last (\<lambda>r. m permission (rule_permission r) \<and> m pat (rule_pattern r)) (concat rulesets) of
       Some r \<Rightarrow> r
     | None \<Rightarrow> \<lparr>rule_permission = permission, rule_pattern = lit ''*'', rule_action = Ask\<rparr>)"

section \<open>State of the service\<close>

record 'm request =
  req_id :: jstring
  req_session :: jstring
  req_permission :: jstring
  req_patterns :: "jstring list"
  req_metadata :: 'm
  req_always :: "jstring list"

datatype reply_kind = Once | Always | Reject

datatype outcome = Succeeded | Rejected | Corrected jstring

datatype 'm event = Asked "'m request" | Replied jstring jstring reply_kind

record 'm pending_entry =
  info :: "'m request"
  deferred :: nat

record 'm perm_state =
  pending :: "(jstring, 'm pending_entry) jsmap"
  approved :: "rule list"
  deferreds :: "nat \<rightharpoonup> outcome"
  next_deferred :: nat
  published :: "'m event list"

definition initial_state :: "'m perm_state" where
  "initial_state = \<lparr>pending = [], approved = [], deferreds = Map.empty, next_deferred = 0, published = []\<rparr>"

definition settle :: "nat \<Rightarrow> outcome \<Rightarrow> 'm perm_state \<Rightarrow> 'm perm_state" where
  \<comment> \<open>\<open>Deferred.succeed\<close> and \<open>Deferred.fail\<close>: only the first completion counts\<close>
  "settle d out st =
    (case deferreds st d of
       None \<Rightarrow> st\<lparr>deferreds := (deferreds st)(d \<mapsto> out)\<rparr>
     | Some _ \<Rightarrow> st)"

definition publish :: "'m event \<Rightarrow> 'm perm_state \<Rightarrow> 'm perm_state" where
  "publish e st = st\<lparr>published := published st @ [e]\<rparr>"

definition remove_pending :: "jstring \<Rightarrow> 'm perm_state \<Rightarrow> 'm perm_state" where
  "remove_pending i st = st\<lparr>pending := map_delete (pending st) i\<rparr>"

fun reject_all :: "(jstring \<times> 'm pending_entry) list \<Rightarrow> 'm perm_state \<Rightarrow> 'm perm_state" where
  \<comment> \<open>the finalizer's loop\<close>
  "reject_all [] st = st"
| "reject_all ((i, item) # es) st = reject_all es (settle (deferred item) Rejected st)"

definition dispose :: "'m perm_state \<Rightarrow> 'm perm_state" where
  "dispose st = (reject_all (pending st) st)\<lparr>pending := []\<rparr>"

section \<open>Asking\<close>

datatype ask_result = AskDenied "rule list" | AskAllowed | AskWaiting nat

fun ask_loop :: "matcher \<Rightarrow> jstring \<Rightarrow> rule list list \<Rightarrow> jstring list \<Rightarrow> bool \<Rightarrow> bool option" where
  \<comment> \<open>the loop over the patterns: \<open>None\<close> when it meets a deny, else whether to ask\<close>
  "ask_loop m permission rs [] needsAsk = Some needsAsk"
| "ask_loop m permission rs (p # ps) needsAsk =
    (let rule = evaluate m permission p rs in
     if rule_action rule = Deny then None
     else if rule_action rule = Allow then ask_loop m permission rs ps needsAsk
     else ask_loop m permission rs ps True)"

definition ask :: "matcher \<Rightarrow> jstring \<Rightarrow> 'm request \<Rightarrow> rule list \<Rightarrow> 'm perm_state \<Rightarrow> ask_result \<times> 'm perm_state" where
  \<comment> \<open>\<open>i\<close> is the request's id, given or freshly ascending\<close>
  "ask m i request ruleset st =
    (case ask_loop m (req_permission request) [ruleset, approved st] (req_patterns request) False of
       None \<Rightarrow> (AskDenied (filter (\<lambda>r. m (req_permission request) (rule_permission r)) ruleset), st)
     | Some False \<Rightarrow> (AskAllowed, st)
     | Some True \<Rightarrow>
         (let inf = request\<lparr>req_id := i\<rparr>; d = next_deferred st;
              st1 = st\<lparr>next_deferred := Suc d,
                      pending := map_set (pending st) i \<lparr>info = inf, deferred = d\<rparr>\<rparr>
          in (AskWaiting d, publish (Asked inf) st1)))"

definition ask_release :: "jstring \<Rightarrow> 'm perm_state \<Rightarrow> 'm perm_state" where
  "ask_release i st = remove_pending i st"

section \<open>Replying\<close>

fun reject_session :: "jstring \<Rightarrow> (jstring \<times> 'm pending_entry) list \<Rightarrow> 'm perm_state \<Rightarrow> 'm perm_state" where
  \<comment> \<open>the loop after a rejection; it deletes only the entry it stands on, so iterating over the
      entries as they were is what the live iterator does\<close>
  "reject_session s [] st = st"
| "reject_session s ((i, item) # es) st =
    (if req_session (info item) \<noteq> s then reject_session s es st
     else reject_session s es
       (settle (deferred item) Rejected
         (publish (Replied (req_session (info item)) (req_id (info item)) Reject) (remove_pending i st))))"

definition covered :: "matcher \<Rightarrow> rule list \<Rightarrow> 'm request \<Rightarrow> bool" where
  "covered m appr r \<longleftrightarrow>
    (\<forall>p \<in> set (req_patterns r). rule_action (evaluate m (req_permission r) p [appr]) = Allow)"

fun release_covered ::
  "matcher \<Rightarrow> jstring \<Rightarrow> (jstring \<times> 'm pending_entry) list \<Rightarrow> 'm perm_state \<Rightarrow> 'm perm_state" where
  "release_covered m s [] st = st"
| "release_covered m s ((i, item) # es) st =
    (if req_session (info item) \<noteq> s then release_covered m s es st
     else if \<not> covered m (approved st) (info item) then release_covered m s es st
     else release_covered m s es
       (settle (deferred item) Succeeded
         (publish (Replied (req_session (info item)) (req_id (info item)) Always) (remove_pending i st))))"

datatype reply_error = NotFound jstring

definition reply :: "matcher \<Rightarrow> jstring \<Rightarrow> reply_kind \<Rightarrow> jstring option \<Rightarrow> 'm perm_state
    \<Rightarrow> (reply_error, 'm perm_state) result" where
  "reply m requestID kind message st =
    (case map_of (pending st) requestID of
       None \<Rightarrow> Inl (NotFound requestID)
     | Some existing \<Rightarrow>
         (let st1 = publish (Replied (req_session (info existing)) (req_id (info existing)) kind)
                      (remove_pending requestID st)
          in case kind of
               Reject \<Rightarrow>
                 (let st2 = settle (deferred existing)
                        (case message of None \<Rightarrow> Rejected | Some t \<Rightarrow> if t = [] then Rejected else Corrected t) st1
                  in Inr (reject_session (req_session (info existing)) (pending st2) st2))
             | Once \<Rightarrow> Inr (settle (deferred existing) Succeeded st1)
             | Always \<Rightarrow>
                 (let st2 = settle (deferred existing) Succeeded st1;
                      st3 = st2\<lparr>approved := approved st2 @
                        map (\<lambda>p. \<lparr>rule_permission = req_permission (info existing), rule_pattern = p,
                                  rule_action = Allow\<rparr>) (req_always (info existing))\<rparr>
                  in Inr (release_covered m (req_session (info existing)) (pending st3) st3))))"

definition list_pending :: "'m perm_state \<Rightarrow> 'm request list" where
  "list_pending st = map (\<lambda>e. info (snd e)) (pending st)"

section \<open>Rules from the configuration\<close>

definition expand :: "jstring \<Rightarrow> jstring \<Rightarrow> jstring" where
  "expand homedir pat =
    (if starts_with pat (lit ''~/'') then homedir @ drop 1 pat
     else if pat = lit ''~'' then homedir
     else if starts_with pat (lit ''$HOME/'') then homedir @ drop 5 pat
     else if starts_with pat (lit ''$HOME'') then homedir @ drop 5 pat
     else pat)"

datatype config_rule = Plain action | PerPattern "(jstring \<times> action) list"

fun from_config :: "jstring \<Rightarrow> (jstring \<times> config_rule) list \<Rightarrow> rule list" where
  "from_config homedir [] = []"
| "from_config homedir ((key, Plain a) # es) =
    \<lparr>rule_permission = key, rule_pattern = lit ''*'', rule_action = a\<rparr> # from_config homedir es"
| "from_config homedir ((key, PerPattern ps) # es) =
    map (\<lambda>(p, a). \<lparr>rule_permission = key, rule_pattern = expand homedir p, rule_action = a\<rparr>) ps
      @ from_config homedir es"

definition merge_rules :: "rule list list \<Rightarrow> rule list" where
  "merge_rules rulesets = concat rulesets"

definition tool_permission :: "jstring \<Rightarrow> jstring" where
  "tool_permission tool =
    (if tool \<in> {lit ''edit'', lit ''write'', lit ''apply_patch''} then lit ''edit''
     else if tool \<in> {lit ''list_mcp_resources'', lit ''list_mcp_resource_templates'', lit ''read_mcp_resource''}
     then lit ''read'' else tool)"

definition tool_disabled :: "matcher \<Rightarrow> rule list \<Rightarrow> jstring \<Rightarrow> bool" where
  "tool_disabled m ruleset tool =
    (case find_last (\<lambda>r. m (tool_permission tool) (rule_permission r)) ruleset of
       None \<Rightarrow> False
     | Some r \<Rightarrow> rule_pattern r = lit ''*'' \<and> rule_action r = Deny)"

definition disabled :: "matcher \<Rightarrow> jstring list \<Rightarrow> rule list \<Rightarrow> jstring list" where
  "disabled m tools ruleset = filter (tool_disabled m ruleset) tools"

definition visible_tools :: "matcher \<Rightarrow> (jstring, 't) jsmap \<Rightarrow> rule list \<Rightarrow> (jstring, 't) jsmap" where
  "visible_tools m tools ruleset =
    (let hidden = disabled m (map_keys tools) ruleset in filter (\<lambda>e. fst e \<notin> set hidden) tools)"

section \<open>Laws of the steps\<close>

lemma settle_fields [simp]:
  "pending (settle d out st) = pending st" "approved (settle d out st) = approved st"
  "next_deferred (settle d out st) = next_deferred st" "published (settle d out st) = published st"
  by (simp_all add: settle_def split: option.splits)

lemma deferreds_settle:
  "deferreds (settle d out st) k =
    (if k = d \<and> deferreds st d = None then Some out else deferreds st k)"
  by (auto simp: settle_def split: option.splits)

lemma publish_fields [simp]:
  "pending (publish e st) = pending st" "approved (publish e st) = approved st"
  "next_deferred (publish e st) = next_deferred st" "deferreds (publish e st) = deferreds st"
  by (simp_all add: publish_def)

lemma remove_pending_fields [simp]:
  "pending (remove_pending i st) = map_delete (pending st) i"
  "approved (remove_pending i st) = approved st"
  "next_deferred (remove_pending i st) = next_deferred st"
  "deferreds (remove_pending i st) = deferreds st"
  by (simp_all add: remove_pending_def)

text \<open>Both loops of \<open>reply\<close> sweep the table: they close the entries that satisfy a predicate.\<close>

fun sweep :: "('m request \<Rightarrow> bool) \<Rightarrow> outcome \<Rightarrow> reply_kind \<Rightarrow> (jstring \<times> 'm pending_entry) list
    \<Rightarrow> 'm perm_state \<Rightarrow> 'm perm_state" where
  "sweep P out k [] st = st"
| "sweep P out k ((i, item) # es) st =
    (if P (info item) then sweep P out k es
       (settle (deferred item) out
         (publish (Replied (req_session (info item)) (req_id (info item)) k) (remove_pending i st)))
     else sweep P out k es st)"

lemma reject_session_sweep:
  "reject_session s es st = sweep (\<lambda>r. req_session r = s) Rejected Reject es st"
  by (induction s es st rule: reject_session.induct) auto

lemma release_covered_sweep:
  "release_covered m s es st =
    sweep (\<lambda>r. req_session r = s \<and> covered m (approved st) r) Succeeded Always es st"
  by (induction m s es st rule: release_covered.induct) auto

lemma sweep_fields [simp]:
  "approved (sweep P out k es st) = approved st"
  "next_deferred (sweep P out k es st) = next_deferred st"
  by (induction P out k es st rule: sweep.induct) auto

lemma pending_sweep:
  "pending (sweep P out k es st) =
    filter (\<lambda>e. \<forall>e' \<in> set es. fst e' = fst e \<longrightarrow> \<not> P (info (snd e'))) (pending st)"
  by (induction P out k es st rule: sweep.induct)
    (auto simp: AList.delete_eq filter_filter intro!: filter_cong)

lemma pending_sweep_own:
  assumes "wf_map (pending st)"
  shows "pending (sweep P out k (pending st) st) = filter (\<lambda>e. \<not> P (info (snd e))) (pending st)"
  unfolding pending_sweep
proof (rule filter_cong [OF refl])
  fix e assume e: "e \<in> set (pending st)"
  have "e' = e" if "e' \<in> set (pending st)" "fst e' = fst e" for e'
    using assms e that unfolding wf_map_def by (metis eq_key_imp_eq_value prod.collapse)
  with e show "(\<forall>e' \<in> set (pending st). fst e' = fst e \<longrightarrow> \<not> P (info (snd e'))) \<longleftrightarrow>
      \<not> P (info (snd e))" by blast
qed

lemma deferreds_sweep:
  "deferreds (sweep P out k es st) d =
    (case deferreds st d of Some r \<Rightarrow> Some r
     | None \<Rightarrow> if \<exists>e \<in> set es. P (info (snd e)) \<and> deferred (snd e) = d then Some out else None)"
  by (induction P out k es st rule: sweep.induct) (auto simp: deferreds_settle split: option.splits)

lemma deferreds_reject_all:
  "deferreds (reject_all es st) d =
    (case deferreds st d of Some r \<Rightarrow> Some r
     | None \<Rightarrow> if \<exists>e \<in> set es. deferred (snd e) = d then Some Rejected else None)"
  by (induction es st rule: reject_all.induct) (auto simp: deferreds_settle split: option.splits)

lemma reject_all_fields [simp]:
  "pending (reject_all es st) = pending st" "approved (reject_all es st) = approved st"
  "next_deferred (reject_all es st) = next_deferred st"
  by (induction es st rule: reject_all.induct) auto

section \<open>The invariant of the service\<close>

definition perm_inv :: "'m perm_state \<Rightarrow> bool" where
  "perm_inv st \<longleftrightarrow> wf_map (pending st) \<and>
     (\<forall>(k, e) \<in> set (pending st). req_id (info e) = k \<and> deferred e < next_deferred st \<and>
        deferreds st (deferred e) = None) \<and>
     inj_on (\<lambda>e. deferred (snd e)) (set (pending st)) \<and>
     (\<forall>d \<in> dom (deferreds st). d < next_deferred st) \<and>
     (\<forall>r \<in> set (approved st). rule_action r = Allow)"

inductive perm_step :: "matcher \<Rightarrow> 'm perm_state \<Rightarrow> 'm perm_state \<Rightarrow> bool" for m where
  ask_step: "perm_step m st (snd (ask m i r rs st))"
| release_step: "perm_step m st (ask_release i st)"
| reply_step: "reply m i k msg st = Inr st' \<Longrightarrow> perm_step m st st'"
| dispose_step: "perm_step m st (dispose st)"

inductive perm_reachable :: "matcher \<Rightarrow> 'm perm_state \<Rightarrow> bool" for m where
  start: "perm_reachable m initial_state"
| step: "perm_reachable m st \<Longrightarrow> perm_step m st st' \<Longrightarrow> perm_reachable m st'"

inductive_cases perm_stepE: "perm_step m st st'"

lemma perm_inv_initial: "perm_inv initial_state"
  by (simp add: perm_inv_def initial_state_def)

lemma perm_inv_ask: "perm_inv st \<Longrightarrow> perm_inv (snd (ask m i r rs st))"
proof -
  assume inv: "perm_inv st"
  have "perm_inv (publish ev (st\<lparr>next_deferred := Suc (next_deferred st),
      pending := map_set (pending st) i \<lparr>info = r\<lparr>req_id := i\<rparr>, deferred = next_deferred st\<rparr>\<rparr>))" for ev
    using inv unfolding perm_inv_def
    by (auto simp: set_map_set inj_on_def dom_def)
  with inv show ?thesis
    by (auto simp: ask_def Let_def split: option.splits bool.splits)
qed

lemma perm_inv_remove: "perm_inv st \<Longrightarrow> perm_inv (remove_pending i st)"
  unfolding perm_inv_def by (auto simp: set_map_delete inj_on_def)

lemma perm_inv_publish [simp]: "perm_inv (publish e st) = perm_inv st"
  by (simp add: perm_inv_def)

lemma perm_inv_settle:
  "perm_inv st \<Longrightarrow> d < next_deferred st \<Longrightarrow> \<forall>e \<in> set (pending st). deferred (snd e) \<noteq> d \<Longrightarrow>
   perm_inv (settle d out st)"
  unfolding perm_inv_def by (auto simp: deferreds_settle dom_def split: if_splits)

lemma perm_inv_close:
  assumes inv: "perm_inv st" and k: "map_of (pending st) i = Some e"
  shows "perm_inv (settle (deferred e) out (publish ev (remove_pending i st)))"
proof (rule perm_inv_settle)
  have mem: "(i, e) \<in> set (pending st)" using k by (rule map_of_SomeD)
  show "perm_inv (publish ev (remove_pending i st))" using inv by (simp add: perm_inv_remove)
  show "deferred e < next_deferred (publish ev (remove_pending i st))"
    using inv mem by (auto simp: perm_inv_def)
  show "\<forall>e' \<in> set (pending (publish ev (remove_pending i st))). deferred (snd e') \<noteq> deferred e"
    using inv mem by (auto simp: perm_inv_def set_map_delete inj_on_def) fastforce
qed

lemma perm_inv_sweep:
  "perm_inv st \<Longrightarrow> es = pending st \<Longrightarrow> perm_inv (sweep P out k es st)"
  unfolding perm_inv_def
  by (auto simp: pending_sweep_own deferreds_sweep inj_on_def dom_def split: option.splits if_splits)
    (metis snd_conv)

lemma perm_inv_approve:
  "perm_inv st \<Longrightarrow> \<forall>r \<in> set rs. rule_action r = Allow \<Longrightarrow> perm_inv (st\<lparr>approved := rs\<rparr>)"
  unfolding perm_inv_def by auto

lemma perm_inv_approved: "perm_inv st \<Longrightarrow> r \<in> set (approved st) \<Longrightarrow> rule_action r = Allow"
  unfolding perm_inv_def by blast

lemma perm_inv_reply:
  assumes inv: "perm_inv st" and r: "reply m i k msg st = Inr st'"
  shows "perm_inv st'"
proof -
  obtain e where e: "map_of (pending st) i = Some e"
    using r by (auto simp: reply_def split: option.splits)
  note close = perm_inv_close [OF inv e]
  show ?thesis
    using r e by (cases k)
      (auto simp: reply_def Let_def reject_session_sweep release_covered_sweep
        intro!: perm_inv_sweep perm_inv_approve close intro: perm_inv_approved [OF inv])
qed

lemma perm_inv_dispose: "perm_inv st \<Longrightarrow> perm_inv (dispose st)"
  unfolding perm_inv_def dispose_def
  by (auto simp: deferreds_reject_all dom_def split: option.splits if_splits)

lemma perm_inv_step: "perm_step m st st' \<Longrightarrow> perm_inv st \<Longrightarrow> perm_inv st'"
  by (induction rule: perm_step.induct)
    (auto simp: ask_release_def intro: perm_inv_ask perm_inv_remove perm_inv_reply perm_inv_dispose)

lemma perm_reachable_inv: "perm_reachable m st \<Longrightarrow> perm_inv st"
  by (induction rule: perm_reachable.induct) (auto intro: perm_inv_initial perm_inv_step)

section \<open>Laws of the handlers\<close>

lemma ask_loop_result:
  "ask_loop m p rs ps needs =
    (if \<exists>q \<in> set ps. rule_action (evaluate m p q rs) = Deny then None
     else Some (needs \<or> (\<exists>q \<in> set ps. rule_action (evaluate m p q rs) \<noteq> Allow)))"
  by (induction m p rs ps needs rule: ask_loop.induct) (auto simp: Let_def)

lemma perm_step_outcome:
  assumes "perm_step m st st'" "deferreds st d = Some out"
  shows "deferreds st' d = Some out"
  using assms
proof (induction rule: perm_step.induct)
  case (reply_step i k msg st st')
  then show ?case
    by (cases k) (auto simp: reply_def Let_def reject_session_sweep release_covered_sweep
        deferreds_sweep deferreds_settle split: option.splits)
qed (auto simp: ask_def ask_release_def dispose_def deferreds_reject_all Let_def
      split: option.splits bool.splits)

lemma evaluate_approved:
  assumes allow: "\<forall>r \<in> set appr. rule_action r = Allow"
    and named: "\<exists>r \<in> set appr. rule_permission r = p \<and> rule_pattern r = q"
  shows "rule_action (evaluate (wildcard_match w) p q [rs, appr]) = Allow"
proof -
  from named obtain r where "r \<in> set appr" "rule_permission r = p" "rule_pattern r = q" by blast
  then obtain r' where "r' \<in> set appr"
    "find_last (\<lambda>r. wildcard_match w p (rule_permission r) \<and> wildcard_match w q (rule_pattern r)) (rs @ appr)
      = Some r'"
    by (rule wild.named_rule_wins [where w = w and early = rs])
  with allow show ?thesis by (simp add: evaluate_def)
qed

lemma perm_inv_deferred_inj:
  assumes "perm_inv st" "(k, x) \<in> set (pending st)" "(k', x') \<in> set (pending st)"
    "deferred x = deferred x'"
  shows "k = k' \<and> x = x'"
proof -
  have "inj_on (\<lambda>e. deferred (snd e)) (set (pending st))" using assms(1) by (simp add: perm_inv_def)
  from inj_onD [OF this _ assms(2,3)] assms(4) show ?thesis by simp
qed

text \<open>What closing one entry and then sweeping the rest does to the table and to its deferreds.\<close>

lemma close_and_sweep:
  assumes inv: "perm_inv st" and e: "(i, e) \<in> set (pending st)"
    and p2: "pending st2 = map_delete (pending st) i"
    and d2: "deferreds st2 = (deferreds st)(deferred e \<mapsto> out)"
  shows "pending (sweep P ans k (pending st2) st2) =
      filter (\<lambda>x. fst x \<noteq> i \<and> \<not> P (info (snd x))) (pending st)" (is ?pend)
    and "(j, x) \<in> set (pending st) \<Longrightarrow> deferreds (sweep P ans k (pending st2) st2) (deferred x) =
      (if j = i then Some out else if P (info x) then Some ans else None)" (is "_ \<Longrightarrow> ?def")
proof -
  have wf: "wf_map (pending st)" using inv by (simp add: perm_inv_def)
  show ?pend
    using wf by (subst pending_sweep_own) (simp_all add: p2 AList.delete_eq filter_filter case_prod_beta eq_commute [of i])
  assume x: "(j, x) \<in> set (pending st)"
  then have none: "deferreds st (deferred x) = None" using inv by (auto simp: perm_inv_def)
  have same: "deferred x = deferred e \<longleftrightarrow> j = i"
    using perm_inv_deferred_inj [OF inv x e] wf x e
    by (auto simp: wf_map_def dest: eq_key_imp_eq_value)
  have "y = (j, x)" if "y \<in> set (pending st)" "deferred (snd y) = deferred x" for y
    using perm_inv_deferred_inj [OF inv _ x, of "fst y" "snd y"] that by (auto simp: prod_eq_iff)
  then have "(\<exists>y \<in> set (map_delete (pending st) i). P (info (snd y)) \<and> deferred (snd y) = deferred x) \<longleftrightarrow>
      j \<noteq> i \<and> P (info x)"
    using x unfolding set_map_delete by (metis (mono_tags, lifting) fst_conv mem_Collect_eq snd_conv)
  with none same show ?def by (simp add: deferreds_sweep p2 d2)
qed

lemma reply_reject_eq:
  assumes "perm_inv st" and e: "map_of (pending st) i = Some e"
  shows "\<exists>st2. pending st2 = map_delete (pending st) i \<and>
    deferreds st2 = (deferreds st)(deferred e \<mapsto>
      (case msg of None \<Rightarrow> Rejected | Some t \<Rightarrow> if t = [] then Rejected else Corrected t)) \<and>
    reply m i Reject msg st = Inr (sweep (\<lambda>r. req_session r = req_session (info e)) Rejected Reject
      (pending st2) st2)"
proof -
  have "deferreds st (deferred e) = None"
    using assms map_of_SomeD [OF e] by (auto simp: perm_inv_def)
  then show ?thesis
    using e by (intro exI [of _ "settle (deferred e)
        (case msg of None \<Rightarrow> Rejected | Some t \<Rightarrow> if t = [] then Rejected else Corrected t)
        (publish (Replied (req_session (info e)) (req_id (info e)) Reject) (remove_pending i st))"])
      (auto simp: reply_def Let_def reject_session_sweep deferreds_settle fun_eq_iff)
qed

lemma reply_always_eq:
  assumes "perm_inv st" and e: "map_of (pending st) i = Some e"
  shows "\<exists>st2. pending st2 = map_delete (pending st) i \<and>
    deferreds st2 = (deferreds st)(deferred e \<mapsto> Succeeded) \<and>
    approved st2 = approved st @ map (\<lambda>p. \<lparr>rule_permission = req_permission (info e), rule_pattern = p,
      rule_action = Allow\<rparr>) (req_always (info e)) \<and>
    reply m i Always msg st = Inr (sweep (\<lambda>r. req_session r = req_session (info e) \<and>
      covered m (approved st2) r) Succeeded Always (pending st2) st2)"
proof -
  have "deferreds st (deferred e) = None"
    using assms map_of_SomeD [OF e] by (auto simp: perm_inv_def)
  then show ?thesis
    using e by (intro exI [of _ "(settle (deferred e) Succeeded
        (publish (Replied (req_session (info e)) (req_id (info e)) Always) (remove_pending i st)))
        \<lparr>approved := approved st @ map (\<lambda>p. \<lparr>rule_permission = req_permission (info e), rule_pattern = p,
          rule_action = Allow\<rparr>) (req_always (info e))\<rparr>"])
      (auto simp: reply_def Let_def release_covered_sweep deferreds_settle fun_eq_iff)
qed

section \<open>Properties\<close>

text \<open>Rule evaluation: the last rule of the flattened rulesets that matches both the permission
  and the pattern decides, and where none matches the answer is to ask.\<close>

theorem evaluate_last_match_wins:
  "evaluate (wildcard_match w) p q rulesets = r \<longleftrightarrow>
    (\<exists>before after. concat rulesets = before @ r # after \<and>
      wildcard_match w p (rule_permission r) \<and> wildcard_match w q (rule_pattern r) \<and>
      \<not> (\<exists>r' \<in> set after. wildcard_match w p (rule_permission r') \<and> wildcard_match w q (rule_pattern r'))) \<or>
    (r = \<lparr>rule_permission = p, rule_pattern = lit ''*'', rule_action = Ask\<rparr> \<and>
      \<not> (\<exists>r' \<in> set (concat rulesets).
          wildcard_match w p (rule_permission r') \<and> wildcard_match w q (rule_pattern r')))"
  (is "_ \<longleftrightarrow> ?last \<or> ?none")
proof (cases "find_last (\<lambda>r. wildcard_match w p (rule_permission r) \<and> wildcard_match w q (rule_pattern r))
    (concat rulesets)")
  case None
  then have none: "\<not> (wildcard_match w p (rule_permission x) \<and> wildcard_match w q (rule_pattern x))"
    if "x \<in> set (concat rulesets)" for x
    using that unfolding find_last_None_iff by blast
  have "\<not> ?last"
  proof
    assume ?last
    then obtain before after where r: "concat rulesets = before @ r # after"
      "wildcard_match w p (rule_permission r)" "wildcard_match w q (rule_pattern r)" by blast
    then have "r \<in> set (concat rulesets)" by (metis in_set_conv_decomp)
    with none r show False by blast
  qed
  moreover have "?none \<longleftrightarrow> r = \<lparr>rule_permission = p, rule_pattern = lit ''*'', rule_action = Ask\<rparr>"
    using none by blast
  moreover have "evaluate (wildcard_match w) p q rulesets =
      \<lparr>rule_permission = p, rule_pattern = lit ''*'', rule_action = Ask\<rparr>"
    using None by (simp add: evaluate_def)
  ultimately show ?thesis by metis
next
  case (Some x)
  then have "\<not> ?none" unfolding find_last_Some_iff by (metis in_set_conv_decomp)
  moreover have "?last \<longleftrightarrow> find_last (\<lambda>r. wildcard_match w p (rule_permission r) \<and>
      wildcard_match w q (rule_pattern r)) (concat rulesets) = Some r"
    unfolding find_last_Some_iff by blast
  moreover have "evaluate (wildcard_match w) p q rulesets = x" using Some by (simp add: evaluate_def)
  moreover have "(x = r) = (find_last (\<lambda>r. wildcard_match w p (rule_permission r) \<and>
      wildcard_match w q (rule_pattern r)) (concat rulesets) = Some r)"
    using Some by simp
  ultimately show ?thesis by argo
qed

text \<open>\<open>ask\<close> on every branch: one pattern whose deciding rule denies makes it fail with the rules of
  that permission, all patterns allowed let it pass without a trace, and otherwise the request waits
  in the table under its id, on a fresh deferred, after being announced.\<close>

theorem ask_decides:
  "ask m i r rs st =
    (let act = (\<lambda>q. rule_action (evaluate m (req_permission r) q [rs, approved st])) in
     if \<exists>q \<in> set (req_patterns r). act q = Deny
     then (AskDenied (filter (\<lambda>x. m (req_permission r) (rule_permission x)) rs), st)
     else if \<not> (\<exists>q \<in> set (req_patterns r). act q \<noteq> Allow) then (AskAllowed, st)
     else (AskWaiting (next_deferred st),
       st\<lparr>next_deferred := Suc (next_deferred st),
          pending := map_set (pending st) i \<lparr>info = r\<lparr>req_id := i\<rparr>, deferred = next_deferred st\<rparr>,
          published := published st @ [Asked (r\<lparr>req_id := i\<rparr>)]\<rparr>))"
  by (auto simp: ask_def ask_loop_result publish_def Let_def)

text \<open>A rejection closes every pending request of the rejected request's session and no other:
  the replied request fails with the feedback when there is some, the session's other requests fail
  as rejected, and deferreds of other sessions stay as they were.\<close>

theorem reject_closes_the_session:
  assumes "perm_reachable m st" and "map_of (pending st) i = Some e"
  shows "\<exists>st'. reply m i Reject msg st = Inr st' \<and>
    pending st' = filter (\<lambda>x. req_session (info (snd x)) \<noteq> req_session (info e)) (pending st) \<and>
    (\<forall>(k, x) \<in> set (pending st). deferreds st' (deferred x) =
      (if k = i then Some (case msg of None \<Rightarrow> Rejected | Some t \<Rightarrow> if t = [] then Rejected else Corrected t)
       else if req_session (info x) = req_session (info e) then Some Rejected else None))"
proof -
  have inv: "perm_inv st" using assms(1) by (rule perm_reachable_inv)
  have mem: "(i, e) \<in> set (pending st)" using assms(2) by (rule map_of_SomeD)
  have uniq: "x = e" if "(i, x) \<in> set (pending st)" for x
    using inv mem that by (auto simp: perm_inv_def wf_map_def dest: eq_key_imp_eq_value)
  obtain st2 where st2: "pending st2 = map_delete (pending st) i"
    "deferreds st2 = (deferreds st)(deferred e \<mapsto>
      (case msg of None \<Rightarrow> Rejected | Some t \<Rightarrow> if t = [] then Rejected else Corrected t))"
    "reply m i Reject msg st = Inr (sweep (\<lambda>r. req_session r = req_session (info e)) Rejected Reject
      (pending st2) st2)"
    using reply_reject_eq [OF inv assms(2)] by blast
  note swept = close_and_sweep [OF inv mem st2(1,2), where P = "\<lambda>r. req_session r = req_session (info e)"]
  have "filter (\<lambda>x. fst x \<noteq> i \<and> req_session (info (snd x)) \<noteq> req_session (info e)) (pending st) =
      filter (\<lambda>x. req_session (info (snd x)) \<noteq> req_session (info e)) (pending st)"
    using uniq by (intro filter_cong) auto
  with st2(3) swept show ?thesis by auto
qed

text \<open>An approval for good: after \<open>always\<close> on a request, no pending request of its session is left
  that the approved rules cover, and any later request for the same permission whose patterns were
  approved passes without asking, whatever ruleset it brings (the approved rules come last).\<close>

theorem always_grants:
  assumes "perm_reachable (wildcard_match w) st" and "map_of (pending st) i = Some e"
    and "reply (wildcard_match w) i Always msg st = Inr st'"
    and "req_permission r = req_permission (info e)"
    and "set (req_patterns r) \<subseteq> set (req_always (info e))"
  shows "ask (wildcard_match w) j r rs st' = (AskAllowed, st') \<and>
    \<not> (\<exists>x \<in> set (list_pending st'). req_session x = req_session (info e) \<and>
      covered (wildcard_match w) (approved st') x)"
proof -
  have inv: "perm_inv st" using assms(1) by (rule perm_reachable_inv)
  have mem: "(i, e) \<in> set (pending st)" using assms(2) by (rule map_of_SomeD)
  have inv': "perm_inv st'" using perm_inv_reply [OF inv assms(3)] .
  let ?P = "\<lambda>appr r. req_session r = req_session (info e) \<and> covered (wildcard_match w) appr r"
  obtain st2 where st2: "pending st2 = map_delete (pending st) i"
    "deferreds st2 = (deferreds st)(deferred e \<mapsto> Succeeded)"
    "approved st2 = approved st @ map (\<lambda>p. \<lparr>rule_permission = req_permission (info e),
      rule_pattern = p, rule_action = Allow\<rparr>) (req_always (info e))"
    "reply (wildcard_match w) i Always msg st =
      Inr (sweep (?P (approved st2)) Succeeded Always (pending st2) st2)"
    using reply_always_eq [OF inv assms(2)] by blast
  have st': "st' = sweep (?P (approved st2)) Succeeded Always (pending st2) st2"
    using st2(4) assms(3) by simp
  have "rule_action (evaluate (wildcard_match w) (req_permission r) q [rs, approved st']) = Allow"
    if "q \<in> set (req_patterns r)" for q
  proof (rule evaluate_approved)
    show "\<forall>x \<in> set (approved st'). rule_action x = Allow" using perm_inv_approved [OF inv'] by blast
    show "\<exists>x \<in> set (approved st'). rule_permission x = req_permission r \<and> rule_pattern x = q"
      using that assms(4,5)
      by (intro bexI [of _ "\<lparr>rule_permission = req_permission (info e), rule_pattern = q,
          rule_action = Allow\<rparr>"]) (auto simp: st' st2(3))
  qed
  then have "ask (wildcard_match w) j r rs st' = (AskAllowed, st')"
    by (auto simp: ask_def ask_loop_result)
  moreover have "pending st' = filter (\<lambda>x. fst x \<noteq> i \<and> \<not> ?P (approved st') (info (snd x))) (pending st)"
    using close_and_sweep(1) [OF inv mem st2(1,2)] by (simp add: st')
  ultimately show ?thesis by (auto simp: list_pending_def)
qed

text \<open>C37. Safety of the table over every run of the service: each request it lists is filed under its
  own id and still unanswered, and the answer a waiter has received is never replaced by a later step.\<close>

theorem pending_requests_are_answerable:
  assumes "perm_reachable m st"
  shows "(\<forall>(k, x) \<in> set (pending st). req_id (info x) = k \<and> deferreds st (deferred x) = None) \<and>
    (\<forall>st' d out. perm_step m st st' \<longrightarrow> deferreds st d = Some out \<longrightarrow> deferreds st' d = Some out)"
  using perm_reachable_inv [OF assms] by (auto simp: perm_inv_def intro: perm_step_outcome)

section \<open>Witnesses\<close>

definition demo_rules :: "rule list" where
  "demo_rules = [\<lparr>rule_permission = lit ''bash'', rule_pattern = lit ''*'', rule_action = Ask\<rparr>,
     \<lparr>rule_permission = lit ''bash'', rule_pattern = lit ''rm *'', rule_action = Deny\<rparr>]"

definition demo_request :: "jstring \<Rightarrow> jstring \<Rightarrow> unit request" where
  "demo_request s q = \<lparr>req_id = [], req_session = s, req_permission = lit ''bash'', req_patterns = [q],
     req_metadata = (), req_always = [lit ''git *'']\<rparr>"

definition demo_state :: "unit perm_state" where
  "demo_state = snd (ask (wildcard_match False) (lit ''p2'') (demo_request (lit ''s'') (lit ''git log'')) demo_rules
     (snd (ask (wildcard_match False) (lit ''p1'') (demo_request (lit ''s'') (lit ''git diff'')) demo_rules
        initial_state)))"

lemma demo_reachable: "perm_reachable (wildcard_match False) demo_state"
  unfolding demo_state_def
  by (rule perm_reachable.step [OF perm_reachable.step [OF perm_reachable.start ask_step] ask_step])

lemma demo_pending:
  "map_of (pending demo_state) (lit ''p1'') =
    Some \<lparr>info = (demo_request (lit ''s'') (lit ''git diff''))\<lparr>req_id := lit ''p1''\<rparr>, deferred = 0\<rparr>"
  by code_simp

lemma reject_closes_the_session_witness:
  "\<exists>st'. reply (wildcard_match False) (lit ''p1'') Reject None demo_state = Inr st' \<and> pending st' = []"
proof -
  have "filter (\<lambda>x. req_session (info (snd x)) \<noteq> lit ''s'') (pending demo_state) = []" by code_simp
  then show ?thesis
    using reject_closes_the_session [OF demo_reachable demo_pending, of None] by (auto simp: demo_request_def)
qed

lemma always_grants_witness:
  "\<exists>st'. reply (wildcard_match False) (lit ''p1'') Always None demo_state = Inr st' \<and>
    ask (wildcard_match False) (lit ''p3'') (demo_request (lit ''t'') (lit ''git *''))
      [\<lparr>rule_permission = lit ''*'', rule_pattern = lit ''*'', rule_action = Deny\<rparr>] st' = (AskAllowed, st')"
proof -
  obtain st' where st': "reply (wildcard_match False) (lit ''p1'') Always None demo_state = Inr st'"
    using demo_pending by (auto simp: reply_def Let_def)
  then show ?thesis
    using always_grants [OF demo_reachable demo_pending st', of "demo_request (lit ''t'') (lit ''git *'')"]
    by (auto simp: demo_request_def)
qed

lemma pending_requests_are_answerable_witness:
  "deferreds demo_state 0 = None \<and> deferreds demo_state 1 = None \<and> length (pending demo_state) = 2"
proof -
  have "pending demo_state =
      [(lit ''p1'', \<lparr>info = (demo_request (lit ''s'') (lit ''git diff''))\<lparr>req_id := lit ''p1''\<rparr>, deferred = 0\<rparr>),
       (lit ''p2'', \<lparr>info = (demo_request (lit ''s'') (lit ''git log''))\<lparr>req_id := lit ''p2''\<rparr>, deferred = 1\<rparr>)]"
    by code_simp
  then show ?thesis using pending_requests_are_answerable [OF demo_reachable] by auto
qed

end
