(* ===== verification/PermissionUI.thy ===== *)
theory PermissionUI imports Prelude JsText begin

text \<open>
  The permission dialog of the interactive run (packages/opencode/src/cli/cmd/run/permission.shared.ts) and the
  handlers that drive it (footer.permission.tsx). \<open>dialog_handle\<close> is one event of the component: what the user does,
  an answer that failed to be sent, or the next request taking the dialog over. Buttons that are disabled and
  keys that are ignored do nothing.
\<close>

section \<open>Data\<close>

datatype permission_stage = Ask_Stage | Always_Stage | Reject_Stage

datatype permission_option = Once | Always | Refuse | Confirm | Cancel

record permission_body =
  pb_request :: jstring
  pb_stage :: permission_stage
  pb_selected :: permission_option
  pb_message :: jstring
  pb_submitting :: bool

datatype permission_answer = Answer_Once | Answer_Always | Answer_Reject

record permission_reply =
  pr_request :: jstring
  pr_reply :: permission_answer
  pr_message :: "jstring option"

section \<open>The state machine\<close>

definition create_permission_body :: "jstring \<Rightarrow> permission_body" where
  "create_permission_body rid = \<lparr>pb_request = rid, pb_stage = Ask_Stage, pb_selected = Once, pb_message = [], pb_submitting = False\<rparr>"

fun permission_options :: "permission_stage \<Rightarrow> permission_option list" where
  "permission_options Ask_Stage = [Once, Always, Refuse]"
| "permission_options Always_Stage = [Confirm, Cancel]"
| "permission_options Reject_Stage = []"

fun permission_label :: "permission_option \<Rightarrow> jstring" where
  "permission_label Once = lit ''Allow once''"
| "permission_label Always = lit ''Allow always''"
| "permission_label Refuse = lit ''Reject''"
| "permission_label Confirm = lit ''Confirm''"
| "permission_label Cancel = lit ''Cancel''"

definition permission_always_lines :: "jstring \<Rightarrow> jstring list \<Rightarrow> jstring list" where
  \<comment> \<open>of the permission and the patterns it would be allowed for\<close>
  "permission_always_lines permission always =
    (if always = [lit ''*''] then [lit ''This will allow '' @ permission @ lit '' until OpenCode is restarted.'']
     else lit ''This will allow the following patterns until OpenCode is restarted.'' # map (\<lambda>p. lit ''- '' @ p) always)"

definition permission_reply_of :: "jstring \<Rightarrow> permission_answer \<Rightarrow> jstring \<Rightarrow> permission_reply" where
  \<comment> \<open>no message is the empty one\<close>
  "permission_reply_of rid a msg = \<lparr>pr_request = rid, pr_reply = a, pr_message = (if trim msg \<noteq> [] then Some (trim msg) else None)\<rparr>"

fun index_in :: "'a \<Rightarrow> 'a list \<Rightarrow> int" where
  \<comment> \<open>\<open>indexOf\<close>\<close>
  "index_in x [] = -1"
| "index_in x (y # ys) = (if x = y then 0 else let i = index_in x ys in if i < 0 then -1 else i + 1)"

definition permission_shift :: "permission_body \<Rightarrow> int \<Rightarrow> permission_body" where
  "permission_shift st dir =
    (let xs = permission_options (pb_stage st); n = int (length xs) in
     if n = 0 then st
     else st\<lparr>pb_selected := xs ! nat ((max 0 (index_in (pb_selected st) xs) + dir + n) mod n)\<rparr>)"

definition permission_hover :: "permission_body \<Rightarrow> permission_option \<Rightarrow> permission_body" where
  "permission_hover st opt = st\<lparr>pb_selected := opt\<rparr>"

definition permission_run :: "permission_body \<Rightarrow> jstring \<Rightarrow> permission_option \<Rightarrow> permission_body \<times> permission_reply option" where
  "permission_run st rid opt =
    (if pb_submitting st then (st, None)
     else case pb_stage st of
         Ask_Stage \<Rightarrow>
           if opt = Always then (st\<lparr>pb_stage := Always_Stage, pb_selected := Confirm\<rparr>, None)
           else if opt = Refuse then (st\<lparr>pb_stage := Reject_Stage, pb_selected := Refuse\<rparr>, None)
           else (st, Some (permission_reply_of rid Answer_Once []))
       | Always_Stage \<Rightarrow>
           if opt = Cancel then (st\<lparr>pb_stage := Ask_Stage, pb_selected := Always\<rparr>, None)
           else (st, Some (permission_reply_of rid Answer_Always []))
       | Reject_Stage \<Rightarrow> (st, None))"

definition permission_reject :: "permission_body \<Rightarrow> jstring \<Rightarrow> permission_reply option" where
  "permission_reject st rid = (if pb_submitting st then None else Some (permission_reply_of rid Answer_Reject (pb_message st)))"

definition permission_cancel :: "permission_body \<Rightarrow> permission_body" where
  "permission_cancel st = st\<lparr>pb_stage := Ask_Stage, pb_selected := Refuse\<rparr>"

definition permission_escape :: "permission_body \<Rightarrow> permission_body" where
  "permission_escape st =
    (if pb_stage st = Always_Stage then st\<lparr>pb_stage := Ask_Stage, pb_selected := Always\<rparr>
     else st\<lparr>pb_stage := Reject_Stage, pb_selected := Refuse\<rparr>)"

section \<open>The component\<close>

datatype permission_key = Tab_Key bool | Left_Key | Right_Key | Return_Key | Escape_Key

datatype permission_event =
    Press permission_key
  | Hover permission_option
  | Click permission_option
  | Write jstring \<comment> \<open>the text of the rejection\<close>
  | Submit_Text
  | Cancel_Text
  | Send_Failed
  | New_Request jstring

record dialog =
  dg_request :: jstring \<comment> \<open>\<open>props.request.id\<close>\<close>
  dg_body :: permission_body

definition dialog_send :: "dialog \<Rightarrow> permission_reply \<Rightarrow> dialog \<times> permission_reply option" where
  \<comment> \<open>\<open>submit\<close> up to its await\<close>
  "dialog_send d r = (d\<lparr>dg_body := (dg_body d)\<lparr>pb_submitting := True\<rparr>\<rparr>, Some r)"

definition run_option :: "dialog \<Rightarrow> permission_option \<Rightarrow> dialog \<times> permission_reply option" where
  "run_option d opt =
    (case permission_run (dg_body d) (dg_request d) opt of
       (st, None) \<Rightarrow> (d\<lparr>dg_body := st\<rparr>, None)
     | (st, Some r) \<Rightarrow> dialog_send (d\<lparr>dg_body := st\<rparr>) r)"

fun dialog_press :: "dialog \<Rightarrow> permission_key \<Rightarrow> dialog \<times> permission_reply option" where
  "dialog_press d (Tab_Key shift) = (d\<lparr>dg_body := permission_shift (dg_body d) (if shift then -1 else 1)\<rparr>, None)"
| "dialog_press d Left_Key = (d\<lparr>dg_body := permission_shift (dg_body d) (-1)\<rparr>, None)"
| "dialog_press d Right_Key = (d\<lparr>dg_body := permission_shift (dg_body d) 1\<rparr>, None)"
| "dialog_press d Return_Key = run_option d (pb_selected (dg_body d))"
| "dialog_press d Escape_Key = (d\<lparr>dg_body := permission_escape (dg_body d)\<rparr>, None)"

definition dialog_offers :: "dialog \<Rightarrow> permission_option \<Rightarrow> bool" where
  \<comment> \<open>the option has a button that is not disabled\<close>
  "dialog_offers d opt \<longleftrightarrow> opt \<in> set (permission_options (pb_stage (dg_body d))) \<and> \<not> pb_submitting (dg_body d)"

fun dialog_handle :: "dialog \<Rightarrow> permission_event \<Rightarrow> dialog \<times> permission_reply option" where
  "dialog_handle d (Press k) = (if pb_stage (dg_body d) = Reject_Stage \<or> pb_submitting (dg_body d) then (d, None) else dialog_press d k)"
| "dialog_handle d (Hover opt) = (if dialog_offers d opt then (d\<lparr>dg_body := permission_hover (dg_body d) opt\<rparr>, None) else (d, None))"
| "dialog_handle d (Click opt) = (if dialog_offers d opt then run_option d opt else (d, None))"
| "dialog_handle d (Write t) = (if pb_stage (dg_body d) = Reject_Stage then (d\<lparr>dg_body := (dg_body d)\<lparr>pb_message := t\<rparr>\<rparr>, None) else (d, None))"
| "dialog_handle d Submit_Text =
    (if pb_stage (dg_body d) \<noteq> Reject_Stage then (d, None)
     else case permission_reject (dg_body d) (dg_request d) of None \<Rightarrow> (d, None) | Some r \<Rightarrow> dialog_send d r)"
| "dialog_handle d Cancel_Text = (if pb_stage (dg_body d) = Reject_Stage then (d\<lparr>dg_body := permission_cancel (dg_body d)\<rparr>, None) else (d, None))"
| "dialog_handle d Send_Failed = (d\<lparr>dg_body := (dg_body d)\<lparr>pb_submitting := False\<rparr>\<rparr>, None)"
| "dialog_handle d (New_Request rid) =
    (\<lparr>dg_request = rid, dg_body = (if pb_request (dg_body d) = rid then dg_body d else create_permission_body rid)\<rparr>, None)"

fun dialog_run :: "dialog \<Rightarrow> permission_event list \<Rightarrow> dialog \<times> (permission_event \<times> permission_reply) list" where
  \<comment> \<open>the answers sent, each with the event that sent it\<close>
  "dialog_run d [] = (d, [])"
| "dialog_run d (e # es) =
    (case dialog_handle d e of (d1, r) \<Rightarrow> (case dialog_run d1 es of (d2, rs) \<Rightarrow> (d2, (case r of Some x \<Rightarrow> [(e, x)] | None \<Rightarrow> []) @ rs)))"

definition open_dialog :: "jstring \<Rightarrow> dialog" where
  "open_dialog rid = \<lparr>dg_request = rid, dg_body = create_permission_body rid\<rparr>"

section \<open>What can be selected and sent\<close>

fun selectable :: "permission_stage \<Rightarrow> permission_option \<Rightarrow> bool" where
  "selectable Ask_Stage opt = (opt \<in> {Once, Always, Refuse})"
| "selectable Always_Stage opt = (opt \<in> {Confirm, Cancel})"
| "selectable Reject_Stage opt = (opt = Refuse)"

definition dialog_ok :: "dialog \<Rightarrow> bool" where
  "dialog_ok d \<longleftrightarrow> pb_request (dg_body d) = dg_request d \<and> selectable (pb_stage (dg_body d)) (pb_selected (dg_body d))"

fun legal_answer :: "dialog \<Rightarrow> permission_event \<Rightarrow> permission_reply \<Rightarrow> bool" where
  \<comment> \<open>for the request shown, and what the dialog asked for where it was given\<close>
  "legal_answer d e r \<longleftrightarrow> pr_request r = dg_request d \<and> \<not> pb_submitting (dg_body d) \<and>
    (case pr_reply r of
       Answer_Once \<Rightarrow> pb_stage (dg_body d) = Ask_Stage \<and> e \<in> {Press Return_Key, Click Once} \<and> pr_message r = None
     | Answer_Always \<Rightarrow> pb_stage (dg_body d) = Always_Stage \<and> e \<in> {Press Return_Key, Click Confirm} \<and> pr_message r = None
     | Answer_Reject \<Rightarrow> pb_stage (dg_body d) = Reject_Stage \<and> e = Submit_Text \<and>
         (case pr_message r of None \<Rightarrow> trim (pb_message (dg_body d)) = [] | Some t \<Rightarrow> t = trim (pb_message (dg_body d)) \<and> t \<noteq> []))"

lemma options_selectable: "opt \<in> set (permission_options stage) \<Longrightarrow> selectable stage opt"
  by (cases stage) auto

lemma shift_ok:
  assumes "selectable (pb_stage st) (pb_selected st)"
  shows "selectable (pb_stage (permission_shift st dir)) (pb_selected (permission_shift st dir)) \<and>
    pb_request (permission_shift st dir) = pb_request st \<and> pb_submitting (permission_shift st dir) = pb_submitting st"
proof (cases "permission_options (pb_stage st) = []")
  case True
  with assms show ?thesis by (simp add: permission_shift_def)
next
  case False
  let ?xs = "permission_options (pb_stage st)"
  let ?i = "nat ((max 0 (index_in (pb_selected st) ?xs) + dir + int (length ?xs)) mod int (length ?xs))"
  have "?i < length ?xs" using False by (simp add: nat_less_iff)
  then have "selectable (pb_stage st) (?xs ! ?i)" by (intro options_selectable nth_mem)
  with False show ?thesis by (simp add: permission_shift_def Let_def)
qed

definition waits_for_reply :: "dialog \<Rightarrow> bool" where
  "waits_for_reply d \<longleftrightarrow> pb_submitting (dg_body d)"

lemma run_option_facts:
  assumes ok: "dialog_ok d" and sel: "selectable (pb_stage (dg_body d)) opt" and run: "run_option d opt = (d', r)"
  shows "dialog_ok d' \<and> (waits_for_reply d' \<longleftrightarrow> waits_for_reply d \<or> r \<noteq> None) \<and>
    (\<forall>x. r = Some x \<longrightarrow> \<not> waits_for_reply d \<and> (\<forall>e. opt = Once \<and> e \<in> {Press Return_Key, Click Once} \<or> opt = Confirm \<and> e \<in> {Press Return_Key, Click Confirm} \<longrightarrow> legal_answer d e x) \<and>
      opt \<in> {Once, Confirm})"
proof (cases "pb_submitting (dg_body d)")
  case True
  with run ok show ?thesis by (auto simp: run_option_def permission_run_def waits_for_reply_def)
next
  case False
  with ok sel run show ?thesis
    by (cases "pb_stage (dg_body d)")
      (auto simp: run_option_def permission_run_def dialog_send_def dialog_ok_def waits_for_reply_def permission_reply_of_def
        split: if_split_asm)
qed

lemma press_facts:
  assumes ok: "dialog_ok d" and free: "pb_stage (dg_body d) \<noteq> Reject_Stage" "\<not> pb_submitting (dg_body d)"
    and p: "dialog_press d k = (d', r)"
  shows "dialog_ok d' \<and> (waits_for_reply d' \<longleftrightarrow> waits_for_reply d \<or> r \<noteq> None) \<and> (\<forall>x. r = Some x \<longrightarrow> legal_answer d (Press k) x)"
proof (cases "k = Return_Key")
  case True
  have sel: "selectable (pb_stage (dg_body d)) (pb_selected (dg_body d))" using ok by (simp add: dialog_ok_def)
  from run_option_facts [OF ok sel, of d' r] p True show ?thesis by fastforce
next
  case False
  have sh: "selectable (pb_stage (permission_shift (dg_body d) dir)) (pb_selected (permission_shift (dg_body d) dir)) \<and>
    pb_request (permission_shift (dg_body d) dir) = pb_request (dg_body d) \<and>
    pb_submitting (permission_shift (dg_body d) dir) = pb_submitting (dg_body d)" for dir
    using ok by (intro shift_ok) (simp add: dialog_ok_def)
  show ?thesis
  proof (cases "k = Escape_Key")
    case True
    with p ok show ?thesis
      by (cases "pb_stage (dg_body d)") (auto simp: dialog_ok_def permission_escape_def waits_for_reply_def)
  next
    case esc: False
    with False p obtain dir where "d' = d\<lparr>dg_body := permission_shift (dg_body d) dir\<rparr>" "r = None" by (cases k) auto
    with sh [of dir] ok show ?thesis by (simp add: dialog_ok_def waits_for_reply_def)
  qed
qed

fun outside :: "permission_event \<Rightarrow> bool" where
  \<comment> \<open>what is not the user's doing\<close>
  "outside Send_Failed = True"
| "outside (New_Request rid) = True"
| "outside e = False"

lemma handle_facts:
  assumes ok: "dialog_ok d" and h: "dialog_handle d e = (d', r)"
  shows "dialog_ok d' \<and> (\<forall>x. r = Some x \<longrightarrow> legal_answer d e x) \<and>
    (\<not> outside e \<longrightarrow> (waits_for_reply d' \<longleftrightarrow> waits_for_reply d \<or> r \<noteq> None))"
proof (cases e)
  case (Press k)
  show ?thesis
  proof (cases "pb_stage (dg_body d) = Reject_Stage \<or> pb_submitting (dg_body d)")
    case True
    with h Press ok show ?thesis by auto
  next
    case False
    with press_facts [OF ok, of k d' r] h Press show ?thesis by simp
  qed
next
  case (Hover opt)
  show ?thesis
  proof (cases "dialog_offers d opt")
    case True
    then have "selectable (pb_stage (dg_body d)) opt" by (simp add: dialog_offers_def options_selectable)
    with True h Hover ok show ?thesis by (auto simp: permission_hover_def dialog_ok_def waits_for_reply_def)
  next
    case False
    with h Hover ok show ?thesis by auto
  qed
next
  case (Click opt)
  show ?thesis
  proof (cases "dialog_offers d opt")
    case True
    then have "selectable (pb_stage (dg_body d)) opt" by (simp add: dialog_offers_def options_selectable)
    from run_option_facts [OF ok this, of d' r] True h Click show ?thesis by fastforce
  next
    case False
    with h Click ok show ?thesis by auto
  qed
next
  case Submit_Text
  show ?thesis
  proof (cases "pb_stage (dg_body d) = Reject_Stage \<and> \<not> pb_submitting (dg_body d)")
    case True
    with h Submit_Text ok show ?thesis
      by (auto simp: permission_reject_def permission_reply_of_def dialog_send_def dialog_ok_def waits_for_reply_def)
  next
    case False
    with h Submit_Text ok show ?thesis by (auto simp: permission_reject_def split: if_split_asm)
  qed
qed (use h ok in \<open>auto simp: dialog_ok_def permission_cancel_def waits_for_reply_def create_permission_body_def split: if_split_asm\<close>)

lemma run_facts:
  assumes "dialog_ok d"
  shows "dialog_ok (fst (dialog_run d es)) \<and> (list_all (\<lambda>e. \<not> outside e) es \<longrightarrow>
    length (snd (dialog_run d es)) \<le> (if waits_for_reply d then 0 else 1))"
  using assms
proof (induction es arbitrary: d)
  case (Cons e es)
  obtain d1 r where h: "dialog_handle d e = (d1, r)" by fastforce
  obtain d2 rs where run: "dialog_run d1 es = (d2, rs)" by fastforce
  note facts = handle_facts [OF Cons.prems h]
  from Cons.IH [of d1] facts run have IH: "dialog_ok d2 \<and>
      (list_all (\<lambda>e. \<not> outside e) es \<longrightarrow> length rs \<le> (if waits_for_reply d1 then 0 else 1))" by simp
  have "r = Some x \<Longrightarrow> \<not> waits_for_reply d" for x using facts by (auto simp: waits_for_reply_def)
  with IH facts h run show ?case by (cases r) (auto split: if_split_asm)
qed simp

text \<open>C38. Whatever happens in the permission dialog, the option that is selected is one of its stage, and an answer
  is sent only for the request shown, only while no answer is under way, and only where the dialog asked
  for it: \<open>once\<close> at the first stage by its button or the key, \<open>always\<close> at the confirmation, \<open>reject\<close> with the
  trimmed text of the rejection stage. The user alone never gets a second answer sent.\<close>

theorem answers_are_deliberate:
  assumes "d = fst (dialog_run (open_dialog rid) es)"
  shows "dialog_ok d \<and> (\<forall>e r. snd (dialog_handle d e) = Some r \<longrightarrow> legal_answer d e r) \<and>
    (list_all (\<lambda>e. \<not> outside e) es \<longrightarrow> length (snd (dialog_run (open_dialog rid) es)) \<le> 1)"
proof -
  have start: "dialog_ok (open_dialog rid)" by (simp add: dialog_ok_def open_dialog_def create_permission_body_def)
  note all = run_facts [OF start, of es]
  then have ok: "dialog_ok d" by (simp add: assms)
  have "legal_answer d e r" if "snd (dialog_handle d e) = Some r" for e r
    using handle_facts [OF ok, of e "fst (dialog_handle d e)" "Some r"] that by (metis surjective_pairing)
  moreover have "length (snd (dialog_run (open_dialog rid) es)) \<le> 1" if "list_all (\<lambda>e. \<not> outside e) es"
    using all that by (simp add: open_dialog_def create_permission_body_def waits_for_reply_def)
  ultimately show ?thesis using ok by blast
qed

definition demo_events :: "permission_event list" where
  \<comment> \<open>always, cancelled; then a rejection with a text, sent twice\<close>
  "demo_events = [Press Right_Key, Press Return_Key, Press (Tab_Key False), Press Return_Key, Press Escape_Key, Write (lit '' no ''),
     Submit_Text, Submit_Text]"

lemma answers_are_deliberate_witness:
  "map (\<lambda>(e, r). (e, pr_reply r, pr_message r)) (snd (dialog_run (open_dialog (lit ''q'')) demo_events)) =
     [(Submit_Text, Answer_Reject, Some (lit ''no''))] \<and>
   length (snd (dialog_run (open_dialog (lit ''q'')) demo_events)) \<le> 1 \<and>
   legal_answer (fst (dialog_run (open_dialog (lit ''q'')) [])) (Press Return_Key) (permission_reply_of (lit ''q'') Answer_Once [])"
proof -
  have sent: "map (\<lambda>(e, r). (e, pr_reply r, pr_message r)) (snd (dialog_run (open_dialog (lit ''q'')) demo_events)) =
     [(Submit_Text, Answer_Reject, Some (lit ''no''))]" by code_simp
  have user: "list_all (\<lambda>e. \<not> outside e) demo_events" by code_simp
  have "snd (dialog_handle (fst (dialog_run (open_dialog (lit ''q'')) [])) (Press Return_Key)) =
      Some (permission_reply_of (lit ''q'') Answer_Once [])" by code_simp
  with answers_are_deliberate [OF refl, of "lit ''q''" "[]"] answers_are_deliberate [OF refl, of "lit ''q''" demo_events] user sent
  show ?thesis by blast
qed

section \<open>A late failure\<close>

lemma late_failure_reopens_the_dialog:
  \<comment> \<open>the sending for request \<open>a\<close> fails after \<open>b\<close> was answered: \<open>b\<close> can be answered again\<close>
  "map snd (snd (dialog_run (open_dialog (lit ''a'')) [Press Return_Key, New_Request (lit ''b''), Press Return_Key, Send_Failed, Press Return_Key])) =
    [permission_reply_of (lit ''a'') Answer_Once [], permission_reply_of (lit ''b'') Answer_Once [], permission_reply_of (lit ''b'') Answer_Once []]"
  by code_simp

end
