(* ===== verification/QuestionUI.thy ===== *)
theory QuestionUI imports Prelude JsText begin

text \<open>
  The question form of the interactive run (packages/opencode/src/cli/cmd/run/question.shared.ts) and the
  event handlers that drive it (footer.question.tsx). The body state is immutable; \<open>handle\<close> is one
  event of the component and says what it sends to the server, \<open>body_run\<close> a sequence of events
  for one request. \<open>tab\<close> and \<open>selected\<close> are never negative, so they are naturals.
\<close>

section \<open>Data\<close>

record question_info =
  options :: "jstring list" \<comment> \<open>the labels; descriptions are shown only\<close>
  multiple :: "bool option"
  custom_allowed :: "bool option" \<comment> \<open>\<open>custom\<close>\<close>

record question_request =
  request_id :: jstring
  questions :: "question_info list"

record question_body =
  body_request :: jstring
  tab :: nat
  answers :: "jstring list option list" \<comment> \<open>\<open>None\<close>: a hole, which reads as undefined\<close>
  custom :: "jstring option list"
  selected :: nat
  editing :: bool
  submitting :: bool

record question_reply =
  reply_request :: jstring
  reply_answers :: "jstring list list"

type_synonym question_step = "question_body \<times> question_reply option"

section \<open>Views of the state\<close>

definition create_body :: "jstring \<Rightarrow> question_body" where
  "create_body rid = \<lparr>body_request = rid, tab = 0, answers = [], custom = [], selected = 0, editing = False, submitting = False\<rparr>"

definition question_sync :: "question_body \<Rightarrow> jstring \<Rightarrow> question_body" where
  "question_sync st rid = (if body_request st = rid then st else create_body rid)"

definition question_single :: "question_request \<Rightarrow> bool" where
  "question_single req \<longleftrightarrow> length (questions req) = 1 \<and> multiple (hd (questions req)) \<noteq> Some True"

definition question_tabs :: "question_request \<Rightarrow> nat" where
  "question_tabs req = (if question_single req then 1 else length (questions req) + 1)"

definition question_confirm :: "question_request \<Rightarrow> question_body \<Rightarrow> bool" where
  "question_confirm req st \<longleftrightarrow> \<not> question_single req \<and> tab st = length (questions req)"

definition info_of :: "question_request \<Rightarrow> question_body \<Rightarrow> question_info option" where
  "info_of req st = (if tab st < length (questions req) then Some (questions req ! tab st) else None)"

definition question_custom :: "question_request \<Rightarrow> question_body \<Rightarrow> bool" where
  "question_custom req st \<longleftrightarrow> Option.bind (info_of req st) custom_allowed \<noteq> Some False"

definition question_input :: "question_body \<Rightarrow> jstring" where
  "question_input st = (case get_at None (custom st) (tab st) of Some t \<Rightarrow> t | None \<Rightarrow> [])"

definition answers_at :: "question_body \<Rightarrow> nat \<Rightarrow> jstring list" where
  \<comment> \<open>\<open>state.answers[i] ?? []\<close>\<close>
  "answers_at st i = (case get_at None (answers st) i of Some xs \<Rightarrow> xs | None \<Rightarrow> [])"

definition question_picked :: "question_body \<Rightarrow> bool" where
  "question_picked st = (let entered = question_input st in entered \<noteq> [] \<and> entered \<in> set (answers_at st (tab st)))"

definition question_other :: "question_request \<Rightarrow> question_body \<Rightarrow> bool" where
  "question_other req st =
    (case info_of req st of
       None \<Rightarrow> False
     | Some info \<Rightarrow> custom_allowed info \<noteq> Some False \<and> selected st = length (options info))"

definition question_total :: "question_request \<Rightarrow> question_body \<Rightarrow> nat" where
  "question_total req st =
    (case info_of req st of
       None \<Rightarrow> 0
     | Some info \<Rightarrow> length (options info) + (if question_custom req st then 1 else 0))"

definition question_answers :: "question_body \<Rightarrow> nat \<Rightarrow> jstring list list" where
  "question_answers st count = map (answers_at st) [0..<count]"

section \<open>Transitions\<close>

definition set_tab :: "question_body \<Rightarrow> nat \<Rightarrow> question_body" where
  "set_tab st t = st\<lparr>tab := t, selected := 0, editing := False\<rparr>"

definition store_answers :: "question_body \<Rightarrow> nat \<Rightarrow> jstring list \<Rightarrow> question_body" where
  "store_answers st t xs = st\<lparr>answers := set_at None (answers st) t (Some xs)\<rparr>"

definition store_custom :: "question_body \<Rightarrow> nat \<Rightarrow> jstring \<Rightarrow> question_body" where
  "store_custom st t s = st\<lparr>custom := set_at None (custom st) t (Some s)\<rparr>"

definition question_pick :: "question_body \<Rightarrow> question_request \<Rightarrow> jstring \<Rightarrow> bool \<Rightarrow> question_step" where
  "question_pick st req answer is_custom =
    (let st1 = st\<lparr>answers := set_at None (answers st) (tab st) (Some [answer]), editing := False\<rparr>;
         st2 = (if is_custom then st1\<lparr>custom := set_at None (custom st) (tab st) (Some answer)\<rparr> else st1)
     in if question_single req then (st2, Some \<lparr>reply_request = request_id req, reply_answers = [[answer]]\<rparr>)
        else (set_tab st2 (tab st + 1), None))"

definition toggle_answer :: "jstring \<Rightarrow> jstring list \<Rightarrow> jstring list" where
  "toggle_answer answer xs = (if answer \<in> set xs then remove1 answer xs else xs @ [answer])"

definition question_toggle :: "question_body \<Rightarrow> jstring \<Rightarrow> question_body" where
  "question_toggle st answer = store_answers st (tab st) (toggle_answer answer (answers_at st (tab st)))"

definition question_move :: "question_body \<Rightarrow> question_request \<Rightarrow> int \<Rightarrow> question_body" where
  "question_move st req dir =
    (let total = question_total req st
     in if total = 0 then st else st\<lparr>selected := nat ((int (selected st) + dir + int total) mod int total)\<rparr>)"

definition question_select :: "question_body \<Rightarrow> question_request \<Rightarrow> question_step" where
  "question_select st req =
    (case info_of req st of
       None \<Rightarrow> (st, None)
     | Some info \<Rightarrow>
         if question_other req st then
           if multiple info \<noteq> Some True then (st\<lparr>editing := True\<rparr>, None)
           else
             let entered = question_input st
             in if entered \<noteq> [] \<and> question_picked st then (question_toggle st entered, None)
                else (st\<lparr>editing := True\<rparr>, None)
         else if selected st < length (options info) then
           let label = options info ! selected st
           in if multiple info = Some True then (question_toggle st label, None)
              else question_pick st req label False
         else (st, None))"

definition question_save :: "question_body \<Rightarrow> question_request \<Rightarrow> question_step" where
  "question_save st req =
    (case info_of req st of
       None \<Rightarrow> (st, None)
     | Some info \<Rightarrow>
         let entered = trim (question_input st); prev = get_at None (custom st) (tab st)
         in if entered = [] then
              if prev = None \<or> prev = Some [] then (st\<lparr>editing := False\<rparr>, None)
              else
                let st1 = store_custom st (tab st) []
                in ((store_answers st1 (tab st)
                      (filter (\<lambda>item. Some item \<noteq> prev) (answers_at st (tab st))))\<lparr>editing := False\<rparr>, None)
            else if multiple info = Some True then
              let xs = answers_at st (tab st);
                  xs1 = (case prev of Some p \<Rightarrow> if p \<noteq> [] then remove1 p xs else xs | None \<Rightarrow> xs);
                  xs2 = (if entered \<in> set xs1 then xs1 else xs1 @ [entered]);
                  st1 = store_custom st (tab st) entered
              in ((store_answers st1 (tab st) xs2)\<lparr>editing := False\<rparr>, None)
            else question_pick st req entered True)"

definition question_submit :: "question_request \<Rightarrow> question_body \<Rightarrow> question_reply" where
  "question_submit req st =
    \<lparr>reply_request = request_id req, reply_answers = question_answers st (length (questions req))\<rparr>"

section \<open>The component's handlers\<close>

datatype question_event =
    Tab_Left | Tab_Right | Tab_Click nat | Move_Selection int | Mark nat | Choose nat | Return | Escape
  | Edit_Text jstring | Save_Text | Send_Failed

datatype question_out = Answer question_reply | Reject jstring

definition begin_reply :: "question_step \<Rightarrow> question_body \<times> question_out option" where
  "begin_reply r = (case r of (st, None) \<Rightarrow> (st, None) | (st, Some rep) \<Rightarrow> (st\<lparr>submitting := True\<rparr>, Some (Answer rep)))"

definition begin_reject :: "question_request \<Rightarrow> question_body \<Rightarrow> question_body \<times> question_out option" where
  "begin_reject req st = (st\<lparr>submitting := True\<rparr>, Some (Reject (request_id req)))"

fun handle :: "question_request \<Rightarrow> question_event \<Rightarrow> question_body \<Rightarrow> question_body \<times> question_out option" where
  \<comment> \<open>keys are ignored while a text is edited; the text area exists only then; a row is marked or
     chosen only where it is shown; a failed send reopens the form\<close>
  "handle req Send_Failed st = (st\<lparr>submitting := False\<rparr>, None)"
| "handle req Tab_Left st =
    (if submitting st \<or> editing st \<or> question_single req then (st, None)
     else (set_tab st ((tab st + question_tabs req - 1) mod question_tabs req), None))"
| "handle req Tab_Right st =
    (if submitting st \<or> editing st \<or> question_single req then (st, None)
     else (set_tab st ((tab st + 1) mod question_tabs req), None))"
| "handle req (Tab_Click t) st =
    (if submitting st \<or> question_single req \<or> length (questions req) < t then (st, None) else (set_tab st t, None))"
| "handle req (Move_Selection dir) st =
    (if submitting st \<or> editing st \<or> question_confirm req st \<or> \<bar>dir\<bar> \<noteq> 1 then (st, None) else (question_move st req dir, None))"
| "handle req (Mark i) st =
    (if submitting st \<or> question_total req st \<le> i then (st, None) else (st\<lparr>selected := i\<rparr>, None))"
| "handle req (Choose i) st =
    (if submitting st \<or> question_total req st \<le> i then (st, None)
     else begin_reply (question_select (st\<lparr>selected := i\<rparr>) req))"
| "handle req Return st =
    (if submitting st \<or> editing st then (st, None)
     else if question_confirm req st then begin_reply (st, Some (question_submit req st))
     else begin_reply (question_select st req))"
| "handle req Escape st =
    (if submitting st then (st, None)
     else if editing st then (st\<lparr>editing := False\<rparr>, None)
     else begin_reject req st)"
| "handle req (Edit_Text s) st =
    (if submitting st \<or> \<not> editing st then (st, None) else (store_custom st (tab st) s, None))"
| "handle req Save_Text st =
    (if \<not> editing st then (st, None) else begin_reply (question_save st req))"

fun body_run :: "question_request \<Rightarrow> question_event list \<Rightarrow> question_body \<Rightarrow> question_body \<times> question_out list" where
  "body_run req [] st = (st, [])"
| "body_run req (ev # evs) st =
    (case handle req ev st of (st1, out) \<Rightarrow>
      (case body_run req evs st1 of (st2, outs) \<Rightarrow> (st2, (case out of None \<Rightarrow> outs | Some o1 \<Rightarrow> o1 # outs))))"

definition opened :: "question_request \<Rightarrow> question_event list \<Rightarrow> question_body" where
  \<comment> \<open>the form of a request after some events\<close>
  "opened req evs = fst (body_run req evs (create_body (request_id req)))"

definition sent :: "question_request \<Rightarrow> question_event list \<Rightarrow> question_out list" where
  "sent req evs = snd (body_run req evs (create_body (request_id req)))"

section \<open>Legal answers\<close>

definition legal_answers :: "question_info \<Rightarrow> jstring list \<Rightarrow> bool" where
  \<comment> \<open>no answer twice, at most one where the question asks for one, and each the label of an option
     or, where the question lets the user write one, a trimmed text\<close>
  "legal_answers info xs \<longleftrightarrow>
    distinct xs \<and> (multiple info = Some True \<or> length xs \<le> 1) \<and>
    (\<forall>a \<in> set xs. a \<in> set (options info) \<or> (custom_allowed info \<noteq> Some False \<and> a \<noteq> [] \<and> trim a = a))"

definition legal_out :: "question_request \<Rightarrow> question_out \<Rightarrow> bool" where
  "legal_out req out =
    (case out of
       Reject rid \<Rightarrow> rid = request_id req
     | Answer r \<Rightarrow> reply_request r = request_id req \<and> list_all2 legal_answers (questions req) (reply_answers r))"

definition body_ok :: "question_request \<Rightarrow> question_body \<Rightarrow> bool" where
  "body_ok req st \<longleftrightarrow>
    tab st \<le> length (questions req) \<and> (question_single req \<longrightarrow> tab st = 0) \<and>
    (selected st = 0 \<or> selected st < question_total req st) \<and>
    (editing st \<longrightarrow> (\<exists>info. info_of req st = Some info \<and> custom_allowed info \<noteq> Some False)) \<and>
    (\<forall>i < length (questions req). legal_answers (questions req ! i) (answers_at st i))"

lemma legal_answers_Nil [simp]: "legal_answers info []"
  by (simp add: legal_answers_def)

lemma body_ok_create: "body_ok req (create_body rid)"
  by (simp add: body_ok_def create_body_def answers_at_def get_at_def)

lemma info_of_SomeD: "info_of req st = Some info \<Longrightarrow> tab st < length (questions req) \<and> info = questions req ! tab st"
  by (simp add: info_of_def split: if_splits)

lemmas views = info_of_def question_total_def question_custom_def

lemma same_views:
  "tab st' = tab st \<Longrightarrow> info_of req st' = info_of req st"
  "tab st' = tab st \<Longrightarrow> question_total req st' = question_total req st"
  by (simp_all add: views)

lemma views_upd [simp]:
  "info_of req (st\<lparr>selected := n\<rparr>) = info_of req st" "info_of req (st\<lparr>editing := b\<rparr>) = info_of req st"
  "info_of req (st\<lparr>submitting := b\<rparr>) = info_of req st" "info_of req (store_custom st t s) = info_of req st"
  "question_total req (st\<lparr>selected := n\<rparr>) = question_total req st" "question_total req (st\<lparr>editing := b\<rparr>) = question_total req st"
  "question_total req (st\<lparr>submitting := b\<rparr>) = question_total req st" "question_total req (store_custom st t s) = question_total req st"
  by (simp_all add: views store_custom_def)

lemma answers_at_store [simp]: "answers_at (store_answers st t xs) i = (if i = t then xs else answers_at st i)"
  by (simp add: answers_at_def store_answers_def)

lemma answers_at_cong: "answers st' = answers st \<Longrightarrow> answers_at st' = answers_at st"
  by (simp add: answers_at_def fun_eq_iff)

lemma answers_at_upd [simp]:
  "answers_at (st\<lparr>tab := t\<rparr>) = answers_at st" "answers_at (st\<lparr>selected := n\<rparr>) = answers_at st"
  "answers_at (st\<lparr>editing := b\<rparr>) = answers_at st" "answers_at (st\<lparr>submitting := b\<rparr>) = answers_at st"
  "answers_at (st\<lparr>custom := c\<rparr>) = answers_at st" "answers_at (store_custom st t s) = answers_at st"
  "answers_at (set_tab st t) = answers_at st"
  by (simp_all add: answers_at_def fun_eq_iff store_custom_def set_tab_def)

lemma body_okD:
  assumes "body_ok req st"
  shows "i < length (questions req) \<Longrightarrow> legal_answers (questions req ! i) (answers_at st i)"
  using assms by (simp add: body_ok_def)

lemma body_ok_same_tab:
  \<comment> \<open>a transition that stays on the tab and rewrites at most its answers\<close>
  assumes ok: "body_ok req st" and t: "tab st' = tab st" and info: "info_of req st = Some info"
    and sel: "selected st' = selected st \<or> selected st' < question_total req st"
    and ed: "editing st' \<longrightarrow> custom_allowed info \<noteq> Some False"
    and ans: "\<And>i. i \<noteq> tab st \<Longrightarrow> answers_at st' i = answers_at st i"
    and here: "legal_answers info (answers_at st' (tab st))"
  shows "body_ok req st'"
  unfolding body_ok_def
proof (intro conjI)
  note same = same_views [OF t, of req]
  show "tab st' \<le> length (questions req)" "question_single req \<longrightarrow> tab st' = 0" using ok t by (auto simp: body_ok_def)
  show "selected st' = 0 \<or> selected st' < question_total req st'" using ok sel by (auto simp: body_ok_def same)
  show "editing st' \<longrightarrow> (\<exists>info. info_of req st' = Some info \<and> custom_allowed info \<noteq> Some False)" using ed info by (simp add: same)
  show "\<forall>i < length (questions req). legal_answers (questions req ! i) (answers_at st' i)"
  proof (intro allI impI)
    fix i assume "i < length (questions req)"
    then show "legal_answers (questions req ! i) (answers_at st' i)"
      using body_okD [OF ok] ans here info_of_SomeD [OF info] by (cases "i = tab st") auto
  qed
qed

lemma legal_single: "a \<in> set (options info) \<or> (custom_allowed info \<noteq> Some False \<and> a \<noteq> [] \<and> trim a = a) \<Longrightarrow> legal_answers info [a]"
  by (simp add: legal_answers_def)

lemma legal_remove1: "legal_answers info xs \<Longrightarrow> legal_answers info (remove1 a xs)"
  unfolding legal_answers_def using set_remove1_subset [of a xs] by (auto simp: distinct_remove1 length_remove1)

lemma legal_filter: "legal_answers info xs \<Longrightarrow> legal_answers info (filter P xs)"
  unfolding legal_answers_def by (auto intro: le_trans [OF length_filter_le])

lemma legal_add:
  "legal_answers info xs \<Longrightarrow> multiple info = Some True \<Longrightarrow> a \<notin> set xs \<Longrightarrow>
   a \<in> set (options info) \<or> (custom_allowed info \<noteq> Some False \<and> a \<noteq> [] \<and> trim a = a) \<Longrightarrow> legal_answers info (xs @ [a])"
  by (auto simp: legal_answers_def)

lemma legal_toggle:
  "legal_answers info xs \<Longrightarrow> multiple info = Some True \<Longrightarrow> a \<in> set xs \<or> a \<in> set (options info) \<Longrightarrow> legal_answers info (toggle_answer a xs)"
  by (auto simp: toggle_answer_def legal_remove1 legal_add)

section \<open>Every transition keeps the form legal\<close>

definition step_ok :: "question_request \<Rightarrow> question_step \<Rightarrow> bool" where
  "step_ok req r \<longleftrightarrow> body_ok req (fst r) \<and> (case snd r of None \<Rightarrow> True | Some rep \<Rightarrow> legal_out req (Answer rep))"

lemma set_tab_ok: "body_ok req st \<Longrightarrow> t \<le> length (questions req) \<Longrightarrow> \<not> question_single req \<Longrightarrow> body_ok req (set_tab st t)"
  by (simp add: body_ok_def) (simp add: set_tab_def)

lemma pick_ok:
  assumes ok: "body_ok req st" and info: "info_of req st = Some info"
    and a: "a \<in> set (options info) \<or> (custom_allowed info \<noteq> Some False \<and> a \<noteq> [] \<and> trim a = a)"
  shows "step_ok req (question_pick st req a c)"
proof -
  note i = info_of_SomeD [OF info]
  define st2 where "st2 = (if c then st\<lparr>answers := set_at None (answers st) (tab st) (Some [a]), editing := False,
    custom := set_at None (custom st) (tab st) (Some a)\<rparr> else st\<lparr>answers := set_at None (answers st) (tab st) (Some [a]), editing := False\<rparr>)"
  have f: "tab st2 = tab st" "selected st2 = selected st" "editing st2 = False"
    "answers_at st2 j = (if j = tab st then [a] else answers_at st j)" for j
    by (simp_all add: st2_def answers_at_def)
  have ok2: "body_ok req st2"
    by (rule body_ok_same_tab [OF ok _ info]) (simp_all add: f legal_single [OF a])
  have eq: "question_pick st req a c = (if question_single req then (st2, Some \<lparr>reply_request = request_id req, reply_answers = [[a]]\<rparr>)
        else (set_tab st2 (tab st + 1), None))"
    by (simp add: question_pick_def st2_def Let_def)
  show ?thesis
  proof (cases "question_single req")
    case True
    then obtain q where "questions req = [q]" by (cases "questions req") (auto simp: question_single_def)
    with i legal_single [OF a] ok2 True show ?thesis by (simp add: eq step_ok_def legal_out_def)
  next
    case False
    with i set_tab_ok [OF ok2, of "tab st + 1"] show ?thesis by (simp add: eq step_ok_def)
  qed
qed

lemma toggle_ok:
  assumes ok: "body_ok req st" and info: "info_of req st = Some info" and m: "multiple info = Some True"
    and a: "a \<in> set (answers_at st (tab st)) \<or> a \<in> set (options info)"
  shows "body_ok req (question_toggle st a)"
proof (rule body_ok_same_tab [OF ok _ info])
  have "legal_answers info (answers_at st (tab st))" using body_okD [OF ok] info_of_SomeD [OF info] by auto
  from legal_toggle [OF this m a] show "legal_answers info (answers_at (question_toggle st a) (tab st))"
    by (simp add: question_toggle_def)
  show "editing (question_toggle st a) \<longrightarrow> custom_allowed info \<noteq> Some False"
    using ok info by (simp add: body_ok_def question_toggle_def store_answers_def)
qed (simp_all add: question_toggle_def, simp_all add: store_answers_def)

lemma edit_ok:
  "body_ok req st \<Longrightarrow> info_of req st = Some info \<Longrightarrow> custom_allowed info \<noteq> Some False \<Longrightarrow> body_ok req (st\<lparr>editing := True\<rparr>)"
  by (simp add: body_ok_def)

lemma select_ok:
  assumes ok: "body_ok req st"
  shows "step_ok req (question_select st req)"
proof (cases "info_of req st")
  case None
  with ok show ?thesis by (simp add: question_select_def step_ok_def)
next
  case (Some info)
  consider (edit) "question_other req st" "multiple info \<noteq> Some True \<or> \<not> (question_input st \<noteq> [] \<and> question_picked st)"
    | (unpick) "question_other req st" "multiple info = Some True" "question_input st \<noteq> []" "question_picked st"
    | (toggle) "\<not> question_other req st" "selected st < length (options info)" "multiple info = Some True"
    | (pick) "\<not> question_other req st" "selected st < length (options info)" "multiple info \<noteq> Some True"
    | (none) "\<not> question_other req st" "\<not> selected st < length (options info)" by blast
  then show ?thesis
  proof cases
    case edit
    then have "question_select st req = (st\<lparr>editing := True\<rparr>, None)" by (auto simp: question_select_def Some Let_def)
    with edit edit_ok [OF ok Some] show ?thesis by (simp add: step_ok_def question_other_def Some)
  next
    case unpick
    then show ?thesis using toggle_ok [OF ok Some, of "question_input st"]
      by (simp add: question_select_def Some step_ok_def question_picked_def Let_def)
  next
    case toggle
    then show ?thesis using toggle_ok [OF ok Some, of "options info ! selected st"]
      by (simp add: question_select_def Some step_ok_def Let_def)
  next
    case pick
    then show ?thesis using pick_ok [OF ok Some, of "options info ! selected st"]
      by (simp add: question_select_def Some Let_def)
  next
    case none
    then show ?thesis using ok by (simp add: question_select_def Some step_ok_def)
  qed
qed

lemma save_ok:
  assumes ok: "body_ok req st" and ed: "editing st"
  shows "step_ok req (question_save st req)"
proof -
  obtain info where info: "info_of req st = Some info" "custom_allowed info \<noteq> Some False"
    using ok ed by (auto simp: body_ok_def)
  have here: "legal_answers info (answers_at st (tab st))" using body_okD [OF ok] info_of_SomeD [OF info(1)] by auto
  have keep: "step_ok req ((store_answers (store_custom st (tab st) s) (tab st) xs)\<lparr>editing := False\<rparr>, None)"
    if "legal_answers info xs" for s xs
  proof -
    have "body_ok req ((store_answers (store_custom st (tab st) s) (tab st) xs)\<lparr>editing := False\<rparr>)"
      by (rule body_ok_same_tab [OF ok _ info(1)]) (simp_all add: that, simp_all add: store_answers_def store_custom_def)
    then show ?thesis by (simp add: step_ok_def)
  qed
  let ?prev = "get_at None (custom st) (tab st)" let ?entered = "trim (question_input st)"
  consider (close) "?entered = []" "?prev = None \<or> ?prev = Some []"
    | (clear) "?entered = []" "\<not> (?prev = None \<or> ?prev = Some [])"
    | (many) "?entered \<noteq> []" "multiple info = Some True" | (one) "?entered \<noteq> []" "multiple info \<noteq> Some True" by blast
  then show ?thesis
  proof cases
    case close
    have "body_ok req (st\<lparr>editing := False\<rparr>)"
      by (rule body_ok_same_tab [OF ok _ info(1)]) (simp_all add: here)
    with close show ?thesis by (simp add: question_save_def info(1) step_ok_def Let_def)
  next
    case clear
    show ?thesis unfolding question_save_def info(1) option.case Let_def if_P [OF clear(1)] if_not_P [OF clear(2)]
      by (rule keep [OF legal_filter [OF here]])
  next
    case many
    define xs1 where "xs1 = (case ?prev of Some p \<Rightarrow> if p \<noteq> [] then remove1 p (answers_at st (tab st)) else answers_at st (tab st) | None \<Rightarrow> answers_at st (tab st))"
    have x1: "legal_answers info xs1" using here legal_remove1 [OF here] by (simp add: xs1_def split: option.split)
    have "legal_answers info (if ?entered \<in> set xs1 then xs1 else xs1 @ [?entered])"
      using x1 legal_add [OF x1 many(2), of ?entered] many(1) info(2) by simp
    from keep [OF this] many show ?thesis unfolding question_save_def info(1) Let_def xs1_def by simp
  next
    case one
    with pick_ok [OF ok info(1), of ?entered True] info(2) show ?thesis by (simp add: question_save_def info(1) Let_def)
  qed
qed

definition event_ok :: "question_request \<Rightarrow> question_body \<times> question_out option \<Rightarrow> bool" where
  "event_ok req r \<longleftrightarrow> body_ok req (fst r) \<and> (case snd r of None \<Rightarrow> True | Some out \<Rightarrow> legal_out req out)"

lemma body_ok_submitting [simp]: "body_ok req (st\<lparr>submitting := b\<rparr>) = body_ok req st"
  by (simp add: body_ok_def)

lemma begin_reply_ok: "step_ok req r \<Longrightarrow> event_ok req (begin_reply r)"
  by (auto simp: step_ok_def event_ok_def begin_reply_def split: prod.split option.split)

lemma submit_ok: "body_ok req st \<Longrightarrow> legal_out req (Answer (question_submit req st))"
  by (simp add: legal_out_def question_submit_def question_answers_def list_all2_conv_all_nth body_okD)

lemma select_at_ok: "body_ok req st \<Longrightarrow> i < question_total req st \<Longrightarrow> body_ok req (st\<lparr>selected := i\<rparr>)"
  by (simp add: body_ok_def)

lemma move_ok:
  assumes "body_ok req st"
  shows "body_ok req (question_move st req dir)"
proof (cases "question_total req st = 0")
  case False
  then have "nat ((int (selected st) + dir + int (question_total req st)) mod int (question_total req st)) < question_total req st"
    by (simp add: nat_less_iff)
  from select_at_ok [OF assms this] False show ?thesis by (simp add: question_move_def Let_def)
qed (simp add: question_move_def assms)

lemma tabs_bound: "\<not> question_single req \<Longrightarrow> n mod question_tabs req \<le> length (questions req)"
  using mod_less_divisor [of "length (questions req) + 1" n] by (simp add: question_tabs_def)

lemma handle_ok:
  assumes ok: "body_ok req st"
  shows "event_ok req (handle req ev st)"
proof (cases ev)
  case Save_Text
  then show ?thesis using ok by (simp add: begin_reply_ok save_ok) (simp add: event_ok_def)
next
  case Return
  then show ?thesis using ok begin_reply_ok [OF select_ok [OF ok]] submit_ok [OF ok]
    by (simp add: event_ok_def begin_reply_def)
next
  case (Choose i)
  then show ?thesis using ok begin_reply_ok [OF select_ok [OF select_at_ok [OF ok, of i]]]
    by (simp add: event_ok_def)
next
  case Escape
  then show ?thesis using ok by (simp add: event_ok_def begin_reject_def legal_out_def) (simp add: body_ok_def)
next
  case (Edit_Text s)
  have "body_ok req (store_custom st (tab st) s)"
    using ok by (simp add: body_ok_def) (simp add: store_custom_def)
  with Edit_Text ok show ?thesis by (simp add: event_ok_def)
qed (use ok in \<open>simp_all add: event_ok_def set_tab_ok tabs_bound move_ok select_at_ok\<close>)

lemma body_run_ok: "body_ok req st \<Longrightarrow> body_ok req (fst (body_run req evs st)) \<and> list_all (legal_out req) (snd (body_run req evs st))"
proof (induction evs arbitrary: st)
  case (Cons ev evs)
  obtain st1 out where h: "handle req ev st = (st1, out)" by (cases "handle req ev st")
  from handle_ok [OF Cons.prems, of ev] h have "body_ok req st1" "case out of None \<Rightarrow> True | Some o1 \<Rightarrow> legal_out req o1"
    by (simp_all add: event_ok_def)
  with Cons.IH [of st1] h show ?case by (simp add: split_beta split: option.splits)
qed simp

lemma opened_ok: "body_ok req (opened req evs)"
  using body_run_ok [OF body_ok_create] by (simp add: opened_def)

text \<open>C40. Whatever the user does in the form of a request, and however often a send fails, everything the
  form sends carries the request's id, and an answer has one list per question: no answer twice, at
  most one for a question that asks for one, each the label of one of its options or, only where
  the question allows it, a trimmed text that is not empty.\<close>

theorem sent_answers_are_legal: "list_all (legal_out req) (sent req evs)"
  using body_run_ok [OF body_ok_create] by (simp add: sent_def)

section \<open>Choosing\<close>

text \<open>Choosing an option that is shown answers the question on display and no other: where several answers
  may be given exactly that option's membership flips, otherwise it becomes the only answer; and it
  is sent at once exactly when the request is a single question with a single answer.\<close>

theorem choosing_changes_one_question:
  assumes "\<not> submitting (opened req evs)" and info: "info_of req (opened req evs) = Some info" and j: "j < length (options info)"
  defines "st \<equiv> opened req evs" and "r \<equiv> handle req (Choose j) (opened req evs)" and "a \<equiv> options info ! j"
  shows "(\<forall>i. i \<noteq> tab st \<longrightarrow> answers_at (fst r) i = answers_at st i) \<and>
    (if multiple info = Some True then \<forall>b. b \<in> set (answers_at (fst r) (tab st)) \<longleftrightarrow> (b \<in> set (answers_at st (tab st))) \<noteq> (b = a)
     else answers_at (fst r) (tab st) = [a]) \<and>
    snd r = (if question_single req then Some (Answer \<lparr>reply_request = request_id req, reply_answers = [[a]]\<rparr>) else None)"
proof -
  let ?st = "st\<lparr>selected := j\<rparr>"
  have inf: "info_of req st = Some info" using info by (simp add: st_def)
  have j': "j < question_total req st" using j info by (simp add: question_total_def st_def)
  have other: "\<not> question_other req ?st" using j by (simp add: question_other_def inf)
  have d: "distinct (answers_at st (tab st))"
    using body_okD [OF opened_ok [of req evs]] info_of_SomeD [OF info] by (auto simp: st_def legal_answers_def)
  have r: "r = begin_reply (question_select ?st req)" using assms(1) j' by (simp add: r_def st_def)
  show ?thesis
  proof (cases "multiple info = Some True")
    case True
    then have ns: "\<not> question_single req"
      using info_of_SomeD [OF info] by (cases "questions req") (auto simp: question_single_def)
    have "r = (question_toggle ?st a, None)"
      using True j other by (simp add: r question_select_def inf Let_def begin_reply_def a_def)
    with True ns d show ?thesis by (auto simp: question_toggle_def toggle_answer_def)
  next
    case False
    then have "r = begin_reply (question_pick ?st req a False)"
      using j other by (simp add: r question_select_def inf Let_def a_def)
    with False show ?thesis
      by (auto simp: question_pick_def begin_reply_def Let_def answers_at_def set_tab_def)
  qed
qed

definition demo_request :: question_request where
  \<comment> \<open>two questions of one answer, the first with a text of the user's own\<close>
  "demo_request = \<lparr>request_id = [1], questions =
     [\<lparr>options = [[65], [66]], multiple = None, custom_allowed = None\<rparr>,
      \<lparr>options = [[67], [68]], multiple = Some True, custom_allowed = Some False\<rparr>]\<rparr>"

lemma choosing_changes_one_question_witness:
  "answers_at (fst (handle demo_request (Choose 1) (opened demo_request [Choose 0, Choose 0]))) 0 = [[65]] \<and>
   set (answers_at (fst (handle demo_request (Choose 1) (opened demo_request [Choose 0, Choose 0]))) 1) = {[67], [68]}"
proof -
  let ?st = "opened demo_request [Choose 0, Choose 0]"
  let ?info = "questions demo_request ! 1"
  have s: "\<not> submitting ?st" "info_of demo_request ?st = Some ?info" "1 < length (options ?info)" "tab ?st = 1"
    "answers_at ?st 0 = [[65]]" "answers_at ?st 1 = [[67]]" "multiple ?info = Some True" "options ?info ! 1 = [68]"
    by code_simp+
  let ?r = "handle demo_request (Choose 1) ?st"
  note c = choosing_changes_one_question [OF s(1-3), unfolded s(4) s(8) if_P [OF s(7)]]
  have "answers_at (fst ?r) 0 = [[65]]" using c [THEN conjunct1, rule_format, of 0] s(5) by simp
  moreover have "b \<in> set (answers_at (fst ?r) 1) \<longleftrightarrow> b \<in> {[67], [68]}" for b
    using c [THEN conjunct2, THEN conjunct1, rule_format, of b] unfolding s(6) by auto
  ultimately show ?thesis by blast
qed

section \<open>Clearing a text\<close>

text \<open>The text area stores what it holds into the state while the user types, so saving an empty text finds
  no former text to remove: clearing an answer of one's own and saving leaves the answers of every
  question as they were, and the form will still send it.\<close>

theorem clearing_keeps_the_answer:
  assumes "\<not> submitting (opened req evs)" "editing (opened req evs)"
  shows "answers_at (opened req (evs @ [Edit_Text [], Save_Text])) = answers_at (opened req evs) \<and>
    question_input (opened req (evs @ [Edit_Text [], Save_Text])) = []"
proof -
  let ?st = "opened req evs"
  have run: "fst (body_run req (xs @ ys) s) = fst (body_run req ys (fst (body_run req xs s)))" for xs ys s
    by (induction xs arbitrary: s) (auto simp: split_beta)
  have o: "opened req (evs @ [Edit_Text [], Save_Text]) =
      fst (handle req Save_Text (store_custom ?st (tab ?st) []))"
    using assms by (simp add: opened_def run split_beta)
  obtain info where info: "info_of req ?st = Some info" using opened_ok [of req evs] assms(2) by (auto simp: body_ok_def)
  have e: "editing (store_custom ?st (tab ?st) [])" "get_at None (custom (store_custom ?st (tab ?st) [])) (tab ?st) = Some []"
    "tab (store_custom ?st (tab ?st) []) = tab ?st"
    using assms(2) by (simp_all add: store_custom_def)
  have "handle req Save_Text (store_custom ?st (tab ?st) []) = ((store_custom ?st (tab ?st) [])\<lparr>editing := False\<rparr>, None)"
    using e by (simp add: question_save_def question_input_def info begin_reply_def Let_def)
  with o e(2,3) show ?thesis by (simp add: question_input_def)
qed

lemma clearing_keeps_the_answer_witness:
  "\<exists>evs. question_input (opened demo_request evs) = [] \<and> answers_at (opened demo_request evs) 0 = [[120]] \<and>
    sent demo_request (evs @ [Tab_Click 2, Return]) = [Answer \<lparr>reply_request = [1], reply_answers = [[[120]], []]\<rparr>]"
proof -
  let ?evs = "[Choose 2, Edit_Text [120], Save_Text, Tab_Click 0, Choose 2]"
  have s: "\<not> submitting (opened demo_request ?evs)" "editing (opened demo_request ?evs)" "answers_at (opened demo_request ?evs) 0 = [[120]]"
    by code_simp+
  have "sent demo_request ((?evs @ [Edit_Text [], Save_Text]) @ [Tab_Click 2, Return]) =
    [Answer \<lparr>reply_request = [1], reply_answers = [[[120]], []]\<rparr>]"
    by code_simp
  with clearing_keeps_the_answer [OF s(1,2)] s(3) show ?thesis by metis
qed

end
