(* ===== verification/RunCoordinator.thy ===== *)
theory RunCoordinator imports Prelude begin

text \<open>
  The run coordinator of a session (packages/core/src/session/run-coordinator.ts). JavaScript code between
  two suspensions is one step; a fiber is a forked drain: it waits at its gate, drains, and settles its
  entry when it exits. Entries are mutable objects shared by fibers and callers, so they live in a
  store under ids. A forked fiber reaches its gate before anything can interrupt it; closing the
  coordinator's scope is not modelled.
\<close>

section \<open>State\<close>

datatype 'e exit = Success | Failed 'e | Interrupted

record 'e coord_entry =
  outcome :: "'e exit option" \<comment> \<open>the deferred callers await\<close>
  owner :: "nat option"
  pending_wake :: bool
  stopping :: bool

datatype phase = Gate | Draining

record 'k fiber =
  fiber_key :: 'k
  fiber_entry :: nat
  forced :: bool
  phase :: phase
  asked :: bool \<comment> \<open>an interruption was requested\<close>

record ('k, 'e) coord =
  active :: "('k, nat) jsmap"
  entries :: "nat \<rightharpoonup> 'e coord_entry"
  fibers :: "nat \<rightharpoonup> 'k fiber" \<comment> \<open>the live ones\<close>
  next_entry :: nat
  next_fiber :: nat

definition empty_coord :: "('k, 'e) coord" where
  "empty_coord = \<lparr>active = [], entries = Map.empty, fibers = Map.empty, next_entry = 0, next_fiber = 0\<rparr>"

section \<open>Operations\<close>

definition fresh_entry :: "'e coord_entry" where
  "fresh_entry = \<lparr>outcome = None, owner = None, pending_wake = False, stopping = False\<rparr>"

definition make_entry :: "'k \<Rightarrow> ('k, 'e) coord \<Rightarrow> ('k, 'e) coord" where
  \<comment> \<open>\<open>const next = makeEntry(); active.set(key, next)\<close>: the new entry is \<open>next_entry\<close> of the state before\<close>
  "make_entry k st = st\<lparr>active := map_set (active st) k (next_entry st),
     entries := (entries st)(next_entry st \<mapsto> fresh_entry), next_entry := Suc (next_entry st)\<rparr>"

definition update_entry :: "nat \<Rightarrow> ('e coord_entry \<Rightarrow> 'e coord_entry) \<Rightarrow> ('k, 'e) coord \<Rightarrow> ('k, 'e) coord" where
  "update_entry e f st = st\<lparr>entries := (entries st)(e := map_option f (entries st e))\<rparr>"

definition start_fiber :: "'k \<Rightarrow> nat \<Rightarrow> bool \<Rightarrow> ('k, 'e) coord \<Rightarrow> ('k, 'e) coord" where
  "start_fiber k e force st =
    (let st1 = update_entry e (\<lambda>en. en\<lparr>owner := Some (next_fiber st)\<rparr>) st
     in st1\<lparr>fibers := (fibers st)(next_fiber st \<mapsto>
          \<lparr>fiber_key = k, fiber_entry = e, forced = force, phase = Gate, asked = False\<rparr>),
        next_fiber := Suc (next_fiber st)\<rparr>)"

definition settle :: "'k \<Rightarrow> nat \<Rightarrow> 'e exit \<Rightarrow> ('k, 'e) coord \<Rightarrow> ('k, 'e) coord" where
  "settle k e x st =
    (case entries st e of
       None \<Rightarrow> st
     | Some en \<Rightarrow>
         if x = Success \<and> \<not> stopping en \<and> pending_wake en then
           start_fiber k e False (update_entry e (\<lambda>en. en\<lparr>pending_wake := False\<rparr>) st)
         else
           let st1 = (if \<not> pending_wake en then st\<lparr>active := map_delete (active st) k\<rparr>
                 else start_fiber k (next_entry st) False (make_entry k st))
           in update_entry e (\<lambda>en. en\<lparr>outcome := Some x\<rparr>) st1)"

datatype run_answer = Join nat | AwaitThenRun nat

definition run :: "'k \<Rightarrow> ('k, 'e) coord \<Rightarrow> run_answer \<times> ('k, 'e) coord" where
  \<comment> \<open>what the caller awaits: an entry's deferred, after which it returns or calls \<open>run\<close> again\<close>
  "run k st =
    (case map_of (active st) k of
       Some e \<Rightarrow>
         (case entries st e of
            Some en \<Rightarrow> (if stopping en then AwaitThenRun e else Join e, st)
          | None \<Rightarrow> (Join e, st))
     | None \<Rightarrow> (Join (next_entry st), start_fiber k (next_entry st) True (make_entry k st)))"

definition wake :: "'k \<Rightarrow> ('k, 'e) coord \<Rightarrow> ('k, 'e) coord" where
  "wake k st =
    (case map_of (active st) k of
       Some e \<Rightarrow> update_entry e (\<lambda>en. en\<lparr>pending_wake := True\<rparr>) st
     | None \<Rightarrow> start_fiber k (next_entry st) False (make_entry k st))"

definition interrupt :: "'k \<Rightarrow> ('k, 'e) coord \<Rightarrow> ('k, 'e) coord" where
  "interrupt k st =
    (case Option.bind (map_of (active st) k) (\<lambda>e. Option.bind (entries st e) (\<lambda>en. map_option (Pair e) (owner en))) of
       None \<Rightarrow> st
     | Some (e, f) \<Rightarrow>
         (update_entry e (\<lambda>en. en\<lparr>stopping := True, pending_wake := False\<rparr>) st)
           \<lparr>fibers := (fibers st)(f := map_option (\<lambda>fib. fib\<lparr>asked := True\<rparr>) (fibers st f))\<rparr>)"

definition begin_drain :: "nat \<Rightarrow> ('k, 'e) coord \<Rightarrow> ('k, 'e) coord" where
  "begin_drain f st = st\<lparr>fibers := (fibers st)(f := map_option (\<lambda>fib. fib\<lparr>phase := Draining\<rparr>) (fibers st f))\<rparr>"

definition exit_fiber :: "nat \<Rightarrow> 'e exit \<Rightarrow> ('k, 'e) coord \<Rightarrow> ('k, 'e) coord" where
  "exit_fiber f x st =
    (case fibers st f of
       None \<Rightarrow> st
     | Some fib \<Rightarrow> settle (fiber_key fib) (fiber_entry fib) x (st\<lparr>fibers := (fibers st)(f := None)\<rparr>))"

definition active_keys :: "('k, 'e) coord \<Rightarrow> 'k set" where
  "active_keys st = set (map_keys (active st))"

section \<open>Runs of the coordinator\<close>

datatype ('k, 'e) action = Run 'k | Wake 'k | Interrupt 'k | Begin nat | Exit nat "'e exit"

inductive coord_step :: "('k, 'e) coord \<Rightarrow> ('k, 'e) action \<Rightarrow> ('k, 'e) coord \<Rightarrow> bool" where
  step_run: "coord_step st (Run k) (snd (run k st))"
| step_wake: "coord_step st (Wake k) (wake k st)"
| step_interrupt: "coord_step st (Interrupt k) (interrupt k st)"
| step_begin: "fibers st f = Some fib \<Longrightarrow> phase fib = Gate \<Longrightarrow> coord_step st (Begin f) (begin_drain f st)"
| step_exit: "fibers st f = Some fib \<Longrightarrow> phase fib = Draining \<or> asked fib \<and> x = Interrupted \<Longrightarrow> coord_step st (Exit f x) (exit_fiber f x st)"

inductive_cases coord_stepE: "coord_step st a st'"

inductive reachable :: "('k, 'e) coord \<Rightarrow> bool" where
  reach_empty: "reachable empty_coord"
| reach_step: "reachable st \<Longrightarrow> coord_step st a st' \<Longrightarrow> reachable st'"

section \<open>The invariant\<close>

definition owned :: "('k, 'e) coord \<Rightarrow> 'k \<Rightarrow> nat \<Rightarrow> nat \<Rightarrow> bool" where
  \<comment> \<open>entry \<open>e\<close> runs for key \<open>k\<close> on the live fiber \<open>f\<close>\<close>
  "owned st k e f \<longleftrightarrow>
    (\<exists>en fib. entries st e = Some en \<and> outcome en = None \<and> owner en = Some f \<and>
      fibers st f = Some fib \<and> fiber_key fib = k \<and> fiber_entry fib = e)"

definition coord_inv :: "('k, 'e) coord \<Rightarrow> bool" where
  "coord_inv st \<longleftrightarrow>
    (\<forall>k e. map_of (active st) k = Some e \<longrightarrow> (\<exists>f. owned st k e f)) \<and>
    (\<forall>f fib. fibers st f = Some fib \<longrightarrow>
      map_of (active st) (fiber_key fib) = Some (fiber_entry fib) \<and> owned st (fiber_key fib) (fiber_entry fib) f) \<and>
    (\<forall>e en. entries st e = Some en \<longrightarrow> outcome en = None \<longrightarrow> (\<exists>k. map_of (active st) k = Some e)) \<and>
    (\<forall>e en. entries st e = Some en \<longrightarrow> e < next_entry st) \<and> (\<forall>f fib. fibers st f = Some fib \<longrightarrow> f < next_fiber st)"

lemma coord_inv_activeD: "coord_inv st \<Longrightarrow> map_of (active st) k = Some e \<Longrightarrow> \<exists>f. owned st k e f"
  by (simp add: coord_inv_def)

lemma coord_inv_fiberD:
  "coord_inv st \<Longrightarrow> fibers st f = Some fib \<Longrightarrow>
   map_of (active st) (fiber_key fib) = Some (fiber_entry fib) \<and> owned st (fiber_key fib) (fiber_entry fib) f"
  by (simp add: coord_inv_def)

lemma coord_inv_openD: "coord_inv st \<Longrightarrow> entries st e = Some en \<Longrightarrow> outcome en = None \<Longrightarrow> \<exists>k. map_of (active st) k = Some e"
  unfolding coord_inv_def by blast

lemma coord_inv_boundD:
  "coord_inv st \<Longrightarrow> entries st e = Some en \<Longrightarrow> e < next_entry st" "coord_inv st \<Longrightarrow> fibers st f = Some fib \<Longrightarrow> f < next_fiber st"
  by (simp_all add: coord_inv_def)

lemma coord_inv_fresh:
  assumes "coord_inv st"
  shows "entries st (next_entry st) = None" "fibers st (next_fiber st) = None" "map_of (active st) k \<noteq> Some (next_entry st)"
proof -
  show a: "entries st (next_entry st) = None" "fibers st (next_fiber st) = None"
    using coord_inv_boundD [OF assms] by (metis less_irrefl not_None_eq)+
  show "map_of (active st) k \<noteq> Some (next_entry st)"
    using coord_inv_activeD [OF assms, of k] a(1) by (auto simp: owned_def)
qed

lemma owned_unique: "owned st k e f \<Longrightarrow> owned st k' e f' \<Longrightarrow> k = k' \<and> f = f'"
  by (auto simp: owned_def)

text \<open>A key with no live fiber can be given a new entry with a fiber of its own.\<close>

lemma start_new_inv:
  assumes inv: "coord_inv st" and idle: "map_of (active st) k = None"
  shows "coord_inv (start_fiber k (next_entry st) force (make_entry k st))" (is "coord_inv ?st'")
proof -
  note fresh = coord_inv_fresh [OF inv]
  let ?e = "next_entry st" let ?f = "next_fiber st"
  let ?en = "\<lparr>outcome = None, owner = Some ?f, pending_wake = False, stopping = False\<rparr> :: 'b coord_entry"
  let ?fib = "\<lparr>fiber_key = k, fiber_entry = ?e, forced = force, phase = Gate, asked = False\<rparr>"
  have fields: "active ?st' = map_set (active st) k ?e" "entries ?st' = (entries st)(?e \<mapsto> ?en)"
    "fibers ?st' = (fibers st)(?f \<mapsto> ?fib)" "next_entry ?st' = Suc ?e" "next_fiber ?st' = Suc ?f"
    by (simp_all add: start_fiber_def make_entry_def update_entry_def fresh_entry_def Let_def)
  have new: "owned ?st' k ?e ?f" by (simp add: owned_def fields)
  have old: "owned st k' e' f' \<Longrightarrow> owned ?st' k' e' f'" for k' e' f'
    using fresh by (auto simp: owned_def fields)
  show ?thesis
    unfolding coord_inv_def fields(4,5)
  proof (intro conjI allI impI)
    fix k' e assume "map_of (active ?st') k' = Some e"
    then show "\<exists>f. owned ?st' k' e f"
    proof (cases "k' = k")
      case True
      with \<open>map_of (active ?st') k' = Some e\<close> new show ?thesis by (auto simp: fields(1))
    next
      case False
      with \<open>map_of (active ?st') k' = Some e\<close> have "map_of (active st) k' = Some e" by (simp add: fields(1))
      from coord_inv_activeD [OF inv this] old show ?thesis by blast
    qed
  next
    fix f fib assume "fibers ?st' f = Some fib"
    then consider "f = ?f" "fib = ?fib" | "f \<noteq> ?f" "fibers st f = Some fib" by (auto simp: fields(3) split: if_splits)
    then show "map_of (active ?st') (fiber_key fib) = Some (fiber_entry fib)"
      "owned ?st' (fiber_key fib) (fiber_entry fib) f"
      using coord_inv_fiberD [OF inv] idle new old by (cases; force simp: fields(1))+
  next
    fix e en assume "entries ?st' e = Some en" "outcome en = None"
    then show "\<exists>k'. map_of (active ?st') k' = Some e"
      using inv idle unfolding coord_inv_def fields(1,2) by (auto split: if_splits) (metis option.distinct(1))+
  next
    fix e en assume "entries ?st' e = Some en"
    then show "e < Suc ?e" using coord_inv_boundD(1) [OF inv] by (auto simp: fields(2) less_Suc_eq split: if_splits)
  next
    fix f fib assume "fibers ?st' f = Some fib"
    then show "f < Suc ?f" using coord_inv_boundD(2) [OF inv] by (auto simp: fields(3) less_Suc_eq split: if_splits)
  qed
qed

text \<open>The invariant reads only the outcomes and owners of entries and the keys and entries of fibers.\<close>

lemma coord_inv_cong:
  assumes inv: "coord_inv st"
    and same: "map_of (active st') = map_of (active st)" "next_entry st' = next_entry st" "next_fiber st' = next_fiber st"
      "\<And>e. map_option (\<lambda>en. (outcome en, owner en)) (entries st' e) = map_option (\<lambda>en. (outcome en, owner en)) (entries st e)"
      "\<And>f. map_option (\<lambda>fib. (fiber_key fib, fiber_entry fib)) (fibers st' f) =
        map_option (\<lambda>fib. (fiber_key fib, fiber_entry fib)) (fibers st f)"
  shows "coord_inv st'"
proof -
  have en: "\<exists>en. entries st e = Some en \<and> outcome en = outcome en' \<and> owner en = owner en'" if "entries st' e = Some en'" for e en'
    using same(4) [of e] that by (auto simp: map_option_case split: option.splits)
  have en': "\<exists>en'. entries st' e = Some en' \<and> outcome en' = outcome en \<and> owner en' = owner en" if "entries st e = Some en" for e en
    using same(4) [of e] that by (auto simp: map_option_case split: option.splits)
  have fb: "\<exists>fib. fibers st f = Some fib \<and> fiber_key fib = fiber_key fib' \<and> fiber_entry fib = fiber_entry fib'" if "fibers st' f = Some fib'" for f fib'
    using same(5) [of f] that by (auto simp: map_option_case split: option.splits)
  have fb': "\<exists>fib'. fibers st' f = Some fib' \<and> fiber_key fib' = fiber_key fib \<and> fiber_entry fib' = fiber_entry fib" if "fibers st f = Some fib" for f fib
    using same(5) [of f] that by (auto simp: map_option_case split: option.splits)
  have ow: "owned st' k e f" if "owned st k e f" for k e f
    using that en' fb' unfolding owned_def by metis
  show ?thesis
    unfolding coord_inv_def same(1-3)
  proof (intro conjI allI impI)
    fix k e assume "map_of (active st) k = Some e"
    with coord_inv_activeD [OF inv] ow show "\<exists>f. owned st' k e f" by blast
  next
    fix f fib' assume "fibers st' f = Some fib'"
    with fb obtain fib where "fibers st f = Some fib" "fiber_key fib = fiber_key fib'" "fiber_entry fib = fiber_entry fib'" by blast
    with coord_inv_fiberD [OF inv, of f fib] ow
    show "map_of (active st) (fiber_key fib') = Some (fiber_entry fib')" "owned st' (fiber_key fib') (fiber_entry fib') f"
      by auto
  next
    fix e en' assume "entries st' e = Some en'" "outcome en' = None"
    with en obtain en where "entries st e = Some en" "outcome en = None" by metis
    with inv show "\<exists>k. map_of (active st) k = Some e" by (simp add: coord_inv_def)
  next
    fix e en' assume "entries st' e = Some en'"
    with en coord_inv_boundD(1) [OF inv] show "e < next_entry st" by blast
  next
    fix f fib' assume "fibers st' f = Some fib'"
    with fb coord_inv_boundD(2) [OF inv] show "f < next_fiber st" by blast
  qed
qed

lemma wake_inv: "coord_inv st \<Longrightarrow> coord_inv (wake k st)"
proof (cases "map_of (active st) k")
  case None
  then show "coord_inv st \<Longrightarrow> ?thesis" by (simp add: wake_def start_new_inv)
next
  case (Some e)
  show "coord_inv st \<Longrightarrow> ?thesis"
    by (erule coord_inv_cong) (simp_all add: wake_def Some update_entry_def option.map_comp comp_def)
qed

lemma run_inv: "coord_inv st \<Longrightarrow> coord_inv (snd (run k st))"
  by (auto simp: run_def start_new_inv split: option.split)

lemma interrupt_inv: "coord_inv st \<Longrightarrow> coord_inv (interrupt k st)"
  by (erule coord_inv_cong)
    (auto simp: interrupt_def update_entry_def option.map_comp comp_def split: option.split)

lemma begin_drain_inv: "coord_inv st \<Longrightarrow> coord_inv (begin_drain f st)"
  by (erule coord_inv_cong) (simp_all add: begin_drain_def option.map_comp comp_def)

section \<open>Settling\<close>

lemma retire_inv:
  assumes inv: "coord_inv st" and o: "owned st k e f"
  shows "coord_inv (update_entry e (\<lambda>en. en\<lparr>outcome := Some x\<rparr>)
    (st\<lparr>fibers := (fibers st)(f := None), active := map_delete (active st) k\<rparr>))" (is "coord_inv ?st'")
proof -
  have act: "map_of (active st) k = Some e"
    using o coord_inv_fiberD [OF inv] by (fastforce simp: owned_def)
  have fields: "active ?st' = map_delete (active st) k" "fibers ?st' = (fibers st)(f := None)"
    "entries ?st' = (entries st)(e := map_option (\<lambda>en. en\<lparr>outcome := Some x\<rparr>) (entries st e))"
    "next_entry ?st' = next_entry st" "next_fiber ?st' = next_fiber st"
    by (simp_all add: update_entry_def)
  have keep: "owned ?st' k' e' f'" if "owned st k' e' f'" "k' \<noteq> k" for k' e' f'
  proof -
    have "e' \<noteq> e" using owned_unique [OF that(1)] o that(2) by blast
    moreover have "f' \<noteq> f" using that o by (auto simp: owned_def)
    ultimately show ?thesis using that(1) unfolding owned_def fields by simp
  qed
  show ?thesis
    unfolding coord_inv_def fields(4,5)
  proof (intro conjI allI impI)
    fix k' e' assume "map_of (active ?st') k' = Some e'"
    then have "k' \<noteq> k" "map_of (active st) k' = Some e'" by (simp_all add: fields(1) split: if_splits)
    with coord_inv_activeD [OF inv this(2)] keep show "\<exists>f. owned ?st' k' e' f" by blast
  next
    fix f' fib assume a: "fibers ?st' f' = Some fib"
    then have f': "f' \<noteq> f" "fibers st f' = Some fib" by (simp_all add: fields(2) split: if_splits)
    from coord_inv_fiberD [OF inv f'(2)] have m: "map_of (active st) (fiber_key fib) = Some (fiber_entry fib)"
      "owned st (fiber_key fib) (fiber_entry fib) f'" by auto
    have "fiber_key fib \<noteq> k"
    proof
      assume "fiber_key fib = k"
      with m act have "owned st k e f'" by simp
      from owned_unique [OF this o] f'(1) show False by simp
    qed
    with m keep show "map_of (active ?st') (fiber_key fib) = Some (fiber_entry fib)"
      "owned ?st' (fiber_key fib) (fiber_entry fib) f'" by (simp_all add: fields(1))
  next
    fix e' en assume "entries ?st' e' = Some en" "outcome en = None"
    then have e': "e' \<noteq> e" "entries st e' = Some en" by (auto simp: fields(3) split: if_splits)
    from coord_inv_openD [OF inv e'(2) \<open>outcome en = None\<close>] obtain k' where k': "map_of (active st) k' = Some e'" ..
    with act e'(1) have "k' \<noteq> k" by auto
    with k' show "\<exists>k'. map_of (active ?st') k' = Some e'" by (auto simp: fields(1))
  next
    fix e' en assume "entries ?st' e' = Some en"
    then show "e' < next_entry st" using coord_inv_boundD(1) [OF inv] by (auto simp: fields(3) split: if_splits)
  next
    fix f' fib assume "fibers ?st' f' = Some fib"
    then show "f' < next_fiber st" using coord_inv_boundD(2) [OF inv] by (auto simp: fields(2) split: if_splits)
  qed
qed

lemma restart_inv:
  assumes inv: "coord_inv st" and o: "owned st k e f"
  shows "coord_inv (start_fiber k e force (update_entry e (\<lambda>en. en\<lparr>pending_wake := b\<rparr>) (st\<lparr>fibers := (fibers st)(f := None)\<rparr>)))"
    (is "coord_inv ?st'")
proof -
  let ?f = "next_fiber st"
  have act: "map_of (active st) k = Some e"
    using o coord_inv_fiberD [OF inv] by (fastforce simp: owned_def)
  obtain en where en: "entries st e = Some en" "outcome en = None" "owner en = Some f" using o by (auto simp: owned_def)
  let ?fib = "\<lparr>fiber_key = k, fiber_entry = e, forced = force, phase = Gate, asked = False\<rparr>"
  have fields: "active ?st' = active st" "fibers ?st' = (fibers st)(f := None, ?f \<mapsto> ?fib)"
    "entries ?st' = (entries st)(e \<mapsto> en\<lparr>pending_wake := b, owner := Some ?f\<rparr>)"
    "next_entry ?st' = next_entry st" "next_fiber ?st' = Suc ?f"
    by (simp_all add: start_fiber_def update_entry_def Let_def en(1))
  have ff: "f \<noteq> ?f" using o coord_inv_boundD(2) [OF inv] by (fastforce simp: owned_def)
  have new: "owned ?st' k e ?f" unfolding owned_def fields by (simp add: en(2))
  have keep: "owned ?st' k' e' f'" if "owned st k' e' f'" "k' \<noteq> k" for k' e' f'
  proof -
    have "e' \<noteq> e" using owned_unique [OF that(1)] o that(2) by blast
    moreover have "f' \<noteq> f" using that o by (auto simp: owned_def)
    moreover have "f' \<noteq> ?f" using that(1) coord_inv_boundD(2) [OF inv] by (fastforce simp: owned_def)
    ultimately show ?thesis using that(1) unfolding owned_def fields by simp
  qed
  show ?thesis
    unfolding coord_inv_def fields(1,4,5)
  proof (intro conjI allI impI)
    fix k' e' assume "map_of (active st) k' = Some e'"
    with act new keep coord_inv_activeD [OF inv] show "\<exists>f. owned ?st' k' e' f"
      by (cases "k' = k") (auto, blast)
  next
    fix f' fib assume "fibers ?st' f' = Some fib"
    then consider "f' = ?f" "fib = ?fib" | "f' \<noteq> f" "f' \<noteq> ?f" "fibers st f' = Some fib"
      by (auto simp: fields(2) split: if_splits)
    then have "map_of (active st) (fiber_key fib) = Some (fiber_entry fib) \<and> owned ?st' (fiber_key fib) (fiber_entry fib) f'"
    proof cases
      case 1
      with act new show ?thesis by simp
    next
      case 2
      from coord_inv_fiberD [OF inv 2(3)] have m: "map_of (active st) (fiber_key fib) = Some (fiber_entry fib)"
        "owned st (fiber_key fib) (fiber_entry fib) f'" by auto
      have "fiber_key fib \<noteq> k"
      proof
        assume "fiber_key fib = k"
        with m act have "owned st k e f'" by simp
        from owned_unique [OF this o] 2(1) show False by simp
      qed
      with m keep show ?thesis by blast
    qed
    then show "map_of (active st) (fiber_key fib) = Some (fiber_entry fib)"
      "owned ?st' (fiber_key fib) (fiber_entry fib) f'" by auto
  next
    fix e' en' assume "entries ?st' e' = Some en'" "outcome en' = None"
    with act inv show "\<exists>k'. map_of (active st) k' = Some e'"
      by (cases "e' = e") (auto simp: fields(3) coord_inv_def)
  next
    fix e' en' assume "entries ?st' e' = Some en'"
    then show "e' < next_entry st" using coord_inv_boundD(1) [OF inv] en(1) by (auto simp: fields(3) split: if_splits)
  next
    fix f' fib assume "fibers ?st' f' = Some fib"
    then show "f' < Suc ?f" using coord_inv_boundD(2) [OF inv] by (auto simp: fields(2) less_Suc_eq split: if_splits)
  qed
qed

lemma exit_fiber_inv:
  assumes inv: "coord_inv st" and f: "fibers st f = Some fib"
  shows "coord_inv (exit_fiber f x st)"
proof -
  let ?k = "fiber_key fib" and ?e = "fiber_entry fib"
  let ?st1 = "st\<lparr>fibers := (fibers st)(f := None)\<rparr>"
  have o: "owned st ?k ?e f" using coord_inv_fiberD [OF inv f] by blast
  then obtain en where en: "entries st ?e = Some en" by (auto simp: owned_def)
  have settle: "exit_fiber f x st = settle ?k ?e x ?st1" by (simp add: exit_fiber_def f)
  consider (again) "x = Success \<and> \<not> stopping en \<and> pending_wake en"
    | (last) "\<not> (x = Success \<and> \<not> stopping en \<and> pending_wake en)" "\<not> pending_wake en"
    | (successor) "\<not> (x = Success \<and> \<not> stopping en \<and> pending_wake en)" "pending_wake en" by blast
  then show ?thesis
  proof cases
    case again
    then show ?thesis
      using restart_inv [OF inv o, of False False] unfolding settle settle_def by (simp add: en)
  next
    case last
    then show ?thesis
      using retire_inv [OF inv o, of x] unfolding settle settle_def Let_def by (auto simp: en)
  next
    case successor
    let ?r = "update_entry ?e (\<lambda>en. en\<lparr>outcome := Some x\<rparr>)
      (st\<lparr>fibers := (fibers st)(f := None), active := map_delete (active st) ?k\<rparr>)"
    have r: "coord_inv (start_fiber ?k (next_entry ?r) False (make_entry ?k ?r))"
      by (rule start_new_inv [OF retire_inv [OF inv o]]) (simp add: update_entry_def)
    have ne: "?e \<noteq> next_entry st" using coord_inv_boundD(1) [OF inv en] by simp
    have "exit_fiber f x st = update_entry ?e (\<lambda>en. en\<lparr>outcome := Some x\<rparr>) (start_fiber ?k (next_entry st) False (make_entry ?k ?st1))"
      using successor unfolding settle settle_def Let_def by (auto simp: en)
    then show ?thesis
      using ne by (auto intro!: coord_inv_cong [OF r] simp: start_fiber_def make_entry_def update_entry_def Let_def fun_eq_iff)
  qed
qed

lemma coord_step_inv: "coord_step st a st' \<Longrightarrow> coord_inv st \<Longrightarrow> coord_inv st'"
  by (auto elim!: coord_stepE simp: run_inv wake_inv interrupt_inv begin_drain_inv exit_fiber_inv)

lemma reachable_inv: "reachable st \<Longrightarrow> coord_inv st"
  by (induction rule: reachable.induct) (auto simp: coord_step_inv, simp add: coord_inv_def empty_coord_def)

text \<open>C27. In every reachable state each key has at most one live fiber, so drains of a key never overlap;
  and an entry whose deferred is still open is the active entry of some key and has a live fiber
  that will settle it, so a caller never waits for an entry nobody runs.\<close>

theorem drains_never_overlap:
  assumes "reachable st"
  shows "(\<forall>f g fib gib. fibers st f = Some fib \<longrightarrow> fibers st g = Some gib \<longrightarrow> fiber_key fib = fiber_key gib \<longrightarrow> f = g) \<and>
    (\<forall>e en. entries st e = Some en \<longrightarrow> outcome en = None \<longrightarrow>
      (\<exists>k f fib. map_of (active st) k = Some e \<and> owner en = Some f \<and> fibers st f = Some fib \<and> fiber_entry fib = e))"
proof -
  note inv = reachable_inv [OF assms]
  show ?thesis
  proof (intro conjI allI impI)
    fix f g fib gib assume "fibers st f = Some fib" "fibers st g = Some gib" "fiber_key fib = fiber_key gib"
    with coord_inv_fiberD [OF inv this(1)] coord_inv_fiberD [OF inv this(2)]
    show "f = g" by (auto dest: owned_unique)
  next
    fix e en assume "entries st e = Some en" "outcome en = None"
    moreover from coord_inv_openD [OF inv this] obtain k where "map_of (active st) k = Some e" by blast
    moreover from coord_inv_activeD [OF inv this] obtain f where "owned st k e f" by blast
    ultimately show "\<exists>k f fib. map_of (active st) k = Some e \<and> owner en = Some f \<and> fibers st f = Some fib \<and> fiber_entry fib = e"
      by (auto simp: owned_def)
  qed
qed

lemma drains_never_overlap_witness:
  "\<exists>st :: (nat, nat) coord. reachable st \<and> fibers st 0 \<noteq> None \<and>
    (\<forall>f fib. fibers st f = Some fib \<longrightarrow> fiber_key fib = 7 \<longrightarrow> f = 0)"
proof -
  let ?st = "wake 7 (snd (run (7 :: nat) (empty_coord :: (nat, nat) coord)))"
  have r: "reachable ?st"
    by (rule reach_step [OF reach_step [OF reach_empty step_run] step_wake])
  obtain fib where f: "fibers ?st 0 = Some fib" "fiber_key fib = 7"
    by (simp add: run_def wake_def empty_coord_def start_fiber_def make_entry_def update_entry_def Let_def fresh_entry_def)
  from drains_never_overlap [OF r] f have "\<forall>g gib. fibers ?st g = Some gib \<longrightarrow> fiber_key gib = 7 \<longrightarrow> g = 0" by metis
  with r f show ?thesis by blast
qed

section \<open>Wakes\<close>

definition owed :: "('k, 'e) coord \<Rightarrow> 'k \<Rightarrow> bool" where
  \<comment> \<open>a drain of the key is still to begin: a fiber at its gate, or a pending wake\<close>
  "owed st k \<longleftrightarrow>
    (\<exists>f fib. fibers st f = Some fib \<and> fiber_key fib = k \<and> phase fib = Gate \<and> \<not> asked fib) \<or>
    (\<exists>e en. map_of (active st) k = Some e \<and> entries st e = Some en \<and> pending_wake en)"

lemma started_owed: "owed (start_fiber k e force st) k"
  by (auto simp: owed_def start_fiber_def Let_def)

lemma wake_owed: "coord_inv st \<Longrightarrow> owed (wake k st) k"
proof (cases "map_of (active st) k")
  case None
  then show ?thesis by (simp add: wake_def started_owed)
next
  case (Some e)
  assume "coord_inv st"
  from coord_inv_activeD [OF this Some] obtain en where "entries st e = Some en" by (auto simp: owned_def)
  with Some show ?thesis by (auto simp: wake_def owed_def update_entry_def)
qed

lemma start_new_owed:
  assumes "coord_inv st" "map_of (active st) k' = None" "owed st k"
  shows "owed (start_fiber k' (next_entry st) force (make_entry k' st)) k"
proof (cases "k = k'")
  case True
  then show ?thesis by (simp add: started_owed)
next
  case False
  note fresh = coord_inv_fresh [OF assms(1)]
  from assms(3) consider f fib where "fibers st f = Some fib" "fiber_key fib = k" "phase fib = Gate" "\<not> asked fib"
    | e en where "map_of (active st) k = Some e" "entries st e = Some en" "pending_wake en" unfolding owed_def by blast
  then show ?thesis
  proof cases
    case 1
    with fresh have "f \<noteq> next_fiber st" by auto
    with 1 show ?thesis
      by (intro owed_def [THEN iffD2] disjI1 exI [of _ f] exI [of _ fib]) (simp add: start_fiber_def make_entry_def update_entry_def Let_def)
  next
    case 2
    with fresh have "e \<noteq> next_entry st" by auto
    with 2 False show ?thesis
      by (intro owed_def [THEN iffD2] disjI2 exI [of _ e] exI [of _ en]) (simp add: start_fiber_def make_entry_def update_entry_def Let_def)
  qed
qed

lemma active_keys_apart:
  "coord_inv st \<Longrightarrow> map_of (active st) k = Some e \<Longrightarrow> map_of (active st) k' = Some e' \<Longrightarrow> k \<noteq> k' \<Longrightarrow> e \<noteq> e'"
  using coord_inv_activeD owned_unique by metis

lemma settle_owed:
  assumes inv: "coord_inv st" and f: "fibers st f = Some fib" and ph: "phase fib = Draining \<or> asked fib" and o: "owed st k"
  shows "owed (exit_fiber f x st) k"
proof -
  let ?k = "fiber_key fib" and ?e = "fiber_entry fib"
  let ?st1 = "st\<lparr>fibers := (fibers st)(f := None)\<rparr>"
  have m: "map_of (active st) ?k = Some ?e" "owned st ?k ?e f" using coord_inv_fiberD [OF inv f] by auto
  then obtain en where en: "entries st ?e = Some en" by (auto simp: owned_def)
  have settle: "exit_fiber f x st = settle ?k ?e x ?st1" by (simp add: exit_fiber_def f)
  have fresh: "fibers st (next_fiber st) = None" "entries st (next_entry st) = None" using coord_inv_fresh [OF inv] by auto
  from o consider (gate) g gib where "fibers st g = Some gib" "fiber_key gib = k" "phase gib = Gate" "\<not> asked gib"
    | (pend) e en' where "map_of (active st) k = Some e" "entries st e = Some en'" "pending_wake en'" unfolding owed_def by blast
  then show ?thesis
  proof cases
    case gate
    have "g \<noteq> f" using gate f ph by auto
    moreover have "g \<noteq> next_fiber st" using gate fresh by auto
    ultimately have "fibers (exit_fiber f x st) g = Some gib"
      using gate unfolding settle settle_def
      by (auto simp: en start_fiber_def make_entry_def update_entry_def Let_def)
    with gate show ?thesis unfolding owed_def by blast
  next
    case pend
    show ?thesis
    proof (cases "?k = k")
      case True
      with pend m en have pw: "pending_wake en" by auto
      have "\<exists>g gib. fibers (exit_fiber f x st) g = Some gib \<and> fiber_key gib = k \<and> phase gib = Gate \<and> \<not> asked gib"
        using pw True unfolding settle settle_def
        by (auto simp: en start_fiber_def make_entry_def update_entry_def Let_def)
      then show ?thesis unfolding owed_def by blast
    next
      case False
      with pend m active_keys_apart [OF inv] have ne: "e \<noteq> ?e" by metis
      have ne2: "e \<noteq> next_entry st" using pend(2) fresh by auto
      have "entries (exit_fiber f x st) e = Some en'" "map_of (active (exit_fiber f x st)) k = Some e"
        using pend ne ne2 False unfolding settle settle_def
        by (auto simp: en start_fiber_def make_entry_def update_entry_def Let_def)
      with pend(3) show ?thesis unfolding owed_def by blast
    qed
  qed
qed

lemma interrupt_owed:
  assumes inv: "coord_inv st" and ne: "k' \<noteq> k" and o: "owed st k"
  shows "owed (interrupt k' st) k"
proof (cases "map_of (active st) k'")
  case None
  with o show ?thesis by (simp add: interrupt_def)
next
  case (Some e')
  from coord_inv_activeD [OF inv Some] obtain f en fib where en: "entries st e' = Some en" "owner en = Some f"
    "fibers st f = Some fib" "fiber_key fib = k'" by (auto simp: owned_def)
  have i: "interrupt k' st = (update_entry e' (\<lambda>en. en\<lparr>stopping := True, pending_wake := False\<rparr>) st)
           \<lparr>fibers := (fibers st)(f \<mapsto> fib\<lparr>asked := True\<rparr>)\<rparr>"
    by (simp add: interrupt_def Some en)
  from o consider (gate) g gib where "fibers st g = Some gib" "fiber_key gib = k" "phase gib = Gate" "\<not> asked gib"
    | (pend) e en' where "map_of (active st) k = Some e" "entries st e = Some en'" "pending_wake en'" unfolding owed_def by blast
  then show ?thesis
  proof cases
    case gate
    then have "g \<noteq> f" using en ne by auto
    with gate have "fibers (interrupt k' st) g = Some gib" by (simp add: i)
    with gate show ?thesis unfolding owed_def by blast
  next
    case pend
    have "e \<noteq> e'" using active_keys_apart [OF inv pend(1) Some] ne by auto
    with pend have "entries (interrupt k' st) e = Some en'" "map_of (active (interrupt k' st)) k = Some e"
      by (simp_all add: i update_entry_def)
    with pend(3) show ?thesis unfolding owed_def by blast
  qed
qed

fun consumes :: "'k \<Rightarrow> ('k, 'e) coord \<Rightarrow> ('k, 'e) action \<Rightarrow> bool" where
  \<comment> \<open>the actions that discharge a wake: a drain of the key begins, or the key is interrupted\<close>
  "consumes k st (Begin f) = (case fibers st f of Some fib \<Rightarrow> fiber_key fib = k | None \<Rightarrow> False)"
| "consumes k st (Interrupt k') = (k' = k)"
| "consumes k st a = False"

lemma step_owed:
  assumes step: "coord_step st a st'" and inv: "coord_inv st" and nc: "\<not> consumes k st a" and o: "owed st k"
  shows "owed st' k"
  using step
proof (cases rule: coord_step.cases)
  case (step_run k')
  then show ?thesis using start_new_owed [OF inv _ o, of k' True] o by (auto simp: run_def split: option.splits)
next
  case (step_wake k')
  show ?thesis
  proof (cases "map_of (active st) k'")
    case None
    with step_wake start_new_owed [OF inv None o] show ?thesis by (simp add: wake_def)
  next
    case (Some e)
    then have w: "st' = update_entry e (\<lambda>en. en\<lparr>pending_wake := True\<rparr>) st" by (simp add: step_wake wake_def)
    from o consider (gate) g gib where "fibers st g = Some gib" "fiber_key gib = k" "phase gib = Gate" "\<not> asked gib"
      | (pend) e' en' where "map_of (active st) k = Some e'" "entries st e' = Some en'" "pending_wake en'" unfolding owed_def by blast
    then show ?thesis
    proof cases
      case gate
      then show ?thesis unfolding owed_def w update_entry_def by auto
    next
      case pend
      then show ?thesis unfolding owed_def w update_entry_def by (cases "e' = e") auto
    qed
  qed
next
  case (step_interrupt k')
  with nc interrupt_owed [OF inv _ o, of k'] show ?thesis by simp
next
  case (step_begin f fib)
  from o consider (gate) g gib where "fibers st g = Some gib" "fiber_key gib = k" "phase gib = Gate" "\<not> asked gib"
    | (pend) e en' where "map_of (active st) k = Some e" "entries st e = Some en'" "pending_wake en'" unfolding owed_def by blast
  then show ?thesis
  proof cases
    case gate
    with nc step_begin have "g \<noteq> f" by auto
    with gate have "fibers st' g = Some gib" by (simp add: step_begin begin_drain_def)
    with gate show ?thesis unfolding owed_def by blast
  next
    case pend
    then show ?thesis unfolding owed_def by (simp add: step_begin begin_drain_def)
  qed
next
  case (step_exit f fib x)
  then show ?thesis using settle_owed [OF inv _ _ o] by blast
qed

inductive quiet :: "'k \<Rightarrow> ('k, 'e) coord \<Rightarrow> ('k, 'e) coord \<Rightarrow> bool" for k where
  quiet_refl: "quiet k st st"
| quiet_step: "quiet k st st' \<Longrightarrow> coord_step st' a st'' \<Longrightarrow> \<not> consumes k st' a \<Longrightarrow> quiet k st st''"

lemma quiet_owed: "quiet k st st' \<Longrightarrow> coord_inv st \<Longrightarrow> owed st k \<Longrightarrow> coord_inv st' \<and> owed st' k"
proof (induction rule: quiet.induct)
  case (quiet_step st st' a st'')
  then show ?case using coord_step_inv [OF quiet_step.hyps(2)] step_owed [OF quiet_step.hyps(2) _ quiet_step.hyps(3)] by simp
qed simp

text \<open>C28. No wake is lost: after a wake of a key, and whatever other callers and fibers do, as long as no
  drain of the key has begun and the key has not been interrupted, a drain is still to come: its
  fiber stands at the gate, or the running drain has the wake registered and starts it on exit.\<close>

theorem wake_is_not_lost:
  assumes "reachable st" "quiet k (wake k st) st'"
  shows "owed st' k"
proof -
  note inv = reachable_inv [OF assms(1)]
  show ?thesis using quiet_owed [OF assms(2) wake_inv [OF inv] wake_owed [OF inv]] ..
qed

lemma wake_is_not_lost_witness:
  "\<exists>st :: (nat, nat) coord. owed st 7 \<and> (\<exists>e. map_of (active st) 7 = Some e)"
proof -
  let ?st0 = "snd (run (7 :: nat) (empty_coord :: (nat, nat) coord))"
  let ?st1 = "begin_drain 0 ?st0"
  obtain fib where f: "fibers ?st0 0 = Some fib" "phase fib = Gate"
    by (simp add: run_def empty_coord_def start_fiber_def make_entry_def update_entry_def Let_def fresh_entry_def)
  have r: "reachable ?st1"
    by (rule reach_step [OF reach_step [OF reach_empty step_run] step_begin [OF f]])
  have "owed (wake 7 ?st1) 7" using wake_is_not_lost [OF r quiet_refl] .
  moreover have "\<exists>e. map_of (active (wake 7 ?st1)) 7 = Some e"
    by (simp add: wake_def begin_drain_def run_def empty_coord_def start_fiber_def make_entry_def update_entry_def Let_def)
  ultimately show ?thesis by blast
qed

end
