(* ===== verification/WorkRunnerProps.thy ===== *)
theory WorkRunnerProps imports WorkRunner Inevitable begin

text \<open>
  What the runner of \<open>WorkRunner\<close> keeps: a work that goes on is the current one or is being cancelled, a deferred
  that waits has a fiber, a cancellation or a pending run that answers it, and left to itself the runner comes to
  rest with everybody answered.
\<close>

section \<open>The invariant\<close>

fun current_fiber :: "'w runner_state \<Rightarrow> nat option" where
  "current_fiber Idle = None"
| "current_fiber (Running i d) = Some i"
| "current_fiber (Shell s) = Some s"
| "current_fiber (Shell_Then_Run s i d w) = Some s"

fun running_done :: "'w runner_state \<Rightarrow> nat option" where
  \<comment> \<open>the deferred of the current fiber\<close>
  "running_done (Running i d) = Some d"
| "running_done _ = None"

fun pending_done :: "'w runner_state \<Rightarrow> nat option" where
  "pending_done (Shell_Then_Run s i d w) = Some d"
| "pending_done _ = None"

definition numbered :: "('w, 'a) work_runner \<Rightarrow> bool" where
  "numbered st \<longleftrightarrow> (\<forall>f \<ge> wr_ids st. wr_fibers st f = None) \<and> (\<forall>n \<ge> wr_next_cancel st. wr_cancels st n = None) \<and>
     (\<forall>d \<ge> wr_next_done st. wr_dones st d = None)"

definition working :: "('w, 'a) work_runner \<Rightarrow> nat \<Rightarrow> bool" where
  "working st f \<longleftrightarrow> (\<exists>fb. wr_fibers st f = Some fb \<and> wf_exit fb = None)"

definition cancelled :: "('w, 'a) work_runner \<Rightarrow> nat \<Rightarrow> bool" where
  "cancelled st f \<longleftrightarrow> (\<exists>n ca. wr_cancels st n = Some ca \<and> ca_fiber ca = f)"

definition on_fiber :: "('w, 'a) work_runner \<Rightarrow> nat \<Rightarrow> bool" where
  "on_fiber st d \<longleftrightarrow> (\<exists>f fb. wr_fibers st f = Some fb \<and> wf_done fb = Some d)"

definition on_cancel :: "('w, 'a) work_runner \<Rightarrow> nat \<Rightarrow> bool" where
  "on_cancel st d \<longleftrightarrow> (\<exists>n ca. wr_cancels st n = Some ca \<and> ca_done ca = Some d)"

definition current_works :: "('w, 'a) work_runner \<Rightarrow> bool" where
  "current_works st \<longleftrightarrow> (\<forall>f. current_fiber (wr_state st) = Some f \<longrightarrow>
     (\<exists>fb. wr_fibers st f = Some fb \<and> wf_exit fb = None \<and> wf_done fb = running_done (wr_state st)))"

definition works_covered :: "('w, 'a) work_runner \<Rightarrow> bool" where
  "works_covered st \<longleftrightarrow> (\<forall>f. working st f \<longrightarrow> current_fiber (wr_state st) = Some f \<or> cancelled st f)"

definition waits_covered :: "('w, 'a) work_runner \<Rightarrow> bool" where
  "waits_covered st \<longleftrightarrow> (\<forall>d. wr_dones st d = Some Waiting \<longrightarrow>
     on_fiber st d \<or> on_cancel st d \<or> pending_done (wr_state st) = Some d)"

definition runner_inv :: "('w, 'a) work_runner \<Rightarrow> bool" where
  "runner_inv st \<longleftrightarrow> numbered st \<and> current_works st \<and> works_covered st \<and> waits_covered st"

lemmas covering_defs = working_def cancelled_def on_fiber_def on_cancel_def

section \<open>What the operations do to it\<close>

lemma unnumbered [simp]:
  "numbered st \<Longrightarrow> wr_fibers st (wr_ids st) = None" "numbered st \<Longrightarrow> wr_cancels st (wr_next_cancel st) = None"
  "numbered st \<Longrightarrow> wr_dones st (wr_next_done st) = None"
  by (auto simp: numbered_def)

lemma numbered_fork [simp]: "numbered st \<Longrightarrow> numbered (fork_work w d st)"
  by (auto simp: numbered_def fork_work_def)

lemma fork_covers:
  assumes "numbered st"
  shows "working (fork_work w d st) f \<longleftrightarrow> f = wr_ids st \<or> working st f"
    "on_fiber (fork_work w d st) e \<longleftrightarrow> d = Some e \<or> on_fiber st e"
    "cancelled (fork_work w d st) f \<longleftrightarrow> cancelled st f" "on_cancel (fork_work w d st) e \<longleftrightarrow> on_cancel st e"
  using unnumbered(1) [OF assms]
  by (auto simp: covering_defs fork_work_def intro: exI [of _ "wr_ids st"])
    (metis option.distinct(1))+

lemma numbered_drop [simp]: "numbered st \<Longrightarrow> numbered (drop_work f d st)"
  by (auto simp: numbered_def drop_work_def)

lemma drop_covers:
  assumes "numbered st"
  shows "working (drop_work g d st) f \<longleftrightarrow> working st f" "on_fiber (drop_work g d st) e \<longleftrightarrow> on_fiber st e"
    "cancelled (drop_work g d st) f \<longleftrightarrow> f = g \<or> cancelled st f"
    "on_cancel (drop_work g d st) e \<longleftrightarrow> d = Some e \<or> on_cancel st e"
  using unnumbered(2) [OF assms]
  by (auto simp: covering_defs drop_work_def intro: exI [of _ "wr_next_cancel st"])
    (metis option.distinct(1))+

lemma numbered_ended [simp]: "numbered st \<Longrightarrow> wr_fibers st f = Some fb \<Longrightarrow> numbered (ended f fb x c st)"
  by (auto simp: numbered_def ended_def)

lemma ended_covers:
  assumes "wr_fibers st g = Some fb"
  shows "working (ended g fb x c st) f \<longleftrightarrow> f \<noteq> g \<and> working st f" "on_fiber (ended g fb x c st) e \<longleftrightarrow> on_fiber st e"
    "cancelled (ended g fb x c st) f \<longleftrightarrow> cancelled st f" "on_cancel (ended g fb x c st) e \<longleftrightarrow> on_cancel st e"
  using assms by (auto simp: covering_defs ended_def) (metis option.inject)+

lemma covers_update [simp]:
  "working (wr_state_update g st) = working st" "cancelled (wr_state_update g st) = cancelled st"
  "on_fiber (wr_state_update g st) = on_fiber st" "on_cancel (wr_state_update g st) = on_cancel st"
  "working (wr_idle_update k st) = working st" "cancelled (wr_idle_update k st) = cancelled st"
  "on_fiber (wr_idle_update k st) = on_fiber st" "on_cancel (wr_idle_update k st) = on_cancel st"
  "working (wr_busy_update k st) = working st" "cancelled (wr_busy_update k st) = cancelled st"
  "on_fiber (wr_busy_update k st) = on_fiber st" "on_cancel (wr_busy_update k st) = on_cancel st"
  "working (wr_shells_update h st) = working st" "cancelled (wr_shells_update h st) = cancelled st"
  "on_fiber (wr_shells_update h st) = on_fiber st" "on_cancel (wr_shells_update h st) = on_cancel st"
  "working (wr_closed_update c st) = working st" "cancelled (wr_closed_update c st) = cancelled st"
  "on_fiber (wr_closed_update c st) = on_fiber st" "on_cancel (wr_closed_update c st) = on_cancel st"
  "working (wr_ids_update k st) = working st" "cancelled (wr_ids_update k st) = cancelled st"
  "on_fiber (wr_ids_update k st) = on_fiber st" "on_cancel (wr_ids_update k st) = on_cancel st"
  "working (new_done st) = working st" "cancelled (new_done st) = cancelled st"
  "on_fiber (new_done st) = on_fiber st" "on_cancel (new_done st) = on_cancel st"
  "working (complete_done e x st) = working st" "cancelled (complete_done e x st) = cancelled st"
  "on_fiber (complete_done e x st) = on_fiber st" "on_cancel (complete_done e x st) = on_cancel st"
  by (simp_all add: covering_defs fun_eq_iff new_done_def complete_done_def)

lemma numbered_update [simp]:
  "numbered (wr_state_update g st) = numbered st" "numbered (wr_idle_update k st) = numbered st"
  "numbered (wr_busy_update k st) = numbered st" "numbered (wr_closed_update c st) = numbered st"
  "numbered (wr_shells_update h st) = numbered st"
  "numbered st \<Longrightarrow> wr_ids st \<le> i \<Longrightarrow> numbered (st\<lparr>wr_ids := i\<rparr>)"
  "numbered st \<Longrightarrow> numbered (new_done st)" "numbered st \<Longrightarrow> numbered (complete_done e x st)"
  by (auto simp: numbered_def new_done_def complete_done_def)

lemma op_selectors [simp]:
  "wr_state (fork_work w d st) = wr_state st" "wr_dones (fork_work w d st) = wr_dones st"
  "wr_ids (fork_work w d st) = Suc (wr_ids st)" "wr_next_done (fork_work w d st) = wr_next_done st"
  "wr_state (new_done st) = wr_state st" "wr_fibers (new_done st) = wr_fibers st" "wr_ids (new_done st) = wr_ids st"
  "wr_dones (new_done st) = (wr_dones st)(wr_next_done st \<mapsto> Waiting)" "wr_cancels (new_done st) = wr_cancels st"
  "wr_state (complete_done e x st) = wr_state st" "wr_fibers (complete_done e x st) = wr_fibers st"
  "wr_cancels (complete_done e x st) = wr_cancels st" "wr_ids (complete_done e x st) = wr_ids st"
  "wr_state (drop_work f d st) = Idle" "wr_dones (drop_work f d st) = wr_dones st" "wr_fibers (drop_work f d st) = wr_fibers st"
  "wr_state (ended f fb x c st) = wr_state st" "wr_dones (ended f fb x c st) = wr_dones st" "wr_ids (ended f fb x c st) = wr_ids st"
  "wr_fibers (ended f fb x c st) = (wr_fibers st)(f \<mapsto> fb\<lparr>wf_exit := Some (x, c)\<rparr>)" "wr_cancels (ended f fb x c st) = wr_cancels st"
  "wr_cancels (fork_work w d st) = wr_cancels st"
  "wr_fibers (fork_work w d st) = (wr_fibers st)(wr_ids st \<mapsto> \<lparr>wf_work = w, wf_done = d, wf_asked = False, wf_exit = None\<rparr>)"
  by (simp_all add: fork_work_def new_done_def complete_done_def drop_work_def ended_def)

lemma wr_dones_complete [simp]:
  "wr_dones (complete_done e x st) d = Some Waiting \<longleftrightarrow> d \<noteq> e \<and> wr_dones st d = Some Waiting"
  by (simp add: complete_done_def)

section \<open>The invariant is kept\<close>

lemmas runner_invD = runner_inv_def current_works_def works_covered_def waits_covered_def

lemma runner_inv_new: "runner_inv new_runner"
  by (simp add: runner_invD numbered_def covering_defs new_runner_def)

lemma runner_inv_ensure: "runner_inv st \<Longrightarrow> runner_inv (snd (ensure_running w st))"
  by (cases "wr_state st") (auto simp: runner_invD ensure_running_def start_run_def fork_covers)

lemma runner_inv_shell: "runner_inv st \<Longrightarrow> runner_inv (snd (start_shell w latch st))"
  by (auto simp: runner_invD start_shell_def fork_covers)

lemma runner_inv_cancel: "runner_inv st \<Longrightarrow> runner_inv (cancel st)"
  by (cases "wr_state st") (auto simp: runner_invD cancel_def drop_covers)

lemma runner_inv_ready: "runner_inv st \<Longrightarrow> runner_inv (open_ready f st)"
  by (simp add: runner_invD open_ready_def)

lemma runner_inv_finish:
  assumes "runner_inv st" "wr_fibers st f = Some fb" "wf_exit fb = None"
  shows "runner_inv (finish_work f x st)"
proof (cases "wf_done fb")
  case None
  with assms show ?thesis
    by (cases "wr_state st") (auto simp: runner_invD finish_work_def finish_shell_def start_run_def fork_covers ended_covers)
next
  case (Some d)
  with assms show ?thesis
    by (cases "wr_state st") (auto simp: runner_invD finish_work_def finish_run_def ended_covers)
qed

definition without_fiber :: "nat \<Rightarrow> ('w, 'a) work_runner \<Rightarrow> ('w, 'a) work_runner" where
  "without_fiber f st = st\<lparr>wr_fibers := (wr_fibers st)(f := None)\<rparr>"

definition without_cancel :: "nat \<Rightarrow> ('w, 'a) work_runner \<Rightarrow> ('w, 'a) work_runner" where
  "without_cancel n st = st\<lparr>wr_cancels := (wr_cancels st)(n := None)\<rparr>"

lemma without_selectors [simp]:
  "wr_state (without_fiber f st) = wr_state st" "wr_dones (without_fiber f st) = wr_dones st"
  "wr_state (without_cancel n st) = wr_state st" "wr_dones (without_cancel n st) = wr_dones st"
  "wr_fibers (without_fiber f st) = (wr_fibers st)(f := None)" "wr_fibers (without_cancel n st) = wr_fibers st"
  "wr_cancels (without_fiber f st) = wr_cancels st" "wr_cancels (without_cancel n st) = (wr_cancels st)(n := None)"
  "wr_ids (without_fiber f st) = wr_ids st" "wr_ids (without_cancel n st) = wr_ids st"
  "numbered st \<Longrightarrow> numbered (without_fiber f st)" "numbered st \<Longrightarrow> numbered (without_cancel n st)"
  by (simp_all add: without_fiber_def without_cancel_def numbered_def)

lemma without_fiber_covers:
  assumes "wr_fibers st g = Some fb"
  shows "working (without_fiber g st) f \<longleftrightarrow> f \<noteq> g \<and> working st f" "cancelled (without_fiber g st) f \<longleftrightarrow> cancelled st f"
    "on_cancel (without_fiber g st) e \<longleftrightarrow> on_cancel st e"
    "wf_done fb \<noteq> Some e \<Longrightarrow> on_fiber (without_fiber g st) e \<longleftrightarrow> on_fiber st e"
  using assms by (auto simp: covering_defs without_fiber_def) (metis option.inject)+

lemma without_cancel_covers:
  assumes "wr_cancels st n = Some ca"
  shows "working (without_cancel n st) f \<longleftrightarrow> working st f" "on_fiber (without_cancel n st) e \<longleftrightarrow> on_fiber st e"
    "f \<noteq> ca_fiber ca \<Longrightarrow> cancelled (without_cancel n st) f \<longleftrightarrow> cancelled st f"
    "ca_done ca \<noteq> Some e \<Longrightarrow> on_cancel (without_cancel n st) e \<longleftrightarrow> on_cancel st e"
  using assms by (auto simp: covering_defs without_cancel_def) (metis option.inject)+

lemma complete_work_eq:
  assumes "wr_fibers st f = Some fb" "wf_exit fb = Some (x, current)"
  shows "complete_work f st =
    (let st1 = (without_fiber f st)\<lparr>wr_idle := (if current then Suc (wr_idle st) else wr_idle st)\<rparr>
     in case wf_done fb of Some d \<Rightarrow> complete_done d x st1 | None \<Rightarrow> st1\<lparr>wr_shells := (wr_shells st)(f \<mapsto> x)\<rparr>)"
  using assms by (simp add: complete_work_def without_fiber_def Let_def split: option.split)

lemma end_cancel_eq:
  assumes "wr_cancels st n = Some ca"
  shows "end_cancel n st =
    (let st1 = (case ca_done ca of Some d \<Rightarrow> complete_done d Interrupted_Only st | None \<Rightarrow> st)
     in (without_cancel n st1)\<lparr>wr_idle := (if wr_state st = Idle then Suc (wr_idle st1) else wr_idle st1)\<rparr>)"
  using assms by (simp add: end_cancel_def without_cancel_def Let_def split: option.split)

lemma runner_inv_complete:
  assumes "runner_inv st" "wr_fibers st f = Some fb" "wf_exit fb \<noteq> None"
  shows "runner_inv (complete_work f st)"
proof -
  obtain x current where "wf_exit fb = Some (x, current)" using assms(3) by (cases "wf_exit fb") auto
  with assms show ?thesis
    by (cases "wf_done fb") (auto simp: runner_invD complete_work_eq Let_def without_fiber_covers [OF assms(2)])
qed

lemma stop_fiber:
  "wr_fibers (stop_work n st) f = Some fb \<Longrightarrow> \<exists>fb'. wr_fibers st f = Some fb' \<and> wf_exit fb = wf_exit fb' \<and> wf_done fb = wf_done fb'"
  "wr_fibers st f = Some fb' \<Longrightarrow> \<exists>fb. wr_fibers (stop_work n st) f = Some fb \<and> wf_exit fb = wf_exit fb' \<and> wf_done fb = wf_done fb'"
  by (auto simp: stop_work_def split: option.splits if_splits)

lemma stop_cancel:
  "wr_cancels (stop_work n st) m = Some ca \<Longrightarrow> \<exists>ca'. wr_cancels st m = Some ca' \<and> ca_fiber ca = ca_fiber ca' \<and> ca_done ca = ca_done ca'"
  "wr_cancels st m = Some ca' \<Longrightarrow> \<exists>ca. wr_cancels (stop_work n st) m = Some ca \<and> ca_fiber ca = ca_fiber ca' \<and> ca_done ca = ca_done ca'"
  by (auto simp: stop_work_def split: option.splits if_splits)

lemma stop_covers [simp]:
  "working (stop_work n st) f \<longleftrightarrow> working st f" "cancelled (stop_work n st) f \<longleftrightarrow> cancelled st f"
  "on_fiber (stop_work n st) e \<longleftrightarrow> on_fiber st e" "on_cancel (stop_work n st) e \<longleftrightarrow> on_cancel st e"
  unfolding covering_defs by (metis stop_fiber stop_cancel)+

lemma stop_selectors [simp]:
  "wr_state (stop_work n st) = wr_state st" "wr_dones (stop_work n st) = wr_dones st"
  "numbered st \<Longrightarrow> numbered (stop_work n st)"
  by (auto simp: stop_work_def numbered_def split: option.split)

lemma runner_inv_stop: "runner_inv st \<Longrightarrow> runner_inv (stop_work n st)"
  by (auto simp: runner_invD) (metis stop_fiber(2))

lemma runner_inv_end:
  assumes "runner_inv st" "wr_cancels st n = Some ca" "wr_fibers st (ca_fiber ca) = None"
  shows "runner_inv (end_cancel n st)"
proof -
  define st1 where "st1 = (case ca_done ca of Some d \<Rightarrow> complete_done d Interrupted_Only st | None \<Rightarrow> st)"
  have at: "wr_cancels st1 n = Some ca" using assms(2) by (simp add: st1_def split: option.split)
  have kept: "numbered st1" "current_works st1" "works_covered st1" "waits_covered st1"
    "\<And>e. ca_done ca = Some e \<Longrightarrow> wr_dones st1 e \<noteq> Some Waiting"
    using assms(1) by (auto simp: st1_def runner_invD split: option.split)
  have "\<not> working st1 (ca_fiber ca)"
    using assms(3) by (auto simp: st1_def working_def split: option.split)
  then have "works_covered (without_cancel n st1)"
    using kept(3) without_cancel_covers(1,3) [OF at] unfolding works_covered_def by (metis without_selectors(3))
  moreover have "waits_covered (without_cancel n st1)"
    using kept(4,5) without_cancel_covers(2,4) [OF at] unfolding waits_covered_def by (metis without_selectors(3,4))
  ultimately show ?thesis
    using kept(1,2) by (simp add: end_cancel_eq [OF assms(2)] st1_def [symmetric] Let_def runner_invD)
qed

lemma runner_inv_step:
  assumes "runner_step st a st'" "runner_inv st"
  shows "runner_inv st'"
  using assms
  by cases (auto intro: runner_inv_ensure runner_inv_shell runner_inv_cancel runner_inv_ready runner_inv_finish
      runner_inv_complete runner_inv_stop runner_inv_end)

lemma runner_inv_reachable: "runner_reachable st \<Longrightarrow> runner_inv st"
  by (induction rule: runner_reachable.induct) (auto intro: runner_inv_new runner_inv_step)

section \<open>The deferred that callers join is unanswered\<close>

definition run_done :: "'w runner_state \<Rightarrow> nat option" where
  "run_done s = (case s of Running i d \<Rightarrow> Some d | Shell_Then_Run s i d w \<Rightarrow> Some d | _ \<Rightarrow> None)"

definition known_dones :: "('w, 'a) work_runner \<Rightarrow> bool" where
  "known_dones st \<longleftrightarrow> (\<forall>d. on_fiber st d \<or> on_cancel st d \<longrightarrow> wr_dones st d \<noteq> None)"

definition only_current :: "('w, 'a) work_runner \<Rightarrow> nat \<Rightarrow> bool" where
  "only_current st d \<longleftrightarrow> (\<forall>f fb. wr_fibers st f = Some fb \<and> wf_done fb = Some d \<longrightarrow> current_fiber (wr_state st) = Some f)"

definition joinable :: "('w, 'a) work_runner \<Rightarrow> bool" where
  "joinable st \<longleftrightarrow> (\<forall>d. run_done (wr_state st) = Some d \<longrightarrow>
     wr_dones st d = Some Waiting \<and> \<not> on_cancel st d \<and> only_current st d)"

definition join_inv :: "('w, 'a) work_runner \<Rightarrow> bool" where
  "join_inv st \<longleftrightarrow> runner_inv st \<and> known_dones st \<and> joinable st"

lemma run_done_simps [simp]:
  "run_done Idle = None" "run_done (Running i d) = Some d" "run_done (Shell s) = None" "run_done (Shell_Then_Run s i d w) = Some d"
  by (simp_all add: run_done_def)

lemmas join_invD = join_inv_def known_dones_def joinable_def

lemma wr_dones_complete_None [simp]: "wr_dones (complete_done e x st) d = None \<longleftrightarrow> wr_dones st d = None"
  by (simp add: complete_done_def)

lemma fresh_done:
  assumes "join_inv st"
  shows "\<not> on_fiber st (wr_next_done st)" "\<not> on_cancel st (wr_next_done st)"
    "wr_fibers st f = Some fb \<Longrightarrow> wf_done fb \<noteq> Some (wr_next_done st)"
proof -
  show none: "\<not> on_fiber st (wr_next_done st)" "\<not> on_cancel st (wr_next_done st)"
    using assms unnumbered(3) [of st] by (auto simp: join_invD runner_inv_def)
  show "wr_fibers st f = Some fb \<Longrightarrow> wf_done fb \<noteq> Some (wr_next_done st)"
    using none(1) by (auto simp: on_fiber_def)
qed

lemma join_inv_new: "join_inv new_runner"
  by (simp add: join_invD runner_inv_new) (simp add: new_runner_def covering_defs)

lemma join_inv_ensure:
  assumes "join_inv st"
  shows "join_inv (snd (ensure_running w st))"
proof -
  have n: "numbered st" using assms by (simp add: join_invD runner_inv_def)
  show ?thesis
    using assms fresh_done(1,2) [OF assms] fresh_done(3) [OF assms] n runner_inv_ensure [of st w]
    by (cases "wr_state st")
      (auto simp: join_invD ensure_running_def start_run_def fork_covers only_current_def)
qed

lemma join_inv_shell: "join_inv st \<Longrightarrow> join_inv (snd (start_shell w latch st))"
  using runner_inv_shell [of st w latch]
  by (auto simp: join_invD start_shell_def fork_covers runner_inv_def)

lemma join_inv_cancel: "join_inv st \<Longrightarrow> join_inv (cancel st)"
  using runner_inv_cancel [of st]
  by (cases "wr_state st") (auto simp: join_invD cancel_def drop_covers runner_inv_def)

lemma join_inv_ready: "join_inv st \<Longrightarrow> join_inv (open_ready f st)"
  using runner_inv_ready [of st f] by (auto simp: join_invD open_ready_def only_current_def)

lemma join_inv_finish:
  assumes "join_inv st" "wr_fibers st f = Some fb" "wf_exit fb = None"
  shows "join_inv (finish_work f x st)"
proof -
  have "numbered st" "current_works st" using assms by (simp_all add: join_invD runner_inv_def)
  with assms runner_inv_finish [of st f fb x] show ?thesis
    by (cases "wf_done fb"; cases "wr_state st")
      (auto simp: join_invD finish_work_def finish_shell_def finish_run_def start_run_def fork_covers ended_covers
        only_current_def current_works_def split: if_splits)
qed

lemma join_inv_complete:
  assumes "join_inv st" "wr_fibers st f = Some fb" "wf_exit fb \<noteq> None"
  shows "join_inv (complete_work f st)"
proof -
  obtain x current where exit: "wf_exit fb = Some (x, current)" using assms(3) by (cases "wf_exit fb") auto
  have other: "current_fiber (wr_state st) \<noteq> Some f"
    using assms(1,2) exit by (auto simp: join_inv_def runner_inv_def current_works_def)
  have fewer: "on_fiber (without_fiber f st) d \<Longrightarrow> on_fiber st d" for d
    by (auto simp: on_fiber_def split: if_splits)
  show ?thesis
    using assms exit other fewer runner_inv_complete [of st f fb]
    by (cases "wf_done fb")
      (auto simp: join_invD complete_work_eq Let_def without_fiber_covers [OF assms(2)] only_current_def split: if_splits)
qed

lemma join_inv_stop: "join_inv st \<Longrightarrow> join_inv (stop_work n st)"
  using runner_inv_stop [of st n] by (auto simp: join_invD only_current_def dest!: stop_fiber(1))

lemma join_inv_end:
  assumes "join_inv st" "wr_cancels st n = Some ca" "wr_fibers st (ca_fiber ca) = None"
  shows "join_inv (end_cancel n st)"
proof -
  have fewer: "on_cancel (without_cancel n st1) d \<Longrightarrow> on_cancel st1 d" for st1 d
    by (auto simp: on_cancel_def split: if_splits)
  have own: "ca_done ca = Some d \<Longrightarrow> on_cancel st d" for d using assms(2) by (auto simp: on_cancel_def)
  have fibers: "on_fiber (without_cancel n st1) d = on_fiber st1 d" for st1 d by (simp add: on_fiber_def)
  show ?thesis
    using assms own runner_inv_end [of st n ca]
    by (cases "ca_done ca")
      (auto simp: join_invD end_cancel_eq Let_def only_current_def fibers dest!: fewer)
qed

lemma join_inv_step:
  assumes "runner_step st a st'" "join_inv st"
  shows "join_inv st'"
  using assms
  by cases (auto intro: join_inv_ensure join_inv_shell join_inv_cancel join_inv_ready join_inv_finish
      join_inv_complete join_inv_stop join_inv_end)

lemma join_inv_reachable: "runner_reachable st \<Longrightarrow> join_inv st"
  by (induction rule: runner_reachable.induct) (auto intro: join_inv_new join_inv_step)

lemma joined_waits:
  assumes "join_inv st" "ensure_running w st = (d, st')"
  shows "wr_dones st' d = Some Waiting"
  using assms by (cases "wr_state st") (auto simp: join_invD ensure_running_def start_run_def)

section \<open>Left to itself the runner comes to rest\<close>

fun fiber_load :: "('w, 'a) work_fiber option \<Rightarrow> nat" where
  "fiber_load None = 0"
| "fiber_load (Some fb) = (if wf_exit fb = None then 2 else 1)"

fun cancel_load :: "cancellation option \<Rightarrow> nat" where
  "cancel_load None = 0"
| "cancel_load (Some ca) = (if ca_stopped ca then 1 else 2)"

fun pending_load :: "'w runner_state \<Rightarrow> nat" where
  "pending_load (Shell_Then_Run s i d w) = 3"
| "pending_load _ = 0"

definition runner_load :: "('w, 'a) work_runner \<Rightarrow> nat" where
  "runner_load st = (\<Sum>f<wr_ids st. fiber_load (wr_fibers st f)) + (\<Sum>n<wr_next_cancel st. cancel_load (wr_cancels st n))
     + pending_load (wr_state st)"

lemma sum_fun_upd:
  fixes h :: "'b \<Rightarrow> nat" and g k :: nat
  assumes "g < k"
  shows "(\<Sum>f<k. h ((m(g := v)) f)) + h (m g) = (\<Sum>f<k. h (m f)) + h v"
proof -
  have fin: "finite {..<k}" "g \<in> {..<k}" using assms by simp_all
  have "(\<Sum>f\<in>{..<k} - {g}. h ((m(g := v)) f)) = (\<Sum>f\<in>{..<k} - {g}. h (m f))"
    by (rule sum.cong) auto
  then show ?thesis
    using sum.remove [OF fin, of "\<lambda>f. h ((m(g := v)) f)"] sum.remove [OF fin, of "\<lambda>f. h (m f)"] by simp
qed

lemma known_ids:
  assumes "numbered st"
  shows "wr_fibers st f = Some fb \<Longrightarrow> f < wr_ids st" "wr_cancels st n = Some ca \<Longrightarrow> n < wr_next_cancel st"
  using assms by (auto simp: numbered_def) (metis not_le option.distinct(1))+

lemma load_selectors [simp]:
  "wr_next_cancel (ended f fb x c st) = wr_next_cancel st" "wr_next_cancel (fork_work w d st) = wr_next_cancel st"
  "wr_next_cancel (complete_done e x st) = wr_next_cancel st" "wr_next_cancel (without_fiber f st) = wr_next_cancel st"
  "wr_next_cancel (without_cancel n st) = wr_next_cancel st"
  by (simp_all add: ended_def fork_work_def complete_done_def without_fiber_def without_cancel_def)

lemma load_ended:
  assumes "numbered st" "wr_fibers st f = Some fb" "wf_exit fb = None"
  shows "Suc (runner_load (ended f fb x c st)) = runner_load st"
  using sum_fun_upd [OF known_ids(1) [OF assms(1,2)], of fiber_load "wr_fibers st" "Some (fb\<lparr>wf_exit := Some (x, c)\<rparr>)"] assms(2,3)
  by (simp add: runner_load_def)

lemma load_fork:
  assumes "numbered st"
  shows "runner_load (fork_work w d st) = runner_load st + 2"
proof -
  have "(\<Sum>f<wr_ids st. fiber_load (((wr_fibers st)(wr_ids st \<mapsto> fb)) f)) = (\<Sum>f<wr_ids st. fiber_load (wr_fibers st f))" for fb
    by (rule sum.cong) auto
  then show ?thesis by (simp add: runner_load_def)
qed

lemma load_state: "runner_load (st\<lparr>wr_state := s\<rparr>) + pending_load (wr_state st) = runner_load st + pending_load s"
  by (simp add: runner_load_def)

lemma load_without_fiber:
  assumes "numbered st" "wr_fibers st f = Some fb"
  shows "runner_load (without_fiber f st) + fiber_load (Some fb) = runner_load st"
  using sum_fun_upd [OF known_ids(1) [OF assms], of fiber_load "wr_fibers st" None] assms(2)
  by (simp add: runner_load_def del: fiber_load.simps(2))

lemma load_without_cancel:
  assumes "numbered st" "wr_cancels st n = Some ca"
  shows "runner_load (without_cancel n st) + cancel_load (Some ca) = runner_load st"
  using sum_fun_upd [OF known_ids(2) [OF assms], of cancel_load "wr_cancels st" None] assms(2)
  by (simp add: runner_load_def del: cancel_load.simps(2))

lemma runner_load_update [simp]:
  "runner_load (wr_idle_update k st) = runner_load st" "runner_load (wr_shells_update h st) = runner_load st"
  "runner_load (complete_done e x st) = runner_load st"
  by (simp_all add: runner_load_def complete_done_def)

lemma load_finish:
  assumes "runner_inv st" "wr_fibers st f = Some fb" "wf_exit fb = None"
  shows "runner_load (finish_work f x st) < runner_load st"
proof -
  have n: "numbered st" "numbered (ended f fb x c st)" for c using assms by (simp_all add: runner_inv_def)
  note ended = load_ended [OF n(1) assms(2,3), of x]
  have idle: "runner_load ((ended f fb x c st)\<lparr>wr_state := Idle\<rparr>) < runner_load st" for c
    using load_state [of Idle "ended f fb x c st"] ended [of c] by simp
  have same: "runner_load (ended f fb x c st) < runner_load st" for c
    using ended [of c] by simp
  have run: "runner_load (start_run w d (ended f fb x c st)) < runner_load st" if "pending_load (wr_state st) = 3" for w d c
    using load_state [of "Running (wr_ids st) d" "fork_work w (Some d) (ended f fb x c st)"]
      load_fork [OF n(2) [of c], of w "Some d"] ended [of c] that
    by (simp add: start_run_def)
  show ?thesis
    using assms(2) idle run same
    by (cases "wf_done fb"; cases "wr_state st") (auto simp: finish_work_def finish_run_def finish_shell_def)
qed

lemma load_complete:
  assumes "runner_inv st" "wr_fibers st f = Some fb" "wf_exit fb \<noteq> None"
  shows "runner_load (complete_work f st) < runner_load st"
proof -
  obtain x current where exit: "wf_exit fb = Some (x, current)" using assms(3) by (cases "wf_exit fb") auto
  have "numbered st" using assms(1) by (simp add: runner_inv_def)
  then show ?thesis
    using load_without_fiber [of st f fb] exit assms(2)
    by (simp add: complete_work_eq Let_def split: option.split)
qed

lemma load_stop:
  assumes "runner_inv st" "wr_cancels st n = Some ca" "\<not> ca_stopped ca"
  shows "runner_load (stop_work n st) < runner_load st"
proof -
  have n: "numbered st" using assms(1) by (simp add: runner_inv_def)
  have "fiber_load (wr_fibers (stop_work n st) f) = fiber_load (wr_fibers st f)" for f
    using assms(2) by (cases "wr_fibers st f") (auto simp: stop_work_def)
  moreover have "wr_ids (stop_work n st) = wr_ids st" "wr_next_cancel (stop_work n st) = wr_next_cancel st"
    "wr_cancels (stop_work n st) = (wr_cancels st)(n \<mapsto> ca\<lparr>ca_stopped := True\<rparr>)"
    using assms(2) by (simp_all add: stop_work_def)
  ultimately show ?thesis
    using sum_fun_upd [OF known_ids(2) [OF n assms(2)], of cancel_load "wr_cancels st" "Some (ca\<lparr>ca_stopped := True\<rparr>)"] assms(2,3)
    by (simp add: runner_load_def)
qed

lemma load_end:
  assumes "runner_inv st" "wr_cancels st n = Some ca"
  shows "runner_load (end_cancel n st) < runner_load st"
proof -
  define st1 where "st1 = (case ca_done ca of Some d \<Rightarrow> complete_done d Interrupted_Only st | None \<Rightarrow> st)"
  have st1: "wr_cancels st1 n = Some ca" "numbered st1" "runner_load st1 = runner_load st"
    using assms by (auto simp: st1_def runner_inv_def split: option.split)
  have "cancel_load (Some ca) > 0" by simp
  then show ?thesis
    using load_without_cancel [OF st1(2,1)] st1(3) by (simp add: end_cancel_eq [OF assms(2)] st1_def [symmetric] Let_def)
qed

lemma own_step_lighter: "own_step st st' \<Longrightarrow> runner_inv st \<Longrightarrow> runner_load st' < runner_load st"
  unfolding own_step_def by (auto elim!: runner_stepE intro: load_finish load_complete load_stop load_end)

definition at_rest :: "('w, 'a) work_runner \<Rightarrow> bool" where
  "at_rest st \<longleftrightarrow> wr_state st = Idle \<and> wr_fibers st = Map.empty \<and> wr_cancels st = Map.empty"

definition answered :: "('w, 'a) work_runner \<Rightarrow> nat \<Rightarrow> bool" where
  "answered st d \<longleftrightarrow> (\<exists>x. wr_dones st d = Some (Answered x))"

definition unlatched :: "('w, 'a) work_runner \<Rightarrow> bool" where
  "unlatched st \<longleftrightarrow> (\<forall>f. \<not> wr_closed st f)"

lemma own_step_closed: "own_step st st' \<Longrightarrow> wr_closed st' = wr_closed st"
  unfolding own_step_def
  by (auto elim!: runner_stepE simp: finish_work_def finish_run_def finish_shell_def start_run_def fork_work_def ended_def
      complete_work_def complete_done_def Let_def stop_work_def end_cancel_def split: option.split runner_state.split)

lemma own_step_dones: "own_step st st' \<Longrightarrow> wr_dones st d \<noteq> None \<Longrightarrow> wr_dones st' d \<noteq> None"
  unfolding own_step_def
  by (auto elim!: runner_stepE simp: finish_work_def finish_run_def finish_shell_def start_run_def
      complete_work_eq Let_def end_cancel_eq complete_done_def split: option.splits runner_state.splits if_splits)

lemma stuck_at_rest:
  assumes "runner_inv st" "unlatched st" "\<And>st'. \<not> own_step st st'"
  shows "at_rest st"
proof -
  have "\<not> runner_step st (Finish_Work f x) st'" "\<not> runner_step st (Complete_Work f) st'"
    "\<not> runner_step st (Stop_Work n) st'" "\<not> runner_step st (End_Cancel n) st'" for f x n st'
    using assms(3) of_caller.simps(5-8) unfolding own_step_def by blast+
  note none = this [THEN notE]
  have fibers: "wr_fibers st f = None" for f
    by (cases "wr_fibers st f") (use none(1,2) step_finish step_complete in blast)+
  moreover have "wr_cancels st n = None" for n
  proof (rule ccontr)
    assume "wr_cancels st n \<noteq> None"
    then obtain ca where ca: "wr_cancels st n = Some ca" by blast
    have "\<not> wr_closed st (ca_fiber ca)" using assms(2) by (simp add: unlatched_def)
    then show False
      using step_stop [OF ca] step_end [OF ca _ fibers] none(3,4) by (cases "ca_stopped ca") auto
  qed
  moreover have "wr_state st = Idle"
    using assms(1) fibers by (cases "wr_state st") (auto simp: runner_inv_def current_works_def)
  ultimately show ?thesis by (simp add: at_rest_def fun_eq_iff)
qed

lemma rest_answers:
  assumes "runner_inv st" "at_rest st" "wr_dones st d \<noteq> None"
  shows "answered st d"
proof -
  have "wr_dones st d \<noteq> Some Waiting"
    using assms(1,2) by (auto simp: runner_inv_def waits_covered_def at_rest_def on_fiber_def on_cancel_def)
  then show ?thesis using assms(3) by (cases "the (wr_dones st d)") (auto simp: answered_def)
qed

definition can_rest :: "nat \<Rightarrow> ('w, 'a) work_runner \<Rightarrow> bool" where
  "can_rest d st \<longleftrightarrow> runner_inv st \<and> unlatched st \<and> wr_dones st d \<noteq> None"

interpretation resting: winding_down own_step "can_rest d" runner_load "\<lambda>st. at_rest st \<and> answered st d" for d
proof
  show "can_rest d st'" if "can_rest d st" "own_step st st'" for st st' :: "('a, 'b) work_runner"
    using that own_step_dones [OF that(2), of d] own_step_closed [OF that(2)] runner_inv_step
    by (auto simp: can_rest_def unlatched_def own_step_def)
  show "runner_load st' < runner_load st" if "can_rest d st" "own_step st st'" for st st' :: "('a, 'b) work_runner"
    using that own_step_lighter [OF that(2)] by (simp add: can_rest_def)
  show "at_rest st \<and> answered st d" if "can_rest d st" "\<And>st'. \<not> own_step st st'" for st :: "('a, 'b) work_runner"
    using that stuck_at_rest [of st] rest_answers [of st d] by (auto simp: can_rest_def)
qed

section \<open>Callers of shells, and of cancellations\<close>

definition shell_known :: "nat \<Rightarrow> ('w, 'a) work_runner \<Rightarrow> bool" where
  "shell_known f st \<longleftrightarrow> wr_shells st f \<noteq> None \<or> (\<exists>fb. wr_fibers st f = Some fb \<and> wf_done fb = None)"

lemma shell_known_update [simp]:
  "shell_known f (wr_state_update g st) = shell_known f st" "shell_known f (wr_idle_update k st) = shell_known f st"
  "shell_known f (complete_done e x st) = shell_known f st" "shell_known f (without_cancel n st) = shell_known f st"
  by (simp_all add: shell_known_def complete_done_def without_cancel_def)

lemma shell_known_fork: "numbered st \<Longrightarrow> shell_known f st \<Longrightarrow> shell_known f (fork_work w d st)"
  using unnumbered(1) [of st] by (auto simp: shell_known_def fork_work_def)

lemma shell_known_ended: "wr_fibers st g = Some fb \<Longrightarrow> shell_known f st \<Longrightarrow> shell_known f (ended g fb x c st)"
  by (auto simp: shell_known_def ended_def)

lemma shell_known_finish:
  assumes "wr_fibers st g = Some fb" "numbered st" "shell_known f st"
  shows "shell_known f (finish_work g x st)"
  using shell_known_ended [OF assms(1,3)] shell_known_fork [OF numbered_ended [OF assms(2,1)]] assms(1)
  by (cases "wf_done fb"; cases "wr_state st") (simp_all add: finish_work_def finish_run_def finish_shell_def start_run_def)

lemma shell_known_complete:
  assumes "wr_fibers st g = Some fb" "wf_exit fb \<noteq> None" "shell_known f st"
  shows "shell_known f (complete_work g st)"
proof -
  obtain x c where exit: "wf_exit fb = Some (x, c)" using assms(2) by (cases "wf_exit fb") auto
  show ?thesis
    using assms(1,3) exit by (cases "wf_done fb") (auto simp: complete_work_eq Let_def shell_known_def complete_done_def without_fiber_def)
qed

lemma own_step_shell:
  assumes "own_step st st'" "numbered st" "shell_known f st"
  shows "shell_known f st'"
proof -
  have "shell_known f (stop_work n st)" for n
    using assms(3) by (auto simp: shell_known_def stop_work_def split: option.split)
  moreover have "shell_known f (end_cancel n st)" if "wr_cancels st n = Some ca" for n ca
    using assms(3) that by (cases "ca_done ca") (simp_all add: end_cancel_eq Let_def)
  ultimately show ?thesis
    using assms unfolding own_step_def by (auto elim!: runner_stepE intro: shell_known_finish shell_known_complete)
qed

interpretation shells: winding_down own_step "\<lambda>st. runner_inv st \<and> unlatched st \<and> shell_known f st" runner_load
  "\<lambda>st. \<exists>a. shell_result on_interrupt result mixed f st = Some a" for f on_interrupt result mixed
proof
  fix st st' :: "('a, 'b) work_runner"
  assume keeps: "runner_inv st \<and> unlatched st \<and> shell_known f st"
  show "runner_inv st' \<and> unlatched st' \<and> shell_known f st'" if "own_step st st'"
    using keeps that own_step_shell [OF that] own_step_closed [OF that] runner_inv_step
    by (auto simp: unlatched_def own_step_def runner_inv_def)
  show "runner_load st' < runner_load st" if "own_step st st'"
    using keeps own_step_lighter [OF that] by simp
  show "\<exists>a. shell_result on_interrupt result mixed f st = Some a" if stuck: "\<And>st'. \<not> own_step st st'"
  proof -
    have "at_rest st" using keeps stuck stuck_at_rest by blast
    then show ?thesis using keeps by (auto simp: shell_known_def at_rest_def shell_result_def split: work_exit.split)
  qed
qed

lemma shell_callers_are_answered:
  \<comment> \<open>where the runner is idle the shell starts, and its caller gets a result by the time the runner comes to rest\<close>
  assumes "runner_reachable st" "start_shell w False st = (Some f, st')" "unlatched st"
  shows "inevitable own_step (\<lambda>st''. \<exists>a. shell_result on_interrupt result mixed f st'' = Some a) st'"
proof (rule shells.comes_to_rest)
  have "runner_inv st'" using runner_inv_shell [OF runner_inv_reachable [OF assms(1)], of w False] assms(2) by simp
  moreover have "unlatched st'" "shell_known f st'"
    using assms(2,3) by (auto simp: start_shell_def unlatched_def shell_known_def split: if_splits)
  ultimately show "runner_inv st' \<and> unlatched st' \<and> shell_known f st'" by simp
qed

definition abandoned :: "(nat, nat) work_runner" where
  \<comment> \<open>a run waits behind a shell, both are cancelled, and who cancelled them is interrupted before the shell has ended\<close>
  "abandoned = complete_work 0 (finish_work 0 Interrupted_Only (abandon_cancel 0 (stop_work 0 (cancel
     (snd (ensure_running 2 (snd (start_shell 1 False new_runner))))))))"

lemma abandoned_cancel_strands_a_caller:
  \<comment> \<open>nothing goes on any more, and whoever asked for the run waits\<close>
  "fst (ensure_running 2 (snd (start_shell (1 :: nat) False new_runner))) = 0 \<and> at_rest abandoned \<and>
   wr_dones abandoned 0 = Some Waiting"
  by (simp add: abandoned_def ensure_running_def start_shell_def cancel_def new_runner_def fork_work_def new_done_def drop_work_def
      stop_work_def abandon_cancel_def finish_work_def finish_shell_def ended_def complete_work_def at_rest_def fun_eq_iff)

section \<open>Properties\<close>

text \<open>C29. Whoever asks for a run, in whatever state the runner is, is answered by the time the runner comes to rest,
  which it does whatever order works end and cancellations go on in, where no shell that is to be stopped keeps its
  latch closed.\<close>
theorem callers_are_answered:
  assumes "runner_reachable st" "unlatched st"
  shows "inevitable own_step (\<lambda>st'. at_rest st' \<and> answered st' (fst (ensure_running w st))) (snd (ensure_running w st))"
proof (rule resting.comes_to_rest)
  have "wr_closed (snd (ensure_running w st)) = wr_closed st"
    by (simp add: ensure_running_def start_run_def fork_work_def new_done_def split: runner_state.split)
  moreover have "wr_dones (snd (ensure_running w st)) (fst (ensure_running w st)) = Some Waiting"
    using joined_waits [OF join_inv_reachable [OF assms(1)]] by (metis prod.collapse)
  ultimately show "can_rest (fst (ensure_running w st)) (snd (ensure_running w st))"
    using assms runner_inv_ensure [OF runner_inv_reachable [OF assms(1)]] by (simp add: can_rest_def unlatched_def)
qed

definition stopped_shell :: "(nat, nat) work_runner" where
  \<comment> \<open>a run waits behind a shell, both are cancelled, and a next run comes\<close>
  "stopped_shell = snd (ensure_running 3 (cancel (snd (ensure_running 2 (snd (start_shell 1 False new_runner))))))"

lemma stopped_shell_reachable: "runner_reachable stopped_shell"
  unfolding stopped_shell_def
  by (intro reach_next [OF _ step_ensure] reach_next [OF _ step_cancel] reach_next [OF _ step_shell] reach_new)

lemma callers_are_answered_witness:
  "inevitable own_step (\<lambda>st'. at_rest st' \<and> answered st' (fst (ensure_running 4 stopped_shell))) (snd (ensure_running 4 stopped_shell))"
proof (rule callers_are_answered [OF stopped_shell_reachable])
  show "unlatched stopped_shell"
    by (simp add: unlatched_def stopped_shell_def ensure_running_def start_shell_def cancel_def new_runner_def start_run_def
        fork_work_def new_done_def drop_work_def)
qed

text \<open>C30. Of the works that go on, runs and shells together, at most one is not being cancelled.\<close>
theorem one_work_goes_on:
  assumes "runner_reachable st" "working st f" "\<not> cancelled st f" "working st g" "\<not> cancelled st g"
  shows "f = g"
  using runner_inv_reachable [OF assms(1)] assms(2-5) unfolding runner_inv_def works_covered_def by (metis option.inject)

lemma one_work_goes_on_witness:
  "working stopped_shell 2 \<and> \<not> cancelled stopped_shell 2 \<and> working stopped_shell 0 \<and>
   (\<exists>f. working stopped_shell f \<and> \<not> cancelled stopped_shell f \<and> f = 2)"
proof -
  have "working stopped_shell 2" "\<not> cancelled stopped_shell 2" "working stopped_shell 0"
    by (simp_all add: stopped_shell_def ensure_running_def start_shell_def cancel_def new_runner_def start_run_def
        fork_work_def new_done_def drop_work_def working_def cancelled_def)
  then show ?thesis using one_work_goes_on [OF stopped_shell_reachable, of 2 2] by blast
qed

end
