(* ===== verification/RunStateProps.thy ===== *)
theory RunStateProps imports RunState WorkRunnerProps begin

text \<open>
  The map of runners against the works that go on. Where callers come to a session only while its runner is running
  or is gone, a work that goes on is in the runner of the map, where cancelling reaches it; without that, the end of
  an old cancellation takes another runner out of the map.
\<close>

section \<open>What one runner does to its entry\<close>

definition loose :: "('w, 'a) work_runner \<Rightarrow> nat \<Rightarrow> bool" where
  \<comment> \<open>a fiber that goes on, or whose end calls \<open>onIdle\<close>\<close>
  "loose st f \<longleftrightarrow> (\<exists>fb. wr_fibers st f = Some fb \<and> (\<forall>x. wf_exit fb \<noteq> Some (x, False)))"

definition quiet_runner :: "('w, 'a) work_runner \<Rightarrow> bool" where
  "quiet_runner st \<longleftrightarrow> wr_state st = Idle \<and> wr_cancels st = Map.empty \<and> (\<forall>f. \<not> loose st f)"

definition single_work :: "('w, 'a) work_runner \<Rightarrow> bool" where
  "single_work st \<longleftrightarrow>
    (wr_state st \<noteq> Idle \<longrightarrow> wr_cancels st = Map.empty \<and> (\<forall>f. loose st f \<longrightarrow> current_fiber (wr_state st) = Some f)) \<and>
    (wr_state st = Idle \<longrightarrow> wr_cancels st = Map.empty \<longrightarrow> (\<forall>f g. loose st f \<longrightarrow> loose st g \<longrightarrow> f = g) \<and> (\<forall>f. \<not> working st f)) \<and>
    (\<forall>n m a b. wr_cancels st n = Some a \<longrightarrow> wr_cancels st m = Some b \<longrightarrow> n = m) \<and>
    (\<forall>n ca f. wr_cancels st n = Some ca \<longrightarrow> loose st f \<longrightarrow> f = ca_fiber ca \<and> working st f)"

lemma loose_update [simp]:
  "loose (wr_state_update g st) = loose st" "loose (wr_idle_update k st) = loose st" "loose (wr_shells_update h st) = loose st"
  "loose (complete_done e x st) = loose st" "loose (wr_busy_update k st) = loose st" "loose (wr_closed_update c st) = loose st"
  "loose (wr_ids_update k st) = loose st" "loose (new_done st) = loose st" "loose (drop_work f d st) = loose st"
  "loose (without_cancel n st) = loose st"
  by (simp_all add: loose_def fun_eq_iff)

lemma count_selectors [simp]:
  "wr_idle (ended f fb x c st) = wr_idle st" "wr_busy (ended f fb x c st) = wr_busy st"
  "wr_idle (fork_work w d st) = wr_idle st" "wr_busy (fork_work w d st) = wr_busy st"
  "wr_idle (new_done st) = wr_idle st" "wr_busy (new_done st) = wr_busy st"
  "wr_idle (complete_done e x st) = wr_idle st" "wr_busy (complete_done e x st) = wr_busy st"
  "wr_idle (without_fiber f st) = wr_idle st" "wr_busy (without_fiber f st) = wr_busy st"
  "wr_idle (without_cancel n st) = wr_idle st" "wr_busy (without_cancel n st) = wr_busy st"
  "wr_idle (drop_work f eo st) = wr_idle st" "wr_busy (drop_work f eo st) = wr_busy st"
  "wr_idle (stop_work n st) = wr_idle st" "wr_busy (stop_work n st) = wr_busy st"
  by (simp_all add: ended_def fork_work_def new_done_def complete_done_def without_fiber_def without_cancel_def drop_work_def
      stop_work_def split: option.split)

lemma working_loose: "working st f \<Longrightarrow> loose st f"
  by (auto simp: working_def loose_def)

lemma loose_fork: "numbered st \<Longrightarrow> loose (fork_work w d st) f \<longleftrightarrow> f = wr_ids st \<or> loose st f"
  by (auto simp: loose_def)

lemma loose_ended: "loose (ended g fb x c st) f \<longleftrightarrow> (f = g \<and> c) \<or> (f \<noteq> g \<and> loose st f)"
  by (auto simp: loose_def)

lemma loose_without: "loose (without_fiber g st) f \<longleftrightarrow> f \<noteq> g \<and> loose st f"
  by (auto simp: loose_def)

lemma loose_stop [simp]: "loose (stop_work n st) f \<longleftrightarrow> loose st f"
  unfolding loose_def by (metis stop_fiber)

definition entry_law :: "('w, 'a) work_runner \<Rightarrow> ('w, 'a) work_runner \<Rightarrow> bool" where
  \<comment> \<open>\<open>onIdle\<close> is called exactly by the step that makes the runner quiet\<close>
  "entry_law st st' \<longleftrightarrow> single_work st' \<and> (wr_idle st' > wr_idle st \<longleftrightarrow> \<not> quiet_runner st \<and> quiet_runner st') \<and>
     (quiet_runner st \<longrightarrow> quiet_runner st') \<and> wr_busy st' = wr_busy st"

lemma entry_lawI:
  assumes "single_work st'" "\<not> quiet_runner st" "\<not> quiet_runner st'" "wr_idle st' = wr_idle st" "wr_busy st' = wr_busy st"
  shows "entry_law st st'"
  using assms by (simp add: entry_law_def)

lemma single_work_idle:
  assumes "wr_state st = Idle" "wr_cancels st = Map.empty" "\<And>g. loose st g \<Longrightarrow> g = f" "\<And>g. \<not> working st g"
  shows "single_work st"
  using assms(3,4) unfolding single_work_def assms(1,2) by simp metis

lemma single_work_current:
  assumes "wr_state st \<noteq> Idle" "wr_cancels st = Map.empty" "\<And>g. loose st g \<Longrightarrow> current_fiber (wr_state st) = Some g"
  shows "single_work st"
  using assms(1,3) unfolding single_work_def assms(2) by simp

lemma entry_finish:
  assumes "runner_inv st" "single_work st" "wr_fibers st f = Some fb" "wf_exit fb = None"
  shows "entry_law st (finish_work f x st)"
proof -
  have n: "numbered st" "numbered (ended f fb x c st)" for c using assms(1,3) by (simp_all add: runner_inv_def)
  have work: "working st f" "loose st f" using assms(3,4) by (auto simp: working_def intro: working_loose)
  have cur: "current_works st" using assms(1) by (simp add: runner_inv_def)
  have only: "current_fiber (wr_state st) = Some g" if "loose st g" "wr_state st \<noteq> Idle" for g
    using assms(2) that by (simp add: single_work_def)
  note only = only(1) [OF work(2)] only
  have idles: "entry_law st ((ended f fb x True st)\<lparr>wr_state := Idle\<rparr>)" if ni: "wr_state st \<noteq> Idle"
  proof (rule entry_lawI)
    have "loose st g \<Longrightarrow> g = f" for g using only(1) [OF ni] only(2) [OF _ ni] by simp
    moreover have "wr_cancels st = Map.empty" using assms(2) ni by (simp add: single_work_def)
    ultimately show "single_work ((ended f fb x True st)\<lparr>wr_state := Idle\<rparr>)"
      using assms(3) working_loose by (intro single_work_idle [where f = f]) (auto simp: loose_ended ended_covers)
    show "\<not> quiet_runner ((ended f fb x True st)\<lparr>wr_state := Idle\<rparr>)" by (auto simp: quiet_runner_def loose_ended)
  qed (use ni in \<open>simp_all add: quiet_runner_def\<close>)
  show ?thesis
  proof (cases "wr_state st")
    case Idle
    have some: "wr_cancels st \<noteq> Map.empty" using assms(2) Idle work(1) unfolding single_work_def by blast
    then obtain n ca where "wr_cancels st n = Some ca" by (metis ext not_Some_eq)
    then have only: "g = f" if "loose st g" for g using assms(2) that work(2) unfolding single_work_def by metis
    have eq: "finish_work f x st = ended f fb x False st"
      using assms(3) Idle by (simp add: finish_work_def finish_run_def finish_shell_def split: option.split)
    have none: "\<not> loose (ended f fb x False st) g" for g using only by (auto simp: loose_ended)
    have one: "\<And>n m a b. wr_cancels st n = Some a \<Longrightarrow> wr_cancels st m = Some b \<Longrightarrow> n = m"
      using assms(2) unfolding single_work_def by blast
    have state: "wr_state (ended f fb x False st) = Idle" "wr_cancels (ended f fb x False st) = wr_cancels st"
      using Idle by simp_all
    have "single_work (ended f fb x False st)"
      unfolding single_work_def state using none one some by blast
    then show ?thesis
      using Idle some work(2) by (simp add: eq entry_law_def quiet_runner_def)
  next
    case (Running i d)
    have "f = i" using idles only Running by auto
    moreover have "wf_done fb = Some d" using cur Running assms(3) calculation by (auto simp: current_works_def)
    ultimately show ?thesis using idles Running assms(3) by (simp add: finish_work_def finish_run_def)
  next
    case (Shell s)
    have "f = s" using only Shell by auto
    moreover have "wf_done fb = None" using cur Shell assms(3) calculation by (auto simp: current_works_def)
    ultimately show ?thesis using idles Shell assms(3) by (simp add: finish_work_def finish_shell_def)
  next
    case (Shell_Then_Run s i d w)
    have s: "f = s" using only Shell_Then_Run by auto
    then have "wf_done fb = None" using cur Shell_Then_Run assms(3) by (auto simp: current_works_def)
    then have eq: "finish_work f x st = start_run w d (ended f fb x False st)"
      using s Shell_Then_Run assms(3) by (simp add: finish_work_def finish_shell_def)
    have "loose (start_run w d (ended f fb x False st)) g \<longleftrightarrow> g = wr_ids st" for g
    proof -
      have "loose st g \<Longrightarrow> g = f" using only Shell_Then_Run by simp
      then show ?thesis by (auto simp: start_run_def loose_fork [OF n(2)] loose_ended)
    qed
    moreover have "wr_cancels st = Map.empty" using assms(2) Shell_Then_Run by (simp add: single_work_def)
    ultimately show ?thesis
      unfolding eq using Shell_Then_Run
      by (intro entry_lawI single_work_current) (auto simp: start_run_def quiet_runner_def)
  qed
qed

lemma entry_complete:
  assumes "runner_inv st" "single_work st" "wr_fibers st f = Some fb" "wf_exit fb \<noteq> None"
  shows "entry_law st (complete_work f st)"
proof -
  obtain x c where exit: "wf_exit fb = Some (x, c)" using assms(4) by (cases "wf_exit fb") auto
  have cur: "current_fiber (wr_state st) \<noteq> Some f" "\<not> working st f"
    using assms(1,3) exit by (auto simp: runner_inv_def current_works_def working_def)
  have loose: "loose st f \<longleftrightarrow> c" using assms(3) exit by (simp add: loose_def)
  show ?thesis
  proof (cases c)
    case True
    have idle: "wr_state st = Idle" "wr_cancels st = Map.empty"
      using assms(2) cur loose True unfolding single_work_def by (blast, metis ext not_Some_eq)
    then have only: "g = f" if "loose st g" for g using assms(2) that loose True unfolding single_work_def by blast
    have "\<not> working st g" for g using only cur(2) working_loose by blast
    then have "\<not> loose (complete_work f st) g" "\<not> working (complete_work f st) g" for g
      using assms(3) exit only
      by (cases "wf_done fb"; auto simp: complete_work_eq Let_def loose_without without_fiber_covers)+
    moreover have "wr_state (complete_work f st) = Idle" "wr_cancels (complete_work f st) = Map.empty"
      "wr_idle (complete_work f st) = Suc (wr_idle st)" "wr_busy (complete_work f st) = wr_busy st"
      using assms(3) exit idle True by (cases "wf_done fb"; simp add: complete_work_eq Let_def)+
    ultimately show ?thesis
      using loose True by (auto simp: entry_law_def single_work_def quiet_runner_def)
  next
    case False
    have "loose (complete_work f st) g \<longleftrightarrow> loose st g" "working (complete_work f st) g \<longleftrightarrow> working st g" for g
      using assms(3) exit loose False cur(2)
      by (cases "wf_done fb"; auto simp: complete_work_eq Let_def loose_without without_fiber_covers)+
    moreover have "wr_state (complete_work f st) = wr_state st" "wr_cancels (complete_work f st) = wr_cancels st"
      "wr_idle (complete_work f st) = wr_idle st" "wr_busy (complete_work f st) = wr_busy st"
      using assms(3) exit False by (cases "wf_done fb"; simp add: complete_work_eq Let_def)+
    ultimately show ?thesis
      using assms(2) by (auto simp: entry_law_def single_work_def quiet_runner_def)
  qed
qed

lemma entry_stop:
  assumes "single_work st" "wr_cancels st n = Some ca"
  shows "entry_law st (stop_work n st)"
proof -
  have dom: "wr_cancels (stop_work n st) = (wr_cancels st)(n \<mapsto> ca\<lparr>ca_stopped := True\<rparr>)"
    using assms(2) by (simp add: stop_work_def)
  then show ?thesis
    using assms by (auto simp: entry_law_def single_work_def quiet_runner_def split: if_splits)
qed

lemma entry_end:
  assumes "single_work st" "wr_cancels st n = Some ca" "wr_fibers st (ca_fiber ca) = None"
  shows "entry_law st (end_cancel n st)"
proof -
  have idle: "wr_state st = Idle" using assms(1,2) by (auto simp: single_work_def)
  have none: "\<not> loose st f" "\<not> working st f" for f
  proof -
    show "\<not> loose st f" using assms unfolding single_work_def working_def by (metis option.distinct(1))
    then show "\<not> working st f" using working_loose by blast
  qed
  have "wr_cancels (without_cancel n st1) m = None" if "wr_cancels st1 = wr_cancels st" for st1 :: "('a, 'b) work_runner" and m
    using assms(1,2) that by (cases "wr_cancels st m") (auto simp: single_work_def)
  then show ?thesis
    using none idle assms(2)
    by (cases "ca_done ca")
      (auto simp: entry_law_def single_work_def quiet_runner_def end_cancel_eq Let_def without_cancel_covers fun_eq_iff)
qed

lemma entry_own: "own_step st st' \<Longrightarrow> runner_inv st \<Longrightarrow> single_work st \<Longrightarrow> entry_law st st'"
  unfolding own_step_def
  by (auto elim!: runner_stepE intro: entry_finish entry_complete entry_stop entry_end)

lemma entry_cancel:
  assumes "runner_inv st" "single_work st"
  shows "single_work (cancel st) \<and> wr_idle (cancel st) = wr_idle st \<and> wr_busy (cancel st) = wr_busy st \<and>
    (quiet_runner (cancel st) \<longleftrightarrow> quiet_runner st)"
proof -
  have works: "working st f" if "current_fiber (wr_state st) = Some f" for f
    using assms(1) that by (auto simp: runner_inv_def current_works_def working_def)
  have drops: "wr_cancels (drop_work f d st) = [wr_next_cancel st \<mapsto> \<lparr>ca_fiber = f, ca_done = d, ca_stopped = False\<rparr>]"
    if "wr_state st \<noteq> Idle" for f d
    using that assms(2) by (simp add: single_work_def drop_work_def)
  have "single_work (drop_work f d st) \<and> \<not> quiet_runner (drop_work f d st)" if "current_fiber (wr_state st) = Some f" for f d
  proof -
    note m = that
    have ni: "wr_state st \<noteq> Idle" using m by auto
    have numbered: "numbered st" using assms(1) by (simp add: runner_inv_def)
    have "g = f \<and> working st g" if "loose st g" for g
      using assms(2) ni m that works by (auto simp: single_work_def)
    then show ?thesis
      unfolding single_work_def quiet_runner_def drops [OF ni]
      by (auto simp: drop_covers [OF numbered] fun_eq_iff)
  qed
  then show ?thesis
    using assms(2) by (cases "wr_state st") (auto simp: cancel_def quiet_runner_def)
qed

section \<open>Calls while nothing is being wound up\<close>

fun calls_session :: "'w run_action \<Rightarrow> jstring option" where
  "calls_session (Ensure_Session sid w) = Some sid"
| "calls_session (Shell_Session sid w latch) = Some sid"
| "calls_session _ = None"

definition calm_call :: "('w, 'a) run_state \<Rightarrow> 'w run_action \<Rightarrow> bool" where
  \<comment> \<open>no work of the session's runner is being cancelled or has just ended\<close>
  "calm_call rs a \<longleftrightarrow> (\<forall>sid r st. calls_session a = Some sid \<longrightarrow> rs_map rs sid = Some r \<longrightarrow> rs_runners rs r = Some st \<longrightarrow>
     wr_state st \<noteq> Idle)"

inductive calm_reachable :: "('w, 'a) run_state \<Rightarrow> bool" where
  calm_none: "calm_reachable no_runners"
| calm_run: "calm_reachable rs \<Longrightarrow> run_step rs a rs' \<Longrightarrow> calm_call rs a \<Longrightarrow> calm_reachable rs'"

definition at_home :: "('w, 'a) run_state \<Rightarrow> bool" where
  "at_home rs \<longleftrightarrow> (\<forall>r \<ge> rs_next rs. rs_runners rs r = None) \<and>
     (\<forall>sid r. rs_map rs sid = Some r \<longrightarrow> rs_session rs r = sid \<and> (\<exists>st. rs_runners rs r = Some st \<and> \<not> quiet_runner st)) \<and>
     (\<forall>r st. rs_runners rs r = Some st \<longrightarrow> runner_inv st \<and> single_work st \<and> (\<not> quiet_runner st \<longrightarrow> rs_map rs (rs_session rs r) = Some r))"

lemma at_home_call:
  assumes "at_home rs" "rs_runners rs r = Some st" "runner_inv st'" "single_work st'"
    "wr_idle st' > wr_idle st \<longleftrightarrow> \<not> quiet_runner st \<and> quiet_runner st'" "quiet_runner st \<longrightarrow> quiet_runner st'"
  shows "at_home (call_runner r st st' rs)"
proof -
  have next_r: "r < rs_next rs" using assms(1,2) unfolding at_home_def by (metis not_le option.distinct(1))
  have mine: "\<not> quiet_runner st \<Longrightarrow> rs_map rs (rs_session rs r) = Some r" using assms(1,2) by (simp add: at_home_def)
  have fields: "rs_runners (call_runner r st st' rs) = (rs_runners rs)(r \<mapsto> st')" "rs_session (call_runner r st st' rs) = rs_session rs"
    "rs_next (call_runner r st st' rs) = rs_next rs"
    "rs_map (call_runner r st st' rs) = (if wr_idle st' > wr_idle st then (rs_map rs)(rs_session rs r := None) else rs_map rs)"
    by (simp_all add: call_runner_def on_idle_def on_busy_def Let_def)
  show ?thesis
    unfolding at_home_def fields
  proof (intro conjI allI impI)
    fix q assume "rs_next rs \<le> q"
    then show "((rs_runners rs)(r \<mapsto> st')) q = None" using assms(1) next_r by (simp add: at_home_def)
  next
    fix sid q assume at: "(if wr_idle st' > wr_idle st then (rs_map rs)(rs_session rs r := None) else rs_map rs) sid = Some q"
    then have old: "rs_map rs sid = Some q" by (auto split: if_splits)
    then obtain st0 where st0: "rs_session rs q = sid" "rs_runners rs q = Some st0" "\<not> quiet_runner st0"
      using assms(1) unfolding at_home_def by blast
    show "rs_session rs q = sid" by (rule st0(1))
    show "\<exists>s. ((rs_runners rs)(r \<mapsto> st')) q = Some s \<and> \<not> quiet_runner s"
      using st0 assms(2,5) at by (cases "q = r") (auto split: if_splits)
  next
    fix q s assume at: "((rs_runners rs)(r \<mapsto> st')) q = Some s"
    show "runner_inv s" "single_work s" using at assms(1,3,4) by (auto simp: at_home_def split: if_splits)
    assume nq: "\<not> quiet_runner s"
    show "(if wr_idle st' > wr_idle st then (rs_map rs)(rs_session rs r := None) else rs_map rs) (rs_session rs q) = Some q"
    proof (cases "q = r")
      case True
      then show ?thesis using at nq assms(5,6) mine by auto
    next
      case False
      then have "rs_map rs (rs_session rs q) = Some q" using at nq assms(1) by (simp add: at_home_def)
      then show ?thesis using False mine assms(5) by auto
    qed
  qed
qed

lemma at_home_reached:
  \<comment> \<open>a runner looked up by a calm call: new, or running\<close>
  assumes "at_home rs" "runner_for sid rs = (r, rs1)" "rs_runners rs1 r = Some st"
    "\<And>q st. rs_map rs sid = Some q \<Longrightarrow> rs_runners rs q = Some st \<Longrightarrow> wr_state st \<noteq> Idle"
    and st': "runner_inv st'" "single_work st'" "\<not> quiet_runner st'" "wr_idle st' = wr_idle st"
  shows "at_home (call_runner r st st' rs1)"
proof (cases "rs_map rs sid")
  case (Some q)
  then have "r = q" "rs1 = rs" using assms(2) by (simp_all add: runner_for_def)
  moreover have "\<not> quiet_runner st" using assms(3,4) Some calculation by (simp add: quiet_runner_def)
  ultimately show ?thesis using assms by (intro at_home_call) auto
next
  case None
  have eqs: "r = rs_next rs" "st = new_runner" "rs_session rs1 r = sid" "rs_map rs1 = (rs_map rs)(sid \<mapsto> r)" "rs_next rs1 = Suc r"
    "rs_runners rs1 = (rs_runners rs)(r \<mapsto> new_runner)" "\<And>q. q \<noteq> r \<Longrightarrow> rs_session rs1 q = rs_session rs q"
    using assms(2,3) None by (auto simp: runner_for_def)
  have none: "rs_map rs s \<noteq> Some r" "rs_runners rs r = None" for s using assms(1) eqs(1) unfolding at_home_def by fastforce+
  have fields: "rs_runners (call_runner r st st' rs1) = (rs_runners rs)(r \<mapsto> st')" "rs_session (call_runner r st st' rs1) = rs_session rs1"
    "rs_next (call_runner r st st' rs1) = Suc (rs_next rs)" "rs_map (call_runner r st st' rs1) = (rs_map rs)(sid \<mapsto> r)"
    using eqs st'(4) by (simp_all add: call_runner_def on_idle_def on_busy_def Let_def)
  have free: "rs_session rs q \<noteq> sid" if "rs_map rs (rs_session rs q) = Some q" for q using that None by auto
  show ?thesis
    unfolding at_home_def fields
  proof (intro conjI allI impI)
    fix q assume "Suc (rs_next rs) \<le> q"
    then show "((rs_runners rs)(r \<mapsto> st')) q = None" using assms(1) eqs(1) by (simp add: at_home_def)
  next
    fix s q assume at: "((rs_map rs)(sid \<mapsto> r)) s = Some q"
    show "rs_session rs1 q = s" "\<exists>st. ((rs_runners rs)(r \<mapsto> st')) q = Some st \<and> \<not> quiet_runner st"
    proof (atomize (full), cases "s = sid")
      case False
      then have old: "rs_map rs s = Some q" using at by simp
      then have "q \<noteq> r" using none(1) by blast
      then show "rs_session rs1 q = s \<and> (\<exists>st. ((rs_runners rs)(r \<mapsto> st')) q = Some st \<and> \<not> quiet_runner st)"
        using old assms(1) eqs(7) by (simp add: at_home_def)
    qed (use at eqs st'(3) in simp)
  next
    fix q s assume at: "((rs_runners rs)(r \<mapsto> st')) q = Some s"
    show "runner_inv s" "single_work s" using at assms(1) st' by (auto simp: at_home_def split: if_splits)
    assume nq: "\<not> quiet_runner s"
    show "((rs_map rs)(sid \<mapsto> r)) (rs_session rs1 q) = Some q"
    proof (cases "q = r")
      case False
      then have "rs_map rs (rs_session rs q) = Some q" using at nq assms(1) by (simp add: at_home_def)
      then show ?thesis using False eqs(7) free by simp
    qed (use eqs(3) in simp)
  qed
qed

lemma single_started:
  assumes "runner_inv st" "single_work st" "wr_state st \<noteq> Idle \<or> st = new_runner"
  shows "single_work (snd (ensure_running w st))" "single_work (snd (start_shell w latch st))"
    "\<not> quiet_runner (snd (ensure_running w st))" "\<not> quiet_runner (snd (start_shell w latch st))"
    "wr_idle (snd (ensure_running w st)) = wr_idle st" "wr_idle (snd (start_shell w latch st)) = wr_idle st"
proof -
  have n: "numbered st" using assms(1) by (simp add: runner_inv_def)
  have fresh: "wr_cancels new_runner = Map.empty" "\<not> loose new_runner f" "wr_state new_runner = Idle" for f
    by (simp_all add: new_runner_def loose_def)
  have old: "wr_cancels st = Map.empty" "\<And>f. loose st f \<Longrightarrow> current_fiber (wr_state st) = Some f"
    using assms(2,3) fresh by (auto simp: single_work_def)
  show "single_work (snd (ensure_running w st))"
    using assms(3) old fresh n
    by (cases "wr_state st"; intro single_work_current; auto simp: ensure_running_def start_run_def loose_fork)
  show "single_work (snd (start_shell w latch st))"
  proof (cases "wr_state st = Idle")
    case True
    then have "\<not> loose st f" for f using old(2) by auto
    then show ?thesis using True old(1) n by (intro single_work_current) (auto simp: start_shell_def loose_fork)
  qed (use assms(2) in \<open>simp add: start_shell_def\<close>)
  show "\<not> quiet_runner (snd (ensure_running w st))"
    by (cases "wr_state st") (simp_all add: quiet_runner_def ensure_running_def start_run_def)
  show "\<not> quiet_runner (snd (start_shell w latch st))" by (simp add: quiet_runner_def start_shell_def)
  show "wr_idle (snd (ensure_running w st)) = wr_idle st"
    by (cases "wr_state st") (simp_all add: ensure_running_def start_run_def)
  show "wr_idle (snd (start_shell w latch st)) = wr_idle st" by (simp add: start_shell_def)
qed

lemma single_new: "single_work new_runner"
  by (simp add: single_work_def new_runner_def loose_def working_def)

lemma runner_for_state:
  assumes "at_home rs" "runner_for sid rs = (r, rs1)"
    "\<And>q st. rs_map rs sid = Some q \<Longrightarrow> rs_runners rs q = Some st \<Longrightarrow> wr_state st \<noteq> Idle"
  obtains st where "rs_runners rs1 r = Some st" "runner_inv st" "single_work st" "wr_state st \<noteq> Idle \<or> st = new_runner"
proof (cases "rs_map rs sid")
  case None
  then have "rs_runners rs1 r = Some new_runner" using assms(2) by (auto simp: runner_for_def)
  then show ?thesis using that runner_inv_new single_new by blast
next
  case (Some q)
  then have eq: "r = q" "rs1 = rs" using assms(2) by (simp_all add: runner_for_def)
  obtain st where st: "rs_runners rs q = Some st" using assms(1) Some unfolding at_home_def by blast
  then have "runner_inv st" "single_work st" using assms(1) by (simp_all add: at_home_def)
  then show ?thesis using that eq st assms(3) [OF Some st] by blast
qed

lemma at_home_step:
  assumes "at_home rs" "run_step rs a rs'" "calm_call rs a"
  shows "at_home rs'"
  using assms(2)
proof cases
  case (run_ensure sid w)
  obtain r rs1 where rs1: "runner_for sid rs = (r, rs1)" by (cases "runner_for sid rs")
  have calm: "\<And>q st. rs_map rs sid = Some q \<Longrightarrow> rs_runners rs q = Some st \<Longrightarrow> wr_state st \<noteq> Idle"
    using assms(3) run_ensure(1) by (simp add: calm_call_def)
  obtain st where st: "rs_runners rs1 r = Some st" "runner_inv st" "single_work st" "wr_state st \<noteq> Idle \<or> st = new_runner"
    using runner_for_state [OF assms(1) rs1 calm] .
  show ?thesis
    using at_home_reached [OF assms(1) rs1 st(1) calm runner_inv_ensure [OF st(2)] single_started(1,3,5) [OF st(2,3,4)]]
    by (simp add: run_ensure(2) ensure_session_def rs1 st(1))
next
  case (run_shell sid w latch)
  obtain r rs1 where rs1: "runner_for sid rs = (r, rs1)" by (cases "runner_for sid rs")
  have calm: "\<And>q st. rs_map rs sid = Some q \<Longrightarrow> rs_runners rs q = Some st \<Longrightarrow> wr_state st \<noteq> Idle"
    using assms(3) run_shell(1) by (simp add: calm_call_def)
  obtain st where st: "rs_runners rs1 r = Some st" "runner_inv st" "single_work st" "wr_state st \<noteq> Idle \<or> st = new_runner"
    using runner_for_state [OF assms(1) rs1 calm] .
  show ?thesis
    using at_home_reached [OF assms(1) rs1 st(1) calm runner_inv_shell [OF st(2)] single_started(2,4,6) [OF st(2,3,4)]]
    by (simp add: run_shell(2) shell_session_def rs1 st(1))
next
  case (run_cancel sid)
  show ?thesis
  proof (cases "Option.bind (rs_map rs sid) (rs_runners rs)")
    case None
    then show ?thesis using assms(1) run_cancel by (auto simp: cancel_session_def at_home_def split: option.split)
  next
    case (Some st)
    then obtain r where r: "rs_map rs sid = Some r" "rs_runners rs r = Some st" by (cases "rs_map rs sid") auto
    then have "runner_inv st" "single_work st" using assms(1) by (simp_all add: at_home_def)
    then show ?thesis
      using at_home_call [OF assms(1) r(2) runner_inv_cancel] entry_cancel [of st] r run_cancel(2)
      by (simp add: cancel_session_def)
  qed
next
  case (run_ready r st f)
  then have st: "runner_inv st" "single_work st" using assms(1) by (simp_all add: at_home_def)
  have eqs: "wr_state (open_ready f st) = wr_state st" "wr_cancels (open_ready f st) = wr_cancels st"
      "wr_idle (open_ready f st) = wr_idle st" "loose (open_ready f st) = loose st" "working (open_ready f st) = working st"
    by (simp_all add: open_ready_def)
  have "single_work (open_ready f st)" "quiet_runner (open_ready f st) \<longleftrightarrow> quiet_runner st"
    using st(2) by (simp_all add: single_work_def quiet_runner_def eqs)
  then show ?thesis
    using at_home_call [OF assms(1) run_ready(3) runner_inv_ready [OF st(1), of f]] run_ready(2) eqs(3) by simp
next
  case (run_own r st st')
  then have "runner_inv st" "single_work st" using assms(1) by (simp_all add: at_home_def)
  moreover have "runner_inv st'" using run_own(4) calculation(1) runner_inv_step by (auto simp: own_step_def)
  ultimately show ?thesis
    using at_home_call [OF assms(1) run_own(3)] entry_own [OF run_own(4)] run_own(2) by (simp add: entry_law_def)
qed

lemma at_home_reachable: "calm_reachable rs \<Longrightarrow> at_home rs"
  by (induction rule: calm_reachable.induct) (simp add: at_home_def no_runners_def, rule at_home_step)

section \<open>Properties\<close>

text \<open>C31. Where callers come to a session only while no work of its runner is being cancelled or has just ended, every
  work that goes on is in the runner the map has for its session, where cancelling the session reaches it.\<close>
theorem works_stay_in_reach:
  assumes "calm_reachable rs" "rs_runners rs r = Some st" "working st f"
  shows "rs_map rs (rs_session rs r) = Some r"
proof -
  have "\<not> quiet_runner st" using working_loose [OF assms(3)] by (auto simp: quiet_runner_def)
  then show ?thesis using at_home_reachable [OF assms(1)] assms(2) by (simp add: at_home_def)
qed

definition first_run :: "(nat, nat) run_state" where
  "first_run = snd (ensure_session (lit ''s'') 1 no_runners)"

lemma first_run_reachable: "calm_reachable first_run"
  unfolding first_run_def
  by (rule calm_run [OF calm_none run_ensure]) (simp add: calm_call_def no_runners_def)

lemma works_stay_in_reach_witness:
  "\<exists>st. rs_runners first_run 0 = Some st \<and> working st 0 \<and> rs_map first_run (rs_session first_run 0) = Some 0"
proof -
  have "\<exists>st. rs_runners first_run 0 = Some st \<and> working st 0"
    by (simp add: first_run_def ensure_session_def runner_for_def no_runners_def call_runner_def Let_def ensure_running_def
        start_run_def new_runner_def working_def on_idle_def on_busy_def)
  then show ?thesis using works_stay_in_reach [OF first_run_reachable] by blast
qed

text \<open>Without that: a run is cancelled and takes its time to end, the next run of the same runner ends first and takes the
  runner out of the map, a third run gets a new runner, and then the end of the cancellation takes that out of the map.\<close>

definition own_act :: "('w, 'a) runner_action \<Rightarrow> ('w, 'a) work_runner \<Rightarrow> ('w, 'a) work_runner" where
  "own_act a st = (case a of Finish_Work f x \<Rightarrow> finish_work f x st | Complete_Work f \<Rightarrow> complete_work f st
     | Stop_Work n \<Rightarrow> stop_work n st | End_Cancel n \<Rightarrow> end_cancel n st | _ \<Rightarrow> st)"

definition act_on :: "nat \<Rightarrow> ('w, 'a) runner_action \<Rightarrow> ('w, 'a) run_state \<Rightarrow> ('w, 'a) run_state" where
  "act_on r a rs = (case rs_runners rs r of Some st \<Rightarrow> call_runner r st (own_act a st) rs | None \<Rightarrow> rs)"

fun may_act :: "('w, 'a) runner_action \<Rightarrow> ('w, 'a) work_runner \<Rightarrow> bool" where
  "may_act (Finish_Work f x) st \<longleftrightarrow> working st f"
| "may_act (Complete_Work f) st \<longleftrightarrow> (case wr_fibers st f of Some fb \<Rightarrow> wf_exit fb \<noteq> None | None \<Rightarrow> False)"
| "may_act (Stop_Work n) st \<longleftrightarrow> (case wr_cancels st n of Some ca \<Rightarrow> \<not> ca_stopped ca \<and> \<not> wr_closed st (ca_fiber ca) | None \<Rightarrow> False)"
| "may_act (End_Cancel n) st \<longleftrightarrow> (case wr_cancels st n of Some ca \<Rightarrow> ca_stopped ca \<and> wr_fibers st (ca_fiber ca) = None | None \<Rightarrow> False)"
| "may_act _ st \<longleftrightarrow> False"

lemma may_act_step: "may_act a st \<Longrightarrow> own_step st (own_act a st)"
  unfolding own_step_def
  by (cases a) (auto simp: own_act_def working_def split: option.splits
      intro!: exI [of _ a] step_finish step_complete step_stop step_end)

lemma act_on_reachable:
  assumes "run_reachable rs" "\<exists>st. rs_runners rs r = Some st \<and> may_act a st"
  shows "run_reachable (act_on r a rs)"
proof -
  obtain st where st: "rs_runners rs r = Some st" "may_act a st" using assms(2) by blast
  have "run_reachable (call_runner r st (own_act a st) rs)"
    by (rule reach_run [OF assms(1) run_own [OF st(1) may_act_step [OF st(2)]]])
  then show ?thesis using st(1) by (simp add: act_on_def)
qed

definition second_gone :: "(nat, nat) run_state" where
  "second_gone = act_on 0 (Complete_Work 1) (act_on 0 (Finish_Work 1 (Exited 2))
     (snd (ensure_session (lit ''s'') 2 (cancel_session (lit ''s'') first_run))))"

definition third_lost :: "(nat, nat) run_state" where
  "third_lost = act_on 0 (End_Cancel 0) (act_on 0 (Complete_Work 0) (act_on 0 (Finish_Work 0 Interrupted_Only)
     (act_on 0 (Stop_Work 0) (snd (ensure_session (lit ''s'') 3 second_gone)))))"

definition fourth_beside :: "(nat, nat) run_state" where
  "fourth_beside = snd (ensure_session (lit ''s'') 4 third_lost)"

lemmas path_defs = first_run_def second_gone_def third_lost_def fourth_beside_def act_on_def own_act_def ensure_session_def
  cancel_session_def runner_for_def no_runners_def call_runner_def Let_def ensure_running_def start_run_def new_runner_def
  on_idle_def on_busy_def cancel_def drop_work_def finish_work_def finish_run_def complete_work_def complete_done_def
  stop_work_def end_cancel_def fork_work_def new_done_def ended_def working_def

lemma second_gone_reachable: "run_reachable second_gone"
  unfolding second_gone_def first_run_def
  by (rule act_on_reachable [OF act_on_reachable [OF reach_run [OF reach_run [OF reach_run [OF reach_none run_ensure] run_cancel] run_ensure]]])
    (simp_all add: path_defs)

lemma third_lost_reachable: "run_reachable third_lost"
  unfolding third_lost_def
  by (rule act_on_reachable [OF act_on_reachable [OF act_on_reachable [OF act_on_reachable [OF reach_run [OF second_gone_reachable run_ensure]]]]])
    (simp_all add: path_defs)

lemma runner_out_of_reach:
  \<comment> \<open>a run goes on, but its session has no runner and is not busy\<close>
  "\<exists>rs r st f. run_reachable rs \<and> rs_runners rs r = Some st \<and> working (st :: (nat, nat) work_runner) f \<and> \<not> cancelled st f \<and>
     rs_map rs (rs_session rs r) = None \<and> \<not> session_busy (rs_session rs r) rs"
proof -
  have "\<exists>st. rs_runners third_lost 1 = Some st \<and> working st 0 \<and> \<not> cancelled st 0 \<and>
      rs_map third_lost (rs_session third_lost 1) = None \<and> \<not> session_busy (rs_session third_lost 1) third_lost"
    by (simp add: path_defs cancelled_def session_busy_def)
  then show ?thesis using third_lost_reachable by blast
qed

lemma two_runners_work:
  "\<exists>rs q r a b f g. run_reachable rs \<and> q \<noteq> r \<and> rs_session rs q = rs_session rs r \<and>
     rs_runners rs q = Some a \<and> rs_runners rs r = Some (b :: (nat, nat) work_runner) \<and>
     working a f \<and> \<not> cancelled a f \<and> working b g \<and> \<not> cancelled b g"
proof -
  have "run_reachable fourth_beside"
    unfolding fourth_beside_def by (rule reach_run [OF third_lost_reachable run_ensure])
  moreover have "rs_session fourth_beside 1 = rs_session fourth_beside 2 \<and>
      (\<exists>a b. rs_runners fourth_beside 1 = Some a \<and> rs_runners fourth_beside 2 = Some b \<and>
        working a 0 \<and> \<not> cancelled a 0 \<and> working b 0 \<and> \<not> cancelled b 0)"
    by (simp add: path_defs cancelled_def)
  ultimately show ?thesis by (metis one_eq_numeral_iff semiring_norm(85))
qed

end
