(* ===== verification/RunnerTurn.thy ===== *)
theory RunnerTurn imports AttemptLog CompactionProps begin

text \<open>
  The whole attempt of a turn over the log (\<open>runTurnAttempt\<close> in packages/core/src/session/runner/llm.ts): its
  opening, the request, the compaction that may come first, the stream and the tools, and the recovery from an
  overflow. The request is built from the rows of the database; the provider answers it with a script. It refines
  the attempts by which the drain is modelled. No other writer of the session comes between.
\<close>

section \<open>The request\<close>

definition max_steps_prompt :: jstring where
  "max_steps_prompt = lines
     [lit ''CRITICAL - MAXIMUM STEPS REACHED'',
      [],
      lit ''The maximum number of steps allowed for this task has been reached. Tools are disabled until next user input. Respond with text only.'',
      [],
      lit ''STRICT REQUIREMENTS:'',
      lit ''1. Do NOT make any tool calls (no reads, writes, edits, searches, or any other tools)'',
      lit ''2. MUST provide a text response summarizing work done so far'',
      lit ''3. This constraint overrides ALL other instructions, including any user requests for edits or tool use'',
      [],
      lit ''Response must include:'',
      lit ''- Statement that maximum steps for this agent have been reached'',
      lit ''- Summary of what has been accomplished so far'',
      lit ''- List of any remaining tasks that were not completed'',
      lit ''- Recommendations for what should be done next'',
      [],
      lit ''Any attempt to use tools is a critical violation. Respond with text ONLY.'']"

definition hex_digit :: "nat \<Rightarrow> bool" where
  "hex_digit n \<longleftrightarrow> 48 \<le> n \<and> n \<le> 57 \<or> 97 \<le> n \<and> n \<le> 102"

definition cache_key :: "jstring \<Rightarrow> jstring" where
  \<comment> \<open>\<open>^ses_[0-9a-f]{64}$\<close>\<close>
  "cache_key sid =
    (if take 4 sid = lit ''ses_'' \<and> length sid = 68 \<and> list_all hex_digit (drop 4 sid) then drop 4 sid else sid)"

record request =
  rq_key :: jstring
  rq_system :: "jstring list"
  rq_messages :: "llm_message list"
  rq_tools :: bool \<comment> \<open>those of the agent, or none\<close>

record world =
  tw_attempt :: attempt
  tw_model :: llm_model
  tw_limits :: model_limits
  tw_system :: "jstring option" \<comment> \<open>of the agent\<close>
  tw_parse :: "jstring \<Rightarrow> json option"
  tw_text :: "request \<Rightarrow> jstring" \<comment> \<open>the JSON text of its system parts, messages and tools\<close>
  tw_compaction :: compaction_run
  tw_overflow :: compaction_run
  tw_input :: turn_input
  tw_provider :: "request \<Rightarrow> attempt_script"

definition assistant_text :: "jstring \<Rightarrow> llm_message" where
  "assistant_text t = \<lparr>lm_id = None, lm_role = Assistant_Role, lm_content = [TextContent t], lm_metadata = None\<rparr>"

definition build_request :: "world \<Rightarrow> jstring \<Rightarrow> prepared \<Rightarrow> message_row list \<Rightarrow> bool \<Rightarrow> request" where
  "build_request w sid p entries last_step = \<lparr>rq_key = cache_key sid,
     rq_system = filter (\<lambda>t. t \<noteq> []) ((case tw_system w of Some t \<Rightarrow> [t] | None \<Rightarrow> []) @ [pp_baseline p]),
     rq_messages = to_llm_messages (tw_parse w) (tw_model w) (map mr_message entries) @
       (if last_step then [assistant_text max_steps_prompt] else []),
     rq_tools = (\<not> last_step)\<rparr>"

section \<open>The attempt\<close>

datatype turn_outcome = Continue bool nat | Restart restart nat

definition compaction_of :: "world \<Rightarrow> jstring \<Rightarrow> message_row list \<Rightarrow> compaction_input" where
  "compaction_of w sid entries = \<lparr>cin_session = sid, cin_entries = entries, cin_limits = tw_limits w, cin_max_tokens = None\<rparr>"

definition finish_turn :: "'j codec \<Rightarrow> world \<Rightarrow> bool \<Rightarrow> attempt_script \<Rightarrow> nat \<Rightarrow> 'j session_log \<Rightarrow>
    ((run_error, turn_outcome) result \<times> 'j session_log) option" where
  "finish_turn c w offered sc current L =
    (case run_attempt (tw_input w) offered sc of
       None \<Rightarrow> None
     | Some (res, s) \<Rightarrow>
         Some (case publish_all c (tn_events s) L of
             (Inl err, L1) \<Rightarrow> (Inl (Log_Died err), L1)
           | (Inr u, L1) \<Rightarrow>
               (case res of Ends b \<Rightarrow> (Inr (Continue b current), L1) | _ \<Rightarrow> (Inl Turn_Failed, L1))))"

definition provider_turn :: "'j codec \<Rightarrow> compaction_settings \<Rightarrow> world \<Rightarrow> jstring \<Rightarrow> bool \<Rightarrow> bool \<Rightarrow> message_row list \<Rightarrow> attempt_script \<Rightarrow>
    nat \<Rightarrow> 'j session_log \<Rightarrow> ((run_error, turn_outcome) result \<times> 'j session_log) option" where
  \<comment> \<open>the recovery is tried where the stream ended in an overflow before the assistant started\<close>
  "provider_turn c cs w sid recover offered entries sc current L =
    (if recover \<and> map_option fst (run_attempt (tw_input w) offered (sc\<lparr>sc_recovered := True\<rparr>)) = Some Overflow_Compacted
     then (case compact_after_overflow c cs (tw_overflow w) (compaction_of w sid entries) L of
         (Inl err, L1) \<Rightarrow> Some (Inl (Log_Died err), L1)
       | (Inr True, L1) \<Rightarrow> Some (Inr (Restart After_Overflow current), L1)
       | (Inr False, L1) \<Rightarrow> finish_turn c w offered (sc\<lparr>sc_recovered := False\<rparr>) current L1)
     else finish_turn c w offered (sc\<lparr>sc_recovered := False\<rparr>) current L)"

definition run_turn_attempt :: "'j codec \<Rightarrow> runner \<Rightarrow> compaction_settings \<Rightarrow> world \<Rightarrow> jstring \<Rightarrow> bool \<Rightarrow> delivery option \<Rightarrow> nat \<Rightarrow>
    'j session_log \<Rightarrow> ((run_error, turn_outcome) result \<times> 'j session_log) option" where
  "run_turn_attempt c rn cs w sid recover promotion step L =
    (case begin_attempt c rn sid (tw_attempt w) promotion step L of
       (Inl e, L1) \<Rightarrow> Some (Inl e, L1)
     | (Inr (p, current), L1) \<Rightarrow>
         let entries = entries_for_runner (tables L1) sid (pp_seq p);
             rq = build_request w sid p entries (is_last_step rn current)
         in (case compact_if_needed c cs (tw_compaction w) (tw_text w rq) (compaction_of w sid entries) L1 of
               (Inl err, L2) \<Rightarrow> Some (Inl (Log_Died err), L2)
             | (Inr True, L2) \<Rightarrow> Some (Inr (Restart After_Compaction current), L2)
             | (Inr False, L2) \<Rightarrow>
                 provider_turn c cs w sid recover (\<not> is_last_step rn current) entries (tw_provider w rq) current L2))"

section \<open>The attempts of the drain\<close>

lemma publish_all_append:
  "publish_all c (xs @ ys) L =
    (case publish_all c xs L of (Inl err, L1) \<Rightarrow> (Inl err, L1) | (Inr u, L1) \<Rightarrow> publish_all c ys L1)"
  by (induction xs arbitrary: L) (auto split: prod.split sum.split)

definition published_by :: "'j codec \<Rightarrow> 'j session_log \<Rightarrow> 'j session_log \<Rightarrow> bool" where
  "published_by c L L' \<longleftrightarrow> (\<exists>es. publish_all c es L = (Inr (), L'))"

lemma published_refl [simp]: "published_by c L L"
  unfolding published_by_def by (rule exI [of _ "[]"]) simp

lemma published_trans: "published_by c L L1 \<Longrightarrow> published_by c L1 L2 \<Longrightarrow> published_by c L L2"
proof -
  assume "published_by c L L1" "published_by c L1 L2"
  then obtain xs ys where "publish_all c xs L = (Inr (), L1)" "publish_all c ys L1 = (Inr (), L2)" by (auto simp: published_by_def)
  then have "publish_all c (xs @ ys) L = (Inr (), L2)" by (simp add: publish_all_append)
  then show ?thesis unfolding published_by_def by blast
qed

lemma published_one: "publish_session c e L = (Inr ev, L') \<Longrightarrow> published_by c L L'"
  unfolding published_by_def by (rule exI [of _ "[e]"]) simp

lemma overflow_published:
  assumes "compact_after_overflow c cs cr inp L = (Inr b, L')"
  shows "published_by c L L'"
  using assms
  by (auto simp: compact_after_overflow_def split: option.split_asm prod.split_asm sum.split_asm
      intro: published_one published_trans)

lemma if_needed_published: "compact_if_needed c cs cr text inp L = (Inr b, L') \<Longrightarrow> published_by c L L'"
  by (auto simp: compact_if_needed_def split: option.split_asm if_split_asm intro: overflow_published)

fun outcome_step :: "turn_outcome \<Rightarrow> nat" where
  "outcome_step (Continue b n) = n"
| "outcome_step (Restart r n) = n"

lemma finish_published:
  assumes "finish_turn c w offered sc current L = Some (Inr out, L')"
  shows "published_by c L L' \<and> (\<exists>b s. out = Continue b current \<and> run_attempt (tw_input w) offered sc = Some (Ends b, s))"
  using assms unfolding finish_turn_def published_by_def
  by (auto split: option.split_asm prod.split_asm sum.split_asm attempt_result.split_asm)

lemma provider_published:
  assumes "provider_turn c cs w sid recover offered entries sc current L = Some (Inr out, L')"
  shows "published_by c L L' \<and> (out = Restart After_Overflow current \<and> recover \<or>
    (\<exists>b s. out = Continue b current \<and> run_attempt (tw_input w) offered (sc\<lparr>sc_recovered := False\<rparr>) = Some (Ends b, s)))"
  using assms unfolding provider_turn_def
  by (auto split: if_split_asm prod.split_asm sum.split_asm bool.split_asm dest: finish_published overflow_published
      intro: published_trans)

lemma begin_events [simp]: "begin_attempt c rn sid (at\<lparr>at_events := es\<rparr>) promotion step L = begin_attempt c rn sid at promotion step L"
proof -
  have "at_context (at\<lparr>at_events := es\<rparr>) = at_context at" "at_message (at\<lparr>at_events := es\<rparr>) = at_message at"
    "at_now (at\<lparr>at_events := es\<rparr>) = at_now at" by simp_all
  then show ?thesis by (simp only: begin_attempt_def)
qed

lemma attempt_refines:
  assumes "run_turn_attempt c rn cs w sid recover promotion step L = Some (Inr out, L')"
  shows "\<exists>es. attempt_turn c rn sid ((tw_attempt w)\<lparr>at_events := es\<rparr>) promotion step L = (Inr (outcome_step out), L') \<and>
    (case out of Continue b n \<Rightarrow> needs_continuation rn (end_of (Ends b)) n = b | Restart r n \<Rightarrow> r = After_Overflow \<longrightarrow> recover)"
proof -
  obtain p current L1 where b: "begin_attempt c rn sid (tw_attempt w) promotion step L = (Inr (p, current), L1)"
    using assms by (auto simp: run_turn_attempt_def split: prod.split_asm sum.split_asm)
  let ?es = "entries_for_runner (tables L1) sid (pp_seq p)"
  let ?rq = "build_request w sid p ?es (is_last_step rn current)"
  obtain r L2 where n: "compact_if_needed c cs (tw_compaction w) (tw_text w ?rq) (compaction_of w sid ?es) L1 = (r, L2)" by fastforce
  note run = assms [unfolded run_turn_attempt_def b prod.case sum.case Let_def n]
  have "published_by c L1 L' \<and> outcome_step out = current \<and>
    (case out of Continue b n \<Rightarrow> needs_continuation rn (end_of (Ends b)) n = b | Restart r n \<Rightarrow> r = After_Overflow \<longrightarrow> recover)"
  proof (cases r)
    case (Inl err)
    with run show ?thesis by simp
  next
    case (Inr x)
    have L2: "published_by c L1 L2" using if_needed_published n Inr by blast
    show ?thesis
    proof (cases x)
      case True
      with run Inr L2 show ?thesis by auto
    next
      case False
      with run Inr have p: "provider_turn c cs w sid recover (\<not> is_last_step rn current) ?es (tw_provider w ?rq) current L2 = Some (Inr out, L')" by simp
      from provider_published [OF this] show ?thesis
        using published_trans [OF L2] attempt_in_the_drain by auto
    qed
  qed
  then obtain es where "publish_all c es L1 = (Inr (), L')" and rest: "outcome_step out = current"
    "case out of Continue b n \<Rightarrow> needs_continuation rn (end_of (Ends b)) n = b | Restart r n \<Rightarrow> r = After_Overflow \<longrightarrow> recover"
    by (auto simp: published_by_def)
  then have "attempt_turn c rn sid ((tw_attempt w)\<lparr>at_events := es\<rparr>) promotion step L = (Inr (outcome_step out), L')"
    by (simp add: attempt_turn_def b)
  with rest show ?thesis by blast
qed

section \<open>Turns\<close>

fun full_turn :: "'j codec \<Rightarrow> runner \<Rightarrow> compaction_settings \<Rightarrow> world list \<Rightarrow> jstring \<Rightarrow> bool \<Rightarrow> delivery option \<Rightarrow> nat \<Rightarrow>
    'j session_log \<Rightarrow> ((run_error, bool \<times> nat) result \<times> 'j session_log) option" where
  \<comment> \<open>\<open>runTurn\<close> and \<open>runAfterOverflowCompaction\<close>, with the worlds of its attempts\<close>
  "full_turn c rn cs [] sid recover promotion step L = None"
| "full_turn c rn cs (w # ws) sid recover promotion step L =
    (case run_turn_attempt c rn cs w sid recover promotion step L of
       None \<Rightarrow> None
     | Some (Inl e, L1) \<Rightarrow> Some (Inl e, L1)
     | Some (Inr (Continue b n), L1) \<Rightarrow> Some (Inr (b, n), L1)
     | Some (Inr (Restart r n), L1) \<Rightarrow> full_turn c rn cs ws sid (recover \<and> r = After_Compaction) None n L1)"

text \<open>For a turn that returns, with the requests, compactions, streams and tools of its attempts, there is a script
  with which the model of the drain does the same to the log and gives the same answer. The script takes over
  what the attempts published, so this ties the two models together and says nothing of the attempts
  themselves.\<close>

theorem turns_refine_scripts:
  assumes "full_turn c rn cs ws sid recover promotion step L = Some (Inr out, L')"
  shows "\<exists>script. run_turn c rn sid recover promotion step script L = (Inr out, L')"
  using assms
proof (induction ws arbitrary: recover promotion step L)
  case (Cons w ws)
  obtain r L1 where a: "run_turn_attempt c rn cs w sid recover promotion step L = Some (r, L1)"
    using Cons.prems by (auto split: option.split_asm)
  with Cons.prems obtain x where r: "r = Inr x" by (cases r) auto
  from attempt_refines [OF a [unfolded r]] obtain es where
    t: "attempt_turn c rn sid ((tw_attempt w)\<lparr>at_events := es\<rparr>) promotion step L = (Inr (outcome_step x), L1)"
    and x: "case x of Continue b n \<Rightarrow> needs_continuation rn (end_of (Ends b)) n = b | Restart r n \<Rightarrow> r = After_Overflow \<longrightarrow> recover"
    by blast
  show ?case
  proof (cases x)
    case (Continue b n)
    with Cons.prems a r t x have "run_turn c rn sid recover promotion step ([], (tw_attempt w)\<lparr>at_events := es\<rparr>, end_of (Ends b)) L = (Inr out, L')"
      by (simp add: end_of_def)
    then show ?thesis by blast
  next
    case (Restart k n)
    with Cons.prems a r have "full_turn c rn cs ws sid (recover \<and> k = After_Compaction) None n L1 = Some (Inr out, L')" by simp
    from Cons.IH [OF this] obtain rs fin where "run_turn c rn sid (recover \<and> k = After_Compaction) None n (rs, fin) L1 = (Inr out, L')"
      by (metis surj_pair)
    with Restart t x have "run_turn c rn sid recover promotion step (((tw_attempt w)\<lparr>at_events := es\<rparr>, k) # rs, fin) L = (Inr out, L')"
      by (cases fin) simp
    then show ?thesis by blast
  qed
qed simp

definition demo_world :: "stream_action list \<Rightarrow> world" where
  "demo_world evs = \<lparr>tw_attempt = \<lparr>at_context = Inr (demo_sources ''Mon''), at_message = lit ''c'', at_now = 6, at_events = []\<rparr>,
     tw_model = \<lparr>md_provider = lit ''p'', md_id = lit ''m''\<rparr>, tw_limits = \<lparr>ml_context = Some 90000, ml_output = None\<rparr>,
     tw_system = None, tw_parse = (\<lambda>_. None), tw_text = (\<lambda>_. []), tw_compaction = demo_compaction, tw_overflow = demo_compaction,
     tw_input = demo_input, tw_provider = (\<lambda>rq. fiber_script\<lparr>sc_stream := evs\<rparr>)\<rparr>"

definition overflow_worlds :: "world list" where
  \<comment> \<open>the first request is too long; after the compaction the second one is answered\<close>
  "overflow_worlds = [demo_world [Receive (ProviderError (lit ''too long'') (Some (lit ''context-overflow'')) None None)],
     demo_world (sc_stream fiber_script)]"

lemma turns_refine_scripts_witness:
  "\<exists>script L'. full_turn demo_codec (demo_runner\<lparr>rn_steps := None\<rparr>) demo_settings overflow_worlds (lit ''s'') True (Some Steer) 1 demo_inbox =
      Some (Inr (True, 1), L') \<and>
    run_turn demo_codec (demo_runner\<lparr>rn_steps := None\<rparr>) (lit ''s'') True (Some Steer) 1 script demo_inbox = (Inr (True, 1), L')"
proof -
  let ?run = "full_turn demo_codec (demo_runner\<lparr>rn_steps := None\<rparr>) demo_settings overflow_worlds (lit ''s'') True (Some Steer) 1 demo_inbox"
  have "map_option fst ?run = Some (Inr (True, 1))" by code_simp
  then obtain L' where run: "?run = Some (Inr (True, 1), L')" by auto
  from turns_refine_scripts [OF run] run show ?thesis by blast
qed

end
