(* ===== verification/SessionRecovery.thy ===== *)
theory SessionRecovery imports SessionDrain begin

text \<open>
  What a run does first (\<open>failInterruptedTools\<close> of packages/core/src/session/runner/llm.ts): tools that an
  earlier process left pending or running are failed through the log and the projectors, and the history a
  request is then built from answers every call.
\<close>

section \<open>One failure\<close>

definition interrupted_event :: "int \<Rightarrow> jstring \<Rightarrow> assistant_message \<Rightarrow> tool_item \<Rightarrow> session_event" where
  "interrupted_event now sid a t = \<lparr>se_metadata = None, se_session = sid, se_time = now, se_body = interrupted_body a t\<rparr>"

definition interrupt_tool :: "int \<Rightarrow> tool_item \<Rightarrow> tool_item \<Rightarrow> tool_item" where
  "interrupt_tool now t = tool_failed (lit ''Tool execution interrupted'') None (hosted t) (Option.bind (ti_provider t) tp_metadata) now"

fun interrupt_in :: "int \<Rightarrow> assistant_message \<Rightarrow> tool_item \<Rightarrow> session_message \<Rightarrow> session_message" where
  "interrupt_in now a t (AssistantMessage b) =
    AssistantMessage (if am_id b = am_id a then latest_tool (ti_id t) (interrupt_tool now t) b else b)"
| "interrupt_in now a t m = m"

lemma interrupt_in_simps [simp]:
  "message_id (interrupt_in now a t m) = message_id m" "is_system (interrupt_in now a t m) = is_system m"
  "is_compaction (interrupt_in now a t m) = is_compaction m"
  by (cases m; simp add: latest_tool_def edit_content_def)+

definition map_rows :: "(session_message \<Rightarrow> session_message) \<Rightarrow> jstring \<Rightarrow> message_row list \<Rightarrow> message_row list" where
  "map_rows f sid rows = map (\<lambda>r. if mr_session r = sid then r\<lparr>mr_message := f (mr_message r)\<rparr> else r) rows"

lemma project_interrupted:
  assumes ok: "rows_ok (message_table db)" and e: "e = interrupted_event now sid a t"
  shows "project_event e n db = Inr (db\<lparr>message_table := map_rows (interrupt_in now a t) sid (message_table db)\<rparr>)"
proof -
  let ?rows = "message_table db" and ?f = "latest_tool (ti_id t) (interrupt_tool now t)"
  have run: "project_event e n db = Inr (db\<lparr>message_table :=
      update_owned_assistant (db_adapter (has_session db sid) sid n) (am_id a) ?f ?rows\<rparr>)"
    by (simp add: e interrupted_event_def interrupted_body_def project_event_def project_run_def run_event_def update_def
        interrupt_tool_def [abs_def])
  have ids: "r = r'" if "r \<in> set ?rows" "r' \<in> set ?rows" "message_id (mr_message r) = message_id (mr_message r')" for r r'
    using ok that by (auto simp: rows_ok_def distinct_map inj_on_def)
  have "update_owned_assistant (db_adapter (has_session db sid) sid n) (am_id a) ?f ?rows = map_rows (interrupt_in now a t) sid ?rows"
  proof (cases "\<exists>r \<in> set ?rows. \<exists>b. mr_session r = sid \<and> mr_message r = AssistantMessage b \<and> am_id b = am_id a")
    case True
    then obtain r b where r: "r \<in> set ?rows" "mr_session r = sid" "mr_message r = AssistantMessage b" "am_id b = am_id a" by blast
    have "find (\<lambda>r. message_id (mr_message r) = am_id a \<and> mr_session r = sid \<and> is_assistant (mr_message r)) ?rows = Some r"
      by (rule find_distinct_rev [OF ok [unfolded rows_ok_def] _ r(1)]) (simp_all add: r)
    then have "db_assistant sid (am_id a) ?rows = Some b" by (simp add: db_assistant_def r)
    then have "update_owned_assistant (db_adapter (has_session db sid) sid n) (am_id a) ?f ?rows = db_update sid (AssistantMessage (?f b)) ?rows"
      by (simp add: update_owned_assistant_def db_adapter_def)
    also have "\<dots> = map_rows (interrupt_in now a t) sid ?rows"
      unfolding db_update_def map_rows_def
    proof (rule map_cong [OF refl])
      fix x assume x: "x \<in> set ?rows"
      show "(if message_id (mr_message x) = message_id (AssistantMessage (?f b)) \<and> mr_session x = sid
          then x\<lparr>mr_message := AssistantMessage (?f b)\<rparr> else x) =
        (if mr_session x = sid then x\<lparr>mr_message := interrupt_in now a t (mr_message x)\<rparr> else x)"
      proof (cases "x = r")
        case True
        with r show ?thesis by (simp add: latest_tool_def edit_content_def)
      next
        case False
        then have "message_id (mr_message x) \<noteq> am_id a" using ids [OF x r(1)] r by auto
        with r show ?thesis by (cases "mr_message x") (auto simp: latest_tool_def edit_content_def)
      qed
    qed
    finally show ?thesis .
  next
    case False
    then have none: "find (\<lambda>r. message_id (mr_message r) = am_id a \<and> mr_session r = sid \<and> is_assistant (mr_message r)) ?rows = None"
      by (auto simp: find_None_iff message_types)
    have "map_rows (interrupt_in now a t) sid ?rows = ?rows" unfolding map_rows_def
    proof (rule map_idI)
      fix x assume x: "x \<in> set ?rows"
      show "(if mr_session x = sid then x\<lparr>mr_message := interrupt_in now a t (mr_message x)\<rparr> else x) = x"
        by (cases "mr_message x") (use False x in auto)
    qed
    with none show ?thesis by (simp add: update_owned_assistant_def db_adapter_def db_assistant_def)
  qed
  with run show ?thesis by simp
qed

section \<open>What a request sees\<close>

lemma session_rows_map:
  "session_rows sid (map_rows f sid rows) = map (\<lambda>r. r\<lparr>mr_message := f (mr_message r)\<rparr>) (session_rows sid rows)"
proof -
  have "filter (\<lambda>r. mr_session r = sid) (map_rows f sid rows) =
      map (\<lambda>r. r\<lparr>mr_message := f (mr_message r)\<rparr>) (filter (\<lambda>r. mr_session r = sid) rows)"
    by (induction rows) (simp_all add: map_rows_def)
  then show ?thesis by (simp add: session_rows_def sort_key_map_id)
qed

lemma visible_map:
  assumes f: "\<And>m. is_system (f m) = is_system m" "\<And>m. is_compaction (f m) = is_compaction m"
    and db: "message_table db' = map_rows f sid (message_table db)"
  shows "latest_compaction db' sid = latest_compaction db sid"
    "message_rows db' sid k base = map (\<lambda>r. r\<lparr>mr_message := f (mr_message r)\<rparr>) (message_rows db sid k base)"
proof -
  show "latest_compaction db' sid = latest_compaction db sid"
    by (simp add: latest_compaction_def db session_rows_map filter_map o_def f rev_map split: list.split)
  show "message_rows db' sid k base = map (\<lambda>r. r\<lparr>mr_message := f (mr_message r)\<rparr>) (message_rows db sid k base)"
    by (cases k; cases base) (simp_all add: message_rows_def db session_rows_map filter_map o_def f)
qed

definition open_tools :: "session_message list \<Rightarrow> (jstring \<times> jstring) set" where
  "open_tools ms = {(am_id a, ti_id t) | a t. AssistantMessage a \<in> set ms \<and> t \<in> set (tools_in (am_content a)) \<and> waiting (ti_state t)}"

fun calls_once :: "session_message \<Rightarrow> bool" where
  "calls_once (AssistantMessage a) = distinct (map ti_id (tools_in (am_content a)))"
| "calls_once m = True"

definition single_calls :: "session_message list \<Rightarrow> bool" where
  \<comment> \<open>no assistant message holds two tools of one call id\<close>
  "single_calls ms \<longleftrightarrow> list_all calls_once ms"

lemma single_calls_iff:
  "single_calls ms \<longleftrightarrow> (\<forall>a. AssistantMessage a \<in> set ms \<longrightarrow> distinct (map ti_id (tools_in (am_content a))))"
proof -
  have "calls_once m \<longleftrightarrow> (\<forall>a. m = AssistantMessage a \<longrightarrow> distinct (map ti_id (tools_in (am_content a))))" for m
    by (cases m) simp_all
  then show ?thesis by (auto simp: single_calls_def list_all_iff)
qed

lemma tools_in_latest:
  assumes "\<And>t. ti_id (f t) = ti_id t" "distinct (map ti_id (tools_in cs))"
  shows "tools_in (update_last (is_tool i) (on_tool f) cs) = map (\<lambda>t. if ti_id t = i then f t else t) (tools_in cs)"
  using assms(2)
proof (induction cs)
  case (Cons c cs)
  show ?case
  proof (cases "\<exists>y \<in> set cs. is_tool i y")
    case True
    then obtain t where "CTool t \<in> set cs" "ti_id t = i" by (metis is_tool.elims(2))
    then have "t \<in> set (tools_in cs)" "ti_id t = i" by (auto simp: tools_in_set)
    with Cons True show ?thesis by (cases c) (auto simp: image_iff)
  next
    case False
    then have "ti_id t \<noteq> i" if "t \<in> set (tools_in cs)" for t using that by (auto simp: tools_in_set)
    then have "map (\<lambda>t. if ti_id t = i then f t else t) (tools_in cs) = tools_in cs" by (intro map_idI) auto
    with False show ?thesis by (cases c) auto
  qed
qed simp

lemma interrupt_tool_simps [simp]: "ti_id (interrupt_tool now t x) = ti_id x" "\<not> waiting (ti_state (interrupt_tool now t x))"
  by (cases "ti_state x"; simp add: interrupt_tool_def tool_failed_def)+

lemma interrupt_map:
  assumes one: "single_calls ms"
  shows "single_calls (map (interrupt_in now a t) ms)"
    "open_tools (map (interrupt_in now a t) ms) = open_tools ms - {(am_id a, ti_id t)}"
proof -
  have tools: "tools_in (am_content (latest_tool (ti_id t) (interrupt_tool now t) b)) =
      map (\<lambda>x. if ti_id x = ti_id t then interrupt_tool now t x else x) (tools_in (am_content b))"
    if "AssistantMessage b \<in> set ms" for b
    using tools_in_latest [of "interrupt_tool now t" "am_content b"] one that
    by (simp add: single_calls_iff latest_tool_def edit_content_def)
  have ids: "map ti_id (map (\<lambda>x. if ti_id x = ti_id t then interrupt_tool now t x else x) ts) = map ti_id ts" for ts
    by (induction ts) simp_all
  have origin: "\<exists>b0. AssistantMessage b0 \<in> set ms \<and> b = (if am_id b0 = am_id a then latest_tool (ti_id t) (interrupt_tool now t) b0 else b0)"
    if "AssistantMessage b \<in> set (map (interrupt_in now a t) ms)" for b
  proof -
    from that obtain m where m: "m \<in> set ms" "AssistantMessage b = interrupt_in now a t m" by auto
    obtain b0 where b0: "m = AssistantMessage b0" by (cases m) (use m(2) in simp_all)
    show ?thesis by (intro exI [of _ b0]) (use m b0 in simp)
  qed
  show "single_calls (map (interrupt_in now a t) ms)"
    unfolding single_calls_iff
  proof (intro allI impI)
    fix b assume "AssistantMessage b \<in> set (map (interrupt_in now a t) ms)"
    then obtain b0 where b0: "AssistantMessage b0 \<in> set ms"
        "b = (if am_id b0 = am_id a then latest_tool (ti_id t) (interrupt_tool now t) b0 else b0)" using origin by blast
    then show "distinct (map ti_id (tools_in (am_content b)))"
      using one tools [OF b0(1)] ids [of "tools_in (am_content b0)"]
      by (cases "am_id b0 = am_id a") (simp_all add: single_calls_iff del: map_map map_eq_conv)
  qed
  show "open_tools (map (interrupt_in now a t) ms) = open_tools ms - {(am_id a, ti_id t)}"
  proof (intro equalityI subsetI)
    fix p assume "p \<in> open_tools (map (interrupt_in now a t) ms)"
    then obtain b x where p: "p = (am_id b, ti_id x)" "AssistantMessage b \<in> set (map (interrupt_in now a t) ms)"
        "x \<in> set (tools_in (am_content b))" "waiting (ti_state x)" by (auto simp: open_tools_def)
    obtain b0 where b0: "AssistantMessage b0 \<in> set ms"
        "b = (if am_id b0 = am_id a then latest_tool (ti_id t) (interrupt_tool now t) b0 else b0)" using origin [OF p(2)] by blast
    have "am_id b = am_id b0" by (simp add: b0(2) latest_tool_def edit_content_def)
    moreover have "x \<in> set (tools_in (am_content b0)) \<and> (am_id b0 = am_id a \<longrightarrow> ti_id x \<noteq> ti_id t)"
      using p(3,4) b0(2) tools [OF b0(1)] by (auto split: if_split_asm)
    ultimately show "p \<in> open_tools ms - {(am_id a, ti_id t)}"
      unfolding open_tools_def p(1) using p(4) b0(1) by (auto intro!: exI [of _ b0] exI [of _ x])
  next
    fix p assume "p \<in> open_tools ms - {(am_id a, ti_id t)}"
    then obtain b x where p: "p = (am_id b, ti_id x)" "AssistantMessage b \<in> set ms" "x \<in> set (tools_in (am_content b))"
        "waiting (ti_state x)" "am_id b = am_id a \<longrightarrow> ti_id x \<noteq> ti_id t" by (auto simp: open_tools_def)
    let ?b = "if am_id b = am_id a then latest_tool (ti_id t) (interrupt_tool now t) b else b"
    have "interrupt_in now a t (AssistantMessage b) \<in> set (map (interrupt_in now a t) ms)" using p(2) by (simp only: set_map image_eqI)
    then have m: "AssistantMessage ?b \<in> set (map (interrupt_in now a t) ms)" by simp
    have "x \<in> set (tools_in (am_content ?b))" using tools [OF p(2)] p(3,5) by auto
    moreover have "am_id ?b = am_id b" by (simp add: latest_tool_def edit_content_def)
    ultimately show "p \<in> open_tools (map (interrupt_in now a t) ms)"
      unfolding open_tools_def p(1) using m p(4) by (intro CollectI exI [of _ ?b] exI [of _ x]) simp
  qed
qed

section \<open>All of them\<close>

definition interrupt_all :: "int \<Rightarrow> (assistant_message \<times> tool_item) list \<Rightarrow> session_message \<Rightarrow> session_message" where
  "interrupt_all now ps m = fold (\<lambda>(a, t). interrupt_in now a t) ps m"

lemma interrupt_all_simps [simp]:
  "interrupt_all now [] = (\<lambda>m. m)" "interrupt_all now ((a, t) # ps) = interrupt_all now ps \<circ> interrupt_in now a t"
  by (simp_all add: interrupt_all_def fun_eq_iff)

lemma interrupt_all_kept [simp]:
  "message_id (interrupt_all now ps m) = message_id m" "is_system (interrupt_all now ps m) = is_system m"
  "is_compaction (interrupt_all now ps m) = is_compaction m"
  by (induction ps arbitrary: m) auto

lemma interrupt_all_open:
  "single_calls ms \<Longrightarrow> open_tools (map (interrupt_all now ps) ms) = open_tools ms - (\<lambda>(a, t). (am_id a, ti_id t)) ` set ps"
proof (induction ps arbitrary: ms)
  case (Cons p ps)
  obtain a t where p: "p = (a, t)" by fastforce
  have split: "map (interrupt_all now (p # ps)) ms = map (interrupt_all now ps) (map (interrupt_in now a t) ms)"
    by (simp add: p)
  have rest: "open_tools (map (interrupt_all now ps) (map (interrupt_in now a t) ms)) =
      open_tools (map (interrupt_in now a t) ms) - (\<lambda>(a, t). (am_id a, ti_id t)) ` set ps"
    by (rule Cons.IH) (rule interrupt_map(1) [OF Cons.prems])
  show ?case unfolding split rest interrupt_map(2) [OF Cons.prems]
    unfolding p list.set image_insert prod.case by (rule Diff_insert2 [symmetric])
qed simp

lemma map_rows_map_rows: "map_rows g sid (map_rows f sid rows) = map_rows (g \<circ> f) sid rows"
  by (simp add: map_rows_def)

lemma publish_interrupted:
  assumes codec: "\<And>e. enc c e \<noteq> None" "inj (fresh c)"
  shows "log_inbox_ok L \<Longrightarrow> fresh_ids c L \<Longrightarrow>
    \<exists>L'. publish_all c (map (\<lambda>(a, t). interrupted_event now sid a t) ps) L = (Inr (), L') \<and>
      message_table (tables L') = map_rows (interrupt_all now ps) sid (message_table (tables L)) \<and>
      epoch_table (tables L') = epoch_table (tables L)"
proof (induction ps arbitrary: L)
  case Nil
  then show ?case by (simp add: map_rows_def map_idI)
next
  case (Cons p ps)
  obtain a t where p: "p = (a, t)" by fastforce
  let ?e = "interrupted_event now sid a t"
  have ok: "rows_ok (message_table (tables L))"
    using inbox_okD(2) [OF Cons.prems(1) [unfolded log_inbox_ok_def]] .
  obtain ev L1 where run: "publish_session c ?e L = (Inr ev, L1)"
    and L1: "tables L1 = (tables L)\<lparr>message_table := map_rows (interrupt_in now a t) sid (message_table (tables L))\<rparr>"
    by (rule publish_session_succeeds [OF codec Cons.prems(2) _ project_interrupted [OF ok refl]])
      (simp add: interrupted_event_def interrupted_body_def)
  obtain L' where L': "publish_all c (map (\<lambda>(a, t). interrupted_event now sid a t) ps) L1 = (Inr (), L')"
      "message_table (tables L') = map_rows (interrupt_all now ps) sid (message_table (tables L1))"
      "epoch_table (tables L') = epoch_table (tables L1)"
    using Cons.IH [OF publish_session_ok [OF Cons.prems(1) run] publish_session_fresh [OF Cons.prems(2) run]] by blast
  have "publish_all c (map (\<lambda>(a, t). interrupted_event now sid a t) (p # ps)) L = (Inr (), L')" using run L'(1) by (simp add: p)
  moreover have "message_table (tables L') = map_rows (interrupt_all now (p # ps)) sid (message_table (tables L))"
    by (simp add: L'(2) L1 map_rows_map_rows p)
  moreover have "epoch_table (tables L') = epoch_table (tables L)" by (simp add: L'(3) L1)
  ultimately show ?case by blast
qed

fun open_in :: "session_message \<Rightarrow> (assistant_message \<times> tool_item) list" where
  "open_in (AssistantMessage a) = map (Pair a) (filter (\<lambda>t. waiting (ti_state t)) (tools_in (am_content a)))"
| "open_in m = []"

lemma interrupted_bodies_eq: "interrupted_bodies m = map (\<lambda>(a, t). interrupted_body a t) (open_in m)"
  by (cases m) simp_all

lemma fail_interrupted_eq:
  "fail_interrupted_tools c now sid L =
    publish_all c (map (\<lambda>(a, t). interrupted_event now sid a t) (concat (map open_in (load_history (tables L) sid)))) L"
  by (simp add: fail_interrupted_tools_def interrupted_bodies_eq map_concat interrupted_event_def o_def case_prod_unfold)

lemma open_in_set: "(\<lambda>(a, t). (am_id a, ti_id t)) ` set (concat (map open_in ms)) = open_tools ms"
proof (intro equalityI subsetI)
  fix p assume "p \<in> (\<lambda>(a, t). (am_id a, ti_id t)) ` set (concat (map open_in ms))"
  then obtain m a t where m: "m \<in> set ms" "(a, t) \<in> set (open_in m)" "p = (am_id a, ti_id t)" by auto
  have "m = AssistantMessage a \<and> t \<in> set (tools_in (am_content a)) \<and> waiting (ti_state t)" by (cases m) (use m(2) in auto)
  then show "p \<in> open_tools ms" using m(1,3) unfolding open_tools_def by blast
next
  fix p assume "p \<in> open_tools ms"
  then obtain a t where p: "p = (am_id a, ti_id t)" "AssistantMessage a \<in> set ms" "t \<in> set (tools_in (am_content a))" "waiting (ti_state t)"
    by (auto simp: open_tools_def)
  then have "(a, t) \<in> set (open_in (AssistantMessage a))" by simp
  then have "(a, t) \<in> set (concat (map open_in ms))" using p(2) unfolding set_concat set_map by (rule UN_I [rotated, OF _ imageI])
  then show "p \<in> (\<lambda>(a, t). (am_id a, ti_id t)) ` set (concat (map open_in ms))" using p(1) by (intro image_eqI [of _ _ "(a, t)"]) simp_all
qed

lemma no_waiting_open: "no_waiting ms \<longleftrightarrow> open_tools ms = {}"
  by (auto simp: no_waiting_def open_tools_def tools_in_set)

lemma assistants_visible:
  \<comment> \<open>the baseline of the epoch decides over system messages only\<close>
  "AssistantMessage a \<in> set (map mr_message (message_rows db sid k b)) \<longleftrightarrow>
   AssistantMessage a \<in> set (map mr_message (message_rows db sid k b'))"
proof -
  have "r \<in> set (message_rows db sid k b) \<longleftrightarrow> r \<in> set (message_rows db sid k b')" if "\<not> is_system (mr_message r)" for r
    using that by (cases k; cases b; cases b') (simp_all add: message_rows_def)
  moreover have "AssistantMessage a = mr_message r \<Longrightarrow> \<not> is_system (mr_message r)" for r
    by (cases "mr_message r") simp_all
  ultimately show ?thesis unfolding set_map image_iff by blast
qed

text \<open>C6. A run repairs what an earlier process left behind: when its events can be encoded under fresh ids and no
  message holds two calls of one id, failing the interrupted tools succeeds, keeps the messages of the history
  and their order, and the request built afterwards, under whatever baseline, answers every call.\<close>

theorem recovery_answers_every_call:
  assumes codec: "\<And>e. enc c e \<noteq> None" "inj (fresh c)" and L: "L = inbox_after c s ops"
    and one: "single_calls (load_history (tables L) sid)"
  shows "\<exists>L'. fail_interrupted_tools c now sid L = (Inr (), L') \<and>
    map message_id (load_history (tables L') sid) = map message_id (load_history (tables L) sid) \<and>
    answered [] (to_llm_messages parse model (map mr_message (entries_for_runner (tables L') sid baseline)))"
proof -
  let ?ps = "concat (map open_in (load_history (tables L) sid))" and ?db = "tables L"
  define f where "f = interrupt_all now ?ps"
  obtain L' where L': "fail_interrupted_tools c now sid L = (Inr (), L')"
      "message_table (tables L') = map_rows f sid (message_table (tables L))" "epoch_table (tables L') = epoch_table (tables L)"
    using publish_interrupted [OF codec, of L now sid ?ps] inbox_after_ok [of c s ops] log_ids_fresh [of c s ops] L
    by (auto simp: fail_interrupted_eq f_def)
  have f: "is_system (f m) = is_system m" "is_compaction (f m) = is_compaction m" "message_id (f m) = message_id m" for m
    by (simp_all add: f_def)
  note seen = visible_map [OF f(1,2) L'(2)]
  have rows: "map mr_message (message_rows (tables L') sid k b) = map f (map mr_message (message_rows ?db sid k b))" for k b
    by (simp add: seen(2) o_def)
  let ?base = "map_option ep_seq (epoch_table ?db sid)" and ?k = "latest_compaction ?db sid"
  have "open_tools (map f (load_history ?db sid)) = {}"
    unfolding f_def interrupt_all_open [OF one] open_in_set by simp
  then have "no_waiting (map mr_message (message_rows (tables L') sid ?k ?base))"
    by (simp add: no_waiting_open rows load_history_def)
  then have "no_waiting (map mr_message (message_rows (tables L') sid ?k (Some baseline)))"
    using assistants_visible unfolding no_waiting_def by blast
  then have "answered [] (to_llm_messages parse model (map mr_message (entries_for_runner (tables L') sid baseline)))"
    by (simp add: answered_history entries_for_runner_def seen(1))
  moreover have "map message_id (load_history (tables L') sid) = map message_id (load_history ?db sid)"
    by (simp add: load_history_def seen(1,2) L'(3) f(3))
  ultimately show ?thesis using L'(1) by blast
qed

definition demo_crash :: "inbox_op list" where
  \<comment> \<open>a turn that never came to its end: one tool runs, the input of another streams\<close>
  "demo_crash = map (\<lambda>b. Emit \<lparr>se_metadata = None, se_session = lit ''s'', se_time = 1, se_body = b\<rparr>)
    [StepStartedE (lit ''m'') (lit ''build'') JNull None, ToolInputStartedE (lit ''m'') (lit ''c'') (lit ''bash''),
     ToolCalledE (lit ''m'') (lit ''c'') (lit ''bash'') JNull False None, ToolInputStartedE (lit ''m'') (lit ''d'') (lit ''read'')]"

lemma recovery_answers_every_call_witness:
  "open_tools (load_history (tables (inbox_after demo_codec demo_sessions demo_crash)) (lit ''s'')) \<noteq> {} \<and>
   (\<exists>L'. fail_interrupted_tools demo_codec 2 (lit ''s'') (inbox_after demo_codec demo_sessions demo_crash) = (Inr (), L') \<and>
     answered [] (to_llm_messages (\<lambda>_. None) \<lparr>md_provider = lit ''p'', md_id = lit ''m''\<rparr>
       (map mr_message (entries_for_runner (tables L') (lit ''s'') 0))))"
proof -
  let ?L = "inbox_after demo_codec demo_sessions demo_crash"
  have "map (map (ti_id \<circ> snd) \<circ> open_in) (load_history (tables ?L) (lit ''s'')) = [[lit ''c'', lit ''d'']]" by code_simp
  then have "concat (map open_in (load_history (tables ?L) (lit ''s''))) \<noteq> []" by (cases "load_history (tables ?L) (lit ''s'')") auto
  then have "open_tools (load_history (tables ?L) (lit ''s'')) \<noteq> {}" unfolding open_in_set [symmetric] by blast
  moreover have "enc demo_codec e \<noteq> None" for e by (simp add: demo_codec_def)
  moreover have "inj (fresh demo_codec)" by (simp add: demo_codec_def inj_on_def)
  moreover have "single_calls (load_history (tables ?L) (lit ''s''))" by code_simp
  ultimately show ?thesis using recovery_answers_every_call [of demo_codec ?L demo_sessions demo_crash "lit ''s''" 2] by blast
qed

end
