(* ===== verification/TurnText.thy ===== *)
theory TurnText imports TurnOutcome LlmAssembly begin

text \<open>
  The text that is persisted is the text of the response: the stream's events published into the
  session and folded into a message, against the same events assembled by the model client
  (packages/llm/src/schema/events.ts).
\<close>

section \<open>Text of the session's events\<close>

fun body_text :: "jstring \<Rightarrow> session_body \<Rightarrow> jstring" where
  "body_text i (TextDeltaE m j t) = (if j = i then t else [])"
| "body_text i b = []"

fun opened :: "jstring \<Rightarrow> session_body \<Rightarrow> bool" where
  "opened i (TextStartedE m j) = (j = i)"
| "opened i b = False"

definition text_log :: "jstring \<Rightarrow> session_event list \<Rightarrow> nat \<times> jstring" where
  \<comment> \<open>how often a block was opened, and its deltas\<close>
  "text_log i evs = (how_often (opened i) evs, concat (map (\<lambda>e. body_text i (se_body e)) evs))"

fun texts_of :: "jstring \<Rightarrow> assistant_content list \<Rightarrow> jstring list" where
  "texts_of i [] = []"
| "texts_of i (CText t # cs) = (if tx_id t = i then [tx_text t] else []) @ texts_of i cs"
| "texts_of i (c # cs) = texts_of i cs"

lemma texts_append [simp]: "texts_of i (xs @ ys) = texts_of i xs @ texts_of i ys"
  by (induction xs rule: texts_of.induct) auto

lemma texts_none: "texts_of i cs = [] \<longleftrightarrow> (\<forall>c \<in> set cs. key c \<noteq> KText i)"
  by (induction cs rule: texts_of.induct) auto

lemma texts_other:
  assumes "\<And>c. key (f c) = key c" "\<And>t. f (CText t) = CText t"
  shows "texts_of i (update_last P f cs) = texts_of i cs"
proof (induction cs)
  case (Cons c cs)
  have "texts_of i (f c # cs) = texts_of i (c # cs)"
    using assms(1) [of c] assms(2) by (cases c; cases "f c") auto
  with Cons show ?case by (cases c) auto
qed simp

lemma texts_upd_other: "j \<noteq> i \<Longrightarrow> (\<And>t. tx_id (f t) = tx_id t) \<Longrightarrow> texts_of i (upd (KText j) (on_text f) cs) = texts_of i cs"
  by (induction cs rule: texts_of.induct) (auto simp: upd_other upd_Cons)

lemma texts_upd:
  assumes "\<And>t. tx_id (f t) = tx_id t" "texts_of i cs = [v]" "\<And>t. tx_text t = v \<Longrightarrow> tx_text (f t) = w"
  shows "texts_of i (upd (KText i) (on_text f) cs) = [w]"
  using assms(2)
proof (induction cs)
  case (Cons c cs)
  show ?case
  proof (cases "key c = KText i")
    case True
    then obtain t where t: "c = CText t" "tx_id t = i" by (cases c) auto
    with Cons.prems have v: "texts_of i cs = []" "tx_text t = v" by simp_all
    then have "\<forall>c \<in> set cs. key c \<noteq> KText i" by (simp add: texts_none)
    with t v assms(1,3) show ?thesis by (simp add: upd_Cons)
  next
    case False
    then have "texts_of i (c # ds) = texts_of i ds" for ds by (cases c) auto
    with False Cons show ?thesis by (simp add: upd_other)
  qed
qed simp

section \<open>The invariant of an open block\<close>

definition live_of :: "turn_input \<Rightarrow> turn \<Rightarrow> assistant_message" where
  "live_of inp s = fold apply_owned (tl (tn_events s)) (fresh_message inp (hd (tn_events s)))"

definition text_ok :: "turn_input \<Rightarrow> jstring \<Rightarrow> turn \<Rightarrow> bool" where
  \<comment> \<open>a block that was opened once has one item, with the deltas that came\<close>
  "text_ok inp i s \<longleftrightarrow>
    (tn_events s = [] \<longrightarrow> tn_message s = None) \<and> (tn_events s \<noteq> [] \<longrightarrow> tn_message s \<noteq> None) \<and>
    (fst (text_log i (tn_events s)) = 0 \<longrightarrow> snd (text_log i (tn_events s)) = [] \<and> map_of (tn_text s) i = None \<and>
      (tn_events s \<noteq> [] \<longrightarrow> texts_of i (am_content (live_of inp s)) = [])) \<and>
    (fst (text_log i (tn_events s)) = 1 \<longrightarrow> texts_of i (am_content (live_of inp s)) = [snd (text_log i (tn_events s))] \<and>
      (\<forall>cur. map_of (tn_text s) i = Some cur \<longrightarrow> concat cur = snd (text_log i (tn_events s))))"

lemma text_log_snoc: "text_log i (evs @ [e]) =
    (fst (text_log i evs) + (if opened i (se_body e) then 1 else 0), snd (text_log i evs) @ body_text i (se_body e))"
  by (simp add: text_log_def)

lemma text_log_Nil [simp]: "text_log i [] = (0, [])"
  by (simp add: text_log_def)

lemma live_snoc: "tn_events s \<noteq> [] \<Longrightarrow> tn_events s' = tn_events s @ [e] \<Longrightarrow> live_of inp s' = apply_owned e (live_of inp s)"
  by (simp add: live_of_def)

fun text_event :: "session_body \<Rightarrow> bool" where
  "text_event (TextStartedE m i) = True"
| "text_event (TextDeltaE m i t) = True"
| "text_event (TextEndedE m i t) = True"
| "text_event b = False"

lemma other_texts: "\<not> text_event (se_body e) \<Longrightarrow> texts_of i (am_content (apply_owned e a)) = texts_of i (am_content a)"
proof -
  assume e: "\<not> text_event (se_body e)"
  have tool: "texts_of i (update_last P (on_tool f) cs) = texts_of i cs" if "\<And>t. ti_id (f t) = ti_id t" for P f cs
    by (rule texts_other, case_tac c) (use that in auto)
  have reasoning: "texts_of i (update_last P (on_reasoning f) cs) = texts_of i cs" if "\<And>r. rs_id (f r) = rs_id r" for P f cs
    by (rule texts_other, case_tac c) (use that in auto)
  have progress: "ti_id (tool_progress v c t) = ti_id t" for v c t by (simp add: tool_progress_def split: tool_state.split)
  show ?thesis using e
    by (cases "se_body e") (auto simp: apply_owned_def latest_tool_def latest_reasoning_def push_content_def edit_content_def
        step_failed_def step_ended_def Let_def tool reasoning tool_keeps progress)
qed

lemma text_ok_other:
  assumes ok: "text_ok inp i s" and ne: "tn_events s \<noteq> []"
    and s': "tn_events s' = tn_events s @ [e]" "tn_message s' = tn_message s" "tn_text s' = tn_text s" and e: "\<not> text_event (se_body e)"
  shows "text_ok inp i s'"
proof -
  have "text_log i (tn_events s') = text_log i (tn_events s)"
    unfolding s' text_log_snoc using e by (cases "se_body e") auto
  with ok ne s' other_texts [OF e] live_snoc [OF ne s'(1), of inp] show ?thesis by (auto simp: text_ok_def)
qed

lemma text_ok_blocks:
  assumes ok: "text_ok inp i s" and m: "tn_message s = Some m"
    and s': "tn_events s' = tn_events s @ [e]" "tn_message s' = tn_message s"
    and step: "(\<exists>j. se_body e = TextStartedE m j \<and> map_of (tn_text s) j = None \<and> tn_text s' = map_set (tn_text s) j []) \<or>
      (\<exists>j cur t. se_body e = TextDeltaE m j t \<and> map_of (tn_text s) j = Some cur \<and> tn_text s' = map_set (tn_text s) j (cur @ [t])) \<or>
      (\<exists>j cur. se_body e = TextEndedE m j (concat cur) \<and> map_of (tn_text s) j = Some cur \<and> tn_text s' = map_delete (tn_text s) j)"
  shows "text_ok inp i s'"
proof -
  have ne: "tn_events s \<noteq> []" using ok m by (auto simp: text_ok_def)
  note live = live_snoc [OF ne s'(1), of inp]
  from step show ?thesis
  proof (elim disjE exE conjE)
    fix j assume e: "se_body e = TextStartedE m j" "tn_text s' = map_set (tn_text s) j []"
    have "texts_of i (am_content (live_of inp s')) = texts_of i (am_content (live_of inp s)) @ (if j = i then [[]] else [])"
      by (simp add: live apply_owned_def e push_content_def edit_content_def)
    moreover have "text_log i (tn_events s') = (fst (text_log i (tn_events s)) + (if j = i then 1 else 0), snd (text_log i (tn_events s)))"
      by (simp add: s' text_log_snoc e)
    ultimately show ?thesis using ok ne s' e by (auto simp: text_ok_def)
  next
    fix j cur t assume e: "se_body e = TextDeltaE m j t" "map_of (tn_text s) j = Some cur" "tn_text s' = map_set (tn_text s) j (cur @ [t])"
    have lg: "text_log i (tn_events s') = (fst (text_log i (tn_events s)), snd (text_log i (tn_events s)) @ (if j = i then t else []))"
      by (simp add: s' text_log_snoc e)
    have lc: "am_content (live_of inp s') = upd (KText j) (on_text (\<lambda>x. x\<lparr>tx_text := tx_text x @ t\<rparr>)) (am_content (live_of inp s))"
      by (simp add: live apply_owned_def e latest_item_upd edit_content_def)
    show ?thesis
    proof (cases "j = i")
      case True
      have "texts_of i (am_content (live_of inp s')) = [v @ t]" if "texts_of i (am_content (live_of inp s)) = [v]" for v
        unfolding lc True by (rule texts_upd [OF _ that]) simp_all
      with ok ne s' e lg True show ?thesis by (auto simp: text_ok_def)
    next
      case False
      then have "texts_of i (am_content (live_of inp s')) = texts_of i (am_content (live_of inp s))"
        unfolding lc by (intro texts_upd_other) simp_all
      with ok ne s' e lg False show ?thesis by (auto simp: text_ok_def)
    qed
  next
    fix j cur assume e: "se_body e = TextEndedE m j (concat cur)" "map_of (tn_text s) j = Some cur" "tn_text s' = map_delete (tn_text s) j"
    have lg: "text_log i (tn_events s') = text_log i (tn_events s)" by (simp add: s' text_log_snoc e)
    have lc: "am_content (live_of inp s') = upd (KText j) (on_text (\<lambda>x. x\<lparr>tx_text := concat cur\<rparr>)) (am_content (live_of inp s))"
      by (simp add: live apply_owned_def e latest_item_upd edit_content_def)
    show ?thesis
    proof (cases "j = i")
      case True
      have "texts_of i (am_content (live_of inp s')) = [concat cur]" if "texts_of i (am_content (live_of inp s)) = [v]" for v
        unfolding lc True by (rule texts_upd [OF _ that]) simp_all
      with ok ne s' e lg True show ?thesis by (auto simp: text_ok_def)
    next
      case False
      then have "texts_of i (am_content (live_of inp s')) = texts_of i (am_content (live_of inp s))"
        unfolding lc by (intro texts_upd_other) simp_all
      with ok ne s' e lg False show ?thesis by (auto simp: text_ok_def)
    qed
  qed
qed

lemma text_ok_step: "turn_step q inp s s' \<Longrightarrow> turn_ok s \<Longrightarrow> text_ok inp i s \<Longrightarrow> text_ok inp i s'"
proof (induction rule: turn_step.induct)
  case (start s)
  then have "tn_events s = []" "tn_text s = []" using turn_okD(10) [OF start(2)] by (auto simp: text_ok_def)
  then show ?case
    by (simp add: text_ok_def live_of_def fresh_message_def new_assistant_def text_log_snoc [of i "[]", simplified] text_log_def)
next
  case (flags s a p z)
  then show ?case by (simp add: text_ok_def live_of_def)
next
  case (text_start s m j)
  then show ?case by (intro text_ok_blocks [OF text_start(4,1)]) auto
next
  case (text_delta s m j cur t)
  then show ?case by (intro text_ok_blocks [OF text_delta(4,1)]) auto
next
  case (text_end s m j cur)
  then show ?case by (intro text_ok_blocks [OF text_end(4,1)]) auto
next
  case (settled s j t b)
  have "\<not> text_event b" using settled(3) by (cases b) auto
  moreover have "tn_events s \<noteq> []" using settled turn_okD(8) [OF settled(6) settled(1)] by (auto simp: text_ok_def)
  ultimately show ?case by (intro text_ok_other [OF settled(7)]) (assumption, simp, simp_all)
next
  case (input_delta s j t cur x)
  have "tn_events s \<noteq> []" using input_delta turn_okD(8) [OF input_delta(3) input_delta(1)] by (auto simp: text_ok_def)
  then show ?case by (intro text_ok_other [OF input_delta(4)]) (assumption, simp, simp_all)
next
  case (input_end s j t cur)
  have "tn_events s \<noteq> []" using input_end turn_okD(8) [OF input_end(3) input_end(1)] by (auto simp: text_ok_def)
  then show ?case by (intro text_ok_other [OF input_end(4)]) (assumption, simp, simp_all)
next
  case (called s j t name v x md)
  have "tn_events s \<noteq> []" using called turn_okD(8) [OF called(4) called(1)] by (auto simp: text_ok_def)
  then show ?case by (intro text_ok_other [OF called(5)]) (assumption, simp, simp_all)
next
  case (reasoning_start s m j md)
  then have "tn_events s \<noteq> []" by (auto simp: text_ok_def)
  then show ?case by (intro text_ok_other [OF reasoning_start(4)]) (assumption, simp, simp_all)
next
  case (reasoning_delta s m j cur t)
  then have "tn_events s \<noteq> []" by (auto simp: text_ok_def)
  then show ?case by (intro text_ok_other [OF reasoning_delta(4)]) (assumption, simp, simp_all)
next
  case (reasoning_end s m j cur md)
  then have "tn_events s \<noteq> []" by (auto simp: text_ok_def)
  then show ?case by (intro text_ok_other [OF reasoning_end(4)]) (assumption, simp, simp_all)
next
  case (input_start s m j name)
  then have "tn_events s \<noteq> []" by (auto simp: text_ok_def)
  then show ?case by (intro text_ok_other [OF input_start(5)]) (assumption, simp, simp_all)
next
  case (failed s m msg)
  then have "tn_events s \<noteq> []" by (auto simp: text_ok_def)
  then show ?case by (intro text_ok_other [OF failed(4)]) (assumption, simp, simp_all)
next
  case (ended s m fin cost counts snap files)
  then have "tn_events s \<noteq> []" by (auto simp: text_ok_def)
  then show ?case by (intro text_ok_other [OF ended(3)]) (assumption, simp, simp_all)
qed

lemma run_calls_text: "text_ok inp i (run_calls inp cs)"
proof (rule run_calls_invariant)
  show "text_ok inp i new_turn" by (simp add: text_ok_def new_turn_def)
qed (rule text_ok_step)

section \<open>What a call publishes of a block\<close>

definition quiet :: "jstring \<Rightarrow> 'a effect \<Rightarrow> bool" where
  \<comment> \<open>opens no such block and adds no delta to it\<close>
  "quiet i m \<longleftrightarrow> (\<forall>s. text_log i (tn_events (snd (m s))) = text_log i (tn_events s))"

lemma quiet_ret: "quiet i (ret x)" and quiet_die: "quiet i (die d)"
  by (simp_all add: quiet_def ret_def die_def)

lemma quiet_bind: "quiet i m \<Longrightarrow> (\<And>x. quiet i (k x)) \<Longrightarrow> quiet i (bind m k)"
  by (auto simp: quiet_def bind_def split: prod.split sum.split) (metis snd_conv)+

lemma quiet_seq: "quiet i m \<Longrightarrow> quiet i k \<Longrightarrow> quiet i (seq m k)"
  unfolding seq_def by (rule quiet_bind)

lemma quiet_emit: "\<not> opened i b \<Longrightarrow> body_text i b = [] \<Longrightarrow> quiet i (emit inp b)"
  by (simp add: quiet_def emit_def change_def text_log_snoc)

lemma quiet_change: "(\<And>s. tn_events (f s) = tn_events s) \<Longrightarrow> quiet i (change f)"
  by (simp add: quiet_def change_def)

lemma quiet_cases: "(\<And>s. quiet i (m s)) \<Longrightarrow> quiet i (\<lambda>s. m s s)"
  by (simp add: quiet_def)

lemma quiet_each: "(\<And>x. quiet i (f x)) \<Longrightarrow> quiet i (each f xs)"
  by (induction xs) (auto intro: quiet_ret quiet_seq)

lemma quiet_with_tool: "(\<And>t. quiet i (k t)) \<Longrightarrow> quiet i (with_tool j d k)"
  by (simp add: quiet_def with_tool_def die_def split: option.split)

lemma quiet_set_tool: "quiet i (set_tool j t)"
  unfolding set_tool_def by (rule quiet_change) simp

lemma quiet_current: "quiet i current_assistant"
  by (simp add: quiet_def current_assistant_def ret_def die_def split: option.split)

lemma quiet_start: "quiet i (start_assistant inp)"
  by (simp add: quiet_def start_assistant_def effects text_log_snoc split: option.split)

definition lawful :: "fragments \<Rightarrow> bool" where
  "lawful fr \<longleftrightarrow> (\<forall>m s. tn_events (fr_put fr m s) = tn_events s)"

lemma lawful_fragments: "lawful text_fragments" "lawful reasoning_fragments" "lawful input_fragments"
  by (simp_all add: lawful_def text_fragments_def reasoning_fragments_def input_fragments_def)

lemma quiet_fragment_start: "lawful fr \<Longrightarrow> quiet i (fragment_start fr j)"
  by (simp add: quiet_def fragment_start_def die_def change_def lawful_def)

lemma quiet_fragment_append: "lawful fr \<Longrightarrow> quiet i (fragment_append fr j t)"
  by (simp add: quiet_def fragment_append_def die_def change_def lawful_def split: option.split)

lemma quiet_fragment_end:
  assumes "lawful fr" "\<And>v. quiet i (fr_ended fr inp j v md)"
  shows "quiet i (fragment_end inp fr j md)"
proof -
  have "quiet i (seq (fr_ended fr inp j (concat cur) md) (change (\<lambda>s. fr_put fr (map_delete (fr_get fr s) j) s)))" for cur
    by (intro quiet_seq assms(2) quiet_change) (use assms(1) in \<open>simp add: lawful_def\<close>)
  then show ?thesis by (simp add: quiet_def fragment_end_def die_def split: option.split)
qed

lemma quiet_ends: "quiet i (fragment_end inp text_fragments j md)" "quiet i (fragment_end inp reasoning_fragments j md)"
  "quiet i (fragment_end inp input_fragments j md)"
  by (rule quiet_fragment_end [OF lawful_fragments(1)], auto simp: text_fragments_def intro!: quiet_bind quiet_current quiet_emit)
    (rule quiet_fragment_end [OF lawful_fragments(2)], auto simp: reasoning_fragments_def intro!: quiet_bind quiet_current quiet_emit,
     rule quiet_fragment_end [OF lawful_fragments(3)], auto simp: input_fragments_def intro!: quiet_with_tool quiet_seq quiet_emit quiet_set_tool)

lemma quiet_flush: "quiet i (flush inp)"
proof -
  have loop: "quiet i (fragment_flush inp fr)" if "\<And>j. quiet i (fragment_end inp fr j None)" for fr
    using quiet_each [of i "\<lambda>j. fragment_end inp fr j None", OF that] by (simp add: quiet_def fragment_flush_def)
  then show ?thesis unfolding flush_def by (intro quiet_seq loop quiet_ends)
qed

lemma quiet_start_tool: "quiet i (start_tool_input inp j name)"
proof -
  have "quiet i (bind (start_assistant inp) (\<lambda>m. seq (set_tool j (t m)) (seq (fragment_start input_fragments j) (emit inp (ToolInputStartedE m j name)))))" for t
    by (intro quiet_bind quiet_start quiet_seq quiet_set_tool quiet_fragment_start lawful_fragments quiet_emit) simp_all
  then show ?thesis by (simp add: quiet_def start_tool_input_def die_def)
qed

lemma quiet_end_tool: "quiet i (end_tool_input inp j name)"
  unfolding end_tool_input_def by (rule quiet_with_tool) (simp add: quiet_die quiet_ends)

lemma quiet_fail_assistant: "quiet i (fail_assistant inp msg)"
proof -
  have "quiet i (seq (flush inp) (bind (start_assistant inp) (\<lambda>m.
       seq (change (\<lambda>s. s\<lparr>tn_active := False, tn_failed := True\<rparr>)) (emit inp (StepFailedE m msg)))))"
    by (intro quiet_seq quiet_flush quiet_bind quiet_start quiet_change quiet_emit) simp_all
  then show ?thesis by (simp add: quiet_def fail_assistant_def ret_def)
qed

lemma quiet_call: "quiet i (publish_tool_call inp j name v pe md)"
proof -
  have "quiet i (\<lambda>s. if map_of (tn_tools s) j = None then start_tool_input inp j name s else ret () s)"
    using quiet_start_tool [of i inp j name] by (simp add: quiet_def ret_def)
  then show ?thesis unfolding publish_tool_call_def
    by (intro quiet_seq quiet_with_tool) (auto intro!: quiet_ret quiet_die quiet_end_tool quiet_seq quiet_set_tool quiet_emit)
qed

lemma quiet_result: "quiet i (publish_tool_result inp paths j name r out pe md)"
  unfolding publish_tool_result_def
  by (rule quiet_with_tool) (auto simp: Let_def intro!: quiet_die quiet_ret quiet_seq quiet_set_tool quiet_emit
      split: option.split sum.split tool_result_value.split)

lemma quiet_step_finish: "quiet i (publish_step_finish inp reason u)"
proof -
  have "quiet i (\<lambda>s. if tn_settlement s \<noteq> None then die Duplicate_Finish s else change (\<lambda>s. s\<lparr>tn_settlement := Some (reason, tokens u)\<rparr>) s)"
    by (simp add: quiet_def die_def change_def)
  then show ?thesis unfolding publish_step_finish_def by (intro quiet_seq quiet_flush quiet_change) simp_all
qed

fun text_starts :: "jstring \<Rightarrow> llm_event \<Rightarrow> bool" where
  "text_starts i (TextStart j md) = (j = i)"
| "text_starts i e = False"

lemma publish_text:
  assumes "publish_llm_event inp paths e s = (Inr (), s')"
  shows "text_log i (tn_events s') =
    (fst (text_log i (tn_events s)) + (if text_starts i e then 1 else 0), snd (text_log i (tn_events s)) @ text_of_id i e)"
proof -
  have still: "text_log i (tn_events s') = text_log i (tn_events s)" if "quiet i (publish_llm_event inp paths e)"
    using that assms unfolding quiet_def by (metis snd_conv)
  show ?thesis
  proof (cases e)
    case (TextStart j md)
    have "quiet i (start_assistant inp)" by (rule quiet_start)
    with TextStart assms show ?thesis
      by (auto simp: fragment_start_def text_fragments_def effects text_log_snoc quiet_def split: if_split_asm sum.split_asm prod.split_asm)
        (metis (no_types, lifting) fst_conv snd_conv turn.select_convs(10) turn.surjective turn.update_convs(2))+
  next
    case (TextDelta j t md)
    with assms show ?thesis
      by (auto simp: fragment_append_def text_fragments_def current_assistant_def effects text_log_snoc split: option.split_asm)
  next
    case (ToolError j name msg er md)
    then show ?thesis
      by (intro still [THEN trans]) (auto simp: publish_tool_error_def intro!: quiet_with_tool quiet_die quiet_seq quiet_set_tool quiet_emit)
  next
    case (ToolInputDelta j name t)
    then show ?thesis
      by (intro still [THEN trans]) (auto simp: publish_tool_delta_def intro!: quiet_with_tool quiet_die quiet_seq quiet_emit
          quiet_fragment_append lawful_fragments)
  next
    case (ReasoningStart j md)
    then show ?thesis
      by (intro still [THEN trans]) (auto intro!: quiet_seq quiet_fragment_start lawful_fragments quiet_bind quiet_start quiet_emit)
  next
    case (ReasoningDelta j t md)
    then show ?thesis
      by (intro still [THEN trans]) (auto intro!: quiet_seq quiet_fragment_append lawful_fragments quiet_bind quiet_current quiet_emit)
  next
    case (ProviderError msg c r md)
    then show ?thesis
      by (intro still [THEN trans]) (auto intro!: quiet_seq quiet_change quiet_fail_assistant)
  qed (use still in \<open>simp_all add: quiet_ret quiet_ends quiet_start_tool quiet_end_tool quiet_call quiet_result quiet_step_finish\<close>)
qed


section \<open>A stream that was published whole\<close>

lemma each_text:
  "each (publish_llm_event inp []) evs s = (Inr (), s') \<Longrightarrow>
    fold (\<lambda>c s. snd (call_turn inp c s)) (map (\<lambda>e. Llm e []) evs) s = s' \<and>
    text_log i (tn_events s') = (fst (text_log i (tn_events s)) + length (filter (text_starts i) evs),
      snd (text_log i (tn_events s)) @ concat (map (text_of_id i) evs))"
proof (induction evs arbitrary: s)
  case Nil
  then show ?case by (simp add: ret_def)
next
  case (Cons e evs)
  obtain s1 where s1: "publish_llm_event inp [] e s = (Inr (), s1)" "each (publish_llm_event inp []) evs s1 = (Inr (), s')"
    using Cons.prems by (cases "publish_llm_event inp [] e s") (auto simp: seq_def bind_def split: sum.split_asm)
  from Cons.IH [OF s1(2)] publish_text [OF s1(1), of i] s1(1) show ?case by simp
qed

lemma live_message:
  assumes "tn_events (run_calls inp cs) \<noteq> []"
  shows "update_all memory (tn_events (run_calls inp cs)) [] = Some [AssistantMessage (live_of inp (run_calls inp cs))]"
proof -
  from assms run_calls_log [of inp cs] obtain e0 es where log: "turn_log inp (run_calls inp cs) e0 es" by blast
  then have evs: "tn_events (run_calls inp cs) = e0 # es" and e0: "turn_start inp e0"
    and body: "\<And>e. e \<in> set es \<Longrightarrow> turn_body (am_id (fresh_message inp e0)) (se_body e)"
    by (auto simp: turn_log_def fresh_message_def new_assistant_def)
  have "before_turn (se_time e0) [] = []" by (simp add: before_turn_def memory_current_assistant_def)
  with update_turn_start [OF e0, of "[]"] update_all_turn [of es "fresh_message inp e0" "[]"] body evs show ?thesis
    by (simp add: live_of_def)
qed

text \<open>C9. The text that is persisted is the text of the response: when the provider's events are published
  without a defect and open a text block once, the durable events of the turn (which hold no delta) make an
  assistant message with one text of that id, and it is the text the model client assembles from the same
  events, however blocks, reasoning and tool calls were interleaved.\<close>

theorem persisted_text_is_the_response_text:
  assumes stream: "each (publish_llm_event inp []) evs new_turn = (Inr (), s)" and once: "length (filter (text_starts i) evs) = 1"
  shows "\<exists>a. update_all memory (filter durable (tn_events (snd (flush inp s)))) [] = Some [AssistantMessage a] \<and>
    texts_of i (am_content a) = [block_text (text_parts (reduce_all evs)) i]"
proof -
  let ?cs = "map (\<lambda>e. Llm e []) evs @ [Flush]"
  have s: "snd (flush inp s) = run_calls inp ?cs" using each_text [OF stream] by (simp add: run_calls_def)
  have "text_log i (tn_events (snd (flush inp s))) = text_log i (tn_events s)" using quiet_flush by (simp add: quiet_def)
  with each_text [OF stream, of i] once reduce_all_facts [of evs i]
  have lg: "text_log i (tn_events (run_calls inp ?cs)) = (1, block_text (text_parts (reduce_all evs)) i)"
    by (simp add: s new_turn_def)
  then have ne: "tn_events (run_calls inp ?cs) \<noteq> []" by auto
  from flush_closes [OF run_calls_ok [of inp "map (\<lambda>e. Llm e []) evs"], of inp] live_and_durable [of inp ?cs "[]"] live_message [OF ne]
  have "update_all memory (filter durable (tn_events (run_calls inp ?cs))) [] = Some [AssistantMessage (live_of inp (run_calls inp ?cs))]"
    by (simp add: run_calls_def)
  moreover have "texts_of i (am_content (live_of inp (run_calls inp ?cs))) = [block_text (text_parts (reduce_all evs)) i]"
    using run_calls_text [of inp i ?cs] lg by (simp add: text_ok_def)
  ultimately show ?thesis unfolding s by blast
qed

definition demo_stream :: "llm_event list" where
  "demo_stream = [TextStart (lit ''a'') None, TextDelta (lit ''a'') (lit ''Hel'') None, ReasoningStart (lit ''r'') None,
     TextDelta (lit ''a'') (lit ''lo'') None, ReasoningEnd (lit ''r'') None]"

lemma persisted_text_is_the_response_text_witness:
  "\<exists>a. update_all memory (filter durable (tn_events (snd (flush demo_input (snd (each (publish_llm_event demo_input []) demo_stream new_turn)))))) [] =
      Some [AssistantMessage a] \<and> texts_of (lit ''a'') (am_content a) = [lit ''Hello'']"
proof -
  have "fst (each (publish_llm_event demo_input []) demo_stream new_turn) = Inr ()" by code_simp
  then have stream: "each (publish_llm_event demo_input []) demo_stream new_turn =
      (Inr (), snd (each (publish_llm_event demo_input []) demo_stream new_turn))" by (metis prod.collapse)
  have once: "length (filter (text_starts (lit ''a'')) demo_stream) = 1" by code_simp
  have "block_text (text_parts (reduce_all demo_stream)) (lit ''a'') = lit ''Hello''" by code_simp
  with persisted_text_is_the_response_text [OF stream once] show ?thesis by simp
qed

end
