(* ===== verification/Spec2Isabelle.thy ===== *)
theory Spec2Isabelle imports Main Anthropic AnthropicProps AttemptLog AttemptProps BackgroundJob BackgroundJobInv BackgroundJobProps ChatProps Compaction CompactionProps ContextEpoch EditProps EditTool EventLog EventReplay EventStream InboxOrder InboxProps Inevitable JobFamily JsFloat JsJson JsText Levenshtein Lifecycle LineMatch LlmAssembly LlmEvents LlmMessages LlmStream MessageProjector MessageUpdater OpenAIChat Patch PatchAgree PatchDerive PatchRoundtrip PatchV1 Permission PermissionUI Prelude Projection QuestionUI ReplacerLaws Replacers RunCoordinator RunState RunStateProps RunnerTurn SessionDatabase SessionDrain SessionInbox SessionMessages SessionRecovery SystemContext ToolPairing ToolStream TurnAttempt TurnMessage TurnOutcome TurnProps TurnPublisher TurnSteps TurnText Wildcard WorkRunner WorkRunnerProps  begin

text \<open>
  Verification library for the engine of opencode, the TypeScript sources under
  src/reference/packages. Paths below are relative to that directory.

  The program. A user's prompt is admitted to a session's inbox (core/src/session/input.ts) and
  promoted into its history by the session's drain (core/src/session/runner/llm.ts), of which the run
  coordinator (core/src/session/run-coordinator.ts) runs at most one at a time. A turn of the drain
  streams a response from a provider: a protocol parser of the llm package turns the decoded events of the
  wire into the events of llm/src/schema/events.ts, the publisher
  (core/src/session/runner/publish-llm-event.ts) turns those into session events, and the durable event log
  (core/src/event.ts) commits each of these in one transaction with its projection into the tables of the
  session (core/src/session/projector.ts, message-updater.ts). Tools edit files (opencode/src/tool/edit.ts,
  the two patch modules) after the permission service (opencode/src/permission/index.ts) has allowed it.

  Conventions. A JavaScript string is the list of its UTF-16 code units (\<open>jstring\<close>, literals \<open>lit ''abc''\<close>);
  a \<open>Map\<close> or an object used as one is an insertion-ordered association list (\<open>jsmap\<close>). Code that can
  throw, fail or die returns a sum whose left side is the error. Code between two suspensions of a fiber is
  one step of a state machine; who runs when is left open by quantifying over sequences of operations.
  Services outside the sources (JSON decoding, schemas, the diff library, the formatter, prompts to the
  user, clocks and fresh ids) are arguments of the definitions that use them.

  Theories, in the order of the program's layers.
  \<^item> Prelude: results, maps, splicing and indexed writes. JsText: string methods. JsFloat: similarity ratios
    as rounded rationals. JsJson: JSON values and their text.
  \<^item> Wildcard, Permission: core/src/util/wildcard.ts with its rewriting to a regular expression, and the
    permission service with its table of pending requests, deferreds and announcements. The locale
    \<open>rule_matching\<close> states what rule evaluation needs of a matcher.
  \<^item> Patch, PatchDerive, PatchRoundtrip, PatchV1, PatchAgree: core/src/patch.ts and
    opencode/src/patch/index.ts; where \<open>seek\<close> lands (locale \<open>line_compare\<close>), that replacements are
    disjoint and spliced as one rewrite, the printer the parser inverts, and where the two modules differ.
  \<^item> LineMatch, Levenshtein, Replacers, ReplacerLaws, EditTool, EditProps: the edit tool. Each replacer
    interprets the locale \<open>replacer\<close>; the edit distance is proved optimal.
  \<^item> LlmEvents, LlmAssembly: events of a stream and the response assembled from them (locale
    \<open>block_store\<close>). Lifecycle, ToolStream, LlmStream: the helpers every protocol shares, with the locales
    \<open>lifecycle_op\<close> (an operation emits a piece of a well-bracketed trace) and \<open>stream_parser\<close> (a parser
    whose steps do). OpenAIChat, ChatProps, Anthropic, AnthropicProps: two parsers, interpreted in them.
  \<^item> RunCoordinator: keys, entries and drain fibers as a step relation with its invariant.
  \<^item> EventLog, EventReplay, EventStream: the log, its replicas, and the durable streams of its readers
    (locale \<open>durable_feed\<close>).
  \<^item> SessionMessages, MessageUpdater, MessageProjector, SessionDatabase, SessionInbox: messages and events of
    a session, the fold of events into messages over an adapter (locale \<open>message_store\<close>, interpreted by the
    memory and by the rows of the database), the tables and their projectors, and the inbox.
    InboxProps, InboxOrder, Projection: what a sequence of inbox operations keeps.
  \<^item> TurnPublisher, TurnSteps, TurnProps, TurnMessage, TurnOutcome, TurnText: the publisher of a turn, its
    small steps, and what the published events amount to.
  \<^item> LlmMessages, ToolPairing: the history as the messages of a request
    (core/src/session/runner/to-llm-message.ts), and when a request answers all its tool calls.
  \<^item> SystemContext, ContextEpoch: sources of the system context (core/src/system-context; locales
    \<open>context_source\<close> and \<open>codec_source\<close>), and the epoch of a session with the queries of its history
    (core/src/session/context-epoch.ts, history.ts).
  \<^item> SessionDrain, SessionRecovery: the drain of a session and what it repairs first
    (\<open>run\<close>, \<open>runTurn\<close> and \<open>failInterruptedTools\<close> of core/src/session/runner/llm.ts).
  \<^item> Compaction, CompactionProps: the compaction of a session (core/src/session/compaction.ts): what is
    summarised and what is kept, its budget, and that it is not repeated.
  \<^item> PermissionUI: the permission dialog (opencode/src/cli/cmd/run/permission.shared.ts and
    footer.permission.tsx).
  \<^item> TurnAttempt, AttemptProps, AttemptLog, RunnerTurn: one attempt of a turn, from its opening over the request,
    the compactions, the stream and the tools that run beside it to its settlement (\<open>runTurnAttempt\<close> of
    core/src/session/runner/llm.ts), what it leaves in the log (locale \<open>settling_law\<close>), and that a turn that
    returns is one of the scripts the drain is modelled over.
  \<^item> WorkRunner, WorkRunnerProps: one work at a time for a session of the opencode package
    (opencode/src/effect/runner.ts): runs, shells, the run that waits behind a shell, and cancellation
    (locale \<open>winding_down\<close>). A cancellation that was begun goes on to its end; what is left where its caller
    is interrupted while it waits is a definition of its own, outside the steps and the properties.
  \<^item> BackgroundJob, BackgroundJobInv, BackgroundJobProps: the registry of background jobs
    (core/src/background-job.ts), whose pieces form a chain; Inevitable holds what is said of all orders of steps.
    The owner may close the scope of the registry at any time, and then waiters may be left without an answer.
  \<^item> RunState, RunStateProps, JobFamily: the runners of the sessions (opencode/src/session/run-state.ts), when
    their map loses one, and the cancelling of the jobs that descend from a session. The finalizer of the map is a
    definition and not one of the steps.
  \<^item> QuestionUI: the question form (opencode/src/cli/cmd/run/question.shared.ts, footer.question.tsx).

  Each property is a theorem after a text that gives its number; a witness applies it to a concrete input.

  Bounds and fuel. No definition of a component is bounded by fuel except where this text says so:
  recursions are structural or have a measure, and loops of concurrent code are sequences of steps. The
  drain (\<open>SessionDrain.drain\<close>) has fuel for the turns it takes; \<open>run_returns\<close> shows that a round of steps for
  each waiting input and one more are enough.

  Assumptions of the model. Handlers are atomic between suspensions; the publisher's calls run one at a
  time, as under the permit the runner takes; publishing an event of a turn succeeds
  (in TurnPublisher; the inbox, the context and the drain are over the log and its failures). Case folding of
  wildcards is that of Latin-1. Keys of objects are not names of \<open>Object.prototype\<close>. Token counts and times
  are integers, tool indexes natural numbers. Doubles in the edit tool are rational approximations rounded
  as IEEE does.

  Not modelled: the request side of protocols unless named above, the user interfaces except the dialogs
  above, the legacy session loop of the opencode package, configuration, MCP, LSP and ACP clients, git
  and process handling, HTTP servers and generated code, and the Rust port. They are tables, glue around
  libraries, or services over the operating system.
\<close>

end
